(* ===== verification/Prelude.thy ===== *)
theory Prelude
  imports Main "HOL-Library.Word"
begin

text \<open>
  What the components of the development share.

  \<^item> the machine integers of the sources (\<open>std::uint8_t\<close> to \<open>std::uint64_t\<close>);
  \<^item> the interface of an ordered map (\<open>std::map\<close>, or a vector kept sorted by key) as a
    locale with the laws its clients rely on, and the facts every client uses, proved once;
  \<^item> the model of \<open>std::map\<close> as a key-sorted association list, and its interpretation;
  \<^item> \<open>std::to_string\<close>, and small facts on strictly sorted lists.
\<close>

section \<open>Integers\<close>

type_synonym u8 = "8 word"
type_synonym u16 = "16 word"
type_synonym u32 = "32 word"
type_synonym u64 = "64 word"

unbundle bit_operations_syntax

text \<open>The test of one bit of a mask.\<close>

lemma and_single_bit: "(w AND push_bit n 1 = (0 :: 'a :: len word)) \<longleftrightarrow> \<not> bit w n"
proof
  assume "w AND push_bit n 1 = 0"
  then have "\<not> bit (w AND push_bit n 1) n" by (metis bit_0_eq bot_apply bot_bool_def)
  then show "\<not> bit w n" by (auto simp: bit_simps dest: bit_imp_le_length)
next
  assume "\<not> bit w n"
  then show "w AND push_bit n 1 = 0" by (intro bit_word_eqI) (auto simp: bit_simps)
qed

named_theorems map_model \<open>lookups in the ordered-map models after an operation\<close>

section \<open>Decimal numbers\<close>

text \<open>\<open>std::to_string\<close> of an unsigned number.\<close>

definition digit_char :: "nat \<Rightarrow> char" where
  "digit_char d = char_of (48 + d)"

fun to_string :: "nat \<Rightarrow> string" where
  "to_string n = (if n < 10 then [digit_char n] else to_string (n div 10) @ [digit_char (n mod 10)])"

declare to_string.simps [simp del]

section \<open>Strictly sorted lists\<close>

abbreviation strictly_sorted :: "'a::linorder list \<Rightarrow> bool" where
  "strictly_sorted \<equiv> sorted_wrt (<)"

lemma strictly_sorted_unique:
  assumes "strictly_sorted xs" and "strictly_sorted ys" and "set xs = set ys"
  shows "xs = ys"
  using assms by (simp add: strict_sorted_equal)

lemma strictly_sorted_distinct: "strictly_sorted xs \<Longrightarrow> distinct xs"
  by (induction xs) auto

lemma strictly_sorted_filter: "strictly_sorted xs \<Longrightarrow> strictly_sorted (filter P xs)"
  by (induction xs) auto

lemma takeWhile_less_sorted:
  "strictly_sorted xs \<Longrightarrow> x \<in> set (takeWhile (\<lambda>y. y < (k::'a::linorder)) xs) \<longleftrightarrow> x \<in> set xs \<and> x < k"
  by (induction xs) auto

lemma dropWhile_less_sorted:
  "strictly_sorted xs \<Longrightarrow> x \<in> set (dropWhile (\<lambda>y. y < (k::'a::linorder)) xs) \<longleftrightarrow> x \<in> set xs \<and> k \<le> x"
  by (induction xs) auto

lemma strictly_sorted_insert_mid:
  assumes "strictly_sorted xs" and "(k::'a::linorder) \<notin> set xs"
  shows "strictly_sorted (takeWhile (\<lambda>y. y < k) xs @ k # dropWhile (\<lambda>y. y < k) xs)"
  using assms
proof (induction xs)
  case Nil
  then show ?case by simp
next
  case (Cons x xs)
  show ?case
  proof (cases "x < k")
    case True
    with Cons show ?thesis
      by (auto simp: takeWhile_less_sorted dropWhile_less_sorted)
  next
    case False
    with Cons.prems have "k < x" and "\<forall>y\<in>set xs. x < y" and "strictly_sorted xs"
      by auto
    with False show ?thesis by (simp add: less_trans)
  qed
qed

section \<open>The interface of an ordered map\<close>

text \<open>
  The laws are those of a finite map with its keys enumerated in ascending order. \<open>ins\<close> is
  only required to behave on a key that is absent: a vector kept sorted would hold the key twice
  otherwise.
\<close>

locale ordered_map =
  fixes look :: "'m \<Rightarrow> 'k::linorder \<Rightarrow> 'v option"
    and ins :: "'k \<Rightarrow> 'v \<Rightarrow> 'm \<Rightarrow> 'm"
    and del :: "'k \<Rightarrow> 'm \<Rightarrow> 'm"
    and ks :: "'m \<Rightarrow> 'k list"
    and invar :: "'m \<Rightarrow> bool"
  assumes look_ins: "invar m \<Longrightarrow> look m k = None \<Longrightarrow> look (ins k v m) = (look m)(k \<mapsto> v)"
    and look_del: "invar m \<Longrightarrow> look (del k m) = (look m)(k := None)"
    and set_ks: "invar m \<Longrightarrow> set (ks m) = dom (look m)"
    and sorted_ks: "invar m \<Longrightarrow> strictly_sorted (ks m)"
    and invar_ins: "invar m \<Longrightarrow> look m k = None \<Longrightarrow> invar (ins k v m)"
    and invar_del: "invar m \<Longrightarrow> invar (del k m)"
begin

lemma distinct_ks: "invar m \<Longrightarrow> distinct (ks m)"
  by (rule strictly_sorted_distinct) (rule sorted_ks)

lemma finite_dom: "invar m \<Longrightarrow> finite (dom (look m))"
  using set_ks [of m] by (metis List.finite_set)

lemma ks_cong:
  assumes "invar m" and "invar m'" and "dom (look m) = dom (look m')"
  shows "ks m = ks m'"
  using assms by (intro strictly_sorted_unique) (simp_all add: sorted_ks set_ks)

lemma ks_del: "invar m \<Longrightarrow> ks (del k m) = filter (\<lambda>x. x \<noteq> k) (ks m)"
  by (intro strictly_sorted_unique strictly_sorted_filter)
    (auto simp: sorted_ks set_ks look_del invar_del)

lemma length_ks_ins:
  assumes "invar m" and "look m k = None"
  shows "length (ks (ins k v m)) = Suc (length (ks m))"
proof -
  have "set (ks (ins k v m)) = insert k (set (ks m))"
    using assms by (simp add: set_ks invar_ins look_ins)
  moreover have "k \<notin> set (ks m)"
    using assms by (auto simp: set_ks)
  ultimately show ?thesis
    using assms distinct_ks [of m] distinct_ks [OF invar_ins [OF assms]]
    by (metis List.finite_set card_insert_disjoint distinct_card)
qed

end

section \<open>\<open>std::map\<close> as a key-sorted association list\<close>

type_synonym ('k, 'v) omap = "('k \<times> 'v) list"

abbreviation omap_keys :: "('k, 'v) omap \<Rightarrow> 'k list" where
  "omap_keys m \<equiv> map fst m"

definition omap_ok :: "('k::linorder, 'v) omap \<Rightarrow> bool" where
  "omap_ok m \<longleftrightarrow> strictly_sorted (omap_keys m)"

fun omap_find :: "('k, 'v) omap \<Rightarrow> 'k \<Rightarrow> 'v option" where
  "omap_find [] k = None"
| "omap_find ((a, v) # m) k = (if a = k then Some v else omap_find m k)"

text \<open>\<open>m[k] = v\<close> and \<open>insert_or_assign\<close>: the entry is added at its place or overwritten.\<close>

fun omap_put :: "'k::linorder \<Rightarrow> 'v \<Rightarrow> ('k, 'v) omap \<Rightarrow> ('k, 'v) omap" where
  "omap_put k v [] = [(k, v)]"
| "omap_put k v ((a, w) # m) =
     (if k < a then (k, v) # (a, w) # m
      else if k = a then (k, v) # m
      else (a, w) # omap_put k v m)"

definition omap_erase :: "'k \<Rightarrow> ('k, 'v) omap \<Rightarrow> ('k, 'v) omap" where
  "omap_erase k m = filter (\<lambda>e. fst e \<noteq> k) m"

definition omap_contains :: "('k, 'v) omap \<Rightarrow> 'k \<Rightarrow> bool" where
  "omap_contains m k \<longleftrightarrow> omap_find m k \<noteq> None"

lemma omap_find_None_iff: "omap_find m k = None \<longleftrightarrow> k \<notin> set (omap_keys m)"
  by (induction m k rule: omap_find.induct) auto

lemma dom_omap_find: "dom (omap_find m) = set (omap_keys m)"
  unfolding set_eq_iff domIff omap_find_None_iff by simp

lemma omap_find_put [map_model]: "omap_find (omap_put k v m) x = (if x = k then Some v else omap_find m x)"
  by (induction k v m rule: omap_put.induct) auto

lemma omap_find_erase [map_model]: "omap_find (omap_erase k m) x = (if x = k then None else omap_find m x)"
  by (induction m) (auto simp: omap_erase_def)

lemma set_keys_put: "set (omap_keys (omap_put k v m)) = insert k (set (omap_keys m))"
  by (induction k v m rule: omap_put.induct) auto

lemma omap_ok_put [simp]: "omap_ok m \<Longrightarrow> omap_ok (omap_put k v m)"
  unfolding omap_ok_def
proof (induction k v m rule: omap_put.induct)
  case (2 k v a w m)
  then show ?case using set_keys_put [of k v m] by (auto simp del: set_map)
qed simp

lemma omap_ok_erase [simp]: "omap_ok m \<Longrightarrow> omap_ok (omap_erase k m)"
  unfolding omap_ok_def omap_erase_def by (induction m) auto

lemma omap_keys_erase: "omap_keys (omap_erase k m) = filter (\<lambda>x. x \<noteq> k) (omap_keys m)"
  unfolding omap_erase_def by (induction m) auto

lemma omap_ok_Nil [simp]: "omap_ok []"
  by (simp add: omap_ok_def)

lemma omap_find_in_set: "omap_find m k = Some v \<Longrightarrow> (k, v) \<in> set m"
  by (induction m k rule: omap_find.induct) (auto split: if_splits)

lemma omap_find_of_set: "omap_ok m \<Longrightarrow> (k, v) \<in> set m \<Longrightarrow> omap_find m k = Some v"
  unfolding omap_ok_def by (induction m k rule: omap_find.induct) force+

interpretation om: ordered_map omap_find omap_put omap_erase omap_keys omap_ok
proof (standard, goal_cases)
  case (1 m k v)
  show ?case by (rule ext) (simp add: omap_find_put)
next
  case (2 m k)
  show ?case by (rule ext) (simp add: omap_find_erase)
next
  case (3 m)
  show ?case by (simp add: dom_omap_find)
next
  case (4 m)
  then show ?case by (simp add: omap_ok_def)
qed simp_all

text \<open>Overwriting the value of a key that is present keeps the keys.\<close>

lemma omap_keys_overwrite:
  "omap_ok m \<Longrightarrow> omap_contains m k \<Longrightarrow> omap_keys (omap_put k v m) = omap_keys m"
  by (rule om.ks_cong) (auto simp: omap_contains_def omap_find_put dom_def)

end
