(* ===== verification/Adjacency_Graph.thy ===== *)
theory Adjacency_Graph
  imports Prelude
begin

text \<open>
  \<open>src/kernel/graph/adjacency_graph.hpp\<close>: a directed graph as two ordered maps of edge lists, one
  for the edges that leave a node and one for the edges that arrive. Every edge list is a vector kept
  sorted by target. The theory holds the container's operations, the well-formedness of its two maps
  (sorted, same nodes, each the mirror of the other, no self-edge), that every operation keeps it,
  and the abstract graph (a node set and a partial payload function on pairs) every operation
  implements.
\<close>

section \<open>Edge lists\<close>

record ('k, 'p) outgoing_edge =
  target :: 'k
  payload :: 'p

type_synonym ('k, 'p) edge_list = "('k, 'p) outgoing_edge list"

definition lower_bound :: "('k::linorder, 'p) edge_list \<Rightarrow> 'k \<Rightarrow> nat" where
  "lower_bound edges t = length (takeWhile (\<lambda>e. target e < t) edges)"

definition find_edge :: "('k::linorder, 'p) edge_list \<Rightarrow> 'k \<Rightarrow> ('k, 'p) outgoing_edge option" where
  "find_edge edges t =
     (let found = lower_bound edges t
      in if found = length edges \<or> target (edges ! found) \<noteq> t then None else Some (edges ! found))"

definition insert_sorted :: "('k::linorder, 'p) edge_list \<Rightarrow> ('k, 'p) outgoing_edge \<Rightarrow> ('k, 'p) edge_list" where
  "insert_sorted edges e =
     (let at = lower_bound edges (target e) in take at edges @ e # drop at edges)"

definition erase_edge :: "('k::linorder, 'p) edge_list \<Rightarrow> 'k \<Rightarrow> ('k, 'p) edge_list" where
  "erase_edge edges t =
     (let found = lower_bound edges t
      in if found \<noteq> length edges \<and> target (edges ! found) = t
         then take found edges @ drop (Suc found) edges else edges)"

definition edges_ok :: "('k::linorder, 'p) edge_list \<Rightarrow> bool" where
  "edges_ok edges \<longleftrightarrow> strictly_sorted (map target edges)"

definition edge_look :: "('k::linorder, 'p) edge_list \<Rightarrow> 'k \<Rightarrow> 'p option" where
  "edge_look edges t = map_option payload (find_edge edges t)"

section \<open>The container\<close>

record ('k, 'p) adjacency_graph =
  outgoing :: "('k, ('k, 'p) edge_list) omap"
  incoming :: "('k, ('k, 'p) edge_list) omap"

definition empty_graph :: "('k, 'p) adjacency_graph" where
  "empty_graph = \<lparr>outgoing = [], incoming = []\<rparr>"

definition edges_of :: "('k, ('k, 'p) edge_list) omap \<Rightarrow> 'k \<Rightarrow> ('k, 'p) edge_list" where
  "edges_of adj n = (case omap_find adj n of None \<Rightarrow> [] | Some es \<Rightarrow> es)"

definition out_edges :: "('k, 'p) adjacency_graph \<Rightarrow> 'k \<Rightarrow> ('k, 'p) edge_list" where
  "out_edges g n = edges_of (outgoing g) n"

definition in_edges :: "('k, 'p) adjacency_graph \<Rightarrow> 'k \<Rightarrow> ('k, 'p) edge_list" where
  "in_edges g n = edges_of (incoming g) n"

definition edge_payload :: "('k::linorder, 'p) adjacency_graph \<Rightarrow> 'k \<Rightarrow> 'k \<Rightarrow> 'p option" where
  "edge_payload g s t =
     (case omap_find (outgoing g) s of None \<Rightarrow> None
      | Some es \<Rightarrow> (case find_edge es t of None \<Rightarrow> None | Some e \<Rightarrow> Some (payload e)))"

definition contains_node :: "('k, 'p) adjacency_graph \<Rightarrow> 'k \<Rightarrow> bool" where
  "contains_node g n = omap_contains (outgoing g) n"

definition contains_edge :: "('k::linorder, 'p) adjacency_graph \<Rightarrow> 'k \<Rightarrow> 'k \<Rightarrow> bool" where
  "contains_edge g s t =
     (case omap_find (outgoing g) s of None \<Rightarrow> False | Some es \<Rightarrow> find_edge es t \<noteq> None)"

definition graph_nodes :: "('k, 'p) adjacency_graph \<Rightarrow> 'k list" where
  "graph_nodes g = omap_keys (outgoing g)"

definition node_count :: "('k, 'p) adjacency_graph \<Rightarrow> nat" where
  "node_count g = length (outgoing g)"

definition edge_count :: "('k, 'p) adjacency_graph \<Rightarrow> nat" where
  "edge_count g = fold (\<lambda>es total. total + length es) (map snd (outgoing g)) 0"

definition graph_empty :: "('k, 'p) adjacency_graph \<Rightarrow> bool" where
  "graph_empty g \<longleftrightarrow> outgoing g = []"

definition graph_clear :: "('k, 'p) adjacency_graph \<Rightarrow> ('k, 'p) adjacency_graph" where
  "graph_clear g = g\<lparr>outgoing := [], incoming := []\<rparr>"

text \<open>The operations that may refuse return the C++ result beside the new graph.\<close>

definition add_node :: "'k::linorder \<Rightarrow> ('k, 'p) adjacency_graph \<Rightarrow> bool \<times> ('k, 'p) adjacency_graph" where
  "add_node n g =
     (if omap_contains (outgoing g) n then (False, g)
      else (True, g\<lparr>outgoing := omap_put n [] (outgoing g), incoming := omap_put n [] (incoming g)\<rparr>))"

text \<open>
  \<open>insert_sorted( adj[n], e )\<close> and \<open>erase_edge( adj.find( n )->second, t )\<close> on one of the two
  maps. \<open>operator[]\<close> creates an empty list for an absent key; \<open>find\<close> skips it.
\<close>

definition insert_at :: "'k::linorder \<Rightarrow> ('k, 'p) outgoing_edge \<Rightarrow> ('k, ('k, 'p) edge_list) omap \<Rightarrow> ('k, ('k, 'p) edge_list) omap" where
  "insert_at n e adj = omap_put n (insert_sorted (edges_of adj n) e) adj"

definition erase_at :: "'k::linorder \<Rightarrow> 'k \<Rightarrow> ('k, ('k, 'p) edge_list) omap \<Rightarrow> ('k, ('k, 'p) edge_list) omap" where
  "erase_at n t adj =
     (case omap_find adj n of None \<Rightarrow> adj | Some es \<Rightarrow> omap_put n (erase_edge es t) adj)"

definition add_edge :: "'k::linorder \<Rightarrow> 'k \<Rightarrow> 'p \<Rightarrow> ('k, 'p) adjacency_graph \<Rightarrow> bool \<times> ('k, 'p) adjacency_graph" where
  "add_edge s t p g =
     (if s = t then (False, g)
      else case omap_find (outgoing g) s of
        None \<Rightarrow> (False, g)
      | Some es \<Rightarrow>
          if \<not> omap_contains (outgoing g) t then (False, g)
          else if find_edge es t \<noteq> None then (False, g)
          else (True, g\<lparr>outgoing := insert_at s \<lparr>target = t, payload = p\<rparr> (outgoing g),
                        incoming := insert_at t \<lparr>target = s, payload = p\<rparr> (incoming g)\<rparr>))"

definition remove_edge :: "'k::linorder \<Rightarrow> 'k \<Rightarrow> ('k, 'p) adjacency_graph \<Rightarrow> bool \<times> ('k, 'p) adjacency_graph" where
  "remove_edge s t g =
     (case omap_find (outgoing g) s of
        None \<Rightarrow> (False, g)
      | Some es \<Rightarrow>
          if find_edge es t = None then (False, g)
          else (True, g\<lparr>outgoing := erase_at s t (outgoing g), incoming := erase_at t s (incoming g)\<rparr>))"

text \<open>
  \<open>remove_node\<close>: the first loop drops the node from the incoming list of every node it points at,
  the second from the outgoing list of every node that points at it, and both entries go. Both lists
  are read before the loops change the maps; neither loop touches the list it walks, since no node
  has an edge to itself.
\<close>

definition remove_node :: "'k::linorder \<Rightarrow> ('k, 'p) adjacency_graph \<Rightarrow> bool \<times> ('k, 'p) adjacency_graph" where
  "remove_node n g =
     (case omap_find (outgoing g) n of
        None \<Rightarrow> (False, g)
      | Some from \<Rightarrow>
          let inc = fold (\<lambda>e. erase_at (target e) n) from (incoming g)
          in case omap_find inc n of
               None \<Rightarrow> (True, \<lparr>outgoing = omap_erase n (outgoing g), incoming = inc\<rparr>)
             | Some into \<Rightarrow>
                 (True, \<lparr>outgoing = omap_erase n (fold (\<lambda>e. erase_at (target e) n) into (outgoing g)),
                         incoming = omap_erase n inc\<rparr>))"

section \<open>Edge lists implement an ordered map\<close>

lemma takeWhile_target: "map target (takeWhile (\<lambda>e. target e < t) es) = takeWhile (\<lambda>x. x < t) (map target es)"
  by (induction es) auto

lemma edges_ok_simps [simp]:
  "edges_ok []"
  "edges_ok (e # es) \<longleftrightarrow> (\<forall>x\<in>set es. target e < target x) \<and> edges_ok es"
  by (auto simp: edges_ok_def)

lemma lower_bound_simps [simp]:
  "lower_bound [] t = 0"
  "lower_bound (e # es) t = (if target e < t then Suc (lower_bound es t) else 0)"
  by (auto simp: lower_bound_def)

lemma find_edge_simps:
  "find_edge [] t = None"
  "find_edge (e # es) t =
     (if target e < t then find_edge es t else if target e = t then Some e else None)"
  by (auto simp: find_edge_def Let_def)

lemma insert_sorted_simps [simp]:
  "insert_sorted [] e = [e]"
  "insert_sorted (x # es) e = (if target x < target e then x # insert_sorted es e else e # x # es)"
  by (auto simp: insert_sorted_def Let_def)

lemma erase_edge_simps [simp]:
  "erase_edge [] t = []"
  "erase_edge (e # es) t =
     (if target e < t then e # erase_edge es t else if target e = t then es else e # es)"
  by (auto simp: erase_edge_def Let_def)

lemma edge_look_simps [simp]:
  "edge_look [] t = None"
  "edge_look (e # es) t =
     (if target e < t then edge_look es t else if target e = t then Some (payload e) else None)"
  by (auto simp: edge_look_def find_edge_simps)

lemma find_edge_look: "find_edge es t = None \<longleftrightarrow> edge_look es t = None"
  by (simp add: edge_look_def)

lemma edge_look_None_iff: "edges_ok es \<Longrightarrow> edge_look es t = None \<longleftrightarrow> t \<notin> target ` set es"
  by (induction es) (auto simp: not_less_iff_gr_or_eq)

lemma edge_look_Some: "edges_ok es \<Longrightarrow> e \<in> set es \<Longrightarrow> edge_look es (target e) = Some (payload e)"
  by (induction es) (auto dest: less_imp_not_less)

lemma set_insert_sorted: "set (insert_sorted es e) = insert e (set es)"
  by (induction es) auto

lemma set_erase_edge: "edges_ok es \<Longrightarrow> set (erase_edge es t) = {e \<in> set es. target e \<noteq> t}"
  by (induction es) (auto simp: not_less_iff_gr_or_eq)

interpretation el: ordered_map edge_look "\<lambda>k v es. insert_sorted es \<lparr>target = k, payload = v\<rparr>"
  "\<lambda>k es. erase_edge es k" "\<lambda>es. map target es" edges_ok
proof (standard, goal_cases)
  case (1 m k v)
  show ?case
  proof (rule ext)
    fix x
    show "edge_look (insert_sorted m \<lparr>target = k, payload = v\<rparr>) x = ((edge_look m)(k \<mapsto> v)) x"
      using 1 by (induction m) auto
  qed
next
  case (2 m k)
  show ?case
  proof (rule ext)
    fix x
    show "edge_look (erase_edge m k) x = ((edge_look m)(k := None)) x"
      using 2 by (induction m) (auto simp: edge_look_None_iff)
  qed
next
  case (3 m)
  then show ?case using edge_look_None_iff [OF 3] by (auto simp: dom_def)
next
  case (5 m k v)
  then show ?case
    by (induction m)
      (fastforce simp: set_insert_sorted not_less_iff_gr_or_eq split: if_splits intro: less_trans)+
next
  case (6 m k)
  then show ?case by (induction m) (auto simp: set_erase_edge)
qed (simp add: edges_ok_def)

section \<open>Adjacency maps\<close>

text \<open>One adjacency map read as a partial function on pairs, with its own well-formedness.\<close>

definition adj_look :: "('k::linorder, ('k, 'p) edge_list) omap \<Rightarrow> 'k \<Rightarrow> 'k \<Rightarrow> 'p option" where
  "adj_look adj s t = edge_look (edges_of adj s) t"

definition adj_ok :: "('k::linorder, ('k, 'p) edge_list) omap \<Rightarrow> bool" where
  "adj_ok adj \<longleftrightarrow> omap_ok adj \<and> (\<forall>n. edges_ok (edges_of adj n))"

lemma edges_of_put [map_model]: "edges_of (omap_put n es adj) x = (if x = n then es else edges_of adj x)"
  by (simp add: edges_of_def map_model)

lemma edges_of_erase [map_model]: "edges_of (omap_erase n adj) x = (if x = n then [] else edges_of adj x)"
  by (simp add: edges_of_def map_model)

lemma edges_of_erase_at [map_model]:
  "edges_of (erase_at n t adj) x = (if x = n then erase_edge (edges_of adj n) t else edges_of adj x)"
  by (auto simp: erase_at_def edges_of_def map_model split: option.splits)

lemma edges_of_insert_at [map_model]:
  "edges_of (insert_at n e adj) x = (if x = n then insert_sorted (edges_of adj n) e else edges_of adj x)"
  by (simp add: insert_at_def map_model)

lemma contains_model [map_model]:
  "omap_contains (omap_put n v m) x \<longleftrightarrow> x = n \<or> omap_contains m x"
  "omap_contains (omap_erase n m) x \<longleftrightarrow> x \<noteq> n \<and> omap_contains m x"
  by (auto simp: omap_contains_def map_model)

lemma contains_erase_at [map_model]: "omap_contains (erase_at n t adj) x \<longleftrightarrow> omap_contains adj x"
  by (auto simp: erase_at_def omap_contains_def map_model split: option.splits)

lemma contains_insert_at [map_model]:
  "omap_contains (insert_at n e adj) x \<longleftrightarrow> x = n \<or> omap_contains adj x"
  by (auto simp: insert_at_def map_model)

lemma omap_ok_erase_at: "omap_ok adj \<Longrightarrow> omap_ok (erase_at n t adj)"
  by (auto simp: erase_at_def split: option.splits)

lemma absent_edges: "\<not> omap_contains adj n \<Longrightarrow> edges_of adj n = []"
  by (simp add: edges_of_def omap_contains_def)

lemma adj_look_put_empty:
  "\<not> omap_contains adj n \<Longrightarrow> adj_look (omap_put n [] adj) = adj_look adj"
  by (intro ext) (simp add: adj_look_def map_model absent_edges)

lemma adj_look_erase [map_model]:
  "adj_look (omap_erase n adj) s t = (if s = n then None else adj_look adj s t)"
  by (simp add: adj_look_def map_model)

lemma adj_look_insert_at [map_model]:
  "adj_ok adj \<Longrightarrow> adj_look adj n t = None \<Longrightarrow>
   adj_look (insert_at n \<lparr>target = t, payload = p\<rparr> adj) x y = (if x = n \<and> y = t then Some p else adj_look adj x y)"
  by (simp add: adj_look_def adj_ok_def map_model el.look_ins)

lemma adj_look_erase_at [map_model]:
  "adj_ok adj \<Longrightarrow> adj_look (erase_at n t adj) x y = (if x = n \<and> y = t then None else adj_look adj x y)"
  by (simp add: adj_look_def adj_ok_def map_model el.look_del)

lemma adj_ok_put_empty: "adj_ok adj \<Longrightarrow> adj_ok (omap_put n [] adj)"
  by (simp add: adj_ok_def map_model)

lemma adj_ok_erase: "adj_ok adj \<Longrightarrow> adj_ok (omap_erase n adj)"
  by (simp add: adj_ok_def map_model)

lemma adj_ok_insert_at:
  "adj_ok adj \<Longrightarrow> adj_look adj n t = None \<Longrightarrow> adj_ok (insert_at n \<lparr>target = t, payload = p\<rparr> adj)"
  by (auto simp: adj_ok_def insert_at_def map_model adj_look_def el.invar_ins)

lemma adj_ok_erase_at: "adj_ok adj \<Longrightarrow> adj_ok (erase_at n t adj)"
  by (auto simp: adj_ok_def map_model omap_ok_erase_at el.invar_del)

lemma fold_erase_at:
  assumes "adj_ok adj"
  shows "adj_ok (fold (\<lambda>e. erase_at (target e) n) es adj) \<and>
    omap_contains (fold (\<lambda>e. erase_at (target e) n) es adj) = omap_contains adj \<and>
    adj_look (fold (\<lambda>e. erase_at (target e) n) es adj) x y =
      (if y = n \<and> x \<in> target ` set es then None else adj_look adj x y)"
  using assms
proof (induction es arbitrary: adj)
  case (Cons e es)
  have "adj_ok (erase_at (target e) n adj)"
    by (rule adj_ok_erase_at) (rule Cons.prems)
  from Cons.IH [OF this] show ?case
    using Cons.prems by (auto simp: map_model fun_eq_iff)
qed simp

lemmas adj_ok_ops = adj_ok_put_empty adj_ok_erase adj_ok_insert_at adj_ok_erase_at

section \<open>Well-formed graphs\<close>

definition graph_wf :: "('k::linorder, 'p) adjacency_graph \<Rightarrow> bool" where
  "graph_wf g \<longleftrightarrow>
     adj_ok (outgoing g) \<and> adj_ok (incoming g) \<and>
     omap_contains (incoming g) = omap_contains (outgoing g) \<and>
     (\<forall>s t. adj_look (incoming g) t s = adj_look (outgoing g) s t) \<and>
     (\<forall>s. adj_look (outgoing g) s s = None)"

lemma edge_payload_look: "edge_payload g s t = adj_look (outgoing g) s t"
  by (auto simp: edge_payload_def adj_look_def edges_of_def edge_look_def find_edge_simps split: option.splits)

lemma contains_edge_look: "contains_edge g s t \<longleftrightarrow> edge_payload g s t \<noteq> None"
  by (auto simp: contains_edge_def edge_payload_def split: option.splits)

lemma graph_wf_empty: "graph_wf empty_graph"
  by (simp add: graph_wf_def empty_graph_def adj_ok_def adj_look_def edges_of_def)

lemma contains_node_iff: "contains_node g n \<longleftrightarrow> n \<in> set (graph_nodes g)"
  unfolding contains_node_def omap_contains_def graph_nodes_def
  using omap_find_None_iff [of "outgoing g" n] by simp

lemma node_found: "contains_node g n \<Longrightarrow> omap_find (outgoing g) n = Some (out_edges g n)"
  by (auto simp: contains_node_def omap_contains_def out_edges_def edges_of_def)

lemma in_look_contains: "adj_look adj s t \<noteq> None \<Longrightarrow> omap_contains adj s"
  by (rule ccontr) (simp add: adj_look_def absent_edges)

lemma edge_endpoints:
  assumes "graph_wf g" and "contains_edge g s t"
  shows "contains_node g s \<and> contains_node g t \<and> s \<noteq> t"
proof -
  from assms have "adj_look (outgoing g) s t \<noteq> None" and "adj_look (incoming g) t s \<noteq> None"
    by (auto simp: graph_wf_def contains_edge_look edge_payload_look)
  then have "omap_contains (outgoing g) s" and "omap_contains (incoming g) t"
    by (auto intro: in_look_contains)
  then show ?thesis
    using assms by (auto simp: graph_wf_def contains_node_def contains_edge_look edge_payload_look)
qed

lemma graph_wf_add_node: "graph_wf g \<Longrightarrow> graph_wf (snd (add_node n g))"
  by (auto simp: graph_wf_def add_node_def adj_ok_put_empty adj_look_put_empty map_model fun_eq_iff)

lemma add_edge_cases:
  "add_edge s t p g =
     (if s \<noteq> t \<and> contains_node g s \<and> contains_node g t \<and> \<not> contains_edge g s t
      then (True, g\<lparr>outgoing := insert_at s \<lparr>target = t, payload = p\<rparr> (outgoing g),
                    incoming := insert_at t \<lparr>target = s, payload = p\<rparr> (incoming g)\<rparr>)
      else (False, g))"
  by (auto simp: add_edge_def contains_node_def omap_contains_def contains_edge_def split: option.splits)

lemma remove_edge_cases:
  "remove_edge s t g =
     (if contains_edge g s t
      then (True, g\<lparr>outgoing := erase_at s t (outgoing g), incoming := erase_at t s (incoming g)\<rparr>)
      else (False, g))"
  by (auto simp: remove_edge_def contains_edge_def split: option.splits)

lemma graph_wf_add_edge: "graph_wf g \<Longrightarrow> graph_wf (snd (add_edge s t p g))"
  by (auto simp: graph_wf_def add_edge_cases contains_edge_look edge_payload_look contains_node_def
      adj_ok_insert_at map_model fun_eq_iff)

lemma graph_wf_remove_edge:
  assumes "graph_wf g"
  shows "graph_wf (snd (remove_edge s t g))"
  using assms
  by (auto simp: graph_wf_def remove_edge_cases adj_ok_erase_at map_model fun_eq_iff)

lemma targets_of_edges: "adj_ok adj \<Longrightarrow> x \<in> target ` set (edges_of adj n) \<longleftrightarrow> adj_look adj n x \<noteq> None"
  using edge_look_None_iff [of "edges_of adj n" x] by (auto simp: adj_ok_def adj_look_def)

text \<open>
  \<open>remove_node\<close> on a node that is present, as the two loops on the two maps: the branch for a node
  missing from \<open>incoming_\<close> is dead in a well-formed graph.
\<close>

lemma remove_node_present:
  assumes wf: "graph_wf g" and n: "contains_node g n"
  defines "inc \<equiv> fold (\<lambda>e. erase_at (target e) n) (out_edges g n) (incoming g)"
  shows "remove_node n g =
    (True, \<lparr>outgoing = omap_erase n (fold (\<lambda>e. erase_at (target e) n) (edges_of inc n) (outgoing g)),
            incoming = omap_erase n inc\<rparr>)"
proof -
  have "omap_contains inc n"
    using wf n fold_erase_at [of "incoming g" n "out_edges g n"]
    by (simp add: inc_def graph_wf_def contains_node_def)
  then obtain into where "omap_find inc n = Some into"
    by (auto simp: omap_contains_def)
  then show ?thesis
    by (simp add: remove_node_def node_found [OF n] inc_def [symmetric] Let_def edges_of_def)
qed

lemma remove_node_maps:
  assumes wf: "graph_wf g" and n: "contains_node g n"
  shows "fst (remove_node n g)"
    and "graph_wf (snd (remove_node n g))"
    and "contains_node (snd (remove_node n g)) m \<longleftrightarrow> m \<noteq> n \<and> contains_node g m"
    and "edge_payload (snd (remove_node n g)) s t = (if s = n \<or> t = n then None else edge_payload g s t)"
proof -
  define inc where "inc = fold (\<lambda>e. erase_at (target e) n) (out_edges g n) (incoming g)"
  define out where "out = fold (\<lambda>e. erase_at (target e) n) (edges_of inc n) (outgoing g)"
  have eq: "remove_node n g = (True, \<lparr>outgoing = omap_erase n out, incoming = omap_erase n inc\<rparr>)"
    using remove_node_present [OF wf n] by (simp add: inc_def out_def)
  have ok: "adj_ok (outgoing g)" "adj_ok (incoming g)"
    and mirror: "\<And>s t. adj_look (incoming g) t s = adj_look (outgoing g) s t"
    and loop: "\<And>s. adj_look (outgoing g) s s = None"
    and same: "omap_contains (incoming g) = omap_contains (outgoing g)"
    using wf by (auto simp: graph_wf_def)
  have inc_look: "adj_look inc x y = (if y = n then None else adj_look (incoming g) x y)" for x y
    using fold_erase_at [OF ok(2), of n "out_edges g n" x y] mirror targets_of_edges [OF ok(1), of x n]
    by (auto simp: inc_def out_edges_def)
  have inc_ok: "adj_ok inc" and inc_contains: "omap_contains inc = omap_contains (incoming g)"
    using fold_erase_at [OF ok(2), of n "out_edges g n"] by (auto simp: inc_def)
  have inc_n: "adj_look inc n x = adj_look (outgoing g) x n" for x
    using inc_look [of n x] mirror loop by auto
  have out_look: "adj_look out x y = (if y = n then None else adj_look (outgoing g) x y)" for x y
    using fold_erase_at [OF ok(1), of n "edges_of inc n" x y] targets_of_edges [OF inc_ok, of x n] inc_n
    by (auto simp: out_def)
  have out_ok: "adj_ok out" and out_contains: "omap_contains out = omap_contains (outgoing g)"
    using fold_erase_at [OF ok(1), of n "edges_of inc n"] by (auto simp: out_def)
  show "fst (remove_node n g)"
    by (simp add: eq)
  show "graph_wf (snd (remove_node n g))"
    using out_ok inc_ok inc_look out_look mirror loop same inc_contains out_contains
    by (auto simp: eq graph_wf_def adj_ok_erase map_model fun_eq_iff)
  show "contains_node (snd (remove_node n g)) m \<longleftrightarrow> m \<noteq> n \<and> contains_node g m"
    using out_contains by (simp add: eq contains_node_def map_model)
  show "edge_payload (snd (remove_node n g)) s t = (if s = n \<or> t = n then None else edge_payload g s t)"
    using out_look by (simp add: eq edge_payload_look map_model)
qed

lemma remove_node_absent: "\<not> contains_node g n \<Longrightarrow> remove_node n g = (False, g)"
  by (simp add: remove_node_def contains_node_def omap_contains_def)

lemma graph_wf_remove_node: "graph_wf g \<Longrightarrow> graph_wf (snd (remove_node n g))"
  using remove_node_maps(2) [of g n] remove_node_absent [of g n] by (cases "contains_node g n") auto

section \<open>The abstract graph\<close>

text \<open>
  What the container promises: a set of nodes and a partial payload function on ordered pairs. The
  operations of the abstract graph are the set-level reading of the container's comments.
\<close>

record ('k, 'p) abs_graph =
  vertices :: "'k set"
  arcs :: "'k \<times> 'k \<Rightarrow> 'p option"

definition abs_of :: "('k::linorder, 'p) adjacency_graph \<Rightarrow> ('k, 'p) abs_graph" where
  "abs_of g = \<lparr>vertices = {n. contains_node g n}, arcs = (\<lambda>(s, t). edge_payload g s t)\<rparr>"

datatype ('k, 'p) graph_op =
  AddNode 'k
| AddEdge 'k 'k 'p
| RemoveEdge 'k 'k
| RemoveNode 'k
| ClearGraph

fun run_graph_op :: "('k::linorder, 'p) graph_op \<Rightarrow> ('k, 'p) adjacency_graph \<Rightarrow> bool \<times> ('k, 'p) adjacency_graph" where
  "run_graph_op (AddNode n) g = add_node n g"
| "run_graph_op (AddEdge s t p) g = add_edge s t p g"
| "run_graph_op (RemoveEdge s t) g = remove_edge s t g"
| "run_graph_op (RemoveNode n) g = remove_node n g"
| "run_graph_op ClearGraph g = (True, graph_clear g)"

fun spec_graph_op :: "('k, 'p) graph_op \<Rightarrow> ('k, 'p) abs_graph \<Rightarrow> bool \<times> ('k, 'p) abs_graph" where
  "spec_graph_op (AddNode n) a = (n \<notin> vertices a, a\<lparr>vertices := insert n (vertices a)\<rparr>)"
| "spec_graph_op (AddEdge s t p) a =
     (if s \<noteq> t \<and> s \<in> vertices a \<and> t \<in> vertices a \<and> arcs a (s, t) = None
      then (True, a\<lparr>arcs := (arcs a)((s, t) \<mapsto> p)\<rparr>) else (False, a))"
| "spec_graph_op (RemoveEdge s t) a =
     (arcs a (s, t) \<noteq> None, a\<lparr>arcs := (arcs a)((s, t) := None)\<rparr>)"
| "spec_graph_op (RemoveNode n) a =
     (n \<in> vertices a,
      a\<lparr>vertices := vertices a - {n},
        arcs := (\<lambda>(s, t). if s = n \<or> t = n then None else arcs a (s, t))\<rparr>)"
| "spec_graph_op ClearGraph a = (True, a\<lparr>vertices := {}, arcs := (\<lambda>_. None)\<rparr>)"

definition run_graph_ops :: "('k::linorder, 'p) graph_op list \<Rightarrow> ('k, 'p) adjacency_graph" where
  "run_graph_ops ops = fold (\<lambda>op g. snd (run_graph_op op g)) ops empty_graph"

lemma run_graph_op_wf: "graph_wf g \<Longrightarrow> graph_wf (snd (run_graph_op op g))"
  by (cases op)
    (simp_all add: graph_wf_add_node graph_wf_add_edge graph_wf_remove_edge graph_wf_remove_node,
      simp add: graph_clear_def graph_wf_def adj_ok_def adj_look_def edges_of_def)

lemma absent_payload:
  "graph_wf g \<Longrightarrow> \<not> contains_node g s \<or> \<not> contains_node g t \<Longrightarrow> edge_payload g s t = None"
  using edge_endpoints [of g s t] contains_edge_look [of g s t] by blast

lemma abs_add_node:
  "(fst (add_node n g), abs_of (snd (add_node n g))) = spec_graph_op (AddNode n) (abs_of g)"
  by (auto simp: add_node_def abs_of_def contains_node_def edge_payload_look adj_look_put_empty map_model)

lemma abs_add_edge:
  assumes "graph_wf g"
  shows "(fst (add_edge s t p g), abs_of (snd (add_edge s t p g))) = spec_graph_op (AddEdge s t p) (abs_of g)"
  using assms
  by (auto simp: add_edge_cases abs_of_def contains_node_def contains_edge_look edge_payload_look
      graph_wf_def map_model fun_eq_iff)

lemma abs_remove_edge:
  assumes "graph_wf g"
  shows "(fst (remove_edge s t g), abs_of (snd (remove_edge s t g))) = spec_graph_op (RemoveEdge s t) (abs_of g)"
  using assms
  by (auto simp: remove_edge_cases abs_of_def contains_node_def contains_edge_look edge_payload_look
      graph_wf_def map_model fun_eq_iff)

lemma abs_remove_node:
  assumes "graph_wf g"
  shows "(fst (remove_node n g), abs_of (snd (remove_node n g))) = spec_graph_op (RemoveNode n) (abs_of g)"
proof (cases "contains_node g n")
  case True
  show ?thesis
    by (auto simp: abs_of_def remove_node_maps [OF assms True] True fun_eq_iff)
next
  case False
  then have "edge_payload g n t = None" and "edge_payload g s n = None" for s t
    using absent_payload [OF assms] by auto
  with False show ?thesis
    by (auto simp: remove_node_absent abs_of_def fun_eq_iff)
qed

lemma abs_clear: "(True, abs_of (graph_clear g)) = spec_graph_op ClearGraph (abs_of g)"
  by (simp add: graph_clear_def abs_of_def contains_node_def omap_contains_def edge_payload_def fun_eq_iff)

text \<open>
  C4. Every operation of the container does to its abstract graph what the comments promise, and
  returns exactly when it did: the refused operations return false and leave the graph alone. It keeps
  the graph well formed: both maps and every edge list sorted without duplicates, the two maps over the
  same nodes and each other's mirror, and no node with an edge to itself.
\<close>

theorem graph_op_refines:
  assumes "graph_wf g"
  shows "(fst (run_graph_op op g), abs_of (snd (run_graph_op op g))) = spec_graph_op op (abs_of g) \<and>
    graph_wf (snd (run_graph_op op g))"
proof -
  have "(fst (run_graph_op op g), abs_of (snd (run_graph_op op g))) = spec_graph_op op (abs_of g)"
  proof (cases op)
    case (AddNode n)
    show ?thesis using abs_add_node [of n g] by (simp add: AddNode)
  next
    case (AddEdge s t p)
    show ?thesis using abs_add_edge [OF assms, of s t p] by (simp add: AddEdge)
  next
    case (RemoveEdge s t)
    show ?thesis using abs_remove_edge [OF assms, of s t] by (simp add: RemoveEdge)
  next
    case (RemoveNode n)
    show ?thesis using abs_remove_node [OF assms, of n] by (simp add: RemoveNode)
  next
    case ClearGraph
    show ?thesis using abs_clear [of g] by (simp add: ClearGraph)
  qed
  then show ?thesis by (simp add: run_graph_op_wf [OF assms])
qed

theorem graph_op_refines_witness:
  fixes g :: "(nat, nat) adjacency_graph"
  defines "g \<equiv> run_graph_ops [AddNode 1, AddNode 2, AddEdge 1 2 7]"
  shows "graph_wf g \<and> edge_payload g 1 2 = Some 7 \<and>
    (fst (run_graph_op (RemoveNode 2) g), abs_of (snd (run_graph_op (RemoveNode 2) g))) =
    spec_graph_op (RemoveNode 2) (abs_of g) \<and> graph_wf (snd (run_graph_op (RemoveNode 2) g))"
proof -
  have wf: "graph_wf g"
    by (simp add: g_def run_graph_ops_def graph_wf_empty graph_wf_add_node graph_wf_add_edge)
  moreover have "edge_payload g 1 2 = Some 7"
    unfolding g_def by code_simp
  ultimately show ?thesis
    using graph_op_refines [OF wf, of "RemoveNode 2"] by blast
qed

text \<open>
  Whatever sequence of operations built it, a graph is well formed: both maps and every edge list
  are sorted without duplicates, the two maps know the same nodes, the incoming map is the mirror of
  the outgoing one, and no node has an edge to itself.
\<close>

lemma graph_ops_wf: "graph_wf (run_graph_ops ops)"
proof -
  have "graph_wf (fold (\<lambda>op g. snd (run_graph_op op g)) ops g)" if "graph_wf g" for g :: "('a, 'b) adjacency_graph"
    using that by (induction ops arbitrary: g) (simp_all add: run_graph_op_wf)
  then show ?thesis
    by (simp add: run_graph_ops_def graph_wf_empty)
qed

end
