(* ===== verification/Graph_Traversal.thy ===== *)
theory Graph_Traversal
  imports Adjacency_Graph
begin

text \<open>
  \<open>src/kernel/graph/graph_traversal.hpp\<close>: breadth- and depth-first traversal over anything that can
  say whether it holds a node and name a node's out-neighbours (the concept \<open>TraversableGraph\<close>). The
  visitor accumulates, so its observable effect is the sequence of calls it receives; a visitor
  without \<open>visit_edge\<close> sees the same sequence without the edge calls. The loops are
  \<open>partial_function (option)\<close>: that they return is proved, for every finite graph closed under its
  edges, in the locale \<open>traversable_graph\<close>, which adjacency graphs interpret.
\<close>

section \<open>The traversals\<close>

datatype 'k visit = VisitNode 'k | VisitEdge 'k 'k

text \<open>The body of the inner loop of \<open>breadth_first_search\<close> on the visited set, \<open>next\<close> and the calls.\<close>

definition bfs_edge :: "'k \<Rightarrow> 'k \<Rightarrow> 'k set \<times> 'k list \<times> 'k visit list \<Rightarrow> 'k set \<times> 'k list \<times> 'k visit list" where
  "bfs_edge node neighbour = (\<lambda>(seen, nxt, calls).
     let calls = calls @ [VisitEdge node neighbour]
     in if neighbour \<notin> seen then (insert neighbour seen, nxt @ [neighbour], calls)
        else (seen, nxt, calls))"

definition bfs_node :: "('k \<Rightarrow> 'k list) \<Rightarrow> 'k \<Rightarrow> 'k set \<times> 'k list \<times> 'k visit list \<Rightarrow> 'k set \<times> 'k list \<times> 'k visit list" where
  "bfs_node out node = (\<lambda>(seen, nxt, calls).
     fold (bfs_edge node) (out node) (seen, nxt, calls @ [VisitNode node]))"

partial_function (option) bfs_loop :: "('k \<Rightarrow> 'k list) \<Rightarrow> 'k list \<Rightarrow> 'k set \<Rightarrow> 'k visit list \<Rightarrow> 'k visit list option" where
  "bfs_loop out frontier seen calls =
     (if frontier = [] then Some calls
      else case fold (bfs_node out) frontier (seen, [], calls) of
        (seen', nxt, calls') \<Rightarrow> bfs_loop out nxt seen' calls')"

definition breadth_first_search :: "('k \<Rightarrow> bool) \<Rightarrow> ('k \<Rightarrow> 'k list) \<Rightarrow> 'k \<Rightarrow> 'k visit list option" where
  "breadth_first_search contains out start =
     (if \<not> contains start then Some [] else bfs_loop out [start] {start} [])"

text \<open>
  The stack \<open>pending\<close> is a vector popped at its back; here its back is the head of the list.
\<close>

definition dfs_edge :: "'k set \<Rightarrow> 'k \<Rightarrow> 'k \<Rightarrow> 'k list \<times> 'k visit list \<Rightarrow> 'k list \<times> 'k visit list" where
  "dfs_edge seen node neighbour = (\<lambda>(pending, calls).
     let calls = calls @ [VisitEdge node neighbour]
     in if neighbour \<notin> seen then (neighbour # pending, calls) else (pending, calls))"

partial_function (option) dfs_loop :: "('k \<Rightarrow> 'k list) \<Rightarrow> 'k list \<Rightarrow> 'k set \<Rightarrow> 'k visit list \<Rightarrow> 'k visit list option" where
  "dfs_loop out pending seen calls =
     (case pending of [] \<Rightarrow> Some calls
      | node # rest \<Rightarrow>
          if node \<in> seen then dfs_loop out rest seen calls
          else case fold (dfs_edge (insert node seen) node) (rev (out node)) (rest, calls @ [VisitNode node]) of
            (pending', calls') \<Rightarrow> dfs_loop out pending' (insert node seen) calls')"

definition depth_first_search :: "('k \<Rightarrow> bool) \<Rightarrow> ('k \<Rightarrow> 'k list) \<Rightarrow> 'k \<Rightarrow> 'k visit list option" where
  "depth_first_search contains out start =
     (if \<not> contains start then Some [] else dfs_loop out [start] {} [])"

text \<open>\<open>edge_target\<close> on an adjacency graph's entries: the neighbours in the order of the edge list.\<close>

definition edge_targets :: "('k, 'p) adjacency_graph \<Rightarrow> 'k \<Rightarrow> 'k list" where
  "edge_targets g n = map target (out_edges g n)"

fun visited_nodes :: "'k visit list \<Rightarrow> 'k list" where
  "visited_nodes [] = []"
| "visited_nodes (VisitNode n # calls) = n # visited_nodes calls"
| "visited_nodes (VisitEdge s t # calls) = visited_nodes calls"

lemma visited_nodes_append [simp]: "visited_nodes (xs @ ys) = visited_nodes xs @ visited_nodes ys"
  by (induction xs rule: visited_nodes.induct) auto

lemma visited_nodes_edges [simp]: "visited_nodes (map (VisitEdge n) ts) = []"
  by (induction ts) auto

declare bfs_loop.simps [code] dfs_loop.simps [code]

section \<open>What one pass of a loop does\<close>

text \<open>The neighbours a level adds to \<open>next\<close>: first occurrences of nodes not seen before.\<close>

fun fresh :: "'k set \<Rightarrow> 'k list \<Rightarrow> 'k list" where
  "fresh seen [] = []"
| "fresh seen (x # xs) = (if x \<in> seen then fresh seen xs else x # fresh (insert x seen) xs)"

lemma set_fresh: "set (fresh seen xs) = set xs - seen"
  by (induction seen xs rule: fresh.induct) auto

lemma distinct_fresh: "distinct (fresh seen xs)"
  by (induction seen xs rule: fresh.induct) (auto simp: set_fresh)

lemma fresh_append: "fresh seen (xs @ ys) = fresh seen xs @ fresh (seen \<union> set xs) ys"
  by (induction seen xs rule: fresh.induct) (auto simp: insert_absorb)

definition bfs_calls :: "('k \<Rightarrow> 'k list) \<Rightarrow> 'k list \<Rightarrow> 'k visit list" where
  "bfs_calls out ns = concat (map (\<lambda>n. VisitNode n # map (VisitEdge n) (out n)) ns)"

definition dfs_calls :: "('k \<Rightarrow> 'k list) \<Rightarrow> 'k list \<Rightarrow> 'k visit list" where
  "dfs_calls out ns = concat (map (\<lambda>n. VisitNode n # map (VisitEdge n) (rev (out n))) ns)"

lemma visited_bfs_calls [simp]: "visited_nodes (bfs_calls out ns) = ns"
  by (induction ns) (auto simp: bfs_calls_def)

lemma visited_dfs_calls [simp]: "visited_nodes (dfs_calls out ns) = ns"
  by (induction ns) (auto simp: dfs_calls_def)

lemma bfs_calls_append: "bfs_calls out (xs @ ys) = bfs_calls out xs @ bfs_calls out ys"
  by (simp add: bfs_calls_def)

lemma dfs_calls_snoc: "dfs_calls out (xs @ [x]) = dfs_calls out xs @ VisitNode x # map (VisitEdge x) (rev (out x))"
  by (simp add: dfs_calls_def)

lemma bfs_edges:
  "fold (bfs_edge n) ts (seen, nxt, calls) =
     (seen \<union> set ts, nxt @ fresh seen ts, calls @ map (VisitEdge n) ts)"
  by (induction ts arbitrary: seen nxt calls) (auto simp: bfs_edge_def Let_def)

lemma bfs_level:
  "fold (bfs_node out) ns (seen, nxt, calls) =
     (seen \<union> set (concat (map out ns)), nxt @ fresh seen (concat (map out ns)), calls @ bfs_calls out ns)"
  by (induction ns arbitrary: seen nxt calls)
    (auto simp: bfs_node_def bfs_edges fresh_append bfs_calls_def)

lemma dfs_edges:
  "fold (dfs_edge seen n) ts (pending, calls) =
     (rev (filter (\<lambda>t. t \<notin> seen) ts) @ pending, calls @ map (VisitEdge n) ts)"
  by (induction ts arbitrary: pending calls) (auto simp: dfs_edge_def Let_def)

lemma bfs_loop_step:
  "bfs_loop out frontier seen calls =
     (if frontier = [] then Some calls
      else bfs_loop out (fresh seen (concat (map out frontier)))
             (seen \<union> set (concat (map out frontier))) (calls @ bfs_calls out frontier))"
  by (subst bfs_loop.simps) (simp add: bfs_level)

lemma dfs_loop_Nil [simp]: "dfs_loop out [] seen calls = Some calls"
  by (subst dfs_loop.simps) simp

lemma dfs_loop_Cons:
  "dfs_loop out (node # rest) seen calls =
     (if node \<in> seen then dfs_loop out rest seen calls
      else dfs_loop out (filter (\<lambda>t. t \<notin> insert node seen) (out node) @ rest) (insert node seen)
             (calls @ VisitNode node # map (VisitEdge node) (rev (out node))))"
  by (subst dfs_loop.simps) (simp add: dfs_edges rev_filter)

section \<open>Traversable graphs\<close>

definition step_rel :: "('k \<Rightarrow> 'k list) \<Rightarrow> ('k \<times> 'k) set" where
  "step_rel out = {(s, t). t \<in> set (out s)}"

definition hops :: "('k \<Rightarrow> 'k list) \<Rightarrow> 'k \<Rightarrow> 'k \<Rightarrow> nat" where
  "hops out s t = (LEAST k. (s, t) \<in> step_rel out ^^ k)"

locale traversable_graph =
  fixes contains :: "'k \<Rightarrow> bool"
    and out :: "'k \<Rightarrow> 'k list"
  assumes finite_nodes: "finite {n. contains n}"
    and out_closed: "contains n \<Longrightarrow> t \<in> set (out n) \<Longrightarrow> contains t"
begin

lemma reach_contains: "(s, t) \<in> (step_rel out)\<^sup>* \<Longrightarrow> contains s \<Longrightarrow> contains t"
  by (induction rule: rtrancl_induct) (auto simp: step_rel_def intro: out_closed)

text \<open>
  The depth-first loop: \<open>vs\<close> are the nodes visited so far. Whatever a visited node points at is
  visited or pending; the loop ends with the pending nodes and all they reach visited.
\<close>

lemma dfs_loop_visits:
  assumes "distinct vs" and "\<forall>n\<in>set vs \<union> set pending. contains n"
    and "\<forall>v\<in>set vs. set (out v) \<subseteq> set vs \<union> set pending"
  shows "\<exists>ws. dfs_loop out pending (set vs) (dfs_calls out vs) = Some (dfs_calls out ws) \<and> distinct ws \<and>
    set vs \<union> set pending \<subseteq> set ws \<and> (\<forall>v\<in>set ws. set (out v) \<subseteq> set ws) \<and>
    (\<forall>w\<in>set ws. w \<in> set vs \<or> (\<exists>p\<in>set pending. (p, w) \<in> (step_rel out)\<^sup>*))"
  using assms
proof (induction "card ({n. contains n} - set vs)" arbitrary: vs pending rule: less_induct)
  case less
  note outer = less.hyps and inv = less.prems
  from inv show ?case
  proof (induction pending)
    case Nil
    then show ?case by auto
  next
    case (Cons node rest)
    show ?case
    proof (cases "node \<in> set vs")
      case True
      with Cons.prems have "\<forall>v\<in>set vs. set (out v) \<subseteq> set vs \<union> set rest" by fastforce
      with Cons.prems have "\<exists>ws. dfs_loop out rest (set vs) (dfs_calls out vs) = Some (dfs_calls out ws) \<and> distinct ws \<and>
        set vs \<union> set rest \<subseteq> set ws \<and> (\<forall>v\<in>set ws. set (out v) \<subseteq> set ws) \<and>
        (\<forall>w\<in>set ws. w \<in> set vs \<or> (\<exists>p\<in>set rest. (p, w) \<in> (step_rel out)\<^sup>*))"
        by (intro Cons.IH) auto
      with True show ?thesis by (auto simp: dfs_loop_Cons insert_absorb)
    next
      case False
      let ?vs = "vs @ [node]"
      let ?pending = "filter (\<lambda>t. t \<notin> insert node (set vs)) (out node) @ rest"
      have node: "contains node" using Cons.prems by simp
      have "{n. contains n} - set ?vs \<subset> {n. contains n} - set vs"
        using node False by auto
      then have smaller: "card ({n. contains n} - set ?vs) < card ({n. contains n} - set vs)"
        using finite_nodes by (intro psubset_card_mono) auto
      have "\<exists>ws. dfs_loop out ?pending (set ?vs) (dfs_calls out ?vs) = Some (dfs_calls out ws) \<and> distinct ws \<and>
        set ?vs \<union> set ?pending \<subseteq> set ws \<and> (\<forall>v\<in>set ws. set (out v) \<subseteq> set ws) \<and>
        (\<forall>w\<in>set ws. w \<in> set ?vs \<or> (\<exists>p\<in>set ?pending. (p, w) \<in> (step_rel out)\<^sup>*))"
        using Cons.prems False node out_closed [OF node] by (intro outer [OF smaller]) auto
      then obtain ws where ws: "dfs_loop out ?pending (set ?vs) (dfs_calls out ?vs) = Some (dfs_calls out ws)"
        "distinct ws" "set ?vs \<union> set ?pending \<subseteq> set ws" "\<forall>v\<in>set ws. set (out v) \<subseteq> set ws"
        and new: "\<forall>w\<in>set ws. w \<in> set ?vs \<or> (\<exists>p\<in>set ?pending. (p, w) \<in> (step_rel out)\<^sup>*)"
        by blast
      have "w \<in> set vs \<or> (\<exists>p\<in>set (node # rest). (p, w) \<in> (step_rel out)\<^sup>*)" if "w \<in> set ws" for w
        using new that by (force simp: step_rel_def intro: converse_rtrancl_into_rtrancl)
      with ws False show ?thesis
        by (intro exI [of _ ws]) (auto simp: dfs_loop_Cons dfs_calls_snoc)
    qed
  qed
qed

lemma closed_under_reach:
  assumes "\<forall>v\<in>A. set (out v) \<subseteq> A" and "s \<in> A" and "(s, t) \<in> (step_rel out)\<^sup>*"
  shows "t \<in> A"
  using assms(3,2) by (induction rule: rtrancl_induct) (use assms(1) in \<open>auto simp: step_rel_def\<close>)

lemma dfs_visits:
  assumes "contains s"
  shows "\<exists>ws. depth_first_search contains out s = Some (dfs_calls out ws) \<and> distinct ws \<and>
    set ws = {t. (s, t) \<in> (step_rel out)\<^sup>*}"
proof -
  from dfs_loop_visits [of "[]" "[s]"] assms obtain ws
    where ws: "dfs_loop out [s] {} [] = Some (dfs_calls out ws)" "distinct ws" "s \<in> set ws"
      "\<forall>v\<in>set ws. set (out v) \<subseteq> set ws" "\<forall>w\<in>set ws. (s, w) \<in> (step_rel out)\<^sup>*"
    by (auto simp: dfs_calls_def)
  have "set ws = {t. (s, t) \<in> (step_rel out)\<^sup>*}"
    using ws(5) closed_under_reach [OF ws(4,3)] by blast
  with ws(1,2) assms show ?thesis
    by (intro exI [of _ ws]) (simp add: depth_first_search_def)
qed

text \<open>
  The breadth-first loop at depth \<open>d\<close>: the frontier is the set of nodes \<open>d\<close> edges away and the visited
  set those at most \<open>d\<close> away, so the remaining visits are the farther nodes in order of distance.
\<close>

lemma hops_reach: "(s, t) \<in> (step_rel out)\<^sup>* \<Longrightarrow> (s, t) \<in> step_rel out ^^ hops out s t"
  unfolding hops_def rtrancl_power by (rule LeastI_ex)

lemma hops_le: "(s, t) \<in> step_rel out ^^ k \<Longrightarrow> hops out s t \<le> k"
  unfolding hops_def by (rule Least_le)

lemma hops_step:
  assumes "(s, u) \<in> (step_rel out)\<^sup>*" and "(u, t) \<in> step_rel out"
  shows "hops out s t \<le> Suc (hops out s u)"
  using hops_reach [OF assms(1)] assms(2) by (intro hops_le) auto

lemma hops_pred:
  assumes "(s, t) \<in> (step_rel out)\<^sup>*" and "hops out s t = Suc d"
  shows "\<exists>u. (s, u) \<in> (step_rel out)\<^sup>* \<and> hops out s u = d \<and> (u, t) \<in> step_rel out"
proof -
  from hops_reach [OF assms(1)] assms(2) obtain u
    where u: "(s, u) \<in> step_rel out ^^ d" "(u, t) \<in> step_rel out"
    by auto
  then have reach: "(s, u) \<in> (step_rel out)\<^sup>*"
    by (auto simp: rtrancl_power)
  have "d \<le> hops out s u"
    using hops_step [OF reach u(2)] assms(2) by simp
  with hops_le [OF u(1)] reach u(2) show ?thesis by auto
qed

lemma level_empty:
  assumes "\<And>t. (s, t) \<in> (step_rel out)\<^sup>* \<Longrightarrow> hops out s t \<noteq> d" and "(s, t) \<in> (step_rel out)\<^sup>*"
  shows "hops out s t < d"
proof (rule ccontr)
  assume "\<not> hops out s t < d"
  then obtain k where "hops out s t = d + k"
    by (metis le_add_diff_inverse linorder_not_less)
  with assms(2) show False
  proof (induction k arbitrary: t)
    case 0
    with assms(1) show ?case by auto
  next
    case (Suc k)
    from hops_pred [OF Suc.prems(1)] Suc.prems(2) Suc.IH show ?case by auto
  qed
qed

lemma next_level:
  assumes "set frontier = {t. (s, t) \<in> (step_rel out)\<^sup>* \<and> hops out s t = d}"
    and "seen = {t. (s, t) \<in> (step_rel out)\<^sup>* \<and> hops out s t \<le> d}"
  shows "seen \<union> set (concat (map out frontier)) = {t. (s, t) \<in> (step_rel out)\<^sup>* \<and> hops out s t \<le> Suc d}"
    and "set (fresh seen (concat (map out frontier))) = {t. (s, t) \<in> (step_rel out)\<^sup>* \<and> hops out s t = Suc d}"
proof -
  have outs: "t \<in> set (concat (map out frontier)) \<longleftrightarrow>
    (\<exists>u. (s, u) \<in> (step_rel out)\<^sup>* \<and> hops out s u = d \<and> (u, t) \<in> step_rel out)" for t
    using assms(1) by (auto simp: step_rel_def)
  have step: "(s, t) \<in> (step_rel out)\<^sup>* \<and> hops out s t \<le> Suc d"
    if "t \<in> set (concat (map out frontier))" for t
    using that outs [of t] hops_step [of s _ t] by (auto intro: rtrancl_into_rtrancl)
  have pred: "t \<in> set (concat (map out frontier))"
    if "(s, t) \<in> (step_rel out)\<^sup>*" "hops out s t = Suc d" for t
    using hops_pred [OF that] outs [of t] by blast
  show "seen \<union> set (concat (map out frontier)) = {t. (s, t) \<in> (step_rel out)\<^sup>* \<and> hops out s t \<le> Suc d}"
    using step pred assms(2) by (auto simp: le_Suc_eq)
  show "set (fresh seen (concat (map out frontier))) = {t. (s, t) \<in> (step_rel out)\<^sup>* \<and> hops out s t = Suc d}"
    using step pred assms(2) by (auto simp: set_fresh le_Suc_eq)
qed

lemma bfs_loop_visits:
  assumes "contains s" and "distinct frontier"
    and "set frontier = {t. (s, t) \<in> (step_rel out)\<^sup>* \<and> hops out s t = d}"
    and "seen = {t. (s, t) \<in> (step_rel out)\<^sup>* \<and> hops out s t \<le> d}"
  shows "\<exists>ws. bfs_loop out frontier seen calls = Some (calls @ bfs_calls out ws) \<and> distinct ws \<and>
    set ws = {t. (s, t) \<in> (step_rel out)\<^sup>* \<and> d \<le> hops out s t} \<and> sorted (map (hops out s) ws)"
  using assms(2-)
proof (induction "card ({n. contains n} - seen) + (if frontier = [] then 0 else 1)"
    arbitrary: frontier seen calls d rule: less_induct)
  case less
  show ?case
  proof (cases "frontier = []")
    case True
    with less.prems(2) have "{t. (s, t) \<in> (step_rel out)\<^sup>* \<and> d \<le> hops out s t} = {}"
      using level_empty [of s d] by (auto simp: not_le [symmetric])
    with True show ?thesis
      by (intro exI [of _ "[]"]) (simp add: bfs_loop.simps bfs_calls_def)
  next
    case False
    let ?fr = "fresh seen (concat (map out frontier))"
    let ?seen = "seen \<union> set (concat (map out frontier))"
    note lv = next_level [OF less.prems(2,3)]
    have sub: "set ?fr \<subseteq> {n. contains n} - seen"
      using lv(2) less.prems(3) assms(1) by (auto intro: reach_contains)
    have "card ({n. contains n} - ?seen) + (if ?fr = [] then 0 else 1) < card ({n. contains n} - seen) + 1"
    proof (cases "?fr = []")
      case True
      have "card ({n. contains n} - ?seen) \<le> card ({n. contains n} - seen)"
        using finite_nodes by (intro card_mono) auto
      with True show ?thesis by simp
    next
      case fresh: False
      have "{n. contains n} - ?seen \<subset> {n. contains n} - seen"
        using sub fresh set_fresh [of seen "concat (map out frontier)"] by (cases ?fr) auto
      then show ?thesis
        using finite_nodes psubset_card_mono [of "{n. contains n} - seen"] fresh by simp
    qed
    then have smaller: "card ({n. contains n} - ?seen) + (if ?fr = [] then 0 else 1)
      < card ({n. contains n} - seen) + (if frontier = [] then 0 else 1)"
      using False by simp
    from less.hyps [OF smaller distinct_fresh lv(2) lv(1)] obtain ws
      where ws: "bfs_loop out ?fr ?seen (calls @ bfs_calls out frontier) =
          Some ((calls @ bfs_calls out frontier) @ bfs_calls out ws)" "distinct ws"
        "set ws = {t. (s, t) \<in> (step_rel out)\<^sup>* \<and> Suc d \<le> hops out s t}" "sorted (map (hops out s) ws)"
      by blast
    have "set (frontier @ ws) = {t. (s, t) \<in> (step_rel out)\<^sup>* \<and> d \<le> hops out s t}"
      using ws(3) less.prems(2) by auto
    moreover have "map (hops out s) frontier = replicate (length frontier) d"
      using less.prems(2) by (simp add: map_replicate_const [symmetric])
    then have "sorted (map (hops out s) (frontier @ ws))"
      using ws(3,4) by (auto simp: sorted_append)
    moreover have "distinct (frontier @ ws)"
      using ws(2,3) less.prems(1,2) by auto
    ultimately show ?thesis
      using ws(1) False bfs_loop_step [of out frontier seen calls]
      by (intro exI [of _ "frontier @ ws"]) (simp add: bfs_calls_append)
  qed
qed

lemma bfs_visits:
  assumes "contains s"
  shows "\<exists>ws. breadth_first_search contains out s = Some (bfs_calls out ws) \<and> distinct ws \<and>
    set ws = {t. (s, t) \<in> (step_rel out)\<^sup>*} \<and> sorted (map (hops out s) ws)"
proof -
  have zero: "hops out s t = 0 \<longleftrightarrow> t = s" if "(s, t) \<in> (step_rel out)\<^sup>*" for t
    using hops_reach [OF that] hops_le [of s s 0] by auto
  have "set [s] = {t. (s, t) \<in> (step_rel out)\<^sup>* \<and> hops out s t = 0}"
    and "{s} = {t. (s, t) \<in> (step_rel out)\<^sup>* \<and> hops out s t \<le> 0}"
    using zero by auto
  from bfs_loop_visits [OF assms _ this, of "[]"] assms show ?thesis
    by (simp add: breadth_first_search_def)
qed

end

section \<open>Adjacency graphs are traversable\<close>

lemma set_edge_targets:
  "graph_wf g \<Longrightarrow> t \<in> set (edge_targets g n) \<longleftrightarrow> contains_edge g n t"
  using targets_of_edges [of "outgoing g" t n]
  by (auto simp: graph_wf_def edge_targets_def out_edges_def contains_edge_look edge_payload_look)

lemma nodes_finite: "finite {n. contains_node g n}"
proof -
  have "{n. contains_node g n} = dom (omap_find (outgoing g))"
    by (auto simp: contains_node_def omap_contains_def)
  then show ?thesis by (simp add: dom_omap_find)
qed

lemma graph_wf_traversable: "graph_wf g \<Longrightarrow> traversable_graph (contains_node g) (edge_targets g)"
  by unfold_locales (auto simp: nodes_finite set_edge_targets dest: edge_endpoints)

interpretation ag: traversable_graph "contains_node (run_graph_ops ops)" "edge_targets (run_graph_ops ops)"
  for ops :: "('k::linorder, 'p) graph_op list"
  by (rule graph_wf_traversable) (rule graph_ops_wf)

text \<open>The edges of an adjacency graph as a relation.\<close>

definition edge_rel :: "('k::linorder, 'p) adjacency_graph \<Rightarrow> ('k \<times> 'k) set" where
  "edge_rel g = {(s, t). contains_edge g s t}"

lemma step_rel_edges: "graph_wf g \<Longrightarrow> step_rel (edge_targets g) = edge_rel g"
  by (auto simp: step_rel_def edge_rel_def set_edge_targets)

text \<open>
  C5. Breadth-first search over a graph from a node it holds returns, calls \<open>visit_node\<close> exactly once
  for every node reachable over the edges and for no other, in order of distance from the start, and
  after each node offers every edge that leaves it, in the order of its edge list.
\<close>

theorem bfs_visits_reachable:
  assumes "contains_node (run_graph_ops ops) s"
  shows "\<exists>ws. breadth_first_search (contains_node (run_graph_ops ops)) (edge_targets (run_graph_ops ops)) s =
      Some (concat (map (\<lambda>n. VisitNode n # map (VisitEdge n) (edge_targets (run_graph_ops ops) n)) ws)) \<and>
    distinct ws \<and> set ws = {t. (s, t) \<in> (edge_rel (run_graph_ops ops))\<^sup>*} \<and>
    sorted (map (hops (edge_targets (run_graph_ops ops)) s) ws)"
  using ag.bfs_visits [OF assms] by (simp add: bfs_calls_def step_rel_edges graph_ops_wf)

theorem bfs_visits_reachable_witness:
  defines "ops \<equiv> [AddNode 1, AddNode 2, AddNode (3::nat), AddEdge 1 2 (), AddEdge 2 1 ()]"
  shows "contains_node (run_graph_ops ops) 1 \<and>
    breadth_first_search (contains_node (run_graph_ops ops)) (edge_targets (run_graph_ops ops)) 1 =
      Some [VisitNode 1, VisitEdge 1 2, VisitNode 2, VisitEdge 2 1] \<and>
    {t. (1, t) \<in> (edge_rel (run_graph_ops ops))\<^sup>*} = {1, 2}"
proof -
  let ?bfs = "breadth_first_search (contains_node (run_graph_ops ops)) (edge_targets (run_graph_ops ops)) 1"
  have c: "contains_node (run_graph_ops ops) 1"
    unfolding ops_def by code_simp
  have bfs: "?bfs = Some [VisitNode 1, VisitEdge 1 2, VisitNode 2, VisitEdge 2 1]"
    unfolding ops_def by code_simp
  from bfs_visits_reachable [OF c] obtain ws
    where "?bfs = Some (bfs_calls (edge_targets (run_graph_ops ops)) ws)"
      and ws: "set ws = {t. (1, t) \<in> (edge_rel (run_graph_ops ops))\<^sup>*}"
    by (auto simp: bfs_calls_def)
  then have "map_option visited_nodes ?bfs = Some ws"
    by simp
  with bfs have "ws = [1, 2]"
    by simp
  with ws have "{t. (1, t) \<in> (edge_rel (run_graph_ops ops))\<^sup>*} = {1, 2}"
    by simp
  with c bfs show ?thesis by blast
qed

text \<open>
  Depth-first search over a graph from a node it holds returns, although its stack is explicit and
  holds duplicates: it visits exactly the reachable nodes, each once, and offers every edge that leaves
  a visited node.
\<close>

theorem dfs_visits_reachable:
  assumes "contains_node (run_graph_ops ops) s"
  shows "\<exists>ws. depth_first_search (contains_node (run_graph_ops ops)) (edge_targets (run_graph_ops ops)) s =
      Some (concat (map (\<lambda>n. VisitNode n # map (VisitEdge n) (rev (edge_targets (run_graph_ops ops) n))) ws)) \<and>
    distinct ws \<and> set ws = {t. (s, t) \<in> (edge_rel (run_graph_ops ops))\<^sup>*}"
  using ag.dfs_visits [OF assms] by (simp add: dfs_calls_def step_rel_edges graph_ops_wf)

theorem dfs_visits_reachable_witness:
  defines "ops \<equiv> [AddNode 1, AddNode 2, AddNode (3::nat), AddEdge 1 3 (), AddEdge 1 2 (), AddEdge 2 3 ()]"
  shows "contains_node (run_graph_ops ops) 1 \<and>
    map_option visited_nodes
      (depth_first_search (contains_node (run_graph_ops ops)) (edge_targets (run_graph_ops ops)) 1) = Some [1, 2, 3] \<and>
    {t. (1, t) \<in> (edge_rel (run_graph_ops ops))\<^sup>*} = {1, 2, 3}"
proof -
  let ?dfs = "depth_first_search (contains_node (run_graph_ops ops)) (edge_targets (run_graph_ops ops)) 1"
  have c: "contains_node (run_graph_ops ops) 1"
    unfolding ops_def by code_simp
  have dfs: "map_option visited_nodes ?dfs = Some [1, 2, 3]"
    unfolding ops_def by code_simp
  from dfs_visits_reachable [OF c] obtain ws
    where "?dfs = Some (dfs_calls (edge_targets (run_graph_ops ops)) ws)"
      and ws: "set ws = {t. (1, t) \<in> (edge_rel (run_graph_ops ops))\<^sup>*}"
    by (auto simp: dfs_calls_def)
  then have "map_option visited_nodes ?dfs = Some ws"
    by simp
  with dfs have "ws = [1, 2, 3]"
    by (metis option.inject)
  with ws have "{t. (1, t) \<in> (edge_rel (run_graph_ops ops))\<^sup>*} = {1, 2, 3}"
    by simp
  with c dfs show ?thesis by blast
qed

end
