(* ===== verification/Kahn.thy ===== *)
theory Kahn
  imports Prelude
begin

text \<open>
  Kahn's algorithm as two components run it: \<open>topological_order\<close> over an adjacency graph and the tree
  store over its \<open>contains\<close> relations. Each keeps a counter of unvisited predecessors per node and a sequence of nodes that
  are ready, walks the sequence, and appends a successor when its counter reaches zero. The locale
  fixes a finite set of nodes and a successor function and shows what the walk collects; the two
  components interpret it.
\<close>

section \<open>The walk\<close>

text \<open>\<open>--found->second\<close>\<close>

definition decrement :: "'k \<Rightarrow> ('k, nat) omap \<Rightarrow> ('k, nat) omap" where
  "decrement k remaining = map (\<lambda>(n, c). if n = k then (n, c - 1) else (n, c)) remaining"

definition visit_successor :: "'k \<Rightarrow> 'k list \<times> ('k, nat) omap \<Rightarrow> 'k list \<times> ('k, nat) omap" where
  "visit_successor t = (\<lambda>(order, remaining).
     case omap_find remaining t of
       None \<Rightarrow> (order, remaining)
     | Some c \<Rightarrow>
         if c = 0 then (order, remaining)
         else let remaining' = decrement t remaining
              in if c - 1 = 0 then (order @ [t], remaining') else (order, remaining'))"

definition pending :: "('k, nat) omap \<Rightarrow> nat" where
  "pending remaining = length (filter (\<lambda>(n, c). 0 < c) remaining)"

lemma decrement_pending_le: "pending (decrement k m) \<le> pending m"
  by (induction m) (auto simp: pending_def decrement_def split: if_splits)

lemma decrement_pending_less: "omap_find m k = Some (Suc 0) \<Longrightarrow> pending (decrement k m) < pending m"
proof (induction m)
  case (Cons x m)
  have "pending (decrement k m) \<le> pending m" by (rule decrement_pending_le)
  with Cons show ?case by (auto simp: pending_def decrement_def split: if_splits)
qed simp

lemma visit_successor_pending:
  "pending (snd (visit_successor t s)) + length (fst (visit_successor t s)) \<le> pending (snd s) + length (fst s)"
  using decrement_pending_le [of t "snd s"] decrement_pending_less [of "snd s" t]
  by (cases s) (auto simp: visit_successor_def Let_def Suc_le_eq split: option.splits)

lemma visit_successors_pending:
  "pending (snd (fold visit_successor ts s)) + length (fst (fold visit_successor ts s)) \<le> pending (snd s) + length (fst s)"
proof (induction ts arbitrary: s)
  case (Cons t ts)
  from Cons.IH [of "visit_successor t s"] visit_successor_pending [of t s] show ?case by simp
qed simp

lemma visit_successors_extend: "\<exists>new. fst (fold visit_successor ts s) = fst s @ new"
proof (induction ts arbitrary: s)
  case (Cons t ts)
  have "\<exists>new. fst (visit_successor t s) = fst s @ new"
    by (cases s) (auto simp: visit_successor_def Let_def split: option.splits)
  with Cons.IH [of "visit_successor t s"] show ?case by auto
qed simp

lemma visit_successors_length: "length (fst s) \<le> length (fst (fold visit_successor ts s))"
  using visit_successors_extend [of ts s] by auto

function kahn_walk :: "('k \<Rightarrow> 'k list) \<Rightarrow> 'k list \<Rightarrow> nat \<Rightarrow> ('k, nat) omap \<Rightarrow> 'k list" where
  "kahn_walk succ order cursor remaining =
     (if cursor < length order
      then let s = fold visit_successor (succ (order ! cursor)) (order, remaining)
           in kahn_walk succ (fst s) (Suc cursor) (snd s)
      else order)"
  by pat_completeness auto
termination
proof (relation "measure (\<lambda>(succ, order, cursor, remaining). pending remaining + length order - cursor)", simp)
  fix succ :: "'k \<Rightarrow> 'k list" and order cursor remaining s
  assume c: "cursor < length order" and s: "s = fold visit_successor (succ (order ! cursor)) (order, remaining)"
  have "pending (snd s) + length (fst s) \<le> pending remaining + length order"
    using visit_successors_pending [of "succ (order ! cursor)" "(order, remaining)"] s by simp
  moreover have "length order \<le> length (fst s)"
    using visit_successors_length [of "(order, remaining)"] s by simp
  ultimately show "((succ, fst s, Suc cursor, snd s), (succ, order, cursor, remaining))
      \<in> measure (\<lambda>(succ, order, cursor, remaining). pending remaining + length order - cursor)"
    using c by simp
qed

declare kahn_walk.simps [simp del]

lemma find_decrement: "omap_find (decrement k m) x = (if x = k then map_option (\<lambda>c. c - 1) (omap_find m x) else omap_find m x)"
  by (induction m) (auto simp: decrement_def)

section \<open>What the walk collects\<close>

locale successor_graph =
  fixes nodes :: "'k::linorder set" and succ :: "'k \<Rightarrow> 'k list"
  assumes finite_nodes: "finite nodes"
    and succ_distinct: "distinct (succ n)"
    and succ_nodes: "t \<in> set (succ n) \<Longrightarrow> n \<in> nodes \<and> t \<in> nodes"
begin

definition preds :: "'k \<Rightarrow> 'k set" where
  "preds n = {m. n \<in> set (succ m)}"

lemma preds_nodes: "preds n \<subseteq> nodes"
  using succ_nodes by (auto simp: preds_def)

lemma finite_preds: "finite (preds n)"
  by (rule finite_subset [OF preds_nodes finite_nodes])

text \<open>\<open>remaining\<close> counts the predecessors of every node outside a set that may depend on the node.\<close>

definition counts :: "('k \<Rightarrow> 'k set) \<Rightarrow> ('k, nat) omap \<Rightarrow> bool" where
  "counts D remaining \<longleftrightarrow>
     (\<forall>n. omap_find remaining n = (if n \<in> nodes then Some (card (preds n - D n)) else None))"

lemma counts_decrement:
  assumes "counts D m" and "v \<in> preds k - D k"
  shows "counts (D(k := insert v (D k))) (decrement k m)"
proof -
  have "preds k - insert v (D k) = (preds k - D k) - {v}" by auto
  with assms(2) finite_preds have "card (preds k - insert v (D k)) = card (preds k - D k) - 1"
    by simp
  with assms(1) show ?thesis by (simp add: counts_def find_decrement)
qed

lemma visit_successors:
  assumes "\<forall>t\<in>set ts. v \<in> preds t \<and> t \<notin> T" and "distinct ts"
    and "counts (\<lambda>n. if n \<in> T then insert v D else D) remaining" and "v \<notin> D"
  shows "\<exists>remaining'. fold visit_successor ts (order, remaining) =
      (order @ filter (\<lambda>t. preds t \<subseteq> insert v D) ts, remaining') \<and>
    counts (\<lambda>n. if n \<in> T \<union> set ts then insert v D else D) remaining'"
  using assms(1-3)
proof (induction ts arbitrary: T order remaining)
  case Nil
  then show ?case by simp
next
  case (Cons t ts)
  let ?D = "\<lambda>n. if n \<in> T then insert v D else D"
  let ?D' = "\<lambda>n. if n \<in> insert t T then insert v D else D"
  have edge: "v \<in> preds t" and t: "t \<notin> T" using Cons.prems(1) by auto
  have v: "v \<in> preds t - ?D t" using edge t assms(4) by simp
  have "t \<in> nodes" using edge succ_nodes by (auto simp: preds_def)
  then have c: "omap_find remaining t = Some (card (preds t - D))"
    using Cons.prems(3) t by (simp add: counts_def)
  have pos: "card (preds t - D) \<noteq> 0" using v t finite_preds by auto
  have "?D(t := insert v (?D t)) = ?D'" using t by (simp add: fun_eq_iff)
  then have cnt: "counts ?D' (decrement t remaining)"
    using counts_decrement [OF Cons.prems(3) v] by simp
  have split: "preds t - D = insert v (preds t - insert v D)" using v t by auto
  have less: "finite (preds t - insert v D)" using finite_preds by simp
  have "card (insert v (preds t - insert v D)) = Suc (card (preds t - insert v D))"
    by (rule card_insert_disjoint [OF less]) simp
  then have "card (preds t - D) = Suc (card (preds t - insert v D))" by (simp only: split [symmetric])
  then have zero: "card (preds t - D) - 1 = 0 \<longleftrightarrow> preds t \<subseteq> insert v D"
    using less by (simp add: Diff_eq_empty_iff)
  have step: "visit_successor t (order, remaining) =
      (order @ filter (\<lambda>t. preds t \<subseteq> insert v D) [t], decrement t remaining)"
    using c pos zero by (simp add: visit_successor_def Let_def)
  have rest: "\<forall>x\<in>set ts. v \<in> preds x \<and> x \<notin> insert t T" and dist: "distinct ts"
    using Cons.prems(1,2) by auto
  have "insert t T \<union> set ts = T \<union> set (t # ts)" by auto
  with Cons.IH [OF rest dist cnt, of "order @ filter (\<lambda>t. preds t \<subseteq> insert v D) [t]"] show ?case
    by (cases "preds t \<subseteq> insert v D") (simp_all add: step)
qed

text \<open>
  The invariant of the walk: everything in the sequence is ready, everything ready is in the sequence, and a
  node's predecessors stand before it.
\<close>

definition walk_inv :: "'k list \<Rightarrow> nat \<Rightarrow> ('k, nat) omap \<Rightarrow> bool" where
  "walk_inv order cursor remaining \<longleftrightarrow>
     cursor \<le> length order \<and> distinct order \<and>
     set order = {n \<in> nodes. preds n \<subseteq> set (take cursor order)} \<and>
     counts (\<lambda>_. set (take cursor order)) remaining \<and>
     (\<forall>i<length order. preds (order ! i) \<subseteq> set (take i order))"

lemma walk_inv_step:
  assumes inv: "walk_inv order cursor remaining" and c: "cursor < length order"
  shows "walk_inv (fst (fold visit_successor (succ (order ! cursor)) (order, remaining))) (Suc cursor)
    (snd (fold visit_successor (succ (order ! cursor)) (order, remaining)))"
proof -
  let ?v = "order ! cursor" and ?D = "set (take cursor order)"
  have dist: "distinct order" and ready: "set order = {n \<in> nodes. preds n \<subseteq> ?D}"
    and cnt: "counts (\<lambda>_. ?D) remaining" and before: "\<forall>i<length order. preds (order ! i) \<subseteq> set (take i order)"
    using inv by (auto simp: walk_inv_def)
  have v: "?v \<notin> ?D" using dist c by (auto simp: in_set_conv_nth nth_eq_iff_index_eq)
  have D': "insert ?v ?D = set (take (Suc cursor) order)" using c by (simp add: take_Suc_conv_app_nth)
  have "\<forall>t\<in>set (succ ?v). ?v \<in> preds t \<and> t \<notin> {}" by (simp add: preds_def)
  from visit_successors [OF this succ_distinct _ v, of remaining order] cnt
  obtain remaining' where visit: "fold visit_successor (succ ?v) (order, remaining) =
      (order @ filter (\<lambda>t. preds t \<subseteq> insert ?v ?D) (succ ?v), remaining')"
    and cnt': "counts (\<lambda>n. if n \<in> set (succ ?v) then insert ?v ?D else ?D) remaining'"
    by auto
  define new where "new = filter (\<lambda>t. preds t \<subseteq> insert ?v ?D) (succ ?v)"
  have set_new: "set new = {n. ?v \<in> preds n \<and> preds n \<subseteq> insert ?v ?D}" by (auto simp: new_def preds_def)
  have same: "card (preds n - (if n \<in> set (succ ?v) then insert ?v ?D else ?D)) = card (preds n - insert ?v ?D)" for n
    by (auto simp: preds_def intro!: arg_cong [where f = card])
  have "set order \<union> set new = {n \<in> nodes. preds n \<subseteq> insert ?v ?D}"
    using ready set_new succ_nodes by (auto simp: preds_def)
  moreover have "set order \<inter> set new = {}" using ready set_new v by auto
  moreover have "distinct new" using succ_distinct by (simp add: new_def)
  moreover have "counts (\<lambda>_. insert ?v ?D) remaining'" using cnt' same by (simp add: counts_def)
  moreover have "preds ((order @ new) ! i) \<subseteq> set (take i (order @ new))" if "i < length (order @ new)" for i
  proof (cases "i < length order")
    case True
    with before show ?thesis by (simp add: nth_append)
  next
    case False
    then have "(order @ new) ! i \<in> set new" using that by (simp add: nth_append)
    then have "preds ((order @ new) ! i) \<subseteq> insert ?v ?D" by (simp add: set_new)
    moreover have "insert ?v ?D \<subseteq> set order" using c set_take_subset [of cursor order] by auto
    ultimately show ?thesis using False by auto
  qed
  moreover have "take (Suc cursor) (order @ new) = take (Suc cursor) order" using c by simp
  moreover have "fold visit_successor (succ ?v) (order, remaining) = (order @ new, remaining')"
    using visit by (simp add: new_def)
  ultimately show ?thesis using c dist by (simp add: walk_inv_def D')
qed

lemma kahn_walk_inv:
  assumes "walk_inv order cursor remaining"
  shows "\<exists>remaining'. walk_inv (kahn_walk succ order cursor remaining)
    (length (kahn_walk succ order cursor remaining)) remaining'"
  using assms
proof (induction s \<equiv> succ order cursor remaining rule: kahn_walk.induct)
  case (1 order cursor remaining)
  show ?case
  proof (cases "cursor < length order")
    case True
    with 1 walk_inv_step [OF 1(2)] show ?thesis by (simp add: kahn_walk.simps [of succ order cursor] Let_def)
  next
    case False
    with 1 have "cursor = length order" by (simp add: walk_inv_def)
    with 1 show ?thesis by (auto simp: kahn_walk.simps [of succ order "length order"])
  qed
qed

text \<open>The walk starts from the nodes without predecessors and the counters of all predecessors.\<close>

lemma start_inv:
  assumes "counts (\<lambda>_. {}) remaining" and "distinct order" and "set order = {n \<in> nodes. preds n = {}}"
  shows "walk_inv order 0 remaining"
proof -
  have "preds (order ! i) \<subseteq> set (take i order)" if "i < length order" for i
    using nth_mem [OF that] assms(3) by blast
  with assms show ?thesis by (simp add: walk_inv_def)
qed

lemma walk_result:
  assumes "counts (\<lambda>_. {}) remaining" and "distinct start" and "set start = {n \<in> nodes. preds n = {}}"
  defines "order \<equiv> kahn_walk succ start 0 remaining"
  shows "distinct order" and "set order = {n \<in> nodes. preds n \<subseteq> set order}"
    and "\<forall>i<length order. preds (order ! i) \<subseteq> set (take i order)"
proof -
  from kahn_walk_inv [OF start_inv [OF assms(1-3)]] obtain remaining' where "walk_inv order (length order) remaining'"
    unfolding order_def by blast
  then show "distinct order" and "set order = {n \<in> nodes. preds n \<subseteq> set order}"
    and "\<forall>i<length order. preds (order ! i) \<subseteq> set (take i order)"
    by (simp_all add: walk_inv_def)
qed

definition edges :: "('k \<times> 'k) set" where
  "edges = {(m, n). n \<in> set (succ m)}"

lemma linear_order_acyclic:
  assumes "set order = nodes" and "\<forall>i<length order. preds (order ! i) \<subseteq> set (take i order)" and "distinct order"
  shows "acyclic edges"
proof -
  let ?pos = "\<lambda>n. LEAST i. i < length order \<and> order ! i = n"
  have pos: "?pos (order ! i) = i" if "i < length order" for i
    using that assms(3) by (intro Least_equality) (auto simp: nth_eq_iff_index_eq)
  have "?pos s < ?pos t" if edge: "(s, t) \<in> edges" for s t
  proof -
    have "t \<in> set order" using edge succ_nodes assms(1) by (auto simp: edges_def)
    then obtain i where i: "i < length order" "t = order ! i" by (auto simp: in_set_conv_nth)
    then have "s \<in> set (take i order)" using edge assms(2) by (auto simp: edges_def preds_def)
    then obtain j where "j < i" "s = order ! j" using i by (auto simp: in_set_conv_nth)
    with i pos show ?thesis by simp
  qed
  then have "edges \<subseteq> measure ?pos" by auto
  then show ?thesis by (rule acyclic_subset [OF wf_acyclic [OF wf_measure]])
qed

lemma stuck_cycle:
  assumes "set order = {n \<in> nodes. preds n \<subseteq> set order}" and "n \<in> nodes" and "n \<notin> set order"
  shows "\<not> acyclic edges"
proof
  assume "acyclic edges"
  have "edges \<subseteq> nodes \<times> nodes" using succ_nodes by (auto simp: edges_def)
  then have "finite edges" by (rule finite_subset) (simp add: finite_nodes)
  then have "wf edges" using \<open>acyclic edges\<close> by (simp add: finite_acyclic_wf)
  then obtain m where m: "m \<in> nodes - set order" and least: "\<And>y. (y, m) \<in> edges \<Longrightarrow> y \<notin> nodes - set order"
    using assms(2,3) by (elim wfE_min [where Q = "nodes - set order"]) auto
  have "preds m \<subseteq> set order"
    using least preds_nodes [of m] by (auto simp: edges_def preds_def)
  with m assms(1) show False by blast
qed

lemma walk_complete_iff_acyclic:
  assumes "counts (\<lambda>_. {}) remaining" and "distinct start" and "set start = {n \<in> nodes. preds n = {}}"
  shows "length (kahn_walk succ start 0 remaining) = card nodes \<longleftrightarrow> acyclic edges"
proof -
  let ?order = "kahn_walk succ start 0 remaining"
  note o = walk_result [OF assms]
  have sub: "set ?order \<subseteq> nodes" using o(2) by blast
  have "length ?order = card nodes \<longleftrightarrow> set ?order = nodes"
    using card_subset_eq [OF finite_nodes sub] distinct_card [OF o(1)] by auto
  also have "\<dots> \<longleftrightarrow> acyclic edges"
    using linear_order_acyclic [OF _ o(3) o(1)] stuck_cycle [OF o(2)] sub by blast
  finally show ?thesis .
qed

end

end
