(* ===== verification/Topological_Order.thy ===== *)
theory Topological_Order
  imports Graph_Traversal Kahn
begin

text \<open>
  \<open>src/kernel/graph/topological_order.hpp\<close>: Kahn's algorithm. The cursor walks the vector of ready
  nodes while the loop body appends to it; that this ends is the termination proof of \<open>topo_loop\<close>.
  Shown: a returned order lists every node once with each edge pointing forward, and an order is
  returned exactly for the acyclic graphs.
\<close>

section \<open>The algorithm\<close>

definition topo_remaining :: "('k::linorder, 'p) adjacency_graph \<Rightarrow> ('k, nat) omap" where
  "topo_remaining g = fold (\<lambda>n remaining. omap_put n (length (in_edges g n)) remaining) (graph_nodes g) []"

definition topo_seed :: "('k::linorder, 'p) adjacency_graph \<Rightarrow> ('k, nat) omap \<Rightarrow> 'k list" where
  "topo_seed g remaining = filter (\<lambda>n. case omap_find remaining n of None \<Rightarrow> True | Some c \<Rightarrow> c = 0) (graph_nodes g)"

definition topo_edge :: "('k, 'p) outgoing_edge \<Rightarrow> 'k list \<times> ('k, nat) omap \<Rightarrow> 'k list \<times> ('k, nat) omap" where
  "topo_edge e = (\<lambda>(order, remaining).
     case omap_find remaining (target e) of
       None \<Rightarrow> (order, remaining)
     | Some c \<Rightarrow>
         if c = 0 then (order, remaining)
         else let remaining' = decrement (target e) remaining
              in if c - 1 = 0 then (order @ [target e], remaining') else (order, remaining'))"

lemma topo_edge_visit: "topo_edge e = visit_successor (target e)"
  by (simp add: topo_edge_def visit_successor_def fun_eq_iff)

lemma topo_edges_visit: "fold topo_edge es s = fold visit_successor (map target es) s"
  by (induction es arbitrary: s) (simp_all add: topo_edge_visit)

function topo_loop :: "('k, 'p) adjacency_graph \<Rightarrow> 'k list \<Rightarrow> nat \<Rightarrow> ('k, nat) omap \<Rightarrow> 'k list" where
  "topo_loop g order cursor remaining =
     (if cursor < length order
      then let s = fold topo_edge (out_edges g (order ! cursor)) (order, remaining)
           in topo_loop g (fst s) (Suc cursor) (snd s)
      else order)"
  by pat_completeness auto
termination
proof (relation "measure (\<lambda>(g, order, cursor, remaining). pending remaining + length order - cursor)", simp)
  fix g :: "('k, 'p) adjacency_graph" and order cursor remaining s
  assume c: "cursor < length order" and s: "s = fold topo_edge (out_edges g (order ! cursor)) (order, remaining)"
  let ?ts = "map target (out_edges g (order ! cursor))"
  have "pending (snd s) + length (fst s) \<le> pending remaining + length order" and "length order \<le> length (fst s)"
    using visit_successors_pending [of ?ts "(order, remaining)"] visit_successors_length [of "(order, remaining)" ?ts] s
    by (simp_all add: topo_edges_visit)
  then show "((g, fst s, Suc cursor, snd s), (g, order, cursor, remaining))
      \<in> measure (\<lambda>(g, order, cursor, remaining). pending remaining + length order - cursor)"
    using c by simp
qed

declare topo_loop.simps [simp del]

definition topological_order :: "('k::linorder, 'p) adjacency_graph \<Rightarrow> 'k list option" where
  "topological_order g =
     (let remaining = topo_remaining g;
          order = topo_loop g (topo_seed g remaining) 0 remaining
      in if length order \<noteq> node_count g then None else Some order)"

section \<open>The walk over an adjacency graph\<close>

lemma topo_loop_walk: "topo_loop g order cursor remaining = kahn_walk (edge_targets g) order cursor remaining"
proof (induction g order cursor remaining rule: topo_loop.induct)
  case (1 g order cursor remaining)
  show ?case
  proof (cases "cursor < length order")
    case True
    with 1 show ?thesis
      unfolding topo_loop.simps [of g order cursor remaining] kahn_walk.simps [of "edge_targets g" order cursor remaining]
      by (simp add: Let_def topo_edges_visit flip: edge_targets_def)
  qed (simp add: topo_loop.simps kahn_walk.simps)
qed

lemma graph_nodes_distinct: "graph_wf g \<Longrightarrow> distinct (graph_nodes g)"
  unfolding graph_nodes_def by (rule om.distinct_ks) (simp add: graph_wf_def adj_ok_def)

lemma adjacency_successors:
  assumes "graph_wf g"
  shows "successor_graph {n. contains_node g n} (edge_targets g)"
proof
  show "finite {n. contains_node g n}" by (simp add: contains_node_iff)
  show "distinct (edge_targets g n)" for n
    unfolding edge_targets_def
    by (rule el.distinct_ks) (use assms in \<open>auto simp: graph_wf_def adj_ok_def out_edges_def\<close>)
  show "n \<in> {n. contains_node g n} \<and> t \<in> {n. contains_node g n}" if "t \<in> set (edge_targets g n)" for t n
    using that set_edge_targets [OF assms] edge_endpoints [OF assms] by auto
qed

interpretation built: successor_graph "{n. contains_node (run_graph_ops ops) n}" "edge_targets (run_graph_ops ops)" for ops
  by (rule adjacency_successors [OF graph_ops_wf])

lemma adjacency_preds: "graph_wf g \<Longrightarrow> successor_graph.preds (edge_targets g) n = {m. contains_edge g m n}"
  by (simp add: successor_graph.preds_def [OF adjacency_successors] set_edge_targets)

lemma adjacency_edges: "graph_wf g \<Longrightarrow> successor_graph.edges (edge_targets g) = edge_rel g"
  by (simp add: successor_graph.edges_def [OF adjacency_successors] set_edge_targets edge_rel_def)

lemma length_in_edges:
  assumes wf: "graph_wf g"
  shows "length (in_edges g n) = card {m. contains_edge g m n}"
proof -
  have "distinct (map target (in_edges g n))"
    using wf by (intro el.distinct_ks) (auto simp: graph_wf_def adj_ok_def in_edges_def)
  moreover have "{m. contains_edge g m n} = set (map target (in_edges g n))"
    using wf targets_of_edges [of "incoming g" _ n]
    by (auto simp: graph_wf_def in_edges_def contains_edge_look edge_payload_look)
  ultimately show ?thesis using distinct_card [of "map target (in_edges g n)"] by simp
qed

lemma find_fold_put:
  "omap_find (fold (\<lambda>n m. omap_put n (f n) m) ns m) x = (if x \<in> set ns then Some (f x) else omap_find m x)"
  by (induction ns arbitrary: m) (auto simp: map_model)

lemma topo_remaining_find:
  "graph_wf g \<Longrightarrow> omap_find (topo_remaining g) n = (if contains_node g n then Some (card {m. contains_edge g m n}) else None)"
  by (simp add: topo_remaining_def find_fold_put length_in_edges contains_node_iff)

lemma topo_remaining_counts:
  "graph_wf g \<Longrightarrow> successor_graph.counts {n. contains_node g n} (edge_targets g) (\<lambda>_. {}) (topo_remaining g)"
  by (simp add: successor_graph.counts_def [OF adjacency_successors] adjacency_preds topo_remaining_find)

lemma topo_seed_start:
  assumes "graph_wf g"
  shows "distinct (topo_seed g (topo_remaining g))"
    and "set (topo_seed g (topo_remaining g)) = {n \<in> {n. contains_node g n}. successor_graph.preds (edge_targets g) n = {}}"
proof -
  have "finite {m. contains_edge g m n}" for n
    using successor_graph.finite_preds [OF adjacency_successors [OF assms], of n] by (simp add: adjacency_preds [OF assms])
  then show "set (topo_seed g (topo_remaining g)) = {n \<in> {n. contains_node g n}. successor_graph.preds (edge_targets g) n = {}}"
    by (auto simp: topo_seed_def topo_remaining_find [OF assms] adjacency_preds [OF assms] contains_node_iff)
  show "distinct (topo_seed g (topo_remaining g))"
    using graph_nodes_distinct [OF assms] by (simp add: topo_seed_def)
qed

lemmas walk_facts = topo_remaining_counts topo_seed_start

section \<open>Correctness\<close>

lemma topological_order_walk:
  "topological_order g =
     (let order = kahn_walk (edge_targets g) (topo_seed g (topo_remaining g)) 0 (topo_remaining g)
      in if length order = card {n. contains_node g n} then Some order else None)"
  if "graph_wf g"
  using distinct_card [OF graph_nodes_distinct [OF that]]
  by (simp add: topological_order_def topo_loop_walk node_count_def graph_nodes_def contains_node_iff Let_def)

lemma returned_order:
  assumes "graph_wf g" and "topological_order g = Some order"
  shows "distinct order" and "set order = {n. contains_node g n}"
    and "\<forall>i<length order. {m. contains_edge g m (order ! i)} \<subseteq> set (take i order)"
proof -
  have order: "order = kahn_walk (edge_targets g) (topo_seed g (topo_remaining g)) 0 (topo_remaining g)"
    and len: "length order = card {n. contains_node g n}"
    using assms(2) by (auto simp: topological_order_walk [OF assms(1)] Let_def split: if_splits)
  note o = successor_graph.walk_result [OF adjacency_successors [OF assms(1)] walk_facts [OF assms(1)], folded order]
  show "distinct order" by (rule o(1))
  show "\<forall>i<length order. {m. contains_edge g m (order ! i)} \<subseteq> set (take i order)"
    using o(3) by (simp add: adjacency_preds [OF assms(1)])
  have "set order \<subseteq> {n. contains_node g n}" using o(2) by blast
  then show "set order = {n. contains_node g n}"
    using card_subset_eq [of "{n. contains_node g n}" "set order"] distinct_card [OF o(1)] len by (simp add: contains_node_iff)
qed

text \<open>
  C2. An order the algorithm returns is a linearisation: it lists every node of the graph exactly once,
  and every edge leads from an earlier position to a later one.
\<close>

theorem topological_order_sound:
  assumes "graph_wf g" and "topological_order g = Some order"
  shows "distinct order \<and> set order = {n. contains_node g n} \<and>
    (\<forall>i<length order. \<forall>s. contains_edge g s (order ! i) \<longrightarrow> s \<in> set (take i order))"
  using returned_order [OF assms] by auto

theorem topological_order_sound_witness:
  defines "g \<equiv> run_graph_ops [AddNode 1, AddNode 2, AddNode (3::nat), AddEdge 3 1 (), AddEdge 1 2 ()]"
  shows "graph_wf g \<and> topological_order g = Some [3, 1, 2] \<and>
    set [3, 1, 2] = {n. contains_node g n}"
proof -
  have wf: "graph_wf g"
    unfolding g_def by (rule graph_ops_wf)
  have t: "topological_order g = Some [3, 1, 2]"
    unfolding g_def by code_simp
  from topological_order_sound [OF wf t] wf t show ?thesis by blast
qed

lemma no_order_iff_cycle:
  assumes "graph_wf g"
  shows "topological_order g = None \<longleftrightarrow> \<not> acyclic (edge_rel g)"
  using successor_graph.walk_complete_iff_acyclic [OF adjacency_successors [OF assms] walk_facts [OF assms]]
  by (simp add: topological_order_walk [OF assms] Let_def adjacency_edges [OF assms])

text \<open>
  C1. The algorithm fails only on a cycle: it returns no order exactly when the edges of the graph have
  a cycle, so a caller that gets an order waits on no dependency that never resolves.
\<close>

theorem topological_order_none_iff_cycle:
  assumes "graph_wf g"
  shows "topological_order g = None \<longleftrightarrow> \<not> acyclic (edge_rel g)"
  using assms by (rule no_order_iff_cycle)

theorem topological_order_none_iff_cycle_witness:
  defines "g \<equiv> run_graph_ops [AddNode 1, AddNode (2::nat), AddEdge 1 2 (), AddEdge 2 1 ()]"
  shows "graph_wf g \<and> topological_order g = None \<and> \<not> acyclic (edge_rel g)"
proof -
  have wf: "graph_wf g"
    unfolding g_def by (rule graph_ops_wf)
  have t: "topological_order g = None"
    unfolding g_def by code_simp
  from topological_order_none_iff_cycle [OF wf] wf t show ?thesis by blast
qed

end
