(* ===== verification/Graph_Delta.thy ===== *)
theory Graph_Delta
  imports Graph_Traversal
begin

text \<open>
  \<open>src/kernel/graph/graph_delta.hpp\<close>: what changed between two snapshots of a graph, by merging the
  sorted node sets and each node's sorted edge lists. The reference is the delta read off the two
  graphs by lookups; the merge is shown to compute exactly it, in order and without repetition.
\<close>

section \<open>The merges\<close>

record 'k graph_delta =
  added_nodes :: "'k list"
  removed_nodes :: "'k list"
  added_edges :: "('k \<times> 'k) list"
  removed_edges :: "('k \<times> 'k) list"
  changed_edges :: "('k \<times> 'k) list"

definition empty_delta :: "'k graph_delta" where
  "empty_delta = \<lparr>added_nodes = [], removed_nodes = [], added_edges = [], removed_edges = [], changed_edges = []\<rparr>"

definition push_removed :: "'k \<Rightarrow> ('k, 'p) outgoing_edge \<Rightarrow> 'k graph_delta \<Rightarrow> 'k graph_delta" where
  "push_removed source e delta = delta\<lparr>removed_edges := removed_edges delta @ [(source, target e)]\<rparr>"

definition push_added :: "'k \<Rightarrow> ('k, 'p) outgoing_edge \<Rightarrow> 'k graph_delta \<Rightarrow> 'k graph_delta" where
  "push_added source e delta = delta\<lparr>added_edges := added_edges delta @ [(source, target e)]\<rparr>"

definition push_changed :: "'k \<Rightarrow> ('k, 'p) outgoing_edge \<Rightarrow> 'k graph_delta \<Rightarrow> 'k graph_delta" where
  "push_changed source e delta = delta\<lparr>changed_edges := changed_edges delta @ [(source, target e)]\<rparr>"

text \<open>The two indices of the source are the two suffixes that are left.\<close>

fun merge_edge_lists :: "'k::linorder \<Rightarrow> ('k, 'p) edge_list \<Rightarrow> ('k, 'p) edge_list \<Rightarrow> ('p \<Rightarrow> 'p \<Rightarrow> bool) \<Rightarrow> 'k graph_delta \<Rightarrow> 'k graph_delta" where
  "merge_edge_lists source (b # before) (a # after) payload_equal delta =
     (if target b < target a
      then merge_edge_lists source before (a # after) payload_equal (push_removed source b delta)
      else if target a < target b
      then merge_edge_lists source (b # before) after payload_equal (push_added source a delta)
      else merge_edge_lists source before after payload_equal
             (if \<not> payload_equal (payload b) (payload a) then push_changed source a delta else delta))"
| "merge_edge_lists source before [] payload_equal delta = fold (push_removed source) before delta"
| "merge_edge_lists source [] after payload_equal delta = fold (push_added source) after delta"

definition only_before :: "('k::linorder, 'p) adjacency_graph \<Rightarrow> ('p \<Rightarrow> 'p \<Rightarrow> bool) \<Rightarrow> 'k \<Rightarrow> 'k graph_delta \<Rightarrow> 'k graph_delta" where
  "only_before before payload_equal node delta =
     merge_edge_lists node (out_edges before node) [] payload_equal
       (delta\<lparr>removed_nodes := removed_nodes delta @ [node]\<rparr>)"

definition only_after :: "('k::linorder, 'p) adjacency_graph \<Rightarrow> ('p \<Rightarrow> 'p \<Rightarrow> bool) \<Rightarrow> 'k \<Rightarrow> 'k graph_delta \<Rightarrow> 'k graph_delta" where
  "only_after after payload_equal node delta =
     merge_edge_lists node [] (out_edges after node) payload_equal
       (delta\<lparr>added_nodes := added_nodes delta @ [node]\<rparr>)"

fun merge_nodes :: "('k::linorder, 'p) adjacency_graph \<Rightarrow> ('k, 'p) adjacency_graph \<Rightarrow> ('p \<Rightarrow> 'p \<Rightarrow> bool) \<Rightarrow> 'k list \<Rightarrow> 'k list \<Rightarrow> 'k graph_delta \<Rightarrow> 'k graph_delta" where
  "merge_nodes before after payload_equal (l # ls) (r # rs) delta =
     (if l < r then merge_nodes before after payload_equal ls (r # rs) (only_before before payload_equal l delta)
      else if r < l then merge_nodes before after payload_equal (l # ls) rs (only_after after payload_equal r delta)
      else merge_nodes before after payload_equal ls rs
             (merge_edge_lists l (out_edges before l) (out_edges after r) payload_equal delta))"
| "merge_nodes before after payload_equal ls [] delta = fold (only_before before payload_equal) ls delta"
| "merge_nodes before after payload_equal [] rs delta = fold (only_after after payload_equal) rs delta"

definition graph_difference :: "('k::linorder, 'p) adjacency_graph \<Rightarrow> ('k, 'p) adjacency_graph \<Rightarrow> ('p \<Rightarrow> 'p \<Rightarrow> bool) \<Rightarrow> 'k graph_delta" where
  "graph_difference before after payload_equal =
     merge_nodes before after payload_equal (graph_nodes before) (graph_nodes after) empty_delta"

section \<open>The reference delta\<close>

text \<open>Edges of one side that the other side lacks, and edges on both sides with different payloads.\<close>

definition missing :: "('k::linorder, 'p) edge_list \<Rightarrow> ('k, 'p) edge_list \<Rightarrow> 'k list" where
  "missing other es = filter (\<lambda>t. edge_look other t = None) (map target es)"

definition differing :: "('p \<Rightarrow> 'p \<Rightarrow> bool) \<Rightarrow> ('k::linorder, 'p) edge_list \<Rightarrow> ('k, 'p) edge_list \<Rightarrow> 'k list" where
  "differing payload_equal before after =
     map target (filter (\<lambda>a. case edge_look before (target a) of None \<Rightarrow> False | Some p \<Rightarrow> \<not> payload_equal p (payload a)) after)"

definition add_delta :: "'k graph_delta \<Rightarrow> 'k list \<Rightarrow> 'k list \<Rightarrow> ('k \<times> 'k) list \<Rightarrow> ('k \<times> 'k) list \<Rightarrow> ('k \<times> 'k) list \<Rightarrow> 'k graph_delta" where
  "add_delta d an rn ae re ce =
     \<lparr>added_nodes = added_nodes d @ an, removed_nodes = removed_nodes d @ rn, added_edges = added_edges d @ ae,
      removed_edges = removed_edges d @ re, changed_edges = changed_edges d @ ce\<rparr>"

lemma add_delta_0: "add_delta d [] [] [] [] [] = d"
  by (simp add: add_delta_def)

lemma add_delta_add: "add_delta (add_delta d an rn ae re ce) an' rn' ae' re' ce' =
    add_delta d (an @ an') (rn @ rn') (ae @ ae') (re @ re') (ce @ ce')"
  by (simp add: add_delta_def)

lemma push_add_delta:
  "push_removed s e d = add_delta d [] [] [] [(s, target e)] []"
  "push_added s e d = add_delta d [] [] [(s, target e)] [] []"
  "push_changed s e d = add_delta d [] [] [] [] [(s, target e)]"
  by (simp_all add: push_removed_def push_added_def push_changed_def add_delta_def)

lemma fold_push_removed: "fold (push_removed s) es d = add_delta d [] [] [] (map (Pair s) (map target es)) []"
  by (induction es arbitrary: d) (simp_all add: push_add_delta add_delta_0 add_delta_add)

lemma fold_push_added: "fold (push_added s) es d = add_delta d [] [] (map (Pair s) (map target es)) [] []"
  by (induction es arbitrary: d) (simp_all add: push_add_delta add_delta_0 add_delta_add)

lemma edge_look_smaller: "edges_ok es \<Longrightarrow> \<forall>e\<in>set es. t < target e \<Longrightarrow> edge_look es t = None"
  by (auto simp: edge_look_None_iff)

lemma missing_skip: "\<forall>e\<in>set es. target b < target e \<Longrightarrow> missing (b # other) es = missing other es"
  unfolding missing_def by (rule filter_cong [OF refl]) (fastforce dest: bspec)

lemma differing_skip: "\<forall>e\<in>set es. target b < target e \<Longrightarrow> differing eq (b # other) es = differing eq other es"
  by (auto simp: differing_def intro!: filter_cong arg_cong [where f = "map target"])

lemmas delta_simps = fold_push_removed fold_push_added push_add_delta add_delta_add missing_def differing_def

lemma merge_edge_lists_spec:
  assumes "edges_ok before" and "edges_ok after"
  shows "merge_edge_lists s before after eq d =
    add_delta d [] [] (map (Pair s) (missing before after)) (map (Pair s) (missing after before))
      (map (Pair s) (differing eq before after))"
  using assms
proof (induction s before after eq d rule: merge_edge_lists.induct)
  case (1 s b before a after eq d)
  have b: "\<forall>e\<in>set before. target b < target e" and a: "\<forall>e\<in>set after. target a < target e"
    using 1(4,5) by auto
  consider (removed) "target b < target a" | (added) "target a < target b" | (both) "target b = target a"
    by (metis neqE)
  then show ?case
  proof cases
    case removed
    then have "\<forall>e\<in>set (a # after). target b < target e" using a by (auto intro: less_trans)
    moreover have "missing (a # after) (b # before) = target b # missing (a # after) before"
      using removed by (auto simp: missing_def)
    ultimately show ?thesis
      using 1(1) [OF removed] 1(4,5) removed missing_skip [of "a # after" b before] differing_skip [of "a # after" b eq before]
      by (simp add: push_add_delta add_delta_add)
  next
    case added
    then have less: "\<forall>e\<in>set (b # before). target a < target e" using b by (auto intro: less_trans)
    moreover have "missing (b # before) (a # after) = target a # missing (b # before) after"
      using added by (auto simp: missing_def)
    moreover have "differing eq (b # before) (a # after) = differing eq (b # before) after"
      using added by (auto simp: differing_def)
    ultimately show ?thesis
      using 1(2) added 1(4,5) missing_skip [of "b # before" a after]
      by (simp add: push_add_delta add_delta_add)
  next
    case both
    then have "missing (b # before) (a # after) = missing before after"
      and "missing (a # after) (b # before) = missing after before"
      using a b missing_skip [of after b before] missing_skip [of before a after] by (simp_all add: missing_def)
    moreover have "differing eq (b # before) (a # after) =
        (if eq (payload b) (payload a) then [] else [target a]) @ differing eq before after"
      using both a differing_skip [of after b eq before] by (simp add: differing_def)
    ultimately show ?thesis
      using 1(3) both 1(4,5) by (simp add: push_add_delta add_delta_add)
  qed
next
  case (2 s before eq d)
  then show ?case by (simp add: delta_simps)
next
  case (3 s a after eq d)
  then show ?case by (simp add: delta_simps del: fold.simps)
qed

text \<open>The same for the node merge, over the suffixes of the two node lists that are left.\<close>

lemma only_before_spec:
  "out_edges after n = [] \<Longrightarrow> only_before before eq n d =
     add_delta d [] [n] [] (map (Pair n) (missing (out_edges after n) (out_edges before n))) []"
  by (simp add: only_before_def fold_push_removed add_delta_def missing_def)

lemma only_after_spec:
  "out_edges before n = [] \<Longrightarrow> only_after after eq n d =
     add_delta d [n] [] (map (Pair n) (missing (out_edges before n) (out_edges after n))) [] []"
  by (cases "out_edges after n")
    (simp_all add: only_after_def fold_push_added add_delta_def missing_def push_added_def)

lemma fold_only_before:
  "\<forall>n\<in>set ls. out_edges after n = [] \<Longrightarrow> fold (only_before before eq) ls d =
     add_delta d [] ls [] (concat (map (\<lambda>n. map (Pair n) (missing (out_edges after n) (out_edges before n))) ls)) []"
  by (induction ls arbitrary: d) (simp_all add: add_delta_0 add_delta_add only_before_spec [of after])

lemma fold_only_after:
  "\<forall>n\<in>set rs. out_edges before n = [] \<Longrightarrow> fold (only_after after eq) rs d =
     add_delta d rs [] (concat (map (\<lambda>n. map (Pair n) (missing (out_edges before n) (out_edges after n))) rs)) [] []"
  by (induction rs arbitrary: d) (simp_all add: add_delta_0 add_delta_add only_after_spec [of before])

lemma differing_empty: "before = [] \<or> after = [] \<Longrightarrow> differing eq before after = []"
  by (auto simp: differing_def)

lemma concat_nil: "\<forall>n\<in>set ns. f n = [] \<Longrightarrow> concat (map f ns) = []"
  by (induction ns) auto

lemma merge_nodes_spec:
  assumes "strictly_sorted ls" and "strictly_sorted rs"
    and "\<forall>n. edges_ok (out_edges before n) \<and> edges_ok (out_edges after n)"
    and "\<forall>n\<in>set rs. n \<notin> set ls \<longrightarrow> out_edges before n = []"
    and "\<forall>n\<in>set ls. n \<notin> set rs \<longrightarrow> out_edges after n = []"
  shows "merge_nodes before after eq ls rs d =
    add_delta d (filter (\<lambda>n. n \<notin> set ls) rs) (filter (\<lambda>n. n \<notin> set rs) ls)
      (concat (map (\<lambda>n. map (Pair n) (missing (out_edges before n) (out_edges after n))) rs))
      (concat (map (\<lambda>n. map (Pair n) (missing (out_edges after n) (out_edges before n))) ls))
      (concat (map (\<lambda>n. map (Pair n) (differing eq (out_edges before n) (out_edges after n))) rs))"
  using assms
proof (induction before after eq ls rs d rule: merge_nodes.induct)
  case (1 before after eq l ls r rs d)
  have l: "\<forall>n\<in>set ls. l < n" and r: "\<forall>n\<in>set rs. r < n"
    using 1(4,5) by auto
  consider (before) "l < r" | (after) "r < l" | (both) "l = r"
    by (metis neqE)
  then show ?case
  proof cases
    case before
    then have notin: "l \<notin> set (r # rs)" and keep: "filter (\<lambda>n. n \<notin> set (l # ls)) (r # rs) = filter (\<lambda>n. n \<notin> set ls) (r # rs)"
      using r by (auto intro!: filter_cong dest: bspec)
    have empty: "out_edges after l = []"
      using 1(8) notin by simp
    have "merge_nodes before after eq ls (r # rs) (only_before before eq l d) =
      add_delta (only_before before eq l d) (filter (\<lambda>n. n \<notin> set ls) (r # rs)) (filter (\<lambda>n. n \<notin> set (r # rs)) ls)
      (concat (map (\<lambda>n. map (Pair n) (missing (out_edges before n) (out_edges after n))) (r # rs)))
      (concat (map (\<lambda>n. map (Pair n) (missing (out_edges after n) (out_edges before n))) ls))
      (concat (map (\<lambda>n. map (Pair n) (differing eq (out_edges before n) (out_edges after n))) (r # rs)))"
      using before notin 1(4-8) by (intro 1(1)) auto
    with before notin keep show ?thesis
      by (simp only: merge_nodes.simps if_True only_before_spec [where before = before, OF empty] add_delta_add)
        simp
  next
    case after
    then have notin: "r \<notin> set (l # ls)" and keep: "filter (\<lambda>n. n \<notin> set (r # rs)) (l # ls) = filter (\<lambda>n. n \<notin> set rs) (l # ls)"
      using l by (auto intro!: filter_cong dest: bspec)
    have empty: "out_edges before r = []"
      using 1(7) notin by simp
    have "merge_nodes before after eq (l # ls) rs (only_after after eq r d) =
      add_delta (only_after after eq r d) (filter (\<lambda>n. n \<notin> set (l # ls)) rs) (filter (\<lambda>n. n \<notin> set rs) (l # ls))
      (concat (map (\<lambda>n. map (Pair n) (missing (out_edges before n) (out_edges after n))) rs))
      (concat (map (\<lambda>n. map (Pair n) (missing (out_edges after n) (out_edges before n))) (l # ls)))
      (concat (map (\<lambda>n. map (Pair n) (differing eq (out_edges before n) (out_edges after n))) rs))"
      using after notin 1(4-8) by (intro 1(2)) auto
    with after notin keep empty show ?thesis
      by (simp add: only_after_spec [where after = after, OF empty] add_delta_add differing_empty)
  next
    case both
    then have notin: "l \<notin> set rs" "r \<notin> set ls"
      using l r by auto
    have "merge_nodes before after eq ls rs (merge_edge_lists l (out_edges before l) (out_edges after r) eq d) =
      add_delta (merge_edge_lists l (out_edges before l) (out_edges after r) eq d)
      (filter (\<lambda>n. n \<notin> set ls) rs) (filter (\<lambda>n. n \<notin> set rs) ls)
      (concat (map (\<lambda>n. map (Pair n) (missing (out_edges before n) (out_edges after n))) rs))
      (concat (map (\<lambda>n. map (Pair n) (missing (out_edges after n) (out_edges before n))) ls))
      (concat (map (\<lambda>n. map (Pair n) (differing eq (out_edges before n) (out_edges after n))) rs))"
      using both notin 1(4-8) by (intro 1(3)) auto
    moreover have "filter (\<lambda>n. n \<notin> set (l # ls)) (r # rs) = filter (\<lambda>n. n \<notin> set ls) rs"
      and "filter (\<lambda>n. n \<notin> set (r # rs)) (l # ls) = filter (\<lambda>n. n \<notin> set rs) ls"
      using both notin by (auto intro!: filter_cong)
    ultimately show ?thesis
      using both 1(6) by (simp add: merge_edge_lists_spec add_delta_add)
  qed
next
  case (2 before after eq ls d)
  then show ?case
    by (simp add: fold_only_before [of _ after])
next
  case (3 before after eq r rs d)
  then show ?case
    by (simp add: fold_only_after [of _ before] only_after_spec [of before] add_delta_add differing_empty concat_nil)
qed

section \<open>The difference of two graphs\<close>

lemma wf_edges_ok: "graph_wf g \<Longrightarrow> edges_ok (out_edges g n)"
  by (simp add: graph_wf_def adj_ok_def out_edges_def)

lemma wf_nodes_sorted: "graph_wf g \<Longrightarrow> strictly_sorted (graph_nodes g)"
  by (simp add: graph_wf_def adj_ok_def omap_ok_def graph_nodes_def)

lemma absent_out_edges: "n \<notin> set (graph_nodes g) \<Longrightarrow> out_edges g n = []"
  using omap_find_None_iff [of "outgoing g" n] by (simp add: graph_nodes_def out_edges_def edges_of_def)

lemma out_edges_look: "edge_look (out_edges g n) t = edge_payload g n t"
  by (simp add: edge_payload_look adj_look_def out_edges_def)

lemma missing_edges: "missing (out_edges h n) (out_edges g n) = filter (\<lambda>t. \<not> contains_edge h n t) (edge_targets g n)"
  by (simp add: missing_def edge_targets_def out_edges_look contains_edge_look)

lemma differing_edges:
  assumes "graph_wf after"
  shows "differing eq (out_edges before n) (out_edges after n) =
    filter (\<lambda>t. \<exists>p q. edge_payload before n t = Some p \<and> edge_payload after n t = Some q \<and> \<not> eq p q) (edge_targets after n)"
proof -
  have "edge_payload after n (target a) = Some (payload a)" if "a \<in> set (out_edges after n)" for a
    using edge_look_Some [OF wf_edges_ok [OF assms] that] by (simp add: out_edges_look)
  then show ?thesis
    by (auto simp: differing_def edge_targets_def out_edges_look filter_map
        intro!: arg_cong [where f = "map target"] filter_cong split: option.splits)
qed

lemma graph_difference_spec:
  assumes "graph_wf before" and "graph_wf after"
  shows "graph_difference before after eq =
    \<lparr>added_nodes = filter (\<lambda>n. n \<notin> set (graph_nodes before)) (graph_nodes after),
     removed_nodes = filter (\<lambda>n. n \<notin> set (graph_nodes after)) (graph_nodes before),
     added_edges = concat (map (\<lambda>n. map (Pair n)
       (filter (\<lambda>t. \<not> contains_edge before n t) (edge_targets after n))) (graph_nodes after)),
     removed_edges = concat (map (\<lambda>n. map (Pair n)
       (filter (\<lambda>t. \<not> contains_edge after n t) (edge_targets before n))) (graph_nodes before)),
     changed_edges = concat (map (\<lambda>n. map (Pair n)
       (filter (\<lambda>t. \<exists>p q. edge_payload before n t = Some p \<and> edge_payload after n t = Some q \<and> \<not> eq p q)
         (edge_targets after n))) (graph_nodes after))\<rparr>"
proof -
  have "graph_difference before after eq =
    add_delta empty_delta (filter (\<lambda>n. n \<notin> set (graph_nodes before)) (graph_nodes after))
      (filter (\<lambda>n. n \<notin> set (graph_nodes after)) (graph_nodes before))
      (concat (map (\<lambda>n. map (Pair n) (missing (out_edges before n) (out_edges after n))) (graph_nodes after)))
      (concat (map (\<lambda>n. map (Pair n) (missing (out_edges after n) (out_edges before n))) (graph_nodes before)))
      (concat (map (\<lambda>n. map (Pair n) (differing eq (out_edges before n) (out_edges after n))) (graph_nodes after)))"
    unfolding graph_difference_def
    using assms by (intro merge_nodes_spec) (simp_all add: wf_nodes_sorted wf_edges_ok absent_out_edges)
  then show ?thesis
    by (simp add: add_delta_def empty_delta_def missing_edges differing_edges [OF assms(2)])
qed

lemma graph_difference_sets:
  assumes "graph_wf before" and "graph_wf after"
  shows "set (added_nodes (graph_difference before after eq)) = {n. contains_node after n \<and> \<not> contains_node before n}"
    and "set (removed_nodes (graph_difference before after eq)) = {n. contains_node before n \<and> \<not> contains_node after n}"
    and "set (added_edges (graph_difference before after eq)) = {(s, t). contains_edge after s t \<and> \<not> contains_edge before s t}"
    and "set (removed_edges (graph_difference before after eq)) = {(s, t). contains_edge before s t \<and> \<not> contains_edge after s t}"
    and "set (changed_edges (graph_difference before after eq)) =
      {(s, t). \<exists>p q. edge_payload before s t = Some p \<and> edge_payload after s t = Some q \<and> \<not> eq p q}"
proof -
  have end_node: "contains_node g s" if "graph_wf g" "contains_edge g s t" for g :: "('a, 'b) adjacency_graph" and s t
    using edge_endpoints [OF that] by blast
  have payload_edge: "contains_edge after s t \<and> contains_node after s" if "edge_payload after s t = Some p" for s t p
    using that end_node [OF assms(2), of s t] by (simp add: contains_edge_look)
  note facts = contains_node_iff [symmetric] set_edge_targets [OF assms(1)] set_edge_targets [OF assms(2)]
  show "set (added_nodes (graph_difference before after eq)) = {n. contains_node after n \<and> \<not> contains_node before n}"
    and "set (removed_nodes (graph_difference before after eq)) = {n. contains_node before n \<and> \<not> contains_node after n}"
    by (auto simp: graph_difference_spec [OF assms] facts)
  show "set (added_edges (graph_difference before after eq)) = {(s, t). contains_edge after s t \<and> \<not> contains_edge before s t}"
    by (auto simp: graph_difference_spec [OF assms] facts image_iff dest: end_node [OF assms(2)])
  show "set (removed_edges (graph_difference before after eq)) = {(s, t). contains_edge before s t \<and> \<not> contains_edge after s t}"
    by (auto simp: graph_difference_spec [OF assms] facts image_iff dest: end_node [OF assms(1)])
  show "set (changed_edges (graph_difference before after eq)) =
      {(s, t). \<exists>p q. edge_payload before s t = Some p \<and> edge_payload after s t = Some q \<and> \<not> eq p q}"
    by (auto simp: graph_difference_spec [OF assms] facts image_iff dest: payload_edge)
qed

text \<open>
  C3. The linear merge computes the difference of the two graphs: in ascending order and once each, the
  nodes and edges that only one side has, and the edges on both sides whose payloads the comparison
  tells apart. No edge drops out of the delta, and none is reported twice.
\<close>

theorem graph_difference_exact:
  assumes "graph_wf before" and "graph_wf after"
  shows "graph_difference before after eq =
    \<lparr>added_nodes = filter (\<lambda>n. n \<notin> set (graph_nodes before)) (graph_nodes after),
     removed_nodes = filter (\<lambda>n. n \<notin> set (graph_nodes after)) (graph_nodes before),
     added_edges = concat (map (\<lambda>n. map (Pair n)
       (filter (\<lambda>t. \<not> contains_edge before n t) (edge_targets after n))) (graph_nodes after)),
     removed_edges = concat (map (\<lambda>n. map (Pair n)
       (filter (\<lambda>t. \<not> contains_edge after n t) (edge_targets before n))) (graph_nodes before)),
     changed_edges = concat (map (\<lambda>n. map (Pair n)
       (filter (\<lambda>t. \<exists>p q. edge_payload before n t = Some p \<and> edge_payload after n t = Some q \<and> \<not> eq p q)
         (edge_targets after n))) (graph_nodes after))\<rparr>"
  using assms by (rule graph_difference_spec)

theorem graph_difference_exact_witness:
  defines "before \<equiv> run_graph_ops [AddNode 1, AddNode 2, AddNode (3::nat), AddEdge 1 2 (5::nat), AddEdge 1 3 6]"
    and "after \<equiv> run_graph_ops [AddNode 1, AddNode 3, AddNode 4, AddEdge 1 3 (7::nat), AddEdge 4 1 (8::nat)]"
  shows "graph_wf before \<and> graph_wf after \<and> graph_difference before after (=) =
    \<lparr>added_nodes = [4], removed_nodes = [2], added_edges = [(4, 1)], removed_edges = [(1, 2)], changed_edges = [(1, 3)]\<rparr>"
proof -
  have wf: "graph_wf before" "graph_wf after"
    unfolding before_def after_def by (rule graph_ops_wf)+
  have d: "graph_difference before after (=) =
    \<lparr>added_nodes = [4], removed_nodes = [2], added_edges = [(4, 1)], removed_edges = [(1, 2)], changed_edges = [(1, 3)]\<rparr>"
    unfolding before_def after_def by code_simp
  from graph_difference_exact [OF wf, of "(=)"] wf d show ?thesis by simp
qed

end
