(* ===== verification/Errors.thy ===== *)
theory Errors
  imports Prelude
begin

text \<open>
  \<open>include/grab/result.hpp\<close> and \<open>include/grab/enum_table.hpp\<close>: the error codes with their stable
  numbers, the descriptor table and its lookups, the error value every fallible operation returns,
  and the name tables of enumerations. The result type of the sources,
  \<open>std::expected<T, Error>\<close>, is \<open>error + 'a\<close>.
\<close>

section \<open>Codes, categories, dispositions\<close>

datatype error_category =
  Environment | Permission | Target | Protocol | Usage | InternalFaultCategory | Action | Stream

datatype error_disposition = RetrySame | FallbackNext | Fatal

datatype retry_class = Never | ResolveOnly | Idempotent | Compensated

datatype error_code =
  EnvironmentChanged
| DisplayUnavailable
| DeviceInaccessible
| TopologyChanged
| PermissionNeeded
| PermissionDenied
| LeaseClosed
| LeaseRevoked
| OwnershipRequired
| WindowNotFound
| StaleWindow
| GeometryUntrusted
| StaleNode
| StaleShape
| TreeResynced
| RuntimeRestarted
| TargetDetached
| NoMatch
| AmbiguousMatch
| PropertyAbsent
| PropertyUnsupported
| PropertyUncached
| PropertyBackendFailed
| CapabilityUnavailable
| ProviderFailed
| ProtocolError
| InvalidArgument
| IllegalFromCallback
| UnsupportedCharacter
| SessionClosed
| SessionExists
| SessionNotFound
| SessionDead
| DeadlineExceeded
| Cancelled
| InternalFault
| NotActionable
| Occluded
| RouteUnavailable
| PossiblyCommitted
| VerificationFailed
| NeutralizationFailed
| QueueGap
| ResyncRequired
| SubscriptionGone
| Overflowed

text \<open>The underlying value of an enumerator.\<close>

fun error_value :: "error_code \<Rightarrow> u16" where
  "error_value EnvironmentChanged = 0x0100"
| "error_value DisplayUnavailable = 0x0101"
| "error_value DeviceInaccessible = 0x0102"
| "error_value TopologyChanged = 0x0103"
| "error_value PermissionNeeded = 0x0200"
| "error_value PermissionDenied = 0x0201"
| "error_value LeaseClosed = 0x0202"
| "error_value LeaseRevoked = 0x0203"
| "error_value OwnershipRequired = 0x0204"
| "error_value WindowNotFound = 0x0300"
| "error_value StaleWindow = 0x0301"
| "error_value GeometryUntrusted = 0x0302"
| "error_value StaleNode = 0x0303"
| "error_value StaleShape = 0x030D"
| "error_value TreeResynced = 0x0304"
| "error_value RuntimeRestarted = 0x0305"
| "error_value TargetDetached = 0x0306"
| "error_value NoMatch = 0x0307"
| "error_value AmbiguousMatch = 0x0308"
| "error_value PropertyAbsent = 0x0309"
| "error_value PropertyUnsupported = 0x030A"
| "error_value PropertyUncached = 0x030B"
| "error_value PropertyBackendFailed = 0x030C"
| "error_value CapabilityUnavailable = 0x0400"
| "error_value ProviderFailed = 0x0401"
| "error_value ProtocolError = 0x0402"
| "error_value InvalidArgument = 0x0500"
| "error_value IllegalFromCallback = 0x0501"
| "error_value UnsupportedCharacter = 0x0502"
| "error_value SessionClosed = 0x0503"
| "error_value SessionExists = 0x0504"
| "error_value SessionNotFound = 0x0505"
| "error_value SessionDead = 0x0506"
| "error_value DeadlineExceeded = 0x0507"
| "error_value Cancelled = 0x0508"
| "error_value InternalFault = 0x0600"
| "error_value NotActionable = 0x0700"
| "error_value Occluded = 0x0701"
| "error_value RouteUnavailable = 0x0702"
| "error_value PossiblyCommitted = 0x0703"
| "error_value VerificationFailed = 0x0704"
| "error_value NeutralizationFailed = 0x0705"
| "error_value QueueGap = 0x0800"
| "error_value ResyncRequired = 0x0801"
| "error_value SubscriptionGone = 0x0802"
| "error_value Overflowed = 0x0803"

record error_descriptor =
  desc_code :: error_code
  desc_name :: string
  desc_category :: error_category
  desc_disposition :: error_disposition
  desc_retry :: retry_class

definition error_descriptor :: "error_code \<Rightarrow> string \<Rightarrow> error_category \<Rightarrow> error_disposition \<Rightarrow> retry_class \<Rightarrow> error_descriptor" where
  "error_descriptor c n cat disp retry =
     \<lparr>desc_code = c, desc_name = n, desc_category = cat, desc_disposition = disp, desc_retry = retry\<rparr>"

definition error_descriptors :: "error_descriptor list" where
  "error_descriptors = [
    error_descriptor EnvironmentChanged ''environment_changed'' Environment RetrySame ResolveOnly,
    error_descriptor DisplayUnavailable ''display_unavailable'' Environment Fatal Never,
    error_descriptor DeviceInaccessible ''device_inaccessible'' Environment Fatal Never,
    error_descriptor TopologyChanged ''topology_changed'' Environment RetrySame ResolveOnly,
    error_descriptor PermissionNeeded ''permission_needed'' Permission Fatal Never,
    error_descriptor PermissionDenied ''permission_denied'' Permission Fatal Never,
    error_descriptor LeaseClosed ''lease_closed'' Permission Fatal Never,
    error_descriptor LeaseRevoked ''lease_revoked'' Permission Fatal Never,
    error_descriptor OwnershipRequired ''ownership_required'' Permission Fatal Never,
    error_descriptor WindowNotFound ''window_not_found'' Target Fatal Never,
    error_descriptor StaleWindow ''stale_window'' Target Fatal Never,
    error_descriptor GeometryUntrusted ''geometry_untrusted'' Target Fatal Never,
    error_descriptor StaleNode ''stale_node'' Target RetrySame ResolveOnly,
    error_descriptor StaleShape ''stale_shape'' Target RetrySame ResolveOnly,
    error_descriptor TreeResynced ''tree_resynced'' Target RetrySame ResolveOnly,
    error_descriptor RuntimeRestarted ''runtime_restarted'' Target RetrySame ResolveOnly,
    error_descriptor TargetDetached ''target_detached'' Target RetrySame ResolveOnly,
    error_descriptor NoMatch ''no_match'' Target Fatal Never,
    error_descriptor AmbiguousMatch ''ambiguous_match'' Target Fatal Never,
    error_descriptor PropertyAbsent ''property_absent'' Target Fatal Never,
    error_descriptor PropertyUnsupported ''property_unsupported'' Target Fatal Never,
    error_descriptor PropertyUncached ''property_uncached'' Target Fatal Never,
    error_descriptor PropertyBackendFailed ''property_backend_failed'' Target FallbackNext Never,
    error_descriptor CapabilityUnavailable ''capability_unavailable'' Protocol FallbackNext Never,
    error_descriptor ProviderFailed ''provider_failed'' Protocol FallbackNext Never,
    error_descriptor ProtocolError ''protocol_error'' Protocol Fatal Never,
    error_descriptor InvalidArgument ''invalid_argument'' Usage Fatal Never,
    error_descriptor IllegalFromCallback ''illegal_from_callback'' Usage Fatal Never,
    error_descriptor UnsupportedCharacter ''unsupported_character'' Usage Fatal Never,
    error_descriptor SessionClosed ''session_closed'' Usage Fatal Never,
    error_descriptor SessionExists ''session_exists'' Usage Fatal Never,
    error_descriptor SessionNotFound ''session_not_found'' Usage Fatal Never,
    error_descriptor SessionDead ''session_dead'' Usage Fatal Never,
    error_descriptor DeadlineExceeded ''deadline_exceeded'' Usage Fatal Never,
    error_descriptor Cancelled ''cancelled'' Usage Fatal Never,
    error_descriptor InternalFault ''internal_fault'' InternalFaultCategory Fatal Never,
    error_descriptor NotActionable ''not_actionable'' Action FallbackNext Never,
    error_descriptor Occluded ''occluded'' Action FallbackNext Never,
    error_descriptor RouteUnavailable ''route_unavailable'' Action Fatal Never,
    error_descriptor PossiblyCommitted ''possibly_committed'' Action Fatal Never,
    error_descriptor VerificationFailed ''verification_failed'' Action Fatal Never,
    error_descriptor NeutralizationFailed ''neutralization_failed'' Action Fatal Never,
    error_descriptor QueueGap ''queue_gap'' Stream Fatal Never,
    error_descriptor ResyncRequired ''resync_required'' Stream Fatal Never,
    error_descriptor SubscriptionGone ''subscription_gone'' Stream Fatal Never,
    error_descriptor Overflowed ''overflowed'' Stream Fatal Never]"

definition error_descriptors_are_unique :: "error_descriptor list \<Rightarrow> bool" where
  "error_descriptors_are_unique ds =
     list_all (\<lambda>d. desc_name d \<noteq> [] \<and>
       length (filter (\<lambda>c. desc_code c = desc_code d) ds) = 1 \<and>
       length (filter (\<lambda>c. desc_name c = desc_name d) ds) = 1) ds"

text \<open>The lookups walk the table and stop at the first entry with the code.\<close>

definition category_of :: "error_code \<Rightarrow> error_category" where
  "category_of c = (case List.find (\<lambda>d. desc_code d = c) error_descriptors of
     None \<Rightarrow> InternalFaultCategory | Some d \<Rightarrow> desc_category d)"

definition error_name_of :: "error_code \<Rightarrow> string" where
  "error_name_of c = (case List.find (\<lambda>d. desc_code d = c) error_descriptors of
     None \<Rightarrow> ''internal_fault'' | Some d \<Rightarrow> desc_name d)"

definition default_disposition_of :: "error_code \<Rightarrow> error_disposition" where
  "default_disposition_of c = (case List.find (\<lambda>d. desc_code d = c) error_descriptors of
     None \<Rightarrow> Fatal | Some d \<Rightarrow> desc_disposition d)"

definition retry_class_of :: "error_code \<Rightarrow> retry_class" where
  "retry_class_of c = (case List.find (\<lambda>d. desc_code d = c) error_descriptors of
     None \<Rightarrow> Never | Some d \<Rightarrow> desc_retry d)"

section \<open>Error values\<close>

record provider_attempt =
  attempt_provider :: string
  attempt_reason :: string

record diagnostic_entry =
  diag_at :: int
  diag_message :: string

record error =
  err_code :: error_code
  err_message :: string
  err_capability :: string
  err_target :: string
  err_attempts :: "provider_attempt list"
  err_disposition :: error_disposition
  err_diagnostics :: "diagnostic_entry list"

type_synonym 'a result = "error + 'a"

definition fail :: "error_code \<Rightarrow> string \<Rightarrow> error" where
  "fail c m = \<lparr>err_code = c, err_message = m, err_capability = [], err_target = [], err_attempts = [],
               err_disposition = Fatal, err_diagnostics = []\<rparr>"

section \<open>Name tables of enumerations\<close>

type_synonym 'e enum_table = "('e \<times> string) list"

definition text_of :: "'e enum_table \<Rightarrow> 'e \<Rightarrow> string \<Rightarrow> string" where
  "text_of table v fallback = (case List.find (\<lambda>e. fst e = v) table of None \<Rightarrow> fallback | Some e \<Rightarrow> snd e)"

definition value_of :: "'e enum_table \<Rightarrow> string \<Rightarrow> 'e option" where
  "value_of table t = map_option fst (List.find (\<lambda>e. snd e = t) table)"

definition enum_table_has_count :: "'e enum_table \<Rightarrow> nat \<Rightarrow> bool" where
  "enum_table_has_count table n \<longleftrightarrow> length table = n"

lemma find_unique_key:
  "distinct (map f xs) \<Longrightarrow> x \<in> set xs \<Longrightarrow> List.find (\<lambda>y. f y = f x) xs = Some x"
  by (induction xs) auto

lemma value_of_text_of:
  assumes "distinct (map fst table)" and "distinct (map snd table)" and "v \<in> fst ` set table"
  shows "value_of table (text_of table v fallback) = Some v"
proof -
  from assms(3) obtain t where e: "(v, t) \<in> set table" by auto
  have "text_of table v fallback = t"
    using find_unique_key [of fst table "(v, t)"] assms(1) e by (simp add: text_of_def)
  then show ?thesis
    using find_unique_key [of snd table "(v, t)"] assms(2) e by (simp add: value_of_def)
qed

section \<open>The table\<close>

lemma all_codes: "c \<in> set (map desc_code error_descriptors)"
  by (cases c) (simp_all add: error_descriptors_def error_descriptor_def)

lemma distinct_values: "distinct (map error_value (map desc_code error_descriptors))"
  by code_simp

lemma distinct_names: "distinct (map desc_name error_descriptors)"
  by code_simp

lemma distinct_codes: "distinct (map desc_code error_descriptors)"
  using distinct_values by (auto simp: distinct_map intro: inj_on_imageI2)

lemma error_value_injective: "error_value a = error_value b \<longleftrightarrow> a = b"
  using distinct_values all_codes [of a] all_codes [of b] by (auto simp: distinct_map inj_on_def simp del: map_map)

lemma error_descriptor_found:
  obtains d where "d \<in> set error_descriptors" and "desc_code d = c" and "error_name_of c = desc_name d"
    and "category_of c = desc_category d" and "retry_class_of c = desc_retry d"
    and "default_disposition_of c = desc_disposition d"
proof -
  from all_codes [of c] obtain d where d: "d \<in> set error_descriptors" "desc_code d = c" by auto
  then have "List.find (\<lambda>e. desc_code e = c) error_descriptors = Some d"
    using find_unique_key [OF distinct_codes] by blast
  with d show thesis
    by (intro that [of d])
      (simp_all add: error_name_of_def category_of_def retry_class_of_def default_disposition_of_def)
qed

lemma error_name_injective: "error_name_of a = error_name_of b \<longleftrightarrow> a = b"
proof
  assume eq: "error_name_of a = error_name_of b"
  obtain d where d: "d \<in> set error_descriptors" "desc_code d = a" "error_name_of a = desc_name d"
    by (rule error_descriptor_found)
  obtain e where e: "e \<in> set error_descriptors" "desc_code e = b" "error_name_of b = desc_name e"
    by (rule error_descriptor_found)
  from eq d e have "d = e"
    using distinct_names by (simp add: distinct_map inj_on_def)
  with d e show "a = b" by simp
qed simp

text \<open>The category of a code, as the high byte of its number.\<close>

fun category_byte :: "error_category \<Rightarrow> u16" where
  "category_byte Environment = 1"
| "category_byte Permission = 2"
| "category_byte Target = 3"
| "category_byte Protocol = 4"
| "category_byte Usage = 5"
| "category_byte InternalFaultCategory = 6"
| "category_byte Action = 7"
| "category_byte Stream = 8"

lemma table_consistent:
  "list_all (\<lambda>d. category_byte (desc_category d) = drop_bit 8 (error_value (desc_code d)) \<and>
     (desc_retry d = ResolveOnly) = (desc_disposition d = RetrySame)) error_descriptors"
  by code_simp

text \<open>
  The descriptor table agrees with the numbering: for every error code the category found in the
  table is the one its high byte encodes, and an error is retried after resolving again exactly when
  its default disposition is to retry the same route.
\<close>

theorem error_codes_consistent:
  "category_byte (category_of c) = drop_bit 8 (error_value c) \<and>
   (retry_class_of c = ResolveOnly) = (default_disposition_of c = RetrySame)"
proof -
  obtain d where "d \<in> set error_descriptors" "desc_code d = c" "category_of c = desc_category d"
    "retry_class_of c = desc_retry d" "default_disposition_of c = desc_disposition d"
    by (rule error_descriptor_found)
  with table_consistent show ?thesis by (auto simp: list_all_iff)
qed

text \<open>
  Every error code has exactly one descriptor, no two codes share a number or a name, and the name
  the table gives determines the code.
\<close>

theorem error_names_injective:
  "error_descriptors_are_unique error_descriptors \<and> length error_descriptors = 46 \<and>
   (error_value a = error_value b) = (a = b) \<and> (error_name_of a = error_name_of b) = (a = b)"
proof -
  have "error_descriptors_are_unique error_descriptors"
    by code_simp
  moreover have "length error_descriptors = 46"
    by code_simp
  ultimately show ?thesis
    by (simp add: error_value_injective error_name_injective)
qed

end
