(* ===== verification/Events.thy ===== *)
theory Events
  imports Errors
begin

text \<open>
  \<open>include/grab/event.hpp\<close>, \<open>include/grab/event_descriptor.hpp\<close>, \<open>include/grab/ids.hpp\<close> and the
  data of \<open>include/grab/watch.hpp\<close>: the events of the runtime, their kinds with wire numbers and wire
  names, the table that gives every kind its category, replay policy and coalescing class, the event
  filter, and the queue options and items of a subscription. A \<open>double\<close> is its 64-bit pattern: no
  operation here computes with one. Shown: the table has one row for every kind, wire names and kinds
  determine each other, and a printed UUID determines its bytes.
\<close>

section \<open>Identifiers\<close>

type_synonym f64 = u64

text \<open>\<open>Uuid\<close>: sixteen bytes.\<close>

type_synonym uuid = "u8 list"

definition nil_uuid :: uuid where
  "nil_uuid = replicate 16 0"

definition is_nil :: "uuid \<Rightarrow> bool" where
  "is_nil u \<longleftrightarrow> u = nil_uuid"

definition hex_digits :: string where
  "hex_digits = ''0123456789abcdef''"

definition byte_text :: "u8 \<Rightarrow> string" where
  "byte_text b = [hex_digits ! unat (drop_bit 4 b), hex_digits ! unat (and b 0x0F)]"

fun uuid_text_from :: "nat \<Rightarrow> uuid \<Rightarrow> string" where
  "uuid_text_from i [] = []"
| "uuid_text_from i (b # u) =
     (if i = 4 \<or> i = 6 \<or> i = 8 \<or> i = 10 then ''-'' else []) @ byte_text b @ uuid_text_from (i + 1) u"

definition uuid_to_string :: "uuid \<Rightarrow> string" where
  "uuid_to_string u = uuid_text_from 0 u"

section \<open>Kinds and categories\<close>

datatype event_category =
    UnspecifiedCategory | InputCategory | WindowCategory | AccessibilityCategory | IntegrationCategory | StateCategory

datatype event_kind =
    UnspecifiedKind | KeyDown | KeyUp | KeyCombo | MouseClick
  | MouseMove | IdleStart | IdleEnd | MouseButtonDown | MouseButtonUp
  | WindowFocusChanged | WindowTitleChanged | WindowCreated | WindowClosed | A11yButtonClicked
  | A11yMenuOpened | A11yMenuClosed | A11yFocusChanged | A11yTextChanged | A11yStateChanged
  | AppTabChanged | AppContextUpdate | StateSnapshot | NodeAdded | NodeRemoved
  | NodeChanged | RelationAdded | RelationRemoved | ActiveChildChanged

fun event_value :: "event_kind \<Rightarrow> u16" where
  "event_value UnspecifiedKind = 0"
| "event_value KeyDown = 100"
| "event_value KeyUp = 101"
| "event_value KeyCombo = 102"
| "event_value MouseClick = 103"
| "event_value MouseMove = 104"
| "event_value IdleStart = 105"
| "event_value IdleEnd = 106"
| "event_value MouseButtonDown = 107"
| "event_value MouseButtonUp = 108"
| "event_value WindowFocusChanged = 200"
| "event_value WindowTitleChanged = 201"
| "event_value WindowCreated = 202"
| "event_value WindowClosed = 203"
| "event_value A11yButtonClicked = 300"
| "event_value A11yMenuOpened = 301"
| "event_value A11yMenuClosed = 302"
| "event_value A11yFocusChanged = 303"
| "event_value A11yTextChanged = 304"
| "event_value A11yStateChanged = 305"
| "event_value AppTabChanged = 400"
| "event_value AppContextUpdate = 401"
| "event_value StateSnapshot = 600"
| "event_value NodeAdded = 700"
| "event_value NodeRemoved = 701"
| "event_value NodeChanged = 702"
| "event_value RelationAdded = 703"
| "event_value RelationRemoved = 704"
| "event_value ActiveChildChanged = 705"

datatype replay_policy = NoReplay | CurrentSet

datatype coalescing_class = CoalesceClass | NeverDropClass

record event_descriptor =
  evd_kind :: event_kind
  evd_category :: event_category
  evd_wire_name :: string
  evd_replay :: replay_policy
  evd_coalescing :: coalescing_class

definition event_descriptor ::
  "event_kind \<Rightarrow> event_category \<Rightarrow> string \<Rightarrow> replay_policy \<Rightarrow> coalescing_class \<Rightarrow> event_descriptor" where
  "event_descriptor k c n r d =
     \<lparr>evd_kind = k, evd_category = c, evd_wire_name = n, evd_replay = r, evd_coalescing = d\<rparr>"

definition event_descriptors :: "event_descriptor list" where
  "event_descriptors = [
     event_descriptor UnspecifiedKind UnspecifiedCategory ''unspecified'' NoReplay CoalesceClass,
     event_descriptor KeyDown InputCategory ''input.key_down'' NoReplay NeverDropClass,
     event_descriptor KeyUp InputCategory ''input.key_up'' NoReplay NeverDropClass,
     event_descriptor KeyCombo InputCategory ''input.key_combo'' NoReplay NeverDropClass,
     event_descriptor MouseClick InputCategory ''input.mouse_click'' NoReplay NeverDropClass,
     event_descriptor MouseMove InputCategory ''input.mouse_move'' NoReplay CoalesceClass,
     event_descriptor IdleStart InputCategory ''input.idle_start'' NoReplay NeverDropClass,
     event_descriptor IdleEnd InputCategory ''input.idle_end'' NoReplay NeverDropClass,
     event_descriptor MouseButtonDown InputCategory ''input.mouse_button_down'' NoReplay NeverDropClass,
     event_descriptor MouseButtonUp InputCategory ''input.mouse_button_up'' NoReplay NeverDropClass,
     event_descriptor WindowFocusChanged WindowCategory ''window.focus_changed'' NoReplay CoalesceClass,
     event_descriptor WindowTitleChanged WindowCategory ''window.title_changed'' NoReplay CoalesceClass,
     event_descriptor WindowCreated WindowCategory ''window.created'' CurrentSet NeverDropClass,
     event_descriptor WindowClosed WindowCategory ''window.closed'' NoReplay NeverDropClass,
     event_descriptor A11yButtonClicked AccessibilityCategory ''a11y.button_clicked'' NoReplay NeverDropClass,
     event_descriptor A11yMenuOpened AccessibilityCategory ''a11y.menu_opened'' NoReplay NeverDropClass,
     event_descriptor A11yMenuClosed AccessibilityCategory ''a11y.menu_closed'' NoReplay NeverDropClass,
     event_descriptor A11yFocusChanged AccessibilityCategory ''a11y.focus_changed'' NoReplay CoalesceClass,
     event_descriptor A11yTextChanged AccessibilityCategory ''a11y.text_changed'' NoReplay CoalesceClass,
     event_descriptor A11yStateChanged AccessibilityCategory ''a11y.state_changed'' NoReplay CoalesceClass,
     event_descriptor AppTabChanged IntegrationCategory ''app.tab_changed'' NoReplay CoalesceClass,
     event_descriptor AppContextUpdate IntegrationCategory ''app.context_update'' NoReplay CoalesceClass,
     event_descriptor StateSnapshot StateCategory ''state.snapshot'' CurrentSet CoalesceClass,
     event_descriptor NodeAdded WindowCategory ''node.added'' NoReplay NeverDropClass,
     event_descriptor NodeRemoved WindowCategory ''node.removed'' NoReplay NeverDropClass,
     event_descriptor NodeChanged WindowCategory ''node.changed'' NoReplay CoalesceClass,
     event_descriptor RelationAdded WindowCategory ''relation.added'' NoReplay NeverDropClass,
     event_descriptor RelationRemoved WindowCategory ''relation.removed'' NoReplay NeverDropClass,
     event_descriptor ActiveChildChanged WindowCategory ''active_child.changed'' NoReplay NeverDropClass]"

definition category_names :: "event_category enum_table" where
  "category_names =
     [(UnspecifiedCategory, ''unspecified''), (InputCategory, ''input''), (WindowCategory, ''window''),
      (AccessibilityCategory, ''accessibility''), (IntegrationCategory, ''integration''), (StateCategory, ''state'')]"

definition find_descriptor :: "event_kind \<Rightarrow> event_descriptor option" where
  "find_descriptor kind = List.find (\<lambda>d. evd_kind d = kind) event_descriptors"

definition event_category_of :: "event_kind \<Rightarrow> event_category" where
  "event_category_of kind = (case find_descriptor kind of None \<Rightarrow> UnspecifiedCategory | Some d \<Rightarrow> evd_category d)"

definition replay_policy_of :: "event_kind \<Rightarrow> replay_policy" where
  "replay_policy_of kind = (case find_descriptor kind of None \<Rightarrow> NoReplay | Some d \<Rightarrow> evd_replay d)"

definition coalescing_class_of :: "event_kind \<Rightarrow> coalescing_class" where
  "coalescing_class_of kind = (case find_descriptor kind of None \<Rightarrow> CoalesceClass | Some d \<Rightarrow> evd_coalescing d)"

definition wire_name :: "event_kind \<Rightarrow> string" where
  "wire_name kind = (case find_descriptor kind of None \<Rightarrow> ''unspecified'' | Some d \<Rightarrow> evd_wire_name d)"

definition wire_kind :: "string \<Rightarrow> event_kind option" where
  "wire_kind name = map_option evd_kind (List.find (\<lambda>d. evd_wire_name d = name) event_descriptors)"

definition category_name :: "event_category \<Rightarrow> string" where
  "category_name category = text_of category_names category ''unspecified''"

record event_type_descriptor =
  etd_kind :: event_kind
  etd_category :: event_category
  etd_name :: string
  etd_active :: bool

text \<open>The probe, where there is one, is a virtual call that answers whether a kind is produced.\<close>

definition event_type_descriptors :: "(event_kind \<Rightarrow> bool) option \<Rightarrow> event_type_descriptor list" where
  "event_type_descriptors probe =
     map (\<lambda>d. \<lparr>etd_kind = evd_kind d, etd_category = evd_category d, etd_name = evd_wire_name d,
               etd_active = (case probe of None \<Rightarrow> False | Some is_active \<Rightarrow> is_active (evd_kind d))\<rparr>)
       (filter (\<lambda>d. evd_kind d \<noteq> UnspecifiedKind) event_descriptors)"

section \<open>Events\<close>

record space_point =
  sp_x :: f64
  sp_y :: f64
  sp_space :: u32

record space_rect =
  sr_x :: f64
  sr_y :: f64
  sr_w :: f64
  sr_h :: f64
  sr_space :: u32

text \<open>The alternatives of \<open>Payload\<close>, each with the fields of its struct in order; a \<open>Pid\<close> is its number.\<close>

datatype payload =
    InputKeyPayload u32 string
  | KeyComboPayload string
  | MouseClickPayload u32 string
  | MouseButtonPayload u32 string "space_point option"
  | MouseMovePayload string f64 "space_point option"
  | IdlePayload f64
  | WindowChangePayload string int string string f64
  | A11yPayload string string string string
  | IntegrationPayload string string string string
  | StateSnapshotPayload string
  | GraphChangePayload u64 u64 u32 u64

datatype event_origin = Physical | InjectedSelf | InjectedOther | UnknownOrigin

record event_subject =
  subj_runtime :: u32
  subj_tree :: u32
  subj_epoch :: u32
  subj_node :: u64
  subj_revision :: u64

record event =
  ev_timestamp :: f64
  ev_sequence :: u64
  ev_kind :: event_kind
  ev_category :: event_category
  ev_payload :: payload
  ev_origin :: event_origin
  ev_subject :: "event_subject option"
  ev_cause :: "uuid option"
  ev_before_revision :: "u64 option"
  ev_after_revision :: "u64 option"

text \<open>\<open>Event{}\<close>.\<close>

definition default_event :: event where
  "default_event = \<lparr>ev_timestamp = 0, ev_sequence = 0, ev_kind = UnspecifiedKind, ev_category = UnspecifiedCategory,
     ev_payload = InputKeyPayload 0 [], ev_origin = UnknownOrigin, ev_subject = None, ev_cause = None,
     ev_before_revision = None, ev_after_revision = None\<rparr>"

record event_filter =
  ef_kinds :: "event_kind list"
  ef_categories :: "event_category list"

definition filter_matches :: "event_filter \<Rightarrow> event \<Rightarrow> bool" where
  "filter_matches f e \<longleftrightarrow>
     (ef_kinds f = [] \<or> ev_kind e \<in> set (ef_kinds f)) \<and>
     (ef_categories f = [] \<or> ev_category e \<in> set (ef_categories f))"

section \<open>Subscription data\<close>

datatype queue_overflow_policy = CoalescePolicy | NeverDropPolicy

record queue_options =
  qo_capacity :: nat
  qo_overflow :: queue_overflow_policy

definition default_queue_options :: queue_options where
  "default_queue_options = \<lparr>qo_capacity = 1024, qo_overflow = CoalescePolicy\<rparr>"

record subscription_scope =
  sc_kinds :: "event_kind list"
  sc_filter :: event_filter

datatype subscription_event = EventItem event | GapItem error_code u64

section \<open>The kinds are ordered by their numbers\<close>

lemma all_kinds: "k \<in> set (map evd_kind event_descriptors)"
  by (cases k) (simp_all add: event_descriptors_def event_descriptor_def)

lemma distinct_event_values: "distinct (map event_value (map evd_kind event_descriptors))"
  by code_simp

lemma distinct_wire_names: "distinct (map evd_wire_name event_descriptors)"
  by code_simp

lemma distinct_kinds: "distinct (map evd_kind event_descriptors)"
  using distinct_event_values by (auto simp: distinct_map intro: inj_on_imageI2)

lemma event_value_injective: "event_value a = event_value b \<longleftrightarrow> a = b"
  using distinct_event_values all_kinds [of a] all_kinds [of b]
  by (auto simp: distinct_map inj_on_def simp del: map_map)

text \<open>The order \<open>std::map\<close> keys are kept in.\<close>

instantiation event_kind :: linorder
begin

definition less_eq_event_kind :: "event_kind \<Rightarrow> event_kind \<Rightarrow> bool" where
  "less_eq_event_kind a b \<longleftrightarrow> event_value a \<le> event_value b"

definition less_event_kind :: "event_kind \<Rightarrow> event_kind \<Rightarrow> bool" where
  "less_event_kind a b \<longleftrightarrow> event_value a < event_value b"

instance
  by standard (auto simp: less_eq_event_kind_def less_event_kind_def event_value_injective [symmetric])

end

section \<open>The table\<close>

lemma find_descriptor_kind:
  obtains d where "d \<in> set event_descriptors" and "evd_kind d = k" and "find_descriptor k = Some d"
proof -
  from all_kinds [of k] obtain d where d: "d \<in> set event_descriptors" "evd_kind d = k" by auto
  then have "find_descriptor k = Some d"
    unfolding find_descriptor_def using find_unique_key [OF distinct_kinds] by blast
  with d show thesis by (rule that)
qed

text \<open>
  Every event kind has one row in the descriptor table, so it has a wire name, and \<open>wire_kind\<close> reads
  the wire name of a kind back as that kind; no two kinds share a wire number.
\<close>

theorem wire_name_roundtrip:
  "wire_kind (wire_name k) = Some k \<and> (event_value a = event_value b) = (a = b)"
proof -
  obtain d where d: "d \<in> set event_descriptors" "evd_kind d = k" "find_descriptor k = Some d"
    by (rule find_descriptor_kind)
  then have "wire_kind (evd_wire_name d) = Some k"
    using find_unique_key [OF distinct_wire_names] by (simp add: wire_kind_def)
  with d show ?thesis by (simp add: wire_name_def event_value_injective)
qed

section \<open>The text of a UUID\<close>

lemma hex_digits_inj: "i < 16 \<Longrightarrow> j < 16 \<Longrightarrow> hex_digits ! i = hex_digits ! j \<longleftrightarrow> i = j"
proof -
  have "distinct hex_digits" and "length hex_digits = 16" by (simp_all add: hex_digits_def)
  then show "i < 16 \<Longrightarrow> j < 16 \<Longrightarrow> ?thesis" by (simp add: nth_eq_iff_index_eq)
qed

lemma byte_nibbles:
  fixes b :: u8
  shows "unat (drop_bit 4 b) = unat b div 16" and "unat (and b 0x0F) = unat b mod 16"
proof -
  show "unat (drop_bit 4 b) = unat b div 16"
    by (simp only: unsigned_drop_bit_eq unsigned_take_bit_eq [symmetric] take_bit_length_eq)
      (simp add: drop_bit_eq_div take_bit_eq_mod)
  have "and b 0x0F = take_bit 4 b"
    by (simp add: take_bit_eq_mask mask_eq_exp_minus_1)
  then show "unat (and b 0x0F) = unat b mod 16"
    by (simp only: unsigned_take_bit_eq) (simp add: take_bit_eq_mod)
qed

lemma byte_text_inj: "byte_text a = byte_text b \<longleftrightarrow> a = b"
proof
  have small: "unat x div 16 < 16" for x :: u8
    using unsigned_less [where 'a = nat, of x] by (intro less_mult_imp_div_less) simp
  assume "byte_text a = byte_text b"
  then have "unat a div 16 = unat b div 16" and "unat a mod 16 = unat b mod 16"
    by (simp_all add: byte_text_def byte_nibbles hex_digits_inj small)
  then have "unat a = unat b"
    by (metis div_mult_mod_eq)
  then show "a = b" by (simp add: word_unat_eq_iff)
qed simp

lemma uuid_text_from_inj: "length u = length v \<Longrightarrow> uuid_text_from i u = uuid_text_from i v \<longleftrightarrow> u = v"
proof (induction i u arbitrary: v rule: uuid_text_from.induct)
  case (2 i b u)
  then obtain c w where v: "v = c # w" and len: "length u = length w" by (cases v) auto
  have "length (byte_text b) = length (byte_text c)" by (simp add: byte_text_def)
  then show ?case
    using 2(1) [OF len] by (simp add: v byte_text_inj)
qed simp

text \<open>
  The text of a UUID determines the UUID: two sixteen-byte values print the same only if they are
  equal, and the text has the 36 characters of the usual form.\<close>

theorem uuid_text_injective:
  assumes "length u = 16" and "length v = 16"
  shows "(uuid_to_string u = uuid_to_string v \<longleftrightarrow> u = v) \<and> length (uuid_to_string u) = 36"
proof -
  have "length (uuid_text_from 0 u) = 36"
    using assms(1) by (auto simp: length_Suc_conv numeral_eq_Suc byte_text_def)
  then show ?thesis
    using assms uuid_text_from_inj [of u v 0] by (simp add: uuid_to_string_def)
qed

theorem uuid_text_injective_witness:
  "uuid_to_string nil_uuid \<noteq> uuid_to_string (nil_uuid[15 := 1]) \<and> length (uuid_to_string nil_uuid) = 36"
proof -
  have "nil_uuid \<noteq> nil_uuid[15 := 1]" and "length nil_uuid = 16"
    by code_simp+
  then show ?thesis
    using uuid_text_injective [of nil_uuid "nil_uuid[15 := 1]"] by simp
qed

end
