(* ===== verification/Ui_Snapshot.thy ===== *)
theory Ui_Snapshot
  imports Events
begin

unbundle bit_operations_syntax

text \<open>
  \<open>include/grab/ui.hpp\<close>, \<open>include/grab/relation.hpp\<close> and \<open>src/spi/tree_source.hpp\<close>: the nodes, properties and
  relations of a semantic tree, the immutable snapshot with its two relation indexes, and the updates a
  tree source delivers. The parallel vectors of property ids and reads of a node, which its constructor fills together,
  are one list of pairs. Shown: the indexes of a snapshot answer exactly from its relations.
\<close>

section \<open>Properties\<close>

datatype property_value =
    NoValue
  | BoolValue bool
  | IntValue "64 word"
  | DoubleValue f64
  | StringValue string
  | RectValue space_rect

datatype property_state = Present | Absent | Unsupported | Uncached | BackendFailed

record property_read =
  pr_state :: property_state
  pr_value :: property_value

definition default_read :: property_read where
  "default_read = \<lparr>pr_state = Absent, pr_value = NoValue\<rparr>"

type_synonym node_id = u64
type_synonym property_id = u32
type_synonym relation_id = u32

record ui_provenance =
  pv_runtime :: u32
  pv_revision :: u64

record ui_node_record =
  un_id :: node_id
  un_generation :: u32
  un_role :: u32
  un_states :: u32
  un_facets :: u32
  un_properties :: "(property_id \<times> property_read) list"
  un_provenance :: ui_provenance

definition property_ids_of :: "ui_node_record \<Rightarrow> property_id list" where
  "property_ids_of n = map fst (un_properties n)"

fun read_property :: "property_id \<Rightarrow> (property_id \<times> property_read) list \<Rightarrow> property_read" where
  "read_property p [] = default_read"
| "read_property p ((q, r) # props) = (if q = p then r else read_property p props)"

definition node_property :: "ui_node_record \<Rightarrow> property_id \<Rightarrow> property_read" where
  "node_property n p = read_property p (un_properties n)"

text \<open>\<open>==\<close> on \<open>double\<close> by bit pattern: a NaN equals nothing, and the two zeros are equal.\<close>

definition f64_magnitude :: "f64 \<Rightarrow> f64" where
  "f64_magnitude x = x AND 0x7FFFFFFFFFFFFFFF"

definition f64_equal :: "f64 \<Rightarrow> f64 \<Rightarrow> bool" where
  "f64_equal a b \<longleftrightarrow>
     f64_magnitude a \<le> 0x7FF0000000000000 \<and> f64_magnitude b \<le> 0x7FF0000000000000 \<and>
     (a = b \<or> f64_magnitude a = 0 \<and> f64_magnitude b = 0)"

fun property_value_equal :: "property_value \<Rightarrow> property_value \<Rightarrow> bool" where
  "property_value_equal NoValue NoValue = True"
| "property_value_equal (BoolValue a) (BoolValue b) = (a = b)"
| "property_value_equal (IntValue a) (IntValue b) = (a = b)"
| "property_value_equal (DoubleValue a) (DoubleValue b) = f64_equal a b"
| "property_value_equal (StringValue a) (StringValue b) = (a = b)"
| "property_value_equal (RectValue a) (RectValue b) =
     (f64_equal (sr_x a) (sr_x b) \<and> f64_equal (sr_y a) (sr_y b) \<and> f64_equal (sr_w a) (sr_w b) \<and>
      f64_equal (sr_h a) (sr_h b) \<and> sr_space a = sr_space b)"
| "property_value_equal a b = False"

definition property_read_equal :: "property_read \<Rightarrow> property_read \<Rightarrow> bool" where
  "property_read_equal l r =
     (if pr_state l \<noteq> pr_state r then False
      else pr_state l \<noteq> Present \<or> property_value_equal (pr_value l) (pr_value r))"

section \<open>Relations\<close>

definition contains_relation :: relation_id where
  "contains_relation = 0"

definition core_count :: u32 where
  "core_count = 14"

definition core_bit_count :: u32 where
  "core_bit_count = 32"

definition relation_names :: "relation_id enum_table" where
  "relation_names =
     [(0, ''contains''), (1, ''owns''), (2, ''presented_on''), (3, ''occupies''), (4, ''overlays''),
      (5, ''active_child''), (6, ''focus_within''), (7, ''embeds''), (8, ''controls''), (9, ''label_for''),
      (10, ''labelled_by''), (11, ''controlled_by''), (12, ''popup_for''), (13, ''flows_to'')]"

definition relation_name :: "relation_id \<Rightarrow> string" where
  "relation_name r = text_of relation_names r ''unknown''"

definition is_core_relation :: "relation_id \<Rightarrow> bool" where
  "is_core_relation r \<longleftrightarrow> r < core_count"

definition relation_bit :: "relation_id \<Rightarrow> u32" where
  "relation_bit r = (if r \<ge> core_bit_count then 0 else push_bit (unat r) 1)"

record ui_relation =
  ur_source :: node_id
  ur_target :: node_id
  ur_relation :: relation_id

section \<open>Snapshots\<close>

record ui_snapshot_metadata =
  md_runtime :: u32
  md_tree :: u32
  md_epoch :: u32
  md_revision :: u64
  md_complete :: bool

record relation_bucket =
  rb_node :: node_id
  rb_relation :: relation_id
  rb_related :: "node_id list"

record ui_snapshot =
  us_runtime :: u32
  us_tree :: u32
  us_epoch :: u32
  us_revision :: u64
  us_complete :: bool
  us_nodes :: "ui_node_record list"
  us_roots :: "node_id list"
  us_relations :: "ui_relation list"
  us_forward :: "relation_bucket list"
  us_reverse :: "relation_bucket list"

fun append_related :: "node_id \<Rightarrow> relation_id \<Rightarrow> node_id \<Rightarrow> relation_bucket list \<Rightarrow> relation_bucket list" where
  "append_related n r related [] = [\<lparr>rb_node = n, rb_relation = r, rb_related = [related]\<rparr>]"
| "append_related n r related (b # buckets) =
     (if rb_node b = n \<and> rb_relation b = r then b\<lparr>rb_related := rb_related b @ [related]\<rparr> # buckets
      else b # append_related n r related buckets)"

fun find_related :: "relation_bucket list \<Rightarrow> node_id \<Rightarrow> relation_id \<Rightarrow> node_id list" where
  "find_related [] n r = []"
| "find_related (b # buckets) n r = (if rb_node b = n \<and> rb_relation b = r then rb_related b else find_related buckets n r)"

definition index_relation :: "ui_relation \<Rightarrow> ui_snapshot \<Rightarrow> ui_snapshot" where
  "index_relation x snapshot =
     snapshot\<lparr>us_forward := append_related (ur_source x) (ur_relation x) (ur_target x) (us_forward snapshot),
              us_reverse := append_related (ur_target x) (ur_relation x) (ur_source x) (us_reverse snapshot)\<rparr>"

definition from_records ::
  "ui_snapshot_metadata \<Rightarrow> ui_node_record list \<Rightarrow> node_id list \<Rightarrow> ui_relation list \<Rightarrow> ui_snapshot" where
  "from_records md nodes roots relations =
     fold index_relation relations
       \<lparr>us_runtime = md_runtime md, us_tree = md_tree md, us_epoch = md_epoch md, us_revision = md_revision md,
        us_complete = md_complete md, us_nodes = nodes, us_roots = roots, us_relations = relations,
        us_forward = [], us_reverse = []\<rparr>"

definition snapshot_node :: "ui_snapshot \<Rightarrow> node_id \<Rightarrow> ui_node_record option" where
  "snapshot_node snapshot n = find (\<lambda>x. un_id x = n) (us_nodes snapshot)"

definition related :: "ui_snapshot \<Rightarrow> node_id \<Rightarrow> relation_id \<Rightarrow> node_id list" where
  "related snapshot source r = find_related (us_forward snapshot) source r"

definition related_reverse :: "ui_snapshot \<Rightarrow> node_id \<Rightarrow> relation_id \<Rightarrow> node_id list" where
  "related_reverse snapshot tgt r = find_related (us_reverse snapshot) tgt r"

section \<open>Updates\<close>

datatype relation_change_kind = AddRelation | RemoveRelation

record relation_change =
  rc_kind :: relation_change_kind
  rc_source :: node_id
  rc_target :: node_id
  rc_relation :: relation_id

record ui_delta =
  ud_runtime :: u32
  ud_tree :: u32
  ud_epoch :: u32
  ud_base_revision :: u64
  ud_revision :: u64
  ud_complete :: bool
  ud_added_nodes :: "ui_node_record list"
  ud_changed_nodes :: "ui_node_record list"
  ud_removed_nodes :: "node_id list"
  ud_relation_changes :: "relation_change list"

record tree_gap =
  gp_runtime :: u32
  gp_tree :: u32
  gp_epoch :: u32
  gp_last_source_sequence :: u64
  gp_dropped :: u64

datatype update_payload = SnapshotUpdate ui_snapshot | DeltaUpdate ui_delta | GapUpdate tree_gap

record ui_update =
  up_source_sequence :: u64
  up_payload :: update_payload

section \<open>The indexes\<close>

lemma find_append_related:
  "find_related (append_related n r x buckets) m q =
     (if m = n \<and> q = r then find_related buckets m q @ [x] else find_related buckets m q)"
  by (induction n r x buckets rule: append_related.induct) auto

lemma fold_index_fields [simp]:
  "us_nodes (fold index_relation xs s) = us_nodes s" "us_roots (fold index_relation xs s) = us_roots s"
  "us_relations (fold index_relation xs s) = us_relations s" "us_runtime (fold index_relation xs s) = us_runtime s"
  "us_tree (fold index_relation xs s) = us_tree s" "us_epoch (fold index_relation xs s) = us_epoch s"
  "us_revision (fold index_relation xs s) = us_revision s" "us_complete (fold index_relation xs s) = us_complete s"
  by (induction xs arbitrary: s) (simp_all add: index_relation_def)

lemma from_records_fields [simp]:
  "us_nodes (from_records md ns rs xs) = ns" "us_roots (from_records md ns rs xs) = rs"
  "us_relations (from_records md ns rs xs) = xs" "us_runtime (from_records md ns rs xs) = md_runtime md"
  "us_tree (from_records md ns rs xs) = md_tree md" "us_epoch (from_records md ns rs xs) = md_epoch md"
  "us_revision (from_records md ns rs xs) = md_revision md" "us_complete (from_records md ns rs xs) = md_complete md"
  by (simp_all add: from_records_def)

lemma fold_index_related:
  "find_related (us_forward (fold index_relation xs s)) n r =
     find_related (us_forward s) n r @ map ur_target (filter (\<lambda>x. ur_source x = n \<and> ur_relation x = r) xs)"
  "find_related (us_reverse (fold index_relation xs s)) n r =
     find_related (us_reverse s) n r @ map ur_source (filter (\<lambda>x. ur_target x = n \<and> ur_relation x = r) xs)"
  by (induction xs arbitrary: s) (auto simp: index_relation_def find_append_related)

text \<open>
  The relation indexes of a snapshot are exact: looking up a node and a relation, forward or in
  reverse, returns the other ends of the snapshot's relations of that kind at that node, each as often as it is listed and in
  the order of the records; the two directions agree.\<close>

theorem related_index_exact:
  "related (from_records md nodes roots relations) n r =
     map ur_target (filter (\<lambda>x. ur_source x = n \<and> ur_relation x = r) relations)
   \<and> related_reverse (from_records md nodes roots relations) m r =
     map ur_source (filter (\<lambda>x. ur_target x = m \<and> ur_relation x = r) relations)
   \<and> (m \<in> set (related (from_records md nodes roots relations) n r) \<longleftrightarrow>
      n \<in> set (related_reverse (from_records md nodes roots relations) m r))"
  by (auto simp: related_def related_reverse_def from_records_def fold_index_related image_iff)

end
