(* ===== verification/Locator_Json.thy ===== *)
theory Locator_Json
  imports Locator
begin

unbundle bit_operations_syntax

text \<open>
  The JSON form of a locator, from \<open>src/kernel/query/locator.cpp\<close>: \<open>expression_json\<close> and
  \<open>Locator::to_string\<close>, \<open>parse_expression\<close> and \<open>Locator::from_string\<close>, each error branch with its message. The value
  type of the JSON library is the datatype \<open>json\<close>; its \<open>dump\<close> (\<open>None\<close> when it throws) and \<open>parse\<close> and the
  conversion of an integer to \<open>double\<close> are arguments. \<open>None\<close> of \<open>expression_json\<close> stands for \<open>front()\<close> of
  an empty child vector, which is undefined; well-formed plans never reach it.
\<close>

section \<open>Documents\<close>

datatype json =
  JsonNull | JsonBool bool | JsonInteger "64 word" | JsonUnsigned u64 | JsonFloat f64 | JsonString string
| JsonArray "json list" | JsonObject "(string \<times> json) list"

datatype json_failure = ParseError nat | JsonException string

section \<open>Writing\<close>

fun boundary_name :: "boundary_policy \<Rightarrow> string" where
  "boundary_name SameTree = ''same_tree''"
| "boundary_name SameProcess = ''same_process''"
| "boundary_name CrossEmbeds = ''cross_embeds''"

fun consistency_name :: "consistency_mode \<Rightarrow> string" where
  "consistency_name Live = ''live''"
| "consistency_name Revisioned = ''revisioned''"
| "consistency_name Pinned = ''pinned''"

definition f64_infinity :: f64 where
  "f64_infinity = 0x7FF0000000000000"

definition f64_quiet_nan :: f64 where
  "f64_quiet_nan = 0x7FF8000000000000"

definition f64_sign :: f64 where
  "f64_sign = 0x8000000000000000"

definition f64_isfinite :: "f64 \<Rightarrow> bool" where
  "f64_isfinite x \<longleftrightarrow> f64_magnitude x < f64_infinity"

definition f64_isnan :: "f64 \<Rightarrow> bool" where
  "f64_isnan x \<longleftrightarrow> f64_infinity < f64_magnitude x"

definition f64_signbit :: "f64 \<Rightarrow> bool" where
  "f64_signbit x \<longleftrightarrow> x AND f64_sign \<noteq> 0"

definition encoded_number :: "f64 \<Rightarrow> json" where
  "encoded_number x =
     (if f64_equal x 0 then JsonFloat 0
      else if f64_isfinite x then JsonFloat x
      else if f64_isnan x then JsonString ''nan''
      else JsonString (if f64_signbit x then ''-infinity'' else ''+infinity''))"

fun append_property_value :: "property_value \<Rightarrow> (string \<times> json) list \<Rightarrow> (string \<times> json) list" where
  "append_property_value NoValue object = object @ [(''type'', JsonString ''null''), (''value'', JsonNull)]"
| "append_property_value (BoolValue b) object = object @ [(''type'', JsonString ''bool''), (''value'', JsonBool b)]"
| "append_property_value (IntValue i) object =
     object @ [(''type'', JsonString ''integer''), (''value'', JsonInteger i)]"
| "append_property_value (DoubleValue x) object =
     object @ [(''type'', JsonString ''number''), (''value'', encoded_number x)]"
| "append_property_value (StringValue t) object =
     object @ [(''type'', JsonString ''text''), (''value'', JsonString t)]"
| "append_property_value (RectValue r) object =
     object @ [(''type'', JsonString ''rect''),
       (''value'', JsonObject [(''x'', encoded_number (sr_x r)), (''y'', encoded_number (sr_y r)),
          (''w'', encoded_number (sr_w r)), (''h'', encoded_number (sr_h r)),
          (''space'', JsonUnsigned (ucast (sr_space r)))])]"

text \<open>The value of \<open>op\<close> for each operator: what \<open>expression_json\<close> writes and \<open>parse_expression\<close> compares with.\<close>

definition op_names :: "(string \<times> locator_op) list" where
  "op_names =
     [(''match_all'', OpMatchAll), (''match_none'', OpMatchNone), (''role'', OpRole), (''state'', OpState),
      (''property'', OpProperty), (''accessible_name'', OpAccessibleName), (''text'', OpText), (''all'', OpAll),
      (''any'', OpAny), (''not'', OpNot), (''child_of'', OpChildOf), (''descendant_of'', OpDescendantOf),
      (''ancestor_of'', OpAncestorOf), (''related'', OpRelated), (''related_reverse'', OpRelatedReverse)]"

fun op_name :: "locator_op \<Rightarrow> string" where
  "op_name OpMatchAll = ''match_all''"
| "op_name OpMatchNone = ''match_none''"
| "op_name OpRole = ''role''"
| "op_name OpState = ''state''"
| "op_name OpProperty = ''property''"
| "op_name OpAccessibleName = ''accessible_name''"
| "op_name OpText = ''text''"
| "op_name OpAll = ''all''"
| "op_name OpAny = ''any''"
| "op_name OpNot = ''not''"
| "op_name OpChildOf = ''child_of''"
| "op_name OpDescendantOf = ''descendant_of''"
| "op_name OpAncestorOf = ''ancestor_of''"
| "op_name OpRelated = ''related''"
| "op_name OpRelatedReverse = ''related_reverse''"

text \<open>The members that follow \<open>op\<close>, from the JSON of the children.\<close>

definition expression_members :: "locator_plan \<Rightarrow> json list option \<Rightarrow> json option \<Rightarrow> (string \<times> json) list option" where
  "expression_members plan children child =
     (case lp_op plan of
        OpMatchAll \<Rightarrow> Some []
      | OpMatchNone \<Rightarrow> Some []
      | OpRole \<Rightarrow> Some [(''value'', JsonUnsigned (ucast (lp_role plan)))]
      | OpState \<Rightarrow> Some [(''value'', JsonUnsigned (ucast (lp_state plan)))]
      | OpProperty \<Rightarrow> Some (append_property_value (lp_value plan) [(''property'', JsonUnsigned (ucast (lp_property plan)))])
      | OpAccessibleName \<Rightarrow> Some [(''value'', JsonString (lp_text plan))]
      | OpText \<Rightarrow> Some [(''value'', JsonString (lp_text plan))]
      | OpAll \<Rightarrow> map_option (\<lambda>js. [(''children'', JsonArray js)]) children
      | OpAny \<Rightarrow> map_option (\<lambda>js. [(''children'', JsonArray js)]) children
      | OpNot \<Rightarrow> map_option (\<lambda>j. [(''child'', j)]) child
      | OpChildOf \<Rightarrow> map_option (\<lambda>j. [(''child'', j)]) child
      | OpDescendantOf \<Rightarrow> map_option (\<lambda>j. [(''child'', j)]) child
      | OpAncestorOf \<Rightarrow> map_option (\<lambda>j. [(''child'', j)]) child
      | OpRelated \<Rightarrow> map_option (\<lambda>j. [(''relation'', JsonUnsigned (ucast (lp_relation plan))), (''child'', j)]) child
      | OpRelatedReverse \<Rightarrow>
          map_option (\<lambda>j. [(''relation'', JsonUnsigned (ucast (lp_relation plan))), (''child'', j)]) child)"

fun expression_json :: "locator_plan \<Rightarrow> json option" where
  "expression_json (LocatorPlan op r s p v t q children) =
     map_option (\<lambda>members. JsonObject ((''op'', JsonString (op_name op)) # members))
       (expression_members (LocatorPlan op r s p v t q children) (those (map expression_json children))
          (case children of [] \<Rightarrow> None | c # _ \<Rightarrow> expression_json c))"

definition locator_version :: u64 where
  "locator_version = 1"

definition locator_json :: "locator \<Rightarrow> json option" where
  "locator_json l =
     map_option (\<lambda>e. JsonObject [(''boundary'', JsonString (boundary_name (lc_boundary l))),
                                 (''consistency'', JsonString (consistency_name (lc_consistency l))),
                                 (''expr'', e), (''version'', JsonUnsigned locator_version)])
       (expression_json (lc_plan l))"

definition locator_to_string :: "(json \<Rightarrow> string option) \<Rightarrow> locator \<Rightarrow> string option" where
  "locator_to_string dump l = (case locator_json l of None \<Rightarrow> None | Some j \<Rightarrow> dump j)"

text \<open>\<open>operator==\<close>: \<open>shared\<close> tells whether the two locators point to one plan.\<close>

definition locator_equal :: "(json \<Rightarrow> string option) \<Rightarrow> bool \<Rightarrow> locator \<Rightarrow> locator \<Rightarrow> bool option" where
  "locator_equal dump shared l r =
     (if shared \<and> lc_boundary l = lc_boundary r \<and> lc_consistency l = lc_consistency r then Some True
      else case locator_to_string dump l of None \<Rightarrow> None
        | Some a \<Rightarrow> map_option (\<lambda>b. a = b) (locator_to_string dump r))"

definition locator_hash :: "(json \<Rightarrow> string option) \<Rightarrow> (string \<Rightarrow> u64) \<Rightarrow> locator \<Rightarrow> u64 option" where
  "locator_hash dump string_hash l = map_option string_hash (locator_to_string dump l)"

section \<open>Reading\<close>

definition invalid_locator :: "string \<Rightarrow> error" where
  "invalid_locator message = fail InvalidArgument message"

definition newline :: char where
  "newline = char_of (10 :: nat)"

text \<open>
  \<open>syntax_error_message\<close>: the offending line and a caret under the byte. \<open>rfind\<close> before the offset and \<open>find\<close>
  from it delimit the line.
\<close>

definition line_start :: "string \<Rightarrow> nat \<Rightarrow> nat" where
  "line_start serialized offset = length (dropWhile (\<lambda>c. c \<noteq> newline) (rev (take offset serialized)))"

definition line_end :: "string \<Rightarrow> nat \<Rightarrow> nat" where
  "line_end serialized offset = offset + length (takeWhile (\<lambda>c. c \<noteq> newline) (drop offset serialized))"

definition syntax_error_message :: "string \<Rightarrow> nat \<Rightarrow> string" where
  "syntax_error_message serialized byte =
     (let offset = (if byte = 0 then 0 else min (byte - 1) (length serialized));
          start = line_start serialized offset
      in ''invalid locator JSON syntax at byte '' @ to_string byte @ [newline]
         @ take (line_end serialized offset - start) (drop start serialized) @ [newline]
         @ replicate (offset - start) (CHR '' '') @ ''^'')"

definition required_member :: "json \<Rightarrow> string \<Rightarrow> string \<Rightarrow> json result" where
  "required_member object name path =
     (case object of
        JsonObject members \<Rightarrow>
          (case map_of members name of
             None \<Rightarrow> Inl (invalid_locator (path @ '' is missing '' @ [CHR 0x27] @ name @ [CHR 0x27]))
           | Some j \<Rightarrow> Inr j)
      | _ \<Rightarrow> Inl (invalid_locator (path @ '' must be an object'')))"

definition unsigned_32 :: "json \<Rightarrow> string \<Rightarrow> u32 result" where
  "unsigned_32 j path =
     (let narrow = (\<lambda>number :: u64. if number > 0xFFFFFFFF then Inl (invalid_locator (path @ '' is out of range''))
                                    else Inr (ucast number))
      in case j of
        JsonUnsigned number \<Rightarrow> narrow number
      | JsonInteger signed_number \<Rightarrow>
          if signed_number <s 0 then Inl (invalid_locator (path @ '' must be an unsigned integer''))
          else narrow signed_number
      | _ \<Rightarrow> Inl (invalid_locator (path @ '' must be an unsigned integer'')))"

definition json_string :: "json \<Rightarrow> string \<Rightarrow> string result" where
  "json_string j path = (case j of JsonString t \<Rightarrow> Inr t | _ \<Rightarrow> Inl (invalid_locator (path @ '' must be a string'')))"

text \<open>\<open>get<double>()\<close> converts the integers, here by \<open>to_double\<close>.\<close>

definition json_number :: "(int \<Rightarrow> f64) \<Rightarrow> json \<Rightarrow> string \<Rightarrow> f64 result" where
  "json_number to_double j path =
     (let ranged = (\<lambda>number. if \<not> f64_isfinite number then Inl (invalid_locator (path @ '' numeric value is out of range''))
                             else Inr (if f64_equal number 0 then 0 else number));
          unknown = Inl (invalid_locator (path @ '' must be a number''))
      in case j of
        JsonFloat x \<Rightarrow> ranged x
      | JsonInteger i \<Rightarrow> ranged (to_double (sint i))
      | JsonUnsigned n \<Rightarrow> ranged (to_double (uint n))
      | JsonString token \<Rightarrow>
          if token = ''nan'' then Inr f64_quiet_nan
          else if token = ''+infinity'' then Inr f64_infinity
          else if token = ''-infinity'' then Inr (f64_infinity OR f64_sign)
          else unknown
      | _ \<Rightarrow> unknown)"

definition parse_boundary :: "json \<Rightarrow> boundary_policy result" where
  "parse_boundary j =
     (case json_string j ''$.boundary'' of Inl e \<Rightarrow> Inl e
      | Inr name \<Rightarrow>
          if name = ''same_tree'' then Inr SameTree
          else if name = ''same_process'' then Inr SameProcess
          else if name = ''cross_embeds'' then Inr CrossEmbeds
          else Inl (invalid_locator ''$.boundary has an unknown value''))"

definition parse_consistency :: "json \<Rightarrow> consistency_mode result" where
  "parse_consistency j =
     (case json_string j ''$.consistency'' of Inl e \<Rightarrow> Inl e
      | Inr name \<Rightarrow>
          if name = ''live'' then Inr Live
          else if name = ''revisioned'' then Inr Revisioned
          else if name = ''pinned'' then Inr Pinned
          else Inl (invalid_locator ''$.consistency has an unknown value''))"

definition parse_rect :: "(int \<Rightarrow> f64) \<Rightarrow> json \<Rightarrow> string \<Rightarrow> property_value result" where
  "parse_rect to_double j path =
     (let x = required_member j ''x'' path; y = required_member j ''y'' path; w = required_member j ''w'' path;
          h = required_member j ''h'' path; space = required_member j ''space'' path
      in if isl x \<or> isl y \<or> isl w \<or> isl h \<or> isl space
         then Inl (invalid_locator (path @ ''.value is missing a rectangle field''))
         else
           let x_value = json_number to_double (projr x) (path @ ''.value.x'');
               y_value = json_number to_double (projr y) (path @ ''.value.y'');
               w_value = json_number to_double (projr w) (path @ ''.value.w'');
               h_value = json_number to_double (projr h) (path @ ''.value.h'')
           in if isl x_value \<or> isl y_value \<or> isl w_value \<or> isl h_value
              then Inl (invalid_locator (path @ ''.value rectangle fields must be numbers''))
              else case unsigned_32 (projr space) (path @ ''.value.space'') of Inl e \<Rightarrow> Inl e
                | Inr space_id \<Rightarrow>
                    Inr (RectValue \<lparr>sr_x = projr x_value, sr_y = projr y_value, sr_w = projr w_value,
                                    sr_h = projr h_value, sr_space = space_id\<rparr>))"

definition parse_typed_value :: "(int \<Rightarrow> f64) \<Rightarrow> string \<Rightarrow> json \<Rightarrow> string \<Rightarrow> property_value result" where
  "parse_typed_value to_double type j path =
     (if type = ''null'' then (if j = JsonNull then Inr NoValue else Inl (invalid_locator (path @ ''.value must be null'')))
      else if type = ''bool'' then
        (case j of JsonBool b \<Rightarrow> Inr (BoolValue b) | _ \<Rightarrow> Inl (invalid_locator (path @ ''.value must be a boolean'')))
      else if type = ''integer'' then
        (case j of
           JsonUnsigned number \<Rightarrow>
             if number > 0x7FFFFFFFFFFFFFFF then Inl (invalid_locator (path @ ''.value is out of range''))
             else Inr (IntValue number)
         | JsonInteger i \<Rightarrow> Inr (IntValue i)
         | _ \<Rightarrow> Inl (invalid_locator (path @ ''.value must be an integer'')))
      else if type = ''number'' then
        (case json_number to_double j (path @ ''.value'') of Inl e \<Rightarrow> Inl e | Inr x \<Rightarrow> Inr (DoubleValue x))
      else if type = ''text'' then
        (case json_string j (path @ ''.value'') of Inl e \<Rightarrow> Inl e | Inr t \<Rightarrow> Inr (StringValue t))
      else if type \<noteq> ''rect'' \<or> (case j of JsonObject _ \<Rightarrow> False | _ \<Rightarrow> True)
      then Inl (invalid_locator (path @ '' has an unknown property type''))
      else parse_rect to_double j path)"

definition parse_property_value :: "(int \<Rightarrow> f64) \<Rightarrow> json \<Rightarrow> string \<Rightarrow> property_value result" where
  "parse_property_value to_double object path =
     (case required_member object ''type'' path of Inl e \<Rightarrow> Inl e
      | Inr type_member \<Rightarrow>
        (case required_member object ''value'' path of Inl e \<Rightarrow> Inl e
         | Inr value_member \<Rightarrow>
           (case json_string type_member (path @ ''.type'') of Inl e \<Rightarrow> Inl e
            | Inr type \<Rightarrow> parse_typed_value to_double type value_member path)))"

lemma member_smaller: "map_of members name = Some j \<Longrightarrow> size j < size (JsonObject members)"
  by (induction members) (auto split: if_splits)

lemma required_member_smaller [termination_simp]:
  "required_member object name path = Inr j \<Longrightarrow> size j < size object"
  by (auto simp: required_member_def split: json.splits option.splits dest: member_smaller)

definition set_relation :: "relation_id \<Rightarrow> locator_plan \<Rightarrow> locator_plan" where
  "set_relation r plan = (case plan of LocatorPlan op a s p v t _ children \<Rightarrow> LocatorPlan op a s p v t r children)"

text \<open>
  The cascade of \<open>parse_expression\<close> over the value of \<open>op\<close>: a leaf is read in place; a node with
  children says which parser reads them, with the members already taken apart.
\<close>

datatype expression_head = Leaf locator_plan | Nary locator_op "json list" | Unary locator_op | Relation locator_op

definition expression_head :: "(int \<Rightarrow> f64) \<Rightarrow> json \<Rightarrow> locator_op \<Rightarrow> expression_head result" where
  "expression_head to_double object op =
     (case op of
        OpMatchAll \<Rightarrow> Inr (Leaf (make_plan OpMatchAll))
      | OpMatchNone \<Rightarrow> Inr (Leaf (make_plan OpMatchNone))
      | OpRole \<Rightarrow>
          (case required_member object ''value'' ''$.expr'' of Inl e \<Rightarrow> Inl e
           | Inr value_member \<Rightarrow>
             (case unsigned_32 value_member ''$.expr.value'' of Inl e \<Rightarrow> Inl e
              | Inr v \<Rightarrow> Inr (Leaf (LocatorPlan OpRole v 0 0 NoValue [] 0 []))))
      | OpState \<Rightarrow>
          (case required_member object ''value'' ''$.expr'' of Inl e \<Rightarrow> Inl e
           | Inr value_member \<Rightarrow>
             (case unsigned_32 value_member ''$.expr.value'' of Inl e \<Rightarrow> Inl e
              | Inr v \<Rightarrow> Inr (Leaf (LocatorPlan OpState 0 v 0 NoValue [] 0 []))))
      | OpProperty \<Rightarrow>
          (case required_member object ''property'' ''$.expr'' of Inl e \<Rightarrow> Inl e
           | Inr property_member \<Rightarrow>
             (case unsigned_32 property_member ''$.expr.property'' of Inl e \<Rightarrow> Inl e
              | Inr p \<Rightarrow>
                (case parse_property_value to_double object ''$.expr'' of Inl e \<Rightarrow> Inl e
                 | Inr v \<Rightarrow> Inr (Leaf (LocatorPlan OpProperty 0 0 p v [] 0 [])))))
      | OpAccessibleName \<Rightarrow>
          (case required_member object ''value'' ''$.expr'' of Inl e \<Rightarrow> Inl e
           | Inr value_member \<Rightarrow>
             (case json_string value_member ''$.expr.value'' of Inl e \<Rightarrow> Inl e
              | Inr t \<Rightarrow> Inr (Leaf (LocatorPlan OpAccessibleName 0 0 0 NoValue t 0 []))))
      | OpText \<Rightarrow>
          (case required_member object ''value'' ''$.expr'' of Inl e \<Rightarrow> Inl e
           | Inr value_member \<Rightarrow>
             (case json_string value_member ''$.expr.value'' of Inl e \<Rightarrow> Inl e
              | Inr t \<Rightarrow> Inr (Leaf (LocatorPlan OpText 0 0 0 NoValue t 0 []))))
      | OpNot \<Rightarrow> Inr (Unary OpNot)
      | OpChildOf \<Rightarrow> Inr (Unary OpChildOf)
      | OpDescendantOf \<Rightarrow> Inr (Unary OpDescendantOf)
      | OpAncestorOf \<Rightarrow> Inr (Unary OpAncestorOf)
      | OpRelated \<Rightarrow> Inr (Relation OpRelated)
      | OpRelatedReverse \<Rightarrow> Inr (Relation OpRelatedReverse)
      | _ \<Rightarrow>
          (case required_member object ''children'' ''$.expr'' of Inl e \<Rightarrow> Inl e
           | Inr (JsonArray js) \<Rightarrow> Inr (Nary op js)
           | Inr _ \<Rightarrow> Inl (invalid_locator ''$.expr.children must be an array'')))"

definition expression_start :: "(int \<Rightarrow> f64) \<Rightarrow> json \<Rightarrow> u64 \<Rightarrow> expression_head result" where
  "expression_start to_double object n =
     (if n \<ge> default_max_nodes then Inl (invalid_locator ''locator exceeds the default complexity budget'')
      else case required_member object ''op'' ''$.expr'' of Inl e \<Rightarrow> Inl e
      | Inr op_member \<Rightarrow>
        (case json_string op_member ''$.expr.op'' of Inl e \<Rightarrow> Inl e
         | Inr operation \<Rightarrow>
           (case map_of op_names operation of
              None \<Rightarrow> Inl (invalid_locator ''$.expr.op has an unknown value'')
            | Some op \<Rightarrow> expression_head to_double object op)))"

lemma expression_head_smaller:
  "expression_head to_double object op = Inr (Nary op' js) \<Longrightarrow> size_list size js < size object"
  by (cases op) (auto simp: expression_head_def split: sum.splits json.splits dest!: required_member_smaller)

lemma expression_start_smaller:
  "expression_start to_double object n = Inr (Nary op js) \<Longrightarrow> size_list size js < size object"
  by (auto simp: expression_start_def split: sum.splits if_splits option.splits dest: expression_head_smaller)

text \<open>
  \<open>parse_expression\<close> and its helpers, with the count of nodes read so far passed along. The loop over
  the members of \<open>children\<close> is \<open>parse_children\<close>.
\<close>

function (sequential) parse_expression :: "(int \<Rightarrow> f64) \<Rightarrow> json \<Rightarrow> u64 \<Rightarrow> (locator_plan \<times> u64) result"
  and parse_unary :: "(int \<Rightarrow> f64) \<Rightarrow> json \<Rightarrow> locator_op \<Rightarrow> u64 \<Rightarrow> (locator_plan \<times> u64) result"
  and parse_relation :: "(int \<Rightarrow> f64) \<Rightarrow> json \<Rightarrow> locator_op \<Rightarrow> u64 \<Rightarrow> (locator_plan \<times> u64) result"
  and parse_children :: "(int \<Rightarrow> f64) \<Rightarrow> json list \<Rightarrow> u64 \<Rightarrow> (locator_plan list \<times> u64) result" where
  "parse_expression to_double object n =
     (case expression_start to_double object n of
        Inl e \<Rightarrow> Inl e
      | Inr (Leaf plan) \<Rightarrow> Inr (plan, n + 1)
      | Inr (Nary op js) \<Rightarrow>
          (case parse_children to_double js (n + 1) of Inl e \<Rightarrow> Inl e
           | Inr (children, m) \<Rightarrow> Inr (operator_plan op children, m))
      | Inr (Unary op) \<Rightarrow> parse_unary to_double object op (n + 1)
      | Inr (Relation op) \<Rightarrow> parse_relation to_double object op (n + 1))"
| "parse_unary to_double object op n =
     (case required_member object ''child'' ''$.expr'' of Inl e \<Rightarrow> Inl e
      | Inr child_member \<Rightarrow>
        (case parse_expression to_double child_member n of Inl e \<Rightarrow> Inl e
         | Inr (child, m) \<Rightarrow> Inr (operator_plan op [child], m)))"
| "parse_relation to_double object op n =
     (case required_member object ''relation'' ''$.expr'' of Inl e \<Rightarrow> Inl e
      | Inr relation_member \<Rightarrow>
        (case unsigned_32 relation_member ''$.expr.relation'' of Inl e \<Rightarrow> Inl e
         | Inr r \<Rightarrow>
           (case parse_unary to_double object op n of Inl e \<Rightarrow> Inl e
            | Inr (plan, m) \<Rightarrow> Inr (set_relation r plan, m))))"
| "parse_children to_double [] n = Inr ([], n)"
| "parse_children to_double (j # js) n =
     (case parse_expression to_double j n of Inl e \<Rightarrow> Inl e
      | Inr (child, m) \<Rightarrow>
        (case parse_children to_double js m of Inl e \<Rightarrow> Inl e
         | Inr (children, k) \<Rightarrow> Inr (child # children, k)))"
  by pat_completeness auto
termination
  by (relation "measures [case_sum (case_sum (\<lambda>(_, j, _). size j) (\<lambda>(_, j, _, _). size j))
                                    (case_sum (\<lambda>(_, j, _, _). size j) (\<lambda>(_, js, _). size_list size js)),
                          case_sum (case_sum (\<lambda>_. 2) (\<lambda>_. 0)) (case_sum (\<lambda>_. 1) (\<lambda>_. 0))]")
    (auto dest: required_member_smaller expression_start_smaller)

declare parse_expression.simps [simp del] parse_unary.simps [simp del] parse_relation.simps [simp del]

definition locator_from_string ::
  "(string \<Rightarrow> json_failure + json) \<Rightarrow> (int \<Rightarrow> f64) \<Rightarrow> string \<Rightarrow> locator result" where
  "locator_from_string parse to_double serialized =
     (case parse serialized of
        Inl (ParseError byte) \<Rightarrow> Inl (invalid_locator (syntax_error_message serialized byte))
      | Inl (JsonException reason) \<Rightarrow> Inl (invalid_locator (''invalid locator JSON value: '' @ reason))
      | Inr object \<Rightarrow>
        if (case object of JsonObject _ \<Rightarrow> False | _ \<Rightarrow> True)
        then Inl (invalid_locator ''locator JSON root must be an object'')
        else
          let version_member = required_member object ''version'' ''$'';
              boundary_member = required_member object ''boundary'' ''$'';
              consistency_member = required_member object ''consistency'' ''$'';
              expression_member = required_member object ''expr'' ''$''
          in if isl version_member \<or> isl boundary_member \<or> isl consistency_member \<or> isl expression_member
             then Inl (invalid_locator ''locator JSON is missing a required field'')
             else case unsigned_32 (projr version_member) ''$.version'' of Inl e \<Rightarrow> Inl e
             | Inr version \<Rightarrow>
               if (ucast version :: u64) \<noteq> locator_version
               then Inl (invalid_locator ''unsupported locator serialization version'')
               else case parse_boundary (projr boundary_member) of Inl e \<Rightarrow> Inl e
               | Inr b \<Rightarrow>
                 (case parse_consistency (projr consistency_member) of Inl e \<Rightarrow> Inl e
                  | Inr c \<Rightarrow>
                    (case parse_expression to_double (projr expression_member) 0 of Inl e \<Rightarrow> Inl e
                     | Inr (plan, _) \<Rightarrow> Inr (make_locator (Some plan) b c))))"

section \<open>Well-formed plans\<close>

fun plan_arity :: "locator_op \<Rightarrow> nat option" where
  "plan_arity OpAll = None"
| "plan_arity OpAny = None"
| "plan_arity OpNot = Some 1"
| "plan_arity OpChildOf = Some 1"
| "plan_arity OpDescendantOf = Some 1"
| "plan_arity OpAncestorOf = Some 1"
| "plan_arity OpRelated = Some 1"
| "plan_arity OpRelatedReverse = Some 1"
| "plan_arity op = Some 0"

text \<open>The fields an operator does not use are as constructed, and it has the children it is read with.\<close>

fun plan_ok :: "locator_plan \<Rightarrow> bool" where
  "plan_ok (LocatorPlan op r s p v t q children) \<longleftrightarrow>
     (op = OpRole \<or> r = 0) \<and> (op = OpState \<or> s = 0) \<and> (op = OpProperty \<or> p = 0 \<and> v = NoValue) \<and>
     (op = OpAccessibleName \<or> op = OpText \<or> t = []) \<and> (op = OpRelated \<or> op = OpRelatedReverse \<or> q = 0) \<and>
     (plan_arity op = None \<or> plan_arity op = Some (length children)) \<and> (\<forall>c\<in>set children. plan_ok c)"

lemma those_Some: "(\<forall>x\<in>set xs. f x \<noteq> None) \<Longrightarrow> those (map f xs) = Some (map (\<lambda>x. the (f x)) xs)"
  by (induction xs) auto

lemma plan_ok_json: "plan_ok p \<Longrightarrow> expression_json p \<noteq> None"
proof (induction p rule: plan_ok.induct)
  case (1 op r s p v t q children)
  then have "those (map expression_json children) = Some (map (\<lambda>c. the (expression_json c)) children)"
    by (intro those_Some) auto
  with 1 show ?case
    by (cases op; cases children) (auto simp: expression_members_def)
qed

lemma append_predicate_ok:
  "\<forall>c\<in>set cs. plan_ok c \<Longrightarrow> plan_ok p \<Longrightarrow> \<forall>c\<in>set (append_predicate cs p op). plan_ok c"
  by (cases p) (auto simp: append_predicate_def)

lemma combine_loop_ok:
  assumes "op = OpAll \<or> op = OpAny" and "\<forall>l\<in>set ls. plan_ok (lc_plan l)" and "\<forall>c\<in>set cs. plan_ok c"
  shows "plan_ok (lc_plan (combine_loop op ls cs b c))"
  using assms
proof (induction op ls cs b c rule: combine_loop.induct)
  case (1 op children b c)
  then show ?case by (auto simp: make_locator_def operator_plan_def)
next
  case (2 op p ps children b c)
  from "2.prems" append_predicate_ok [OF "2.prems"(3), of "lc_plan p" op] show ?case
    by (simp add: "2.IH")
qed

lemma expression_head_ok:
  assumes "expression_head td object op = Inr h"
  shows "(\<forall>p. h = Leaf p \<longrightarrow> plan_ok p) \<and> (\<forall>op js. h = Nary op js \<longrightarrow> op = OpAll \<or> op = OpAny) \<and>
    (\<forall>op. h = Unary op \<longrightarrow> plan_arity op = Some 1) \<and>
    (\<forall>op. h = Relation op \<longrightarrow> op = OpRelated \<or> op = OpRelatedReverse)"
  using assms by (cases op) (auto simp: expression_head_def make_plan_def split: sum.splits json.splits)

lemma expression_start_ok:
  assumes "expression_start td object n = Inr h"
  shows "(\<forall>p. h = Leaf p \<longrightarrow> plan_ok p) \<and> (\<forall>op js. h = Nary op js \<longrightarrow> op = OpAll \<or> op = OpAny) \<and>
    (\<forall>op. h = Unary op \<longrightarrow> plan_arity op = Some 1) \<and>
    (\<forall>op. h = Relation op \<longrightarrow> op = OpRelated \<or> op = OpRelatedReverse)"
proof -
  from assms obtain op where "expression_head td object op = Inr h"
    by (auto simp: expression_start_def split: if_splits sum.splits option.splits)
  then show ?thesis by (rule expression_head_ok)
qed

lemma parsed_plans_ok:
  "parse_expression td object n = Inr (p, m) \<Longrightarrow> plan_ok p"
  "parse_unary td object op n = Inr (p, m) \<Longrightarrow> plan_arity op = Some 1 \<Longrightarrow>
     \<exists>c. p = operator_plan op [c] \<and> plan_ok c"
  "parse_relation td object op n = Inr (p, m) \<Longrightarrow> op = OpRelated \<or> op = OpRelatedReverse \<Longrightarrow> plan_ok p"
  "parse_children td js n = Inr (ps, m) \<Longrightarrow> \<forall>p\<in>set ps. plan_ok p"
proof (induction td object n and td object op n and td object op n and td js n
    arbitrary: p m and p m and p m and ps m
    rule: parse_expression_parse_unary_parse_relation_parse_children.induct)
  case (1 td object n)
  from "1.prems" obtain h where h: "expression_start td object n = Inr h"
    by (auto simp: parse_expression.simps split: sum.splits)
  note ok = expression_start_ok [OF h]
  show ?case
  proof (cases h)
    case (Leaf x)
    with h ok "1.prems" show ?thesis by (simp add: parse_expression.simps)
  next
    case (Nary op js)
    with h ok "1.prems" "1.IH"(1) [OF h Nary] show ?thesis
      by (auto simp: parse_expression.simps operator_plan_def split: sum.splits)
  next
    case (Unary op)
    with h ok "1.prems" "1.IH"(2) [OF h Unary, of p m] show ?thesis
      by (cases op) (auto simp: parse_expression.simps operator_plan_def)
  next
    case (Relation op)
    with h ok "1.prems" "1.IH"(3) [OF h Relation] show ?thesis by (auto simp: parse_expression.simps)
  qed
next
  case (2 td object op n)
  then show ?case by (auto simp: parse_unary.simps split: sum.splits)
next
  case (3 td object op n)
  then show ?case by (force simp: parse_relation.simps operator_plan_def set_relation_def split: sum.splits)
next
  case (4 td n)
  then show ?case by simp
next
  case (5 td j js n)
  then show ?case by (fastforce split: sum.splits)
qed

text \<open>What the public interface of locators can produce.\<close>

inductive built_locator :: "locator \<Rightarrow> bool" where
  built_new: "built_locator new_locator"
| built_role: "built_locator (sel_role r)"
| built_state: "built_locator (sel_state s)"
| built_property: "built_locator (sel_property p v)"
| built_accessible_name: "built_locator (sel_accessible_name t)"
| built_text: "built_locator (sel_text t)"
| built_all: "\<forall>l\<in>set ls. built_locator l \<Longrightarrow> built_locator (sel_all ls)"
| built_any: "\<forall>l\<in>set ls. built_locator l \<Longrightarrow> built_locator (sel_any ls)"
| built_not: "built_locator l \<Longrightarrow> built_locator (sel_not l)"
| built_child_of: "built_locator l \<Longrightarrow> built_locator (sel_child_of l)"
| built_descendant_of: "built_locator l \<Longrightarrow> built_locator (sel_descendant_of l)"
| built_ancestor_of: "built_locator l \<Longrightarrow> built_locator (sel_ancestor_of l)"
| built_related: "built_locator l \<Longrightarrow> built_locator (sel_related r l)"
| built_related_reverse: "built_locator l \<Longrightarrow> built_locator (sel_related_reverse r l)"
| built_and: "built_locator l \<Longrightarrow> built_locator k \<Longrightarrow> built_locator (and_locator l k)"
| built_boundary: "built_locator l \<Longrightarrow> built_locator (with_boundary l b)"
| built_consistency: "built_locator l \<Longrightarrow> built_locator (with_consistency l c)"
| built_parsed: "locator_from_string parse to_double t = Inr l \<Longrightarrow> built_locator l"

lemmas selector_defs = new_locator_def sel_role_def sel_state_def sel_property_def sel_accessible_name_def sel_text_def
  sel_all_def sel_any_def sel_not_def sel_child_of_def sel_descendant_of_def sel_ancestor_of_def sel_related_def
  sel_related_reverse_def and_locator_def with_boundary_def with_consistency_def unary_locator_def
  relation_locator_def make_locator_def make_plan_def

lemma from_string_plan_ok:
  "locator_from_string parse to_double t = Inr l \<Longrightarrow> plan_ok (lc_plan l)"
  by (auto simp: locator_from_string_def Let_def make_locator_def
      split: sum.splits json_failure.splits if_splits dest: parsed_plans_ok(1))

lemma built_plan_ok: "built_locator l \<Longrightarrow> plan_ok (lc_plan l)"
proof (induction rule: built_locator.induct)
  case (built_all ls)
  then show ?case by (simp add: sel_all_def combine_loop_ok) (simp add: make_locator_def make_plan_def)
next
  case (built_any ls)
  then show ?case by (simp add: sel_any_def combine_loop_ok) (simp add: make_locator_def make_plan_def)
next
  case (built_and l k)
  then have "\<forall>c\<in>set (append_predicate (append_predicate [] (lc_plan l) OpAll) (lc_plan k) OpAll). plan_ok c"
    by (intro append_predicate_ok) auto
  then show ?case
    by (auto simp: and_locator_def make_locator_def operator_plan_def)
next
  case (built_parsed parse to_double t l)
  then show ?case by (rule from_string_plan_ok)
qed (auto simp: selector_defs operator_plan_def)

section \<open>Reading back\<close>

text \<open>
  What parsing the dumped text of a document gives: the library writes and reads numbers exactly, an
  integer that is not negative comes back as unsigned, and a number that is not finite has no JSON form.
\<close>

fun reread :: "json \<Rightarrow> json" where
  "reread (JsonInteger i) = (if i <s 0 then JsonInteger i else JsonUnsigned i)"
| "reread (JsonFloat x) = (if f64_isfinite x then JsonFloat x else JsonNull)"
| "reread (JsonArray js) = JsonArray (map reread js)"
| "reread (JsonObject ms) = JsonObject (map (map_prod id reread) ms)"
| "reread j = j"

definition canonical_number :: "f64 \<Rightarrow> f64" where
  "canonical_number x = (if f64_equal x 0 then 0 else if f64_isnan x then f64_quiet_nan else x)"

fun canonical_value :: "property_value \<Rightarrow> property_value" where
  "canonical_value (DoubleValue x) = DoubleValue (canonical_number x)"
| "canonical_value (RectValue r) =
     RectValue \<lparr>sr_x = canonical_number (sr_x r), sr_y = canonical_number (sr_y r), sr_w = canonical_number (sr_w r),
                sr_h = canonical_number (sr_h r), sr_space = sr_space r\<rparr>"
| "canonical_value v = v"

fun canonical_plan :: "locator_plan \<Rightarrow> locator_plan" where
  "canonical_plan (LocatorPlan op r s p v t q children) =
     LocatorPlan op r s p (canonical_value v) t q (map canonical_plan children)"

definition canonical_locator :: "locator \<Rightarrow> locator" where
  "canonical_locator l = l\<lparr>lc_plan := canonical_plan (lc_plan l)\<rparr>"

fun plan_size :: "locator_plan \<Rightarrow> nat" where
  "plan_size (LocatorPlan op r s p v t q children) = Suc (sum_list (map plan_size children))"

lemma required_member_Cons [simp]:
  "required_member (JsonObject ((k, v) # ms)) name path =
     (if k = name then Inr v else required_member (JsonObject ms) name path)"
  by (simp add: required_member_def)

lemma ucast_narrow [simp]: "ucast (ucast (w :: u32) :: u64) = w"
  by (rule bit_word_eqI) (auto simp: bit_simps)

lemma unsigned_32_ucast [simp]: "unsigned_32 (JsonUnsigned (ucast (w :: u32))) path = Inr w"
proof -
  have "uint w < 2 ^ 32"
    using uint_bounded [of w] by simp
  then have "\<not> (0xFFFFFFFF :: u64) < ucast w"
    by (simp add: word_less_alt unsigned_ucast_eq take_bit_int_eq_self)
  then show ?thesis
    by (simp add: unsigned_32_def)
qed

lemma unsigned_32_zero [simp]: "unsigned_32 (JsonUnsigned 0) path = Inr 0"
  using unsigned_32_ucast [of 0] by simp

lemma and_sign_bit: "x AND push_bit n 1 = (if bit x n then push_bit n 1 else (0 :: 'a :: len word))"
  by (rule bit_word_eqI) (auto simp: bit_simps)

lemma infinity_signed:
  assumes "f64_magnitude x = f64_infinity"
  shows "x = (if f64_signbit x then f64_infinity OR f64_sign else f64_infinity)"
proof -
  have "(0x7FFFFFFFFFFFFFFF :: u64) OR f64_sign = - 1"
    by (simp add: f64_sign_def)
  then have split: "x = (x AND 0x7FFFFFFFFFFFFFFF) OR (x AND f64_sign)"
    by (metis bit.conj_disj_distrib bit.conj_one_right)
  have "x AND f64_sign = f64_sign \<or> x AND f64_sign = 0"
    using and_sign_bit [of x 63] by (simp add: f64_sign_def split: if_splits)
  with split assms show ?thesis
    by (auto simp: f64_signbit_def f64_magnitude_def f64_sign_def)
qed

lemma number_reread [simp]: "json_number td (reread (encoded_number x)) path = Inr (canonical_number x)"
proof -
  have zero: "f64_isfinite 0" "f64_equal 0 0"
    by (simp_all add: f64_isfinite_def f64_equal_def f64_magnitude_def f64_infinity_def)
  show ?thesis
    using infinity_signed [of x] zero
    by (auto simp: encoded_number_def json_number_def canonical_number_def f64_isnan_def f64_isfinite_def)
qed

lemma nonnegative_word:
  assumes "\<not> (i :: 64 word) <s 0"
  shows "i \<le> 0x7FFFFFFFFFFFFFFF"
proof -
  from assms have nb: "\<not> bit i 63"
    by (simp add: word_sless_alt sint_uint signed_take_bit_nonnegative_iff bit_uint_iff)
  have "i = take_bit 63 i"
  proof (rule bit_word_eqI)
    fix n assume "n < LENGTH(64)"
    then have "n < 63 \<or> n = 63" by auto
    with nb show "bit i n = bit (take_bit 63 i) n" by (auto simp: bit_simps)
  qed
  also have "\<dots> \<le> mask 63"
    by (simp add: take_bit_eq_mask word_and_le1)
  finally show ?thesis
    by (simp add: mask_eq_exp_minus_1)
qed

lemma large_word_negative: "0x7FFFFFFFFFFFFFFF < (i :: 64 word) \<Longrightarrow> i <s 0"
  by (metis not_le nonnegative_word)

lemma property_member_reread:
  "required_member (JsonObject (map (map_prod id reread) (append_property_value v [(''property'', b)]))) ''property'' path
   = Inr (reread b)"
  by (cases v) simp_all

lemma value_reread:
  "parse_property_value td
     (JsonObject ((''op'', a) # map (map_prod id reread) (append_property_value v [(''property'', b)]))) path
   = Inr (canonical_value v)"
  by (cases v) (auto simp: parse_property_value_def json_string_def parse_typed_value_def parse_rect_def
      dest: large_word_negative)

lemma op_of_name [simp]: "map_of op_names (op_name op) = Some op"
  by (cases op) (simp_all add: op_names_def)

declare op_name.simps [simp del]

text \<open>
  The budget is counted in visiting order, so it is exceeded somewhere exactly when the whole
  expression is too large for what is left of it.
\<close>

definition over_budget :: error where
  "over_budget = invalid_locator ''locator exceeds the default complexity budget''"

lemma budget_left:
  assumes "k \<le> 8192"
  shows "default_max_nodes \<le> (of_nat k :: u64) \<longleftrightarrow> k = 8192"
proof -
  have "unat (of_nat k :: u64) = k"
    using assms by (simp add: unat_of_nat)
  then show ?thesis
    using assms by (simp add: default_max_nodes_def word_le_nat_alt)
qed

lemma children_reread:
  assumes "\<forall>c\<in>set cs. \<forall>k\<le>8192. parse_expression td (reread (f c)) (of_nat k) =
      (if k + plan_size c \<le> 8192 then Inr (canonical_plan c, of_nat (k + plan_size c)) else Inl over_budget)"
    and "k \<le> 8192"
  shows "parse_children td (map (\<lambda>c. reread (f c)) cs) (of_nat k) =
      (if k + sum_list (map plan_size cs) \<le> 8192
       then Inr (map canonical_plan cs, of_nat (k + sum_list (map plan_size cs))) else Inl over_budget)"
  using assms
proof (induction cs arbitrary: k)
  case Nil
  then show ?case by simp
next
  case (Cons c cs)
  show ?case
  proof (cases "k + plan_size c \<le> 8192")
    case True
    with Cons.IH [of "k + plan_size c"] Cons.prems show ?thesis
      by (simp add: add.assoc)
  next
    case False
    with Cons.prems show ?thesis by simp
  qed
qed

lemma start_over_budget: "expression_start td object 8192 = Inl over_budget"
  by (simp add: expression_start_def default_max_nodes_def over_budget_def)

lemma start_op:
  "k < 8192 \<Longrightarrow> expression_start td (JsonObject ((''op'', JsonString (op_name op)) # ms)) (of_nat k) =
     expression_head td (JsonObject ((''op'', JsonString (op_name op)) # ms)) op"
  by (simp add: expression_start_def budget_left json_string_def)

lemma parse_op:
  fixes op :: locator_op and ms :: "(string \<times> json) list"
  assumes "k < 8192"
  defines "object \<equiv> JsonObject ((''op'', JsonString (op_name op)) # ms)"
  shows "parse_expression td (object) (of_nat k) =
     (case expression_head td (object) op of
        Inl e \<Rightarrow> Inl e
      | Inr (Leaf plan) \<Rightarrow> Inr (plan, of_nat (Suc k))
      | Inr (Nary op js) \<Rightarrow>
          (case parse_children td js (of_nat (Suc k)) of Inl e \<Rightarrow> Inl e
           | Inr (children, m) \<Rightarrow> Inr (operator_plan op children, m))
      | Inr (Unary op) \<Rightarrow> parse_unary td (object) op (of_nat (Suc k))
      | Inr (Relation op) \<Rightarrow> parse_relation td (object) op (of_nat (Suc k)))"
  by (subst parse_expression.simps) (simp only: object_def start_op [OF assms(1)] of_nat_Suc add.commute)

lemma arity_cases:
  "plan_arity op = None \<Longrightarrow> op = OpAll \<or> op = OpAny"
  "plan_arity op = Some 1 \<Longrightarrow> op \<in> {OpNot, OpChildOf, OpDescendantOf, OpAncestorOf, OpRelated, OpRelatedReverse}"
  "plan_arity op = Some 0 \<Longrightarrow> op \<in> {OpMatchAll, OpMatchNone, OpRole, OpState, OpProperty, OpAccessibleName, OpText}"
  by (cases op; simp)+

lemma leaf_reread:
  assumes "plan_ok (LocatorPlan op r s p v t q [])" and "plan_arity op = Some 0" and "k < 8192"
  shows "parse_expression td (reread (the (expression_json (LocatorPlan op r s p v t q [])))) (of_nat k) =
      Inr (canonical_plan (LocatorPlan op r s p v t q []), of_nat (Suc k))"
  using assms arity_cases(3) [OF assms(2)]
  by (auto simp: parse_op expression_members_def expression_head_def json_string_def make_plan_def
      value_reread property_member_reread add.commute simp del: append_property_value.simps)

lemma expression_reread:
  assumes "plan_ok p" and "k \<le> 8192"
  shows "parse_expression td (reread (the (expression_json p))) (of_nat k) =
      (if k + plan_size p \<le> 8192 then Inr (canonical_plan p, of_nat (k + plan_size p)) else Inl over_budget)"
  using assms
proof (induction p arbitrary: k rule: plan_ok.induct)
  case (1 op r s p v t q children)
  show ?case
  proof (cases "k = 8192")
    case True
    then show ?thesis
      by (simp add: parse_expression.simps start_over_budget)
  next
    case False
    with "1.prems" have k: "k < 8192" by simp
    have children: "\<forall>c\<in>set children. plan_ok c"
      using "1.prems" by simp
    then have those: "those (map expression_json children) = Some (map (\<lambda>c. the (expression_json c)) children)"
      by (intro those_Some) (auto dest: plan_ok_json)
    have IH: "\<forall>c\<in>set children. \<forall>k\<le>8192. parse_expression td (reread (the (expression_json c))) (of_nat k) =
      (if k + plan_size c \<le> 8192 then Inr (canonical_plan c, of_nat (k + plan_size c)) else Inl over_budget)"
      using "1.IH" children by blast
    consider "plan_arity op = None" | "plan_arity op = Some 0" "children = []"
      | c where "plan_arity op = Some 1" "children = [c]"
      using "1.prems"(1) by (cases op; cases children) auto
    then show ?thesis
    proof cases
      case 1
      with \<open>plan_ok (LocatorPlan op r s p v t q children)\<close>
      show ?thesis
        using arity_cases(1) [OF 1] children_reread [OF IH, of "Suc k"] k
        by (auto simp: parse_op expression_members_def expression_head_def those operator_plan_def comp_def)
    next
      case 2
      with leaf_reread k "1.prems"(1) show ?thesis by simp
    next
      case (3 c)
      with \<open>plan_ok (LocatorPlan op r s p v t q children)\<close> children plan_ok_json [of c]
      show ?thesis
        using arity_cases(2) [OF 3(1)] IH [rule_format, of c "Suc k"] k
        by (auto simp: parse_op parse_unary.simps parse_relation.simps expression_members_def
            expression_head_def operator_plan_def set_relation_def)
    qed
  qed
qed

text \<open>
  C18. Every locator the public interface can produce, by a builder or by parsing, has a well-formed plan: each operator
  has exactly the children and only the fields it reads. So writing it as JSON is always defined, and the
  text it is compared and hashed by is what the JSON library prints for that document.\<close>

theorem built_locators_well_formed:
  assumes "built_locator l"
  shows "plan_ok (lc_plan l) \<and> (\<exists>j. locator_json l = Some j \<and> locator_to_string dump l = dump j)"
  using built_plan_ok [OF assms] plan_ok_json [of "lc_plan l"]
  by (auto simp: locator_json_def locator_to_string_def)

theorem built_locators_well_formed_witness:
  "plan_ok (lc_plan (and_locator (sel_not (sel_role 15)) (sel_all [sel_text ''ok'', sel_state 4])))"
proof -
  have "built_locator (and_locator (sel_not (sel_role 15)) (sel_all [sel_text ''ok'', sel_state 4]))"
    by (intro built_locator.intros) (auto intro: built_locator.intros)
  from built_locators_well_formed [OF this] show ?thesis by simp
qed

lemma unat_le_max: "unat (c :: u64) \<le> 2 ^ 64 - 1"
  using unsigned_less [of c, where ?'a = nat] by simp

lemma unat_max [simp]: "unat (- 1 :: u64) = 2 ^ 64 - 1"
  by (simp add: unsigned_minus_1_eq_mask mask_eq_exp_minus_1)

lemma unat_room: "unat (- 1 - c :: u64) = 2 ^ 64 - 1 - unat c"
  by (subst unat_sub_if') (use unat_le_max [of c] in simp)

lemma count_saturates:
  "unat (count_plan_nodes p) = min (2 ^ 64 - 1) (plan_size p)"
  "unat (count_children c cs) = min (2 ^ 64 - 1) (unat c + sum_list (map plan_size cs))"
proof (induction p and c cs rule: count_plan_nodes_count_children.induct)
  case (2 c)
  then show ?case using unat_le_max [of c] by simp
next
  case (3 c child cs)
  show ?case
  proof (cases "- 1 - c < count_plan_nodes child")
    case True
    then have "2 ^ 64 - 1 - unat c < unat (count_plan_nodes child)"
      by (simp only: word_less_nat_alt unat_room)
    then have "2 ^ 64 - 1 \<le> unat c + plan_size child"
      using "3.IH"(1) unat_le_max [of c] by linarith
    with True show ?thesis by (simp add: Let_def)
  next
    case False
    then have le: "unat (count_plan_nodes child) \<le> 2 ^ 64 - 1 - unat c"
      by (simp only: word_less_nat_alt unat_room not_less)
    then have "unat c + unat (count_plan_nodes child) < 2 ^ 64"
      using unat_le_max [of c] by simp
    then have "unat (c + count_plan_nodes child) = unat c + unat (count_plan_nodes child)"
      by (subst unat_add_lem [symmetric]) simp
    with "3.IH"(2) [OF refl] False le "3.IH"(1) show ?thesis
      by (simp add: Let_def min_def split: if_splits)
  qed
qed simp

lemma within_budget: "plan_node_count l \<le> default_max_nodes \<longleftrightarrow> plan_size (lc_plan l) \<le> 8192"
  by (simp add: plan_node_count_def word_le_nat_alt count_saturates default_max_nodes_def min_le_iff_disj)

lemma boundary_reread [simp]: "parse_boundary (JsonString (boundary_name b)) = Inr b"
  by (cases b) (simp_all add: parse_boundary_def json_string_def)

lemma consistency_reread [simp]: "parse_consistency (JsonString (consistency_name c)) = Inr c"
  by (cases c) (simp_all add: parse_consistency_def json_string_def)

lemma version_reread [simp]: "unsigned_32 (JsonUnsigned locator_version) path = Inr 1"
  by (simp add: unsigned_32_def locator_version_def)

lemma reread_locator:
  assumes "built_locator l" and "locator_json l = Some j" and "dump j = Some t" and "parse t = Inr (reread j)"
  shows "locator_to_string dump l = Some t \<and>
    locator_from_string parse to_double t =
      (if plan_node_count l \<le> default_max_nodes then Inr (canonical_locator l)
       else Inl (invalid_locator ''locator exceeds the default complexity budget''))"
proof -
  note ok = built_plan_ok [OF assms(1)]
  define e where "e = the (expression_json (lc_plan l))"
  with assms(2) have j: "j = JsonObject [(''boundary'', JsonString (boundary_name (lc_boundary l))),
      (''consistency'', JsonString (consistency_name (lc_consistency l))), (''expr'', e),
      (''version'', JsonUnsigned locator_version)]"
    by (auto simp: locator_json_def)
  have "parse_expression to_double (reread e) 0 =
      (if plan_size (lc_plan l) \<le> 8192
       then Inr (canonical_plan (lc_plan l), of_nat (plan_size (lc_plan l))) else Inl over_budget)"
    using expression_reread [OF ok, of 0 to_double] by (simp add: e_def)
  with assms(3,4) j show ?thesis
    by (auto simp: locator_to_string_def assms(2) locator_from_string_def within_budget over_budget_def
        canonical_locator_def make_locator_def locator_version_def [symmetric])
qed

text \<open>
  C17. Writing a locator and reading the text back: whatever JSON library prints a document so that
  parsing the text gives the document again, the locator comes back the same, with every NaN in its property values as the quiet NaN
  and every zero as positive zero, exactly when its plan has at most 8192 nodes; a larger one is
  rejected with the parser's budget error.\<close>

theorem locator_roundtrip:
  assumes "built_locator l" and "locator_json l = Some j" and "dump j = Some t" and "parse t = Inr (reread j)"
  shows "locator_to_string dump l = Some t \<and>
    locator_from_string parse to_double t =
      (if plan_node_count l \<le> default_max_nodes then Inr (canonical_locator l)
       else Inl (invalid_locator ''locator exceeds the default complexity budget''))"
  using assms by (rule reread_locator)

theorem locator_roundtrip_witness:
  defines "l \<equiv> sel_property 7 (DoubleValue 0x8000000000000000)"
    and "j \<equiv> JsonObject [(''boundary'', JsonString ''same_tree''), (''consistency'', JsonString ''live''),
           (''expr'', JsonObject [(''op'', JsonString ''property''), (''property'', JsonUnsigned 7),
              (''type'', JsonString ''number''), (''value'', JsonFloat 0)]),
           (''version'', JsonUnsigned 1)]"
  shows "locator_json l = Some j \<and>
    locator_from_string (\<lambda>_. Inr (reread j)) (\<lambda>_. 0) ''doc'' = Inr (sel_property 7 (DoubleValue 0))"
proof -
  have j: "locator_json l = Some j"
    unfolding l_def j_def by code_simp
  have "locator_to_string (\<lambda>_. Some ''doc'') l = Some ''doc'' \<and>
    locator_from_string (\<lambda>_. Inr (reread j)) (\<lambda>_. 0) ''doc'' =
      (if plan_node_count l \<le> default_max_nodes then Inr (canonical_locator l)
       else Inl (invalid_locator ''locator exceeds the default complexity budget''))"
    by (rule locator_roundtrip [OF _ j]) (auto simp: l_def intro: built_locator.intros)
  moreover have "plan_node_count l \<le> default_max_nodes"
    unfolding l_def by code_simp
  moreover have "canonical_locator l = sel_property 7 (DoubleValue 0)"
    unfolding l_def by code_simp
  ultimately show ?thesis using j by simp
qed

end
