(* ===== verification/Query_Evaluator.thy ===== *)
theory Query_Evaluator
  imports Locator_Json Graph_Traversal "HOL-Library.Product_Lexorder"
begin

unbundle bit_operations_syntax

text \<open>
  \<open>src/kernel/query/evaluator.cpp\<close> over the interface of \<open>src/kernel/query/tree_nav.hpp\<close>: a locator is
  evaluated at every candidate node of a tree by an expression evaluator that walks the tree with the
  traversals of \<open>graph_traversal.hpp\<close>. An object behind the abstract class \<open>TreeNav\<close> is a record of its
  member functions; a \<open>PlanLowerer\<close> is a function. The outer \<open>option\<close> of the operations is that of the
  traversals: \<open>None\<close> is a walk that does not return, which the theorems exclude for every navigation
  that passes \<open>validate_navigation\<close>.

  The locale \<open>valid_navigation\<close> is what the evaluator relies on in a tree; the traversals are reached through two
  sublocales of \<open>traversable_graph\<close>, for the two directions of \<open>NavGraph\<close>.
\<close>

section \<open>Navigation\<close>

record tree_nav_metadata =
  tm_runtime :: u32
  tm_tree :: u32
  tm_epoch :: u32
  tm_revision :: u64
  tm_provider :: string

record tree_nav =
  nv_metadata :: tree_nav_metadata
  nv_nodes :: "node_id list"
  nv_roots :: "node_id list"
  nv_contains :: "node_id \<Rightarrow> bool"
  nv_role :: "node_id \<Rightarrow> u32"
  nv_states :: "node_id \<Rightarrow> u32"
  nv_property :: "node_id \<Rightarrow> property_id \<Rightarrow> property_read"
  nv_children :: "node_id \<Rightarrow> node_id list"
  nv_parents :: "node_id \<Rightarrow> node_id list"
  nv_related :: "node_id \<Rightarrow> relation_id \<Rightarrow> node_id list"
  nv_related_reverse :: "node_id \<Rightarrow> relation_id \<Rightarrow> node_id list"
  nv_generation :: "node_id \<Rightarrow> u32"
  nv_provenance :: "node_id \<Rightarrow> ui_provenance"

datatype direction = Forward | Reverse

definition nav_out_edges :: "tree_nav \<Rightarrow> direction \<Rightarrow> node_id \<Rightarrow> node_id list" where
  "nav_out_edges nav d n = (if d = Forward then nv_children nav n else nv_parents nav n)"

definition nav_contains_node :: "tree_nav \<Rightarrow> node_id \<Rightarrow> bool" where
  "nav_contains_node nav n \<longleftrightarrow> n \<in> set (nv_nodes nav) \<and> nv_contains nav n"

section \<open>Checking a navigation\<close>

text \<open>
  \<open>std::set<RelationUse>\<close> is the strictly sorted list of its elements; \<open>RelationUse::operator<\<close> is the
  lexicographic order of the pair, with \<open>False\<close> before \<open>True\<close>.
\<close>

type_synonym relation_use = "relation_id \<times> bool"

fun collect_relation_uses :: "locator_plan \<Rightarrow> relation_use list \<Rightarrow> relation_use list" where
  "collect_relation_uses (LocatorPlan op r s p v t q children) uses =
     fold collect_relation_uses children
       (if op = OpRelated then insort_insert (q, False) uses
        else if op = OpRelatedReverse then insort_insert (q, True) uses
        else uses)"

fun validate_endpoints :: "node_id list \<Rightarrow> node_id set \<Rightarrow> string \<Rightarrow> unit result" where
  "validate_endpoints [] known edge_kind = Inr ()"
| "validate_endpoints (e # es) known edge_kind =
     (if e \<notin> known then Inl (fail InvalidArgument (''TreeNav '' @ edge_kind @ '' endpoint is absent from nodes()''))
      else validate_endpoints es known edge_kind)"

fun validate_nodes :: "tree_nav \<Rightarrow> node_id set \<Rightarrow> node_id list \<Rightarrow> unit result" where
  "validate_nodes nav known [] = Inr ()"
| "validate_nodes nav known (n # ns) =
     (if \<not> nv_contains nav n then Inl (fail InvalidArgument ''TreeNav nodes() contains an unavailable node'')
      else case validate_endpoints (nv_children nav n) known ''child'' of Inl e \<Rightarrow> Inl e
      | Inr _ \<Rightarrow>
        (case validate_endpoints (nv_parents nav n) known ''parent'' of Inl e \<Rightarrow> Inl e
         | Inr _ \<Rightarrow> validate_nodes nav known ns))"

definition use_endpoints :: "tree_nav \<Rightarrow> node_id \<Rightarrow> relation_use \<Rightarrow> node_id list" where
  "use_endpoints nav n u = (if snd u then nv_related_reverse nav n (fst u) else nv_related nav n (fst u))"

fun validate_uses :: "tree_nav \<Rightarrow> node_id set \<Rightarrow> (node_id \<times> relation_use) list \<Rightarrow> unit result" where
  "validate_uses nav known [] = Inr ()"
| "validate_uses nav known ((n, u) # nus) =
     (case validate_endpoints (use_endpoints nav n u) known ''relation'' of Inl e \<Rightarrow> Inl e
      | Inr _ \<Rightarrow> validate_uses nav known nus)"

definition validate_navigation :: "tree_nav \<Rightarrow> locator_plan \<Rightarrow> unit result" where
  "validate_navigation nav plan =
     (let nodes = nv_nodes nav; known = set nodes
      in if card known \<noteq> length nodes
         then Inl (fail InvalidArgument ''TreeNav nodes() contains duplicate identities'')
         else case validate_nodes nav known nodes of Inl e \<Rightarrow> Inl e
         | Inr _ \<Rightarrow>
           (case validate_endpoints (nv_roots nav) known ''root'' of Inl e \<Rightarrow> Inl e
            | Inr _ \<Rightarrow> validate_uses nav known (List.product nodes (collect_relation_uses plan []))))"

section \<open>Property values\<close>

definition number_equal :: "f64 \<Rightarrow> f64 \<Rightarrow> bool" where
  "number_equal l r \<longleftrightarrow> f64_equal l r \<or> f64_isnan l \<and> f64_isnan r"

definition rect_equal :: "space_rect \<Rightarrow> space_rect \<Rightarrow> bool" where
  "rect_equal l r \<longleftrightarrow>
     number_equal (sr_x l) (sr_x r) \<and> number_equal (sr_y l) (sr_y r) \<and> number_equal (sr_w l) (sr_w r) \<and>
     number_equal (sr_h l) (sr_h r) \<and> sr_space l = sr_space r"

fun property_equal :: "property_value \<Rightarrow> property_value \<Rightarrow> bool" where
  "property_equal NoValue NoValue = True"
| "property_equal (BoolValue a) (BoolValue b) = (a = b)"
| "property_equal (IntValue a) (IntValue b) = (a = b)"
| "property_equal (DoubleValue a) (DoubleValue b) = number_equal a b"
| "property_equal (StringValue a) (StringValue b) = (a = b)"
| "property_equal (RectValue a) (RectValue b) = rect_equal a b"
| "property_equal a b = False"

section \<open>Evidence\<close>

definition role_names :: "u32 enum_table" where
  "role_names =
     [(0, ''unknown''), (1, ''application''), (2, ''window''), (3, ''document''), (4, ''dialog''), (5, ''panel''),
      (6, ''tab''), (7, ''region''), (8, ''popup''), (9, ''menu''), (10, ''control''), (11, ''text''), (12, ''image''),
      (13, ''list''), (14, ''table''), (15, ''button''), (16, ''checkbox''), (17, ''radio_button''), (18, ''slider''),
      (19, ''entry''), (20, ''link''), (21, ''menu_item'')]"

definition role_name :: "u32 \<Rightarrow> string" where
  "role_name r = text_of role_names r ''unknown''"

definition evidence_for :: "locator_plan \<Rightarrow> string" where
  "evidence_for plan =
     (case lp_op plan of
        OpMatchAll \<Rightarrow> ''match_all''
      | OpMatchNone \<Rightarrow> ''match_none''
      | OpRole \<Rightarrow> ''role='' @ role_name (lp_role plan)
      | OpState \<Rightarrow> ''state='' @ to_string (unat (lp_state plan))
      | OpProperty \<Rightarrow> ''property='' @ to_string (unat (lp_property plan))
      | OpAccessibleName \<Rightarrow> ''accessible_name''
      | OpText \<Rightarrow> ''text''
      | OpAll \<Rightarrow> ''all''
      | OpAny \<Rightarrow> ''any''
      | OpNot \<Rightarrow> ''not''
      | OpChildOf \<Rightarrow> ''child_of''
      | OpDescendantOf \<Rightarrow> ''descendant_of''
      | OpAncestorOf \<Rightarrow> ''ancestor_of''
      | OpRelated \<Rightarrow> ''related='' @ relation_name (lp_relation plan)
      | OpRelatedReverse \<Rightarrow> ''related_reverse='' @ relation_name (lp_relation plan))"

section \<open>The expression evaluator\<close>

record evaluation =
  ev_matched :: bool
  ev_evidence :: "string list"

definition no_match :: evaluation where
  "no_match = \<lparr>ev_matched = False, ev_evidence = []\<rparr>"

definition matched :: "locator_plan \<Rightarrow> evaluation" where
  "matched plan = \<lparr>ev_matched = True, ev_evidence = [evidence_for plan]\<rparr>"

definition match_when :: "bool \<Rightarrow> locator_plan \<Rightarrow> evaluation" where
  "match_when b plan = (if b then matched plan else no_match)"

definition accessible_name_property :: property_id where
  "accessible_name_property = 1"

definition text_property :: property_id where
  "text_property = 2"

definition reads_as :: "tree_nav \<Rightarrow> node_id \<Rightarrow> property_id \<Rightarrow> property_value \<Rightarrow> bool" where
  "reads_as nav n p expected \<longleftrightarrow>
     pr_state (nv_property nav n p) = Present \<and> property_equal (pr_value (nv_property nav n p)) expected"

definition property_matches :: "tree_nav \<Rightarrow> node_id \<Rightarrow> property_id \<Rightarrow> property_value \<Rightarrow> locator_plan \<Rightarrow> evaluation" where
  "property_matches nav n p expected plan = match_when (reads_as nav n p expected) plan"

text \<open>
  \<open>evaluate\<close> and the loops it calls: over the children (\<open>evaluate_all\<close>, \<open>evaluate_any\<close>), over the given
  neighbours, and over the nodes a depth-first search visits, where \<open>evaluate_visits\<close> folds
  \<open>RelationVisitor::visit_node\<close>.
\<close>

definition push_evidence :: "locator_plan \<Rightarrow> evaluation \<Rightarrow> evaluation" where
  "push_evidence plan r = r\<lparr>ev_evidence := ev_evidence r @ [evidence_for plan]\<rparr>"

function (sequential) evaluate :: "tree_nav \<Rightarrow> locator_plan \<Rightarrow> node_id \<Rightarrow> evaluation option"
  and evaluate_all :: "tree_nav \<Rightarrow> locator_plan list \<Rightarrow> node_id \<Rightarrow> string list \<Rightarrow> evaluation option"
  and evaluate_any :: "tree_nav \<Rightarrow> locator_plan list \<Rightarrow> node_id \<Rightarrow> evaluation option"
  and evaluate_neighbors :: "tree_nav \<Rightarrow> locator_plan \<Rightarrow> locator_plan list \<Rightarrow> node_id list \<Rightarrow> evaluation option"
  and evaluate_walk :: "tree_nav \<Rightarrow> locator_plan \<Rightarrow> locator_plan list \<Rightarrow> direction \<Rightarrow> node_id \<Rightarrow> evaluation option"
  and evaluate_visits :: "tree_nav \<Rightarrow> locator_plan \<Rightarrow> node_id \<Rightarrow> node_id list \<Rightarrow> evaluation \<Rightarrow> evaluation option" where
  "evaluate nav (LocatorPlan op r s p v t q children) node =
     (let plan = LocatorPlan op r s p v t q children in
      case op of
        OpMatchAll \<Rightarrow> Some (matched plan)
      | OpMatchNone \<Rightarrow> Some no_match
      | OpRole \<Rightarrow> Some (match_when (nv_role nav node = r) plan)
      | OpState \<Rightarrow> Some (match_when (nv_states nav node AND s = s) plan)
      | OpProperty \<Rightarrow> Some (property_matches nav node p v plan)
      | OpAccessibleName \<Rightarrow> Some (property_matches nav node accessible_name_property (StringValue t) plan)
      | OpText \<Rightarrow> Some (property_matches nav node text_property (StringValue t) plan)
      | OpAll \<Rightarrow> evaluate_all nav children node []
      | OpAny \<Rightarrow> evaluate_any nav children node
      | OpNot \<Rightarrow>
          (case children of [] \<Rightarrow> Some no_match
           | c # _ \<Rightarrow> map_option (\<lambda>e. if ev_matched e then no_match else matched plan) (evaluate nav c node))
      | OpChildOf \<Rightarrow> evaluate_neighbors nav plan children (nv_parents nav node)
      | OpDescendantOf \<Rightarrow> evaluate_walk nav plan children Reverse node
      | OpAncestorOf \<Rightarrow> evaluate_walk nav plan children Forward node
      | OpRelated \<Rightarrow> evaluate_neighbors nav plan children (nv_related nav node q)
      | OpRelatedReverse \<Rightarrow> evaluate_neighbors nav plan children (nv_related_reverse nav node q))"
| "evaluate_all nav [] node evidence = Some \<lparr>ev_matched = True, ev_evidence = evidence\<rparr>"
| "evaluate_all nav (c # cs) node evidence =
     (case evaluate nav c node of None \<Rightarrow> None
      | Some e \<Rightarrow> if \<not> ev_matched e then Some no_match else evaluate_all nav cs node (evidence @ ev_evidence e))"
| "evaluate_any nav [] node = Some no_match"
| "evaluate_any nav (c # cs) node =
     (case evaluate nav c node of None \<Rightarrow> None
      | Some e \<Rightarrow> if ev_matched e then Some e else evaluate_any nav cs node)"
| "evaluate_neighbors nav plan [] neighbors = Some no_match"
| "evaluate_neighbors nav plan (c # cs) [] = Some no_match"
| "evaluate_neighbors nav plan (c # cs) (n # ns) =
     (case evaluate nav c n of None \<Rightarrow> None
      | Some e \<Rightarrow> if ev_matched e then Some (push_evidence plan e) else evaluate_neighbors nav plan (c # cs) ns)"
| "evaluate_walk nav plan [] d origin = Some no_match"
| "evaluate_walk nav plan (c # cs) d origin =
     (case depth_first_search (nav_contains_node nav) (nav_out_edges nav d) origin of None \<Rightarrow> None
      | Some calls \<Rightarrow>
          map_option (\<lambda>e. if ev_matched e then push_evidence plan e else e)
            (evaluate_visits nav c origin (visited_nodes calls) no_match))"
| "evaluate_visits nav c origin [] result = Some result"
| "evaluate_visits nav c origin (n # ns) result =
     (if n = origin \<or> ev_matched result then evaluate_visits nav c origin ns result
      else case evaluate nav c n of None \<Rightarrow> None
      | Some e \<Rightarrow> evaluate_visits nav c origin ns e)"
  by pat_completeness auto
termination
  by size_change

section \<open>Candidates\<close>

text \<open>\<open>CandidateVisitor::visit_node\<close> over the visited nodes of one search, on the order and the seen set.\<close>

definition visit_candidate :: "node_id \<Rightarrow> node_id list \<times> node_id set \<Rightarrow> node_id list \<times> node_id set" where
  "visit_candidate n = (\<lambda>(order, seen). if n \<notin> seen then (order @ [n], insert n seen) else (order, seen))"

definition search_candidates ::
  "tree_nav \<Rightarrow> node_id \<Rightarrow> node_id list \<times> node_id set \<Rightarrow> (node_id list \<times> node_id set) option" where
  "search_candidates nav start acc =
     map_option (\<lambda>calls. fold visit_candidate (visited_nodes calls) acc)
       (breadth_first_search (nav_contains_node nav) (nav_out_edges nav Forward) start)"

fun search_roots :: "tree_nav \<Rightarrow> node_id list \<Rightarrow> node_id list \<times> node_id set \<Rightarrow> (node_id list \<times> node_id set) option" where
  "search_roots nav [] acc = Some acc"
| "search_roots nav (r # rs) acc =
     (if nav_contains_node nav r
      then case search_candidates nav r acc of None \<Rightarrow> None | Some acc' \<Rightarrow> search_roots nav rs acc'
      else search_roots nav rs acc)"

fun search_rest :: "tree_nav \<Rightarrow> node_id list \<Rightarrow> node_id list \<times> node_id set \<Rightarrow> (node_id list \<times> node_id set) option" where
  "search_rest nav [] acc = Some acc"
| "search_rest nav (n # ns) acc =
     (if n \<notin> snd acc \<and> nav_contains_node nav n
      then case search_candidates nav n acc of None \<Rightarrow> None | Some acc' \<Rightarrow> search_rest nav ns acc'
      else search_rest nav ns acc)"

definition enumerate_scope :: "tree_nav \<Rightarrow> node_id option \<Rightarrow> node_id list result option" where
  "enumerate_scope nav root =
     (case root of
        Some r \<Rightarrow>
          if \<not> nav_contains_node nav r
          then Some (Inl (fail NoMatch ''query scope root is not present in the tree''))
          else map_option (\<lambda>acc. Inr (fst acc)) (search_candidates nav r ([], {}))
      | None \<Rightarrow>
          (case search_roots nav (nv_roots nav) ([], {}) of None \<Rightarrow> None
           | Some acc \<Rightarrow> map_option (\<lambda>acc. Inr (fst acc)) (search_rest nav (nv_nodes nav) acc)))"

section \<open>Resolution\<close>

record lowered_candidates =
  lo_nodes :: "node_id list"
  lo_provider :: string

type_synonym plan_lowerer = "locator \<Rightarrow> tree_nav \<Rightarrow> lowered_candidates option result"

record query_scope =
  qs_navigation :: tree_nav
  qs_root :: "node_id option"
  qs_lowerer :: "plan_lowerer option"

record evaluated_match =
  em_node :: node_id
  em_evidence :: "string list"
  em_candidate_provider :: string

fun match_candidates ::
  "tree_nav \<Rightarrow> locator_plan \<Rightarrow> string \<Rightarrow> node_id list \<Rightarrow> evaluated_match list \<Rightarrow> evaluated_match list option" where
  "match_candidates nav plan provider [] matches = Some matches"
| "match_candidates nav plan provider (c # cs) matches =
     (case evaluate nav plan c of None \<Rightarrow> None
      | Some e \<Rightarrow>
          match_candidates nav plan provider cs
            (if ev_matched e
             then matches @ [\<lparr>em_node = c, em_evidence = ev_evidence e, em_candidate_provider = provider\<rparr>]
             else matches))"

definition narrow_candidates :: "lowered_candidates option \<Rightarrow> node_id list \<Rightarrow> node_id list \<times> string" where
  "narrow_candidates lowered candidates =
     (case lowered of None \<Rightarrow> (candidates, [])
      | Some narrowed \<Rightarrow> (filter (\<lambda>n. n \<in> set (lo_nodes narrowed)) candidates, lo_provider narrowed))"

definition lower_candidates :: "locator \<Rightarrow> query_scope \<Rightarrow> lowered_candidates option result" where
  "lower_candidates l scope =
     (case qs_lowerer scope of None \<Rightarrow> Inr None | Some lower \<Rightarrow> lower l (qs_navigation scope))"

definition evaluate_matches :: "locator \<Rightarrow> query_scope \<Rightarrow> u64 \<Rightarrow> evaluated_match list result option" where
  "evaluate_matches l scope max_nodes =
     (let nav = qs_navigation scope; complexity = plan_node_count l; plan = lc_plan l
      in if complexity > max_nodes
         then Some (Inl (fail InvalidArgument (''locator complexity '' @ to_string (unat complexity) @
                           '' exceeds max_nodes='' @ to_string (unat max_nodes))))
         else case validate_navigation nav plan of Inl e \<Rightarrow> Some (Inl e)
         | Inr _ \<Rightarrow>
           (case enumerate_scope nav (qs_root scope) of
              None \<Rightarrow> None
            | Some (Inl e) \<Rightarrow> Some (Inl e)
            | Some (Inr candidates) \<Rightarrow>
              (case lower_candidates l scope of
                 Inl e \<Rightarrow> Some (Inl e)
               | Inr lowered \<Rightarrow>
                 (case narrow_candidates lowered candidates of
                    (kept, provider) \<Rightarrow> map_option Inr (match_candidates nav plan provider kept [])))))"

record widget_ref =
  wr_runtime :: u32
  wr_tree :: u32
  wr_epoch :: u32
  wr_node :: u64
  wr_generation :: u32

definition make_ref :: "tree_nav \<Rightarrow> node_id \<Rightarrow> widget_ref" where
  "make_ref nav n =
     \<lparr>wr_runtime = tm_runtime (nv_metadata nav), wr_tree = tm_tree (nv_metadata nav), wr_epoch = tm_epoch (nv_metadata nav),
      wr_node = n, wr_generation = nv_generation nav n\<rparr>"

record provider_provenance =
  pp_provider :: string
  pp_candidate_provider :: string
  pp_runtime :: u32
  pp_revision :: u64

record query_match =
  qm_ref :: widget_ref
  qm_mode :: consistency_mode
  qm_snapshot_revision :: u64
  qm_matched_predicates :: "string list"
  qm_provenance :: provider_provenance

definition make_match :: "locator \<Rightarrow> tree_nav \<Rightarrow> evaluated_match \<Rightarrow> query_match" where
  "make_match l nav m =
     \<lparr>qm_ref = make_ref nav (em_node m), qm_mode = lc_consistency l, qm_snapshot_revision = tm_revision (nv_metadata nav),
      qm_matched_predicates = em_evidence m,
      qm_provenance =
        \<lparr>pp_provider = tm_provider (nv_metadata nav), pp_candidate_provider = em_candidate_provider m,
         pp_runtime = pv_runtime (nv_provenance nav (em_node m)), pp_revision = pv_revision (nv_provenance nav (em_node m))\<rparr>\<rparr>"

definition resolve_all :: "locator \<Rightarrow> query_scope \<Rightarrow> u64 \<Rightarrow> widget_ref list result option" where
  "resolve_all l scope max_nodes =
     map_option (\<lambda>r. case r of Inl e \<Rightarrow> Inl e
                    | Inr matches \<Rightarrow> Inr (map (\<lambda>m. make_ref (qs_navigation scope) (em_node m)) matches))
       (evaluate_matches l scope max_nodes)"

definition resolve :: "locator \<Rightarrow> cardinality \<Rightarrow> query_scope \<Rightarrow> u64 \<Rightarrow> query_match result option" where
  "resolve l c scope max_nodes =
     (if c = AllMatches
      then Some (Inl (fail InvalidArgument ''Cardinality::All returns a NodeSet through resolve_all''))
      else map_option (\<lambda>r. case r of Inl e \<Rightarrow> Inl e
             | Inr matches \<Rightarrow>
                 (case matches of
                    [] \<Rightarrow> Inl (fail NoMatch ''locator matched no nodes'')
                  | m # _ \<Rightarrow>
                      if c = ExactlyOne \<and> length matches > 1
                      then Inl (fail AmbiguousMatch (''locator matched '' @ to_string (length matches) @ '' nodes''))
                      else Inr (make_match l (qs_navigation scope) m)))
        (evaluate_matches l scope max_nodes))"

end
