(* ===== verification/Query_Semantics.thy ===== *)
theory Query_Semantics
  imports Query_Evaluator
begin

unbundle bit_operations_syntax

text \<open>
  What a locator means, and that the evaluator of \<open>Query_Evaluator\<close> computes it. \<open>holds\<close> is the meaning of a
  plan at a node, with reachability in place of the searches; \<open>scope_nodes\<close> is the set a query
  ranges over. Both are stated over the navigation alone.

  Shown, for every navigation that passes the evaluator's own check: evaluation returns and decides the
  meaning; a query returns exactly the matching nodes of its scope, each once; narrowing
  the candidates by a sound lowerer changes nothing; and each cardinality yields the match or the
  error it stands for.
\<close>

section \<open>The meaning of a plan\<close>

definition walks_to :: "tree_nav \<Rightarrow> direction \<Rightarrow> node_id \<Rightarrow> node_id \<Rightarrow> bool" where
  "walks_to nav d n m \<longleftrightarrow> m \<noteq> n \<and> (n, m) \<in> (step_rel (nav_out_edges nav d))\<^sup>*"

fun holds :: "tree_nav \<Rightarrow> locator_plan \<Rightarrow> node_id \<Rightarrow> bool" where
  "holds nav (LocatorPlan op r s p v t q children) n =
     (let child = (\<lambda>m. case children of [] \<Rightarrow> False | c # _ \<Rightarrow> holds nav c m)
      in case op of
        OpMatchAll \<Rightarrow> True
      | OpMatchNone \<Rightarrow> False
      | OpRole \<Rightarrow> nv_role nav n = r
      | OpState \<Rightarrow> nv_states nav n AND s = s
      | OpProperty \<Rightarrow> reads_as nav n p v
      | OpAccessibleName \<Rightarrow> reads_as nav n accessible_name_property (StringValue t)
      | OpText \<Rightarrow> reads_as nav n text_property (StringValue t)
      | OpAll \<Rightarrow> (\<forall>c\<in>set children. holds nav c n)
      | OpAny \<Rightarrow> (\<exists>c\<in>set children. holds nav c n)
      | OpNot \<Rightarrow> children \<noteq> [] \<and> \<not> child n
      | OpChildOf \<Rightarrow> (\<exists>m\<in>set (nv_parents nav n). child m)
      | OpDescendantOf \<Rightarrow> (\<exists>m. walks_to nav Reverse n m \<and> child m)
      | OpAncestorOf \<Rightarrow> (\<exists>m. walks_to nav Forward n m \<and> child m)
      | OpRelated \<Rightarrow> (\<exists>m\<in>set (nv_related nav n q). child m)
      | OpRelatedReverse \<Rightarrow> (\<exists>m\<in>set (nv_related_reverse nav n q). child m))"

definition scope_nodes :: "tree_nav \<Rightarrow> node_id option \<Rightarrow> node_id set" where
  "scope_nodes nav root =
     (case root of None \<Rightarrow> set (nv_nodes nav)
      | Some r \<Rightarrow> {n. (r, n) \<in> (step_rel (nav_out_edges nav Forward))\<^sup>*})"

section \<open>Navigations the evaluator accepts\<close>

fun plan_uses :: "locator_plan \<Rightarrow> relation_use set" where
  "plan_uses (LocatorPlan op r s p v t q children) =
     (\<Union>c\<in>set children. plan_uses c) \<union>
     (if op = OpRelated then {(q, False)} else if op = OpRelatedReverse then {(q, True)} else {})"

definition relations_known :: "tree_nav \<Rightarrow> locator_plan \<Rightarrow> bool" where
  "relations_known nav plan \<longleftrightarrow>
     (\<forall>u\<in>plan_uses plan. \<forall>n\<in>set (nv_nodes nav). set (use_endpoints nav n u) \<subseteq> set (nv_nodes nav))"

lemma set_collect_relation_uses: "set (collect_relation_uses plan uses) = plan_uses plan \<union> set uses"
proof (induction plan uses rule: collect_relation_uses.induct)
  case (1 op r s p v t q children uses)
  have "set (fold collect_relation_uses cs us) = (\<Union>c\<in>set cs. plan_uses c) \<union> set us"
    if "set cs \<subseteq> set children" for cs us
    using that 1 by (induction cs arbitrary: us) auto
  then show ?case by (auto simp: set_insort_insert)
qed

lemma validate_endpoints_ok [simp]: "validate_endpoints es known kind = Inr () \<longleftrightarrow> set es \<subseteq> known"
  by (induction es known kind rule: validate_endpoints.induct) auto

lemma case_unit_result [simp]: "(case r of Inl e \<Rightarrow> Inl e | Inr _ \<Rightarrow> k) = Inr (u :: unit) \<longleftrightarrow> r = Inr () \<and> k = Inr ()"
  by (cases r) auto

lemma validate_nodes_ok [simp]:
  "validate_nodes nav known ns = Inr () \<longleftrightarrow>
     (\<forall>n\<in>set ns. nv_contains nav n \<and> set (nv_children nav n) \<subseteq> known \<and> set (nv_parents nav n) \<subseteq> known)"
  by (induction nav known ns rule: validate_nodes.induct) auto

lemma validate_uses_ok [simp]:
  "validate_uses nav known nus = Inr () \<longleftrightarrow> (\<forall>(n, u)\<in>set nus. set (use_endpoints nav n u) \<subseteq> known)"
  by (induction nav known nus rule: validate_uses.induct) auto

locale valid_navigation =
  fixes nav :: tree_nav
  assumes nodes_distinct: "distinct (nv_nodes nav)"
    and nodes_available: "n \<in> set (nv_nodes nav) \<Longrightarrow> nv_contains nav n"
    and children_known: "n \<in> set (nv_nodes nav) \<Longrightarrow> m \<in> set (nv_children nav n) \<Longrightarrow> m \<in> set (nv_nodes nav)"
    and parents_known: "n \<in> set (nv_nodes nav) \<Longrightarrow> m \<in> set (nv_parents nav n) \<Longrightarrow> m \<in> set (nv_nodes nav)"
    and roots_known: "r \<in> set (nv_roots nav) \<Longrightarrow> r \<in> set (nv_nodes nav)"
begin

lemma nav_contains: "nav_contains_node nav n \<longleftrightarrow> n \<in> set (nv_nodes nav)"
  by (auto simp: nav_contains_node_def nodes_available)

end

sublocale valid_navigation \<subseteq> fw: traversable_graph "nav_contains_node nav" "nav_out_edges nav Forward"
  by unfold_locales (auto simp: nav_contains nav_out_edges_def dest: children_known)

sublocale valid_navigation \<subseteq> bw: traversable_graph "nav_contains_node nav" "nav_out_edges nav Reverse"
  by unfold_locales (auto simp: nav_contains nav_out_edges_def dest: parents_known)

lemma validate_navigation_ok:
  "validate_navigation nav plan = Inr () \<longleftrightarrow> valid_navigation nav \<and> relations_known nav plan"
proof -
  have "card (set (nv_nodes nav)) = length (nv_nodes nav) \<longleftrightarrow> distinct (nv_nodes nav)"
    by (metis card_distinct distinct_card)
  then show ?thesis
    unfolding validate_navigation_def Let_def valid_navigation_def relations_known_def
    by (simp add: set_collect_relation_uses subset_eq) blast
qed

lemma fresh_distinct: "distinct xs \<Longrightarrow> fresh {} xs = xs"
proof -
  have "distinct xs \<Longrightarrow> set xs \<inter> seen = {} \<Longrightarrow> fresh seen xs = xs" for seen
    by (induction xs arbitrary: seen) auto
  then show "distinct xs \<Longrightarrow> fresh {} xs = xs" by simp
qed

section \<open>The evaluator decides the meaning\<close>

declare evaluate.simps [simp del]

context valid_navigation
begin

definition decides :: "locator_plan \<Rightarrow> bool" where
  "decides c \<longleftrightarrow> (\<forall>m\<in>set (nv_nodes nav). \<exists>e. evaluate nav c m = Some e \<and> (ev_matched e \<longleftrightarrow> holds nav c m))"

lemma decidesD:
  assumes "decides c" and "m \<in> set (nv_nodes nav)"
  obtains e where "evaluate nav c m = Some e" "ev_matched e \<longleftrightarrow> holds nav c m"
  using assms by (auto simp: decides_def)

lemma evaluate_all_decides:
  assumes "\<forall>c\<in>set cs. decides c" and "n \<in> set (nv_nodes nav)"
  shows "\<exists>e. evaluate_all nav cs n evidence = Some e \<and> (ev_matched e \<longleftrightarrow> (\<forall>c\<in>set cs. holds nav c n))"
  using assms
proof (induction cs arbitrary: evidence)
  case (Cons c cs)
  from Cons.prems obtain e where "evaluate nav c n = Some e" "ev_matched e \<longleftrightarrow> holds nav c n"
    by (auto elim: decidesD)
  with Cons show ?case by (auto simp: no_match_def)
qed simp

lemma evaluate_any_decides:
  assumes "\<forall>c\<in>set cs. decides c" and "n \<in> set (nv_nodes nav)"
  shows "\<exists>e. evaluate_any nav cs n = Some e \<and> (ev_matched e \<longleftrightarrow> (\<exists>c\<in>set cs. holds nav c n))"
  using assms
proof (induction cs)
  case (Cons c cs)
  from Cons.prems obtain e where "evaluate nav c n = Some e" "ev_matched e \<longleftrightarrow> holds nav c n"
    by (auto elim: decidesD)
  with Cons show ?case by auto
qed (simp add: no_match_def)

lemma evaluate_neighbors_decides:
  assumes "decides c" and "set ns \<subseteq> set (nv_nodes nav)"
  shows "\<exists>e. evaluate_neighbors nav plan (c # cs) ns = Some e \<and> (ev_matched e \<longleftrightarrow> (\<exists>m\<in>set ns. holds nav c m))"
  using assms(2)
proof (induction ns)
  case (Cons n ns)
  from Cons.prems assms(1) obtain e where "evaluate nav c n = Some e" "ev_matched e \<longleftrightarrow> holds nav c n"
    by (auto elim: decidesD)
  with Cons show ?case by (auto simp: push_evidence_def)
qed (simp add: no_match_def)

lemma evaluate_visits_decides:
  assumes "decides c" and "set ns \<subseteq> set (nv_nodes nav)"
  shows "\<exists>e. evaluate_visits nav c origin ns result = Some e \<and>
    (ev_matched e \<longleftrightarrow> ev_matched result \<or> (\<exists>m\<in>set ns. m \<noteq> origin \<and> holds nav c m))"
  using assms(2)
proof (induction ns arbitrary: result)
  case (Cons n ns)
  from Cons.prems assms(1) obtain e where "evaluate nav c n = Some e" "ev_matched e \<longleftrightarrow> holds nav c n"
    by (auto elim: decidesD)
  with Cons.prems Cons.IH [of e] Cons.IH [of result] show ?case by auto
qed simp

lemma search_nodes:
  assumes "n \<in> set (nv_nodes nav)"
  shows "\<exists>ws. depth_first_search (nav_contains_node nav) (nav_out_edges nav d) n =
      Some (dfs_calls (nav_out_edges nav d) ws) \<and>
    set ws = {m. (n, m) \<in> (step_rel (nav_out_edges nav d))\<^sup>*} \<and> set ws \<subseteq> set (nv_nodes nav)"
proof (cases d)
  case Forward
  with fw.dfs_visits [of n] fw.reach_contains [of n] assms show ?thesis by (auto simp: nav_contains)
next
  case Reverse
  with bw.dfs_visits [of n] bw.reach_contains [of n] assms show ?thesis by (auto simp: nav_contains)
qed

lemma evaluate_walk_decides:
  assumes "decides c" and "n \<in> set (nv_nodes nav)"
  shows "\<exists>e. evaluate_walk nav plan (c # cs) d n = Some e \<and> (ev_matched e \<longleftrightarrow> (\<exists>m. walks_to nav d n m \<and> holds nav c m))"
proof -
  from search_nodes [OF assms(2), of d] obtain ws
    where ws: "depth_first_search (nav_contains_node nav) (nav_out_edges nav d) n = Some (dfs_calls (nav_out_edges nav d) ws)"
      "set ws = {m. (n, m) \<in> (step_rel (nav_out_edges nav d))\<^sup>*}" "set ws \<subseteq> set (nv_nodes nav)"
    by blast
  from evaluate_visits_decides [OF assms(1) ws(3), of n no_match] ws(1,2) show ?thesis
    by (auto simp: no_match_def push_evidence_def walks_to_def)
qed

lemma evaluate_decides: "relations_known nav plan \<Longrightarrow> decides plan"
proof (induction plan)
  case (LocatorPlan op r s p v t q children)
  have children: "\<forall>c\<in>set children. decides c"
    using LocatorPlan by (auto simp: relations_known_def)
  have "\<exists>e. evaluate nav (LocatorPlan op r s p v t q children) n = Some e \<and>
      (ev_matched e \<longleftrightarrow> holds nav (LocatorPlan op r s p v t q children) n)"
    if n: "n \<in> set (nv_nodes nav)" for n
  proof -
    have related: "set (use_endpoints nav n u) \<subseteq> set (nv_nodes nav)"
      if "u \<in> plan_uses (LocatorPlan op r s p v t q children)" for u
      using LocatorPlan.prems n that by (auto simp: relations_known_def)
    note eval = evaluate.simps [of nav op r s p v t q children n] holds.simps [of nav op r s p v t q children n]
    note leaf = matched_def no_match_def match_when_def property_matches_def
    show ?thesis
    proof (cases children)
      case Nil
      then show ?thesis
        unfolding eval by (cases op) (auto simp: leaf)
    next
      case (Cons c cs)
      with children have c: "decides c" by simp
      note all = evaluate_all_decides [OF children n] and any = evaluate_any_decides [OF children n]
      note near = evaluate_neighbors_decides [OF c] and far = evaluate_walk_decides [OF c n]
      from c n obtain e where e: "evaluate nav c n = Some e" "ev_matched e \<longleftrightarrow> holds nav c n"
        by (auto elim: decidesD)
      have parents: "set (nv_parents nav n) \<subseteq> set (nv_nodes nav)"
        using parents_known [OF n] by blast
      show ?thesis
      proof (cases op)
        case OpAll
        with all show ?thesis unfolding eval by simp
      next
        case OpAny
        with any show ?thesis unfolding eval by simp
      next
        case OpNot
        with Cons e show ?thesis unfolding eval by (simp add: leaf)
      next
        case OpChildOf
        with Cons near [OF parents] show ?thesis unfolding eval by simp
      next
        case OpDescendantOf
        with Cons far show ?thesis unfolding eval by (simp del: evaluate_walk.simps)
      next
        case OpAncestorOf
        with Cons far show ?thesis unfolding eval by (simp del: evaluate_walk.simps)
      next
        case OpRelated
        with Cons near related [of "(q, False)"] show ?thesis unfolding eval by (simp add: use_endpoints_def)
      next
        case OpRelatedReverse
        with Cons near related [of "(q, True)"] show ?thesis unfolding eval by (simp add: use_endpoints_def)
      qed (simp_all add: evaluate.simps leaf)
    qed
  qed
  then show ?case by (simp add: decides_def)
qed

text \<open>The candidates: a search adds the nodes it reaches that were not seen before, in the order it meets them.\<close>

lemma visit_candidates: "fold visit_candidate ws (order, seen) = (order @ fresh seen ws, seen \<union> set ws)"
  by (induction ws arbitrary: order seen) (auto simp: visit_candidate_def insert_absorb)

lemma search_candidates_reach:
  assumes "n \<in> set (nv_nodes nav)"
  shows "\<exists>ws. search_candidates nav n (order, seen) = Some (order @ fresh seen ws, seen \<union> set ws) \<and> distinct ws \<and>
    set ws = {m. (n, m) \<in> (step_rel (nav_out_edges nav Forward))\<^sup>*} \<and> set ws \<subseteq> set (nv_nodes nav) \<and>
    sorted (map (hops (nav_out_edges nav Forward) n) ws)"
  using fw.bfs_visits [of n] fw.reach_contains [of n] assms
  by (auto simp: nav_contains search_candidates_def visit_candidates)

definition listed :: "node_id list \<times> node_id set \<Rightarrow> bool" where
  "listed acc \<longleftrightarrow> distinct (fst acc) \<and> snd acc = set (fst acc) \<and> set (fst acc) \<subseteq> set (nv_nodes nav)"

lemma search_candidates_listed:
  assumes "listed acc" and "n \<in> set (nv_nodes nav)"
  shows "\<exists>acc'. search_candidates nav n acc = Some acc' \<and> listed acc' \<and> insert n (snd acc) \<subseteq> snd acc'"
proof -
  obtain order seen where acc: "acc = (order, seen)" by (cases acc)
  from search_candidates_reach [OF assms(2), of order seen] obtain ws
    where "search_candidates nav n acc = Some (order @ fresh seen ws, seen \<union> set ws)" "n \<in> set ws"
      "set ws \<subseteq> set (nv_nodes nav)"
    by (auto simp: acc)
  with assms(1) show ?thesis
    by (auto simp: acc listed_def set_fresh distinct_fresh)
qed

lemma search_roots_listed:
  "listed acc \<Longrightarrow> \<exists>acc'. search_roots nav rs acc = Some acc' \<and> listed acc'"
proof (induction rs arbitrary: acc)
  case (Cons r rs)
  show ?case
  proof (cases "nav_contains_node nav r")
    case True
    with search_candidates_listed [OF Cons.prems, of r] Cons.IH show ?thesis
      by (auto simp: nav_contains)
  next
    case False
    with Cons show ?thesis by simp
  qed
qed simp

lemma search_rest_listed:
  "listed acc \<Longrightarrow> set ns \<subseteq> set (nv_nodes nav) \<Longrightarrow>
   \<exists>acc'. search_rest nav ns acc = Some acc' \<and> listed acc' \<and> snd acc \<union> set ns \<subseteq> snd acc'"
proof (induction ns arbitrary: acc)
  case (Cons n ns)
  show ?case
  proof (cases "n \<in> snd acc")
    case True
    with Cons.prems Cons.IH [of acc] show ?thesis by auto
  next
    case False
    from Cons.prems search_candidates_listed [of acc n] obtain acc'
      where acc': "search_candidates nav n acc = Some acc'" "listed acc'" "insert n (snd acc) \<subseteq> snd acc'"
      by auto
    from Cons.IH [OF acc'(2)] Cons.prems(2) obtain acc''
      where "search_rest nav ns acc' = Some acc''" "listed acc''" "snd acc' \<union> set ns \<subseteq> snd acc''"
      by auto
    with False acc' Cons.prems(2) show ?thesis by (auto simp: nav_contains)
  qed
qed simp

lemma enumerate_scope_exact:
  assumes "\<forall>r. root = Some r \<longrightarrow> r \<in> set (nv_nodes nav)"
  shows "\<exists>cs. enumerate_scope nav root = Some (Inr cs) \<and> distinct cs \<and> set cs = scope_nodes nav root \<and>
    set cs \<subseteq> set (nv_nodes nav) \<and>
    (\<forall>r. root = Some r \<longrightarrow> sorted (map (hops (nav_out_edges nav Forward) r) cs))"
proof (cases root)
  case None
  have start: "listed ([], {})" by (simp add: listed_def)
  from search_roots_listed [OF start, of "nv_roots nav"] obtain acc
    where acc: "search_roots nav (nv_roots nav) ([], {}) = Some acc" "listed acc"
    by blast
  from search_rest_listed [OF acc(2), of "nv_nodes nav"] obtain acc'
    where "search_rest nav (nv_nodes nav) acc = Some acc'" "listed acc'" "set (nv_nodes nav) \<subseteq> snd acc'"
    by auto
  with None acc(1) show ?thesis
    by (auto simp: enumerate_scope_def scope_nodes_def listed_def)
next
  case (Some r)
  with assms have r: "r \<in> set (nv_nodes nav)" by simp
  from search_candidates_reach [OF r, of "[]" "{}"] obtain ws
    where ws: "search_candidates nav r ([], {}) = Some (fresh {} ws, set ws)" "distinct ws"
      "set ws = scope_nodes nav root" "set ws \<subseteq> set (nv_nodes nav)" "sorted (map (hops (nav_out_edges nav Forward) r) ws)"
    by (auto simp: scope_nodes_def Some)
  have "fresh {} ws = ws"
    using ws(2) by (rule fresh_distinct)
  with ws Some r show ?thesis
    by (auto simp: enumerate_scope_def nav_contains)
qed

lemma match_candidates_filter:
  assumes "decides plan" and "set cs \<subseteq> set (nv_nodes nav)"
  shows "\<exists>ms. match_candidates nav plan provider cs acc = Some (acc @ ms) \<and>
    map em_node ms = filter (holds nav plan) cs \<and> (\<forall>m\<in>set ms. em_candidate_provider m = provider)"
  using assms(2)
proof (induction cs arbitrary: acc)
  case (Cons c cs)
  from assms(1) Cons.prems obtain e where e: "evaluate nav plan c = Some e" "ev_matched e \<longleftrightarrow> holds nav plan c"
    by (auto elim: decidesD)
  let ?m = "\<lparr>em_node = c, em_evidence = ev_evidence e, em_candidate_provider = provider\<rparr>"
  from Cons.IH [of "if ev_matched e then acc @ [?m] else acc"] Cons.prems e show ?case
    by (cases "ev_matched e") (force intro: exI [of _ "?m # _"])+
qed simp

end

section \<open>Queries\<close>

text \<open>
  C14. The expression evaluator decides what a locator means: on every navigation that passes the evaluator's check,
  at every node, evaluation returns although it walks the tree in both directions and the tree may have cycles and shared
  children, and it matches exactly when the plan holds there; descendants and ancestors are the nodes reachable
  over parents and children other than the node itself.\<close>

theorem evaluate_exact:
  assumes "validate_navigation nav plan = Inr ()" and "n \<in> set (nv_nodes nav)"
  shows "\<exists>e. evaluate nav plan n = Some e \<and> (ev_matched e \<longleftrightarrow> holds nav plan n)"
proof -
  from assms(1) have "valid_navigation nav" "relations_known nav plan"
    by (simp_all add: validate_navigation_ok)
  with assms(2) show ?thesis
    using valid_navigation.evaluate_decides valid_navigation.decidesD by blast
qed

text \<open>A tree of three nodes with a cycle through \<open>contains\<close>, for the witnesses: 1 has children 2 and 3, and 3 has child 1.\<close>

definition sample_nav :: tree_nav where
  "sample_nav =
     \<lparr>nv_metadata = \<lparr>tm_runtime = 1, tm_tree = 2, tm_epoch = 3, tm_revision = 4, tm_provider = ''snapshot''\<rparr>,
      nv_nodes = [1, 2, 3], nv_roots = [1], nv_contains = (\<lambda>n. n \<in> {1, 2, 3}),
      nv_role = (\<lambda>n. if n = 2 then 15 else 2), nv_states = (\<lambda>_. 0), nv_property = (\<lambda>_ _. default_read),
      nv_children = (\<lambda>n. if n = 1 then [2, 3] else if n = 3 then [1] else []),
      nv_parents = (\<lambda>n. if n = 1 then [3] else if n = 2 then [1] else if n = 3 then [1] else []),
      nv_related = (\<lambda>_ _. []), nv_related_reverse = (\<lambda>_ _. []), nv_generation = (\<lambda>_. 9),
      nv_provenance = (\<lambda>_. \<lparr>pv_runtime = 1, pv_revision = 4\<rparr>)\<rparr>"

theorem evaluate_exact_witness:
  defines "plan \<equiv> lc_plan (sel_descendant_of (sel_role 2))"
  shows "validate_navigation sample_nav plan = Inr () \<and> holds sample_nav plan 3 \<and> \<not> holds sample_nav (lc_plan (sel_role 15)) 3"
proof -
  have ok: "validate_navigation sample_nav plan = Inr ()"
    unfolding plan_def by code_simp
  have node: "3 \<in> set (nv_nodes sample_nav)"
    by (simp add: sample_nav_def)
  have "map_option ev_matched (evaluate sample_nav plan 3) = Some True"
    unfolding plan_def by code_simp
  with evaluate_exact [OF ok node] have "holds sample_nav plan 3"
    by auto
  with ok show ?thesis
    by (simp add: sel_role_def make_locator_def sample_nav_def)
qed

lemma evaluate_matches_valid:
  fixes scope :: query_scope
  defines "nav \<equiv> qs_navigation scope"
  assumes "plan_node_count l \<le> max_nodes" and "validate_navigation nav (lc_plan l) = Inr ()"
    and "\<forall>r. qs_root scope = Some r \<longrightarrow> r \<in> set (nv_nodes nav)"
    and "lower_candidates l scope = Inr lowered"
  shows "\<exists>cs ms. enumerate_scope nav (qs_root scope) = Some (Inr cs) \<and> distinct cs \<and>
    set cs = scope_nodes nav (qs_root scope) \<and> set cs \<subseteq> set (nv_nodes nav) \<and>
    (\<forall>r. qs_root scope = Some r \<longrightarrow> sorted (map (hops (nav_out_edges nav Forward) r) cs)) \<and>
    evaluate_matches l scope max_nodes = Some (Inr ms) \<and>
    map em_node ms = filter (holds nav (lc_plan l)) (fst (narrow_candidates lowered cs))"
proof -
  from assms(3) have valid: "valid_navigation nav" and known: "relations_known nav (lc_plan l)"
    by (simp_all add: validate_navigation_ok)
  from valid_navigation.enumerate_scope_exact [OF valid assms(4)] obtain cs
    where cs: "enumerate_scope nav (qs_root scope) = Some (Inr cs)" "distinct cs"
      "set cs = scope_nodes nav (qs_root scope)" "set cs \<subseteq> set (nv_nodes nav)"
      "\<forall>r. qs_root scope = Some r \<longrightarrow> sorted (map (hops (nav_out_edges nav Forward) r) cs)"
    by blast
  obtain kept provider where kept: "narrow_candidates lowered cs = (kept, provider)"
    by fastforce
  then have "set kept \<subseteq> set cs"
    by (auto simp: narrow_candidates_def split: option.splits)
  with cs(4) have "set kept \<subseteq> set (nv_nodes nav)" by blast
  from valid_navigation.match_candidates_filter
      [OF valid valid_navigation.evaluate_decides [OF valid known] this, of provider "[]"]
  obtain ms where ms: "match_candidates nav (lc_plan l) provider kept [] = Some ms"
    "map em_node ms = filter (holds nav (lc_plan l)) kept"
    by auto
  have "evaluate_matches l scope max_nodes = Some (Inr ms)"
    using assms(2,3,5) cs(1) kept ms(1) by (simp add: evaluate_matches_def Let_def nav_def not_less)
  moreover have "map em_node ms = filter (holds nav (lc_plan l)) (fst (narrow_candidates lowered cs))"
    by (simp add: kept ms(2))
  ultimately show ?thesis
    using cs by blast
qed

text \<open>
  C15. A query for all matches returns exactly the nodes of its scope at which the locator holds, each once: the whole tree when
  no root is given, whether or not its nodes hang under a root, and otherwise the nodes under the root in order of
  distance from it.\<close>

theorem resolve_all_exact:
  assumes "plan_node_count l \<le> max_nodes" and "validate_navigation (qs_navigation scope) (lc_plan l) = Inr ()"
    and "qs_lowerer scope = None" and "\<forall>r. qs_root scope = Some r \<longrightarrow> r \<in> set (nv_nodes (qs_navigation scope))"
  shows "\<exists>ns. resolve_all l scope max_nodes = Some (Inr (map (make_ref (qs_navigation scope)) ns)) \<and> distinct ns \<and>
    set ns = {n \<in> scope_nodes (qs_navigation scope) (qs_root scope). holds (qs_navigation scope) (lc_plan l) n} \<and>
    (\<forall>r. qs_root scope = Some r \<longrightarrow> sorted (map (hops (nv_children (qs_navigation scope)) r) ns))"
proof -
  let ?nav = "qs_navigation scope"
  have children: "nav_out_edges ?nav Forward = nv_children ?nav"
    by (simp add: nav_out_edges_def fun_eq_iff)
  have "lower_candidates l scope = Inr None"
    using assms(3) by (simp add: lower_candidates_def)
  from evaluate_matches_valid [OF assms(1,2,4) this] obtain cs ms
    where cs: "distinct cs" "set cs = scope_nodes ?nav (qs_root scope)"
      "\<forall>r. qs_root scope = Some r \<longrightarrow> sorted (map (hops (nav_out_edges ?nav Forward) r) cs)"
      and ms: "evaluate_matches l scope max_nodes = Some (Inr ms)"
        "map em_node ms = filter (holds ?nav (lc_plan l)) (fst (narrow_candidates None cs))"
    by blast
  have kept: "fst (narrow_candidates None cs) = cs"
    by (simp add: narrow_candidates_def)
  have "map (\<lambda>m. make_ref ?nav (em_node m)) ms = map (make_ref ?nav) (filter (holds ?nav (lc_plan l)) cs)"
    using arg_cong [OF ms(2), of "map (make_ref ?nav)"] by (simp add: kept comp_def)
  with ms(1) have "resolve_all l scope max_nodes = Some (Inr (map (make_ref ?nav) (filter (holds ?nav (lc_plan l)) cs)))"
    by (simp add: resolve_all_def)
  then show ?thesis
    using cs by (intro exI [of _ "filter (holds ?nav (lc_plan l)) cs"] conjI)
      (simp_all add: sorted_filter flip: children)
qed

definition sample_scope :: query_scope where
  "sample_scope = \<lparr>qs_navigation = sample_nav, qs_root = Some 3, qs_lowerer = None\<rparr>"

theorem resolve_all_exact_witness:
  "{n \<in> scope_nodes sample_nav (Some 3). holds sample_nav (lc_plan (sel_role 2)) n} = {3, 1} \<and>
   resolve_all (sel_role 2) sample_scope 10 = Some (Inr [make_ref sample_nav 3, make_ref sample_nav 1])"
proof -
  have r: "resolve_all (sel_role 2) sample_scope 10 = Some (Inr [make_ref sample_nav 3, make_ref sample_nav 1])"
    by code_simp
  have "plan_node_count (sel_role 2) \<le> 10"
    "validate_navigation (qs_navigation sample_scope) (lc_plan (sel_role 2)) = Inr ()"
    by code_simp+
  moreover have "qs_lowerer sample_scope = None"
    "\<forall>r. qs_root sample_scope = Some r \<longrightarrow> r \<in> set (nv_nodes (qs_navigation sample_scope))"
    by (simp_all add: sample_scope_def sample_nav_def)
  ultimately obtain ns
    where ns: "resolve_all (sel_role 2) sample_scope 10 = Some (Inr (map (make_ref (qs_navigation sample_scope)) ns))"
      "set ns = {n \<in> scope_nodes (qs_navigation sample_scope) (qs_root sample_scope).
                   holds (qs_navigation sample_scope) (lc_plan (sel_role 2)) n}"
    using resolve_all_exact [of "sel_role 2" 10 sample_scope] by blast
  have scope: "qs_navigation sample_scope = sample_nav" "qs_root sample_scope = Some 3"
    by (simp_all add: sample_scope_def)
  from ns(1) r have "map (make_ref sample_nav) ns = [make_ref sample_nav 3, make_ref sample_nav 1]"
    by (simp add: scope)
  from arg_cong [OF this, of "map wr_node"] have "ns = [3, 1]"
    by (simp add: make_ref_def comp_def)
  with ns(2) r show ?thesis by (auto simp: scope)
qed

text \<open>
  Lowering is only an optimisation: when the provider's lowerer answers and its candidates include every node of the tree at
  which the locator holds, the query returns what it returns without the lowerer, in the same order; this includes
  the queries that fail.\<close>

theorem lowering_changes_nothing:
  assumes "lower_candidates l scope = Inr lowered"
    and "\<forall>lo. lowered = Some lo \<longrightarrow>
      (\<forall>n\<in>set (nv_nodes (qs_navigation scope)). holds (qs_navigation scope) (lc_plan l) n \<longrightarrow> n \<in> set (lo_nodes lo))"
  shows "resolve_all l scope max_nodes = resolve_all l (scope\<lparr>qs_lowerer := None\<rparr>) max_nodes"
proof -
  let ?nav = "qs_navigation scope" and ?plain = "scope\<lparr>qs_lowerer := None\<rparr>"
  have plain: "lower_candidates l ?plain = Inr None"
    by (simp add: lower_candidates_def)
  consider (invalid) "plan_node_count l > max_nodes \<or> validate_navigation ?nav (lc_plan l) \<noteq> Inr ()"
    | (outside) r where "qs_root scope = Some r" "\<not> nav_contains_node ?nav r"
    | (inside) "plan_node_count l \<le> max_nodes" "validate_navigation ?nav (lc_plan l) = Inr ()"
        "\<forall>r. qs_root scope = Some r \<longrightarrow> r \<in> set (nv_nodes ?nav)"
    by (metis nav_contains_node_def not_less)
  then show ?thesis
  proof cases
    case invalid
    then show ?thesis
      by (auto simp: resolve_all_def evaluate_matches_def Let_def split: sum.splits)
  next
    case (outside r)
    then show ?thesis
      by (simp add: resolve_all_def evaluate_matches_def Let_def enumerate_scope_def split: sum.split)
  next
    case inside
    from evaluate_matches_valid [OF inside assms(1)] obtain cs ms
      where a: "enumerate_scope ?nav (qs_root scope) = Some (Inr cs)" "set cs \<subseteq> set (nv_nodes ?nav)"
        "evaluate_matches l scope max_nodes = Some (Inr ms)"
        "map em_node ms = filter (holds ?nav (lc_plan l)) (fst (narrow_candidates lowered cs))"
      by blast
    from inside have inside': "plan_node_count l \<le> max_nodes"
      "validate_navigation (qs_navigation ?plain) (lc_plan l) = Inr ()"
      "\<forall>r. qs_root ?plain = Some r \<longrightarrow> r \<in> set (nv_nodes (qs_navigation ?plain))"
      by simp_all
    from evaluate_matches_valid [OF inside' plain] a(1) obtain ms'
      where b: "evaluate_matches l ?plain max_nodes = Some (Inr ms')"
        "map em_node ms' = filter (holds ?nav (lc_plan l)) (fst (narrow_candidates None cs))"
      by auto
    have "filter (holds ?nav (lc_plan l)) (fst (narrow_candidates lowered cs)) = filter (holds ?nav (lc_plan l)) cs"
      using assms(2) a(2) by (auto simp: narrow_candidates_def split: option.split intro!: filter_cong)
    then have "map em_node ms = map em_node ms'"
      using a(4) b(2) by (simp add: narrow_candidates_def)
    then have "map (make_ref ?nav \<circ> em_node) ms = map (make_ref ?nav \<circ> em_node) ms'"
      by (metis map_map)
    with a(3) b(1) show ?thesis
      by (simp add: resolve_all_def comp_def)
  qed
qed

theorem lowering_changes_nothing_witness:
  defines "lower \<equiv> (\<lambda>_ _. Inr (Some \<lparr>lo_nodes = [2, 7], lo_provider = ''index''\<rparr>)) :: plan_lowerer"
  shows "resolve_all (sel_role 15) (sample_scope\<lparr>qs_lowerer := Some lower\<rparr>) 10 =
      resolve_all (sel_role 15) (sample_scope\<lparr>qs_lowerer := None\<rparr>) 10"
proof -
  have "lower_candidates (sel_role 15) (sample_scope\<lparr>qs_lowerer := Some lower\<rparr>) =
      Inr (Some \<lparr>lo_nodes = [2, 7], lo_provider = ''index''\<rparr>)"
    by (simp add: lower_candidates_def lower_def)
  from lowering_changes_nothing [OF this, of 10] show ?thesis
    by (simp add: sample_scope_def sample_nav_def sel_role_def make_locator_def)
qed

text \<open>
  A query for one node follows from the query for all: it fails as that fails, asking for all is
  refused, no match is an error, more than one is an error when exactly one is asked for, and otherwise the match refers to
  the first node of the full answer and carries the locator's consistency mode and the revision that was read.\<close>

theorem resolve_by_cardinality:
  assumes "resolve_all l scope max_nodes = Some r"
  shows "\<exists>m. resolve l c scope max_nodes =
      Some (if c = AllMatches then Inl (fail InvalidArgument ''Cardinality::All returns a NodeSet through resolve_all'')
            else case r of Inl e \<Rightarrow> Inl e
            | Inr refs \<Rightarrow>
                if refs = [] then Inl (fail NoMatch ''locator matched no nodes'')
                else if c = ExactlyOne \<and> length refs > 1
                then Inl (fail AmbiguousMatch (''locator matched '' @ to_string (length refs) @ '' nodes''))
                else Inr m) \<and>
    (\<forall>refs. r = Inr refs \<and> refs \<noteq> [] \<longrightarrow> qm_ref m = hd refs) \<and> qm_mode m = lc_consistency l \<and>
    qm_snapshot_revision m = tm_revision (nv_metadata (qs_navigation scope))"
proof -
  from assms obtain r' where r': "evaluate_matches l scope max_nodes = Some r'"
    "r = (case r' of Inl e \<Rightarrow> Inl e | Inr ms \<Rightarrow> Inr (map (\<lambda>m. make_ref (qs_navigation scope) (em_node m)) ms))"
    by (auto simp: resolve_all_def)
  define m where "m = make_match l (qs_navigation scope) (case r' of Inr (m # ms) \<Rightarrow> m | _ \<Rightarrow> undefined)"
  have "resolve l c scope max_nodes =
      Some (if c = AllMatches then Inl (fail InvalidArgument ''Cardinality::All returns a NodeSet through resolve_all'')
            else case r of Inl e \<Rightarrow> Inl e
            | Inr refs \<Rightarrow>
                if refs = [] then Inl (fail NoMatch ''locator matched no nodes'')
                else if c = ExactlyOne \<and> length refs > 1
                then Inl (fail AmbiguousMatch (''locator matched '' @ to_string (length refs) @ '' nodes''))
                else Inr m)"
    using r' by (auto simp: resolve_def m_def split: sum.splits list.splits)
  moreover have "\<forall>refs. r = Inr refs \<and> refs \<noteq> [] \<longrightarrow> qm_ref m = hd refs"
    using r'(2) by (auto simp: m_def make_match_def split: sum.splits list.splits)
  ultimately show ?thesis
    by (intro exI [of _ m]) (simp add: m_def make_match_def)
qed

theorem resolve_by_cardinality_witness:
  "resolve (sel_role 2) ExactlyOne sample_scope 10 = Some (Inl (fail AmbiguousMatch ''locator matched 2 nodes''))"
proof -
  have "resolve_all (sel_role 2) sample_scope 10 = Some (Inr [make_ref sample_nav 3, make_ref sample_nav 1])"
    by code_simp
  moreover have "to_string (Suc (Suc 0)) = ''2''"
    by code_simp
  ultimately show ?thesis
    using resolve_by_cardinality [of "sel_role 2" sample_scope 10 _ ExactlyOne] by auto
qed

section \<open>Locators read back\<close>

text \<open>The spellings of a number that reading back a locator normalises are equal to the evaluator.\<close>

lemma nan_not_equal: "f64_isnan x \<or> f64_isnan y \<Longrightarrow> \<not> f64_equal x y"
  by (auto simp: f64_isnan_def f64_equal_def f64_infinity_def)

lemma equal_to_zero: "f64_equal y 0 \<Longrightarrow> f64_equal x 0 \<longleftrightarrow> f64_equal x y"
  by (auto simp: f64_equal_def f64_magnitude_def)

lemma number_equal_canonical: "number_equal x (canonical_number y) \<longleftrightarrow> number_equal x y"
proof -
  have "f64_isnan f64_quiet_nan" and "\<not> f64_isnan 0"
    by (simp_all add: f64_isnan_def f64_quiet_nan_def f64_infinity_def f64_magnitude_def)
  moreover consider "f64_equal y 0" "\<not> f64_isnan y" | "f64_isnan y" "\<not> f64_equal y 0" | "\<not> f64_isnan y" "\<not> f64_equal y 0"
    using nan_not_equal [of y 0] by blast
  ultimately show ?thesis
    by cases (simp_all add: number_equal_def canonical_number_def nan_not_equal equal_to_zero)
qed

lemma property_equal_canonical: "property_equal x (canonical_value v) \<longleftrightarrow> property_equal x v"
  by (cases x; cases v) (simp_all add: number_equal_canonical rect_equal_def)

lemma reads_as_canonical [simp]: "reads_as nav n p (canonical_value v) \<longleftrightarrow> reads_as nav n p v"
  by (simp add: reads_as_def property_equal_canonical)

lemma evidence_canonical [simp]: "evidence_for (canonical_plan plan) = evidence_for plan"
  by (cases plan; cases "lp_op plan") (simp_all add: evidence_for_def)

lemma canonical_results [simp]:
  "matched (canonical_plan plan) = matched plan" "match_when b (canonical_plan plan) = match_when b plan"
  "push_evidence (canonical_plan plan) e = push_evidence plan e"
  by (simp_all add: matched_def match_when_def push_evidence_def)

lemma evaluate_canonical:
  "evaluate nav (canonical_plan plan) n = evaluate nav plan n"
  "evaluate_all nav (map canonical_plan cs) n evidence = evaluate_all nav cs n evidence"
  "evaluate_any nav (map canonical_plan cs) n = evaluate_any nav cs n"
  "evaluate_neighbors nav (canonical_plan plan) (map canonical_plan cs) ns = evaluate_neighbors nav plan cs ns"
  "evaluate_walk nav (canonical_plan plan) (map canonical_plan cs) d n = evaluate_walk nav plan cs d n"
  "evaluate_visits nav (canonical_plan c) origin ns e = evaluate_visits nav c origin ns e"
proof (induction nav plan n and nav cs n evidence and nav cs n and nav plan cs ns and nav plan cs d n and nav c origin ns e
    rule: evaluate_evaluate_all_evaluate_any_evaluate_neighbors_evaluate_walk_evaluate_visits.induct)
  case (1 nav op r s p v t q children node)
  let ?plan = "LocatorPlan op r s p v t q children"
  have plan: "canonical_plan ?plan = LocatorPlan op r s p (canonical_value v) t q (map canonical_plan children)"
    by simp
  show ?case
    using 1 canonical_results [where plan = ?plan]
    unfolding plan evaluate.simps
    by (cases op; cases children) (simp_all add: Let_def property_matches_def cong: if_cong)
qed (simp_all split: option.split cong: if_cong)

lemma count_canonical: "count_plan_nodes (canonical_plan plan) = count_plan_nodes plan"
  "count_children c (map canonical_plan cs) = count_children c cs"
  by (induction plan and c cs rule: count_plan_nodes_count_children.induct) (simp_all add: Let_def)

lemma match_candidates_canonical:
  "match_candidates nav (canonical_plan plan) provider cs acc = match_candidates nav plan provider cs acc"
  by (induction cs arbitrary: acc) (auto simp: evaluate_canonical split: option.split)

lemma collect_canonical: "collect_relation_uses (canonical_plan plan) uses = collect_relation_uses plan uses"
proof (induction plan uses rule: collect_relation_uses.induct)
  case (1 op r s p v t q children uses)
  have "fold collect_relation_uses (map canonical_plan cs) us = fold collect_relation_uses cs us"
    if "set cs \<subseteq> set children" for cs us
    using that 1 by (induction cs arbitrary: us) auto
  then show ?case by simp
qed

lemma validate_canonical: "validate_navigation nav (canonical_plan plan) = validate_navigation nav plan"
  unfolding validate_navigation_def collect_canonical ..

lemma canonical_locator_fields:
  "lc_plan (canonical_locator l) = canonical_plan (lc_plan l)" "plan_node_count (canonical_locator l) = plan_node_count l"
  by (simp_all add: canonical_locator_def plan_node_count_def count_canonical)

text \<open>
  A locator that was written as text and read back finds what the original finds: over any scope without a lowerer and under any
  complexity limit the two queries return the same references or the same error.\<close>

theorem parsed_locator_resolves_alike:
  assumes "built_locator l" and "plan_node_count l \<le> default_max_nodes" and "qs_lowerer scope = None"
    and "locator_json l = Some j" and "dump j = Some t" and "parse t = Inr (reread j)"
  shows "\<exists>l'. locator_from_string parse to_double t = Inr l' \<and>
    resolve_all l' scope max_nodes = resolve_all l scope max_nodes"
proof -
  have "locator_from_string parse to_double t = Inr (canonical_locator l)"
    using reread_locator [where l = l and dump = dump and parse = parse and to_double = to_double, OF assms(1,4,5,6)]
      assms(2) by simp
  moreover have lower: "lower_candidates (canonical_locator l) scope = lower_candidates l scope"
    using assms(3) by (simp add: lower_candidates_def)
  have "resolve_all (canonical_locator l) scope max_nodes = resolve_all l scope max_nodes"
    unfolding resolve_all_def evaluate_matches_def Let_def canonical_locator_fields validate_canonical
      match_candidates_canonical lower ..
  ultimately show ?thesis by blast
qed

theorem parsed_locator_resolves_alike_witness:
  defines "l \<equiv> sel_not (sel_property 7 (DoubleValue 0x8000000000000000))"
  shows "\<exists>l'. l' \<noteq> l \<and> resolve_all l' sample_scope 10 = resolve_all l sample_scope 10"
proof -
  have "map_option (\<lambda>_. ()) (locator_json l) = Some ()"
    unfolding l_def by code_simp
  then obtain j where j: "locator_json l = Some j" by auto
  have "\<exists>l'. locator_from_string (\<lambda>_. Inr (reread j)) (\<lambda>_. 0) ''doc'' = Inr l' \<and>
      resolve_all l' sample_scope 10 = resolve_all l sample_scope 10"
  proof (rule parsed_locator_resolves_alike [OF _ _ _ j, where dump = "\<lambda>_. Some ''doc''" and t = "''doc''"])
    show "built_locator l"
      unfolding l_def by (intro built_locator.intros)
    show "plan_node_count l \<le> default_max_nodes"
      unfolding l_def by code_simp
  qed (simp_all add: sample_scope_def)
  moreover have "case locator_json l of None \<Rightarrow> False
      | Some j \<Rightarrow> locator_from_string (\<lambda>_. Inr (reread j)) (\<lambda>_. 0) ''doc'' \<noteq> Inr l"
    unfolding l_def by code_simp
  ultimately show ?thesis
    using j by auto
qed

end
