(* ===== verification/Tree_Generation.thy ===== *)
theory Tree_Generation
  imports Ui_Snapshot Kahn Graph_Delta "HOL-Library.Product_Lexorder"
begin

unbundle bit_operations_syntax

text \<open>
  The first half of \<open>src/kernel/graph/tree_store.cpp\<close>: an incoming snapshot or delta is validated,
  assembled into a generation (the relation graph, the arrays of node facts and the extension relations), and
  compared with the generation before it, which gives the events of the update. Counters of type \<open>std::size_t\<close> are natural
  numbers. In the walk over the \<open>contains\<close> relations a counter at zero stays there, where the source's would
  wrap round and not reach zero again within the number of relations a list can hold.
\<close>

section \<open>Errors\<close>

definition metadata_of :: "ui_snapshot \<Rightarrow> ui_snapshot_metadata" where
  "metadata_of s = \<lparr>md_runtime = us_runtime s, md_tree = us_tree s, md_epoch = us_epoch s,
                    md_revision = us_revision s, md_complete = us_complete s\<rparr>"

definition delta_metadata :: "ui_delta \<Rightarrow> ui_snapshot_metadata" where
  "delta_metadata d = \<lparr>md_runtime = ud_runtime d, md_tree = ud_tree d, md_epoch = ud_epoch d,
                       md_revision = ud_revision d, md_complete = ud_complete d\<rparr>"

definition provenance_text :: "ui_snapshot_metadata \<Rightarrow> string" where
  "provenance_text md =
     ''runtime='' @ to_string (unat (md_runtime md)) @ '' tree='' @ to_string (unat (md_tree md)) @
     '' epoch='' @ to_string (unat (md_epoch md)) @ '' revision='' @ to_string (unat (md_revision md))"

definition rejection :: "error_code \<Rightarrow> string \<Rightarrow> ui_snapshot_metadata \<Rightarrow> error" where
  "rejection c message md =
     \<lparr>err_code = c, err_message = message, err_capability = [], err_target = provenance_text md,
      err_attempts = [\<lparr>attempt_provider = ''runtime:'' @ to_string (unat (md_runtime md)),
                       attempt_reason = provenance_text md\<rparr>],
      err_disposition = Fatal, err_diagnostics = [\<lparr>diag_at = 0, diag_message = provenance_text md\<rparr>]\<rparr>"

section \<open>Validation\<close>

definition max_properties_per_node :: nat where
  "max_properties_per_node = 256"

fun check_nodes :: "ui_snapshot_metadata \<Rightarrow> node_id set \<Rightarrow> ui_node_record list \<Rightarrow> node_id set result" where
  "check_nodes md known [] = Inr known"
| "check_nodes md known (n # ns) =
     (if un_id n = 0 then Inl (rejection InvalidArgument ''node id must not be zero'' md)
      else if un_id n \<in> known
      then Inl (rejection InvalidArgument (''duplicate node id '' @ to_string (unat (un_id n))) md)
      else if length (property_ids_of n) > max_properties_per_node
      then Inl (rejection InvalidArgument ''node exceeds compact property limit'' md)
      else if \<not> distinct (property_ids_of n)
      then Inl (rejection InvalidArgument (''duplicate property id on node '' @ to_string (unat (un_id n))) md)
      else check_nodes md (insert (un_id n) known) ns)"

record contains_index =
  ci_incoming :: "(node_id, nat) omap"
  ci_children :: "(node_id, node_id list) omap"

definition increment :: "'k \<Rightarrow> ('k, nat) omap \<Rightarrow> ('k, nat) omap" where
  "increment k m = map (\<lambda>(n, c). if n = k then (n, c + 1) else (n, c)) m"

definition push_child :: "'k \<Rightarrow> 'v \<Rightarrow> ('k, 'v list) omap \<Rightarrow> ('k, 'v list) omap" where
  "push_child k v m = map (\<lambda>(n, vs). if n = k then (n, vs @ [v]) else (n, vs)) m"

definition initial_index :: "ui_node_record list \<Rightarrow> contains_index" where
  "initial_index ns =
     \<lparr>ci_incoming = fold (\<lambda>n m. omap_put (un_id n) 0 m) ns [],
      ci_children = fold (\<lambda>n m. omap_put (un_id n) [] m) ns []\<rparr>"

definition index_contains :: "ui_relation \<Rightarrow> contains_index \<Rightarrow> contains_index" where
  "index_contains r ci =
     (if ur_relation r = contains_relation
      then \<lparr>ci_incoming = increment (ur_target r) (ci_incoming ci),
            ci_children = push_child (ur_source r) (ur_target r) (ci_children ci)\<rparr>
      else ci)"

fun check_relations ::
  "ui_snapshot_metadata \<Rightarrow> node_id set \<Rightarrow> ui_relation set \<Rightarrow> contains_index \<Rightarrow> ui_relation list \<Rightarrow> contains_index result" where
  "check_relations md known seen ci [] = Inr ci"
| "check_relations md known seen ci (r # rs) =
     (if ur_source r \<notin> known \<or> ur_target r \<notin> known
      then Inl (rejection NoMatch
                  (if ur_relation r = contains_relation \<and> ur_source r \<notin> known then ''unknown parent node''
                   else ''unknown relation endpoint'') md)
      else if ur_source r = ur_target r
      then Inl (rejection ProtocolError
                  (if ur_relation r = contains_relation then ''contains cycle through self'' else ''self relation is invalid'') md)
      else if r \<in> seen then Inl (rejection InvalidArgument ''duplicate relation'' md)
      else if ur_relation r \<ge> core_count \<and> ur_relation r < core_bit_count
      then Inl (rejection InvalidArgument ''relation id is reserved outside the closed core table'' md)
      else check_relations md known (insert r seen) (index_contains r ci) rs)"

fun check_roots ::
  "ui_snapshot_metadata \<Rightarrow> node_id set \<Rightarrow> contains_index \<Rightarrow> node_id set \<Rightarrow> node_id list \<Rightarrow> unit result" where
  "check_roots md known ci supplied [] = Inr ()"
| "check_roots md known ci supplied (root # roots) =
     (if root \<notin> known then Inl (rejection NoMatch ''unknown root node'' md)
      else if root \<in> supplied then Inl (rejection InvalidArgument ''duplicate root node'' md)
      else if omap_find (ci_incoming ci) root \<noteq> Some 0
      then Inl (rejection ProtocolError ''root has a contains parent'' md)
      else check_roots md known ci (insert root supplied) roots)"

definition children_of :: "contains_index \<Rightarrow> node_id \<Rightarrow> node_id list" where
  "children_of ci n = (case omap_find (ci_children ci) n of None \<Rightarrow> [] | Some cs \<Rightarrow> cs)"

text \<open>The \<open>while\<close> loop: pop the front of the deque, count it, visit its children.\<close>

function contains_walk :: "contains_index \<Rightarrow> node_id list \<Rightarrow> (node_id, nat) omap \<Rightarrow> nat \<Rightarrow> nat" where
  "contains_walk ci [] remaining visited = visited"
| "contains_walk ci (current # ready) remaining visited =
     (let s = fold visit_successor (children_of ci current) (ready, remaining)
      in contains_walk ci (fst s) (snd s) (visited + 1))"
  by pat_completeness auto
termination
proof (relation "measure (\<lambda>(ci, ready, remaining, visited). pending remaining + length ready)", simp)
  fix ci current ready remaining and visited :: nat and s
  assume "s = fold visit_successor (children_of ci current) (ready, remaining)"
  then show "((ci, fst s, snd s, visited + 1), (ci, current # ready, remaining, visited))
      \<in> measure (\<lambda>(ci, ready, remaining, visited). pending remaining + length ready)"
    using visit_successors_pending [of "children_of ci current" "(ready, remaining)"] by simp
qed

definition root_nodes :: "contains_index \<Rightarrow> node_id list" where
  "root_nodes ci = map fst (filter (\<lambda>(n, incoming). incoming = 0) (ci_incoming ci))"

definition validate_and_find_roots ::
  "ui_snapshot_metadata \<Rightarrow> ui_node_record list \<Rightarrow> node_id list \<Rightarrow> ui_relation list \<Rightarrow> node_id list result" where
  "validate_and_find_roots md nodes supplied_roots relations =
     (case check_nodes md {} nodes of
        Inl e \<Rightarrow> Inl e
      | Inr known \<Rightarrow>
          (case check_relations md known {} (initial_index nodes) relations of
             Inl e \<Rightarrow> Inl e
           | Inr ci \<Rightarrow>
               (case check_roots md known ci {} supplied_roots of
                  Inl e \<Rightarrow> Inl e
                | Inr _ \<Rightarrow>
                    let roots = root_nodes ci;
                        visited = contains_walk ci roots (ci_incoming ci) 0
                    in if visited \<noteq> length nodes then Inl (rejection ProtocolError ''contains relation cycle'' md)
                       else Inr roots)))"

definition normalized_snapshot ::
  "ui_snapshot_metadata \<Rightarrow> ui_node_record list \<Rightarrow> node_id list \<Rightarrow> ui_relation list \<Rightarrow> ui_snapshot result" where
  "normalized_snapshot md nodes supplied_roots relations =
     (case validate_and_find_roots md nodes supplied_roots relations of
        Inl e \<Rightarrow> Inl e
      | Inr roots \<Rightarrow> Inr (from_records md nodes roots relations))"

section \<open>What validation accepts\<close>

definition node_record_ok :: "ui_node_record \<Rightarrow> bool" where
  "node_record_ok n \<longleftrightarrow>
     un_id n \<noteq> 0 \<and> length (property_ids_of n) \<le> max_properties_per_node \<and> distinct (property_ids_of n)"

definition relation_ok :: "node_id set \<Rightarrow> ui_relation \<Rightarrow> bool" where
  "relation_ok known r \<longleftrightarrow>
     ur_source r \<in> known \<and> ur_target r \<in> known \<and> ur_source r \<noteq> ur_target r \<and>
     \<not> (ur_relation r \<ge> core_count \<and> ur_relation r < core_bit_count)"

definition containment :: "ui_relation list \<Rightarrow> (node_id \<times> node_id) set" where
  "containment rs = {(ur_source r, ur_target r) | r. r \<in> set rs \<and> ur_relation r = contains_relation}"

definition valid_tree :: "ui_node_record list \<Rightarrow> node_id list \<Rightarrow> ui_relation list \<Rightarrow> bool" where
  "valid_tree nodes roots relations \<longleftrightarrow>
     (\<forall>n\<in>set nodes. node_record_ok n) \<and> distinct (map un_id nodes) \<and>
     (\<forall>r\<in>set relations. relation_ok (un_id ` set nodes) r) \<and> distinct relations \<and>
     set roots \<subseteq> un_id ` set nodes \<and> distinct roots \<and> set roots \<inter> Range (containment relations) = {} \<and>
     acyclic (containment relations)"

lemma check_nodes_spec:
  "case check_nodes md known ns of
     Inl _ \<Rightarrow> \<not> ((\<forall>n\<in>set ns. node_record_ok n) \<and> distinct (map un_id ns) \<and> un_id ` set ns \<inter> known = {})
   | Inr known' \<Rightarrow> (\<forall>n\<in>set ns. node_record_ok n) \<and> distinct (map un_id ns) \<and> un_id ` set ns \<inter> known = {}
       \<and> known' = un_id ` set ns \<union> known"
  by (induction md known ns rule: check_nodes.induct) (auto simp: node_record_ok_def split: sum.splits, blast)

lemma check_relations_spec:
  "case check_relations md known seen ci rs of
     Inl _ \<Rightarrow> \<not> ((\<forall>r\<in>set rs. relation_ok known r) \<and> distinct rs \<and> set rs \<inter> seen = {})
   | Inr ci' \<Rightarrow> (\<forall>r\<in>set rs. relation_ok known r) \<and> distinct rs \<and> set rs \<inter> seen = {} \<and> ci' = fold index_contains rs ci"
  by (induction md known seen ci rs rule: check_relations.induct) (auto simp: relation_ok_def split: sum.splits)

lemma check_roots_spec:
  "case check_roots md known ci supplied roots of
     Inl _ \<Rightarrow> \<not> (set roots \<subseteq> known \<and> distinct roots \<and> set roots \<inter> supplied = {} \<and>
                (\<forall>root\<in>set roots. omap_find (ci_incoming ci) root = Some 0))
   | Inr _ \<Rightarrow> set roots \<subseteq> known \<and> distinct roots \<and> set roots \<inter> supplied = {} \<and>
                (\<forall>root\<in>set roots. omap_find (ci_incoming ci) root = Some 0)"
  by (induction md known ci supplied roots rule: check_roots.induct) (auto split: sum.splits)

section \<open>The containment index\<close>

abbreviation is_contains :: "ui_relation \<Rightarrow> bool" where
  "is_contains r \<equiv> ur_relation r = contains_relation"

abbreviation built_index :: "ui_node_record list \<Rightarrow> ui_relation list \<Rightarrow> contains_index" where
  "built_index nodes relations \<equiv> fold index_contains relations (initial_index nodes)"

lemma find_increment: "omap_find (increment k m) x = (if x = k then map_option Suc (omap_find m x) else omap_find m x)"
  by (induction m) (auto simp: increment_def)

lemma find_push_child: "omap_find (push_child k v m) x = (if x = k then map_option (\<lambda>vs. vs @ [v]) (omap_find m x) else omap_find m x)"
  by (induction m) (auto simp: push_child_def)

lemma increment_keys: "omap_keys (increment k m) = omap_keys m"
  by (induction m) (auto simp: increment_def)

lemma find_fold_put_ids:
  "omap_find (fold (\<lambda>n m. omap_put (un_id n) v m) ns m) x = (if x \<in> un_id ` set ns then Some v else omap_find m x)"
  by (induction ns arbitrary: m) (auto simp: omap_find_put)

lemma initial_index_find:
  "omap_find (ci_incoming (initial_index ns)) n = (if n \<in> un_id ` set ns then Some 0 else None)"
  "omap_find (ci_children (initial_index ns)) n = (if n \<in> un_id ` set ns then Some [] else None)"
  by (simp_all add: initial_index_def find_fold_put_ids)

lemma fold_index_find:
  "omap_find (ci_incoming (fold index_contains rs ci)) n =
     map_option (\<lambda>c. c + length (filter (\<lambda>r. is_contains r \<and> ur_target r = n) rs)) (omap_find (ci_incoming ci) n)"
  "omap_find (ci_children (fold index_contains rs ci)) n =
     map_option (\<lambda>cs. cs @ map ur_target (filter (\<lambda>r. is_contains r \<and> ur_source r = n) rs)) (omap_find (ci_children ci) n)"
  by (induction rs arbitrary: ci) (auto simp: index_contains_def find_increment find_push_child option.map_comp comp_def
      option.map_ident)

lemma omap_ok_initial: "omap_ok (ci_incoming (initial_index ns))"
proof -
  have "omap_ok m \<Longrightarrow> omap_ok (fold (\<lambda>n m. omap_put (un_id n) (0::nat) m) ns m)" for m
    by (induction ns arbitrary: m) auto
  then show ?thesis by (simp add: initial_index_def)
qed

lemma built_index_ok: "omap_ok (ci_incoming (built_index ns rs))"
proof -
  have "omap_ok (ci_incoming ci) \<Longrightarrow> omap_ok (ci_incoming (fold index_contains rs ci))" for ci
    by (induction rs arbitrary: ci) (auto simp: index_contains_def omap_ok_def increment_keys)
  then show ?thesis using omap_ok_initial by simp
qed

lemma built_incoming:
  "omap_find (ci_incoming (built_index ns rs)) n =
     (if n \<in> un_id ` set ns then Some (length (filter (\<lambda>r. is_contains r \<and> ur_target r = n) rs)) else None)"
  by (simp add: fold_index_find initial_index_find)

lemma built_children:
  "(\<forall>r\<in>set rs. relation_ok (un_id ` set ns) r) \<Longrightarrow>
   children_of (built_index ns rs) n = map ur_target (filter (\<lambda>r. is_contains r \<and> ur_source r = n) rs)"
  by (auto simp: children_of_def fold_index_find initial_index_find relation_ok_def filter_empty_conv)

lemma distinct_relation_ends:
  "distinct rs \<Longrightarrow> distinct (map ur_target (filter (\<lambda>r. is_contains r \<and> ur_source r = n) rs))"
  "distinct rs \<Longrightarrow> distinct (map ur_source (filter (\<lambda>r. is_contains r \<and> ur_target r = n) rs))"
  by (auto simp: distinct_map inj_on_def)

lemma containment_successors:
  assumes "\<forall>r\<in>set rs. relation_ok (un_id ` set ns) r" and "distinct rs"
  shows "successor_graph (un_id ` set ns) (children_of (built_index ns rs))"
  using assms by unfold_locales (auto simp: built_children distinct_relation_ends relation_ok_def)

lemma containment_preds:
  assumes "\<forall>r\<in>set rs. relation_ok (un_id ` set ns) r" and "distinct rs"
  shows "successor_graph.preds (children_of (built_index ns rs)) n = {m. (m, n) \<in> containment rs}"
  by (auto simp: successor_graph.preds_def [OF containment_successors [OF assms]] built_children [OF assms(1)]
      containment_def image_iff)

lemma containment_edges:
  assumes "\<forall>r\<in>set rs. relation_ok (un_id ` set ns) r" and "distinct rs"
  shows "successor_graph.edges (children_of (built_index ns rs)) = containment rs"
  by (auto simp: successor_graph.edges_def [OF containment_successors [OF assms]] built_children [OF assms(1)]
      containment_def image_iff)

lemma incoming_is_preds:
  assumes "distinct rs"
  shows "length (filter (\<lambda>r. is_contains r \<and> ur_target r = n) rs) = card {m. (m, n) \<in> containment rs}"
proof -
  have "{m. (m, n) \<in> containment rs} = set (map ur_source (filter (\<lambda>r. is_contains r \<and> ur_target r = n) rs))"
    by (auto simp: containment_def)
  then show ?thesis using distinct_card [OF distinct_relation_ends(2) [OF assms, of n]] by simp
qed

lemma finite_containment: "finite (containment rs)"
  unfolding containment_def by (rule finite_subset [of _ "(\<lambda>r. (ur_source r, ur_target r)) ` set rs"]) auto

lemma no_parent: "distinct rs \<Longrightarrow>
  omap_find (ci_incoming (built_index ns rs)) n = Some 0 \<longleftrightarrow> n \<in> un_id ` set ns \<and> n \<notin> Range (containment rs)"
  using finite_subset [OF _ finite_imageI [OF finite_containment, of fst], of "{m. (m, n) \<in> containment rs}" rs]
  by (auto simp: built_incoming incoming_is_preds split: if_splits)

lemma containment_counts:
  assumes "\<forall>r\<in>set rs. relation_ok (un_id ` set ns) r" and "distinct rs"
  shows "successor_graph.counts (un_id ` set ns) (children_of (built_index ns rs)) (\<lambda>_. {}) (ci_incoming (built_index ns rs))"
  by (simp add: successor_graph.counts_def [OF containment_successors [OF assms]] containment_preds [OF assms]
      built_incoming incoming_is_preds [OF assms(2)])

lemma root_nodes_spec:
  assumes "distinct rs"
  shows "strictly_sorted (root_nodes (built_index ns rs))"
    and "set (root_nodes (built_index ns rs)) = un_id ` set ns - Range (containment rs)"
proof -
  let ?m = "ci_incoming (built_index ns rs)"
  have "strictly_sorted (omap_keys ?m)" using built_index_ok by (simp add: omap_ok_def)
  then show "strictly_sorted (root_nodes (built_index ns rs))"
    unfolding root_nodes_def by (simp add: sorted_wrt_map sorted_wrt_filter)
  have "set (root_nodes (built_index ns rs)) = {n. omap_find ?m n = Some 0}"
  proof (rule set_eqI)
    fix n
    have "n \<in> set (root_nodes (built_index ns rs)) \<longleftrightarrow> (n, 0) \<in> set ?m" by (force simp: root_nodes_def)
    also have "\<dots> \<longleftrightarrow> omap_find ?m n = Some 0"
      using omap_find_in_set [of ?m n 0] omap_find_of_set [OF built_index_ok, of n 0] by blast
    finally show "n \<in> set (root_nodes (built_index ns rs)) \<longleftrightarrow> n \<in> {n. omap_find ?m n = Some 0}" by simp
  qed
  then show "set (root_nodes (built_index ns rs)) = un_id ` set ns - Range (containment rs)"
    by (auto simp: no_parent [OF assms])
qed

lemma fold_visit_prefix:
  "fold visit_successor ts (xs @ ys, m) =
     (xs @ fst (fold visit_successor ts (ys, m)), snd (fold visit_successor ts (ys, m)))"
proof (induction ts arbitrary: ys m)
  case (Cons t ts)
  have "visit_successor t (xs @ ys, m) = (xs @ fst (visit_successor t (ys, m)), snd (visit_successor t (ys, m)))"
    by (simp add: visit_successor_def Let_def split: option.split)
  then show ?case using Cons.IH [of "fst (visit_successor t (ys, m))"] by simp
qed simp

lemma contains_walk_length:
  "cursor \<le> length order \<Longrightarrow>
   contains_walk ci (drop cursor order) remaining visited + cursor =
   visited + length (kahn_walk (children_of ci) order cursor remaining)"
proof (induction s \<equiv> "children_of ci" order cursor remaining arbitrary: visited rule: kahn_walk.induct)
  case (1 order cursor remaining)
  show ?case
  proof (cases "cursor < length order")
    case True
    let ?ts = "children_of ci (order ! cursor)"
    let ?s = "fold visit_successor ?ts (order, remaining)" and ?d = "fold visit_successor ?ts (drop (Suc cursor) order, remaining)"
    have split: "?s = (take (Suc cursor) order @ fst ?d, snd ?d)"
      using fold_visit_prefix [of ?ts "take (Suc cursor) order" "drop (Suc cursor) order" remaining] by simp
    have "drop (Suc cursor) (fst ?s) = fst ?d" using True by (simp add: split)
    moreover have "Suc cursor \<le> length (fst ?s)" using True by (simp add: split)
    ultimately have "contains_walk ci (fst ?d) (snd ?d) (visited + 1) + Suc cursor =
        visited + 1 + length (kahn_walk (children_of ci) (fst ?s) (Suc cursor) (snd ?s))"
      using 1(1) [OF True refl, of "visited + 1"] by (simp add: split)
    then show ?thesis
      using True by (simp add: Cons_nth_drop_Suc [symmetric] kahn_walk.simps [of "children_of ci" order cursor] Let_def)
  next
    case False
    then show ?thesis using 1(2) by (simp add: kahn_walk.simps)
  qed
qed

lemma walk_visits_all:
  assumes "\<forall>r\<in>set rs. relation_ok (un_id ` set ns) r" and "distinct rs" and "distinct (map un_id ns)"
  shows "contains_walk (built_index ns rs) (root_nodes (built_index ns rs)) (ci_incoming (built_index ns rs)) 0 = length ns
    \<longleftrightarrow> acyclic (containment rs)"
proof -
  let ?ci = "built_index ns rs"
  have start: "distinct (root_nodes ?ci)"
    "set (root_nodes ?ci) = {n \<in> un_id ` set ns. successor_graph.preds (children_of ?ci) n = {}}"
    using root_nodes_spec [OF assms(2), of ns] by (auto simp: containment_preds [OF assms(1,2)] dest: strictly_sorted_distinct)
  have "card (un_id ` set ns) = length ns"
    using distinct_card [OF assms(3)] by simp
  then show ?thesis
    using contains_walk_length [of 0 "root_nodes ?ci" ?ci "ci_incoming ?ci" 0]
      successor_graph.walk_complete_iff_acyclic [OF containment_successors [OF assms(1,2)] containment_counts [OF assms(1,2)] start]
    by (simp add: containment_edges [OF assms(1,2)])
qed

lemma validation_spec:
  "case validate_and_find_roots md nodes roots relations of
     Inl e \<Rightarrow> \<not> valid_tree nodes roots relations
   | Inr found \<Rightarrow> valid_tree nodes roots relations \<and> strictly_sorted found \<and>
       set found = un_id ` set nodes - Range (containment relations)"
proof (cases "check_nodes md {} nodes")
  case (Inl e)
  then show ?thesis
    using check_nodes_spec [where md = md and known = "{}" and ns = nodes] by (auto simp: validate_and_find_roots_def valid_tree_def)
next
  case (Inr known)
  then have nodes: "\<forall>n\<in>set nodes. node_record_ok n" "distinct (map un_id nodes)" and known: "known = un_id ` set nodes"
    using check_nodes_spec [where md = md and known = "{}" and ns = nodes] by simp_all
  show ?thesis
  proof (cases "check_relations md known {} (initial_index nodes) relations")
    case rejected: (Inl e)
    then show ?thesis
      using check_relations_spec [where md = md and known = known and seen = "{}" and ci = "initial_index nodes" and rs = relations] Inr known
      by (auto simp: validate_and_find_roots_def valid_tree_def)
  next
    case accepted: (Inr ci)
    then have rels: "\<forall>r\<in>set relations. relation_ok (un_id ` set nodes) r" "distinct relations"
      and ci: "ci = built_index nodes relations"
      using check_relations_spec [where md = md and known = known and seen = "{}" and ci = "initial_index nodes" and rs = relations] known by simp_all
    have supplied: "(\<forall>root\<in>set roots. omap_find (ci_incoming ci) root = Some 0) \<and> set roots \<subseteq> un_id ` set nodes \<longleftrightarrow>
        set roots \<subseteq> un_id ` set nodes \<and> set roots \<inter> Range (containment relations) = {}"
      using no_parent [OF rels(2), of nodes] ci by auto
    show ?thesis
      using check_roots_spec [where md = md and known = known and ci = ci and supplied = "{}" and roots = roots] supplied Inr accepted known nodes rels
        walk_visits_all [OF rels nodes(2)] root_nodes_spec [OF rels(2), of nodes] ci
      by (auto simp: validate_and_find_roots_def valid_tree_def Let_def split: sum.splits)
  qed
qed

text \<open>
  C8. Validation accepts exactly the well-formed trees: node ids non-zero and distinct, no node with a repeated property or more than 256,
  relations distinct, between different known nodes and outside the reserved ids, supplied roots
  known, distinct and without a parent, and no cycle of \<open>contains\<close> relations. What it returns are the nodes without a parent, in
  ascending order.\<close>

theorem validation_exact:
  "case validate_and_find_roots md nodes roots relations of
     Inl e \<Rightarrow> \<not> valid_tree nodes roots relations
   | Inr found \<Rightarrow> valid_tree nodes roots relations \<and> strictly_sorted found \<and>
       set found = un_id ` set nodes - Range (containment relations)"
  by (rule validation_spec)

end
