(* ===== verification/Tree_Events.thy ===== *)
theory Tree_Events
  imports Tree_Generation
begin

unbundle bit_operations_syntax

text \<open>
  Generations and events of \<open>src/kernel/graph/tree_store.cpp\<close>: a validated snapshot becomes a
  generation, with the core relations of each pair of nodes packed into the bit mask of one graph edge, the
  other relations in a sorted set, and the facts of the nodes in parallel arrays; two generations give
  the events of an update. Shown: the generation of a valid snapshot is always built, the masks and the set
  hold exactly its relations, and the events announce each difference of the two snapshots once, differences of facets
  excepted, which the code does not compare.
\<close>

section \<open>Generations\<close>

type_synonym extension_key = "node_id \<times> node_id \<times> relation_id"

record property_slice =
  ps_offset :: nat
  ps_count :: u16

record generation =
  gn_snapshot :: ui_snapshot
  gn_relations :: "(node_id, u32) adjacency_graph"
  gn_node_indexes :: "(node_id, u32) omap"
  gn_node_ids :: "node_id list"
  gn_node_generations :: "u32 list"
  gn_roles :: "u32 list"
  gn_states :: "u32 list"
  gn_property_slices :: "property_slice list"
  gn_property_ids :: "property_id list"
  gn_property_value_indexes :: "u8 list"
  gn_property_values :: "property_read list"
  gn_extension_relations :: "extension_key list"

definition empty_generation :: "ui_snapshot \<Rightarrow> generation" where
  "empty_generation s =
     \<lparr>gn_snapshot = s, gn_relations = empty_graph, gn_node_indexes = [], gn_node_ids = [], gn_node_generations = [],
      gn_roles = [], gn_states = [], gn_property_slices = [], gn_property_ids = [], gn_property_value_indexes = [],
      gn_property_values = [], gn_extension_relations = []\<rparr>"

definition add_facts :: "ui_node_record \<Rightarrow> nat \<Rightarrow> generation \<Rightarrow> generation" where
  "add_facts n position g =
     (let ids = property_ids_of n
      in g\<lparr>gn_node_indexes := (case omap_find (gn_node_indexes g) (un_id n) of
                                 None \<Rightarrow> omap_put (un_id n) (word_of_nat position) (gn_node_indexes g)
                               | Some _ \<Rightarrow> gn_node_indexes g),
           gn_node_ids := gn_node_ids g @ [un_id n],
           gn_node_generations := gn_node_generations g @ [un_generation n],
           gn_roles := gn_roles g @ [un_role n],
           gn_states := gn_states g @ [un_states n],
           gn_property_slices := gn_property_slices g @
             [\<lparr>ps_offset = length (gn_property_ids g), ps_count = word_of_nat (length ids)\<rparr>],
           gn_property_ids := gn_property_ids g @ ids,
           gn_property_value_indexes := gn_property_value_indexes g @ map word_of_nat [0..<length ids],
           gn_property_values := gn_property_values g @ map (node_property n) ids\<rparr>)"

fun add_nodes :: "ui_snapshot_metadata \<Rightarrow> ui_node_record list \<Rightarrow> nat \<Rightarrow> generation \<Rightarrow> generation result" where
  "add_nodes md [] position g = Inr g"
| "add_nodes md (n # ns) position g =
     (case add_node (un_id n) (gn_relations g) of
        (added, graph) \<Rightarrow>
          if \<not> added then Inl (rejection InternalFault ''snapshot lists the same node id more than once'' md)
          else add_nodes md ns (position + 1) ((add_facts n position g)\<lparr>gn_relations := graph\<rparr>))"

definition collect_relation ::
  "ui_relation \<Rightarrow> (node_id \<times> node_id, u32) omap \<times> extension_key list \<Rightarrow> (node_id \<times> node_id, u32) omap \<times> extension_key list" where
  "collect_relation r acc =
     (case acc of (core, extension) \<Rightarrow>
        let core_bit = relation_bit (ur_relation r); ends = (ur_source r, ur_target r)
        in if core_bit \<noteq> 0
           then (omap_put ends ((case omap_find core ends of None \<Rightarrow> 0 | Some bits \<Rightarrow> bits) OR core_bit) core, extension)
           else (core, insort (ur_source r, ur_target r, ur_relation r) extension))"

fun add_core_edges ::
  "ui_snapshot_metadata \<Rightarrow> (node_id \<times> node_id, u32) omap \<Rightarrow> (node_id, u32) adjacency_graph \<Rightarrow> (node_id, u32) adjacency_graph result" where
  "add_core_edges md [] graph = Inr graph"
| "add_core_edges md ((ends, bits) # core) graph =
     (case add_edge (fst ends) (snd ends) bits graph of
        (added, graph) \<Rightarrow>
          if \<not> added
          then Inl (rejection InternalFault
                      ''relation names an endpoint the snapshot does not declare, or relates a node to itself'' md)
          else add_core_edges md core graph)"

definition build_generation :: "ui_snapshot \<Rightarrow> generation result" where
  "build_generation s =
     (let md = metadata_of s
      in if int (length (us_nodes s)) > 4294967296
         then Inl (rejection InvalidArgument ''tree exceeds dense node index limit'' md)
         else case add_nodes md (us_nodes s) 0 (empty_generation s) of
                Inl e \<Rightarrow> Inl e
              | Inr g \<Rightarrow>
                  (case fold collect_relation (us_relations s) ([], []) of
                     (core, extension) \<Rightarrow>
                       (case add_core_edges md core (gn_relations g) of
                          Inl e \<Rightarrow> Inl e
                        | Inr graph \<Rightarrow> Inr (g\<lparr>gn_relations := graph, gn_extension_relations := extension\<rparr>))))"

section \<open>Comparing nodes\<close>

definition property_id_at :: "generation \<Rightarrow> property_slice \<Rightarrow> nat \<Rightarrow> property_id" where
  "property_id_at g sl i = gn_property_ids g ! (ps_offset sl + i)"

definition property_value_at :: "generation \<Rightarrow> property_slice \<Rightarrow> nat \<Rightarrow> property_read" where
  "property_value_at g sl i =
     gn_property_values g ! (ps_offset sl + unat (gn_property_value_indexes g ! (ps_offset sl + i)))"

text \<open>The inner loop: the first property of the other node with the same id decides.\<close>

definition property_found :: "generation \<Rightarrow> property_slice \<Rightarrow> generation \<Rightarrow> property_slice \<Rightarrow> nat \<Rightarrow> bool" where
  "property_found before before_slice after after_slice i =
     (case find (\<lambda>j. property_id_at after after_slice j = property_id_at before before_slice i) [0..<unat (ps_count after_slice)] of
        None \<Rightarrow> False
      | Some j \<Rightarrow> property_read_equal (property_value_at before before_slice i) (property_value_at after after_slice j))"

definition same_node_facts :: "generation \<Rightarrow> u32 \<Rightarrow> generation \<Rightarrow> u32 \<Rightarrow> bool" where
  "same_node_facts before before_index after after_index =
     (let b = unat before_index; a = unat after_index
      in if gn_node_generations before ! b \<noteq> gn_node_generations after ! a \<or> gn_roles before ! b \<noteq> gn_roles after ! a \<or>
            gn_states before ! b \<noteq> gn_states after ! a then False
         else let before_slice = gn_property_slices before ! b; after_slice = gn_property_slices after ! a
              in if ps_count before_slice \<noteq> ps_count after_slice then False
                 else list_all (property_found before before_slice after after_slice) [0..<unat (ps_count before_slice)])"

section \<open>Events\<close>

datatype tree_event_kind = NodeAdded | NodeRemoved | NodeChanged | RelationAdded | RelationRemoved

record tree_event =
  te_kind :: tree_event_kind
  te_runtime :: u32
  te_tree :: u32
  te_epoch :: u32
  te_revision :: u64
  te_node :: node_id
  te_related :: node_id
  te_relation :: relation_id

definition event_of :: "tree_event_kind \<Rightarrow> generation \<Rightarrow> node_id \<Rightarrow> node_id \<Rightarrow> relation_id \<Rightarrow> tree_event" where
  "event_of kind g n m r =
     \<lparr>te_kind = kind, te_runtime = us_runtime (gn_snapshot g), te_tree = us_tree (gn_snapshot g),
      te_epoch = us_epoch (gn_snapshot g), te_revision = us_revision (gn_snapshot g), te_node = n, te_related = m,
      te_relation = r\<rparr>"

definition node_event :: "tree_event_kind \<Rightarrow> generation \<Rightarrow> node_id \<Rightarrow> tree_event" where
  "node_event kind g n = event_of kind g n 0 0"

definition relation_bit_events :: "tree_event_kind \<Rightarrow> generation \<Rightarrow> node_id \<Rightarrow> node_id \<Rightarrow> u32 \<Rightarrow> tree_event list" where
  "relation_bit_events kind g source tgt bits =
     map (\<lambda>index. event_of kind g source tgt (word_of_nat index))
       (filter (\<lambda>index. bits AND push_bit index 1 \<noteq> 0) [0..<32])"

definition edge_relations :: "(node_id, u32) adjacency_graph \<Rightarrow> node_id \<Rightarrow> node_id \<Rightarrow> u32 option" where
  "edge_relations graph source tgt = edge_payload graph source tgt"

definition edge_events :: "tree_event_kind \<Rightarrow> generation \<Rightarrow> node_id \<times> node_id \<Rightarrow> tree_event list" where
  "edge_events kind g e =
     (case edge_relations (gn_relations g) (fst e) (snd e) of
        None \<Rightarrow> [] | Some bits \<Rightarrow> relation_bit_events kind g (fst e) (snd e) bits)"

definition extension_event :: "tree_event_kind \<Rightarrow> generation \<Rightarrow> extension_key \<Rightarrow> tree_event" where
  "extension_event kind g key = event_of kind g (fst key) (fst (snd key)) (snd (snd key))"

definition changed_edge_events :: "generation \<Rightarrow> generation \<Rightarrow> node_id \<times> node_id \<Rightarrow> tree_event list" where
  "changed_edge_events before after e =
     (let bits = \<lambda>g. (case edge_relations (gn_relations g) (fst e) (snd e) of None \<Rightarrow> 0 | Some b \<Rightarrow> b);
          before_bits = bits before; after_bits = bits after
      in relation_bit_events RelationRemoved before (fst e) (snd e) (before_bits AND NOT after_bits) @
         relation_bit_events RelationAdded after (fst e) (snd e) (after_bits AND NOT before_bits))"

definition changed_nodes :: "generation \<Rightarrow> generation \<Rightarrow> node_id list" where
  "changed_nodes before after =
     map fst (filter (\<lambda>(n, after_index).
        case omap_find (gn_node_indexes before) n of
          None \<Rightarrow> False
        | Some before_index \<Rightarrow> \<not> same_node_facts before before_index after after_index) (gn_node_indexes after))"

definition derive_same_scope_events :: "generation \<Rightarrow> generation \<Rightarrow> tree_event list" where
  "derive_same_scope_events before after =
     (let delta = graph_difference (gn_relations before) (gn_relations after) (=)
      in map (node_event NodeRemoved before) (removed_nodes delta) @
         map (node_event NodeAdded after) (added_nodes delta) @
         map (node_event NodeChanged after) (changed_nodes before after) @
         concat (map (edge_events RelationRemoved before) (removed_edges delta)) @
         concat (map (edge_events RelationAdded after) (added_edges delta)) @
         concat (map (changed_edge_events before after) (changed_edges delta)) @
         map (extension_event RelationRemoved before)
           (filter (\<lambda>key. key \<notin> set (gn_extension_relations after)) (gn_extension_relations before)) @
         map (extension_event RelationAdded after)
           (filter (\<lambda>key. key \<notin> set (gn_extension_relations before)) (gn_extension_relations after)))"

definition added_generation_events :: "generation \<Rightarrow> tree_event list" where
  "added_generation_events after =
     (let delta = graph_difference empty_graph (gn_relations after) (=)
      in map (node_event NodeAdded after) (added_nodes delta) @
         concat (map (edge_events RelationAdded after) (added_edges delta)) @
         map (extension_event RelationAdded after) (gn_extension_relations after))"

definition removed_generation_events :: "generation \<Rightarrow> tree_event list" where
  "removed_generation_events before =
     (let delta = graph_difference (gn_relations before) empty_graph (=)
      in map (node_event NodeRemoved before) (removed_nodes delta) @
         concat (map (edge_events RelationRemoved before) (removed_edges delta)) @
         map (extension_event RelationRemoved before) (gn_extension_relations before))"

definition same_scope :: "ui_snapshot \<Rightarrow> ui_snapshot \<Rightarrow> bool" where
  "same_scope a b \<longleftrightarrow> us_runtime a = us_runtime b \<and> us_tree a = us_tree b \<and> us_epoch a = us_epoch b"

definition derive_replacement_events :: "generation option \<Rightarrow> generation \<Rightarrow> tree_event list" where
  "derive_replacement_events before after =
     (case before of
        None \<Rightarrow> added_generation_events after
      | Some before \<Rightarrow>
          if same_scope (gn_snapshot before) (gn_snapshot after) then derive_same_scope_events before after
          else removed_generation_events before @ added_generation_events after)"

section \<open>Node facts\<close>

text \<open>The arrays of a generation hold the facts of the nodes that were added, in their order.\<close>

definition slice_holds :: "generation \<Rightarrow> property_slice \<Rightarrow> ui_node_record \<Rightarrow> bool" where
  "slice_holds g sl n \<longleftrightarrow>
     ps_count sl = word_of_nat (length (property_ids_of n)) \<and>
     ps_offset sl + length (property_ids_of n) \<le> length (gn_property_ids g) \<and>
     (\<forall>j<length (property_ids_of n).
        gn_property_ids g ! (ps_offset sl + j) = property_ids_of n ! j \<and>
        gn_property_value_indexes g ! (ps_offset sl + j) = word_of_nat j \<and>
        gn_property_values g ! (ps_offset sl + j) = node_property n (property_ids_of n ! j))"

definition facts_ok :: "ui_node_record list \<Rightarrow> generation \<Rightarrow> bool" where
  "facts_ok ns g \<longleftrightarrow>
     gn_node_ids g = map un_id ns \<and> gn_node_generations g = map un_generation ns \<and> gn_roles g = map un_role ns \<and>
     gn_states g = map un_states ns \<and> length (gn_property_slices g) = length ns \<and>
     length (gn_property_value_indexes g) = length (gn_property_ids g) \<and>
     length (gn_property_values g) = length (gn_property_ids g) \<and>
     (\<forall>i<length ns. slice_holds g (gn_property_slices g ! i) (ns ! i)) \<and>
     omap_ok (gn_node_indexes g) \<and>
     (\<forall>i<length ns. omap_find (gn_node_indexes g) (un_id (ns ! i)) = Some (word_of_nat i)) \<and>
     dom (omap_find (gn_node_indexes g)) = un_id ` set ns"

lemma slice_holds_extend:
  assumes "slice_holds g sl n"
    and "gn_property_ids h = gn_property_ids g @ xs" and "gn_property_value_indexes h = gn_property_value_indexes g @ ys"
    and "gn_property_values h = gn_property_values g @ zs"
    and "length (gn_property_value_indexes g) = length (gn_property_ids g)"
    and "length (gn_property_values g) = length (gn_property_ids g)"
  shows "slice_holds h sl n"
  using assms by (auto simp: slice_holds_def nth_append)

lemma slice_holds_new:
  assumes "length (gn_property_value_indexes g) = length (gn_property_ids g)"
    and "length (gn_property_values g) = length (gn_property_ids g)"
  shows "slice_holds (add_facts n position g)
           \<lparr>ps_offset = length (gn_property_ids g), ps_count = word_of_nat (length (property_ids_of n))\<rparr> n"
  using assms by (simp add: slice_holds_def add_facts_def Let_def nth_append)

lemma facts_ok_empty: "facts_ok [] (empty_generation s)"
  by (simp add: facts_ok_def empty_generation_def dom_def)

lemma facts_ok_add:
  assumes "facts_ok ns g" and "un_id n \<notin> un_id ` set ns"
  shows "facts_ok (ns @ [n]) (add_facts n (length ns) g)"
proof -
  let ?h = "add_facts n (length ns) g"
  have len: "length (gn_property_value_indexes g) = length (gn_property_ids g)"
    "length (gn_property_values g) = length (gn_property_ids g)"
    using assms(1) by (simp_all add: facts_ok_def)
  have new: "omap_find (gn_node_indexes g) (un_id n) = None"
    using assms by (auto simp: facts_ok_def)
  have old: "slice_holds ?h sl x" if "slice_holds g sl x" for sl x
    by (rule slice_holds_extend [OF that _ _ _ len]) (simp_all add: add_facts_def Let_def)
  have "slice_holds ?h (gn_property_slices ?h ! i) ((ns @ [n]) ! i)" if "i < length (ns @ [n])" for i
    using that old slice_holds_new [OF len, of n "length ns"] assms(1)
    by (auto simp: facts_ok_def nth_append add_facts_def Let_def less_Suc_eq)
  moreover have "omap_find (gn_node_indexes ?h) (un_id ((ns @ [n]) ! i)) = Some (word_of_nat i)" if "i < length (ns @ [n])" for i
    using that assms new by (auto simp: facts_ok_def nth_append add_facts_def Let_def omap_find_put less_Suc_eq)
  moreover have "dom (omap_find (gn_node_indexes ?h)) = un_id ` set (ns @ [n])"
    using assms(1) new by (auto simp: facts_ok_def add_facts_def Let_def omap_find_put dom_def set_eq_iff)
  moreover have "omap_ok (gn_node_indexes ?h)"
    using assms(1) new by (simp add: facts_ok_def add_facts_def Let_def)
  ultimately show ?thesis
    using assms(1) unfolding facts_ok_def by (simp add: add_facts_def Let_def)
qed

lemma facts_ok_fields [simp]:
  "facts_ok ns (g\<lparr>gn_relations := graph\<rparr>) = facts_ok ns g" "facts_ok ns (g\<lparr>gn_extension_relations := ext\<rparr>) = facts_ok ns g"
  by (simp_all add: facts_ok_def slice_holds_def)

lemma add_nodes_spec:
  assumes "distinct (map un_id (done @ ns))" and "facts_ok done g" and "graph_wf (gn_relations g)"
    and "abs_of (gn_relations g) = \<lparr>vertices = un_id ` set done, arcs = (\<lambda>_. None)\<rparr>"
  shows "\<exists>g'. add_nodes md ns (length done) g = Inr g' \<and> facts_ok (done @ ns) g' \<and> graph_wf (gn_relations g') \<and>
    abs_of (gn_relations g') = \<lparr>vertices = un_id ` set (done @ ns), arcs = (\<lambda>_. None)\<rparr> \<and>
    gn_snapshot g' = gn_snapshot g \<and> gn_extension_relations g' = gn_extension_relations g"
  using assms
proof (induction ns arbitrary: "done" g)
  case (Cons n ns)
  let ?g = "(add_facts n (length done) g)\<lparr>gn_relations := snd (add_node (un_id n) (gn_relations g))\<rparr>"
  have abs: "fst (add_node (un_id n) (gn_relations g))"
    "abs_of (snd (add_node (un_id n) (gn_relations g))) = \<lparr>vertices = un_id ` set (done @ [n]), arcs = (\<lambda>_. None)\<rparr>"
    using abs_add_node [of "un_id n" "gn_relations g"] Cons.prems(1,4) by auto
  have "facts_ok (done @ [n]) ?g" using facts_ok_add [OF Cons.prems(2)] Cons.prems(1) by simp
  moreover have "graph_wf (gn_relations ?g)" using graph_wf_add_node [OF Cons.prems(3)] by simp
  ultimately show ?case
    using Cons.IH [of "done @ [n]" ?g] Cons.prems(1) abs
    by (simp add: case_prod_beta add_facts_def Let_def)
qed simp

section \<open>Relations of a generation\<close>

abbreviation relates :: "ui_relation list \<Rightarrow> node_id \<Rightarrow> node_id \<Rightarrow> relation_id \<Rightarrow> bool" where
  "relates rs source tgt r \<equiv> \<lparr>ur_source = source, ur_target = tgt, ur_relation = r\<rparr> \<in> set rs"

text \<open>A mask holds the core relations of a pair of nodes.\<close>

definition mask_holds :: "(relation_id \<Rightarrow> bool) \<Rightarrow> u32 option \<Rightarrow> bool" where
  "mask_holds R x \<longleftrightarrow>
     (case x of
        None \<Rightarrow> \<forall>r<32. \<not> R r
      | Some bits \<Rightarrow> (\<exists>r<32. R r) \<and> (\<forall>i<32. bit bits i \<longleftrightarrow> R (word_of_nat i)))"

lemma u32_small: "i < 32 \<Longrightarrow> unat (word_of_nat i :: u32) = i"
  by (simp add: unat_of_nat)

lemma u32_small_less: "i < 32 \<Longrightarrow> (word_of_nat i :: u32) < 32"
  by (simp add: word_less_nat_alt u32_small)

lemma u32_eq_small: "i < 32 \<Longrightarrow> r = (word_of_nat i :: u32) \<longleftrightarrow> unat r = i"
  by (metis u32_small unsigned_word_eqI)

lemma bit_relation_bit: "i < 32 \<Longrightarrow> r < 32 \<Longrightarrow> bit (relation_bit r) i \<longleftrightarrow> r = word_of_nat i"
  by (simp add: relation_bit_def core_bit_count_def bit_push_bit_iff u32_eq_small linorder_not_le [symmetric] del: push_bit_of_1)
     (auto simp: bit_1_iff)

lemma relation_bit_core: "relation_bit r = 0 \<longleftrightarrow> r \<ge> 32"
proof (cases "r < 32")
  case True
  then have "unat r < 32" by (simp add: word_less_nat_alt)
  then have "bit (relation_bit r) (unat r)" using True by (simp add: bit_relation_bit)
  then show ?thesis using True by auto
qed (auto simp: relation_bit_def core_bit_count_def linorder_not_less)

lemma mask_holds_insert:
  assumes "mask_holds R x" and "q < 32"
  shows "mask_holds (\<lambda>r. R r \<or> r = q) (Some ((case x of None \<Rightarrow> 0 | Some bits \<Rightarrow> bits) OR relation_bit q))"
  using assms by (auto simp: mask_holds_def bit_or_iff bit_relation_bit u32_small_less split: option.splits)

definition collected :: "ui_relation list \<Rightarrow> (node_id \<times> node_id, u32) omap \<times> extension_key list \<Rightarrow> bool" where
  "collected rs acc \<longleftrightarrow>
     omap_ok (fst acc) \<and>
     (\<forall>source tgt. mask_holds (relates rs source tgt) (omap_find (fst acc) (source, tgt))) \<and>
     set (snd acc) = {(source, tgt, r). relates rs source tgt r \<and> r \<ge> 32} \<and>
     (distinct rs \<longrightarrow> distinct (snd acc))"

lemma mask_holds_cong: "(\<And>r. r < 32 \<Longrightarrow> R r = Q r) \<Longrightarrow> mask_holds R x \<Longrightarrow> mask_holds Q x"
  by (auto simp: mask_holds_def u32_small_less split: option.splits)

lemma collect_relation_collected:
  assumes "collected rs acc"
  shows "collected (rs @ [r]) (collect_relation r acc)"
proof (cases "ur_relation r < 32")
  case True
  then have "relation_bit (ur_relation r) \<noteq> 0" by (simp add: relation_bit_core linorder_not_le)
  moreover have "mask_holds (relates (rs @ [r]) source tgt)
      (omap_find (fst (collect_relation r acc)) (source, tgt))" for source tgt
  proof (cases "(source, tgt) = (ur_source r, ur_target r)")
    case same: True
    have "mask_holds (\<lambda>q. relates rs source tgt q \<or> q = ur_relation r)
        (Some ((case omap_find (fst acc) (source, tgt) of None \<Rightarrow> 0 | Some bits \<Rightarrow> bits) OR relation_bit (ur_relation r)))"
      using assms by (intro mask_holds_insert [OF _ True]) (simp add: collected_def)
    then show ?thesis
      using same calculation
      by (cases r) (auto simp: collect_relation_def Let_def case_prod_beta omap_find_put intro: mask_holds_cong [rotated])
  next
    case False
    then show ?thesis
      using assms calculation
      by (cases r) (auto simp: collected_def collect_relation_def Let_def case_prod_beta omap_find_put
                         intro: mask_holds_cong [rotated])
  qed
  ultimately show ?thesis
    using assms True by (cases r) (auto simp: collected_def collect_relation_def Let_def case_prod_beta)
next
  case False
  then have "relation_bit (ur_relation r) = 0" by (simp add: relation_bit_core linorder_not_less)
  moreover have "mask_holds (relates (rs @ [r]) source tgt) (omap_find (fst acc) (source, tgt))" for source tgt
    using assms False by (cases r) (auto simp: collected_def intro: mask_holds_cong [rotated])
  ultimately show ?thesis
    using assms False
    by (cases r)
       (auto simp: collected_def collect_relation_def Let_def case_prod_beta set_insort_key distinct_insort linorder_not_less)
qed

lemma collect_relations: "collected rs (fold collect_relation rs ([], []))"
proof -
  have "collected done acc \<Longrightarrow> collected (done @ rs) (fold collect_relation rs acc)" for "done" acc
  proof (induction rs arbitrary: "done" acc)
    case (Cons r rs)
    then show ?case using Cons.IH [OF collect_relation_collected [OF Cons.prems, of r]] by simp
  qed simp
  from this [of "[]" "([], [])"] show ?thesis by (simp add: collected_def mask_holds_def)
qed

lemma add_core_edges_spec:
  assumes "graph_wf graph" and "distinct (map fst core)"
    and "\<forall>(ends, bits)\<in>set core. fst ends \<noteq> snd ends \<and> fst ends \<in> vertices (abs_of graph) \<and> snd ends \<in> vertices (abs_of graph) \<and>
           arcs (abs_of graph) ends = None"
  shows "\<exists>graph'. add_core_edges md core graph = Inr graph' \<and> graph_wf graph' \<and>
    abs_of graph' = \<lparr>vertices = vertices (abs_of graph), arcs = arcs (abs_of graph) ++ omap_find core\<rparr>"
  using assms
proof (induction core arbitrary: graph)
  case Nil
  then show ?case by (simp add: fun_eq_iff map_add_def)
next
  case (Cons c core)
  obtain source tgt bits where c: "c = ((source, tgt), bits)" by (metis prod.exhaust)
  let ?g = "snd (add_edge source tgt bits graph)"
  have abs: "fst (add_edge source tgt bits graph)"
    "abs_of ?g = (abs_of graph)\<lparr>arcs := (arcs (abs_of graph))((source, tgt) \<mapsto> bits)\<rparr>"
    using abs_add_edge [OF Cons.prems(1), of source tgt bits] Cons.prems(3) c by auto
  have dist: "distinct (map fst core)" using Cons.prems(2) by simp
  have "\<forall>(ends, bits)\<in>set core. fst ends \<noteq> snd ends \<and> fst ends \<in> vertices (abs_of ?g) \<and> snd ends \<in> vertices (abs_of ?g) \<and>
          arcs (abs_of ?g) ends = None"
  proof (clarify, goal_cases)
    case (1 source' tgt' bits')
    then have "(source', tgt') \<noteq> (source, tgt)" using Cons.prems(2) c by (force simp: image_iff)
    then show ?case using 1 Cons.prems(3) abs(2) by fastforce
  qed
  from Cons.IH [OF graph_wf_add_edge [OF Cons.prems(1)] dist this] obtain graph' where g': "add_core_edges md core ?g = Inr graph'" "graph_wf graph'"
    "abs_of graph' = \<lparr>vertices = vertices (abs_of ?g), arcs = arcs (abs_of ?g) ++ omap_find core\<rparr>"
    by blast
  have "omap_find core (source, tgt) = None"
    using Cons.prems(2) c by (simp add: omap_find_None_iff)
  then have "(arcs (abs_of graph))((source, tgt) \<mapsto> bits) ++ omap_find core = arcs (abs_of graph) ++ omap_find (c # core)"
    unfolding c by (intro ext) (auto simp: map_add_def split: option.split)
  then have "abs_of graph' = \<lparr>vertices = vertices (abs_of graph), arcs = arcs (abs_of graph) ++ omap_find (c # core)\<rparr>"
    using g'(3) abs(2) by simp
  moreover have "add_core_edges md (c # core) graph = Inr graph'"
    using g'(1) abs(1) c by (simp add: case_prod_beta)
  ultimately show ?case using g'(2) by blast
qed

section \<open>The generation of a valid snapshot\<close>

definition represents :: "generation \<Rightarrow> ui_snapshot \<Rightarrow> bool" where
  "represents g s \<longleftrightarrow>
     gn_snapshot g = s \<and> facts_ok (us_nodes s) g \<and> graph_wf (gn_relations g) \<and>
     {n. contains_node (gn_relations g) n} = un_id ` set (us_nodes s) \<and>
     (\<forall>source tgt. mask_holds (relates (us_relations s) source tgt) (edge_payload (gn_relations g) source tgt)) \<and>
     set (gn_extension_relations g) = {(source, tgt, r). relates (us_relations s) source tgt r \<and> r \<ge> 32} \<and>
     (distinct (us_relations s) \<longrightarrow> distinct (gn_extension_relations g))"

lemma omap_find_member: "omap_ok m \<Longrightarrow> (k, v) \<in> set m \<longleftrightarrow> omap_find m k = Some v"
  by (rule iffI, erule (1) omap_find_of_set, erule omap_find_in_set)

lemma abs_of_empty: "abs_of empty_graph = \<lparr>vertices = {}, arcs = (\<lambda>_. None)\<rparr>"
  by (simp add: abs_of_def empty_graph_def contains_node_def omap_contains_def edge_payload_def fun_eq_iff)

lemma mask_holds_Some: "mask_holds R (Some bits) \<Longrightarrow> \<exists>r. R r"
  by (auto simp: mask_holds_def)

lemma build_generation_spec:
  assumes ids: "distinct (map un_id (us_nodes s))" and rels: "\<forall>r\<in>set (us_relations s). relation_ok (un_id ` set (us_nodes s)) r"
    and small: "int (length (us_nodes s)) \<le> 4294967296"
  shows "\<exists>g. build_generation s = Inr g \<and> represents g s"
proof -
  let ?md = "metadata_of s"
  obtain g where g: "add_nodes ?md (us_nodes s) 0 (empty_generation s) = Inr g" "facts_ok (us_nodes s) g"
    "graph_wf (gn_relations g)" "abs_of (gn_relations g) = \<lparr>vertices = un_id ` set (us_nodes s), arcs = (\<lambda>_. None)\<rparr>"
    "gn_snapshot g = s"
    using add_nodes_spec [of "[]" "us_nodes s" "empty_generation s" ?md] ids facts_ok_empty [of s]
    by (auto simp: empty_generation_def graph_wf_empty abs_of_empty)
  obtain core extension where fold: "fold collect_relation (us_relations s) ([], []) = (core, extension)" by fastforce
  then have col: "omap_ok core" "\<And>source tgt. mask_holds (relates (us_relations s) source tgt) (omap_find core (source, tgt))"
    "set extension = {(source, tgt, r). relates (us_relations s) source tgt r \<and> r \<ge> 32}"
    "distinct (us_relations s) \<Longrightarrow> distinct extension"
    using collect_relations [of "us_relations s"] by (simp_all add: collected_def)
  have "\<forall>(ends, bits)\<in>set core. fst ends \<noteq> snd ends \<and> fst ends \<in> vertices (abs_of (gn_relations g)) \<and>
          snd ends \<in> vertices (abs_of (gn_relations g)) \<and> arcs (abs_of (gn_relations g)) ends = None"
  proof (clarify, goal_cases)
    case (1 source tgt bits)
    then have "omap_find core (source, tgt) = Some bits" using col(1) by (simp add: omap_find_member)
    then obtain r where "relates (us_relations s) source tgt r" using col(2) [of source tgt] mask_holds_Some by fastforce
    then show ?case using rels g(4) by (auto simp: relation_ok_def)
  qed
  moreover have "distinct (map fst core)" using om.distinct_ks [OF col(1)] .
  ultimately obtain graph where graph: "add_core_edges ?md core (gn_relations g) = Inr graph" "graph_wf graph"
    "abs_of graph = \<lparr>vertices = un_id ` set (us_nodes s), arcs = omap_find core\<rparr>"
    using add_core_edges_spec [OF g(3), of core ?md] g(4) by auto
  have "{n. contains_node graph n} = un_id ` set (us_nodes s)" "edge_payload graph source tgt = omap_find core (source, tgt)" for source tgt
    using graph(3) by (simp_all add: abs_of_def fun_eq_iff)
  then have "represents (g\<lparr>gn_relations := graph, gn_extension_relations := extension\<rparr>) s"
    using g graph col by (simp add: represents_def)
  then show ?thesis using g(1) fold graph(1) small by (simp add: build_generation_def Let_def)
qed

section \<open>Events are the differences\<close>

definition node_facts_equal :: "ui_node_record \<Rightarrow> ui_node_record \<Rightarrow> bool" where
  "node_facts_equal x y \<longleftrightarrow>
     un_generation x = un_generation y \<and> un_role x = un_role y \<and> un_states x = un_states y \<and>
     length (property_ids_of x) = length (property_ids_of y) \<and>
     (\<forall>p\<in>set (property_ids_of x). p \<in> set (property_ids_of y) \<and> property_read_equal (node_property x p) (node_property y p))"

lemma find_index:
  assumes "distinct xs" and "j < length xs"
  shows "find (\<lambda>i. xs ! i = xs ! j) [0..<length xs] = Some j"
proof -
  have "\<exists>i. find (\<lambda>i. xs ! i = xs ! j) [0..<length xs] = Some i"
    using assms(2) find_None_iff [of "\<lambda>i. xs ! i = xs ! j" "[0..<length xs]"] by auto
  then obtain i where i: "find (\<lambda>i. xs ! i = xs ! j) [0..<length xs] = Some i" by blast
  then have "i < length xs" "xs ! i = xs ! j" by (auto simp: find_Some_iff)
  then show ?thesis using i assms by (simp add: nth_eq_iff_index_eq)
qed

lemma find_id_cong: "(\<And>i. i < n \<Longrightarrow> P i = Q i) \<Longrightarrow> find P [0..<n] = find Q [0..<n]"
  by (rule find_cong) auto

lemma slice_reads:
  assumes "slice_holds g sl n" and "node_record_ok n"
  shows "unat (ps_count sl) = length (property_ids_of n)"
    and "j < length (property_ids_of n) \<Longrightarrow> property_id_at g sl j = property_ids_of n ! j"
    and "j < length (property_ids_of n) \<Longrightarrow> property_value_at g sl j = node_property n (property_ids_of n ! j)"
  using assms
  by (auto simp: slice_holds_def node_record_ok_def max_properties_per_node_def property_id_at_def property_value_at_def
      unat_of_nat)

lemma property_found_spec:
  assumes b: "slice_holds before sb x" "node_record_ok x" and a: "slice_holds after sa y" "node_record_ok y"
    and i: "i < length (property_ids_of x)"
  shows "property_found before sb after sa i \<longleftrightarrow>
    property_ids_of x ! i \<in> set (property_ids_of y) \<and>
    property_read_equal (node_property x (property_ids_of x ! i)) (node_property y (property_ids_of x ! i))"
proof -
  let ?p = "property_ids_of x ! i" and ?ys = "property_ids_of y"
  have find: "find (\<lambda>j. property_id_at after sa j = property_id_at before sb i) [0..<unat (ps_count sa)] =
      find (\<lambda>j. ?ys ! j = ?p) [0..<length ?ys]"
    using slice_reads [OF a] slice_reads [OF b] i by (auto intro!: find_id_cong)
  have dist: "distinct ?ys" using a(2) by (simp add: node_record_ok_def)
  show ?thesis
  proof (cases "?p \<in> set ?ys")
    case True
    then obtain j where j: "j < length ?ys" "?ys ! j = ?p" by (auto simp: in_set_conv_nth)
    then have "find (\<lambda>j. ?ys ! j = ?p) [0..<length ?ys] = Some j" using find_index [OF dist j(1)] by simp
    then show ?thesis
      unfolding property_found_def find using True j slice_reads(3) [OF a] slice_reads(3) [OF b] i by simp
  next
    case False
    then have "find (\<lambda>j. ?ys ! j = ?p) [0..<length ?ys] = None"
      by (auto simp: find_None_iff in_set_conv_nth)
    then show ?thesis unfolding property_found_def find using False by simp
  qed
qed

lemma same_node_facts_spec:
  assumes before: "facts_ok xs before" "i < length xs" "node_record_ok (xs ! i)" "int (length xs) \<le> 4294967296"
    and after: "facts_ok ys after" "j < length ys" "node_record_ok (ys ! j)" "int (length ys) \<le> 4294967296"
  shows "same_node_facts before (word_of_nat i) after (word_of_nat j) \<longleftrightarrow> node_facts_equal (xs ! i) (ys ! j)"
proof -
  let ?x = "xs ! i" and ?y = "ys ! j"
  have idx: "unat (word_of_nat i :: u32) = i" "unat (word_of_nat j :: u32) = j"
    using before(2,4) after(2,4) by (simp_all add: unat_of_nat)
  let ?sb = "gn_property_slices before ! i" and ?sa = "gn_property_slices after ! j"
  have slices: "slice_holds before ?sb ?x" "slice_holds after ?sa ?y"
    using before(1,2) after(1,2) by (simp_all add: facts_ok_def)
  have count: "unat (ps_count ?sb) = length (property_ids_of ?x)" "unat (ps_count ?sa) = length (property_ids_of ?y)"
    using slice_reads(1) [OF slices(1) before(3)] slice_reads(1) [OF slices(2) after(3)] .
  have "ps_count ?sb = ps_count ?sa \<longleftrightarrow> length (property_ids_of ?x) = length (property_ids_of ?y)"
    using count by (metis unsigned_word_eqI)
  moreover have "list_all (property_found before ?sb after ?sa) [0..<unat (ps_count ?sb)] \<longleftrightarrow>
      (\<forall>p\<in>set (property_ids_of ?x). p \<in> set (property_ids_of ?y) \<and> property_read_equal (node_property ?x p) (node_property ?y p))"
    unfolding count(1) all_set_conv_all_nth
    by (auto simp: list_all_iff property_found_spec [OF slices(1) before(3) slices(2) after(3)])
  ultimately show ?thesis
    using before(1,2) after(1,2) by (auto simp: same_node_facts_def idx Let_def node_facts_equal_def facts_ok_def)
qed

lemma changed_nodes_spec:
  assumes before: "represents before sb" "\<forall>n\<in>set (us_nodes sb). node_record_ok n" "int (length (us_nodes sb)) \<le> 4294967296"
    and after: "represents after sa" "\<forall>n\<in>set (us_nodes sa). node_record_ok n" "int (length (us_nodes sa)) \<le> 4294967296"
  shows "set (changed_nodes before after) =
    {n. \<exists>x\<in>set (us_nodes sb). \<exists>y\<in>set (us_nodes sa). un_id x = n \<and> un_id y = n \<and> \<not> node_facts_equal x y}"
proof -
  have fb: "facts_ok (us_nodes sb) before" and fa: "facts_ok (us_nodes sa) after"
    using before(1) after(1) by (simp_all add: represents_def)
  have find_b: "omap_find (gn_node_indexes before) n = Some k \<longleftrightarrow>
      (\<exists>i<length (us_nodes sb). un_id (us_nodes sb ! i) = n \<and> k = word_of_nat i)" for n k
    using fb unfolding facts_ok_def set_conv_nth dom_def by (auto simp: set_eq_iff image_iff) (metis option.inject)+
  have find_a: "omap_find (gn_node_indexes after) n = Some k \<longleftrightarrow>
      (\<exists>i<length (us_nodes sa). un_id (us_nodes sa ! i) = n \<and> k = word_of_nat i)" for n k
    using fa unfolding facts_ok_def set_conv_nth dom_def by (auto simp: set_eq_iff image_iff) (metis option.inject)+
  have same: "same_node_facts before (word_of_nat i) after (word_of_nat j) \<longleftrightarrow> node_facts_equal (us_nodes sb ! i) (us_nodes sa ! j)"
    if "i < length (us_nodes sb)" "j < length (us_nodes sa)" for i j
    using that before(2,3) after(2,3) by (intro same_node_facts_spec [OF fb _ _ _ fa]) simp_all
  have ok: "omap_ok (gn_node_indexes after)" using fa by (simp add: facts_ok_def)
  have "n \<in> set (changed_nodes before after) \<longleftrightarrow>
      (\<exists>k l. omap_find (gn_node_indexes after) n = Some k \<and> omap_find (gn_node_indexes before) n = Some l \<and>
        \<not> same_node_facts before l after k)" for n
    by (force simp: changed_nodes_def omap_find_member [OF ok, symmetric] split: option.splits)
  then have changed: "n \<in> set (changed_nodes before after) \<longleftrightarrow>
      (\<exists>i<length (us_nodes sb). \<exists>j<length (us_nodes sa). un_id (us_nodes sb ! i) = n \<and> un_id (us_nodes sa ! j) = n \<and>
        \<not> node_facts_equal (us_nodes sb ! i) (us_nodes sa ! j))" for n
    unfolding find_a find_b using same by blast
  have nth: "(\<exists>x\<in>set zs. P x) \<longleftrightarrow> (\<exists>i<length zs. P (zs ! i))" for zs :: "ui_node_record list" and P
    by (metis in_set_conv_nth)
  show ?thesis unfolding nth using changed by (auto simp: set_eq_iff)
qed

lemma set_relation_bit_events:
  "set (relation_bit_events kind g source tgt bits) = {event_of kind g source tgt (word_of_nat i) | i. i < 32 \<and> bit bits i}"
  unfolding relation_bit_events_def and_single_bit by auto

lemma core_relation_numbers: "(\<exists>i<32. P (word_of_nat i :: u32)) \<longleftrightarrow> (\<exists>r<32. P r)"
proof
  assume "\<exists>r<32. P r"
  then obtain r where "r < 32" "P r" by blast
  then show "\<exists>i<32. P (word_of_nat i :: u32)"
    by (intro exI [of _ "unat r"]) (simp add: word_less_nat_alt)
qed (use u32_small_less in blast)

lemma set_mask_events:
  assumes "mask_holds R (Some b)" and "\<And>i. i < 32 \<Longrightarrow> bit bits i \<longleftrightarrow> bit b i \<and> Q (word_of_nat i)"
  shows "set (relation_bit_events kind g source tgt bits) = {event_of kind g source tgt r | r. r < 32 \<and> R r \<and> Q r}"
proof -
  have "bit bits i \<longleftrightarrow> R (word_of_nat i) \<and> Q (word_of_nat i)" if "i < 32" for i
    using assms that by (simp add: mask_holds_def)
  then have "set (relation_bit_events kind g source tgt bits) =
      {e. \<exists>i<32. e = event_of kind g source tgt (word_of_nat i) \<and> R (word_of_nat i) \<and> Q (word_of_nat i)}"
    by (auto simp: set_relation_bit_events)
  also have "\<dots> = {e. \<exists>r<32. e = event_of kind g source tgt r \<and> R r \<and> Q r}"
    using core_relation_numbers [where P = "\<lambda>r. e = event_of kind g source tgt r \<and> R r \<and> Q r" for e] by auto
  finally show ?thesis by auto
qed

lemma edge_has_mask:
  assumes "represents g s"
  shows "mask_holds (relates (us_relations s) source tgt) (edge_payload (gn_relations g) source tgt)"
    and "contains_edge (gn_relations g) source tgt \<longleftrightarrow> (\<exists>r<32. relates (us_relations s) source tgt r)"
proof -
  show *: "mask_holds (relates (us_relations s) source tgt) (edge_payload (gn_relations g) source tgt)"
    using assms by (simp add: represents_def)
  then show "contains_edge (gn_relations g) source tgt \<longleftrightarrow> (\<exists>r<32. relates (us_relations s) source tgt r)"
    by (auto simp: mask_holds_def contains_edge_look split: option.splits)
qed

lemma edge_events_spec:
  assumes "represents g s"
  shows "set (edge_events kind g (source, tgt)) =
    {event_of kind g source tgt r | r. r < 32 \<and> relates (us_relations s) source tgt r}"
proof (cases "edge_payload (gn_relations g) source tgt")
  case None
  then show ?thesis
    using edge_has_mask(1) [OF assms, of source tgt] by (auto simp: edge_events_def edge_relations_def mask_holds_def)
next
  case (Some b)
  then have "mask_holds (relates (us_relations s) source tgt) (Some b)" using edge_has_mask(1) [OF assms] by metis
  from set_mask_events [OF this, of b "\<lambda>_. True"] Some show ?thesis by (simp add: edge_events_def edge_relations_def)
qed

lemma changed_edge_events_spec:
  assumes before: "represents before sb" and after: "represents after sa"
    and b: "edge_payload (gn_relations before) source tgt = Some p" and a: "edge_payload (gn_relations after) source tgt = Some q"
  shows "set (changed_edge_events before after (source, tgt)) =
    {event_of RelationRemoved before source tgt r | r. r < 32 \<and> relates (us_relations sb) source tgt r \<and> \<not> relates (us_relations sa) source tgt r} \<union>
    {event_of RelationAdded after source tgt r | r. r < 32 \<and> relates (us_relations sa) source tgt r \<and> \<not> relates (us_relations sb) source tgt r}"
proof -
  have p: "mask_holds (relates (us_relations sb) source tgt) (Some p)" using edge_has_mask(1) [OF before] b by metis
  have q: "mask_holds (relates (us_relations sa) source tgt) (Some q)" using edge_has_mask(1) [OF after] a by metis
  have removed: "set (relation_bit_events RelationRemoved before source tgt (p AND NOT q)) =
      {event_of RelationRemoved before source tgt r | r. r < 32 \<and> relates (us_relations sb) source tgt r \<and> \<not> relates (us_relations sa) source tgt r}"
    using q by (intro set_mask_events [OF p]) (auto simp: mask_holds_def bit_and_iff bit_not_iff)
  have added: "set (relation_bit_events RelationAdded after source tgt (q AND NOT p)) =
      {event_of RelationAdded after source tgt r | r. r < 32 \<and> relates (us_relations sa) source tgt r \<and> \<not> relates (us_relations sb) source tgt r}"
    using p by (intro set_mask_events [OF q]) (auto simp: mask_holds_def bit_and_iff bit_not_iff)
  show ?thesis using removed added a b by (simp add: changed_edge_events_def edge_relations_def Let_def)
qed

lemma removed_relation_events:
  assumes before: "represents before sb" and after: "represents after sa"
  shows "(\<Union>e\<in>{(source, tgt). contains_edge (gn_relations before) source tgt \<and> \<not> contains_edge (gn_relations after) source tgt}.
            set (edge_events kind before e)) =
    {event_of kind before source tgt r | source tgt r.
       r < 32 \<and> relates (us_relations sb) source tgt r \<and> \<not> (\<exists>q<32. relates (us_relations sa) source tgt q)}"
  by (auto simp: edge_events_spec [OF before] edge_has_mask(2) [OF before] edge_has_mask(2) [OF after]) blast+

lemma payloads_differ:
  assumes before: "represents before sb" and after: "represents after sa"
    and "relates (us_relations sb) source tgt r \<noteq> relates (us_relations sa) source tgt r" and "r < 32"
  shows "edge_payload (gn_relations before) source tgt \<noteq> edge_payload (gn_relations after) source tgt"
proof
  assume eq: "edge_payload (gn_relations before) source tgt = edge_payload (gn_relations after) source tgt"
  have r: "r = word_of_nat (unat r)" "unat r < 32" using assms(4) by (simp_all add: word_less_nat_alt)
  show False
    using edge_has_mask(1) [OF before, of source tgt] edge_has_mask(1) [OF after, of source tgt] eq assms(3,4) r
    by (auto simp: mask_holds_def split: option.splits)
qed

lemma changed_relation_events:
  assumes before: "represents before sb" and after: "represents after sa"
  shows "(\<Union>e\<in>{(source, tgt). \<exists>p q. edge_payload (gn_relations before) source tgt = Some p \<and>
              edge_payload (gn_relations after) source tgt = Some q \<and> p \<noteq> q}. set (changed_edge_events before after e)) =
    {event_of RelationRemoved before source tgt r | source tgt r. r < 32 \<and> relates (us_relations sb) source tgt r \<and>
       \<not> relates (us_relations sa) source tgt r \<and> (\<exists>q<32. relates (us_relations sa) source tgt q)} \<union>
    {event_of RelationAdded after source tgt r | source tgt r. r < 32 \<and> relates (us_relations sa) source tgt r \<and>
       \<not> relates (us_relations sb) source tgt r \<and> (\<exists>q<32. relates (us_relations sb) source tgt q)}"
    (is "(\<Union>e\<in>?C. ?ev e) = ?R")
proof -
  have both: "(source, tgt) \<in> ?C" if "relates (us_relations sb) source tgt r \<noteq> relates (us_relations sa) source tgt r" "r < 32"
    "\<exists>q<32. relates (us_relations sb) source tgt q" "\<exists>q<32. relates (us_relations sa) source tgt q" for source tgt r
  proof -
    have "contains_edge (gn_relations before) source tgt" "contains_edge (gn_relations after) source tgt"
      using that(3,4) edge_has_mask(2) [OF before, of source tgt] edge_has_mask(2) [OF after, of source tgt] by simp_all
    then show ?thesis using payloads_differ [OF before after that(1,2)] by (auto simp: contains_edge_look)
  qed
  have some: "\<exists>q<32. relates (us_relations sb) source tgt q" "\<exists>q<32. relates (us_relations sa) source tgt q"
    if "(source, tgt) \<in> ?C" for source tgt
    using that edge_has_mask(2) [OF before, of source tgt] edge_has_mask(2) [OF after, of source tgt]
    by (auto simp: contains_edge_look)
  have ev: "?ev (source, tgt) =
    {event_of RelationRemoved before source tgt r | r. r < 32 \<and> relates (us_relations sb) source tgt r \<and> \<not> relates (us_relations sa) source tgt r} \<union>
    {event_of RelationAdded after source tgt r | r. r < 32 \<and> relates (us_relations sa) source tgt r \<and> \<not> relates (us_relations sb) source tgt r}"
    if "(source, tgt) \<in> ?C" for source tgt
    using that changed_edge_events_spec [OF before after] by auto
  show ?thesis
  proof (intro equalityI subsetI)
    fix e
    assume "e \<in> (\<Union>e\<in>?C. ?ev e)"
    then obtain source tgt where c: "(source, tgt) \<in> ?C" and e: "e \<in> ?ev (source, tgt)" by auto
    show "e \<in> ?R" using e [unfolded ev [OF c]] some [OF c] by blast
  next
    fix e
    assume "e \<in> ?R"
    then obtain source tgt where c: "(source, tgt) \<in> ?C" and e: "e \<in> ?ev (source, tgt)"
      using both ev by blast
    then show "e \<in> (\<Union>e\<in>?C. ?ev e)" by blast
  qed
qed

lemma extension_events_spec:
  assumes "represents g s" and "represents h t"
  shows "set (map (extension_event kind g) (filter (\<lambda>key. key \<notin> set (gn_extension_relations h)) (gn_extension_relations g))) =
    {event_of kind g source tgt r | source tgt r.
       r \<ge> 32 \<and> relates (us_relations s) source tgt r \<and> \<not> relates (us_relations t) source tgt r}"
proof -
  have keys: "set (filter (\<lambda>key. key \<notin> set (gn_extension_relations h)) (gn_extension_relations g)) =
      {(source, tgt, r). r \<ge> 32 \<and> relates (us_relations s) source tgt r \<and> \<not> relates (us_relations t) source tgt r}"
    using assms by (auto simp: represents_def)
  have image: "f ` {(a, b, c). P a b c} = {f (a, b, c) | a b c. P a b c}" for f :: "extension_key \<Rightarrow> tree_event" and P by auto
  show ?thesis unfolding set_map keys image by (simp add: extension_event_def)
qed

lemma union_of_three:
  "(\<And>a b c. P a b c \<longleftrightarrow> Q a b c \<or> R a b c \<or> S a b c) \<Longrightarrow>
   {f a b c | a b c. P a b c} = {f a b c | a b c. Q a b c} \<union> {f a b c | a b c. R a b c} \<union> {f a b c | a b c. S a b c}"
  by auto

definition relation_differences :: "tree_event_kind \<Rightarrow> generation \<Rightarrow> ui_relation list \<Rightarrow> ui_relation list \<Rightarrow> tree_event set" where
  "relation_differences kind g rs others =
     {event_of kind g (ur_source r) (ur_target r) (ur_relation r) | r. r \<in> set rs \<and> r \<notin> set others}"

lemma relation_differences_split:
  "relation_differences kind g rs others =
     {event_of kind g source tgt r | source tgt r. r < 32 \<and> relates rs source tgt r \<and> \<not> (\<exists>q<32. relates others source tgt q)} \<union>
     {event_of kind g source tgt r | source tgt r. r < 32 \<and> relates rs source tgt r \<and> \<not> relates others source tgt r \<and>
        (\<exists>q<32. relates others source tgt q)} \<union>
     {event_of kind g source tgt r | source tgt r. r \<ge> 32 \<and> relates rs source tgt r \<and> \<not> relates others source tgt r}"
proof -
  have "relation_differences kind g rs others =
      {event_of kind g source tgt r | source tgt r. relates rs source tgt r \<and> \<not> relates others source tgt r}"
  proof (intro equalityI subsetI)
    fix e
    assume "e \<in> relation_differences kind g rs others"
    then obtain r :: ui_relation where "e = event_of kind g (ur_source r) (ur_target r) (ur_relation r)" "r \<in> set rs" "r \<notin> set others"
      by (auto simp: relation_differences_def)
    then show "e \<in> {event_of kind g source tgt r | source tgt r. relates rs source tgt r \<and> \<not> relates others source tgt r}"
      by (cases r) force
  next
    fix e
    assume "e \<in> {event_of kind g source tgt r | source tgt r. relates rs source tgt r \<and> \<not> relates others source tgt r}"
    then show "e \<in> relation_differences kind g rs others" by (force simp: relation_differences_def)
  qed
  then show ?thesis by (simp only:) (rule union_of_three, auto simp: linorder_not_le)
qed

lemma same_scope_events_spec:
  assumes before: "represents before sb" "\<forall>n\<in>set (us_nodes sb). node_record_ok n" "int (length (us_nodes sb)) \<le> 4294967296"
    and after: "represents after sa" "\<forall>n\<in>set (us_nodes sa). node_record_ok n" "int (length (us_nodes sa)) \<le> 4294967296"
  shows "set (derive_same_scope_events before after) =
    node_event NodeRemoved before ` (un_id ` set (us_nodes sb) - un_id ` set (us_nodes sa)) \<union>
    node_event NodeAdded after ` (un_id ` set (us_nodes sa) - un_id ` set (us_nodes sb)) \<union>
    node_event NodeChanged after `
      {n. \<exists>x\<in>set (us_nodes sb). \<exists>y\<in>set (us_nodes sa). un_id x = n \<and> un_id y = n \<and> \<not> node_facts_equal x y} \<union>
    relation_differences RelationRemoved before (us_relations sb) (us_relations sa) \<union>
    relation_differences RelationAdded after (us_relations sa) (us_relations sb)"
proof -
  have wf: "graph_wf (gn_relations before)" "graph_wf (gn_relations after)" using before(1) after(1) by (simp_all add: represents_def)
  have nodes: "{n. contains_node (gn_relations before) n \<and> \<not> contains_node (gn_relations after) n} =
      un_id ` set (us_nodes sb) - un_id ` set (us_nodes sa)"
    "{n. contains_node (gn_relations after) n \<and> \<not> contains_node (gn_relations before) n} =
      un_id ` set (us_nodes sa) - un_id ` set (us_nodes sb)"
    using before(1) after(1) by (auto simp: represents_def)
  show ?thesis
    unfolding derive_same_scope_events_def Let_def set_append set_concat set_map image_image
      graph_difference_sets [OF wf] nodes changed_nodes_spec [OF assms]
      removed_relation_events [OF before(1) after(1)] removed_relation_events [OF after(1) before(1)]
      changed_relation_events [OF before(1) after(1)]
      extension_events_spec [OF before(1) after(1), unfolded set_map] extension_events_spec [OF after(1) before(1), unfolded set_map]
      relation_differences_split
    by blast
qed

lemma normalized_snapshot_ok:
  assumes "normalized_snapshot md nodes roots relations = Inr s"
  shows "valid_tree nodes roots relations" and "us_nodes s = nodes" and "us_relations s = relations" and "metadata_of s = md"
    and "strictly_sorted (us_roots s)" and "set (us_roots s) = un_id ` set nodes - Range (containment relations)"
  using assms validation_spec [where md = md and nodes = nodes and roots = roots and relations = relations]
  by (auto simp: normalized_snapshot_def metadata_of_def split: sum.splits)

lemma normalized_snapshot_builds:
  assumes "normalized_snapshot md nodes roots relations = Inr s" and "int (length nodes) \<le> 4294967296"
  shows "\<exists>g. build_generation s = Inr g \<and> represents g s"
  using normalized_snapshot_ok [OF assms(1)] assms(2) by (intro build_generation_spec) (auto simp: valid_tree_def)

section \<open>No event is repeated\<close>

lemma distinct_concat_tagged:
  assumes "distinct es" and "\<And>e. e \<in> set es \<Longrightarrow> distinct (f e)" and "\<And>e x. x \<in> set (f e) \<Longrightarrow> tag x = e"
  shows "distinct (concat (map f es))"
  using assms(1,2)
proof (induction es)
  case (Cons e es)
  have "x \<notin> set (concat (map f es))" if "x \<in> set (f e)" for x
    using assms(3) [OF that] assms(3) [of x] Cons.prems(1) by auto
  then show ?case using Cons by auto
qed simp

lemma distinct_segments:
  fixes segment :: "'a \<Rightarrow> nat"
  assumes "distinct xs" and "distinct ys" and "\<And>x. x \<in> set xs \<Longrightarrow> segment x = k" and "\<And>y. y \<in> set ys \<Longrightarrow> k < segment y"
  shows "distinct (xs @ ys)"
proof -
  have "x \<notin> set ys" if "x \<in> set xs" for x using assms(3) [OF that] assms(4) [of x] by auto
  then show ?thesis using assms(1,2) by auto
qed

lemma distinct_eight_segments:
  fixes segment :: "'a \<Rightarrow> nat"
  assumes "distinct a" "distinct b" "distinct c" "distinct d" "distinct e" "distinct f" "distinct g" "distinct h"
    and "\<And>x. x \<in> set a \<Longrightarrow> segment x = 0" "\<And>x. x \<in> set b \<Longrightarrow> segment x = 1" "\<And>x. x \<in> set c \<Longrightarrow> segment x = 2"
      "\<And>x. x \<in> set d \<Longrightarrow> segment x = 3" "\<And>x. x \<in> set e \<Longrightarrow> segment x = 4" "\<And>x. x \<in> set f \<Longrightarrow> segment x = 5"
      "\<And>x. x \<in> set g \<Longrightarrow> segment x = 6" "\<And>x. x \<in> set h \<Longrightarrow> segment x = 7"
  shows "distinct (a @ b @ c @ d @ e @ f @ g @ h)"
proof -
  have gh: "distinct (g @ h)" by (rule distinct_segments [where segment = segment and k = 6]) (use assms in auto)
  have fh: "distinct (f @ g @ h)" by (rule distinct_segments [where segment = segment and k = 5]) (use assms gh in auto)
  have eh: "distinct (e @ f @ g @ h)" by (rule distinct_segments [where segment = segment and k = 4]) (use assms fh in auto)
  have dh: "distinct (d @ e @ f @ g @ h)" by (rule distinct_segments [where segment = segment and k = 3]) (use assms eh in auto)
  have ch: "distinct (c @ d @ e @ f @ g @ h)" by (rule distinct_segments [where segment = segment and k = 2]) (use assms dh in auto)
  have bh: "distinct (b @ c @ d @ e @ f @ g @ h)"
    by (rule distinct_segments [where segment = segment and k = 1]) (use assms ch in auto)
  show ?thesis by (rule distinct_segments [where segment = segment and k = 0]) (use assms bh in auto)
qed

lemma graph_difference_distinct:
  fixes before after :: "('a::linorder, 'b) adjacency_graph" and eq :: "'b \<Rightarrow> 'b \<Rightarrow> bool"
  assumes "graph_wf before" and "graph_wf after"
  defines "d \<equiv> graph_difference before after eq"
  shows "distinct (added_nodes d)" and "distinct (removed_nodes d)" and "distinct (added_edges d)"
    and "distinct (removed_edges d)" and "distinct (changed_edges d)"
proof -
  have nodes: "distinct (graph_nodes g)" if "graph_wf g" for g :: "('a, 'b) adjacency_graph"
    using wf_nodes_sorted [OF that] by (rule strictly_sorted_distinct)
  have edges: "distinct (concat (map (\<lambda>n. map (Pair n) (filter (P n) (edge_targets g n))) (graph_nodes g)))"
    if wf: "graph_wf g" for g :: "('a, 'b) adjacency_graph" and P
  proof (rule distinct_concat_tagged [where tag = fst, OF nodes [OF wf]])
    fix n
    have "distinct (edge_targets g n)"
      using wf_edges_ok [OF wf, of n] strictly_sorted_distinct by (simp add: edges_ok_def edge_targets_def)
    then show "distinct (map (Pair n) (filter (P n) (edge_targets g n)))" by (simp add: distinct_map inj_on_def)
  qed auto
  show "distinct (added_nodes d)" "distinct (removed_nodes d)" "distinct (added_edges d)" "distinct (removed_edges d)"
    "distinct (changed_edges d)"
    by (simp_all add: d_def graph_difference_spec [OF assms(1,2)] nodes assms(1,2) edges)
qed

lemma event_of_fields [simp]:
  "te_kind (event_of kind g n m r) = kind" "te_node (event_of kind g n m r) = n" "te_related (event_of kind g n m r) = m"
  "te_relation (event_of kind g n m r) = r"
  by (simp_all add: event_of_def)

lemma node_events_distinct: "distinct ns \<Longrightarrow> distinct (map (node_event kind g) ns)"
  by (auto simp: distinct_map inj_on_def node_event_def dest: arg_cong [where f = te_node])

lemma bit_events_distinct: "distinct (relation_bit_events kind g source tgt bits)"
proof -
  have "inj_on (\<lambda>i. event_of kind g source tgt (word_of_nat i)) {..<32}"
    by (rule inj_onI) (metis event_of_fields(4) lessThan_iff u32_small)
  then show ?thesis
    by (auto simp: relation_bit_events_def distinct_map elim: inj_on_subset)
qed

lemma bit_event_fields:
  "x \<in> set (relation_bit_events kind g source tgt bits) \<Longrightarrow>
   te_kind x = kind \<and> (te_node x, te_related x) = (source, tgt) \<and> te_relation x < 32"
  by (auto simp: relation_bit_events_def u32_small_less)

lemma edge_event_fields:
  "x \<in> set (edge_events kind g e) \<Longrightarrow> te_kind x = kind \<and> (te_node x, te_related x) = e \<and> te_relation x < 32"
  by (cases e) (auto simp: edge_events_def dest: bit_event_fields split: option.splits)

lemma changed_edge_event_fields:
  "x \<in> set (changed_edge_events before after e) \<Longrightarrow>
   te_kind x \<in> {RelationRemoved, RelationAdded} \<and> (te_node x, te_related x) = e \<and> te_relation x < 32"
  by (cases e) (auto simp: changed_edge_events_def Let_def dest: bit_event_fields)

lemma edge_events_distinct: "distinct (edge_events kind g e)"
  by (simp add: edge_events_def bit_events_distinct split: option.splits)

lemma changed_edge_events_distinct: "distinct (changed_edge_events before after e)"
  by (auto simp: changed_edge_events_def Let_def bit_events_distinct dest!: bit_event_fields)

lemma extension_events_distinct: "distinct keys \<Longrightarrow> distinct (map (extension_event kind g) (filter P keys))"
  by (auto simp: distinct_map inj_on_def extension_event_def
      dest: arg_cong [where f = te_node] arg_cong [where f = te_related] arg_cong [where f = te_relation])

text \<open>The part of the event list an event belongs to.\<close>

definition event_segment :: "(node_id \<times> node_id) set \<Rightarrow> tree_event \<Rightarrow> nat" where
  "event_segment changed x =
     (if te_kind x = NodeRemoved then 0 else if te_kind x = NodeAdded then 1 else if te_kind x = NodeChanged then 2
      else if te_relation x \<ge> 32 then (if te_kind x = RelationRemoved then 6 else 7)
      else if (te_node x, te_related x) \<in> changed then 5
      else if te_kind x = RelationRemoved then 3 else 4)"

lemma same_scope_events_distinct:
  assumes before: "represents before sb" "distinct (us_relations sb)" and after: "represents after sa" "distinct (us_relations sa)"
  shows "distinct (derive_same_scope_events before after)"
proof -
  let ?d = "graph_difference (gn_relations before) (gn_relations after) (=)"
  have wf: "graph_wf (gn_relations before)" "graph_wf (gn_relations after)"
    and ext: "distinct (gn_extension_relations before)" "distinct (gn_extension_relations after)"
    and big: "\<forall>key\<in>set (gn_extension_relations before). snd (snd key) \<ge> 32"
      "\<forall>key\<in>set (gn_extension_relations after). snd (snd key) \<ge> 32"
    and nodes: "distinct (changed_nodes before after)"
    using before after om.distinct_ks [of "gn_node_indexes after"]
    by (auto simp: represents_def facts_ok_def changed_nodes_def distinct_map_filter)
  let ?rn = "map (node_event NodeRemoved before) (removed_nodes ?d)" and ?an = "map (node_event NodeAdded after) (added_nodes ?d)"
    and ?cn = "map (node_event NodeChanged after) (changed_nodes before after)"
    and ?re = "concat (map (edge_events RelationRemoved before) (removed_edges ?d))"
    and ?ae = "concat (map (edge_events RelationAdded after) (added_edges ?d))"
    and ?ce = "concat (map (changed_edge_events before after) (changed_edges ?d))"
    and ?rx = "map (extension_event RelationRemoved before)
                 (filter (\<lambda>key. key \<notin> set (gn_extension_relations after)) (gn_extension_relations before))"
    and ?ax = "map (extension_event RelationAdded after)
                 (filter (\<lambda>key. key \<notin> set (gn_extension_relations before)) (gn_extension_relations after))"
  note dist = graph_difference_distinct [OF wf, of "(=)"]
  have parts: "distinct ?rn" "distinct ?an" "distinct ?cn" "distinct ?re" "distinct ?ae" "distinct ?ce" "distinct ?rx" "distinct ?ax"
    using dist nodes ext
    by (auto intro!: node_events_distinct extension_events_distinct edge_events_distinct changed_edge_events_distinct
          distinct_concat_tagged [where tag = "\<lambda>x. (te_node x, te_related x)"]
        dest: edge_event_fields changed_edge_event_fields)
  have kinds: "x \<in> set ?rn \<Longrightarrow> te_kind x = NodeRemoved" "x \<in> set ?an \<Longrightarrow> te_kind x = NodeAdded"
    "x \<in> set ?cn \<Longrightarrow> te_kind x = NodeChanged" for x
    by (auto simp: node_event_def)
  have edges: "x \<in> set ?re \<Longrightarrow> te_kind x = RelationRemoved \<and> te_relation x < 32 \<and> (te_node x, te_related x) \<in> set (removed_edges ?d)"
    "x \<in> set ?ae \<Longrightarrow> te_kind x = RelationAdded \<and> te_relation x < 32 \<and> (te_node x, te_related x) \<in> set (added_edges ?d)"
    "x \<in> set ?ce \<Longrightarrow> te_kind x \<in> {RelationRemoved, RelationAdded} \<and> te_relation x < 32 \<and>
       (te_node x, te_related x) \<in> set (changed_edges ?d)" for x
    using edge_event_fields changed_edge_event_fields by fastforce+
  have extension: "x \<in> set ?rx \<Longrightarrow> te_kind x = RelationRemoved \<and> te_relation x \<ge> 32"
    "x \<in> set ?ax \<Longrightarrow> te_kind x = RelationAdded \<and> te_relation x \<ge> 32" for x
    using big by (force simp: extension_event_def)+
  have apart: "e \<notin> set (changed_edges ?d)" if "e \<in> set (removed_edges ?d) \<or> e \<in> set (added_edges ?d)" for e
    using that by (auto simp: graph_difference_sets [OF wf] contains_edge_look)
  let ?segment = "event_segment (set (changed_edges ?d))"
  have segments: "x \<in> set ?rn \<Longrightarrow> ?segment x = 0" "x \<in> set ?an \<Longrightarrow> ?segment x = 1" "x \<in> set ?cn \<Longrightarrow> ?segment x = 2"
    "x \<in> set ?re \<Longrightarrow> ?segment x = 3" "x \<in> set ?ae \<Longrightarrow> ?segment x = 4" "x \<in> set ?ce \<Longrightarrow> ?segment x = 5"
    "x \<in> set ?rx \<Longrightarrow> ?segment x = 6" "x \<in> set ?ax \<Longrightarrow> ?segment x = 7" for x
    using kinds [of x] edges [of x] extension [of x] apart [of "(te_node x, te_related x)"]
    by (auto simp: event_segment_def simp del: set_map set_concat)
  show ?thesis
    unfolding derive_same_scope_events_def Let_def
    by (rule distinct_eight_segments [where segment = ?segment, OF parts]) (erule segments)+
qed

section \<open>What an update announces\<close>

text \<open>
  What the events of an update tell of a node, stated on the records: its generation, its role, its states and what
  reading each property gives. Its facets and its provenance are not announced.\<close>

fun reads_alike :: "property_read option \<Rightarrow> property_read option \<Rightarrow> bool" where
  "reads_alike None None = True"
| "reads_alike (Some r) (Some q) = property_read_equal r q"
| "reads_alike _ _ = False"

definition announced_alike :: "ui_node_record \<Rightarrow> ui_node_record \<Rightarrow> bool" where
  "announced_alike x y \<longleftrightarrow>
     un_generation x = un_generation y \<and> un_role x = un_role y \<and> un_states x = un_states y \<and>
     (\<forall>p. reads_alike (map_of (un_properties x) p) (map_of (un_properties y) p))"

definition nodes_gone :: "ui_node_record list \<Rightarrow> ui_node_record list \<Rightarrow> node_id set" where
  "nodes_gone before after = un_id ` {x \<in> set before. \<forall>y\<in>set after. un_id y \<noteq> un_id x}"

definition nodes_altered :: "ui_node_record list \<Rightarrow> ui_node_record list \<Rightarrow> node_id set" where
  "nodes_altered before after =
     un_id ` {y \<in> set after. \<exists>x\<in>set before. un_id x = un_id y \<and> \<not> announced_alike x y}"

lemma map_of_properties:
  "map_of (un_properties n) p = (if p \<in> set (property_ids_of n) then Some (node_property n p) else None)"
proof -
  have "map_of props p = (if p \<in> fst ` set props then Some (read_property p props) else None)" for props
    by (induction p props rule: read_property.induct) auto
  then show ?thesis by (simp add: property_ids_of_def node_property_def)
qed

lemma node_facts_announced:
  assumes "node_record_ok x" and "node_record_ok y"
  shows "node_facts_equal x y \<longleftrightarrow> announced_alike x y"
proof -
  let ?xs = "property_ids_of x" and ?ys = "property_ids_of y"
  have dist: "distinct ?xs" "distinct ?ys" using assms by (simp_all add: node_record_ok_def)
  have alike: "(\<forall>p. reads_alike (map_of (un_properties x) p) (map_of (un_properties y) p)) \<longleftrightarrow>
      set ?xs = set ?ys \<and> (\<forall>p\<in>set ?xs. property_read_equal (node_property x p) (node_property y p))"
    unfolding map_of_properties by (auto split: if_splits)
  have "length ?xs = length ?ys \<and> set ?xs \<subseteq> set ?ys \<longleftrightarrow> set ?xs = set ?ys"
    using dist by (metis List.finite_set card_subset_eq distinct_card order_refl)
  then show ?thesis
    unfolding node_facts_equal_def announced_alike_def alike by blast
qed

lemma update_events_spec:
  assumes before: "represents before sb" "\<forall>n\<in>set (us_nodes sb). node_record_ok n" "int (length (us_nodes sb)) \<le> 4294967296"
    and after: "represents after sa" "\<forall>n\<in>set (us_nodes sa). node_record_ok n" "int (length (us_nodes sa)) \<le> 4294967296"
  shows "set (derive_same_scope_events before after) =
    node_event NodeRemoved before ` nodes_gone (us_nodes sb) (us_nodes sa) \<union>
    node_event NodeAdded after ` nodes_gone (us_nodes sa) (us_nodes sb) \<union>
    node_event NodeChanged after ` nodes_altered (us_nodes sb) (us_nodes sa) \<union>
    relation_differences RelationRemoved before (us_relations sb) (us_relations sa) \<union>
    relation_differences RelationAdded after (us_relations sa) (us_relations sb)"
proof -
  have gone: "un_id ` set ns - un_id ` set ms = nodes_gone ns ms" for ns ms
    by (intro set_eqI) (fastforce simp: nodes_gone_def image_iff Bex_def)
  have altered: "{n. \<exists>x\<in>set (us_nodes sb). \<exists>y\<in>set (us_nodes sa). un_id x = n \<and> un_id y = n \<and> \<not> node_facts_equal x y} =
      nodes_altered (us_nodes sb) (us_nodes sa)"
    using before(2) after(2) node_facts_announced unfolding nodes_altered_def by (auto simp: image_iff) metis+
  show ?thesis using same_scope_events_spec [OF assms] unfolding gone altered .
qed

text \<open>A first snapshot, and a snapshot of another scope, are compared with the empty tree.\<close>

definition no_snapshot :: ui_snapshot where
  "no_snapshot = \<lparr>us_runtime = 0, us_tree = 0, us_epoch = 0, us_revision = 0, us_complete = False, us_nodes = [], us_roots = [],
     us_relations = [], us_forward = [], us_reverse = []\<rparr>"

lemma no_edges: "\<not> contains_edge empty_graph source tgt" "edge_payload empty_graph source tgt = None" "\<not> contains_node empty_graph n"
  by (simp_all add: contains_edge_look empty_graph_def edge_payload_def contains_node_def omap_contains_def)

lemma no_snapshot_represented: "represents (empty_generation no_snapshot) no_snapshot"
  using facts_ok_empty [of no_snapshot]
  by (simp add: represents_def no_edges mask_holds_def empty_generation_def graph_wf_empty) (simp add: no_snapshot_def)

lemma added_is_difference:
  assumes "represents after sa"
  shows "added_generation_events after = derive_same_scope_events (empty_generation no_snapshot) after"
proof -
  have wf: "graph_wf (gn_relations after)" using assms by (simp add: represents_def)
  note sets = graph_difference_sets [OF graph_wf_empty wf, of "(=)"]
  have "removed_nodes (graph_difference empty_graph (gn_relations after) (=)) = []"
    "removed_edges (graph_difference empty_graph (gn_relations after) (=)) = []"
    "changed_edges (graph_difference empty_graph (gn_relations after) (=)) = []"
    unfolding set_empty [symmetric] by (simp_all add: sets no_edges)
  then show ?thesis
    by (simp add: added_generation_events_def derive_same_scope_events_def Let_def empty_generation_def changed_nodes_def)
qed

lemma removed_is_difference:
  assumes "represents before sb"
  shows "removed_generation_events before = derive_same_scope_events before (empty_generation no_snapshot)"
proof -
  have wf: "graph_wf (gn_relations before)" using assms by (simp add: represents_def)
  note sets = graph_difference_sets [OF wf graph_wf_empty, of "(=)"]
  have "added_nodes (graph_difference (gn_relations before) empty_graph (=)) = []"
    "added_edges (graph_difference (gn_relations before) empty_graph (=)) = []"
    "changed_edges (graph_difference (gn_relations before) empty_graph (=)) = []"
    unfolding set_empty [symmetric] by (simp_all add: sets no_edges)
  then show ?thesis
    by (simp add: removed_generation_events_def derive_same_scope_events_def Let_def empty_generation_def changed_nodes_def)
qed

text \<open>All that a tree holds, as additions or as removals.\<close>

definition all_events :: "tree_event_kind \<Rightarrow> tree_event_kind \<Rightarrow> generation \<Rightarrow> ui_node_record list \<Rightarrow> ui_relation list \<Rightarrow> tree_event set" where
  "all_events nk rk g nodes relations =
     node_event nk g ` un_id ` set nodes \<union>
     {event_of rk g (ur_source r) (ur_target r) (ur_relation r) | r. r \<in> set relations}"

lemma whole_tree_events:
  assumes "represents g s" and "\<forall>n\<in>set (us_nodes s). node_record_ok n" and "int (length (us_nodes s)) \<le> 4294967296"
    and "distinct (us_relations s)"
  shows "set (added_generation_events g) = all_events NodeAdded RelationAdded g (us_nodes s) (us_relations s)"
    and "set (removed_generation_events g) = all_events NodeRemoved RelationRemoved g (us_nodes s) (us_relations s)"
    and "distinct (added_generation_events g)" and "distinct (removed_generation_events g)"
proof -
  have none: "\<forall>n\<in>set (us_nodes no_snapshot). node_record_ok n" "int (length (us_nodes no_snapshot)) \<le> 4294967296"
    "distinct (us_relations no_snapshot)"
    by (simp_all add: no_snapshot_def)
  note defs = all_events_def nodes_gone_def nodes_altered_def relation_differences_def
  show "set (added_generation_events g) = all_events NodeAdded RelationAdded g (us_nodes s) (us_relations s)"
    unfolding added_is_difference [OF assms(1)] update_events_spec [OF no_snapshot_represented none(1,2) assms(1-3)]
    by (auto simp: defs no_snapshot_def)
  show "set (removed_generation_events g) = all_events NodeRemoved RelationRemoved g (us_nodes s) (us_relations s)"
    unfolding removed_is_difference [OF assms(1)] update_events_spec [OF assms(1-3) no_snapshot_represented none(1,2)]
    by (auto simp: defs no_snapshot_def)
  show "distinct (added_generation_events g)" "distinct (removed_generation_events g)"
    unfolding added_is_difference [OF assms(1)] removed_is_difference [OF assms(1)]
    using same_scope_events_distinct no_snapshot_represented none(3) assms(1,4) by blast+
qed

lemma replacement_events:
  assumes "gn_snapshot before = sb" and "gn_snapshot after = sa"
  shows "derive_replacement_events (Some before) after =
    (if md_runtime (metadata_of sb) = md_runtime (metadata_of sa) \<and> md_tree (metadata_of sb) = md_tree (metadata_of sa) \<and>
        md_epoch (metadata_of sb) = md_epoch (metadata_of sa)
     then derive_same_scope_events before after
     else removed_generation_events before @ added_generation_events after)"
  by (simp add: derive_replacement_events_def same_scope_def metadata_of_def assms)

text \<open>
  C7. Two snapshots that pass validation are always turned into generations, and each event list derived from
  them announces each difference once and nothing else. A first snapshot announces its nodes and its relations as added. An update
  within one runtime, tree and epoch announces a removal for each node that disappeared, an addition for each new one, a change for
  each node of both whose generation, role, states or property reads differ, and an addition or removal for each relation only one of
  the two has, whether it is packed into a bit mask or kept as an extension; a difference of the facets alone is not
  announced. A snapshot of another runtime, tree or epoch announces all that the old tree held as removed, and then all that the new one holds as
  added.\<close>

theorem update_events_exact:
  assumes "normalized_snapshot md nodes roots relations = Inr sb" and "int (length nodes) \<le> 4294967296"
    and "normalized_snapshot md' nodes' roots' relations' = Inr sa" and "int (length nodes') \<le> 4294967296"
  shows "\<exists>before after. build_generation sb = Inr before \<and> build_generation sa = Inr after \<and>
    distinct (derive_replacement_events None after) \<and>
    set (derive_replacement_events None after) = all_events NodeAdded RelationAdded after nodes' relations' \<and>
    distinct (derive_same_scope_events before after) \<and>
    set (derive_same_scope_events before after) =
      node_event NodeRemoved before ` nodes_gone nodes nodes' \<union>
      node_event NodeAdded after ` nodes_gone nodes' nodes \<union>
      node_event NodeChanged after ` nodes_altered nodes nodes' \<union>
      relation_differences RelationRemoved before relations relations' \<union>
      relation_differences RelationAdded after relations' relations \<and>
    (if md_runtime md = md_runtime md' \<and> md_tree md = md_tree md' \<and> md_epoch md = md_epoch md'
     then derive_replacement_events (Some before) after = derive_same_scope_events before after
     else \<exists>removals additions. derive_replacement_events (Some before) after = removals @ additions \<and>
            distinct removals \<and> set removals = all_events NodeRemoved RelationRemoved before nodes relations \<and>
            distinct additions \<and> set additions = all_events NodeAdded RelationAdded after nodes' relations')"
proof -
  obtain before where b: "build_generation sb = Inr before" "represents before sb"
    using normalized_snapshot_builds [OF assms(1,2)] by blast
  obtain after where a: "build_generation sa = Inr after" "represents after sa"
    using normalized_snapshot_builds [OF assms(3,4)] by blast
  have fields: "us_nodes sb = nodes" "us_relations sb = relations" "metadata_of sb = md"
    "us_nodes sa = nodes'" "us_relations sa = relations'" "metadata_of sa = md'"
    and valid: "valid_tree nodes roots relations" "valid_tree nodes' roots' relations'"
    using normalized_snapshot_ok [OF assms(1)] normalized_snapshot_ok [OF assms(3)] by simp_all
  have ok: "\<forall>n\<in>set (us_nodes sb). node_record_ok n" "distinct (us_relations sb)" "int (length (us_nodes sb)) \<le> 4294967296"
    "\<forall>n\<in>set (us_nodes sa). node_record_ok n" "distinct (us_relations sa)" "int (length (us_nodes sa)) \<le> 4294967296"
    using valid assms(2,4) by (simp_all add: valid_tree_def fields)
  have snapshots: "gn_snapshot before = sb" "gn_snapshot after = sa" using b(2) a(2) by (simp_all add: represents_def)
  have first: "derive_replacement_events None after = added_generation_events after"
    by (simp add: derive_replacement_events_def)
  note whole = whole_tree_events [OF a(2) ok(4,6,5), unfolded fields] whole_tree_events [OF b(2) ok(1,3,2), unfolded fields]
  note same = same_scope_events_distinct [OF b(2) ok(2) a(2) ok(5)] update_events_spec [OF b(2) ok(1,3) a(2) ok(4,6), unfolded fields]
  note replaced = replacement_events [OF snapshots, unfolded fields]
  show ?thesis
    by (intro exI [of _ before] exI [of _ after] conjI a(1) b(1) same) (use first whole replaced in \<open>auto split: if_splits\<close>)
qed

definition sample_node :: "node_id \<Rightarrow> u32 \<Rightarrow> ui_node_record" where
  "sample_node n role = \<lparr>un_id = n, un_generation = 0, un_role = role, un_states = 0, un_facets = 0,
     un_properties = [(1, \<lparr>pr_state = Present, pr_value = StringValue ''a''\<rparr>)], un_provenance = \<lparr>pv_runtime = 1, pv_revision = 1\<rparr>\<rparr>"

definition sample_metadata :: "u64 \<Rightarrow> ui_snapshot_metadata" where
  "sample_metadata revision = \<lparr>md_runtime = 1, md_tree = 1, md_epoch = 1, md_revision = revision, md_complete = True\<rparr>"

definition sample_contains :: "node_id \<Rightarrow> node_id \<Rightarrow> ui_relation" where
  "sample_contains source tgt = \<lparr>ur_source = source, ur_target = tgt, ur_relation = contains_relation\<rparr>"

theorem update_events_exact_witness:
  "\<exists>before after.
     build_generation (from_records (sample_metadata 1) [sample_node 1 5, sample_node 2 5] [1] [sample_contains 1 2]) = Inr before \<and>
     build_generation (from_records (sample_metadata 2) [sample_node 1 6, sample_node 3 5] [1] [sample_contains 1 3]) = Inr after \<and>
     node_event NodeRemoved before 2 \<in> set (derive_replacement_events (Some before) after) \<and>
     node_event NodeChanged after 1 \<in> set (derive_replacement_events (Some before) after)"
proof -
  have b: "normalized_snapshot (sample_metadata 1) [sample_node 1 5, sample_node 2 5] [1] [sample_contains 1 2] =
      Inr (from_records (sample_metadata 1) [sample_node 1 5, sample_node 2 5] [1] [sample_contains 1 2])"
    by code_simp
  have a: "normalized_snapshot (sample_metadata 2) [sample_node 1 6, sample_node 3 5] [] [sample_contains 1 3] =
      Inr (from_records (sample_metadata 2) [sample_node 1 6, sample_node 3 5] [1] [sample_contains 1 3])"
    by code_simp
  have gone: "2 \<in> nodes_gone [sample_node 1 5, sample_node 2 5] [sample_node 1 6, sample_node 3 5]"
    unfolding nodes_gone_def by (rule image_eqI [of _ _ "sample_node 2 5"]) (simp_all add: sample_node_def)
  have altered: "1 \<in> nodes_altered [sample_node 1 5, sample_node 2 5] [sample_node 1 6, sample_node 3 5]"
    unfolding nodes_altered_def by (rule image_eqI [of _ _ "sample_node 1 6"]) (simp_all add: sample_node_def announced_alike_def)
  have scope: "md_runtime (sample_metadata 1) = md_runtime (sample_metadata 2) \<and> md_tree (sample_metadata 1) = md_tree (sample_metadata 2) \<and>
      md_epoch (sample_metadata 1) = md_epoch (sample_metadata 2)"
    by (simp add: sample_metadata_def)
  have "int (length [sample_node 1 5, sample_node 2 5]) \<le> 4294967296" "int (length [sample_node 1 6, sample_node 3 5]) \<le> 4294967296"
    by simp_all
  from update_events_exact [OF b this(1) a this(2), unfolded if_P [OF scope]] gone altered show ?thesis
    by (elim exE conjE) (intro exI conjI, assumption+, simp_all del: set_simps)
qed

text \<open>An update that only changes the facets of a node announces nothing.\<close>

theorem facet_change_unannounced:
  "let before = from_records (sample_metadata 1) [sample_node 1 5] [1] [];
       after = from_records (sample_metadata 2) [(sample_node 1 5)\<lparr>un_facets := 7\<rparr>] [1] []
   in case build_generation before of
        Inr b \<Rightarrow> (case build_generation after of Inr a \<Rightarrow> derive_replacement_events (Some b) a = [] | Inl _ \<Rightarrow> False)
      | Inl _ \<Rightarrow> False"
  by code_simp

end
