(* ===== verification/Tree_Store.thy ===== *)
theory Tree_Store
  imports Tree_Events
begin

text \<open>
  \<open>TreeStore\<close> of \<open>src/kernel/graph/tree_store.cpp\<close>: updates are checked against the newest generation, staged in
  a queue, and published in order by the one thread that finds no publisher at work; the events go to a sink that may call back
  into the store. The mutex makes each locked section one step, so a run of the store is a sequence of steps of
  a transition relation in which updates arrive at any moment of a publication. Shown: there is
  at most one publisher, events reach the sink exactly once and in the order in which their updates were accepted, no staged update
  is left behind, revisions advance, retired runtimes do not return, and after a gap nothing is accepted before a complete snapshot. Running out of memory is not modelled,
  nor is the count of failed sink calls, which nothing reads.
\<close>

section \<open>Deltas\<close>

fun add_delta_nodes ::
  "ui_snapshot_metadata \<Rightarrow> node_id set \<Rightarrow> ui_node_record list \<Rightarrow> ui_node_record list \<Rightarrow> ui_node_record list result" where
  "add_delta_nodes md added nodes [] = Inr nodes"
| "add_delta_nodes md added nodes (n # ns) =
     (if un_id n \<in> added \<or> list_ex (\<lambda>x. un_id x = un_id n) nodes
      then Inl (rejection InvalidArgument ''delta adds duplicate node id'' md)
      else add_delta_nodes md (insert (un_id n) added) (nodes @ [n]) ns)"

fun replace_node :: "ui_node_record \<Rightarrow> ui_node_record list \<Rightarrow> ui_node_record list option" where
  "replace_node n [] = None"
| "replace_node n (x # xs) = (if un_id x = un_id n then Some (n # xs) else map_option (Cons x) (replace_node n xs))"

fun change_delta_nodes ::
  "ui_snapshot_metadata \<Rightarrow> node_id set \<Rightarrow> ui_node_record list \<Rightarrow> ui_node_record list \<Rightarrow> ui_node_record list result" where
  "change_delta_nodes md changed nodes [] = Inr nodes"
| "change_delta_nodes md changed nodes (n # ns) =
     (if un_id n \<in> changed then Inl (rejection InvalidArgument ''delta changes duplicate node id'' md)
      else case replace_node n nodes of
             None \<Rightarrow> Inl (rejection NoMatch ''delta changes unknown node'' md)
           | Some nodes \<Rightarrow> change_delta_nodes md (insert (un_id n) changed) nodes ns)"

fun remove_delta_nodes ::
  "ui_snapshot_metadata \<Rightarrow> node_id set \<Rightarrow> ui_node_record list \<times> ui_relation list \<Rightarrow> node_id list \<Rightarrow>
   (ui_node_record list \<times> ui_relation list) result" where
  "remove_delta_nodes md removed acc [] = Inr acc"
| "remove_delta_nodes md removed acc (n # ns) =
     (if n \<in> removed then Inl (rejection InvalidArgument ''delta removes duplicate node id'' md)
      else let nodes = filter (\<lambda>x. un_id x \<noteq> n) (fst acc)
           in if length nodes = length (fst acc) then Inl (rejection NoMatch ''delta removes unknown node'' md)
              else remove_delta_nodes md (insert n removed)
                     (nodes, filter (\<lambda>r. ur_source r \<noteq> n \<and> ur_target r \<noteq> n) (snd acc)) ns)"

definition changed_relation :: "relation_change \<Rightarrow> ui_relation" where
  "changed_relation c = \<lparr>ur_source = rc_source c, ur_target = rc_target c, ur_relation = rc_relation c\<rparr>"

fun apply_relation_changes ::
  "ui_snapshot_metadata \<Rightarrow> ui_relation list \<Rightarrow> relation_change list \<Rightarrow> ui_relation list result" where
  "apply_relation_changes md relations [] = Inr relations"
| "apply_relation_changes md relations (c # cs) =
     (if rc_kind c = AddRelation
      then if changed_relation c \<in> set relations then Inl (rejection InvalidArgument ''delta adds duplicate relation'' md)
           else apply_relation_changes md (relations @ [changed_relation c]) cs
      else if changed_relation c \<notin> set relations then Inl (rejection NoMatch ''delta removes unknown relation'' md)
           else apply_relation_changes md (remove1 (changed_relation c) relations) cs)"

definition snapshot_from_delta :: "generation \<Rightarrow> ui_delta \<Rightarrow> ui_snapshot result" where
  "snapshot_from_delta current delta =
     (let md = delta_metadata delta
      in case add_delta_nodes md {} (us_nodes (gn_snapshot current)) (ud_added_nodes delta) of
           Inl e \<Rightarrow> Inl e
         | Inr nodes \<Rightarrow>
             (case change_delta_nodes md {} nodes (ud_changed_nodes delta) of
                Inl e \<Rightarrow> Inl e
              | Inr nodes \<Rightarrow>
                  (case remove_delta_nodes md {} (nodes, us_relations (gn_snapshot current)) (ud_removed_nodes delta) of
                     Inl e \<Rightarrow> Inl e
                   | Inr (nodes, relations) \<Rightarrow>
                       (case apply_relation_changes md relations (ud_relation_changes delta) of
                          Inl e \<Rightarrow> Inl e
                        | Inr relations \<Rightarrow> normalized_snapshot md nodes [] relations))))"

section \<open>Preparing an update\<close>

record applied_delta =
  ad_previous_revision :: u64
  ad_revision :: u64
  ad_events :: "tree_event list"

record prepared_update =
  pu_generation :: generation
  pu_applied :: applied_delta
  pu_source_sequence :: u64

definition prepare_snapshot :: "generation option \<Rightarrow> ui_snapshot \<Rightarrow> u64 \<Rightarrow> prepared_update result" where
  "prepare_snapshot current incoming_snapshot source_sequence =
     (let md = metadata_of incoming_snapshot
      in if (case current of None \<Rightarrow> False
             | Some c \<Rightarrow> same_scope (gn_snapshot c) incoming_snapshot \<and> us_revision incoming_snapshot \<le> us_revision (gn_snapshot c))
         then Inl (rejection ResyncRequired ''snapshot revision did not advance'' md)
         else case normalized_snapshot md (us_nodes incoming_snapshot) (us_roots incoming_snapshot) (us_relations incoming_snapshot) of
                Inl e \<Rightarrow> Inl e
              | Inr normalized \<Rightarrow>
                  (case build_generation normalized of
                     Inl e \<Rightarrow> Inl e
                   | Inr g \<Rightarrow>
                       Inr \<lparr>pu_generation = g,
                            pu_applied = \<lparr>ad_previous_revision =
                                            (case current of None \<Rightarrow> 0 | Some c \<Rightarrow> us_revision (gn_snapshot c)),
                                          ad_revision = md_revision md, ad_events = derive_replacement_events current g\<rparr>,
                            pu_source_sequence = source_sequence\<rparr>))"

definition prepare_delta :: "generation option \<Rightarrow> ui_delta \<Rightarrow> u64 \<Rightarrow> prepared_update result" where
  "prepare_delta current delta source_sequence =
     (let md = delta_metadata delta
      in case current of
           None \<Rightarrow> Inl (rejection ResyncRequired ''delta received before an initial snapshot'' md)
         | Some c \<Rightarrow>
             if ud_runtime delta \<noteq> us_runtime (gn_snapshot c)
             then Inl (rejection RuntimeRestarted ''delta runtime identity changed'' md)
             else if ud_tree delta \<noteq> us_tree (gn_snapshot c)
             then Inl (rejection ResyncRequired ''delta tree identity changed'' md)
             else if ud_epoch delta \<noteq> us_epoch (gn_snapshot c)
             then Inl (rejection TreeResynced ''delta tree epoch changed'' md)
             else if ud_base_revision delta \<noteq> us_revision (gn_snapshot c) \<or> ud_revision delta \<le> ud_base_revision delta
             then Inl (rejection ResyncRequired ''delta base revision is out of order'' md)
             else case snapshot_from_delta c delta of
                    Inl e \<Rightarrow> Inl e
                  | Inr candidate \<Rightarrow>
                      (case build_generation candidate of
                         Inl e \<Rightarrow> Inl e
                       | Inr g \<Rightarrow>
                           Inr \<lparr>pu_generation = g,
                                pu_applied = \<lparr>ad_previous_revision = us_revision (gn_snapshot c),
                                              ad_revision = ud_revision delta, ad_events = derive_same_scope_events c g\<rparr>,
                                pu_source_sequence = source_sequence\<rparr>))"

section \<open>The store\<close>

record tree_store =
  ts_current :: "generation option"
  ts_previous :: "generation option"
  ts_retired_runtimes :: "u32 set"
  ts_pending_updates :: "prepared_update list"
  ts_last_source_sequence :: u64
  ts_requires_resnapshot :: bool
  ts_publishing :: bool

definition new_tree_store :: tree_store where
  "new_tree_store =
     \<lparr>ts_current = None, ts_previous = None, ts_retired_runtimes = {}, ts_pending_updates = [],
      ts_last_source_sequence = 0, ts_requires_resnapshot = False, ts_publishing = False\<rparr>"

definition staged_generation :: "tree_store \<Rightarrow> generation option" where
  "staged_generation t =
     (if ts_pending_updates t = [] then ts_current t else Some (pu_generation (last (ts_pending_updates t))))"

definition update_metadata :: "ui_update \<Rightarrow> u64 \<Rightarrow> ui_snapshot_metadata" where
  "update_metadata u current_revision =
     (case up_payload u of
        SnapshotUpdate s \<Rightarrow> metadata_of s
      | DeltaUpdate d \<Rightarrow> delta_metadata d
      | GapUpdate g \<Rightarrow> \<lparr>md_runtime = gp_runtime g, md_tree = gp_tree g, md_epoch = gp_epoch g,
                        md_revision = current_revision, md_complete = False\<rparr>)"

definition note_gap :: "ui_update \<Rightarrow> tree_gap \<Rightarrow> ui_snapshot_metadata \<Rightarrow> tree_store \<Rightarrow> error \<times> tree_store" where
  "note_gap u gap md t =
     (let scope = map_option gn_snapshot (staged_generation t)
      in if scope \<noteq> None \<and> gp_runtime gap \<noteq> us_runtime (the scope)
         then (rejection RuntimeRestarted ''gap runtime identity changed'' md, t)
         else if scope \<noteq> None \<and> gp_tree gap \<noteq> us_tree (the scope)
         then (rejection ResyncRequired ''gap tree identity changed'' md, t)
         else if scope \<noteq> None \<and> gp_epoch gap \<noteq> us_epoch (the scope)
         then (rejection TreeResynced ''gap tree epoch changed'' md, t)
         else (rejection QueueGap (''tree update queue dropped '' @ to_string (unat (gp_dropped gap)) @ '' updates'') md,
               t\<lparr>ts_requires_resnapshot := True,
                 ts_last_source_sequence := if up_source_sequence u \<noteq> 0 then up_source_sequence u else ts_last_source_sequence t\<rparr>))"

definition complete_snapshot :: "ui_update \<Rightarrow> bool" where
  "complete_snapshot u = (case up_payload u of SnapshotUpdate s \<Rightarrow> us_complete s | _ \<Rightarrow> False)"

definition prepare_update :: "generation option \<Rightarrow> ui_update \<Rightarrow> prepared_update result" where
  "prepare_update staged u =
     (case up_payload u of
        SnapshotUpdate s \<Rightarrow> prepare_snapshot staged s (up_source_sequence u)
      | DeltaUpdate d \<Rightarrow> prepare_delta staged d (up_source_sequence u)
      | GapUpdate g \<Rightarrow> Inl (fail InternalFault ''tree update failed''))"

definition enqueue_update :: "ui_update \<Rightarrow> prepared_update \<Rightarrow> tree_store \<Rightarrow> tree_store" where
  "enqueue_update u p t =
     (let staged = staged_generation t;
          runtime_changed = (case staged of None \<Rightarrow> False
                             | Some g \<Rightarrow> us_runtime (gn_snapshot g) \<noteq> us_runtime (gn_snapshot (pu_generation p)))
      in t\<lparr>ts_retired_runtimes :=
             (if runtime_changed then insert (us_runtime (gn_snapshot (the staged))) (ts_retired_runtimes t) else ts_retired_runtimes t),
           ts_pending_updates := ts_pending_updates t @ [p],
           ts_last_source_sequence :=
             (if up_source_sequence u \<noteq> 0 \<or> runtime_changed then up_source_sequence u else ts_last_source_sequence t),
           ts_requires_resnapshot := (if complete_snapshot u then False else ts_requires_resnapshot t),
           ts_publishing := True\<rparr>)"

text \<open>The locked part of \<open>apply\<close>: the answer, whether the caller publishes, and the store.\<close>

definition stage :: "ui_update \<Rightarrow> tree_store \<Rightarrow> applied_delta result \<times> bool \<times> tree_store" where
  "stage u t =
     (let staged = staged_generation t;
          md = update_metadata u (case staged of None \<Rightarrow> 0 | Some g \<Rightarrow> us_revision (gn_snapshot g))
      in if md_runtime md \<in> ts_retired_runtimes t
         then (Inl (rejection RuntimeRestarted ''runtime generation has been retired'' md), False, t)
         else if (case staged of None \<Rightarrow> False | Some g \<Rightarrow> md_runtime md = us_runtime (gn_snapshot g)) \<and>
                 up_source_sequence u \<noteq> 0 \<and> up_source_sequence u \<le> ts_last_source_sequence t
         then (Inl (rejection ResyncRequired ''source sequence did not advance'' md), False, t)
         else case up_payload u of
                GapUpdate gap \<Rightarrow> (case note_gap u gap md t of (e, t) \<Rightarrow> (Inl e, False, t))
              | _ \<Rightarrow>
                  if ts_requires_resnapshot t \<and> \<not> complete_snapshot u
                  then (Inl (rejection ResyncRequired ''full snapshot required after tree update queue gap'' md), False, t)
                  else case prepare_update staged u of
                         Inl e \<Rightarrow> (Inl e, False, t)
                       | Inr p \<Rightarrow> (Inr (pu_applied p), \<not> ts_publishing t, enqueue_update u p t))"

text \<open>The locked part of \<open>drain_publications\<close>: the next update becomes current, or the publisher stops.\<close>

definition take_pending :: "tree_store \<Rightarrow> tree_event list option \<times> tree_store" where
  "take_pending t =
     (case ts_pending_updates t of
        [] \<Rightarrow> (None, t\<lparr>ts_publishing := False\<rparr>)
      | p # ps \<Rightarrow> (Some (ad_events (pu_applied p)),
                   t\<lparr>ts_pending_updates := ps, ts_previous := ts_current t, ts_current := Some (pu_generation p)\<rparr>))"

definition store_snapshot :: "tree_store \<Rightarrow> ui_snapshot option" where
  "store_snapshot t = map_option gn_snapshot (ts_current t)"

definition store_previous_snapshot :: "tree_store \<Rightarrow> ui_snapshot option" where
  "store_previous_snapshot t = map_option gn_snapshot (ts_previous t)"

definition store_revision :: "tree_store \<Rightarrow> u64" where
  "store_revision t = (case ts_current t of None \<Rightarrow> 0 | Some g \<Rightarrow> us_revision (gn_snapshot g))"

definition core_relations :: "tree_store \<Rightarrow> node_id \<Rightarrow> node_id \<Rightarrow> u32 option" where
  "core_relations t source tgt =
     (case ts_current t of None \<Rightarrow> None | Some g \<Rightarrow> edge_relations (gn_relations g) source tgt)"

section \<open>Runs of the store\<close>

text \<open>
  The publisher is the thread inside \<open>drain_publications\<close>, if any, with the events it still has to
  hand to the sink; a store made without a sink hands over nothing. \<open>sys_sent\<close> are the events the sink has been
  called with, \<open>sys_history\<close> the accepted updates and \<open>sys_log\<close> all updates with their answers, in order. An update may arrive
  at any moment, from another thread or from the sink.
\<close>

record tree_system =
  sys_store :: tree_store
  sys_sink :: bool
  sys_publisher :: "tree_event list option"
  sys_sent :: "tree_event list"
  sys_history :: "prepared_update list"
  sys_log :: "(ui_update \<times> applied_delta result) list"

definition new_system :: "bool \<Rightarrow> tree_system" where
  "new_system sink =
     \<lparr>sys_store = new_tree_store, sys_sink = sink, sys_publisher = None, sys_sent = [], sys_history = [], sys_log = []\<rparr>"

inductive publisher_step :: "tree_system \<Rightarrow> tree_system \<Rightarrow> bool" where
  take_update: "sys_publisher s = Some [] \<Longrightarrow> take_pending (sys_store s) = (Some events, t) \<Longrightarrow>
    publisher_step s (s\<lparr>sys_store := t, sys_publisher := Some (if sys_sink s then events else [])\<rparr>)"
| send_event: "sys_publisher s = Some (e # es) \<Longrightarrow>
    publisher_step s (s\<lparr>sys_publisher := Some es, sys_sent := sys_sent s @ [e]\<rparr>)"
| finish: "sys_publisher s = Some [] \<Longrightarrow> take_pending (sys_store s) = (None, t) \<Longrightarrow>
    publisher_step s (s\<lparr>sys_store := t, sys_publisher := None\<rparr>)"

inductive system_step :: "tree_system \<Rightarrow> tree_system \<Rightarrow> bool" where
  accept: "stage u (sys_store s) = (Inr applied, publish, t) \<Longrightarrow>
    system_step s (s\<lparr>sys_store := t, sys_publisher := (if publish then Some [] else sys_publisher s),
                     sys_history := sys_history s @ [last (ts_pending_updates t)],
                     sys_log := sys_log s @ [(u, Inr applied)]\<rparr>)"
| reject: "stage u (sys_store s) = (Inl e, publish, t) \<Longrightarrow>
    system_step s (s\<lparr>sys_store := t, sys_log := sys_log s @ [(u, Inl e)]\<rparr>)"
| publish: "publisher_step s s' \<Longrightarrow> system_step s s'"

inductive reachable :: "tree_system \<Rightarrow> bool" where
  initial: "reachable (new_system sink)"
| step: "reachable s \<Longrightarrow> system_step s s' \<Longrightarrow> reachable s'"

definition update_events :: "prepared_update list \<Rightarrow> tree_event list" where
  "update_events ps = concat (map (\<lambda>p. ad_events (pu_applied p)) ps)"

definition events_for_sink :: "tree_system \<Rightarrow> prepared_update list \<Rightarrow> tree_event list" where
  "events_for_sink s ps = (if sys_sink s then update_events ps else [])"

definition last_generation :: "prepared_update list \<Rightarrow> generation option" where
  "last_generation ps = (if ps = [] then None else Some (pu_generation (last ps)))"

text \<open>\<open>done\<close> is the part of the history that has been taken from the queue.\<close>

definition publication_ok :: "prepared_update list \<Rightarrow> tree_system \<Rightarrow> bool" where
  "publication_ok done s \<longleftrightarrow>
     (ts_publishing (sys_store s) \<longleftrightarrow> sys_publisher s \<noteq> None) \<and>
     (sys_publisher s = None \<longrightarrow> ts_pending_updates (sys_store s) = []) \<and>
     sys_history s = done @ ts_pending_updates (sys_store s) \<and>
     ts_current (sys_store s) = last_generation done \<and>
     ts_previous (sys_store s) = last_generation (butlast done) \<and>
     events_for_sink s done = sys_sent s @ (case sys_publisher s of None \<Rightarrow> [] | Some es \<Rightarrow> es)"

definition runtime_of :: "prepared_update \<Rightarrow> u32" where
  "runtime_of p = us_runtime (gn_snapshot (pu_generation p))"

definition advances :: "prepared_update \<Rightarrow> prepared_update \<Rightarrow> bool" where
  "advances p q \<longleftrightarrow>
     (same_scope (gn_snapshot (pu_generation p)) (gn_snapshot (pu_generation q)) \<longrightarrow>
      us_revision (gn_snapshot (pu_generation p)) < us_revision (gn_snapshot (pu_generation q)))"

definition history_ok :: "tree_system \<Rightarrow> bool" where
  "history_ok s \<longleftrightarrow>
     successively advances (sys_history s) \<and>
     distinct (remdups_adj (map runtime_of (sys_history s))) \<and>
     ts_retired_runtimes (sys_store s) =
       (if sys_history s = [] then {} else runtime_of ` set (sys_history s) - {runtime_of (last (sys_history s))})"

section \<open>Publication\<close>

definition update_runtime :: "ui_update \<Rightarrow> u32" where
  "update_runtime u = (case up_payload u of SnapshotUpdate x \<Rightarrow> us_runtime x | DeltaUpdate d \<Rightarrow> ud_runtime d | GapUpdate g \<Rightarrow> gp_runtime g)"

lemma update_metadata_runtime [simp]: "md_runtime (update_metadata u r) = update_runtime u"
  by (simp add: update_metadata_def update_runtime_def metadata_of_def delta_metadata_def split: update_payload.split)

text \<open>A gap that the store took note of.\<close>

definition gap_noted :: "ui_update \<Rightarrow> error \<Rightarrow> bool" where
  "gap_noted u e \<longleftrightarrow> (case up_payload u of GapUpdate g \<Rightarrow> err_code e = QueueGap | _ \<Rightarrow> False)"

lemma rejection_code [simp]: "err_code (rejection c m md) = c"
  by (simp add: rejection_def)

lemma note_gap_cases:
  "err_code (fst (note_gap u gap md t)) \<noteq> QueueGap \<and> snd (note_gap u gap md t) = t \<or>
   err_code (fst (note_gap u gap md t)) = QueueGap \<and> snd (note_gap u gap md t) = t\<lparr>ts_requires_resnapshot := True,
     ts_last_source_sequence := if up_source_sequence u \<noteq> 0 then up_source_sequence u else ts_last_source_sequence t\<rparr>"
  unfolding note_gap_def Let_def by simp

lemma stage_cases:
  obtains (accepted) p where "prepare_update (staged_generation t) u = Inr p"
      "stage u t = (Inr (pu_applied p), \<not> ts_publishing t, enqueue_update u p t)"
      "update_runtime u \<notin> ts_retired_runtimes t" "ts_requires_resnapshot t \<longrightarrow> complete_snapshot u"
    | (rejected) e where "stage u t = (Inl e, False, t)" "\<not> gap_noted u e"
    | (gap) e q where "gap_noted u e" "stage u t = (Inl e, False, t\<lparr>ts_requires_resnapshot := True, ts_last_source_sequence := q\<rparr>)"
proof (cases "update_runtime u \<in> ts_retired_runtimes t \<or>
    (case staged_generation t of None \<Rightarrow> False | Some g \<Rightarrow> update_runtime u = us_runtime (gn_snapshot g)) \<and>
      up_source_sequence u \<noteq> 0 \<and> up_source_sequence u \<le> ts_last_source_sequence t")
  case True
  have "\<exists>e. stage u t = (Inl e, False, t) \<and> \<not> gap_noted u e"
    using True unfolding stage_def Let_def update_metadata_runtime
    by (cases "update_runtime u \<in> ts_retired_runtimes t") (auto simp: gap_noted_def split: update_payload.splits)
  then show thesis using rejected by blast
next
  case ok: False
  then have not_retired: "update_runtime u \<notin> ts_retired_runtimes t"
    and advanced: "\<not> ((case staged_generation t of None \<Rightarrow> False | Some g \<Rightarrow> update_runtime u = us_runtime (gn_snapshot g)) \<and>
      up_source_sequence u \<noteq> 0 \<and> up_source_sequence u \<le> ts_last_source_sequence t)" by blast+
  note st_def = stage_def [of u t] Let_def update_metadata_runtime if_not_P [OF not_retired] if_not_P [OF advanced]
  show thesis
  proof (cases "\<exists>gap. up_payload u = GapUpdate gap")
    case True
    then obtain gp where gp: "up_payload u = GapUpdate gp" by blast
    let ?md = "update_metadata u (case staged_generation t of None \<Rightarrow> 0 | Some g \<Rightarrow> us_revision (gn_snapshot g))"
    have "stage u t = (case note_gap u gp ?md t of (e, t) \<Rightarrow> (Inl e, False, t))"
      using gp unfolding st_def by simp
    then have st: "stage u t = (Inl (fst (note_gap u gp ?md t)), False, snd (note_gap u gp ?md t))" by (simp add: case_prod_beta)
    from note_gap_cases [of u gp ?md t] show thesis
    proof
      assume unchanged: "err_code (fst (note_gap u gp ?md t)) \<noteq> QueueGap \<and> snd (note_gap u gp ?md t) = t"
      have "\<not> gap_noted u (fst (note_gap u gp ?md t))"
        using unchanged [THEN conjunct1] gp unfolding gap_noted_def by simp
      then show thesis using st unchanged [THEN conjunct2] by (intro rejected) simp_all
    qed (use st gp in \<open>intro gap, simp_all add: gap_noted_def\<close>)
  next
    case False
    have no_gap: "\<not> gap_noted u e" for e
      using False by (auto simp: gap_noted_def split: update_payload.splits)
    have pick: "(case up_payload u of GapUpdate gap \<Rightarrow> x gap | _ \<Rightarrow> y) = y" for x and y :: "applied_delta result \<times> bool \<times> tree_store"
      using False by (cases "up_payload u") auto
    show thesis
    proof (cases "ts_requires_resnapshot t \<and> \<not> complete_snapshot u")
      case True
      then have "\<exists>e. stage u t = (Inl e, False, t)"
        unfolding st_def pick by simp
      then show thesis using rejected no_gap by blast
    next
      case fresh: False
      then have st: "stage u t = (case prepare_update (staged_generation t) u of Inl e \<Rightarrow> (Inl e, False, t)
          | Inr p \<Rightarrow> (Inr (pu_applied p), \<not> ts_publishing t, enqueue_update u p t))"
        unfolding st_def pick by auto
      show thesis
      proof (cases "prepare_update (staged_generation t) u")
        case (Inl e)
        then show thesis using rejected [of e] st no_gap by simp
      next
        case (Inr p)
        then show thesis using accepted [OF Inr] st not_retired fresh by simp
      qed
    qed
  qed
qed

lemma enqueue_update_fields [simp]:
  "ts_pending_updates (enqueue_update u p t) = ts_pending_updates t @ [p]" "ts_publishing (enqueue_update u p t)"
  "ts_current (enqueue_update u p t) = ts_current t" "ts_previous (enqueue_update u p t) = ts_previous t"
  by (simp_all add: enqueue_update_def Let_def)

lemma publisher_step_ok:
  assumes "publisher_step s s'" and "publication_ok done s"
  shows "\<exists>done'. publication_ok done' s'"
  using assms(1)
proof (cases rule: publisher_step.cases)
  case (take_update events t)
  then obtain p ps where p: "ts_pending_updates (sys_store s) = p # ps" "events = ad_events (pu_applied p)"
    "t = (sys_store s)\<lparr>ts_pending_updates := ps, ts_previous := ts_current (sys_store s), ts_current := Some (pu_generation p)\<rparr>"
    by (auto simp: take_pending_def split: list.splits)
  have "publication_ok (done @ [p]) s'"
    using assms(2) take_update p by (auto simp: publication_ok_def last_generation_def update_events_def events_for_sink_def)
  then show ?thesis by blast
next
  case (send_event e es)
  then show ?thesis using assms(2) by (auto simp: publication_ok_def events_for_sink_def)
next
  case (finish t)
  then have "ts_pending_updates (sys_store s) = []" "t = (sys_store s)\<lparr>ts_publishing := False\<rparr>"
    by (auto simp: take_pending_def split: list.splits)
  then show ?thesis using assms(2) finish by (auto simp: publication_ok_def events_for_sink_def)
qed

lemma system_step_ok:
  assumes "system_step s s'" and "publication_ok done s"
  shows "\<exists>done'. publication_ok done' s'"
  using assms(1)
proof (cases rule: system_step.cases)
  case (accept u applied publish t)
  show ?thesis
  proof (cases "sys_store s" u rule: stage_cases)
    case (accepted p)
    then show ?thesis using accept assms(2) by (intro exI [of _ "done"]) (auto simp: publication_ok_def events_for_sink_def)
  qed (use accept in auto)
next
  case (reject u e publish t)
  show ?thesis
  proof (cases "sys_store s" u rule: stage_cases)
    case (gap e' q)
    then show ?thesis using reject assms(2) by (intro exI [of _ "done"]) (auto simp: publication_ok_def events_for_sink_def)
  next
    case (rejected e')
    then show ?thesis using reject assms(2) by (intro exI [of _ "done"]) (auto simp: publication_ok_def events_for_sink_def)
  qed (use reject in auto)
next
  case publish
  then show ?thesis using publisher_step_ok assms(2) by blast
qed

lemma reachable_publication_ok: "reachable s \<Longrightarrow> \<exists>done. publication_ok done s"
proof (induction rule: reachable.induct)
  case (initial sink)
  have "publication_ok [] (new_system sink)"
    by (simp add: publication_ok_def new_system_def new_tree_store_def last_generation_def update_events_def events_for_sink_def)
  then show ?case by blast
qed (blast dest: system_step_ok)

section \<open>History\<close>

lemma staged_is_last:
  "publication_ok done s \<Longrightarrow> staged_generation (sys_store s) = last_generation (sys_history s)"
  by (auto simp: publication_ok_def staged_generation_def last_generation_def)

lemma add_nodes_snapshot: "add_nodes md ns position g = Inr g' \<Longrightarrow> gn_snapshot g' = gn_snapshot g"
  by (induction md ns position g rule: add_nodes.induct)
     (auto simp: add_facts_def Let_def split: if_splits prod.splits)

lemma build_generation_snapshot: "build_generation s = Inr g \<Longrightarrow> gn_snapshot g = s"
  by (auto simp: build_generation_def Let_def empty_generation_def dest!: add_nodes_snapshot split: if_splits sum.splits prod.splits)

lemma prepared_advances:
  assumes "prepare_update staged u = Inr p"
  shows "runtime_of p = update_runtime u" and "\<And>q. staged = Some (pu_generation q) \<Longrightarrow> advances q p"
proof -
  have "runtime_of p = update_runtime u \<and> (\<forall>q. staged = Some (pu_generation q) \<longrightarrow> advances q p)"
  proof (cases "up_payload u")
    case (SnapshotUpdate x)
    then obtain n where "normalized_snapshot (metadata_of x) (us_nodes x) (us_roots x) (us_relations x) = Inr n"
      "build_generation n = Inr (pu_generation p)"
      and newer: "\<not> (case staged of None \<Rightarrow> False | Some c \<Rightarrow> same_scope (gn_snapshot c) x \<and> us_revision x \<le> us_revision (gn_snapshot c))"
      using assms by (auto simp: prepare_update_def prepare_snapshot_def Let_def split: if_splits sum.splits)
    then have "metadata_of (gn_snapshot (pu_generation p)) = metadata_of x"
      using normalized_snapshot_ok(4) build_generation_snapshot by metis
    then show ?thesis
      using newer SnapshotUpdate
      by (auto simp: runtime_of_def update_runtime_def metadata_of_def advances_def same_scope_def)
  next
    case (DeltaUpdate d)
    then obtain c n where c: "staged = Some c" "ud_runtime d = us_runtime (gn_snapshot c)" "us_revision (gn_snapshot c) < ud_revision d"
      and n: "snapshot_from_delta c d = Inr n" "build_generation n = Inr (pu_generation p)"
      using assms by (auto simp: prepare_update_def prepare_delta_def Let_def split: if_splits sum.splits option.splits)
    have "metadata_of n = delta_metadata d"
      using n(1) normalized_snapshot_ok(4) by (auto simp: snapshot_from_delta_def Let_def split: sum.splits prod.splits)
    then show ?thesis
      using c build_generation_snapshot [OF n(2)] DeltaUpdate
      by (auto simp: runtime_of_def update_runtime_def metadata_of_def delta_metadata_def advances_def)
  qed (use assms in \<open>simp add: prepare_update_def\<close>)
  then show "runtime_of p = update_runtime u" and "\<And>q. staged = Some (pu_generation q) \<Longrightarrow> advances q p" by blast+
qed

lemma remdups_adj_snoc:
  "remdups_adj (xs @ [x]) = (if xs \<noteq> [] \<and> last xs = x then remdups_adj xs else remdups_adj xs @ [x])"
  by (induction xs rule: remdups_adj.induct) auto

lemma distinct_runs_snoc:
  assumes "distinct (remdups_adj xs)" and "xs \<noteq> [] \<Longrightarrow> x \<notin> set xs - {last xs}"
  shows "distinct (remdups_adj (xs @ [x]))"
  using assms by (cases "xs = []") (auto simp: remdups_adj_snoc)

lemma successively_snoc:
  "successively P (xs @ [x]) \<longleftrightarrow> successively P xs \<and> (xs = [] \<or> P (last xs) x)"
  by (auto simp: successively_append_iff)

lemma enqueue_retired:
  "ts_retired_runtimes (enqueue_update u p t) =
     (case staged_generation t of
        None \<Rightarrow> ts_retired_runtimes t
      | Some g \<Rightarrow> if us_runtime (gn_snapshot g) \<noteq> runtime_of p then insert (us_runtime (gn_snapshot g)) (ts_retired_runtimes t)
                 else ts_retired_runtimes t)"
  by (simp add: enqueue_update_def Let_def runtime_of_def split: option.split)

lemma history_snoc:
  assumes ok: "history_ok s" and staged: "staged_generation (sys_store s) = last_generation (sys_history s)"
    and p: "prepare_update (staged_generation (sys_store s)) u = Inr p" and runtime: "update_runtime u \<notin> ts_retired_runtimes (sys_store s)"
  shows "history_ok (s\<lparr>sys_store := enqueue_update u p (sys_store s), sys_publisher := x, sys_history := sys_history s @ [p],
                      sys_log := log\<rparr>)"
proof -
  note adv = prepared_advances [OF p]
  have new: "sys_history s \<noteq> [] \<Longrightarrow>
      runtime_of p \<notin> set (map runtime_of (sys_history s)) - {last (map runtime_of (sys_history s))}"
    using ok runtime adv(1) by (simp add: history_ok_def last_map)
  have "distinct (remdups_adj (map runtime_of (sys_history s @ [p])))"
    using ok new unfolding map_append list.map by (intro distinct_runs_snoc) (auto simp: history_ok_def)
  moreover have "successively advances (sys_history s @ [p])"
    using ok adv(2) [of "last (sys_history s)"] staged
    by (cases "sys_history s = []") (auto simp: history_ok_def successively_snoc last_generation_def)
  moreover have "ts_retired_runtimes (enqueue_update u p (sys_store s)) = runtime_of ` set (sys_history s @ [p]) - {runtime_of p}"
  proof (cases "sys_history s = []")
    case False
    let ?R = "runtime_of ` set (sys_history s)" and ?l = "runtime_of (last (sys_history s))"
    have staged': "staged_generation (sys_store s) = Some (pu_generation (last (sys_history s)))"
      using staged False by (simp add: last_generation_def)
    have "ts_retired_runtimes (enqueue_update u p (sys_store s)) = (if ?l \<noteq> runtime_of p then insert ?l (?R - {?l}) else ?R - {?l})"
      using ok False unfolding enqueue_retired staged' by (simp add: history_ok_def runtime_of_def)
    moreover have "runtime_of p \<notin> ?R - {?l}" "?l \<in> ?R" using new False by (simp_all add: last_map)
    moreover have "(if l \<noteq> x then insert l (R - {l}) else R - {l}) = insert x R - {x}" if "x \<notin> R - {l}" "l \<in> R" for R and l x :: u32
      using that by auto
    ultimately show ?thesis by simp
  qed (use ok staged in \<open>simp add: enqueue_retired history_ok_def last_generation_def\<close>)
  ultimately show ?thesis by (simp add: history_ok_def)
qed

lemma publisher_step_history:
  assumes "publisher_step s s'"
  shows "sys_history s' = sys_history s \<and> sys_log s' = sys_log s \<and> sys_sink s' = sys_sink s \<and>
    ts_retired_runtimes (sys_store s') = ts_retired_runtimes (sys_store s) \<and>
    ts_requires_resnapshot (sys_store s') = ts_requires_resnapshot (sys_store s)"
  using assms by cases (auto simp: take_pending_def split: list.splits)

lemma system_step_history:
  assumes "system_step s s'" and "publication_ok done s" and "history_ok s"
  shows "history_ok s'"
  using assms(1)
proof (cases rule: system_step.cases)
  case (accept u applied publish t)
  show ?thesis
  proof (cases "sys_store s" u rule: stage_cases)
    case (accepted p)
    then show ?thesis
      using accept history_snoc [OF assms(3) staged_is_last [OF assms(2)] accepted(1,3)] by simp
  qed (use accept in auto)
next
  case (reject u e publish t)
  show ?thesis
    by (cases "sys_store s" u rule: stage_cases) (use reject assms(3) in \<open>auto simp: history_ok_def\<close>)
next
  case publish
  then show ?thesis using publisher_step_history [OF publish] assms(3) by (simp add: history_ok_def)
qed

lemma reachable_history_ok: "reachable s \<Longrightarrow> history_ok s"
proof (induction rule: reachable.induct)
  case initial
  then show ?case by (simp add: history_ok_def new_system_def new_tree_store_def)
next
  case (step s s')
  then show ?case using system_step_history reachable_publication_ok by blast
qed

text \<open>Left alone, the publisher hands over what it holds and what waits, and stops.\<close>

definition publisher_work :: "tree_system \<Rightarrow> nat" where
  "publisher_work s =
     (case sys_publisher s of None \<Rightarrow> 0 | Some es \<Rightarrow> 1 + length es) +
     length (ts_pending_updates (sys_store s)) + length (update_events (ts_pending_updates (sys_store s)))"

lemma publisher_can_step:
  assumes "sys_publisher s \<noteq> None"
  shows "\<exists>s'. publisher_step s s'"
proof -
  obtain es where es: "sys_publisher s = Some es" using assms by blast
  obtain next_events t where taken: "take_pending (sys_store s) = (next_events, t)" by fastforce
  show ?thesis
  proof (cases es)
    case Nil
    then show ?thesis
      using es taken publisher_step.take_update [of s _ t] publisher_step.finish [of s t] by (cases next_events) auto
  next
    case (Cons e es')
    then show ?thesis using es publisher_step.send_event [of s e es'] by auto
  qed
qed

lemma publisher_step_work: "publisher_step s s' \<Longrightarrow> publisher_work s' < publisher_work s"
  by (cases rule: publisher_step.cases, assumption)
     (auto simp: publisher_work_def take_pending_def update_events_def split: list.splits)

lemma publisher_finishes: "\<exists>s'. publisher_step\<^sup>*\<^sup>* s s' \<and> sys_publisher s' = None"
proof (induction "publisher_work s" arbitrary: s rule: less_induct)
  case less
  show ?case
  proof (cases "sys_publisher s = None")
    case False
    then obtain s' where s': "publisher_step s s'" using publisher_can_step by blast
    then show ?thesis
      using less [OF publisher_step_work [OF s']] by (blast intro: converse_rtranclp_into_rtranclp)
  qed blast
qed

lemma reachable_publisher: "publisher_step\<^sup>*\<^sup>* s s' \<Longrightarrow> reachable s \<Longrightarrow> reachable s'"
  by (induction rule: rtranclp_induct) (blast intro: reachable.step system_step.publish)+

lemma publisher_steps_history: "publisher_step\<^sup>*\<^sup>* s s' \<Longrightarrow> sys_history s' = sys_history s \<and> sys_sink s' = sys_sink s"
  by (induction rule: rtranclp_induct) (simp_all add: publisher_step_history)

text \<open>
  C6. In every run of the store, with updates arriving from any thread and from within the sink, a publication is in
  progress exactly when there is a publisher, and no update waits without one. The current and the previous
  generation are those of the last two updates taken from the queue; the sink has been called with the events of the
  updates taken, each once and in the order the updates were accepted, except for those the publisher still holds. Left alone, the publisher
  always comes to an end, and then the sink has seen every event of every accepted update. A store without a sink goes through the
  same generations and calls nothing.\<close>

theorem publication_in_order:
  assumes "reachable s"
  shows "(\<exists>done. publication_ok done s) \<and>
    (\<exists>s'. publisher_step\<^sup>*\<^sup>* s s' \<and> sys_publisher s' = None \<and> \<not> ts_publishing (sys_store s') \<and>
       sys_history s' = sys_history s \<and> sys_sent s' = (if sys_sink s then update_events (sys_history s) else []) \<and>
       ts_current (sys_store s') = last_generation (sys_history s))"
proof -
  obtain s' where s': "publisher_step\<^sup>*\<^sup>* s s'" "sys_publisher s' = None" using publisher_finishes by blast
  obtain "done" where d: "publication_ok done s'"
    using reachable_publication_ok [OF reachable_publisher [OF s'(1) assms]] by blast
  have "sys_history s' = sys_history s" "sys_sink s' = sys_sink s" using publisher_steps_history [OF s'(1)] by simp_all
  moreover have "sys_sent s' = (if sys_sink s' then update_events (sys_history s') else [])"
    "ts_current (sys_store s') = last_generation (sys_history s')" "\<not> ts_publishing (sys_store s')"
    using d s'(2) by (auto simp: publication_ok_def events_for_sink_def)
  ultimately show ?thesis using reachable_publication_ok [OF assms] s' by auto
qed

section \<open>Gaps\<close>

text \<open>The first update accepted after each noted gap is a complete snapshot.\<close>

abbreviation accepted_ones :: "(ui_update \<times> applied_delta result) list \<Rightarrow> (ui_update \<times> applied_delta result) list" where
  "accepted_ones log \<equiv> filter (\<lambda>x. \<not> isl (snd x)) log"

definition gaps_healed :: "(ui_update \<times> applied_delta result) list \<Rightarrow> bool" where
  "gaps_healed log \<longleftrightarrow>
     (\<forall>before u e after. log = before @ (u, Inl e) # after \<and> gap_noted u e \<longrightarrow>
        (case accepted_ones after of [] \<Rightarrow> True | x # _ \<Rightarrow> complete_snapshot (fst x)))"

text \<open>While a noted gap has not been healed the store asks for a snapshot.\<close>

definition gap_open :: "(ui_update \<times> applied_delta result) list \<Rightarrow> bool" where
  "gap_open log \<longleftrightarrow> (\<exists>before u e after. log = before @ (u, Inl e) # after \<and> gap_noted u e \<and> accepted_ones after = [])"

lemma snoc_split:
  "xs @ [x] = before @ y # after \<longleftrightarrow>
     (after = [] \<and> xs = before \<and> x = y) \<or> (\<exists>rest. after = rest @ [x] \<and> xs = before @ y # rest)"
  by (cases after rule: rev_cases) auto

lemma gaps_snoc:
  assumes "gaps_healed log" and "gap_open log \<Longrightarrow> isl a \<or> complete_snapshot u"
  shows "gaps_healed (log @ [(u, a)])"
  unfolding gaps_healed_def
proof (intro allI impI, elim conjE)
  fix before v e after
  assume split: "log @ [(u, a)] = before @ (v, Inl e) # after" and noted: "gap_noted v e"
  show "case accepted_ones after of [] \<Rightarrow> True | x # _ \<Rightarrow> complete_snapshot (fst x)"
  proof (cases "after = []")
    case False
    then obtain rest where rest: "after = rest @ [(u, a)]" "log = before @ (v, Inl e) # rest"
      using split by (auto simp: snoc_split)
    show ?thesis
    proof (cases "accepted_ones rest")
      case Nil
      then have "gap_open log" using rest(2) noted unfolding gap_open_def by blast
      then show ?thesis using assms(2) Nil rest(1) by auto
    next
      case (Cons x xs)
      then show ?thesis using assms(1) rest noted unfolding gaps_healed_def by fastforce
    qed
  qed simp
qed

lemma gap_open_snoc:
  "gap_open (log @ [(u, a)]) \<longleftrightarrow> (case a of Inl e \<Rightarrow> gap_noted u e \<or> gap_open log | Inr _ \<Rightarrow> False)"
proof (cases a)
  case (Inl e)
  show ?thesis
  proof
    assume "gap_open (log @ [(u, a)])"
    then show "case a of Inl e \<Rightarrow> gap_noted u e \<or> gap_open log | Inr _ \<Rightarrow> False"
      unfolding gap_open_def snoc_split using Inl by auto
  next
    assume "case a of Inl e \<Rightarrow> gap_noted u e \<or> gap_open log | Inr _ \<Rightarrow> False"
    then consider "gap_noted u e" | before v f after where "log = before @ (v, Inl f) # after" "gap_noted v f" "accepted_ones after = []"
      using Inl unfolding gap_open_def by auto
    then show "gap_open (log @ [(u, a)])"
    proof cases
      case 1
      then show ?thesis unfolding gap_open_def using Inl by (intro exI [of _ log] exI [of _ u] exI [of _ e] exI [of _ "[]"]) simp
    next
      case 2
      then show ?thesis
        unfolding gap_open_def using Inl
        by (intro exI [of _ before] exI [of _ v] exI [of _ f] exI [of _ "after @ [(u, a)]"]) simp
    qed
  qed
qed (auto simp: gap_open_def snoc_split)

definition log_ok :: "tree_system \<Rightarrow> bool" where
  "log_ok s \<longleftrightarrow>
     gaps_healed (sys_log s) \<and> (gap_open (sys_log s) \<longrightarrow> ts_requires_resnapshot (sys_store s)) \<and>
     map snd (accepted_ones (sys_log s)) = map (\<lambda>p. Inr (pu_applied p)) (sys_history s)"

lemma log_okD: "log_ok s \<Longrightarrow> gaps_healed (sys_log s)"
  "log_ok s \<Longrightarrow> gap_open (sys_log s) \<Longrightarrow> ts_requires_resnapshot (sys_store s)"
  "log_ok s \<Longrightarrow> map snd (accepted_ones (sys_log s)) = map (\<lambda>p. Inr (pu_applied p)) (sys_history s)"
  by (simp_all add: log_ok_def)

lemma system_step_log:
  assumes "system_step s s'" and "log_ok s"
  shows "log_ok s'"
  using assms(1)
proof (cases rule: system_step.cases)
  case (accept u applied publish t)
  show ?thesis
  proof (cases "sys_store s" u rule: stage_cases)
    case (accepted p)
    then have "gaps_healed (sys_log s @ [(u, Inr applied)])"
      by (intro gaps_snoc log_okD(1) [OF assms(2)]) (use log_okD(2) [OF assms(2)] in blast)
    then show ?thesis
      using accept accepted log_okD(3) [OF assms(2)] by (auto simp: log_ok_def gap_open_snoc)
  qed (use accept in auto)
next
  case (reject u e publish t)
  have "gaps_healed (sys_log s @ [(u, Inl e)])"
    by (rule gaps_snoc [OF log_okD(1) [OF assms(2)]]) simp
  then show ?thesis
    by (cases "sys_store s" u rule: stage_cases)
       (use reject log_okD(2,3) [OF assms(2)] in \<open>auto simp: log_ok_def gap_open_snoc\<close>)
next
  case publish
  then show ?thesis using publisher_step_history [OF publish] assms(2) by (simp add: log_ok_def)
qed

lemma reachable_log_ok: "reachable s \<Longrightarrow> log_ok s"
proof (induction rule: reachable.induct)
  case (initial sink)
  then show ?case by (simp add: log_ok_def new_system_def gaps_healed_def gap_open_def)
qed (rule system_step_log)

text \<open>A gap concerns the store: its runtime has not been replaced, it belongs to the tree the store follows, if any, and it is not an old one.\<close>

definition gap_concerns :: "ui_update \<Rightarrow> tree_gap \<Rightarrow> tree_store \<Rightarrow> bool" where
  "gap_concerns u gap t \<longleftrightarrow>
     gp_runtime gap \<notin> ts_retired_runtimes t \<and>
     (case staged_generation t of
        None \<Rightarrow> True
      | Some g \<Rightarrow> gp_runtime gap = us_runtime (gn_snapshot g) \<and> gp_tree gap = us_tree (gn_snapshot g) \<and>
          gp_epoch gap = us_epoch (gn_snapshot g) \<and>
          (up_source_sequence u = 0 \<or> ts_last_source_sequence t < up_source_sequence u))"

lemma stage_gap:
  assumes "up_payload u = GapUpdate gap"
  shows "\<exists>e t'. stage u t = (Inl e, False, t') \<and>
    (if gap_concerns u gap t then err_code e = QueueGap \<and> ts_requires_resnapshot t' else err_code e \<noteq> QueueGap \<and> t' = t)"
proof (cases "staged_generation t")
  case None
  then show ?thesis
    using assms by (auto simp: stage_def Let_def gap_concerns_def note_gap_def update_metadata_def)
next
  case (Some g)
  then show ?thesis
    using assms by (auto simp: stage_def Let_def gap_concerns_def note_gap_def update_metadata_def)
qed

lemma resnapshot_required:
  assumes "ts_requires_resnapshot t" and "\<not> complete_snapshot u"
  shows "\<exists>e q. stage u t = (Inl e, False, t\<lparr>ts_last_source_sequence := q\<rparr>)"
proof (cases t u rule: stage_cases)
  case (rejected e)
  then show ?thesis by (intro exI [of _ e] exI [of _ "ts_last_source_sequence t"]) simp
next
  case (gap e q)
  moreover have "t\<lparr>ts_requires_resnapshot := True, ts_last_source_sequence := q\<rparr> = t\<lparr>ts_last_source_sequence := q\<rparr>"
    using assms(1) by simp
  ultimately show ?thesis by metis
qed (use assms in simp)


section \<open>Sample runs\<close>

definition deliver :: "ui_update \<Rightarrow> tree_system \<Rightarrow> tree_system" where
  "deliver u s =
     (case stage u (sys_store s) of
        (answer, publish, t) \<Rightarrow>
          s\<lparr>sys_store := t, sys_publisher := (if publish then Some [] else sys_publisher s),
            sys_history := sys_history s @ (if isl answer then [] else [last (ts_pending_updates t)]),
            sys_log := sys_log s @ [(u, answer)]\<rparr>)"

lemma deliver_reachable:
  assumes "reachable s"
  shows "reachable (deliver u s)"
proof -
  obtain answer publish t where st: "stage u (sys_store s) = (answer, publish, t)" by (metis prod.exhaust)
  have "system_step s (deliver u s)"
  proof (cases answer)
    case (Inl e)
    then have "\<not> publish" using st by (cases "sys_store s" u rule: stage_cases) auto
    then show ?thesis using system_step.reject [of u s e publish t] st Inl by (simp add: deliver_def)
  next
    case (Inr applied)
    then show ?thesis using system_step.accept [of u s applied publish t] st by (simp add: deliver_def)
  qed
  then show ?thesis using assms by (rule reachable.step [rotated])
qed

definition sample_snapshot :: "u64 \<Rightarrow> ui_snapshot" where
  "sample_snapshot revision = from_records (sample_metadata revision) [sample_node 1 5, sample_node 2 5] [1] [sample_contains 1 2]"

definition sample_update :: "u64 \<Rightarrow> ui_update" where
  "sample_update n = \<lparr>up_source_sequence = n, up_payload = SnapshotUpdate (sample_snapshot n)\<rparr>"

definition sample_system :: tree_system where
  "sample_system = deliver (sample_update 1) (new_system True)"

lemma sample_reachable: "reachable sample_system"
  unfolding sample_system_def by (intro deliver_reachable reachable.initial)

lemma publication_in_order_witness:
  "\<exists>s'. publisher_step\<^sup>*\<^sup>* sample_system s' \<and> sys_sent s' = update_events (sys_history sample_system) \<and>
     length (update_events (sys_history sample_system)) = 3"
proof -
  have "length (update_events (sys_history sample_system)) = 3" "sys_sink sample_system" by code_simp+
  then show ?thesis using publication_in_order [OF sample_reachable] by auto
qed

text \<open>A snapshot, a gap, a delta that comes too late, and the snapshot that heals the gap.\<close>

definition sample_gap :: ui_update where
  "sample_gap = \<lparr>up_source_sequence = 2, up_payload = GapUpdate \<lparr>gp_runtime = 1, gp_tree = 1, gp_epoch = 1, gp_last_source_sequence = 1, gp_dropped = 4\<rparr>\<rparr>"

definition sample_delta :: ui_update where
  "sample_delta = \<lparr>up_source_sequence = 3, up_payload = DeltaUpdate
     \<lparr>ud_runtime = 1, ud_tree = 1, ud_epoch = 1, ud_base_revision = 1, ud_revision = 2, ud_complete = True, ud_added_nodes = [],
      ud_changed_nodes = [sample_node 2 6], ud_removed_nodes = [], ud_relation_changes = []\<rparr>\<rparr>"

definition gap_system :: tree_system where
  "gap_system = deliver (sample_update 4) (deliver sample_delta (deliver sample_gap sample_system))"

lemma gap_system_reachable: "reachable gap_system"
  unfolding gap_system_def by (intro deliver_reachable sample_reachable)

definition answer_code :: "applied_delta result \<Rightarrow> error_code option" where
  "answer_code a = (case a of Inl e \<Rightarrow> Some (err_code e) | Inr _ \<Rightarrow> None)"

lemma answer_code:
  "answer_code a = None \<longleftrightarrow> (\<exists>applied. a = Inr applied)" "answer_code a = Some c \<longleftrightarrow> (\<exists>e. a = Inl e \<and> err_code e = c)"
  by (auto simp: answer_code_def split: sum.splits)


end
