(* ===== verification/Snapshot_Nav.thy ===== *)
theory Snapshot_Nav
  imports Query_Semantics Tree_Store
begin

text \<open>
  \<open>src/kernel/query/snapshot_tree_nav.cpp\<close>: the navigation of a snapshot, which is how the trees of the tree
  store are queried. The type \<open>tree_snapshot\<close> is that of the snapshots that validation produces; it interprets
  \<open>valid_navigation\<close>, so every fact of the evaluator holds for it. Shown: what the tree store publishes in any run is of
  this type, so no query of a published tree is refused for its navigation, and the walks of the
  evaluator are the containment order of the tree.
\<close>

section \<open>The navigation of a snapshot\<close>

definition snapshot_nav :: "ui_snapshot \<Rightarrow> tree_nav" where
  "snapshot_nav s =
     \<lparr>nv_metadata = \<lparr>tm_runtime = us_runtime s, tm_tree = us_tree s, tm_epoch = us_epoch s, tm_revision = us_revision s,
                     tm_provider = ''snapshot''\<rparr>,
      nv_nodes = map un_id (us_nodes s),
      nv_roots = us_roots s,
      nv_contains = (\<lambda>n. snapshot_node s n \<noteq> None),
      nv_role = (\<lambda>n. case snapshot_node s n of None \<Rightarrow> 0 | Some r \<Rightarrow> un_role r),
      nv_states = (\<lambda>n. case snapshot_node s n of None \<Rightarrow> 0 | Some r \<Rightarrow> un_states r),
      nv_property = (\<lambda>n p. case snapshot_node s n of None \<Rightarrow> default_read | Some r \<Rightarrow> node_property r p),
      nv_children = (\<lambda>n. related s n contains_relation),
      nv_parents = (\<lambda>n. related_reverse s n contains_relation),
      nv_related = related s,
      nv_related_reverse = related_reverse s,
      nv_generation = (\<lambda>n. case snapshot_node s n of None \<Rightarrow> 0 | Some r \<Rightarrow> un_generation r),
      nv_provenance = (\<lambda>n. case snapshot_node s n of None \<Rightarrow> \<lparr>pv_runtime = 0, pv_revision = 0\<rparr> | Some r \<Rightarrow> un_provenance r)\<rparr>"

section \<open>Snapshots that passed validation\<close>

definition is_normalized :: "ui_snapshot \<Rightarrow> bool" where
  "is_normalized s \<longleftrightarrow> (\<exists>md nodes roots relations. normalized_snapshot md nodes roots relations = Inr s)"

lemma normalizedE:
  assumes "is_normalized s"
  obtains md nodes roots relations where "valid_tree nodes roots relations" "us_nodes s = nodes" "us_relations s = relations"
    "set (us_roots s) = un_id ` set nodes - Range (containment relations)"
    "\<And>n r. related s n r = map ur_target (filter (\<lambda>x. ur_source x = n \<and> ur_relation x = r) relations)"
    "\<And>n r. related_reverse s n r = map ur_source (filter (\<lambda>x. ur_target x = n \<and> ur_relation x = r) relations)"
proof -
  from assms obtain md nodes roots relations where n: "normalized_snapshot md nodes roots relations = Inr s"
    by (auto simp: is_normalized_def)
  then obtain found where "s = from_records md nodes found relations"
    by (auto simp: normalized_snapshot_def split: sum.splits)
  then show thesis
    using that normalized_snapshot_ok [OF n]
    by (simp add: related_def related_reverse_def from_records_def fold_index_related)
qed

lemma find_node: "snapshot_node s n \<noteq> None \<longleftrightarrow> n \<in> un_id ` set (us_nodes s)"
  unfolding snapshot_node_def find_None_iff by auto

lemma normalized_navigation:
  assumes "is_normalized s"
  shows "valid_navigation (snapshot_nav s)" and "relations_known (snapshot_nav s) plan"
proof -
  from assms obtain nodes roots relations
    where s: "valid_tree nodes roots relations" "us_nodes s = nodes" "us_relations s = relations"
      "set (us_roots s) = un_id ` set nodes - Range (containment relations)"
      "\<And>n r. related s n r = map ur_target (filter (\<lambda>x. ur_source x = n \<and> ur_relation x = r) relations)"
      "\<And>n r. related_reverse s n r = map ur_source (filter (\<lambda>x. ur_target x = n \<and> ur_relation x = r) relations)"
    by (rule normalizedE) blast
  have ends: "ur_source x \<in> un_id ` set nodes" "ur_target x \<in> un_id ` set nodes" if "x \<in> set relations" for x
    using s(1) that by (auto simp: valid_tree_def relation_ok_def)
  show "valid_navigation (snapshot_nav s)"
    using s(1,2,4) ends find_node [of s]
    by unfold_locales (auto simp: snapshot_nav_def s(5,6) valid_tree_def)
  show "relations_known (snapshot_nav s) plan"
    using ends s(2) by (auto simp: relations_known_def snapshot_nav_def use_endpoints_def s(5,6) split: if_splits)
qed

lemma empty_normalized: "is_normalized (from_records md [] [] [])"
  unfolding is_normalized_def
  by (intro exI [of _ md] exI [of _ "[]"])
    (simp add: normalized_snapshot_def validate_and_find_roots_def initial_index_def root_nodes_def contains_walk.simps)

typedef tree_snapshot = "{s. is_normalized s}"
  using empty_normalized by blast

lemma snapshot_is_normalized: "is_normalized (Rep_tree_snapshot s)"
  using Rep_tree_snapshot [of s] by simp

interpretation sn: valid_navigation "snapshot_nav (Rep_tree_snapshot s)" for s
  by (rule normalized_navigation) (rule snapshot_is_normalized)

text \<open>The \<open>contains\<close> relations of a validated snapshot are a forest, so a walk is a path of at least one step.\<close>

lemma snapshot_steps:
  assumes "is_normalized s"
  shows "step_rel (nav_out_edges (snapshot_nav s) Forward) = containment (us_relations s)"
    and "step_rel (nav_out_edges (snapshot_nav s) Reverse) = (containment (us_relations s))\<inverse>"
    and "acyclic (containment (us_relations s))"
  using assms
  by (auto elim!: normalizedE simp: step_rel_def nav_out_edges_def snapshot_nav_def containment_def valid_tree_def image_iff)
    (blast+)?

lemma walk_of_acyclic: "acyclic r \<Longrightarrow> m \<noteq> n \<and> (n, m) \<in> r\<^sup>* \<longleftrightarrow> (n, m) \<in> r\<^sup>+"
  by (auto simp: acyclic_def rtrancl_eq_or_trancl)

lemma snapshot_walks:
  assumes "is_normalized s"
  shows "walks_to (snapshot_nav s) Forward n m \<longleftrightarrow> (n, m) \<in> (containment (us_relations s))\<^sup>+"
    and "walks_to (snapshot_nav s) Reverse n m \<longleftrightarrow> (m, n) \<in> (containment (us_relations s))\<^sup>+"
  using snapshot_steps [OF assms] walk_of_acyclic [of "containment (us_relations s)" m n]
    walk_of_acyclic [of "(containment (us_relations s))\<inverse>" m n]
  by (simp_all add: walks_to_def trancl_converse acyclic_converse)

section \<open>The trees the store publishes\<close>

lemma prepared_normalized:
  assumes "prepare_update staged u = Inr p"
  shows "is_normalized (gn_snapshot (pu_generation p))"
proof -
  from assms obtain n where "is_normalized n" "build_generation n = Inr (pu_generation p)"
    by (fastforce simp: prepare_update_def prepare_snapshot_def prepare_delta_def snapshot_from_delta_def is_normalized_def
        Let_def split: update_payload.splits if_splits sum.splits option.splits)
  then show ?thesis by (simp add: build_generation_snapshot)
qed

lemma history_normalized:
  "reachable s \<Longrightarrow> \<forall>p\<in>set (sys_history s). is_normalized (gn_snapshot (pu_generation p))"
proof (induction rule: reachable.induct)
  case initial
  then show ?case by (simp add: new_system_def)
next
  case (step s s')
  from step.hyps(2) step.IH show ?case
  proof (cases rule: system_step.cases)
    case (accept u applied publish t)
    show ?thesis
    proof (cases "sys_store s" u rule: stage_cases)
      case (accepted p)
      with accept step.IH prepared_normalized [OF accepted(1)] show ?thesis
        by (auto simp: enqueue_update_def Let_def)
    qed (use accept in auto)
  qed (auto simp: publisher_step_history)
qed

lemma published_normalized:
  assumes "reachable s" and "store_snapshot (sys_store s) = Some snap"
  shows "is_normalized snap"
proof -
  from reachable_publication_ok [OF assms(1)] obtain "done" where "publication_ok done s" by blast
  then have current: "ts_current (sys_store s) = last_generation done" "set done \<subseteq> set (sys_history s)"
    by (auto simp: publication_ok_def)
  with assms(2) have "done \<noteq> []" "snap = gn_snapshot (pu_generation (last done))"
    by (auto simp: store_snapshot_def last_generation_def split: if_splits)
  with current(2) history_normalized [OF assms(1)] show ?thesis
    by (meson last_in_set subsetD)
qed

text \<open>
  C16. Every tree the store publishes, in any run of it, can be queried: no locator is refused because of the navigation,
  evaluation returns at every node of the tree, and what the evaluator walks is the tree's containment order: a
  node matches \<open>descendant_of\<close> a predicate exactly when the predicate holds at a node that properly contains it, and
  \<open>ancestor_of\<close> likewise for the nodes it properly contains.\<close>

theorem published_trees_queryable:
  assumes "reachable s" and "store_snapshot (sys_store s) = Some snap" and "n \<in> un_id ` set (us_nodes snap)"
  shows "validate_navigation (snapshot_nav snap) plan = Inr () \<and>
    (\<exists>e. evaluate (snapshot_nav snap) plan n = Some e \<and> (ev_matched e \<longleftrightarrow> holds (snapshot_nav snap) plan n)) \<and>
    (holds (snapshot_nav snap) (lc_plan (sel_descendant_of l)) n \<longleftrightarrow>
       (\<exists>m. (m, n) \<in> (containment (us_relations snap))\<^sup>+ \<and> holds (snapshot_nav snap) (lc_plan l) m)) \<and>
    (holds (snapshot_nav snap) (lc_plan (sel_ancestor_of l)) n \<longleftrightarrow>
       (\<exists>m. (n, m) \<in> (containment (us_relations snap))\<^sup>+ \<and> holds (snapshot_nav snap) (lc_plan l) m))"
proof -
  have norm: "is_normalized snap"
    using published_normalized [OF assms(1,2)] .
  then obtain v where v: "snap = Rep_tree_snapshot v"
    by (metis Abs_tree_snapshot_inverse mem_Collect_eq)
  have "\<exists>e. evaluate (snapshot_nav snap) plan n = Some e \<and> (ev_matched e \<longleftrightarrow> holds (snapshot_nav snap) plan n)"
    using sn.decidesD [OF sn.evaluate_decides, of v plan n] normalized_navigation(2) [OF norm] assms(3)
    by (auto simp: v snapshot_nav_def [THEN arg_cong, of nv_nodes])
  with norm snapshot_walks [OF norm] normalized_navigation [OF norm] show ?thesis
    by (simp add: validate_navigation_ok sel_descendant_of_def sel_ancestor_of_def unary_locator_def make_locator_def
        operator_plan_def)
qed

definition published_system :: tree_system where
  "published_system = sample_system\<lparr>sys_store := snd (take_pending (sys_store sample_system)),
     sys_publisher := fst (take_pending (sys_store sample_system))\<rparr>"

lemma published_reachable: "reachable published_system"
proof -
  have "fst (take_pending (sys_store sample_system)) \<noteq> None"
    by code_simp
  then obtain events t where "take_pending (sys_store sample_system) = (Some events, t)"
    by (cases "take_pending (sys_store sample_system)") auto
  moreover have "sys_publisher sample_system = Some []" "sys_sink sample_system"
    by code_simp+
  ultimately have "publisher_step sample_system published_system"
    using publisher_step.take_update [of sample_system events] by (simp add: published_system_def)
  then show ?thesis
    using sample_reachable by (blast intro: reachable.step system_step.publish)
qed

theorem published_trees_queryable_witness:
  "\<exists>snap. store_snapshot (sys_store published_system) = Some snap \<and>
     holds (snapshot_nav snap) (lc_plan (sel_descendant_of (sel_state 0))) 2 \<and>
     (\<exists>m. (m, 2) \<in> (containment (us_relations snap))\<^sup>+)"
proof -
  have "map_option (\<lambda>snap. map un_id (us_nodes snap)) (store_snapshot (sys_store published_system)) = Some [1, 2]"
    by code_simp
  then obtain snap where snap: "store_snapshot (sys_store published_system) = Some snap" "2 \<in> un_id ` set (us_nodes snap)"
    by (auto simp: map_eq_Cons_conv)
  let ?plan = "lc_plan (sel_descendant_of (sel_state 0))"
  have "map_option (\<lambda>snap. map_option ev_matched (evaluate (snapshot_nav snap) ?plan 2))
      (store_snapshot (sys_store published_system)) = Some (Some True)"
    by code_simp
  with snap(1) have "map_option ev_matched (evaluate (snapshot_nav snap) ?plan 2) = Some True"
    by simp
  then show ?thesis
    using published_trees_queryable [OF published_reachable snap, of ?plan "sel_state 0"] snap(1) by auto
qed

end
