(* ===== verification/Target_Registry.thy ===== *)
theory Target_Registry
  imports Events "HOL-Library.Char_ord" "HOL-Library.List_Lexorder" "HOL-Library.Product_Lexorder"
begin

text \<open>
  \<open>src/kernel/graph/target_registry.cpp\<close>: the durable identities of applications and windows. Aliases that
  are exact and active fuse observations into one target; everything else is kept as evidence. Three maps
  index the targets, and the source answers with an internal fault where they disagree. Shown: they never disagree
  in any run of operations; an exact alias names one target until it is invalidated, and a new one after;
  surfaces have one owner, and the surface operations implement a map from surfaces to owner and record.
  Running out of memory (the only exception the containers throw) is not modelled.
\<close>

section \<open>Data\<close>

text \<open>An enumeration of the source may hold a value that names no enumerator; it is kept as its number.\<close>

datatype target_grade = ApplicationGrade | WindowGrade | OtherGrade u8

datatype alias_confidence = CandidateAlias | ExactAlias | OtherConfidence u8

datatype alias_validity = ActiveAlias | InactiveAlias | OtherValidity u8

type_synonym target_id = u64

record surface_record =
  srf_id :: u64
  srf_generation :: u32
  srf_space :: u32
  srf_bounds :: space_rect

record alias_edge =
  al_authority :: string
  al_native_id :: string
  al_confidence :: alias_confidence
  al_validity :: alias_validity

record target_observation =
  ob_grade :: target_grade
  ob_alias :: "alias_edge option"
  ob_title :: string
  ob_pid :: "u32 option"
  ob_bounds :: "space_rect option"

record target_record =
  tg_id :: target_id
  tg_grade :: target_grade
  tg_aliases :: "alias_edge list"
  tg_observations :: "target_observation list"
  tg_surfaces :: "surface_record list"

type_synonym alias_key = "string \<times> string"

record target_registry =
  tr_targets :: "(target_id, target_record) omap"
  tr_aliases :: "(alias_key, target_id) omap"
  tr_surface_owners :: "(u64, target_id) omap"
  tr_next_id :: u64

definition new_registry :: target_registry where
  "new_registry = \<lparr>tr_targets = [], tr_aliases = [], tr_surface_owners = [], tr_next_id = 1\<rparr>"

section \<open>Validation\<close>

fun valid_grade :: "target_grade \<Rightarrow> bool" where
  "valid_grade ApplicationGrade = True"
| "valid_grade WindowGrade = True"
| "valid_grade (OtherGrade n) = False"

fun valid_confidence :: "alias_confidence \<Rightarrow> bool" where
  "valid_confidence CandidateAlias = True"
| "valid_confidence ExactAlias = True"
| "valid_confidence (OtherConfidence n) = False"

fun valid_validity :: "alias_validity \<Rightarrow> bool" where
  "valid_validity ActiveAlias = True"
| "valid_validity InactiveAlias = True"
| "valid_validity (OtherValidity n) = False"

definition validate_alias :: "alias_edge \<Rightarrow> unit result" where
  "validate_alias a =
     (if al_authority a = [] then Inl (fail InvalidArgument ''target alias authority must not be empty'')
      else if al_native_id a = [] then Inl (fail InvalidArgument ''target alias native id must not be empty'')
      else if \<not> valid_confidence (al_confidence a) then Inl (fail InvalidArgument ''target alias has an invalid confidence'')
      else if \<not> valid_validity (al_validity a) then Inl (fail InvalidArgument ''target alias has an invalid validity'')
      else Inr ())"

definition validate :: "target_observation \<Rightarrow> unit result" where
  "validate ob =
     (if \<not> valid_grade (ob_grade ob) then Inl (fail InvalidArgument ''target observation has an invalid grade'')
      else case ob_alias ob of None \<Rightarrow> Inr () | Some a \<Rightarrow> validate_alias a)"

definition is_fusing :: "alias_edge \<Rightarrow> bool" where
  "is_fusing a \<longleftrightarrow> al_confidence a = ExactAlias \<and> al_validity a = ActiveAlias"

definition key_of :: "alias_edge \<Rightarrow> alias_key" where
  "key_of a = (al_authority a, al_native_id a)"

section \<open>Operations\<close>

text \<open>\<open>std::map::emplace\<close>: whether the key was absent, and the map.\<close>

definition emplace :: "'k::linorder \<Rightarrow> 'v \<Rightarrow> ('k, 'v) omap \<Rightarrow> bool \<times> ('k, 'v) omap" where
  "emplace k v m = (case omap_find m k of None \<Rightarrow> (True, omap_put k v m) | Some _ \<Rightarrow> (False, m))"

definition put_target :: "target_id \<Rightarrow> target_record \<Rightarrow> target_registry \<Rightarrow> target_registry" where
  "put_target tid rec r = r\<lparr>tr_targets := omap_put tid rec (tr_targets r)\<rparr>"

definition fused_alias :: "target_observation \<Rightarrow> target_registry \<Rightarrow> (alias_edge \<times> target_id) option" where
  "fused_alias ob r =
     (case ob_alias ob of
        None \<Rightarrow> None
      | Some a \<Rightarrow>
          if is_fusing a then (case omap_find (tr_aliases r) (key_of a) of None \<Rightarrow> None | Some tid \<Rightarrow> Some (a, tid)) else None)"

definition observe_fused ::
  "alias_edge \<Rightarrow> target_id \<Rightarrow> target_observation \<Rightarrow> target_registry \<Rightarrow> target_id result \<times> target_registry" where
  "observe_fused a tid ob r =
     (case omap_find (tr_targets r) tid of
        None \<Rightarrow> (Inl (fail InternalFault ''target alias index is inconsistent''), r)
      | Some rec \<Rightarrow>
          if tg_grade rec \<noteq> ob_grade ob
          then (Inl (fail InvalidArgument ''exact target alias was observed at a different grade''), r)
          else (Inr tid,
                put_target tid
                  (rec\<lparr>tg_aliases := if a \<notin> set (tg_aliases rec) then tg_aliases rec @ [a] else tg_aliases rec,
                       tg_observations := tg_observations rec @ [ob]\<rparr>) r))"

definition observe_new :: "target_observation \<Rightarrow> target_registry \<Rightarrow> target_id result \<times> target_registry" where
  "observe_new ob r =
     (if tr_next_id r = - 1 then (Inl (fail Overflowed ''target registry exhausted its identity space''), r)
      else let tid = tr_next_id r;
               rec = \<lparr>tg_id = tid, tg_grade = ob_grade ob,
                      tg_aliases = (case ob_alias ob of None \<Rightarrow> [] | Some a \<Rightarrow> [a]),
                      tg_observations = [ob], tg_surfaces = []\<rparr>
           in case emplace tid rec (tr_targets r) of
                (did_insert, targets) \<Rightarrow>
                  if \<not> did_insert then (Inl (fail InternalFault ''target registry generated a duplicate identity''), r)
                  else let r' = r\<lparr>tr_targets := targets\<rparr>
                       in case ob_alias ob of
                            None \<Rightarrow> (Inr tid, r'\<lparr>tr_next_id := tr_next_id r + 1\<rparr>)
                          | Some a \<Rightarrow>
                              if \<not> is_fusing a then (Inr tid, r'\<lparr>tr_next_id := tr_next_id r + 1\<rparr>)
                              else case emplace (key_of a) tid (tr_aliases r) of
                                (alias_inserted, aliases) \<Rightarrow>
                                  if \<not> alias_inserted
                                  then (Inl (fail InternalFault ''target alias index generated a duplicate key''), r)
                                  else (Inr tid, r'\<lparr>tr_aliases := aliases, tr_next_id := tr_next_id r + 1\<rparr>))"

definition observe :: "target_observation \<Rightarrow> target_registry \<Rightarrow> target_id result \<times> target_registry" where
  "observe ob r =
     (case validate ob of
        Inl e \<Rightarrow> (Inl e, r)
      | Inr _ \<Rightarrow> (case fused_alias ob r of Some (a, tid) \<Rightarrow> observe_fused a tid ob r | None \<Rightarrow> observe_new ob r))"

definition attach_alias :: "target_id \<Rightarrow> alias_edge \<Rightarrow> target_registry \<Rightarrow> unit result \<times> target_registry" where
  "attach_alias tid a r =
     (case validate_alias a of
        Inl e \<Rightarrow> (Inl e, r)
      | Inr _ \<Rightarrow>
          (case omap_find (tr_targets r) tid of
             None \<Rightarrow> (Inl (fail TargetDetached ''target is not present in the registry''), r)
           | Some rec \<Rightarrow>
               if is_fusing a \<and> omap_find (tr_aliases r) (key_of a) \<notin> {None, Some tid}
               then (Inl (fail InvalidArgument ''exact alias already identifies another target''), r)
               else if a \<in> set (tg_aliases rec) then (Inr (), r)
               else let r' = put_target tid (rec\<lparr>tg_aliases := tg_aliases rec @ [a]\<rparr>) r
                    in (Inr (), if is_fusing a then r'\<lparr>tr_aliases := snd (emplace (key_of a) tid (tr_aliases r))\<rparr> else r')))"

definition deactivate :: "string \<Rightarrow> string \<Rightarrow> alias_edge \<Rightarrow> alias_edge" where
  "deactivate authority native_id a =
     (if al_authority a = authority \<and> al_native_id a = native_id \<and> al_validity a = ActiveAlias
      then a\<lparr>al_validity := InactiveAlias\<rparr> else a)"

definition invalidate_alias :: "string \<Rightarrow> string \<Rightarrow> target_registry \<Rightarrow> unit result \<times> target_registry" where
  "invalidate_alias authority native_id r =
     (if authority = [] \<or> native_id = [] then (Inl (fail InvalidArgument ''target alias key must not be empty''), r)
      else case omap_find (tr_aliases r) (authority, native_id) of
             None \<Rightarrow> (Inl (fail TargetDetached ''target alias is not active''), r)
           | Some tid \<Rightarrow>
               (case omap_find (tr_targets r) tid of
                  None \<Rightarrow> (Inl (fail InternalFault ''target alias index is inconsistent''), r)
                | Some rec \<Rightarrow>
                    (Inr (), (put_target tid (rec\<lparr>tg_aliases := map (deactivate authority native_id) (tg_aliases rec)\<rparr>) r)
                               \<lparr>tr_aliases := omap_erase (authority, native_id) (tr_aliases r)\<rparr>)))"

text \<open>\<open>find_if\<close> on the surfaces of a target, by position; the position of the end is None.\<close>

fun surface_position :: "u64 \<Rightarrow> surface_record list \<Rightarrow> nat option" where
  "surface_position s [] = None"
| "surface_position s (x # xs) = (if srf_id x = s then Some 0 else map_option Suc (surface_position s xs))"

definition register_surface :: "target_id \<Rightarrow> surface_record \<Rightarrow> target_registry \<Rightarrow> unit result \<times> target_registry" where
  "register_surface tid surface r =
     (if srf_id surface = 0 then (Inl (fail InvalidArgument ''surface id must not be zero''), r)
      else case omap_find (tr_targets r) tid of
             None \<Rightarrow> (Inl (fail TargetDetached ''target is not present in the registry''), r)
           | Some rec \<Rightarrow>
               let owner = omap_find (tr_surface_owners r) (srf_id surface);
                   existing = surface_position (srf_id surface) (tg_surfaces rec)
               in if owner \<notin> {None, Some tid} then (Inl (fail InvalidArgument ''surface already belongs to another target''), r)
                  else if owner \<noteq> None
                  then (case existing of
                          None \<Rightarrow> (Inl (fail InternalFault ''surface ownership index is inconsistent''), r)
                        | Some i \<Rightarrow> (Inr (), put_target tid (rec\<lparr>tg_surfaces := (tg_surfaces rec)[i := surface]\<rparr>) r))
                  else if existing \<noteq> None
                  then (Inl (fail InternalFault ''target surface record is missing its ownership index''), r)
                  else case emplace (srf_id surface) tid (tr_surface_owners r) of
                    (inserted, owners) \<Rightarrow>
                      if \<not> inserted then (Inl (fail InternalFault ''surface ownership index generated a duplicate id''), r)
                      else (Inr (), (put_target tid (rec\<lparr>tg_surfaces := tg_surfaces rec @ [surface]\<rparr>) r)
                                      \<lparr>tr_surface_owners := owners\<rparr>))"

definition remove_surface :: "target_id \<Rightarrow> u64 \<Rightarrow> target_registry \<Rightarrow> unit result \<times> target_registry" where
  "remove_surface tid s r =
     (if s = 0 then (Inl (fail InvalidArgument ''surface id must not be zero''), r)
      else case omap_find (tr_targets r) tid of
             None \<Rightarrow> (Inl (fail TargetDetached ''target is not present in the registry''), r)
           | Some rec \<Rightarrow>
               (case omap_find (tr_surface_owners r) s of
                  None \<Rightarrow> (Inl (fail TargetDetached ''surface is not present in the registry''), r)
                | Some owner \<Rightarrow>
                    if owner \<noteq> tid then (Inl (fail InvalidArgument ''surface belongs to another target''), r)
                    else case surface_position s (tg_surfaces rec) of
                      None \<Rightarrow> (Inl (fail InternalFault ''surface ownership index is inconsistent''), r)
                    | Some i \<Rightarrow>
                        (Inr (), (put_target tid (rec\<lparr>tg_surfaces := take i (tg_surfaces rec) @ drop (Suc i) (tg_surfaces rec)\<rparr>) r)
                                   \<lparr>tr_surface_owners := omap_erase s (tr_surface_owners r)\<rparr>)))"

definition lookup_target :: "target_id \<Rightarrow> target_registry \<Rightarrow> target_record result" where
  "lookup_target tid r =
     (case omap_find (tr_targets r) tid of
        None \<Rightarrow> Inl (fail TargetDetached ''target is not present in the registry'')
      | Some rec \<Rightarrow> Inr rec)"

definition all_targets :: "target_registry \<Rightarrow> target_record list" where
  "all_targets r = map snd (tr_targets r)"

definition registry_size :: "target_registry \<Rightarrow> nat" where
  "registry_size r = length (tr_targets r)"

section \<open>The three maps agree\<close>

definition fusing_key :: "target_record \<Rightarrow> alias_key \<Rightarrow> bool" where
  "fusing_key rec key \<longleftrightarrow> (\<exists>a \<in> set (tg_aliases rec). is_fusing a \<and> key_of a = key)"

definition surface_ids :: "target_record \<Rightarrow> u64 list" where
  "surface_ids rec = map srf_id (tg_surfaces rec)"

definition ids_ok :: "target_registry \<Rightarrow> bool" where
  "ids_ok r \<longleftrightarrow>
     omap_ok (tr_targets r) \<and> tr_next_id r \<noteq> 0 \<and>
     (\<forall>tid rec. omap_find (tr_targets r) tid = Some rec \<longrightarrow> tg_id rec = tid \<and> 0 < tid \<and> tid < tr_next_id r)"

definition aliases_ok :: "target_registry \<Rightarrow> bool" where
  "aliases_ok r \<longleftrightarrow>
     omap_ok (tr_aliases r) \<and>
     (\<forall>tid rec key. omap_find (tr_targets r) tid = Some rec \<longrightarrow>
        (fusing_key rec key \<longleftrightarrow> omap_find (tr_aliases r) key = Some tid)) \<and>
     (\<forall>key tid. omap_find (tr_aliases r) key = Some tid \<longrightarrow> omap_find (tr_targets r) tid \<noteq> None)"

definition surfaces_ok :: "target_registry \<Rightarrow> bool" where
  "surfaces_ok r \<longleftrightarrow>
     omap_ok (tr_surface_owners r) \<and>
     (\<forall>tid rec. omap_find (tr_targets r) tid = Some rec \<longrightarrow> distinct (surface_ids rec) \<and>
        (\<forall>s. s \<in> set (surface_ids rec) \<longleftrightarrow> omap_find (tr_surface_owners r) s = Some tid)) \<and>
     (\<forall>s tid. omap_find (tr_surface_owners r) s = Some tid \<longrightarrow> omap_find (tr_targets r) tid \<noteq> None)"

definition registry_ok :: "target_registry \<Rightarrow> bool" where
  "registry_ok r \<longleftrightarrow> ids_ok r \<and> aliases_ok r \<and> surfaces_ok r"

definition internal_fault :: "'a result \<Rightarrow> bool" where
  "internal_fault x \<longleftrightarrow> (case x of Inl e \<Rightarrow> err_code e = InternalFault | Inr _ \<Rightarrow> False)"

lemma internal_fault_simps [simp]:
  "internal_fault (Inl (fail c m)) \<longleftrightarrow> c = InternalFault" "\<not> internal_fault (Inr x)"
  by (simp_all add: internal_fault_def fail_def)

lemma put_target_fields [simp]:
  "tr_aliases (put_target tid rec r) = tr_aliases r" "tr_surface_owners (put_target tid rec r) = tr_surface_owners r"
  "tr_next_id (put_target tid rec r) = tr_next_id r" "tr_targets (put_target tid rec r) = omap_put tid rec (tr_targets r)"
  by (simp_all add: put_target_def)

lemma put_target_same_aliases [simp]: "(put_target tid rec r)\<lparr>tr_aliases := tr_aliases r\<rparr> = put_target tid rec r"
  by (simp add: put_target_def)

lemma ids_ok_put_target:
  "ids_ok r \<Longrightarrow> omap_find (tr_targets r) tid = Some rec \<Longrightarrow> tg_id rec' = tg_id rec \<Longrightarrow> ids_ok (put_target tid rec' r)"
  by (auto simp: ids_ok_def omap_find_put)

lemma aliases_ok_put_target:
  "aliases_ok r \<Longrightarrow> omap_find (tr_targets r) tid = Some rec \<Longrightarrow> (\<And>key. fusing_key rec' key = fusing_key rec key) \<Longrightarrow>
   aliases_ok (put_target tid rec' r)"
  by (auto simp: aliases_ok_def omap_find_put)

lemma surfaces_ok_put_target:
  "surfaces_ok r \<Longrightarrow> omap_find (tr_targets r) tid = Some rec \<Longrightarrow> distinct (surface_ids rec') \<Longrightarrow>
   set (surface_ids rec') = set (surface_ids rec) \<Longrightarrow> surfaces_ok (put_target tid rec' r)"
  by (auto simp: surfaces_ok_def omap_find_put)

lemma aliases_ok_add_key:
  assumes "aliases_ok r" and "omap_find (tr_targets r) tid = Some rec"
    and "omap_find (tr_aliases r) k = None" and "\<And>key. fusing_key rec' key \<longleftrightarrow> fusing_key rec key \<or> key = k"
  shows "aliases_ok ((put_target tid rec' r)\<lparr>tr_aliases := omap_put k tid (tr_aliases r)\<rparr>)"
  using assms by (auto simp: aliases_ok_def omap_find_put)

lemma aliases_ok_erase_key:
  assumes "aliases_ok r" and "omap_find (tr_targets r) tid = Some rec"
    and "omap_find (tr_aliases r) k = Some tid" and "\<And>key. fusing_key rec' key \<longleftrightarrow> fusing_key rec key \<and> key \<noteq> k"
  shows "aliases_ok ((put_target tid rec' r)\<lparr>tr_aliases := omap_erase k (tr_aliases r)\<rparr>)"
  using assms by (auto simp: aliases_ok_def omap_find_put omap_find_erase)

lemma ok_field_updates [simp]:
  "ids_ok (r\<lparr>tr_aliases := m\<rparr>) = ids_ok r" "ids_ok (r\<lparr>tr_surface_owners := m'\<rparr>) = ids_ok r"
  "aliases_ok (r\<lparr>tr_surface_owners := m'\<rparr>) = aliases_ok r" "aliases_ok (r\<lparr>tr_next_id := n\<rparr>) = aliases_ok r"
  "surfaces_ok (r\<lparr>tr_aliases := m\<rparr>) = surfaces_ok r" "surfaces_ok (r\<lparr>tr_next_id := n\<rparr>) = surfaces_ok r"
  by (simp_all add: ids_ok_def aliases_ok_def surfaces_ok_def)

lemma surfaces_ok_add:
  assumes "surfaces_ok r" and "omap_find (tr_targets r) tid = Some rec"
    and "omap_find (tr_surface_owners r) s = None" and "distinct (surface_ids rec')"
    and "set (surface_ids rec') = insert s (set (surface_ids rec))"
  shows "surfaces_ok ((put_target tid rec' r)\<lparr>tr_surface_owners := omap_put s tid (tr_surface_owners r)\<rparr>)"
  using assms by (auto simp: surfaces_ok_def omap_find_put)

lemma surfaces_ok_erase:
  assumes "surfaces_ok r" and "omap_find (tr_targets r) tid = Some rec"
    and "omap_find (tr_surface_owners r) s = Some tid" and "distinct (surface_ids rec')"
    and "set (surface_ids rec') = set (surface_ids rec) - {s}"
  shows "surfaces_ok ((put_target tid rec' r)\<lparr>tr_surface_owners := omap_erase s (tr_surface_owners r)\<rparr>)"
  using assms by (auto simp: surfaces_ok_def omap_find_put omap_find_erase)

lemma surface_position_None: "surface_position s xs = None \<longleftrightarrow> s \<notin> srf_id ` set xs"
  by (induction xs) auto

lemma surface_position_Some: "surface_position s xs = Some i \<Longrightarrow> i < length xs \<and> srf_id (xs ! i) = s"
  by (induction xs arbitrary: i) (auto split: if_splits)

lemma fusing_key_ids [simp]:
  "fusing_key (rec\<lparr>tg_surfaces := ss\<rparr>) = fusing_key rec" "fusing_key (rec\<lparr>tg_observations := os\<rparr>) = fusing_key rec"
  "surface_ids (rec\<lparr>tg_aliases := as\<rparr>) = surface_ids rec" "surface_ids (rec\<lparr>tg_observations := os\<rparr>) = surface_ids rec"
  by (auto simp: fusing_key_def surface_ids_def fun_eq_iff)

lemma fusing_key_snoc:
  "fusing_key (rec\<lparr>tg_aliases := tg_aliases rec @ [a]\<rparr>) key \<longleftrightarrow> fusing_key rec key \<or> is_fusing a \<and> key = key_of a"
  by (auto simp: fusing_key_def)

lemma fusing_key_deactivate:
  "fusing_key (rec\<lparr>tg_aliases := map (deactivate authority native_id) (tg_aliases rec)\<rparr>) key \<longleftrightarrow>
   fusing_key rec key \<and> key \<noteq> (authority, native_id)"
  by (auto simp: fusing_key_def deactivate_def is_fusing_def key_of_def)

lemma validate_alias_no_fault: "validate_alias a = Inl e \<Longrightarrow> err_code e \<noteq> InternalFault"
  by (auto simp: validate_alias_def fail_def split: if_splits)

lemma validate_no_fault: "validate ob = Inl e \<Longrightarrow> err_code e \<noteq> InternalFault"
  by (auto simp: validate_def fail_def split: if_splits option.splits dest: validate_alias_no_fault)

definition sound :: "'a result \<times> target_registry \<Rightarrow> bool" where
  "sound x \<longleftrightarrow> registry_ok (snd x) \<and> \<not> internal_fault (fst x)"

lemma sound_refuse: "registry_ok r \<Longrightarrow> err_code e \<noteq> InternalFault \<Longrightarrow> sound (Inl e, r)"
  by (simp add: sound_def internal_fault_def)

lemma next_id_fresh: "ids_ok r \<Longrightarrow> omap_find (tr_targets r) (tr_next_id r) = None"
  unfolding ids_ok_def by (metis less_irrefl not_None_eq)

lemma next_id_step: "(n :: u64) \<noteq> - 1 \<Longrightarrow> t < n + 1 \<longleftrightarrow> t \<le> n"
proof -
  assume "n \<noteq> - 1"
  then have "1 + n \<noteq> 0" by (metis add.commute add_eq_0_iff2)
  then have "unat (1 + n) = Suc (unat n)" by (rule unatSuc)
  then show ?thesis by (simp add: word_less_nat_alt word_le_nat_alt less_Suc_eq_le add.commute)
qed

lemma alias_target: "aliases_ok r \<Longrightarrow> omap_find (tr_aliases r) key = Some tid \<Longrightarrow> \<exists>rec. omap_find (tr_targets r) tid = Some rec"
  unfolding aliases_ok_def by blast

lemma alias_fusing:
  "aliases_ok r \<Longrightarrow> omap_find (tr_targets r) tid = Some rec \<Longrightarrow> fusing_key rec key \<longleftrightarrow> omap_find (tr_aliases r) key = Some tid"
  unfolding aliases_ok_def by blast

lemma observe_new_sound:
  assumes ok: "registry_ok r" and free: "fused_alias ob r = None"
  shows "sound (observe_new ob r)"
proof (cases "tr_next_id r = - 1")
  case False
  let ?id = "tr_next_id r"
  have parts: "ids_ok r" "aliases_ok r" "surfaces_ok r" using ok by (simp_all add: registry_ok_def)
  have fresh: "omap_find (tr_targets r) ?id = None" using parts(1) by (rule next_id_fresh)
  have not_owner: "omap_find (tr_aliases r) key \<noteq> Some ?id" "omap_find (tr_surface_owners r) s \<noteq> Some ?id" for key s
    using parts fresh unfolding aliases_ok_def surfaces_ok_def by blast+
  have nz: "?id + 1 \<noteq> 0" using False by (metis add_eq_0_iff2 add.commute)
  let ?rec = "\<lparr>tg_id = ?id, tg_grade = ob_grade ob, tg_aliases = (case ob_alias ob of None \<Rightarrow> [] | Some a \<Rightarrow> [a]),
               tg_observations = [ob], tg_surfaces = []\<rparr>"
  let ?t = "omap_put ?id ?rec (tr_targets r)"
  have ids: "ids_ok (r\<lparr>tr_targets := ?t, tr_next_id := ?id + 1\<rparr>)"
    using parts(1) nz False by (auto simp: ids_ok_def omap_find_put next_id_step word_neq_0_conv less_imp_le)
  have ids': "ids_ok (r\<lparr>tr_targets := ?t, tr_aliases := m, tr_next_id := ?id + 1\<rparr>)" for m
    using ids by (simp add: ids_ok_def)
  have surf: "surfaces_ok (r\<lparr>tr_targets := ?t\<rparr>)"
    using parts(3) fresh not_owner(2) by (auto simp: surfaces_ok_def omap_find_put surface_ids_def)
  have plain: "aliases_ok (r\<lparr>tr_targets := ?t\<rparr>)" if "\<And>a. ob_alias ob = Some a \<Longrightarrow> \<not> is_fusing a"
    using parts(2) fresh not_owner(1) that
    by (auto simp: aliases_ok_def omap_find_put fusing_key_def split: option.splits)
  have fused: "aliases_ok (r\<lparr>tr_targets := ?t, tr_aliases := omap_put (key_of a) ?id (tr_aliases r)\<rparr>)"
    "omap_find (tr_aliases r) (key_of a) = None" if "ob_alias ob = Some a" "is_fusing a" for a
  proof -
    show none: "omap_find (tr_aliases r) (key_of a) = None"
      using free that by (auto simp: fused_alias_def split: option.splits)
    show "aliases_ok (r\<lparr>tr_targets := ?t, tr_aliases := omap_put (key_of a) ?id (tr_aliases r)\<rparr>)"
      using parts(2) fresh not_owner(1) none that by (auto simp: aliases_ok_def omap_find_put fusing_key_def)
  qed
  show ?thesis
    using False fresh ids ids' surf plain fused
    by (auto simp: sound_def registry_ok_def observe_new_def emplace_def Let_def split: option.split)
qed (simp add: observe_new_def sound_refuse fail_def ok)

lemma observe_fused_sound:
  assumes ok: "registry_ok r" and hit: "fused_alias ob r = Some (a, tid)"
  shows "sound (observe_fused a tid ob r)"
proof -
  have a: "is_fusing a" "omap_find (tr_aliases r) (key_of a) = Some tid"
    using hit by (auto simp: fused_alias_def split: option.splits if_splits)
  have parts: "ids_ok r" "aliases_ok r" "surfaces_ok r" using ok by (simp_all add: registry_ok_def)
  obtain rec where rec: "omap_find (tr_targets r) tid = Some rec" using alias_target [OF parts(2) a(2)] by auto
  have key: "fusing_key rec (key_of a)" using alias_fusing [OF parts(2) rec] a(2) by simp
  have dist: "distinct (surface_ids rec)" using parts(3) rec by (auto simp: surfaces_ok_def)
  let ?rec = "rec\<lparr>tg_aliases := if a \<notin> set (tg_aliases rec) then tg_aliases rec @ [a] else tg_aliases rec,
                   tg_observations := tg_observations rec @ [ob]\<rparr>"
  have "fusing_key ?rec k = fusing_key rec k" for k using key by (auto simp: fusing_key_def)
  then have "registry_ok (put_target tid ?rec r)"
    using parts rec dist unfolding registry_ok_def
    by (auto intro!: ids_ok_put_target [OF _ rec] aliases_ok_put_target [OF _ rec] surfaces_ok_put_target [OF _ rec]
             simp: surface_ids_def)
  then show ?thesis using rec ok by (simp add: observe_fused_def sound_def)
qed

lemma observe_sound: "registry_ok r \<Longrightarrow> sound (observe ob r)"
  by (auto simp: observe_def observe_new_sound observe_fused_sound sound_refuse dest: validate_no_fault
           split: sum.split option.split)

lemma attach_alias_sound:
  assumes ok: "registry_ok r"
  shows "sound (attach_alias tid a r)"
proof (cases "validate_alias a")
  case (Inr u)
  show ?thesis
  proof (cases "omap_find (tr_targets r) tid")
    case (Some rec)
    have parts: "ids_ok r" "aliases_ok r" "surfaces_ok r" using ok by (simp_all add: registry_ok_def)
    have dist: "distinct (surface_ids rec)" using parts(3) Some by (auto simp: surfaces_ok_def)
    let ?rec = "rec\<lparr>tg_aliases := tg_aliases rec @ [a]\<rparr>"
    have kept: "ids_ok (put_target tid ?rec r)" "surfaces_ok (put_target tid ?rec r)"
      using parts dist by (auto intro: ids_ok_put_target [OF _ Some] surfaces_ok_put_target [OF _ Some])
    have same: "aliases_ok (put_target tid ?rec r)" if "is_fusing a \<longrightarrow> omap_find (tr_aliases r) (key_of a) = Some tid"
    proof (rule aliases_ok_put_target [OF parts(2) Some])
      fix key
      have "fusing_key rec (key_of a)" if "is_fusing a"
        using alias_fusing [OF parts(2) Some] \<open>is_fusing a \<longrightarrow> _\<close> that by simp
      then show "fusing_key ?rec key = fusing_key rec key" unfolding fusing_key_snoc by blast
    qed
    have added: "aliases_ok ((put_target tid ?rec r)\<lparr>tr_aliases := omap_put (key_of a) tid (tr_aliases r)\<rparr>)"
      if "is_fusing a" "omap_find (tr_aliases r) (key_of a) = None"
      using that by (intro aliases_ok_add_key [OF parts(2) Some]) (auto simp: fusing_key_snoc)
    show ?thesis
      using ok Inr Some kept same added
      by (auto simp: attach_alias_def Let_def sound_def registry_ok_def emplace_def split: option.split)
  qed (use Inr ok in \<open>simp add: attach_alias_def sound_def\<close>)
qed (use ok in \<open>auto simp: attach_alias_def sound_refuse dest: validate_alias_no_fault\<close>)

lemma invalidate_alias_sound:
  assumes ok: "registry_ok r"
  shows "sound (invalidate_alias authority native_id r)"
proof (cases "authority \<noteq> [] \<and> native_id \<noteq> [] \<and> omap_find (tr_aliases r) (authority, native_id) \<noteq> None")
  case True
  then obtain tid where tid: "omap_find (tr_aliases r) (authority, native_id) = Some tid" by auto
  have parts: "ids_ok r" "aliases_ok r" "surfaces_ok r" using ok by (simp_all add: registry_ok_def)
  obtain rec where rec: "omap_find (tr_targets r) tid = Some rec" using alias_target [OF parts(2) tid] by auto
  have dist: "distinct (surface_ids rec)" using parts(3) rec by (auto simp: surfaces_ok_def)
  let ?rec = "rec\<lparr>tg_aliases := map (deactivate authority native_id) (tg_aliases rec)\<rparr>"
  have "registry_ok ((put_target tid ?rec r)\<lparr>tr_aliases := omap_erase (authority, native_id) (tr_aliases r)\<rparr>)"
    using parts tid dist unfolding registry_ok_def
    by (auto intro!: ids_ok_put_target [OF _ rec] aliases_ok_erase_key [OF _ rec] surfaces_ok_put_target [OF _ rec]
             simp: fusing_key_deactivate)
  then show ?thesis using True tid rec by (simp add: invalidate_alias_def sound_def)
qed (use ok in \<open>auto simp: invalidate_alias_def sound_def\<close>)

lemma register_surface_sound:
  assumes ok: "registry_ok r"
  shows "sound (register_surface tid surface r)"
proof (cases "omap_find (tr_targets r) tid")
  case (Some rec)
  let ?s = "srf_id surface"
  have parts: "ids_ok r" "aliases_ok r" "surfaces_ok r" using ok by (simp_all add: registry_ok_def)
  have dist: "distinct (surface_ids rec)" and mem: "?s \<in> set (surface_ids rec) \<longleftrightarrow> omap_find (tr_surface_owners r) ?s = Some tid"
    using parts(3) Some by (auto simp: surfaces_ok_def)
  have replaced: "registry_ok (put_target tid (rec\<lparr>tg_surfaces := (tg_surfaces rec)[i := surface]\<rparr>) r)"
    if "surface_position ?s (tg_surfaces rec) = Some i" for i
  proof -
    have "map srf_id ((tg_surfaces rec)[i := surface]) = map srf_id (tg_surfaces rec)"
      using surface_position_Some [OF that] by (metis list_update_id map_update nth_map)
    then show ?thesis
      using parts dist unfolding registry_ok_def
      by (auto intro!: ids_ok_put_target [OF _ Some] aliases_ok_put_target [OF _ Some] surfaces_ok_put_target [OF _ Some]
               simp: surface_ids_def)
  qed
  have added: "registry_ok ((put_target tid (rec\<lparr>tg_surfaces := tg_surfaces rec @ [surface]\<rparr>) r)
                              \<lparr>tr_surface_owners := omap_put ?s tid (tr_surface_owners r)\<rparr>)"
    if "omap_find (tr_surface_owners r) ?s = None"
    using parts dist mem that unfolding registry_ok_def
    by (auto intro!: ids_ok_put_target [OF _ Some] aliases_ok_put_target [OF _ Some] surfaces_ok_add [OF _ Some]
             simp: surface_ids_def)
  have pos: "surface_position ?s (tg_surfaces rec) = None \<longleftrightarrow> omap_find (tr_surface_owners r) ?s \<noteq> Some tid"
    using mem by (simp add: surface_position_None surface_ids_def)
  show ?thesis
    using Some ok replaced added pos
    by (auto simp: register_surface_def Let_def sound_def emplace_def split: option.split)
qed (use ok in \<open>simp add: register_surface_def sound_def\<close>)

lemma remove_surface_sound:
  assumes ok: "registry_ok r"
  shows "sound (remove_surface tid s r)"
proof (cases "omap_find (tr_targets r) tid")
  case (Some rec)
  have parts: "ids_ok r" "aliases_ok r" "surfaces_ok r" using ok by (simp_all add: registry_ok_def)
  have dist: "distinct (surface_ids rec)" and mem: "s \<in> set (surface_ids rec) \<longleftrightarrow> omap_find (tr_surface_owners r) s = Some tid"
    using parts(3) Some by (auto simp: surfaces_ok_def)
  have removed: "registry_ok ((put_target tid (rec\<lparr>tg_surfaces := take i (tg_surfaces rec) @ drop (Suc i) (tg_surfaces rec)\<rparr>) r)
                                \<lparr>tr_surface_owners := omap_erase s (tr_surface_owners r)\<rparr>)"
    if i: "surface_position s (tg_surfaces rec) = Some i" and owner: "omap_find (tr_surface_owners r) s = Some tid" for i
  proof -
    have split: "map srf_id (tg_surfaces rec) = map srf_id (take i (tg_surfaces rec)) @ s # map srf_id (drop (Suc i) (tg_surfaces rec))"
      using surface_position_Some [OF i] by (metis id_take_nth_drop list.simps(9) map_append)
    show ?thesis
      using parts dist owner split unfolding registry_ok_def
      by (auto intro!: ids_ok_put_target [OF _ Some] aliases_ok_put_target [OF _ Some] surfaces_ok_erase [OF _ Some]
               simp: surface_ids_def simp del: set_map)
  qed
  have pos: "surface_position s (tg_surfaces rec) = None \<longleftrightarrow> omap_find (tr_surface_owners r) s \<noteq> Some tid"
    using mem by (simp add: surface_position_None surface_ids_def)
  show ?thesis
    using Some ok removed pos by (auto simp: remove_surface_def sound_def split: option.split)
qed (use ok in \<open>simp add: remove_surface_def sound_def\<close>)

section \<open>Runs of operations\<close>

datatype registry_op =
    Observe target_observation
  | AttachAlias target_id alias_edge
  | InvalidateAlias string string
  | RegisterSurface target_id surface_record
  | RemoveSurface target_id u64

fun registry_step :: "registry_op \<Rightarrow> target_registry \<Rightarrow> unit result \<times> target_registry" where
  "registry_step (Observe ob) r = (case observe ob r of (res, r) \<Rightarrow> (map_sum (\<lambda>e. e) (\<lambda>_. ()) res, r))"
| "registry_step (AttachAlias tid a) r = attach_alias tid a r"
| "registry_step (InvalidateAlias authority native_id) r = invalidate_alias authority native_id r"
| "registry_step (RegisterSurface tid surface) r = register_surface tid surface r"
| "registry_step (RemoveSurface tid s) r = remove_surface tid s r"

definition run_registry :: "registry_op list \<Rightarrow> target_registry \<Rightarrow> target_registry" where
  "run_registry ops r = fold (\<lambda>op r. snd (registry_step op r)) ops r"

lemma new_registry_ok: "registry_ok new_registry"
  by (simp add: new_registry_def registry_ok_def ids_ok_def aliases_ok_def surfaces_ok_def)

lemma sound_erase_value: "sound (res, r) \<Longrightarrow> sound (map_sum (\<lambda>e. e) f res, r)"
  by (cases res) (auto simp: sound_def internal_fault_def)

lemma registry_step_sound: "registry_ok r \<Longrightarrow> sound (registry_step op r)"
  by (cases op) (auto simp: attach_alias_sound invalidate_alias_sound register_surface_sound remove_surface_sound
                      split: prod.split intro!: sound_erase_value, metis observe_sound)

lemma run_registry_ok: "registry_ok r \<Longrightarrow> registry_ok (run_registry ops r)"
  unfolding run_registry_def
  by (induction ops arbitrary: r) (use registry_step_sound in \<open>auto simp: sound_def\<close>)

lemma reachable_registry_ok: "registry_ok (run_registry ops new_registry)"
  using new_registry_ok by (rule run_registry_ok)

text \<open>
  C40. The identity map, the alias index and the surface index of the registry agree after every sequence of
  operations, so no operation ever answers with one of the internal faults that report a disagreement.\<close>

theorem registry_never_inconsistent:
  "registry_ok (run_registry ops new_registry) \<and>
   \<not> internal_fault (fst (registry_step op (run_registry ops new_registry)))"
  using registry_step_sound [OF reachable_registry_ok] by (simp add: reachable_registry_ok sound_def)

section \<open>Identities\<close>

definition keeps_identity :: "target_registry \<Rightarrow> target_registry \<Rightarrow> bool" where
  "keeps_identity r r' \<longleftrightarrow>
     (\<forall>tid rec. omap_find (tr_targets r) tid = Some rec \<longrightarrow>
        (\<exists>rec'. omap_find (tr_targets r') tid = Some rec' \<and> tg_grade rec' = tg_grade rec))"

lemma keeps_identity_refl: "keeps_identity r r"
  by (simp add: keeps_identity_def)

lemma keeps_identity_trans: "keeps_identity r r' \<Longrightarrow> keeps_identity r' r'' \<Longrightarrow> keeps_identity r r''"
  unfolding keeps_identity_def by metis

lemma keeps_identity_put [simp]:
  "omap_find (tr_targets r) tid = Some rec \<Longrightarrow> keeps_identity r (put_target tid rec' r) \<longleftrightarrow> tg_grade rec' = tg_grade rec"
  by (auto simp: keeps_identity_def omap_find_put)

lemma keeps_identity_fresh [simp]:
  "omap_find (tr_targets r) tid = None \<Longrightarrow> keeps_identity r (r\<lparr>tr_targets := omap_put tid rec (tr_targets r)\<rparr>)"
  by (auto simp: keeps_identity_def omap_find_put)

lemma keeps_identity_fields [simp]:
  "keeps_identity r (r'\<lparr>tr_aliases := m\<rparr>) = keeps_identity r r'"
  "keeps_identity r (r'\<lparr>tr_surface_owners := m'\<rparr>) = keeps_identity r r'"
  "keeps_identity r (r'\<lparr>tr_next_id := n\<rparr>) = keeps_identity r r'"
  by (simp_all add: keeps_identity_def)

lemmas registry_op_defs = attach_alias_def invalidate_alias_def register_surface_def remove_surface_def
  observe_def observe_fused_def observe_new_def Let_def

lemma observe_identity: "keeps_identity r (snd (observe ob r))"
  by (auto simp: registry_op_defs emplace_def keeps_identity_refl split: sum.split option.split)

lemma registry_step_identity: "keeps_identity r (snd (registry_step op r))"
proof (cases op)
  case (Observe ob)
  then show ?thesis using observe_identity [of r ob] by (simp add: case_prod_beta)
qed (auto simp: registry_op_defs emplace_def keeps_identity_refl split: sum.split option.split)

lemma emplace_keeps: "omap_find m k = Some v \<Longrightarrow> omap_find (snd (emplace k' v' m)) k = Some v"
  by (auto simp: emplace_def omap_find_put split: option.split)

lemma registry_step_keeps_alias:
  assumes "omap_find (tr_aliases r) (au, na) = Some tid" and "op \<noteq> InvalidateAlias au na"
  shows "omap_find (tr_aliases (snd (registry_step op r))) (au, na) = Some tid"
proof (cases op)
  case (Observe ob)
  have "omap_find (tr_aliases (snd (observe ob r))) (au, na) = Some tid"
    using assms(1)
    by (auto simp: registry_op_defs emplace_def omap_find_put split: sum.split option.split)
  then show ?thesis using Observe by (simp add: case_prod_beta)
next
  case (AttachAlias t a)
  then show ?thesis using assms(1)
    by (auto simp: registry_op_defs emplace_keeps split: sum.split option.split)
next
  case (RegisterSurface t surface)
  then show ?thesis using assms(1) by (auto simp: registry_op_defs emplace_def split: option.split)
qed (use assms in \<open>auto simp: registry_op_defs omap_find_erase split: option.split\<close>)

lemma run_registry_keeps_alias:
  "omap_find (tr_aliases r) (au, na) = Some tid \<Longrightarrow> InvalidateAlias au na \<notin> set ops \<Longrightarrow>
   omap_find (tr_aliases (run_registry ops r)) (au, na) = Some tid"
  unfolding run_registry_def by (induction ops arbitrary: r) (auto simp: registry_step_keeps_alias)

lemma run_registry_identity: "keeps_identity r (run_registry ops r)"
  unfolding run_registry_def
  by (induction ops arbitrary: r) (auto simp: keeps_identity_refl intro: keeps_identity_trans registry_step_identity)

lemma observe_registers:
  assumes "observe ob r = (Inr tid, r')" and "ob_alias ob = Some a" and "is_fusing a"
  shows "omap_find (tr_aliases r') (key_of a) = Some tid \<and>
         (\<exists>rec. omap_find (tr_targets r') tid = Some rec \<and> tg_grade rec = ob_grade ob) \<and> validate ob = Inr ()"
  using assms
  by (auto simp: registry_op_defs fused_alias_def emplace_def omap_find_put split: sum.splits option.splits if_splits)

lemma observe_known_alias:
  assumes "validate ob = Inr ()" and "ob_alias ob = Some a" and "is_fusing a"
    and "omap_find (tr_aliases r) (key_of a) = Some tid"
    and "omap_find (tr_targets r) tid = Some rec" and "tg_grade rec = ob_grade ob"
  shows "fst (observe ob r) = Inr tid"
  using assms by (simp add: observe_def fused_alias_def observe_fused_def)

lemma observe_unknown_alias:
  assumes "registry_ok r" and "fused_alias ob r = None" and "observe ob r = (Inr tid, r')"
  shows "tid = tr_next_id r \<and> omap_find (tr_targets r) tid = None"
  using assms next_id_fresh [of r]
  by (auto simp: registry_ok_def observe_def observe_new_def Let_def emplace_def split: sum.splits option.splits if_splits)

lemma observe_not_fused_id:
  assumes "registry_ok r" and "fused_alias ob r = None" and "omap_find (tr_targets r) tid \<noteq> None"
  shows "fst (observe ob r) \<noteq> Inr tid"
  using observe_unknown_alias [OF assms(1,2)] assms(3) by (metis prod.collapse)

text \<open>
  An observation is merged into a target the registry already has exactly when it carries an alias that
  is exact, active and indexed for that target: titles, process ids, bounds, candidate and inactive aliases never merge
  two observations.\<close>

theorem observation_fuses_only_by_exact_alias:
  assumes "r = run_registry ops new_registry" and "observe ob r = (Inr tid, r')"
  shows "omap_find (tr_targets r) tid \<noteq> None \<longleftrightarrow>
         (\<exists>a. ob_alias ob = Some a \<and> is_fusing a \<and> omap_find (tr_aliases r) (key_of a) = Some tid)"
proof (cases "fused_alias ob r")
  case None
  have ok: "registry_ok r" using assms(1) reachable_registry_ok by simp
  show ?thesis using observe_unknown_alias [OF ok None assms(2)] None
    by (auto simp: fused_alias_def split: option.splits if_splits)
next
  case (Some p)
  then show ?thesis using assms(2)
    by (auto simp: observe_def observe_fused_def fused_alias_def split: sum.splits option.splits if_splits)
qed

text \<open>
  C39. An exact, active alias identifies one target for as long as it is not invalidated: whatever is done to
  the registry in between, observing it again at the same grade returns the same identity. Invalidating it succeeds and ends
  that: the target stays in the registry, and the next observation of the alias is another target.\<close>

theorem exact_alias_identity:
  assumes "r = run_registry ops new_registry" and "observe ob r = (Inr tid, r1)"
    and "ob_alias ob = Some a" and "is_fusing a"
    and "InvalidateAlias (al_authority a) (al_native_id a) \<notin> set ops'" and "r2 = run_registry ops' r1"
    and "ob_alias ob' = Some a" and "ob_grade ob' = ob_grade ob"
  shows "fst (observe ob' r2) = Inr tid
    \<and> fst (invalidate_alias (al_authority a) (al_native_id a) r2) = Inr ()
    \<and> omap_find (tr_targets (snd (invalidate_alias (al_authority a) (al_native_id a) r2))) tid \<noteq> None
    \<and> fst (observe ob' (snd (invalidate_alias (al_authority a) (al_native_id a) r2))) \<noteq> Inr tid"
proof -
  let ?inv = "invalidate_alias (al_authority a) (al_native_id a) r2"
  have key: "key_of a = (al_authority a, al_native_id a)" by (simp add: key_of_def)
  from observe_registers [OF assms(2,3,4)] obtain rec where
    reg: "omap_find (tr_aliases r1) (key_of a) = Some tid" "omap_find (tr_targets r1) tid = Some rec"
      "tg_grade rec = ob_grade ob" "validate ob = Inr ()" by auto
  have valid: "validate ob' = Inr ()" using reg(4) assms(3,7,8) by (auto simp: validate_def split: if_splits)
  have names: "al_authority a \<noteq> []" "al_native_id a \<noteq> []"
    using reg(4) assms(3) by (auto simp: validate_def validate_alias_def split: if_splits)
  have alias2: "omap_find (tr_aliases r2) (key_of a) = Some tid"
    using run_registry_keeps_alias [of r1 _ _ tid ops'] reg(1) assms(5,6) key by simp
  obtain rec2 where rec2: "omap_find (tr_targets r2) tid = Some rec2" "tg_grade rec2 = ob_grade ob'"
    using run_registry_identity [of r1 ops', unfolded keeps_identity_def] reg(2,3) assms(6,8) by metis
  have "registry_ok r1"
    using observe_sound [of r ob] reachable_registry_ok [of ops] assms(1,2) by (simp add: sound_def)
  then have ok: "registry_ok (snd ?inv)"
    using invalidate_alias_sound run_registry_ok assms(6) by (metis sound_def)
  have inv: "fst ?inv = Inr ()" "omap_find (tr_aliases (snd ?inv)) (key_of a) = None"
    "omap_find (tr_targets (snd ?inv)) tid \<noteq> None"
    using alias2 rec2(1) names key by (auto simp: invalidate_alias_def omap_find_erase omap_find_put)
  have "fused_alias ob' (snd ?inv) = None" using inv(2) assms(7) by (simp add: fused_alias_def)
  then show ?thesis
    using observe_known_alias [OF valid assms(7,4) alias2 rec2] inv observe_not_fused_id [OF ok] by simp
qed

definition sample_alias :: alias_edge where
  "sample_alias = \<lparr>al_authority = ''x11'', al_native_id = ''42'', al_confidence = ExactAlias, al_validity = ActiveAlias\<rparr>"

definition sample_observation :: target_observation where
  "sample_observation = \<lparr>ob_grade = WindowGrade, ob_alias = Some sample_alias, ob_title = ''a'', ob_pid = None, ob_bounds = None\<rparr>"

lemma observation_fuses_only_by_exact_alias_witness:
  "omap_find (tr_targets (snd (observe sample_observation new_registry))) 1 \<noteq> None \<and>
   fst (observe sample_observation (snd (observe sample_observation new_registry))) = Inr 1"
proof -
  let ?r = "snd (observe sample_observation new_registry)"
  have run: "?r = run_registry [Observe sample_observation] new_registry"
    by (simp add: run_registry_def case_prod_beta)
  have again: "fst (observe sample_observation ?r) = Inr 1" by code_simp
  have key: "omap_find (tr_aliases ?r) (key_of sample_alias) = Some 1" by code_simp
  show ?thesis
    using observation_fuses_only_by_exact_alias [OF run, of sample_observation 1 "snd (observe sample_observation ?r)"] again key
    by (simp add: prod_eq_iff sample_observation_def sample_alias_def is_fusing_def)
qed

lemma exact_alias_identity_witness:
  "fst (observe (sample_observation\<lparr>ob_title := ''b''\<rparr>)
         (snd (attach_alias 1 (sample_alias\<lparr>al_native_id := ''43''\<rparr>) (snd (observe sample_observation new_registry))))) = Inr 1"
proof -
  have first: "observe sample_observation new_registry = (Inr 1, snd (observe sample_observation new_registry))"
    by (simp add: prod_eq_iff) code_simp
  show ?thesis
    using exact_alias_identity [of new_registry "[]" sample_observation 1 "snd (observe sample_observation new_registry)" sample_alias
          "[AttachAlias 1 (sample_alias\<lparr>al_native_id := ''43''\<rparr>)]" _ "sample_observation\<lparr>ob_title := ''b''\<rparr>", OF _ first _ _ _ refl]
    by (simp add: run_registry_def sample_observation_def sample_alias_def is_fusing_def)
qed

section \<open>Surfaces\<close>

definition find_surface :: "u64 \<Rightarrow> surface_record list \<Rightarrow> surface_record option" where
  "find_surface s xs = find (\<lambda>x. srf_id x = s) xs"

text \<open>The abstract surface map: the owner of a surface and its record, as the three maps store them.\<close>

definition surface_view :: "target_registry \<Rightarrow> u64 \<Rightarrow> (target_id \<times> surface_record) option" where
  "surface_view r s =
     (case omap_find (tr_surface_owners r) s of
        None \<Rightarrow> None
      | Some tid \<Rightarrow>
          (case omap_find (tr_targets r) tid of
             None \<Rightarrow> None
           | Some rec \<Rightarrow> map_option (Pair tid) (find_surface s (tg_surfaces rec))))"

lemma find_surface_Nil [simp]: "find_surface t [] = None"
  by (simp add: find_surface_def)

lemma find_surface_Cons [simp]: "find_surface t (x # xs) = (if srf_id x = t then Some x else find_surface t xs)"
  by (simp add: find_surface_def)

lemma find_surface_update:
  "surface_position s xs = Some i \<Longrightarrow> srf_id y = s \<Longrightarrow> find_surface t (xs[i := y]) = (if t = s then Some y else find_surface t xs)"
  by (induction xs arbitrary: i) (auto split: if_splits)

lemma find_surface_snoc:
  "surface_position s xs = None \<Longrightarrow> srf_id y = s \<Longrightarrow> find_surface t (xs @ [y]) = (if t = s then Some y else find_surface t xs)"
  by (induction xs) (auto split: if_splits)

lemma find_surface_None: "find_surface s xs = None \<longleftrightarrow> s \<notin> srf_id ` set xs"
  by (induction xs) auto

lemma find_surface_erase:
  "surface_position s xs = Some i \<Longrightarrow> distinct (map srf_id xs) \<Longrightarrow>
   find_surface t (take i xs @ drop (Suc i) xs) = (if t = s then None else find_surface t xs)"
  by (induction xs arbitrary: i) (auto simp: find_surface_None split: if_splits)

lemma owned_surface_found:
  assumes "surfaces_ok r" and "omap_find (tr_surface_owners r) s = Some tid"
  obtains rec x where "omap_find (tr_targets r) tid = Some rec" "find_surface s (tg_surfaces rec) = Some x"
proof -
  obtain rec where rec: "omap_find (tr_targets r) tid = Some rec"
    using assms unfolding surfaces_ok_def by blast
  then have "s \<in> set (surface_ids rec)" using assms unfolding surfaces_ok_def by blast
  then have "find_surface s (tg_surfaces rec) \<noteq> None" by (simp add: find_surface_None surface_ids_def)
  then show thesis using that rec by blast
qed

lemma surface_view_owner:
  assumes "surfaces_ok r"
  shows "map_option fst (surface_view r s) = omap_find (tr_surface_owners r) s"
proof (cases "omap_find (tr_surface_owners r) s")
  case (Some tid)
  obtain rec x where "omap_find (tr_targets r) tid = Some rec" "find_surface s (tg_surfaces rec) = Some x"
    using assms Some by (rule owned_surface_found)
  then show ?thesis using Some by (simp add: surface_view_def)
qed (simp add: surface_view_def)

lemma surface_view_put:
  "surface_view ((put_target tid rec r)\<lparr>tr_surface_owners := owners\<rparr>) t =
   (case omap_find owners t of
      None \<Rightarrow> None
    | Some t' \<Rightarrow>
        if t' = tid then map_option (Pair tid) (find_surface t (tg_surfaces rec))
        else case omap_find (tr_targets r) t' of
               None \<Rightarrow> None | Some rec \<Rightarrow> map_option (Pair t') (find_surface t (tg_surfaces rec)))"
  by (simp add: surface_view_def omap_find_put split: option.split)

lemma surface_view_put_same:
  "surface_view (put_target tid rec r) = surface_view ((put_target tid rec r)\<lparr>tr_surface_owners := tr_surface_owners r\<rparr>)"
  by (simp add: put_target_def)

lemma surface_replaced:
  assumes "omap_find (tr_targets r) tid = Some rec" and "omap_find (tr_surface_owners r) (srf_id y) = Some tid"
    and "surface_position (srf_id y) (tg_surfaces rec) = Some i"
  shows "surface_view (put_target tid (rec\<lparr>tg_surfaces := (tg_surfaces rec)[i := y]\<rparr>) r) = (surface_view r)(srf_id y \<mapsto> (tid, y))"
  using assms
  by (intro ext, subst surface_view_put_same, subst surface_view_put)
     (auto simp: surface_view_def find_surface_update [OF assms(3) refl] split: option.split)

lemma surface_added:
  assumes "omap_find (tr_targets r) tid = Some rec" and "omap_find (tr_surface_owners r) (srf_id y) = None"
    and "surface_position (srf_id y) (tg_surfaces rec) = None"
  shows "surface_view ((put_target tid (rec\<lparr>tg_surfaces := tg_surfaces rec @ [y]\<rparr>) r)
            \<lparr>tr_surface_owners := omap_put (srf_id y) tid (tr_surface_owners r)\<rparr>) = (surface_view r)(srf_id y \<mapsto> (tid, y))"
  using assms
  by (intro ext, subst surface_view_put)
     (auto simp: omap_find_put surface_view_def find_surface_snoc [OF assms(3) refl] split: option.split)

lemma surface_erased:
  assumes "omap_find (tr_targets r) tid = Some rec" and "distinct (surface_ids rec)"
    and "surface_position s (tg_surfaces rec) = Some i"
  shows "surface_view ((put_target tid (rec\<lparr>tg_surfaces := take i (tg_surfaces rec) @ drop (Suc i) (tg_surfaces rec)\<rparr>) r)
            \<lparr>tr_surface_owners := omap_erase s (tr_surface_owners r)\<rparr>) = (surface_view r)(s := None)"
  using assms(1)
  by (intro ext, subst surface_view_put)
     (auto simp: omap_find_erase surface_view_def
                find_surface_erase [OF assms(3) assms(2) [unfolded surface_ids_def]] split: option.split)

lemma target_surfaces:
  assumes "registry_ok r" and "omap_find (tr_targets r) tid = Some rec"
  shows "surface_position s (tg_surfaces rec) = None \<longleftrightarrow> omap_find (tr_surface_owners r) s \<noteq> Some tid"
    and "distinct (surface_ids rec)"
proof -
  have *: "distinct (surface_ids rec) \<and> (\<forall>s. s \<in> set (surface_ids rec) \<longleftrightarrow> omap_find (tr_surface_owners r) s = Some tid)"
    using assms unfolding registry_ok_def surfaces_ok_def by blast
  show "distinct (surface_ids rec)" using * by (rule conjunct1)
  show "surface_position s (tg_surfaces rec) = None \<longleftrightarrow> omap_find (tr_surface_owners r) s \<noteq> Some tid"
    using * by (simp add: surface_position_None surface_ids_def)
qed

lemma registry_surfaces_ok: "registry_ok r \<Longrightarrow> surfaces_ok r"
  by (simp add: registry_ok_def)

lemma register_surface_spec:
  assumes ok: "registry_ok r"
  shows "if srf_id surface \<noteq> 0 \<and> omap_find (tr_targets r) tid \<noteq> None
             \<and> map_option fst (surface_view r (srf_id surface)) \<in> {None, Some tid}
         then fst (register_surface tid surface r) = Inr ()
               \<and> surface_view (snd (register_surface tid surface r)) = (surface_view r)(srf_id surface \<mapsto> (tid, surface))
         else fst (register_surface tid surface r) \<noteq> Inr () \<and> snd (register_surface tid surface r) = r"
proof (cases "omap_find (tr_targets r) tid")
  case (Some rec)
  let ?owner = "omap_find (tr_surface_owners r) (srf_id surface)"
  note pos = target_surfaces(1) [OF ok Some, of "srf_id surface"]
  consider "srf_id surface = 0 \<or> ?owner \<notin> {None, Some tid}" | "srf_id surface \<noteq> 0" "?owner = None"
    | "srf_id surface \<noteq> 0" "?owner = Some tid" by blast
  then show ?thesis
  proof cases
    case 2
    then show ?thesis using Some pos surface_added [OF Some]
      by (simp add: surface_view_owner [OF registry_surfaces_ok [OF ok]] register_surface_def emplace_def)
  next
    case 3
    then obtain i where "surface_position (srf_id surface) (tg_surfaces rec) = Some i" using pos by auto
    then show ?thesis using 3 Some surface_replaced [OF Some]
      by (simp add: surface_view_owner [OF registry_surfaces_ok [OF ok]] register_surface_def)
  qed (auto simp: surface_view_owner [OF registry_surfaces_ok [OF ok]] register_surface_def Let_def Some)
qed (simp add: register_surface_def)

lemma remove_surface_spec:
  assumes ok: "registry_ok r"
  shows "if s \<noteq> 0 \<and> map_option fst (surface_view r s) = Some tid
         then fst (remove_surface tid s r) = Inr ()
               \<and> surface_view (snd (remove_surface tid s r)) = (surface_view r)(s := None)
         else fst (remove_surface tid s r) \<noteq> Inr () \<and> snd (remove_surface tid s r) = r"
proof (cases "omap_find (tr_targets r) tid")
  case (Some rec)
  note pos = target_surfaces(1) [OF ok Some, of s]
  show ?thesis
  proof (cases "omap_find (tr_surface_owners r) s = Some tid")
    case True
    then obtain i where "surface_position s (tg_surfaces rec) = Some i" using pos by auto
    then show ?thesis using True Some surface_erased [OF Some target_surfaces(2) [OF ok Some]]
      by (simp add: surface_view_owner [OF registry_surfaces_ok [OF ok]] remove_surface_def)
  next
    case False
    then show ?thesis using Some
      by (simp add: surface_view_owner [OF registry_surfaces_ok [OF ok]] remove_surface_def split: option.split)
  qed
next
  case None
  then have "omap_find (tr_surface_owners r) s \<noteq> Some tid"
    using owned_surface_found [OF registry_surfaces_ok [OF ok]] by (metis option.distinct(1))
  then show ?thesis using None
    by (simp add: surface_view_owner [OF registry_surfaces_ok [OF ok]] remove_surface_def)
qed

text \<open>
  On every reachable registry the surface operations implement a map from surfaces to their owner and
  record: registering succeeds exactly for a non-zero surface and a known target when the surface is free or already owned by that
  target, and then stores it; removing succeeds exactly for the owner, and forgets it; a refused operation changes nothing.\<close>

theorem surface_ops_refine:
  "(if srf_id surface \<noteq> 0 \<and> omap_find (tr_targets (run_registry ops new_registry)) tid \<noteq> None
       \<and> map_option fst (surface_view (run_registry ops new_registry) (srf_id surface)) \<in> {None, Some tid}
    then fst (register_surface tid surface (run_registry ops new_registry)) = Inr ()
         \<and> surface_view (snd (register_surface tid surface (run_registry ops new_registry))) =
             (surface_view (run_registry ops new_registry))(srf_id surface \<mapsto> (tid, surface))
    else fst (register_surface tid surface (run_registry ops new_registry)) \<noteq> Inr ()
         \<and> snd (register_surface tid surface (run_registry ops new_registry)) = run_registry ops new_registry)
   \<and> (if s \<noteq> 0 \<and> map_option fst (surface_view (run_registry ops new_registry) s) = Some tid
      then fst (remove_surface tid s (run_registry ops new_registry)) = Inr ()
           \<and> surface_view (snd (remove_surface tid s (run_registry ops new_registry))) =
               (surface_view (run_registry ops new_registry))(s := None)
      else fst (remove_surface tid s (run_registry ops new_registry)) \<noteq> Inr ()
           \<and> snd (remove_surface tid s (run_registry ops new_registry)) = run_registry ops new_registry)"
  using register_surface_spec [OF reachable_registry_ok] remove_surface_spec [OF reachable_registry_ok] by (rule conjI)

end
