(* ===== verification/Filename_Pattern.thy ===== *)
theory Filename_Pattern
  imports Errors
begin

text \<open>
  \<open>src/config/pattern.cpp\<close>: the filename patterns of a watch. \<open>render_filename\<close> expands the tokens of
  a pattern for one capture; \<open>matches_pattern\<close> decides whether a name may have come from a pattern,
  and is what the rotation ledger asks before it adopts or deletes a file. Text is a list of
  characters, positions in it are the suffixes that are left, a \<open>std::uint32_t\<close> is a natural number
  with its bound checked where the source checks it, and a time point is its count of nanoseconds
  since the epoch. The calendar of \<open>gmtime_r\<close> and of \<open>std::chrono::year_month_day\<close> is written out.
  Shown: a rendered name matches its pattern, and a name that matches is an instance of the pattern
  with well-formed, mutually consistent token values.
\<close>

section \<open>Decimal numbers\<close>

definition uint32_max :: nat where
  "uint32_max = 4294967295"

definition padded_decimal :: "nat \<Rightarrow> nat \<Rightarrow> string" where
  "padded_decimal v width =
     (let digits = to_string v
      in if length digits < width then replicate (width - length digits) (CHR ''0'') @ digits else digits)"

fun parse_digits :: "nat \<Rightarrow> string \<Rightarrow> nat option" where
  "parse_digits v [] = Some v"
| "parse_digits v (c # str) =
     (if of_char c < (48::nat) \<or> of_char c > (57::nat) then None
      else let digit = of_char c - 48
           in if v > (uint32_max - digit) div 10 then None else parse_digits (v * 10 + digit) str)"

definition parse_decimal :: "string \<Rightarrow> nat option" where
  "parse_decimal str = (if str = [] then None else parse_digits 0 str)"

section \<open>Dates and times\<close>

definition leap_year :: "int \<Rightarrow> bool" where
  "leap_year y \<longleftrightarrow> y mod 4 = 0 \<and> (y mod 100 \<noteq> 0 \<or> y mod 400 = 0)"

definition days_in_year :: "int \<Rightarrow> nat" where
  "days_in_year y = (if leap_year y then 366 else 365)"

definition days_in_month :: "int \<Rightarrow> nat \<Rightarrow> nat" where
  "days_in_month y m =
     (if m = 2 then (if leap_year y then 29 else 28)
      else if m \<in> {4, 6, 9, 11} then 30 else if 1 \<le> m \<and> m \<le> 12 then 31 else 0)"

text \<open>\<open>std::chrono::year_month_day::ok\<close> for the years four digits can write.\<close>

definition ymd_ok :: "nat \<Rightarrow> nat \<Rightarrow> nat \<Rightarrow> bool" where
  "ymd_ok y m d \<longleftrightarrow> y \<le> 32767 \<and> 1 \<le> m \<and> m \<le> 12 \<and> 1 \<le> d \<and> d \<le> days_in_month (int y) m"

text \<open>\<open>std::tm\<close>, with the month counted from 1 and the year as written.\<close>

record broken_time =
  tm_year :: int
  tm_mon :: nat
  tm_mday :: nat
  tm_hour :: nat
  tm_min :: nat
  tm_sec :: nat

function year_forward :: "int \<Rightarrow> nat \<Rightarrow> int \<times> nat" where
  "year_forward y days =
     (if days < days_in_year y then (y, days) else year_forward (y + 1) (days - days_in_year y))"
  by pat_completeness auto
termination
  by (relation "measure snd") (auto simp: days_in_year_def split: if_splits)

function year_backward :: "int \<Rightarrow> nat \<Rightarrow> int \<times> nat" where
  "year_backward y ago =
     (if ago \<le> days_in_year y then (y, days_in_year y - ago) else year_backward (y - 1) (ago - days_in_year y))"
  by pat_completeness auto
termination
  by (relation "measure snd") (auto simp: days_in_year_def split: if_splits)

declare year_forward.simps [simp del] year_backward.simps [simp del]

text \<open>Year and day of the year (from 0) of a day counted from 1970-01-01.\<close>

definition year_of_day :: "int \<Rightarrow> int \<times> nat" where
  "year_of_day day = (if 0 \<le> day then year_forward 1970 (nat day) else year_backward 1969 (nat (- day)))"

function month_of_day :: "int \<Rightarrow> nat \<Rightarrow> nat \<Rightarrow> nat \<times> nat" where
  "month_of_day y m days =
     (if m \<ge> 12 \<or> days < days_in_month y m then (m, days + 1) else month_of_day y (m + 1) (days - days_in_month y m))"
  by pat_completeness auto
termination
  by (relation "measure (\<lambda>(y, m, days). 12 - m)") auto

declare month_of_day.simps [simp del]

text \<open>\<open>gmtime_r\<close>: it fails when the year does not fit an \<open>int\<close>.\<close>

definition gmtime :: "int \<Rightarrow> broken_time option" where
  "gmtime seconds =
     (let (year, yday) = year_of_day (seconds div 86400);
          (month, mday) = month_of_day year 1 yday;
          sod = nat (seconds mod 86400)
      in if year - 1900 < - (2 ^ 31) \<or> year - 1900 \<ge> 2 ^ 31 then None
         else Some \<lparr>tm_year = year, tm_mon = month, tm_mday = mday,
                    tm_hour = sod div 3600, tm_min = sod mod 3600 div 60, tm_sec = sod mod 60\<rparr>)"

section \<open>Tokens\<close>

datatype token_kind = Timestamp | Date | Time | Sequence

record token_values =
  tv_timestamp :: string
  tv_date :: string
  tv_time :: string
  tv_sequence :: string

record match_state =
  ms_timestamp :: "string option"
  ms_date :: "string option"
  ms_time :: "string option"
  ms_sequence :: "string option"

definition empty_match_state :: match_state where
  "empty_match_state = \<lparr>ms_timestamp = None, ms_date = None, ms_time = None, ms_sequence = None\<rparr>"

record pattern_context =
  ctx_now :: int
  ctx_seq :: u32

definition pattern_error :: "string \<Rightarrow> error" where
  "pattern_error reason = fail InvalidArgument (''/watch/filename'' @ '': '' @ reason)"

text \<open>The components of a path: what stands between its separators.\<close>

fun components_from :: "string \<Rightarrow> string \<Rightarrow> string list" where
  "components_from component [] = [component]"
| "components_from component (c # path) =
     (if c = CHR ''/'' then component # components_from [] path else components_from (component @ [c]) path)"

definition path_components :: "string \<Rightarrow> string list" where
  "path_components path = components_from [] path"

definition validate_relative_path :: "string \<Rightarrow> unit result" where
  "validate_relative_path v =
     (if v \<noteq> [] \<and> hd v = CHR ''/'' then Inl (pattern_error ''must be relative'')
      else if ''..'' \<in> set (path_components v)
      then Inl (pattern_error (''must not contain '' @ [CHR 0x27] @ ''..'' @ [CHR 0x27] @ '' path components''))
      else Inr ())"

definition starts_with :: "string \<Rightarrow> string \<Rightarrow> bool" where
  "starts_with t str \<longleftrightarrow> take (length t) str = t"

definition effective_pattern :: "string \<Rightarrow> string" where
  "effective_pattern pattern =
     (if starts_with (rev ''.png'') (rev pattern) then pattern else pattern @ ''.png'')"

fun token_text :: "token_kind \<Rightarrow> string" where
  "token_text Timestamp = ''{timestamp}''"
| "token_text Date = ''{date}''"
| "token_text Time = ''{time}''"
| "token_text Sequence = ''{seq}''"

definition token_at :: "string \<Rightarrow> token_kind option" where
  "token_at pattern =
     (if starts_with (token_text Timestamp) pattern then Some Timestamp
      else if starts_with (token_text Date) pattern then Some Date
      else if starts_with (token_text Time) pattern then Some Time
      else if starts_with (token_text Sequence) pattern then Some Sequence
      else None)"

text \<open>\<open>append_padded\<close> casts each field to \<open>std::uint32_t\<close>; every field is non-negative here.\<close>

definition make_token_values :: "pattern_context \<Rightarrow> token_values result" where
  "make_token_values context =
     (let milliseconds = ctx_now context div 1000000;
          seconds = milliseconds div 1000
      in case gmtime seconds of
           None \<Rightarrow> Inl (pattern_error ''timestamp cannot be represented in UTC'')
         | Some utc \<Rightarrow>
             if tm_year utc < 0 \<or> tm_year utc > 9999
             then Inl (pattern_error ''timestamp year must be between 0000 and 9999'')
             else let date = padded_decimal (nat (tm_year utc)) 4 @ padded_decimal (tm_mon utc) 2 @ padded_decimal (tm_mday utc) 2;
                      time = padded_decimal (tm_hour utc) 2 @ padded_decimal (tm_min utc) 2 @ padded_decimal (tm_sec utc) 2
                  in Inr \<lparr>tv_timestamp = date @ ''T'' @ time @ ''.'' @ padded_decimal (nat (milliseconds - seconds * 1000)) 3,
                          tv_date = date, tv_time = time,
                          tv_sequence = padded_decimal (unat (ctx_seq context)) 5\<rparr>)"

fun token_value :: "token_kind \<Rightarrow> token_values \<Rightarrow> string" where
  "token_value Timestamp vs = tv_timestamp vs"
| "token_value Date vs = tv_date vs"
| "token_value Time vs = tv_time vs"
| "token_value Sequence vs = tv_sequence vs"

definition substr :: "string \<Rightarrow> nat \<Rightarrow> nat \<Rightarrow> string" where
  "substr str pos width = take width (drop pos str)"

definition valid_date :: "string \<Rightarrow> bool" where
  "valid_date str \<longleftrightarrow> length str = 8 \<and>
     (case parse_decimal (substr str 0 4) of None \<Rightarrow> False | Some year \<Rightarrow>
      case parse_decimal (substr str 4 2) of None \<Rightarrow> False | Some month \<Rightarrow>
      case parse_decimal (substr str 6 2) of None \<Rightarrow> False | Some day \<Rightarrow> ymd_ok year month day)"

definition valid_time :: "string \<Rightarrow> bool" where
  "valid_time str \<longleftrightarrow> length str = 6 \<and>
     (case parse_decimal (substr str 0 2) of None \<Rightarrow> False | Some hour \<Rightarrow>
      case parse_decimal (substr str 2 2) of None \<Rightarrow> False | Some minute \<Rightarrow>
      case parse_decimal (substr str 4 2) of None \<Rightarrow> False | Some second \<Rightarrow>
        hour \<le> 23 \<and> minute \<le> 59 \<and> second \<le> 59)"

text \<open>\<open>maximumSequenceWidth\<close> is \<open>digits10 + 1\<close> of a 32-bit number, that is 10.\<close>

fun valid_token :: "token_kind \<Rightarrow> string \<Rightarrow> bool" where
  "valid_token Timestamp v \<longleftrightarrow>
     length v = 19 \<and> v ! 8 = CHR ''T'' \<and> v ! 15 = CHR ''.'' \<and> valid_date (substr v 0 8) \<and>
     valid_time (substr v 9 6) \<and> parse_decimal (substr v 16 3) \<noteq> None"
| "valid_token Date v \<longleftrightarrow> valid_date v"
| "valid_token Time v \<longleftrightarrow> valid_time v"
| "valid_token Sequence v \<longleftrightarrow>
     5 \<le> length v \<and> length v \<le> 10 \<and>
     (case parse_decimal v of None \<Rightarrow> False | Some s \<Rightarrow> padded_decimal s 5 = v)"

definition accept_value :: "string option \<Rightarrow> string \<Rightarrow> string option option" where
  "accept_value observed v = (if observed \<noteq> None \<and> observed \<noteq> Some v then None else Some (Some v))"

text \<open>\<open>None\<close> where the source returns false: the caller gives the state up then.\<close>

fun accept_token :: "token_kind \<Rightarrow> string \<Rightarrow> match_state \<Rightarrow> match_state option" where
  "accept_token Timestamp v st =
     (if \<not> valid_token Timestamp v then None
      else case accept_value (ms_timestamp st) v of None \<Rightarrow> None | Some ts \<Rightarrow>
           case accept_value (ms_date st) (substr v 0 8) of None \<Rightarrow> None | Some d \<Rightarrow>
           case accept_value (ms_time st) (substr v 9 6) of None \<Rightarrow> None | Some t \<Rightarrow>
             Some (st\<lparr>ms_timestamp := ts, ms_date := d, ms_time := t\<rparr>))"
| "accept_token Date v st =
     (if \<not> valid_token Date v then None
      else case accept_value (ms_date st) v of None \<Rightarrow> None | Some d \<Rightarrow> Some (st\<lparr>ms_date := d\<rparr>))"
| "accept_token Time v st =
     (if \<not> valid_token Time v then None
      else case accept_value (ms_time st) v of None \<Rightarrow> None | Some t \<Rightarrow> Some (st\<lparr>ms_time := t\<rparr>))"
| "accept_token Sequence v st =
     (if \<not> valid_token Sequence v then None
      else case accept_value (ms_sequence st) v of None \<Rightarrow> None | Some s \<Rightarrow> Some (st\<lparr>ms_sequence := s\<rparr>))"

fun fixed_token_width :: "token_kind \<Rightarrow> nat" where
  "fixed_token_width Timestamp = 19"
| "fixed_token_width Date = 8"
| "fixed_token_width Time = 6"
| "fixed_token_width Sequence = 0"

section \<open>Matching and rendering\<close>

lemma token_shrinks: "Suc n - length (token_text kind) < Suc n"
  by (cases kind) auto

function match_from :: "string \<Rightarrow> string \<Rightarrow> match_state \<Rightarrow> bool" where
  "match_from [] name st = (name = [])"
| "match_from (c # pattern) name st =
     (if c \<noteq> CHR ''{'' then
        (if c = CHR ''}'' \<or> name = [] \<or> hd name \<noteq> c then False else match_from pattern (tl name) st)
      else case token_at (c # pattern) of
        None \<Rightarrow> False
      | Some kind \<Rightarrow>
          let rest = drop (length (token_text kind)) (c # pattern)
          in if kind = Sequence \<and> ms_sequence st = None then
               list_ex (\<lambda>width. width \<le> length name \<and>
                 (case accept_token kind (take width name) st of
                    None \<Rightarrow> False
                  | Some candidate \<Rightarrow> match_from rest (drop width name) candidate)) [5..<11]
             else
               let width = (if kind = Sequence then length (case ms_sequence st of None \<Rightarrow> [] | Some s \<Rightarrow> s)
                            else fixed_token_width kind)
               in if width > length name then False
                  else case accept_token kind (take width name) st of
                         None \<Rightarrow> False
                       | Some st' \<Rightarrow> match_from rest (drop width name) st')"
  by pat_completeness auto

termination
  by (relation "measure (\<lambda>(pattern, name, st). length pattern)") (auto simp: token_shrinks)

declare match_from.simps(2) [simp del]

function render_loop :: "token_values \<Rightarrow> string \<Rightarrow> string result" where
  "render_loop vs [] = Inr []"
| "render_loop vs (c # pattern) =
     (if c \<noteq> CHR ''{'' then
        (if c = CHR ''}'' then Inl (pattern_error ''unexpected closing brace'')
         else case render_loop vs pattern of Inl e \<Rightarrow> Inl e | Inr rendered \<Rightarrow> Inr (c # rendered))
      else case token_at (c # pattern) of
        None \<Rightarrow>
          (if CHR ''}'' \<notin> set pattern then Inl (pattern_error ''unterminated token'')
           else Inl (pattern_error (''unknown token '' @ c # takeWhile (\<lambda>x. x \<noteq> CHR ''}'') pattern @ ''}'')))
      | Some kind \<Rightarrow>
          (case render_loop vs (drop (length (token_text kind)) (c # pattern)) of
             Inl e \<Rightarrow> Inl e
           | Inr rendered \<Rightarrow> Inr (token_value kind vs @ rendered)))"
  by pat_completeness auto
termination
  by (relation "measure (\<lambda>(vs, pattern). length pattern)") (auto simp: token_shrinks)

declare render_loop.simps(2) [simp del]

definition render_filename :: "string \<Rightarrow> pattern_context \<Rightarrow> string result" where
  "render_filename pattern context =
     (case validate_relative_path pattern of
        Inl e \<Rightarrow> Inl e
      | Inr _ \<Rightarrow>
          (case make_token_values context of
             Inl e \<Rightarrow> Inl e
           | Inr vs \<Rightarrow> render_loop vs (effective_pattern pattern)))"

definition matches_pattern :: "string \<Rightarrow> string \<Rightarrow> bool" where
  "matches_pattern pattern name =
     (case validate_relative_path pattern of Inl _ \<Rightarrow> False | Inr _ \<Rightarrow>
      case validate_relative_path name of Inl _ \<Rightarrow> False | Inr _ \<Rightarrow>
        match_from (effective_pattern pattern) name empty_match_state)"

section \<open>Decimal numbers, back and forth\<close>

lemma of_digit_char: "d < 10 \<Longrightarrow> of_char (digit_char d) = 48 + d"
  by (simp add: digit_char_def)

definition digits_only :: "string \<Rightarrow> bool" where
  "digits_only str \<longleftrightarrow> (\<forall>c\<in>set str. 48 \<le> (of_char c :: nat) \<and> (of_char c :: nat) \<le> 57)"

lemma to_string_digits: "digits_only (to_string n)"
proof (induction n rule: to_string.induct)
  case (1 n)
  then show ?case
    by (subst to_string.simps) (auto simp: digits_only_def of_digit_char)
qed

lemma to_string_nonempty: "to_string n \<noteq> []"
  by (subst to_string.simps) simp

lemma padded_digits: "digits_only (padded_decimal v w)"
  using to_string_digits [of v] by (auto simp: padded_decimal_def Let_def digits_only_def)

lemma padded_nonempty: "padded_decimal v w \<noteq> []"
  by (auto simp: padded_decimal_def Let_def to_string_nonempty)

lemma to_string_length: "n < 10 ^ w \<Longrightarrow> 0 < w \<Longrightarrow> length (to_string n) \<le> w"
proof (induction n arbitrary: w rule: to_string.induct)
  case (1 n)
  show ?case
  proof (cases "n < 10")
    case True
    with 1 show ?thesis by (subst to_string.simps) simp
  next
    case False
    then obtain u where w: "w = Suc u" and "0 < u"
      using 1(2,3) by (cases w; cases "w - 1") auto
    then have "length (to_string (n div 10)) \<le> u"
      using False 1(2) by (intro 1(1)) (auto simp: less_mult_imp_div_less mult.commute)
    with False w show ?thesis by (subst to_string.simps) simp
  qed
qed

lemma padded_length: "n < 10 ^ w \<Longrightarrow> 0 < w \<Longrightarrow> length (padded_decimal n w) = w"
  using to_string_length [of n w] by (simp add: padded_decimal_def Let_def)

lemma parse_digits_snoc:
  "parse_digits v (str @ [c]) = (case parse_digits v str of None \<Rightarrow> None | Some u \<Rightarrow> parse_digits u [c])"
  by (induction v str rule: parse_digits.induct) (auto simp: Let_def)

lemma parse_digits_to_string: "n \<le> uint32_max \<Longrightarrow> parse_digits 0 (to_string n) = Some n"
proof (induction n rule: to_string.induct)
  case (1 n)
  show ?case
  proof (cases "n < 10")
    case True
    then show ?thesis
      by (subst to_string.simps) (simp add: of_digit_char Let_def)
  next
    case False
    then have IH: "parse_digits 0 (to_string (n div 10)) = Some (n div 10)"
      using 1 by simp
    have "n div 10 * 10 + n mod 10 \<le> uint32_max"
      using 1(2) by simp
    then have "n div 10 * 10 \<le> uint32_max - n mod 10"
      by linarith
    then have "n div 10 \<le> (uint32_max - n mod 10) div 10"
      by (metis div_le_mono nonzero_mult_div_cancel_right zero_neq_numeral)
    with False IH show ?thesis
      by (subst to_string.simps) (simp add: parse_digits_snoc of_digit_char Let_def)
  qed
qed

lemma parse_digits_zeros: "parse_digits 0 (replicate k (CHR ''0'') @ str) = parse_digits 0 str"
  by (induction k) (simp_all add: Let_def)

lemma parse_padded: "n \<le> uint32_max \<Longrightarrow> parse_decimal (padded_decimal n w) = Some n"
  by (simp add: parse_decimal_def padded_nonempty)
    (simp add: padded_decimal_def Let_def parse_digits_zeros parse_digits_to_string)

lemma parse_digits_bound: "v \<le> uint32_max \<Longrightarrow> parse_digits v str = Some n \<Longrightarrow> n \<le> uint32_max"
proof (induction v str rule: parse_digits.induct)
  case (2 v c str)
  let ?d = "of_char c - (48::nat)"
  from 2(3) have c: "\<not> (of_char c < (48::nat) \<or> of_char c > (57::nat))"
    and v: "\<not> v > (uint32_max - ?d) div 10" and r: "parse_digits (v * 10 + ?d) str = Some n"
    by (auto simp: Let_def split: if_splits)
  have "?d \<le> uint32_max"
    using c unfolding uint32_max_def by linarith
  then have "v * 10 + ?d \<le> uint32_max"
    using v by (simp add: not_less div_le_mono less_eq_div_iff_mult_less_eq)
  with 2(1) [OF c refl v] r show ?case by blast
qed simp

section \<open>The calendar\<close>

lemma year_forward_day: "year_forward y days = (y', d) \<Longrightarrow> d < days_in_year y'"
proof (induction y days rule: year_forward.induct)
  case (1 y days)
  then show ?case
    by (subst (asm) (2) year_forward.simps) (auto split: if_splits)
qed

lemma year_backward_day: "year_backward y ago = (y', d) \<Longrightarrow> 0 < ago \<Longrightarrow> d < days_in_year y'"
proof (induction y ago rule: year_backward.induct)
  case (1 y ago)
  then show ?case
    by (subst (asm) (2) year_backward.simps) (auto simp: days_in_year_def split: if_splits)
qed

lemma year_of_day_bound: "year_of_day day = (y, d) \<Longrightarrow> d < days_in_year y"
  by (auto simp: year_of_day_def split: if_splits intro: year_forward_day year_backward_day)

definition rest_of_year :: "int \<Rightarrow> nat \<Rightarrow> nat" where
  "rest_of_year y m = sum_list (map (days_in_month y) [m..<13])"

lemma rest_of_year_start: "rest_of_year y 1 = days_in_year y"
  by (simp add: rest_of_year_def days_in_month_def days_in_year_def upt_rec)

lemma rest_of_year_step: "m < 12 \<Longrightarrow> rest_of_year y m = days_in_month y m + rest_of_year y (Suc m)"
  by (simp add: rest_of_year_def upt_rec [of m])

lemma month_of_day_valid:
  assumes "month_of_day y m days = (m', d)" and "1 \<le> m" and "m \<le> 12" and "days < rest_of_year y m"
  shows "1 \<le> m' \<and> m' \<le> 12 \<and> 1 \<le> d \<and> d \<le> days_in_month y m'"
  using assms
proof (induction y m days rule: month_of_day.induct)
  case (1 y m days)
  consider (last) "m = 12" | (here) "m < 12" "days < days_in_month y m" | (next_month) "m < 12" "\<not> days < days_in_month y m"
    using 1(4) by linarith
  then show ?case
  proof cases
    case last
    with 1(2,5) show ?thesis
      by (auto simp: month_of_day.simps [of y 12] rest_of_year_def)
  next
    case here
    with 1(2,3) show ?thesis
      by (auto simp: month_of_day.simps [of y m])
  next
    case next_month
    with 1 show ?thesis
      by (auto simp: month_of_day.simps [of y m] rest_of_year_step)
  qed
qed

lemma gmtime_valid:
  assumes "gmtime seconds = Some utc"
  shows "1 \<le> tm_mon utc \<and> tm_mon utc \<le> 12 \<and> 1 \<le> tm_mday utc \<and> tm_mday utc \<le> days_in_month (tm_year utc) (tm_mon utc) \<and>
    tm_hour utc \<le> 23 \<and> tm_min utc \<le> 59 \<and> tm_sec utc \<le> 59"
proof -
  obtain year yday where y: "year_of_day (seconds div 86400) = (year, yday)" by force
  obtain month mday where m: "month_of_day year 1 yday = (month, mday)" by force
  have "1 \<le> month \<and> month \<le> 12 \<and> 1 \<le> mday \<and> mday \<le> days_in_month year month"
    using month_of_day_valid [OF m] year_of_day_bound [OF y] by (simp add: rest_of_year_start [unfolded One_nat_def])
  moreover obtain h mi sec where utc: "utc = \<lparr>tm_year = year, tm_mon = month, tm_mday = mday,
      tm_hour = h, tm_min = mi, tm_sec = sec\<rparr>" and "h \<le> 23" "mi \<le> 59" "sec \<le> 59"
  proof
    show "utc = \<lparr>tm_year = year, tm_mon = month, tm_mday = mday,
      tm_hour = nat (seconds mod 86400) div 3600, tm_min = nat (seconds mod 86400) mod 3600 div 60,
      tm_sec = nat (seconds mod 86400) mod 60\<rparr>"
      using assms unfolding gmtime_def y m Let_def prod.case by (metis option.distinct(1) option.inject)
    show "nat (seconds mod 86400) div 3600 \<le> 23" by linarith
    show "nat (seconds mod 86400) mod 3600 div 60 \<le> 59" by linarith
    show "nat (seconds mod 86400) mod 60 \<le> 59" by linarith
  qed
  ultimately show ?thesis by simp
qed

section \<open>Token values\<close>

text \<open>The values of one rendering: every token well formed, the timestamp made of the date and the time.\<close>

definition good_values :: "token_values \<Rightarrow> bool" where
  "good_values vs \<longleftrightarrow> (\<forall>kind. valid_token kind (token_value kind vs)) \<and>
     substr (tv_timestamp vs) 0 8 = tv_date vs \<and> substr (tv_timestamp vs) 9 6 = tv_time vs"

lemma valid_date_padded:
  assumes "y \<le> 9999" and "ymd_ok y m d"
  shows "valid_date (padded_decimal y 4 @ padded_decimal m 2 @ padded_decimal d 2)"
proof -
  have m: "m < 10 ^ 2" and d: "d < 10 ^ 2"
    using assms(2) by (auto simp: ymd_ok_def days_in_month_def split: if_splits)
  have len: "length (padded_decimal y 4) = 4" "length (padded_decimal m 2) = 2" "length (padded_decimal d 2) = 2"
    using assms(1) m d by (simp_all add: padded_length)
  have "parse_decimal (padded_decimal y 4) = Some y" "parse_decimal (padded_decimal m 2) = Some m"
    "parse_decimal (padded_decimal d 2) = Some d"
    using assms(1) m d by (simp_all add: parse_padded uint32_max_def)
  with len assms(2) show ?thesis by (simp add: valid_date_def substr_def)
qed

lemma valid_time_padded:
  assumes "h \<le> 23" and "m \<le> 59" and "s \<le> 59"
  shows "valid_time (padded_decimal h 2 @ padded_decimal m 2 @ padded_decimal s 2)"
proof -
  have len: "length (padded_decimal h 2) = 2" "length (padded_decimal m 2) = 2" "length (padded_decimal s 2) = 2"
    using assms by (simp_all add: padded_length)
  have "parse_decimal (padded_decimal h 2) = Some h" "parse_decimal (padded_decimal m 2) = Some m"
    "parse_decimal (padded_decimal s 2) = Some s"
    using assms by (simp_all add: parse_padded uint32_max_def)
  with len assms show ?thesis by (simp add: valid_time_def substr_def)
qed

lemma valid_timestamp_parts:
  assumes "valid_date d" and "valid_time t" and "length ms = 3" and "parse_decimal ms \<noteq> None"
  shows "valid_token Timestamp (d @ ''T'' @ t @ ''.'' @ ms)"
    and "substr (d @ ''T'' @ t @ ''.'' @ ms) 0 8 = d" and "substr (d @ ''T'' @ t @ ''.'' @ ms) 9 6 = t"
  using assms by (auto simp: valid_date_def valid_time_def substr_def nth_append)

lemma unat_u32_less: "unat (n :: u32) < 2 ^ 32"
  using unsigned_less [of n] by simp

lemma length_padded_seq: "length (padded_decimal (unat (n :: u32)) 5) \<in> {5..10}"
proof -
  have "length (to_string (unat n)) \<le> 10"
    using unat_u32_less [of n] by (intro to_string_length) auto
  then show ?thesis by (auto simp: padded_decimal_def Let_def)
qed

lemma unat_u32_le: "unat (n :: u32) \<le> uint32_max"
  using unat_u32_less [of n] by (simp add: uint32_max_def)

lemma valid_sequence_padded: "valid_token Sequence (padded_decimal (unat (n :: u32)) 5)"
  using length_padded_seq [of n] by (simp add: parse_padded [OF unat_u32_le])

lemma make_token_values_good:
  assumes "make_token_values context = Inr vs"
  shows "good_values vs"
proof -
  define ms where "ms = ctx_now context div 1000000"
  from assms obtain utc where utc: "gmtime (ms div 1000) = Some utc" and y: "0 \<le> tm_year utc" "tm_year utc \<le> 9999"
    by (auto simp: make_token_values_def Let_def ms_def split: option.splits if_splits)
  let ?d = "padded_decimal (nat (tm_year utc)) 4 @ padded_decimal (tm_mon utc) 2 @ padded_decimal (tm_mday utc) 2"
  let ?t = "padded_decimal (tm_hour utc) 2 @ padded_decimal (tm_min utc) 2 @ padded_decimal (tm_sec utc) 2"
  let ?m = "padded_decimal (nat (ms - ms div 1000 * 1000)) 3"
  have vs: "vs = \<lparr>tv_timestamp = ?d @ ''T'' @ ?t @ ''.'' @ ?m, tv_date = ?d, tv_time = ?t,
      tv_sequence = padded_decimal (unat (ctx_seq context)) 5\<rparr>"
    using assms utc y by (simp add: make_token_values_def Let_def ms_def)
  have d: "valid_date ?d"
    using y gmtime_valid [OF utc] by (intro valid_date_padded) (auto simp: ymd_ok_def)
  have t: "valid_time ?t"
    using gmtime_valid [OF utc] by (intro valid_time_padded) auto
  have "nat (ms - ms div 1000 * 1000) < 1000"
    by (simp add: minus_div_mult_eq_mod)
  then have "length ?m = 3" and "parse_decimal ?m \<noteq> None"
    by (simp_all add: padded_length parse_padded uint32_max_def)
  note stamp = valid_timestamp_parts [OF d t this]
  show ?thesis
    unfolding good_values_def
  proof (intro conjI allI)
    fix kind
    show "valid_token kind (token_value kind vs)"
      using d t stamp(1) valid_sequence_padded [of "ctx_seq context"] by (cases kind) (simp_all add: vs)
  qed (use stamp in \<open>simp_all add: vs\<close>)
qed

section \<open>A rendered name matches its pattern\<close>

text \<open>What the matcher has observed so far agrees with the values of one rendering.\<close>

definition agrees :: "token_values \<Rightarrow> match_state \<Rightarrow> bool" where
  "agrees vs st \<longleftrightarrow>
     ms_timestamp st \<in> {None, Some (tv_timestamp vs)} \<and> ms_date st \<in> {None, Some (tv_date vs)} \<and>
     ms_time st \<in> {None, Some (tv_time vs)} \<and> ms_sequence st \<in> {None, Some (tv_sequence vs)}"

lemma accept_token_agrees:
  assumes "good_values vs" and "agrees vs st"
  shows "\<exists>st'. accept_token kind (token_value kind vs) st = Some st' \<and> agrees vs st'"
proof -
  have "valid_token kind (token_value kind vs)"
    using assms(1) by (simp add: good_values_def)
  then show ?thesis
    using assms by (cases kind) (auto simp: agrees_def accept_value_def good_values_def simp del: valid_token.simps)
qed

lemma valid_token_width:
  "valid_token kind v \<Longrightarrow> kind \<noteq> Sequence \<Longrightarrow> length v = fixed_token_width kind"
  by (cases kind) (auto simp: valid_date_def valid_time_def)

text \<open>The two ways a token is matched: trying the widths of a first \<open>{seq}\<close>, or at a known width.\<close>

lemma match_from_first_sequence:
  assumes "token_at (CHR ''{'' # pattern) = Some Sequence" and "ms_sequence st = None"
  shows "match_from (CHR ''{'' # pattern) name st \<longleftrightarrow>
    (\<exists>w\<in>{5..<11}. w \<le> length name \<and> (\<exists>st'. accept_token Sequence (take w name) st = Some st' \<and>
       match_from (drop (length (token_text Sequence)) (CHR ''{'' # pattern)) (drop w name) st'))"
  using assms
  by (simp only: match_from.simps Let_def list_ex_iff set_upt option.case simp_thms if_False if_True)
    (auto split: option.splits)

lemma match_from_known_width:
  assumes "token_at (CHR ''{'' # pattern) = Some kind" and "\<not> (kind = Sequence \<and> ms_sequence st = None)"
  defines "w \<equiv> (if kind = Sequence then length (case ms_sequence st of None \<Rightarrow> [] | Some s \<Rightarrow> s) else fixed_token_width kind)"
  shows "match_from (CHR ''{'' # pattern) name st \<longleftrightarrow>
    w \<le> length name \<and> (\<exists>st'. accept_token kind (take w name) st = Some st' \<and>
       match_from (drop (length (token_text kind)) (CHR ''{'' # pattern)) (drop w name) st')"
  using assms(2)
  by (simp only: match_from.simps assms(1) w_def [symmetric] Let_def option.case simp_thms if_False if_True)
    (auto split: option.splits)

lemma render_matches:
  assumes "good_values vs" and "render_loop vs pattern = Inr name" and "agrees vs st"
  shows "match_from pattern name st"
  using assms
proof (induction vs pattern arbitrary: name st rule: render_loop.induct)
  case (1 vs)
  then show ?case by simp
next
  case (2 vs c pattern)
  show ?case
  proof (cases "c = CHR ''{''")
    case False
    then show ?thesis
      using 2 by (auto simp: render_loop.simps match_from.simps split: if_splits sum.splits)
  next
    case True
    from 2(4) True obtain kind rendered where kind: "token_at (c # pattern) = Some kind"
      and r: "render_loop vs (drop (length (token_text kind)) (c # pattern)) = Inr rendered"
      and name: "name = token_value kind vs @ rendered"
      by (auto simp: render_loop.simps split: option.splits sum.splits if_splits)
    have valid: "valid_token kind (token_value kind vs)"
      using 2(3) by (simp add: good_values_def)
    obtain st' where st': "accept_token kind (token_value kind vs) st = Some st'" "agrees vs st'"
      using accept_token_agrees [OF 2(3,5)] by blast
    have rest: "match_from (drop (length (token_text kind)) (c # pattern)) rendered st'"
      using 2(2) True kind 2(3) r st'(2) by simp
    let ?w = "length (token_value kind vs)"
    have eq: "?w \<le> length name" "take ?w name = token_value kind vs" "drop ?w name = rendered"
      by (simp_all add: name)
    show ?thesis
    proof (cases "kind = Sequence \<and> ms_sequence st = None")
      case seq: True
      then have "?w \<in> {5..<11}"
        using valid by auto
      moreover have "kind = Sequence" and "ms_sequence st = None"
        using seq by auto
      ultimately show ?thesis
        using match_from_first_sequence [of pattern st name] kind eq st'(1) rest unfolding True
        by metis
    next
      case False
      have w: "(if kind = Sequence then length (case ms_sequence st of None \<Rightarrow> [] | Some s \<Rightarrow> s)
          else fixed_token_width kind) = ?w"
        using False valid_token_width [OF valid] 2(5) by (auto simp: agrees_def)
      show ?thesis
        using match_from_known_width [OF kind [unfolded True] False, of name, unfolded w]
          eq st'(1) rest [unfolded True] by (simp only: True) blast
    qed
  qed
qed

section \<open>A rendered name stays inside its directory\<close>

lemma components_append:
  "CHR ''/'' \<notin> set str \<Longrightarrow> components_from acc (str @ path) = components_from (acc @ str) path"
  by (induction str arbitrary: acc) auto

lemma digits_not_separator: "digits_only str \<Longrightarrow> CHR ''/'' \<notin> set str"
  by (auto simp: digits_only_def)

lemma digits_not_dot: "digits_only str \<Longrightarrow> CHR ''.'' \<notin> set str"
  by (auto simp: digits_only_def)

text \<open>What stands for a token neither ends a path component nor consists of dots.\<close>

definition plain_component :: "string \<Rightarrow> bool" where
  "plain_component str \<longleftrightarrow> CHR ''/'' \<notin> set str \<and> (\<exists>c\<in>set str. c \<noteq> CHR ''.'')"

lemma plain_padded: "plain_component (padded_decimal v w)"
proof -
  have "hd (padded_decimal v w) \<in> set (padded_decimal v w)"
    by (simp add: padded_nonempty)
  then show ?thesis
    using digits_not_separator [OF padded_digits] digits_not_dot [OF padded_digits]
    unfolding plain_component_def by metis
qed

lemma plain_append: "plain_component a \<Longrightarrow> CHR ''/'' \<notin> set b \<Longrightarrow> plain_component (a @ b)"
  by (auto simp: plain_component_def)

lemma make_token_values_plain:
  assumes "make_token_values context = Inr vs"
  shows "plain_component (token_value kind vs)"
proof -
  note no_sep = digits_not_separator [OF padded_digits]
  from assms obtain utc where utc: "gmtime (ctx_now context div 1000000 div 1000) = Some utc"
    and y: "\<not> (tm_year utc < 0 \<or> tm_year utc > 9999)"
    by (auto simp: make_token_values_def Let_def split: option.splits if_splits)
  define y mo d h mi se ms where "y = nat (tm_year utc)" and "mo = tm_mon utc" and "d = tm_mday utc"
    and "h = tm_hour utc" and "mi = tm_min utc" and "se = tm_sec utc"
    and "ms = nat (ctx_now context div 1000000 - ctx_now context div 1000000 div 1000 * 1000)"
  note fields = this
  have "vs = \<lparr>tv_timestamp = (padded_decimal y 4 @ padded_decimal mo 2 @ padded_decimal d 2) @ ''T'' @
        (padded_decimal h 2 @ padded_decimal mi 2 @ padded_decimal se 2) @ ''.'' @ padded_decimal ms 3,
      tv_date = padded_decimal y 4 @ padded_decimal mo 2 @ padded_decimal d 2,
      tv_time = padded_decimal h 2 @ padded_decimal mi 2 @ padded_decimal se 2,
      tv_sequence = padded_decimal (unat (ctx_seq context)) 5\<rparr>"
    using assms unfolding make_token_values_def utc Let_def option.case if_not_P [OF y] fields [symmetric]
    by (simp only: sum.inject)
  then show ?thesis
    by (cases kind) (simp_all add: no_sep plain_padded plain_append)
qed

lemma starts_with_split: "starts_with t str \<Longrightarrow> str = t @ drop (length t) str"
  by (metis append_take_drop_id starts_with_def)

lemma token_at_starts: "token_at pattern = Some kind \<Longrightarrow> starts_with (token_text kind) pattern"
  unfolding token_at_def by (metis option.distinct(1) option.inject)

lemmas token_at_split = token_at_starts [THEN starts_with_split]

lemma token_text_no_separator: "CHR ''/'' \<notin> set (token_text kind)"
  by (cases kind) auto

lemma render_no_parent:
  assumes "render_loop vs pattern = Inr name" and "\<And>kind. plain_component (token_value kind vs)"
    and "acc' = acc \<or> (\<exists>c\<in>set acc'. c \<noteq> CHR ''.'')" and "''..'' \<notin> set (components_from acc pattern)"
  shows "''..'' \<notin> set (components_from acc' name)"
  using assms
proof (induction vs pattern arbitrary: name acc acc' rule: render_loop.induct)
  case (1 vs)
  then show ?case by auto
next
  case (2 vs c pattern)
  show ?case
  proof (cases "c = CHR ''{''")
    case False
    with 2(3) obtain rest where r: "render_loop vs pattern = Inr rest" and name: "name = c # rest" and "c \<noteq> CHR ''}''"
      by (auto simp: render_loop.simps split: if_splits sum.splits)
    note IH = 2(1) [OF False this(3) r 2(4)]
    show ?thesis
      using IH [of "[]" "[]"] IH [of "acc' @ [c]" "acc @ [c]"] 2(5,6) by (auto simp: name split: if_splits)
  next
    case True
    from 2(3) True obtain kind rest where kind: "token_at (c # pattern) = Some kind"
      and r: "render_loop vs (drop (length (token_text kind)) (c # pattern)) = Inr rest"
      and name: "name = token_value kind vs @ rest"
      by (auto simp: render_loop.simps split: option.splits sum.splits if_splits)
    have v: "plain_component (token_value kind vs)" by (rule 2(4))
    have "components_from acc (c # pattern) =
        components_from (acc @ token_text kind) (drop (length (token_text kind)) (c # pattern))"
      by (subst token_at_split [OF kind]) (simp only: components_append [OF token_text_no_separator])
    then have "''..'' \<notin> set (components_from (acc' @ token_value kind vs) rest)"
      using 2(2) [OF _ kind r 2(4), of "acc' @ token_value kind vs" "acc @ token_text kind"] True v 2(6)
      by (auto simp: plain_component_def)
    then show ?thesis
      using v by (simp add: name components_append plain_component_def)
  qed
qed

lemma components_png: "''..'' \<in> set (components_from acc (path @ ''.png'')) \<Longrightarrow> ''..'' \<in> set (components_from acc path)"
  by (induction acc path rule: components_from.induct) (auto split: if_splits)

lemma render_relative:
  assumes "render_loop vs pattern = Inr name" and "\<And>kind. plain_component (token_value kind vs)"
    and "pattern \<noteq> [] \<Longrightarrow> hd pattern \<noteq> CHR ''/''"
  shows "name \<noteq> [] \<Longrightarrow> hd name \<noteq> CHR ''/''"
proof (cases pattern)
  case (Cons c rest)
  assume "name \<noteq> []"
  have "token_value kind vs \<noteq> [] \<and> hd (token_value kind vs) \<noteq> CHR ''/''" for kind
    using assms(2) [of kind] by (cases "token_value kind vs") (auto simp: plain_component_def)
  then show ?thesis
    using assms(1,3) Cons by (auto simp: render_loop.simps split: if_splits option.splits sum.splits)
qed (use assms(1) in simp)

lemma validate_relative_path_iff:
  "validate_relative_path v = Inr () \<longleftrightarrow> (v \<noteq> [] \<longrightarrow> hd v \<noteq> CHR ''/'') \<and> ''..'' \<notin> set (components_from [] v)"
  by (simp add: validate_relative_path_def path_components_def)

lemma render_validated:
  assumes "validate_relative_path pattern = Inr ()" and "make_token_values context = Inr vs"
    and "render_loop vs (effective_pattern pattern) = Inr name"
  shows "validate_relative_path name = Inr ()"
proof -
  have "''..'' \<notin> set (components_from [] (effective_pattern pattern))"
    using assms(1) components_png by (auto simp: validate_relative_path_iff effective_pattern_def)
  moreover have "effective_pattern pattern \<noteq> [] \<Longrightarrow> hd (effective_pattern pattern) \<noteq> CHR ''/''"
    using assms(1) by (cases pattern) (auto simp: validate_relative_path_iff effective_pattern_def)
  ultimately show ?thesis
    using render_no_parent [OF assms(3) make_token_values_plain [OF assms(2)], of "[]" "[]"]
      render_relative [OF assms(3) make_token_values_plain [OF assms(2)]]
    by (simp add: validate_relative_path_iff)
qed

text \<open>
  C32. A name that \<open>render_filename\<close> produces is matched by \<open>matches_pattern\<close> for the same pattern,
  whatever the capture time and the sequence number: the rotation ledger recognises every file the
  watch writes. The name is also a relative path with no \<open>..\<close> component.\<close>

theorem rendered_name_matches:
  assumes "render_filename pattern context = Inr name"
  shows "matches_pattern pattern name \<and> validate_relative_path name = Inr ()"
proof -
  obtain vs where v: "validate_relative_path pattern = Inr ()" and vs: "make_token_values context = Inr vs"
    and r: "render_loop vs (effective_pattern pattern) = Inr name"
    using assms by (auto simp: render_filename_def split: sum.splits)
  have "match_from (effective_pattern pattern) name empty_match_state"
    using render_matches [OF make_token_values_good [OF vs] r] by (simp add: agrees_def empty_match_state_def)
  then show ?thesis
    using v render_validated [OF v vs r] by (simp add: matches_pattern_def)
qed

theorem rendered_name_matches_witness:
  "render_filename ''a/{date}-{seq}'' \<lparr>ctx_now = 86400000000000, ctx_seq = 7\<rparr> = Inr ''a/19700102-00007.png'' \<and>
   matches_pattern ''a/{date}-{seq}'' ''a/19700102-00007.png''"
proof -
  have "render_filename ''a/{date}-{seq}'' \<lparr>ctx_now = 86400000000000, ctx_seq = 7\<rparr> = Inr ''a/19700102-00007.png''"
    by code_simp
  then show ?thesis
    using rendered_name_matches by blast
qed

section \<open>A matched name is an instance of its pattern\<close>

definition observed_ok :: "match_state \<Rightarrow> bool" where
  "observed_ok st \<longleftrightarrow>
     (\<forall>v. ms_timestamp st = Some v \<longrightarrow> valid_token Timestamp v \<and>
        ms_date st = Some (substr v 0 8) \<and> ms_time st = Some (substr v 9 6)) \<and>
     (\<forall>v. ms_date st = Some v \<longrightarrow> valid_date v) \<and> (\<forall>v. ms_time st = Some v \<longrightarrow> valid_time v) \<and>
     (\<forall>v. ms_sequence st = Some v \<longrightarrow> valid_token Sequence v)"

lemma observed_ok_empty: "observed_ok empty_match_state"
  by (simp add: observed_ok_def empty_match_state_def)

lemma accept_value_iff: "accept_value ob v = Some r \<longleftrightarrow> ob \<in> {None, Some v} \<and> r = Some v"
  by (auto simp: accept_value_def)

lemma accept_token_iff:
  "accept_token Timestamp v st = Some st' \<longleftrightarrow> valid_token Timestamp v \<and> ms_timestamp st \<in> {None, Some v} \<and>
     ms_date st \<in> {None, Some (substr v 0 8)} \<and> ms_time st \<in> {None, Some (substr v 9 6)} \<and>
     st' = st\<lparr>ms_timestamp := Some v, ms_date := Some (substr v 0 8), ms_time := Some (substr v 9 6)\<rparr>"
  "accept_token Date v st = Some st' \<longleftrightarrow> valid_token Date v \<and> ms_date st \<in> {None, Some v} \<and> st' = st\<lparr>ms_date := Some v\<rparr>"
  "accept_token Time v st = Some st' \<longleftrightarrow> valid_token Time v \<and> ms_time st \<in> {None, Some v} \<and> st' = st\<lparr>ms_time := Some v\<rparr>"
  "accept_token Sequence v st = Some st' \<longleftrightarrow>
     valid_token Sequence v \<and> ms_sequence st \<in> {None, Some v} \<and> st' = st\<lparr>ms_sequence := Some v\<rparr>"
  by (auto simp: accept_value_def simp del: valid_token.simps)

lemma timestamp_parts_valid: "valid_token Timestamp v \<Longrightarrow> valid_date (substr v 0 8) \<and> valid_time (substr v 9 6)"
  by simp

lemma accept_token_ok: "accept_token kind v st = Some st' \<Longrightarrow> observed_ok st \<Longrightarrow> observed_ok st'"
  using timestamp_parts_valid [of v]
  by (cases kind) (auto simp: observed_ok_def accept_token_iff simp del: accept_token.simps valid_token.simps(1,4))

lemma accept_token_backwards:
  assumes "accept_token kind v st = Some st'" and "agrees vs st'"
  shows "agrees vs st \<and> token_value kind vs = v"
  using assms by (cases kind) (auto simp: agrees_def accept_token_iff simp del: accept_token.simps valid_token.simps)

lemmas number_simps = parse_decimal_def uint32_max_def Let_def substr_def

text \<open>Values for the tokens a pattern does not have.\<close>

definition default_date :: string where
  "default_date = padded_decimal 1970 4 @ padded_decimal 1 2 @ padded_decimal 1 2"

definition default_time :: string where
  "default_time = padded_decimal 0 2 @ padded_decimal 0 2 @ padded_decimal 0 2"

lemma default_values_valid:
  "valid_date default_date" "valid_time default_time" "valid_token Sequence (padded_decimal 0 5)"
  unfolding default_date_def default_time_def using valid_sequence_padded [of 0]
  by (auto intro!: valid_date_padded valid_time_padded simp: ymd_ok_def days_in_month_def simp del: valid_token.simps)

lemma observed_extends:
  assumes "observed_ok st"
  shows "\<exists>vs. good_values vs \<and> agrees vs st"
proof -
  define d where "d = (case ms_date st of None \<Rightarrow> default_date | Some d \<Rightarrow> d)"
  define t where "t = (case ms_time st of None \<Rightarrow> default_time | Some t \<Rightarrow> t)"
  define s where "s = (case ms_sequence st of None \<Rightarrow> padded_decimal 0 5 | Some s \<Rightarrow> s)"
  define ts where "ts = (case ms_timestamp st of None \<Rightarrow> d @ ''T'' @ t @ ''.'' @ ''000'' | Some ts \<Rightarrow> ts)"
  define vs where "vs = \<lparr>tv_timestamp = ts, tv_date = d, tv_time = t, tv_sequence = s\<rparr>"
  have dt: "valid_date d" "valid_time t" and seq: "valid_token Sequence s"
    using assms default_values_valid
    by (auto simp: d_def t_def s_def observed_ok_def simp del: valid_token.simps split: option.splits)
  have "length ''000'' = 3" "parse_decimal ''000'' \<noteq> None"
    by (simp_all add: number_simps)
  note fresh = valid_timestamp_parts [OF dt this]
  have "valid_token Timestamp ts \<and> substr ts 0 8 = d \<and> substr ts 9 6 = t"
    using assms fresh unfolding ts_def observed_ok_def
    by (cases "ms_timestamp st") (auto simp: d_def t_def simp del: valid_token.simps)
  then have "good_values vs"
    unfolding good_values_def vs_def using dt seq
    by (auto simp del: valid_token.simps(1,4)) (rename_tac kind, case_tac kind, simp_all del: valid_token.simps(1,4))
  moreover have "agrees vs st"
    by (auto simp: agrees_def vs_def d_def t_def s_def ts_def split: option.splits)
  ultimately show ?thesis by blast
qed

lemma match_from_token:
  assumes "match_from (CHR ''{'' # pattern) name st"
  obtains kind w st' where "token_at (CHR ''{'' # pattern) = Some kind" and "w \<le> length name"
    and "accept_token kind (take w name) st = Some st'"
    and "match_from (drop (length (token_text kind)) (CHR ''{'' # pattern)) (drop w name) st'"
proof (cases "token_at (CHR ''{'' # pattern)")
  case None
  with assms show ?thesis by (simp add: match_from.simps)
next
  case (Some kind)
  show ?thesis
  proof (cases "kind = Sequence \<and> ms_sequence st = None")
    case True
    then show ?thesis
      using assms Some match_from_first_sequence [of pattern st name] that by blast
  next
    case False
    show ?thesis
      using assms that Some unfolding match_from_known_width [OF Some False] by blast
  qed
qed

lemma match_from_renders:
  assumes "match_from pattern name st" and "observed_ok st"
  shows "\<exists>vs. good_values vs \<and> agrees vs st \<and> render_loop vs pattern = Inr name"
  using assms
proof (induction "length pattern" arbitrary: pattern name st rule: less_induct)
  case less
  show ?case
  proof (cases pattern)
    case Nil
    then show ?thesis using less(2) observed_extends [OF less(3)] by auto
  next
    case (Cons c rest)
    show ?thesis
    proof (cases "c = CHR ''{''")
      case False
      with less(2) Cons obtain name' where "name = c # name'" "c \<noteq> CHR ''}''" "match_from rest name' st"
        by (cases name) (auto simp: match_from.simps split: if_splits)
      then show ?thesis
        using less(1) [of rest name' st] less(3) Cons False by (auto simp: render_loop.simps)
    next
      case True
      obtain kind w st' where k: "token_at pattern = Some kind"
        and acc: "accept_token kind (take w name) st = Some st'"
        and m: "match_from (drop (length (token_text kind)) pattern) (drop w name) st'"
        using match_from_token less(2) unfolding Cons True by blast
      have "length (drop (length (token_text kind)) pattern) < length pattern"
        using token_shrinks Cons by simp
      then obtain vs where vs: "good_values vs" "agrees vs st'"
        "render_loop vs (drop (length (token_text kind)) pattern) = Inr (drop w name)"
        using less(1) m accept_token_ok [OF acc less(3)] by blast
      have "agrees vs st" and v: "token_value kind vs = take w name"
        using accept_token_backwards [OF acc vs(2)] by auto
      moreover have "render_loop vs pattern = Inr name"
        using k vs(3) unfolding Cons True by (simp add: render_loop.simps v)
      ultimately show ?thesis using vs(1) by blast
    qed
  qed
qed

text \<open>
  C33. \<open>matches_pattern\<close> never claims a file the pattern cannot produce: a name it accepts is the
  rendering of the pattern with token values that are all well formed (a real calendar date, a real
  time of day, a 32-bit sequence number in its canonical padding) and that agree with each other when
  a token occurs twice or a timestamp stands beside a date or a time; both texts are relative paths
  with no \<open>..\<close> component.\<close>

theorem matched_name_is_rendering:
  assumes "matches_pattern pattern name"
  shows "validate_relative_path pattern = Inr () \<and> validate_relative_path name = Inr () \<and>
    (\<exists>vs. good_values vs \<and> render_loop vs (effective_pattern pattern) = Inr name)"
proof -
  have v: "validate_relative_path pattern = Inr ()" "validate_relative_path name = Inr ()"
    and m: "match_from (effective_pattern pattern) name empty_match_state"
    using assms by (auto simp: matches_pattern_def split: sum.splits)
  from match_from_renders [OF m observed_ok_empty] v show ?thesis by blast
qed

theorem matched_name_is_rendering_witness:
  "matches_pattern ''{date}_{date}'' ''20240229_20240229.png'' \<and>
   (\<exists>vs. good_values vs \<and> render_loop vs (effective_pattern ''{date}_{date}'') = Inr ''20240229_20240229.png'')"
proof -
  have "valid_date ''20240229''"
    by (simp add: valid_date_def number_simps ymd_ok_def days_in_month_def leap_year_def)
  then have "matches_pattern ''{date}_{date}'' ''20240229_20240229.png''"
    by (simp add: matches_pattern_def validate_relative_path_def path_components_def effective_pattern_def
        match_from.simps token_at_def starts_with_def accept_value_def empty_match_state_def)
  then show ?thesis
    using matched_name_is_rendering by blast
qed

end
