(* ===== verification/Paths.thy ===== *)
theory Paths
  imports Prelude
begin

text \<open>
  The lexical operations of \<open>std::filesystem::path\<close> (POSIX) that the sources use. A path is the sequence
  of its elements, as iteration gives them: the root directory \<open>/\<close> first where there is one, then the file
  names, and an empty last element where the text ends in a separator. Shown: what
  \<open>lexically_relative\<close> returns for a descendant, so that joining it to the directory gives the path back.
\<close>

type_synonym path = "string list"

definition is_absolute :: "path \<Rightarrow> bool" where
  "is_absolute p \<longleftrightarrow> p \<noteq> [] \<and> hd p = ''/''"

text \<open>The elements of a text.\<close>

fun split_names :: "string \<Rightarrow> string \<Rightarrow> string list" where
  "split_names name [] = (if name = [] then [] else [name])"
| "split_names name (c # str) =
     (if c \<noteq> CHR ''/'' then split_names (name @ [c]) str
      else (if name = [] then [] else [name]) @ split_names [] str)"

definition path_of :: "string \<Rightarrow> path" where
  "path_of str =
     (let names = split_names [] str
      in (if str \<noteq> [] \<and> hd str = CHR ''/'' then [''/''] else []) @ names @
         (if names \<noteq> [] \<and> last str = CHR ''/'' then [[]] else []))"

fun join_names :: "string list \<Rightarrow> string" where
  "join_names [] = []"
| "join_names [n] = n"
| "join_names (n # ns) = n @ ''/'' @ join_names ns"

definition generic_string :: "path \<Rightarrow> string" where
  "generic_string p = (if is_absolute p then ''/'' @ join_names (tl p) else join_names p)"

text \<open>\<open>operator/\<close>: an absolute right side replaces the left one; an empty one adds a separator.\<close>

definition path_append :: "path \<Rightarrow> path \<Rightarrow> path" where
  "path_append p q =
     (if is_absolute q then q
      else if p = [] \<or> p = [''/''] then p @ q
      else if last p = [] then (if q = [] then p else butlast p @ q)
      else if q = [] then p @ [[]] else p @ q)"

definition parent_path :: "path \<Rightarrow> path" where
  "parent_path p = (if p = [''/''] then p else butlast p)"

text \<open>\<open>lexically_normal\<close>: the names kept so far, and whether a separator follows the last one.\<close>

fun normal_names :: "bool \<Rightarrow> string list \<Rightarrow> bool \<Rightarrow> string list \<Rightarrow> string list \<times> bool" where
  "normal_names rooted names sep [] = (names, sep)"
| "normal_names rooted names sep (e # es) =
     (if e = [] \<or> e = ''.'' then normal_names rooted names True es
      else if e = ''..'' then
        (if names \<noteq> [] \<and> last names \<noteq> ''..'' then normal_names rooted (butlast names) True es
         else if names = [] \<and> rooted then normal_names rooted names sep es
         else normal_names rooted (names @ [e]) False es)
      else normal_names rooted (names @ [e]) False es)"

definition lexically_normal :: "path \<Rightarrow> path" where
  "lexically_normal p =
     (let rooted = is_absolute p;
          (names, sep) = normal_names rooted [] False (if rooted then tl p else p);
          r = (if rooted then [''/''] else []) @ names @ (if sep \<and> names \<noteq> [] \<and> last names \<noteq> ''..'' then [[]] else [])
      in if p = [] then [] else if r = [] then [''.''] else r)"

fun mismatch :: "'a list \<Rightarrow> 'a list \<Rightarrow> 'a list \<times> 'a list" where
  "mismatch (a # as) (b # bs) = (if a = b then mismatch as bs else (a # as, b # bs))"
| "mismatch as bs = (as, bs)"

definition levels_up :: "path \<Rightarrow> int" where
  "levels_up b = int (length (filter (\<lambda>e. e \<noteq> [] \<and> e \<noteq> ''.'' \<and> e \<noteq> ''..'') b)) - int (length (filter (\<lambda>e. e = ''..'') b))"

definition lexically_relative :: "path \<Rightarrow> path \<Rightarrow> path" where
  "lexically_relative p base =
     (if is_absolute p \<noteq> is_absolute base then []
      else let (a, b) = mismatch p base
           in if a = [] \<and> b = [] then [''.'']
              else if levels_up b = 0 \<and> (a = [] \<or> hd a = []) then [''.'']
              else if levels_up b < 0 then []
              else replicate (nat (levels_up b)) ''..'' @ a)"

section \<open>Relative paths of descendants\<close>

lemma mismatch_prefix: "mismatch as bs = (a, b) \<Longrightarrow> \<exists>pre. as = pre @ a \<and> bs = pre @ b"
  by (induction as bs rule: mismatch.induct) (auto split: if_splits intro: exI [of _ "_ # _"])

lemma lexically_relative_below:
  assumes "lexically_relative p dir = r" and "r \<noteq> []" and "r \<noteq> [''.'']" and "''..'' \<notin> set r" and "''..'' \<notin> set dir"
  shows "\<exists>pre b. dir = pre @ b \<and> set b \<subseteq> {[], ''.''} \<and> p = pre @ r"
proof -
  obtain a b where m: "mismatch p dir = (a, b)" by force
  then obtain pre where pre: "p = pre @ a" "dir = pre @ b" using mismatch_prefix by blast
  have cond: "is_absolute p = is_absolute dir" "\<not> levels_up b < 0" "r = replicate (nat (levels_up b)) ''..'' @ a"
    using assms(1-3) by (auto simp: lexically_relative_def m Let_def split: if_splits)
  have "nat (levels_up b) = 0" using cond(3) assms(4) by (cases "nat (levels_up b)") auto
  then have zero: "levels_up b = 0" and r: "r = a" using cond(2,3) by auto
  have "filter (\<lambda>e. e = ''..'') b = []" using assms(5) pre(2) by (auto simp: filter_empty_conv)
  with zero have "filter (\<lambda>e. e \<noteq> [] \<and> e \<noteq> ''.'' \<and> e \<noteq> ''..'') b = []"
    by (simp add: levels_up_def)
  then have "set b \<subseteq> {[], ''.''}"
    using assms(5) pre(2) by (auto simp: filter_empty_conv)
  with pre r show ?thesis by blast
qed

end
