(* ===== verification/Rotation_Ledger.thy ===== *)
theory Rotation_Ledger
  imports Filename_Pattern Paths "HOL-Library.Char_ord" "HOL-Library.List_Lexorder"
begin

text \<open>
  \<open>src/config/rotation.cpp\<close>: the ledger of the files a watch has written, which it prunes by count and
  age and whose total size pauses the watch. The file system is an argument: a record of the calls the
  ledger makes on an arbitrary state \<open>'w\<close>, so that other processes may change anything between two calls;
  a directory iteration is the list of entries it produces, with the error that ends it. Sizes are
  64-bit words, file times counts of nanoseconds. \<open>age_cutoff\<close> compares durations exactly where the source
  compares them as \<open>double\<close>. The loop of \<open>enforce_max_files\<close> need not end when another process keeps
  rewriting the oldest file, so it is a partial function.
  \<open>scan\<close> takes the whole listing of a directory before it inspects the first entry, where the source reads the next
  entry after each inspection; the listing is any list, so that it makes no difference which entries it has. Shown: the ledger only ever
  removes regular descendants of its directory that match its pattern, unless the directory is a relative one with \<open>..\<close>; on a
  file system nobody else changes adopting ends with at most the permitted number of files or with a failed removal; the total is the
  saturated sum; pausing has the intended hysteresis.
\<close>

section \<open>The file system\<close>

datatype fs_error = Missing | OtherFsError string

datatype file_type = RegularFile | Directory | OtherType

record 'w file_system =
  fs_symlink_status :: "path \<Rightarrow> 'w \<Rightarrow> (fs_error + file_type) \<times> 'w"
  fs_file_size :: "path \<Rightarrow> 'w \<Rightarrow> (fs_error + u64) \<times> 'w"
  fs_last_write_time :: "path \<Rightarrow> 'w \<Rightarrow> (fs_error + int) \<times> 'w"
  fs_remove :: "path \<Rightarrow> 'w \<Rightarrow> (fs_error + bool) \<times> 'w"
  fs_walk :: "path \<Rightarrow> bool \<Rightarrow> 'w \<Rightarrow> (fs_error + path list \<times> fs_error option) \<times> 'w"

fun fs_message :: "fs_error \<Rightarrow> string" where
  "fs_message Missing = ''No such file or directory''"
| "fs_message (OtherFsError m) = m"

definition filesystem_failure :: "string \<Rightarrow> path \<Rightarrow> fs_error \<Rightarrow> error" where
  "filesystem_failure operation p e =
     fail InternalFault (''rotation '' @ operation @ '': '' @ generic_string p @ '': '' @ fs_message e)"

definition is_missing :: "fs_error \<Rightarrow> bool" where
  "is_missing e \<longleftrightarrow> e = Missing"

section \<open>Limits\<close>

record watch_limits =
  max_files :: u64
  max_age_days :: u32
  max_disk_mib :: u64

definition disk_cap_bytes :: "watch_limits \<Rightarrow> u64" where
  "disk_cap_bytes limits =
     (if max_disk_mib limits = 0 then 0
      else if max_disk_mib limits > (- 1) div (1024 * 1024) then - 1
      else max_disk_mib limits * (1024 * 1024))"

definition resume_threshold :: "u64 \<Rightarrow> u64" where
  "resume_threshold cap =
     (let whole = cap div 10 * 9;
          remainder = cap mod 10 * 9;
          rounded_remainder = (remainder + (10 - 1)) div 10
      in whole + rounded_remainder)"

section \<open>Descendants of the output directory\<close>

definition relative_descendant :: "path \<Rightarrow> path \<Rightarrow> path option" where
  "relative_descendant directory p =
     (let relative = lexically_relative p directory
      in if relative = [] \<or> is_absolute relative \<or> generic_string relative = ''.'' then None
         else if ''..'' \<in> set relative then None
         else Some relative)"

fun ancestors_safe :: "'w file_system \<Rightarrow> path \<Rightarrow> string list \<Rightarrow> 'w \<Rightarrow> (error + bool) \<times> 'w" where
  "ancestors_safe fs ancestor [] w = (Inr True, w)"
| "ancestors_safe fs ancestor (component # components) w =
     (let ancestor = path_append ancestor [component]
      in case fs_symlink_status fs ancestor w of
           (Inl e, w) \<Rightarrow>
             if is_missing e then (Inr False, w) else (Inl (filesystem_failure ''inspect ancestor'' ancestor e), w)
         | (Inr status, w) \<Rightarrow>
             if status \<noteq> Directory then (Inr False, w) else ancestors_safe fs ancestor components w)"

definition safe_directory_chain :: "'w file_system \<Rightarrow> path \<Rightarrow> path \<Rightarrow> 'w \<Rightarrow> (error + bool) \<times> 'w" where
  "safe_directory_chain fs output_directory candidate_directory w =
     (if candidate_directory = output_directory then (Inr True, w)
      else case relative_descendant output_directory candidate_directory of
             None \<Rightarrow> (Inr False, w)
           | Some relative \<Rightarrow> ancestors_safe fs output_directory relative w)"

record scan_scope =
  scope_root :: path
  scope_recursive :: bool

definition root_within :: "path \<Rightarrow> path \<Rightarrow> path" where
  "root_within dir root = (if root \<noteq> dir \<and> relative_descendant dir root = None then dir else root)"

definition scan_scope :: "path \<Rightarrow> string \<Rightarrow> scan_scope" where
  "scan_scope dir pattern =
     (let pattern_parent = parent_path (path_of pattern);
          parent_text = generic_string pattern_parent
      in if CHR ''{'' \<notin> set parent_text
         then \<lparr>scope_root = root_within dir (lexically_normal (path_append dir pattern_parent)), scope_recursive = False\<rparr>
         else let literal_prefix = path_of (takeWhile (\<lambda>c. c \<noteq> CHR ''{'') parent_text)
              in \<lparr>scope_root = root_within dir (lexically_normal (path_append dir (parent_path literal_prefix))),
                  scope_recursive = True\<rparr>)"

text \<open>File times count from 2174-01-01, 6437664000 seconds after the system clock's epoch.\<close>

definition file_time_min :: int where
  "file_time_min = - (2 ^ 63)"

definition from_sys :: "int \<Rightarrow> int" where
  "from_sys now = now - 6437664000 * 1000000000"

definition age_cutoff :: "int \<Rightarrow> u32 \<Rightarrow> int" where
  "age_cutoff now days =
     (let file_now = from_sys now;
          age = uint days * 86400 * 1000000000
      in if age \<ge> file_now - file_time_min then file_time_min else file_now - age)"

section \<open>The ledger\<close>

record ledger_file =
  lf_path :: path
  lf_modified_at :: int
  lf_size :: u64

record rotation_ledger =
  led_dir :: path
  led_pattern :: string
  led_limits :: watch_limits
  led_files :: "ledger_file list"
  led_total :: u64
  led_paused :: bool

datatype remove_state = Removed | DroppedEntry | Refreshed

definition new_ledger :: "path \<Rightarrow> string \<Rightarrow> watch_limits \<Rightarrow> rotation_ledger" where
  "new_ledger dir pattern limits =
     \<lparr>led_dir = lexically_normal dir, led_pattern = pattern, led_limits = limits, led_files = [], led_total = 0, led_paused = False\<rparr>"

text \<open>What a failed call means: a file that is gone is no file, anything else is reported.\<close>

definition on_fs_error :: "string \<Rightarrow> path \<Rightarrow> fs_error \<Rightarrow> error + ledger_file option" where
  "on_fs_error operation file e = (if is_missing e then Inr None else Inl (filesystem_failure operation file e))"

definition inspect_regular_file :: "'w file_system \<Rightarrow> path \<Rightarrow> path \<Rightarrow> 'w \<Rightarrow> (error + ledger_file option) \<times> 'w" where
  "inspect_regular_file fs dir file w =
     (case relative_descendant dir file of None \<Rightarrow> (Inr None, w) | Some _ \<Rightarrow>
      case safe_directory_chain fs dir (parent_path file) w of
        (Inl e, w) \<Rightarrow> (Inl e, w)
      | (Inr safe, w) \<Rightarrow>
          if \<not> safe then (Inr None, w)
          else case fs_symlink_status fs file w of
            (Inl e, w) \<Rightarrow> (on_fs_error ''inspect'' file e, w)
          | (Inr status, w) \<Rightarrow>
              if status \<noteq> RegularFile then (Inr None, w)
              else case fs_file_size fs file w of
                (Inl e, w) \<Rightarrow> (on_fs_error ''stat size'' file e, w)
              | (Inr bytes, w) \<Rightarrow>
                  (case fs_last_write_time fs file w of
                     (Inl e, w) \<Rightarrow> (on_fs_error ''stat mtime'' file e, w)
                   | (Inr modified_at, w) \<Rightarrow>
                       (case fs_symlink_status fs file w of
                          (Inl e, w) \<Rightarrow> (on_fs_error ''recheck'' file e, w)
                        | (Inr final_status, w) \<Rightarrow>
                            if final_status \<noteq> RegularFile then (Inr None, w)
                            else (Inr (Some \<lparr>lf_path = file, lf_modified_at = modified_at, lf_size = bytes\<rparr>), w))))"

fun total_from :: "u64 \<Rightarrow> ledger_file list \<Rightarrow> u64" where
  "total_from tot [] = tot"
| "total_from tot (file # files) =
     (if lf_size file > - 1 - tot then - 1 else total_from (tot + lf_size file) files)"

definition recalculate_total :: "rotation_ledger \<Rightarrow> rotation_ledger" where
  "recalculate_total l = l\<lparr>led_total := total_from 0 (led_files l)\<rparr>"

definition update_pause_state :: "rotation_ledger \<Rightarrow> rotation_ledger" where
  "update_pause_state l =
     (let cap = disk_cap_bytes (led_limits l)
      in if cap = 0 then l\<lparr>led_paused := False\<rparr>
         else if \<not> led_paused l then l\<lparr>led_paused := led_total l \<ge> cap\<rparr>
         else l\<lparr>led_paused := led_total l \<ge> resume_threshold cap\<rparr>)"

definition with_files :: "ledger_file list \<Rightarrow> rotation_ledger \<Rightarrow> rotation_ledger" where
  "with_files files l = update_pause_state (recalculate_total (l\<lparr>led_files := files\<rparr>))"

definition owned :: "rotation_ledger \<Rightarrow> path \<Rightarrow> bool" where
  "owned l p = (case relative_descendant (led_dir l) p of None \<Rightarrow> False
                | Some relative \<Rightarrow> matches_pattern (led_pattern l) (generic_string relative))"

text \<open>Inspect each of a list of paths that the pattern claims, collecting what is a regular file.\<close>

fun inspect_all :: "'w file_system \<Rightarrow> rotation_ledger \<Rightarrow> path list \<Rightarrow> ledger_file list \<Rightarrow> 'w \<Rightarrow> (error + ledger_file list) \<times> 'w" where
  "inspect_all fs l [] found w = (Inr found, w)"
| "inspect_all fs l (file # files) found w =
     (if \<not> owned l file then inspect_all fs l files found w
      else case inspect_regular_file fs (led_dir l) file w of
             (Inl e, w) \<Rightarrow> (Inl e, w)
           | (Inr inspected, w) \<Rightarrow>
               inspect_all fs l files (case inspected of None \<Rightarrow> found | Some f \<Rightarrow> found @ [f]) w)"

definition scan :: "'w file_system \<Rightarrow> rotation_ledger \<Rightarrow> 'w \<Rightarrow> (error + unit) \<times> rotation_ledger \<times> 'w" where
  "scan fs l w =
     (let scope = scan_scope (led_dir l) (led_pattern l); root = scope_root scope
      in case safe_directory_chain fs (led_dir l) root w of
           (Inl e, w) \<Rightarrow> (Inl e, l, w)
         | (Inr safe_root, w) \<Rightarrow>
             if \<not> safe_root then (Inr (), with_files [] l, w)
             else case fs_symlink_status fs root w of
               (Inl e, w) \<Rightarrow>
                 if is_missing e then (Inr (), with_files [] l, w) else (Inl (filesystem_failure ''scan'' root e), l, w)
             | (Inr status, w) \<Rightarrow>
                 if status \<noteq> Directory then (Inr (), with_files [] l, w)
                 else case fs_walk fs root (scope_recursive scope) w of
                   (Inl e, w) \<Rightarrow> (Inl (filesystem_failure ''scan'' root e), l, w)
                 | (Inr (entries, final), w) \<Rightarrow>
                     (case inspect_all fs l (map lexically_normal entries) [] w of
                        (Inl e, w) \<Rightarrow> (Inl e, l, w)
                      | (Inr adopted, w) \<Rightarrow>
                          (case final of
                             Some e \<Rightarrow> (Inl (filesystem_failure ''scan'' root e), l, w)
                           | None \<Rightarrow> (Inr (), with_files adopted l, w))))"

definition reconcile :: "'w file_system \<Rightarrow> rotation_ledger \<Rightarrow> 'w \<Rightarrow> (error + unit) \<times> rotation_ledger \<times> 'w" where
  "reconcile fs l w =
     (case inspect_all fs l (map lf_path (led_files l)) [] w of
        (Inl e, w) \<Rightarrow> (Inl e, l, w)
      | (Inr refreshed, w) \<Rightarrow> (Inr (), with_files refreshed l, w))"

definition erase_index :: "nat \<Rightarrow> 'a list \<Rightarrow> 'a list" where
  "erase_index i xs = take i xs @ drop (Suc i) xs"

definition remove_file :: "'w file_system \<Rightarrow> nat \<Rightarrow> rotation_ledger \<Rightarrow> 'w \<Rightarrow> (error + remove_state) \<times> rotation_ledger \<times> 'w" where
  "remove_file fs index l w =
     (let recorded = led_files l ! index
      in case inspect_regular_file fs (led_dir l) (lf_path recorded) w of
           (Inl e, w) \<Rightarrow> (Inl e, l, w)
         | (Inr None, w) \<Rightarrow> (Inr DroppedEntry, with_files (erase_index index (led_files l)) l, w)
         | (Inr (Some current), w) \<Rightarrow>
             if lf_modified_at current \<noteq> lf_modified_at recorded \<or> lf_size current \<noteq> lf_size recorded
             then (Inr Refreshed, with_files ((led_files l)[index := current]) l, w)
             else case fs_remove fs (lf_path recorded) w of
               (Inl e, w) \<Rightarrow> (Inl (filesystem_failure ''remove'' (lf_path recorded) e), l, w)
             | (Inr removed, w) \<Rightarrow>
                 (Inr (if removed then Removed else DroppedEntry), with_files (erase_index index (led_files l)) l, w))"

definition older :: "ledger_file \<Rightarrow> ledger_file \<Rightarrow> bool" where
  "older left right =
     (if lf_modified_at left \<noteq> lf_modified_at right then lf_modified_at left < lf_modified_at right
      else generic_string (lf_path left) < generic_string (lf_path right))"

text \<open>\<open>std::ranges::min_element\<close>: the first entry no other one is less than.\<close>

fun min_element_from :: "nat \<Rightarrow> ledger_file \<Rightarrow> nat \<Rightarrow> ledger_file list \<Rightarrow> nat" where
  "min_element_from best smallest i [] = best"
| "min_element_from best smallest i (file # files) =
     (if older file smallest then min_element_from i file (Suc i) files
      else min_element_from best smallest (Suc i) files)"

definition oldest_index :: "ledger_file list \<Rightarrow> nat" where
  "oldest_index files = (case files of [] \<Rightarrow> 0 | f # fs \<Rightarrow> min_element_from 0 f 1 fs)"

partial_function (option) enforce_loop ::
  "'w file_system \<Rightarrow> rotation_ledger \<Rightarrow> 'w \<Rightarrow> ((error + unit) \<times> rotation_ledger \<times> 'w) option" where
  "enforce_loop fs l w =
     (if length (led_files l) > unat (max_files (led_limits l))
      then case remove_file fs (oldest_index (led_files l)) l w of
             (Inl e, l, w) \<Rightarrow> Some (Inl e, l, w)
           | (Inr _, l, w) \<Rightarrow> enforce_loop fs l w
      else Some (Inr (), l, w))"

definition enforce_max_files ::
  "'w file_system \<Rightarrow> rotation_ledger \<Rightarrow> 'w \<Rightarrow> ((error + unit) \<times> rotation_ledger \<times> 'w) option" where
  "enforce_max_files fs l w =
     (if max_files (led_limits l) = 0 then Some (Inr (), l, w) else enforce_loop fs l w)"

fun put_entry :: "ledger_file \<Rightarrow> ledger_file list \<Rightarrow> ledger_file list" where
  "put_entry f [] = [f]"
| "put_entry f (g # files) = (if lf_path g = lf_path f then f # files else g # put_entry f files)"

definition adopt_candidate :: "path \<Rightarrow> path \<Rightarrow> path" where
  "adopt_candidate dir file =
     (let candidate = lexically_normal file
      in if \<not> is_absolute candidate \<and> relative_descendant dir candidate = None
         then lexically_normal (path_append dir candidate) else candidate)"

definition adopt :: "'w file_system \<Rightarrow> path \<Rightarrow> rotation_ledger \<Rightarrow> 'w \<Rightarrow> ((error + unit) \<times> rotation_ledger \<times> 'w) option" where
  "adopt fs file l w =
     (let candidate = adopt_candidate (led_dir l) file
      in case relative_descendant (led_dir l) candidate of
           None \<Rightarrow> Some (Inl (fail InvalidArgument (''rotation adopt path is outside the output directory: '' @ generic_string candidate)), l, w)
         | Some relative \<Rightarrow>
             if \<not> matches_pattern (led_pattern l) (generic_string relative) then Some (Inr (), l, w)
             else case reconcile fs l w of
               (Inl e, l, w) \<Rightarrow> Some (Inl e, l, w)
             | (Inr _, l, w) \<Rightarrow>
                 (case inspect_regular_file fs (led_dir l) candidate w of
                    (Inl e, w) \<Rightarrow> Some (Inl e, l, w)
                  | (Inr None, w) \<Rightarrow> Some (Inr (), l, w)
                  | (Inr (Some inspected), w) \<Rightarrow>
                      (case enforce_max_files fs (recalculate_total (l\<lparr>led_files := put_entry inspected (led_files l)\<rparr>)) w of
                         None \<Rightarrow> None
                       | Some (Inl e, l, w) \<Rightarrow> Some (Inl e, l, w)
                       | Some (Inr _, l, w) \<Rightarrow> Some (Inr (), update_pause_state l, w))))"

lemma with_files_fields [simp]:
  "led_files (with_files files l) = files" "led_dir (with_files files l) = led_dir l"
  "led_pattern (with_files files l) = led_pattern l" "led_limits (with_files files l) = led_limits l"
  by (simp_all add: with_files_def update_pause_state_def recalculate_total_def Let_def)

text \<open>How one removal changes the list of entries.\<close>

lemma remove_file_files:
  assumes "remove_file fs i l w = (r, l', w')"
  shows "led_dir l' = led_dir l" and "led_pattern l' = led_pattern l" and "led_limits l' = led_limits l"
    and "\<exists>f. led_files l' = (case r of
           Inl e \<Rightarrow> led_files l
         | Inr Refreshed \<Rightarrow> (led_files l)[i := f]
         | Inr _ \<Rightarrow> erase_index i (led_files l))"
  using assms
  by (auto simp: remove_file_def Let_def split: prod.splits sum.splits option.splits if_splits)

lemma length_erase_index: "i < length xs \<Longrightarrow> length (erase_index i xs) = length xs - 1"
  by (simp add: erase_index_def)

lemma remove_file_shrinks:
  assumes "remove_file fs i l w = (Inr r, l', w')" and "i < length (led_files l)"
  shows "length (led_files l') = (if r = Refreshed then length (led_files l) else length (led_files l) - 1)"
  using remove_file_files(4) [OF assms(1)] assms(2) by (cases r) (auto simp: length_erase_index)

function prune_loop ::
  "'w file_system \<Rightarrow> int \<Rightarrow> nat \<Rightarrow> nat \<Rightarrow> rotation_ledger \<Rightarrow> 'w \<Rightarrow> (error + nat) \<times> rotation_ledger \<times> 'w" where
  "prune_loop fs cutoff removed_count index l w =
     (if index < length (led_files l)
      then if lf_modified_at (led_files l ! index) \<ge> cutoff then prune_loop fs cutoff removed_count (Suc index) l w
           else case remove_file fs index l w of
                  (Inl e, l, w) \<Rightarrow> (Inl e, l, w)
                | (Inr Removed, l, w) \<Rightarrow> prune_loop fs cutoff (Suc removed_count) index l w
                | (Inr Refreshed, l, w) \<Rightarrow> prune_loop fs cutoff removed_count (Suc index) l w
                | (Inr DroppedEntry, l, w) \<Rightarrow> prune_loop fs cutoff removed_count index l w
      else (Inr removed_count, l, w))"
  by pat_completeness auto

termination
  by (relation "measure (\<lambda>(fs, cutoff, n, index, l, w). length (led_files l) - index)")
    (auto dest: remove_file_shrinks [OF sym])

declare prune_loop.simps [simp del]

definition prune_age :: "'w file_system \<Rightarrow> int \<Rightarrow> rotation_ledger \<Rightarrow> 'w \<Rightarrow> (error + nat) \<times> rotation_ledger \<times> 'w" where
  "prune_age fs now l w =
     (case reconcile fs l w of
        (Inl e, l, w) \<Rightarrow> (Inl e, l, w)
      | (Inr _, l, w) \<Rightarrow>
          if max_age_days (led_limits l) = 0 then (Inr 0, l, w)
          else case prune_loop fs (age_cutoff now (max_age_days (led_limits l))) 0 0 l w of
                 (Inl e, l, w) \<Rightarrow> (Inl e, l, w)
               | (Inr n, l, w) \<Rightarrow> (Inr n, update_pause_state l, w))"

definition refresh_disk :: "'w file_system \<Rightarrow> rotation_ledger \<Rightarrow> 'w \<Rightarrow> (error + unit) \<times> rotation_ledger \<times> 'w" where
  "refresh_disk fs l w = reconcile fs l w"

section \<open>Sizes and pausing\<close>

lemma uint_max_u64: "uint (- 1 :: u64) = 2 ^ 64 - 1"
  by (simp add: unsigned_minus_1_eq_mask mask_eq_exp_minus_1)

lemma total_from_saturates:
  "uint (total_from tot files) = min (uint tot + (\<Sum>f\<leftarrow>files. uint (lf_size f))) (2 ^ 64 - 1)"
proof (induction tot files rule: total_from.induct)
  case (1 tot)
  have "uint tot < 2 ^ 64" using uint_lt2p [of tot] by simp
  then show ?case by simp
next
  case (2 tot f files)
  note max = uint_max_u64
  have pos: "0 \<le> (\<Sum>f\<leftarrow>files. uint (lf_size f))" by (intro sum_list_nonneg) auto
  have diff: "uint (- 1 - tot) = 2 ^ 64 - 1 - uint tot"
    using uint_sub_lem [of tot "- 1"] max uint_lt2p [of tot] by simp
  show ?case
  proof (cases "lf_size f > - 1 - tot")
    case True
    then have "uint (lf_size f) > 2 ^ 64 - 1 - uint tot" by (simp add: word_less_def diff)
    with True pos show ?thesis by (simp add: max)
  next
    case False
    then have "uint tot + uint (lf_size f) < 2 ^ 64"
      by (simp add: word_less_def diff)
    then have "uint (tot + lf_size f) = uint tot + uint (lf_size f)"
      using uint_add_lem [of tot "lf_size f"] by simp
    with False 2 show ?thesis by (simp add: add.assoc)
  qed
qed

lemma disk_cap_saturates: "uint (disk_cap_bytes limits) = min (uint (max_disk_mib limits) * 2 ^ 20) (2 ^ 64 - 1)"
proof -
  let ?m = "max_disk_mib limits"
  have lim: "uint ((- 1 :: u64) div (1024 * 1024)) = (2 ^ 64 - 1) div 2 ^ 20"
    by (simp add: uint_div uint_max_u64)
  show ?thesis
  proof (cases "?m > (- 1) div (1024 * 1024)")
    case True
    then have "uint ?m > (2 ^ 64 - 1) div 2 ^ 20" by (simp only: word_less_def lim)
    with True show ?thesis by (auto simp: disk_cap_bytes_def uint_max_u64)
  next
    case False
    then have "uint ?m \<le> (2 ^ 64 - 1) div 2 ^ 20" by (simp only: word_less_def lim not_less)
    then have "uint (?m * (1024 * 1024)) = uint ?m * 2 ^ 20"
      using uint_mult_lem [of ?m "1024 * 1024"] by simp
    with False \<open>uint ?m \<le> (2 ^ 64 - 1) div 2 ^ 20\<close> show ?thesis by (auto simp: disk_cap_bytes_def)
  qed
qed

lemma resume_threshold_exact: "uint (resume_threshold cap) = (9 * uint cap + 9) div 10"
proof -
  define a r where "a = uint cap div 10" and "r = uint cap mod 10"
  have cap: "uint cap = 10 * a + r" and r: "0 \<le> r" "r < 10" and a: "0 \<le> a" "10 * a < 2 ^ 64"
    using uint_lt2p [of cap] by (simp_all add: a_def r_def pos_imp_zdiv_nonneg_iff)
  have d: "uint (cap div 10) = a" and m: "uint (cap mod 10) = r"
    by (simp_all add: uint_div uint_mod a_def r_def)
  have whole: "uint (cap div 10 * 9) = 9 * a"
    using uint_mult_lem [of "cap div 10" 9] a by (simp add: d)
  have rem: "uint (cap mod 10 * 9) = 9 * r"
    using uint_mult_lem [of "cap mod 10" 9] r by (simp add: m)
  have "uint (cap mod 10 * 9 + 9) = 9 * r + 9"
    using uint_add_lem [of "cap mod 10 * 9" 9] r by (simp add: rem)
  then have rnd: "uint ((cap mod 10 * 9 + 9) div 10) = (9 * r + 9) div 10"
    by (simp add: uint_div)
  have "9 * a + (9 * r + 9) div 10 < 2 ^ 64" using a r by simp
  then have "uint (resume_threshold cap) = 9 * a + (9 * r + 9) div 10"
    using uint_add_lem [of "cap div 10 * 9" "(cap mod 10 * 9 + 9) div 10"] a r
    by (simp add: resume_threshold_def Let_def whole rnd)
  also have "\<dots> = (9 * uint cap + 9) div 10" by (simp add: cap)
  finally show ?thesis .
qed

text \<open>
  When the entries of the ledger are set, the watch is paused or resumed by their total size with
  hysteresis: it pauses when the total reaches the cap of \<open>max_disk_mib\<close> mebibytes, and once paused
  it resumes only when the total is below nine tenths of the cap; without a cap it never pauses. Total
  and cap saturate at \<open>2^64 - 1\<close> instead of wrapping, and no step of the threshold overflows.\<close>

theorem pause_hysteresis:
  "led_paused (with_files files l) \<longleftrightarrow>
     (let cap = min (uint (max_disk_mib (led_limits l)) * 2 ^ 20) (2 ^ 64 - 1);
          bytes = min (\<Sum>f\<leftarrow>files. uint (lf_size f)) (2 ^ 64 - 1)
      in cap \<noteq> 0 \<and> (if led_paused l then 10 * bytes \<ge> 9 * cap else bytes \<ge> cap))"
proof -
  let ?cap = "disk_cap_bytes (led_limits l)" and ?t = "total_from 0 files"
  have "led_paused (with_files files l) \<longleftrightarrow>
      uint ?cap \<noteq> 0 \<and> (if led_paused l then uint ?t \<ge> uint (resume_threshold ?cap) else uint ?t \<ge> uint ?cap)"
    by (auto simp: with_files_def update_pause_state_def recalculate_total_def Let_def word_le_def uint_0_iff)
  also have "uint (resume_threshold ?cap) \<le> uint ?t \<longleftrightarrow> 10 * uint ?t \<ge> 9 * uint ?cap"
    unfolding resume_threshold_exact by linarith
  finally show ?thesis
    by (simp only: total_from_saturates disk_cap_saturates Let_def unsigned_0 add_0_left)
qed

section \<open>What the ledger may remove\<close>

definition entries_owned :: "rotation_ledger \<Rightarrow> bool" where
  "entries_owned l \<longleftrightarrow> (\<forall>f\<in>set (led_files l). owned l (lf_path f))"

definition same_ledger :: "rotation_ledger \<Rightarrow> rotation_ledger \<Rightarrow> bool" where
  "same_ledger l l' \<longleftrightarrow> led_dir l' = led_dir l \<and> led_pattern l' = led_pattern l \<and> led_limits l' = led_limits l"

lemma owned_same: "same_ledger l l' \<Longrightarrow> owned l' = owned l"
  by (auto simp: same_ledger_def owned_def fun_eq_iff split: option.splits)

lemma same_ledger_trans: "same_ledger l l' \<Longrightarrow> same_ledger l' l'' \<Longrightarrow> same_ledger l l''"
  by (simp add: same_ledger_def)

lemma same_with_files [simp]: "same_ledger l (with_files files l)"
  by (simp add: same_ledger_def)

lemma same_update [simp]: "same_ledger l (update_pause_state l)" "led_files (update_pause_state l) = led_files l"
  by (simp_all add: same_ledger_def update_pause_state_def Let_def)

lemma same_recalculate [simp]: "same_ledger l (recalculate_total (l\<lparr>led_files := files\<rparr>))"
  "led_files (recalculate_total (l\<lparr>led_files := files\<rparr>)) = files"
  by (simp_all add: same_ledger_def recalculate_total_def)

lemma entries_owned_files: "same_ledger l l' \<Longrightarrow> (\<And>f. f \<in> set (led_files l') \<Longrightarrow> owned l (lf_path f)) \<Longrightarrow> entries_owned l'"
  by (simp add: entries_owned_def owned_same)

text \<open>An inspection answers for the path it was asked about.\<close>

lemma inspect_path: "inspect_regular_file fs dir file w = (Inr (Some f), w') \<Longrightarrow> lf_path f = file"
  by (auto simp: inspect_regular_file_def on_fs_error_def split: prod.splits sum.splits option.splits if_splits)

lemma inspect_all_owned:
  assumes "inspect_all fs l files found w = (Inr fs', w')" and "\<forall>f\<in>set found. owned l (lf_path f)"
  shows "\<forall>f\<in>set fs'. owned l (lf_path f)"
  using assms
proof (induction files arbitrary: found w)
  case (Cons p files)
  show ?case
  proof (cases "owned l p")
    case True
    from Cons(2) True obtain r w1 where r: "inspect_regular_file fs (led_dir l) p w = (Inr r, w1)"
      and rest: "inspect_all fs l files (case r of None \<Rightarrow> found | Some f \<Rightarrow> found @ [f]) w1 = (Inr fs', w')"
      by (auto split: prod.splits sum.splits)
    have "\<forall>f\<in>set (case r of None \<Rightarrow> found | Some f \<Rightarrow> found @ [f]). owned l (lf_path f)"
      using Cons(3) True inspect_path [of fs "led_dir l" p w _ w1] r by (cases r) auto
    with Cons(1) [OF rest] show ?thesis by blast
  next
    case False
    with Cons show ?thesis by simp
  qed
qed simp

text \<open>
  What clients may rely on about a file system whose removals are guarded: an invariant of its state that
  every call keeps, removals only for the paths \<open>P\<close> allows.
\<close>

locale guarded_files =
  fixes fs :: "'w file_system" and P :: "path \<Rightarrow> bool" and I :: "'w \<Rightarrow> bool"
  assumes status_I: "I w \<Longrightarrow> fs_symlink_status fs p w = (a, w') \<Longrightarrow> I w'"
    and size_I: "I w \<Longrightarrow> fs_file_size fs p w = (b, w') \<Longrightarrow> I w'"
    and time_I: "I w \<Longrightarrow> fs_last_write_time fs p w = (c, w') \<Longrightarrow> I w'"
    and walk_I: "I w \<Longrightarrow> fs_walk fs p rec w = (d, w') \<Longrightarrow> I w'"
    and remove_I: "I w \<Longrightarrow> P p \<Longrightarrow> fs_remove fs p w = (e, w') \<Longrightarrow> I w'"
begin

lemma ancestors_I: "I w \<Longrightarrow> ancestors_safe fs p cs w = (r, w') \<Longrightarrow> I w'"
proof (induction cs arbitrary: p w)
  case (Cons c cs)
  then show ?case by (auto simp: Let_def split: prod.splits sum.splits if_splits dest: status_I)
qed simp

lemma chain_I: "I w \<Longrightarrow> safe_directory_chain fs dir p w = (r, w') \<Longrightarrow> I w'"
  by (auto simp: safe_directory_chain_def split: if_splits option.splits dest: ancestors_I)

lemma inspect_I: "I w \<Longrightarrow> inspect_regular_file fs dir p w = (r, w') \<Longrightarrow> I w'"
  by (auto simp: inspect_regular_file_def split: prod.splits sum.splits if_splits option.splits)
    (meson chain_I status_I size_I time_I)+

lemma inspect_all_I: "I w \<Longrightarrow> inspect_all fs l files found w = (r, w') \<Longrightarrow> I w'"
proof (induction files arbitrary: found w)
  case (Cons p files)
  then show ?case by (auto split: prod.splits sum.splits if_splits dest: inspect_I)
qed simp

lemma remove_file_I:
  assumes "I w" and "P (lf_path (led_files l ! i))" and "remove_file fs i l w = (r, l', w')"
  shows "I w'"
  using assms
  by (auto simp: remove_file_def Let_def split: prod.splits sum.splits option.splits if_splits dest: inspect_I remove_I)

end

definition kept :: "('w \<Rightarrow> bool) \<Rightarrow> rotation_ledger \<Rightarrow> rotation_ledger \<Rightarrow> 'w \<Rightarrow> bool" where
  "kept J l l' w' \<longleftrightarrow> same_ledger l l' \<and> entries_owned l' \<and> J w'"

lemma same_ledger_refl [simp]: "same_ledger l l"
  by (simp add: same_ledger_def)

lemma kept_trans: "kept J l l' w' \<Longrightarrow> kept J l' l'' w'' \<Longrightarrow> kept J l l'' w''"
  unfolding kept_def using same_ledger_trans by blast

lemma kept_files: "(\<And>f. f \<in> set files \<Longrightarrow> owned l (lf_path f)) \<Longrightarrow> J w' \<Longrightarrow> kept J l (with_files files l) w'"
  unfolding kept_def using entries_owned_files [OF same_with_files] by simp

lemma kept_update: "kept J l l' w' \<Longrightarrow> kept J l (update_pause_state l') w'"
  unfolding kept_def entries_owned_def using same_ledger_trans [OF _ same_update(1)] owned_same [OF same_update(1)] by auto

lemma set_erase_index: "set (erase_index i xs) \<subseteq> set xs"
  by (auto simp: erase_index_def dest: in_set_takeD in_set_dropD)

lemma in_put_entry: "f \<in> set (put_entry f xs)"
  by (induction xs) auto

lemma fail_code: "err_code (fail c m) = c"
  by (simp add: fail_def)

lemma set_put_entry: "set (put_entry f xs) \<subseteq> insert f (set xs)"
  by (induction xs) auto

lemma min_element_from_less: "best < i \<Longrightarrow> min_element_from best f i files < i + length files"
proof (induction files arbitrary: best f i)
  case (Cons g files)
  from Cons(1) [of i "Suc i" g] Cons(1) [of best "Suc i" f] Cons(2) show ?case by simp
qed simp

lemma oldest_index_less: "files \<noteq> [] \<Longrightarrow> oldest_index files < length files"
  using min_element_from_less [of 0 1] by (cases files) (auto simp: oldest_index_def)

context guarded_files
begin

lemma reconcile_kept:
  assumes "I w" and "entries_owned l" and "reconcile fs l w = (r, l', w')"
  shows "kept I l l' w'"
proof -
  obtain q w1 where q: "inspect_all fs l (map lf_path (led_files l)) [] w = (q, w1)" by force
  have w1: "I w1" using inspect_all_I [OF assms(1) q] .
  have own: "\<forall>f\<in>set files. owned l (lf_path f)" if "q = Inr files" for files
    using inspect_all_owned [OF q [unfolded that]] by simp
  show ?thesis
  proof (cases q)
    case (Inl e)
    with assms(2,3) q w1 show ?thesis by (simp add: reconcile_def kept_def)
  next
    case (Inr files)
    then have "l' = with_files files l" "w' = w1" using assms(3) q by (simp_all add: reconcile_def)
    with own [OF Inr] w1 show ?thesis by (auto intro: kept_files)
  qed
qed

lemma scan_kept:
  assumes "I w" and "entries_owned l" and "scan fs l w = (r, l', w')"
  shows "kept I l l' w'"
proof -
  let ?scope = "scan_scope (led_dir l) (led_pattern l)"
  let ?root = "scope_root ?scope"
  obtain a w1 where a: "safe_directory_chain fs (led_dir l) ?root w = (a, w1)" by force
  obtain b w2 where b: "fs_symlink_status fs ?root w1 = (b, w2)" by force
  obtain c w3 where c: "fs_walk fs ?root (scope_recursive ?scope) w2 = (c, w3)" by force
  define entries where "entries = (case c of Inl e \<Rightarrow> [] | Inr (es, f) \<Rightarrow> map lexically_normal es)"
  obtain d w4 where d: "inspect_all fs l entries [] w3 = (d, w4)" by force
  have I: "I w1" "I w2" "I w3" "I w4"
    using chain_I [OF assms(1) a] status_I [OF _ b] walk_I [OF _ c] inspect_all_I [OF _ d] by blast+
  have "(l' = l \<or> l' = with_files [] l \<or> (\<exists>files. d = Inr files \<and> l' = with_files files l)) \<and> w' \<in> {w1, w2, w3, w4}"
    using assms(3) a b c d
    by (cases a; cases b; cases c) (auto simp: scan_def Let_def entries_def split: if_splits sum.splits option.splits prod.splits)
  moreover have "\<forall>f\<in>set files. owned l (lf_path f)" if "d = Inr files" for files
    using inspect_all_owned [OF d [unfolded that]] by simp
  ultimately show ?thesis
    using I assms(2) by (elim conjE disjE exE) (auto simp: kept_def intro!: entries_owned_files [OF same_with_files])
qed

lemma remove_kept:
  assumes "I w" and "entries_owned l" and "\<And>p. owned l p \<Longrightarrow> P p" and "i < length (led_files l)"
    and "remove_file fs i l w = (r, l', w')"
  shows "kept I l l' w'"
proof -
  have own: "owned l (lf_path (led_files l ! i))" using assms(2,4) by (simp add: entries_owned_def)
  have w': "I w'" using remove_file_I [OF assms(1) assms(3) [OF own] assms(5)] .
  consider "l' = l" | "l' = with_files (erase_index i (led_files l)) l"
    | f w1 where "inspect_regular_file fs (led_dir l) (lf_path (led_files l ! i)) w = (Inr (Some f), w1)"
        "l' = with_files ((led_files l)[i := f]) l"
    using assms(5) by (auto simp: remove_file_def Let_def split: prod.splits sum.splits option.splits if_splits)
  then show ?thesis
  proof cases
    case 1
    then show ?thesis using assms(2) w' by (simp add: kept_def)
  next
    case 2
    have "\<And>f. f \<in> set (erase_index i (led_files l)) \<Longrightarrow> owned l (lf_path f)"
      using assms(2) set_erase_index [of i "led_files l"] by (auto simp: entries_owned_def)
    with 2 w' show ?thesis by (simp add: kept_files)
  next
    case 3
    have "\<And>g. g \<in> set ((led_files l)[i := f]) \<Longrightarrow> owned l (lf_path g)"
      using assms(2) set_update_subset_insert [of "led_files l" i f] inspect_path [OF 3(1)] own
      by (auto simp: entries_owned_def)
    with 3 w' show ?thesis by (simp add: kept_files)
  qed
qed

lemma enforce_loop_kept:
  assumes "enforce_loop fs l w = Some (r, l', w')" and "I w" and "entries_owned l" and "\<And>p. owned l p \<Longrightarrow> P p"
  shows "kept I l l' w'"
proof -
  have "g = fs \<longrightarrow> I w \<longrightarrow> entries_owned l \<longrightarrow> (\<forall>p. owned l p \<longrightarrow> P p) \<longrightarrow> kept I l (fst (snd y)) (snd (snd y))"
    if "enforce_loop g l w = Some y" for g y
  proof (rule enforce_loop.raw_induct [where P = "\<lambda>g l w y. g = fs \<longrightarrow> I w \<longrightarrow> entries_owned l \<longrightarrow>
        (\<forall>p. owned l p \<longrightarrow> P p) \<longrightarrow> kept I l (fst (snd y)) (snd (snd y))", OF _ that], goal_cases)
    case (1 f g l w y)
    obtain r l' w' where y: "y = (r, l', w')" by (metis prod.exhaust)
    show ?case
    proof (cases "length (led_files l) > unat (max_files (led_limits l))")
      case False
      with 1(2) show ?thesis by (auto simp: y kept_def)
    next
      case True
      then have "led_files l \<noteq> []" by auto
      note i = oldest_index_less [OF this]
      obtain q l1 w1 where rm: "remove_file fs (oldest_index (led_files l)) l w = (q, l1, w1)" by (metis prod.exhaust)
      show ?thesis
      proof (cases q)
        case (Inl e)
        then show ?thesis
          using 1(2) True rm remove_kept [OF _ _ _ i rm] by (auto simp: y)
      next
        case (Inr s)
        then have "g = fs \<Longrightarrow> f fs l1 w1 = Some y" using 1(2) True rm by simp
        with 1(1) have IH: "g = fs \<longrightarrow> I w1 \<longrightarrow> entries_owned l1 \<longrightarrow> (\<forall>p. owned l1 p \<longrightarrow> P p) \<longrightarrow> kept I l1 l' w'"
          by (fastforce simp: y)
        show ?thesis
        proof (intro impI)
          assume a: "g = fs" "I w" "entries_owned l" "\<forall>p. owned l p \<longrightarrow> P p"
          from remove_kept [OF a(2,3) a(4) [rule_format] i rm] have k: "kept I l l1 w1" .
          then have "I w1" "entries_owned l1" "owned l1 = owned l" using owned_same [of l l1] by (simp_all add: kept_def)
          with IH a(1,4) have "kept I l1 l' w'" by simp
          with k show "kept I l (fst (snd y)) (snd (snd y))" by (simp add: y kept_trans [of I l l1])
        qed
      qed
    qed
  qed
  from this [OF assms(1)] assms(2-) show ?thesis by simp
qed

lemma adopt_kept:
  assumes "adopt fs file l w = Some (r, l', w')" and "I w" and "entries_owned l" and "\<And>p. owned l p \<Longrightarrow> P p"
  shows "kept I l l' w'"
proof -
  define c where "c = adopt_candidate (led_dir l) file"
  obtain q l1 w1 where rec: "reconcile fs l w = (q, l1, w1)" by (metis prod.exhaust)
  note k1 = reconcile_kept [OF assms(2,3) rec]
  then have I1: "I w1" and own1: "entries_owned l1" and same1: "owned l1 = owned l" "led_dir l1 = led_dir l"
    using owned_same [of l l1] by (auto simp: kept_def same_ledger_def)
  obtain ins w2 where ins: "inspect_regular_file fs (led_dir l1) c w1 = (ins, w2)" by force
  have I2: "I w2" by (rule inspect_I [OF I1 ins])
  have self: "kept I l l w" "kept I l l1 w1" "kept I l l1 w2"
    using assms(2,3) k1 I2 by (simp_all add: kept_def)
  show ?thesis
  proof (cases "owned l c \<and> q = Inr () \<and> (\<exists>f. ins = Inr (Some f))")
    case False
    then show ?thesis
      using assms(1) self rec ins
      by (auto simp: adopt_def c_def [symmetric] Let_def owned_def split: option.splits sum.splits if_splits)
  next
    case True
    then obtain f where f: "ins = Inr (Some f)" by blast
    let ?l = "recalculate_total (l1\<lparr>led_files := put_entry f (led_files l1)\<rparr>)"
    have path: "lf_path f = c" by (rule inspect_path [OF ins [unfolded f]])
    have "\<And>g. g \<in> set (put_entry f (led_files l1)) \<Longrightarrow> owned l1 (lf_path g)"
      using set_put_entry [of f "led_files l1"] own1 True path by (auto simp: entries_owned_def same1)
    then have k2: "kept I l1 ?l w2"
      unfolding kept_def using I2 entries_owned_files [OF same_recalculate(1)] by simp
    note k02 = kept_trans [OF self(2) k2]
    obtain l3 w3 r3 where e: "enforce_max_files fs ?l w2 = Some (r3, l3, w3)"
      and l': "(r3 = Inr () \<and> l' = update_pause_state l3 \<or> l' = l3) \<and> w' = w3"
      using assms(1) True rec ins f
      by (auto simp: adopt_def c_def [symmetric] Let_def owned_def split: option.splits sum.splits prod.splits)
    have "kept I ?l l3 w3"
      using e enforce_loop_kept [of ?l w2 r3 l3 w3] k02 owned_same [of l ?l] assms(4)
      by (auto simp: enforce_max_files_def kept_def split: if_splits)
    from kept_trans [OF k02 this] l' show ?thesis using kept_update by auto
  qed
qed

lemma prune_loop_kept:
  assumes "prune_loop fs cutoff n i l w = (r, l', w')" and "I w" and "entries_owned l" and "\<And>p. owned l p \<Longrightarrow> P p"
  shows "kept I l l' w'"
  using assms
proof (induction "length (led_files l) - i" arbitrary: n i l w rule: less_induct)
  case less
  show ?case
  proof (cases "i < length (led_files l)")
    case False
    with less show ?thesis by (simp add: prune_loop.simps [of fs cutoff n i l w] kept_def)
  next
    case here: True
    obtain q l1 w1 where rm: "remove_file fs i l w = (q, l1, w1)" by (metis prod.exhaust)
    from remove_kept [OF less(3,4,5) here rm] have k: "kept I l l1 w1" .
    then have IH: "length (led_files l1) - j < length (led_files l) - i \<Longrightarrow>
        prune_loop fs cutoff m j l1 w1 = (r, l', w') \<Longrightarrow> kept I l l' w'" for m j
      using less(1) [of l1 j m w1] less(5) owned_same [of l l1] kept_trans [OF k] by (auto simp: kept_def)
    consider (skip) "prune_loop fs cutoff n (Suc i) l w = (r, l', w')" | (stop) "(l', w') = (l1, w1)"
      | (go) m j s where "q = Inr s" "prune_loop fs cutoff m j l1 w1 = (r, l', w')" "j = (if s = Refreshed then Suc i else i)"
      using less(2) here rm
      by (auto simp: prune_loop.simps [of fs cutoff n i l w] split: if_splits sum.splits remove_state.splits)
    then show ?thesis
    proof cases
      case skip
      then show ?thesis using less(1) [of l "Suc i" n w] less(3-) here by simp
    next
      case stop
      then show ?thesis using k by simp
    next
      case go
      have "length (led_files l1) - j < length (led_files l) - i"
        using remove_file_shrinks [OF rm [unfolded go(1)] here] go(3) here by auto
      then show ?thesis using IH go(2) by blast
    qed
  qed
qed

lemma prune_age_kept:
  assumes "prune_age fs now l w = (r, l', w')" and "I w" and "entries_owned l" and "\<And>p. owned l p \<Longrightarrow> P p"
  shows "kept I l l' w'"
proof -
  obtain q l1 w1 where rec: "reconcile fs l w = (q, l1, w1)" by (metis prod.exhaust)
  note k1 = reconcile_kept [OF assms(2,3) rec]
  obtain q2 l2 w2 where pr: "prune_loop fs (age_cutoff now (max_age_days (led_limits l1))) 0 0 l1 w1 = (q2, l2, w2)"
    by (metis prod.exhaust)
  have "kept I l1 l2 w2"
    using prune_loop_kept [OF pr] k1 assms(4) owned_same [of l l1] by (auto simp: kept_def)
  note k2 = kept_trans [OF k1 this]
  show ?thesis
    using assms(1) k1 k2 kept_update [OF k2] rec pr by (auto simp: prune_age_def split: sum.splits if_splits)
qed

end

section \<open>Removals, recorded\<close>

text \<open>A file system that also records every path it is asked to remove.\<close>

definition logged :: "'w file_system \<Rightarrow> ('w \<times> path list) file_system" where
  "logged fs = \<lparr>
     fs_symlink_status = (\<lambda>p (w, log). map_prod id (\<lambda>w. (w, log)) (fs_symlink_status fs p w)),
     fs_file_size = (\<lambda>p (w, log). map_prod id (\<lambda>w. (w, log)) (fs_file_size fs p w)),
     fs_last_write_time = (\<lambda>p (w, log). map_prod id (\<lambda>w. (w, log)) (fs_last_write_time fs p w)),
     fs_remove = (\<lambda>p (w, log). map_prod id (\<lambda>w. (w, log @ [p])) (fs_remove fs p w)),
     fs_walk = (\<lambda>p rec (w, log). map_prod id (\<lambda>w. (w, log)) (fs_walk fs p rec w))\<rparr>"

interpretation lg: guarded_files "logged fs" "owned l0" "\<lambda>st. \<forall>p\<in>set (snd st). owned l0 p" for fs :: "'w file_system" and l0
  by standard (auto simp: logged_def map_prod_def split: prod.splits)

datatype ledger_op = Scan | Adopt path | PruneAge int | RefreshDisk

text \<open>One operation of the ledger; \<open>None\<close> when it does not return. A reported error leaves the ledger usable.\<close>

fun run_ledger_op :: "'w file_system \<Rightarrow> ledger_op \<Rightarrow> rotation_ledger \<times> 'w \<Rightarrow> (rotation_ledger \<times> 'w) option" where
  "run_ledger_op fs Scan (l, w) = Some (snd (scan fs l w))"
| "run_ledger_op fs (Adopt p) (l, w) = map_option snd (adopt fs p l w)"
| "run_ledger_op fs (PruneAge now) (l, w) = Some (snd (prune_age fs now l w))"
| "run_ledger_op fs RefreshDisk (l, w) = Some (snd (refresh_disk fs l w))"

fun run_ledger :: "'w file_system \<Rightarrow> ledger_op list \<Rightarrow> rotation_ledger \<times> 'w \<Rightarrow> (rotation_ledger \<times> 'w) option" where
  "run_ledger fs [] st = Some st"
| "run_ledger fs (op # ops) st = (case run_ledger_op fs op st of None \<Rightarrow> None | Some st \<Rightarrow> run_ledger fs ops st)"

lemma run_ledger_op_kept:
  assumes "run_ledger_op (logged fs) op (l, st) = Some (l', st')" and "entries_owned l" and "\<forall>p\<in>set (snd st). owned l p"
  shows "kept (\<lambda>st. \<forall>p\<in>set (snd st). owned l p) l l' st'"
proof (cases op)
  case Scan
  obtain r l1 w1 where r: "scan (logged fs) l st = (r, l1, w1)" by (metis prod.exhaust)
  from lg.scan_kept [OF assms(3,2) r] show ?thesis using assms(1) by (simp add: Scan r)
next
  case (Adopt p)
  then obtain r where r: "adopt (logged fs) p l st = Some (r, l', st')" using assms(1) by auto
  show ?thesis by (rule lg.adopt_kept [OF r assms(3,2)])
next
  case (PruneAge now)
  obtain r l1 w1 where r: "prune_age (logged fs) now l st = (r, l1, w1)" by (metis prod.exhaust)
  from lg.prune_age_kept [OF r assms(3,2)] show ?thesis using assms(1) by (simp add: PruneAge r)
next
  case RefreshDisk
  obtain r l1 w1 where r: "reconcile (logged fs) l st = (r, l1, w1)" by (metis prod.exhaust)
  from lg.reconcile_kept [OF assms(3,2) r] show ?thesis using assms(1) by (simp add: RefreshDisk refresh_disk_def r)
qed

lemma run_ledger_kept:
  assumes "run_ledger (logged fs) ops (l, st) = Some (l', st')" and "entries_owned l" and "\<forall>p\<in>set (snd st). owned l p"
  shows "kept (\<lambda>st. \<forall>p\<in>set (snd st). owned l p) l l' st'"
  using assms
proof (induction ops arbitrary: l st)
  case Nil
  then show ?case by (simp add: kept_def)
next
  case (Cons op ops)
  then obtain l1 st1 where one: "run_ledger_op (logged fs) op (l, st) = Some (l1, st1)"
    and rest: "run_ledger (logged fs) ops (l1, st1) = Some (l', st')"
    by (auto split: option.splits)
  from run_ledger_op_kept [OF one Cons(3,4)] have k: "kept (\<lambda>st. \<forall>p\<in>set (snd st). owned l p) l l1 st1" .
  then have same: "owned l1 = owned l" using owned_same [of l l1] by (simp add: kept_def)
  from Cons(1) [OF rest] k have "kept (\<lambda>st. \<forall>p\<in>set (snd st). owned l p) l1 l' st'"
    by (simp add: kept_def same)
  with k show ?case by (rule kept_trans)
qed

lemma owned_below:
  assumes "owned l p" and "''..'' \<notin> set (led_dir l)"
  shows "\<exists>pre b rel. led_dir l = pre @ b \<and> set b \<subseteq> {[], ''.''} \<and> p = pre @ rel \<and> rel \<noteq> [] \<and> ''..'' \<notin> set rel \<and>
    matches_pattern (led_pattern l) (generic_string rel)"
proof -
  from assms(1) obtain rel where rel: "relative_descendant (led_dir l) p = Some rel"
    and m: "matches_pattern (led_pattern l) (generic_string rel)"
    by (auto simp: owned_def split: option.splits)
  then have r: "lexically_relative p (led_dir l) = rel" "rel \<noteq> []" "rel \<noteq> [''.'']" "''..'' \<notin> set rel"
    by (auto simp: relative_descendant_def Let_def generic_string_def is_absolute_def split: if_splits)
  from lexically_relative_below [OF r assms(2)] r m show ?thesis by blast
qed

section \<open>Runs cut off after a number of calls\<close>

text \<open>
  An adoption may run for ever, so that a run of the ledger is cut off: the file system answers as usual for \<open>n\<close> calls
  and fails every call after that. The run up to then is the one on the file system itself, and it always returns.\<close>

definition cut_call :: "('w \<Rightarrow> (fs_error + 'r) \<times> 'w) \<Rightarrow> 'w \<times> nat \<Rightarrow> (fs_error + 'r) \<times> 'w \<times> nat" where
  "cut_call call st =
     (if snd st = 0 then (Inl (OtherFsError ''cut off''), st)
      else case call (fst st) of (answer, w) \<Rightarrow> (answer, w, snd st - 1))"

definition cut_fs :: "'w file_system \<Rightarrow> ('w \<times> nat) file_system" where
  "cut_fs fs = \<lparr>
     fs_symlink_status = (\<lambda>p. cut_call (fs_symlink_status fs p)),
     fs_file_size = (\<lambda>p. cut_call (fs_file_size fs p)),
     fs_last_write_time = (\<lambda>p. cut_call (fs_last_write_time fs p)),
     fs_remove = (\<lambda>p. cut_call (fs_remove fs p)),
     fs_walk = (\<lambda>p rec. cut_call (fs_walk fs p rec))\<rparr>"

text \<open>A file system whose calls use up something: an entry that is found to have changed has cost some of it.\<close>

locale metered_files =
  fixes fs :: "'w file_system" and meter :: "'w \<Rightarrow> nat"
  assumes status_meter: "fs_symlink_status fs p w = (a, w') \<Longrightarrow> meter w' \<le> meter w"
    and status_pays: "fs_symlink_status fs p w = (Inr t, w') \<Longrightarrow> meter w' < meter w"
    and size_meter: "fs_file_size fs p w = (b, w') \<Longrightarrow> meter w' \<le> meter w"
    and time_meter: "fs_last_write_time fs p w = (c, w') \<Longrightarrow> meter w' \<le> meter w"
    and remove_meter: "fs_remove fs p w = (e, w') \<Longrightarrow> meter w' \<le> meter w"
begin

lemma ancestors_meter: "ancestors_safe fs p cs w = (r, w') \<Longrightarrow> meter w' \<le> meter w"
proof (induction cs arbitrary: p w)
  case (Cons c cs)
  then show ?case
    by (auto simp: Let_def split: prod.splits sum.splits if_splits dest: status_meter) (meson status_meter order_trans)
qed simp

lemma chain_meter: "safe_directory_chain fs dir p w = (r, w') \<Longrightarrow> meter w' \<le> meter w"
  by (auto simp: safe_directory_chain_def split: if_splits option.splits dest: ancestors_meter)

lemma inspect_meter:
  assumes "inspect_regular_file fs dir p w = (r, w')"
  shows "meter w' \<le> meter w" and "r = Inr (Some f) \<Longrightarrow> meter w' < meter w"
proof -
  obtain a w1 where a: "safe_directory_chain fs dir (parent_path p) w = (a, w1)" by force
  obtain b w2 where b: "fs_symlink_status fs p w1 = (b, w2)" by force
  obtain c w3 where c: "fs_file_size fs p w2 = (c, w3)" by force
  obtain d w4 where d: "fs_last_write_time fs p w3 = (d, w4)" by force
  obtain e w5 where e: "fs_symlink_status fs p w4 = (e, w5)" by force
  have le: "meter w1 \<le> meter w" "meter w2 \<le> meter w1" "meter w3 \<le> meter w2" "meter w4 \<le> meter w3" "meter w5 \<le> meter w4"
    using chain_meter [OF a] status_meter [OF b] size_meter [OF c] time_meter [OF d] status_meter [OF e] .
  have ends: "w' \<in> {w, w1, w2, w3, w4, w5}"
    using assms a b c d e
    by (auto simp: inspect_regular_file_def split: option.splits sum.splits if_splits)
  then show "meter w' \<le> meter w" using le by auto
  assume "r = Inr (Some f)"
  then have "w' = w5 \<and> (\<exists>t. e = Inr t)"
    using assms a b c d e
    by (auto simp: inspect_regular_file_def on_fs_error_def split: option.splits sum.splits if_splits)
  then show "meter w' < meter w" using le status_pays [of p w4 _ w5] e by auto
qed

lemma remove_file_meter:
  assumes "remove_file fs i l w = (r, l', w')"
  shows "meter w' \<le> meter w" and "r = Inr Refreshed \<Longrightarrow> meter w' < meter w"
proof -
  obtain q w1 where q: "inspect_regular_file fs (led_dir l) (lf_path (led_files l ! i)) w = (q, w1)" by force
  obtain x w2 where x: "fs_remove fs (lf_path (led_files l ! i)) w1 = (x, w2)" by force
  have "w' \<in> {w1, w2}" "r = Inr Refreshed \<Longrightarrow> w' = w1 \<and> (\<exists>f. q = Inr (Some f))"
    using assms q x by (auto simp: remove_file_def Let_def split: sum.splits option.splits if_splits)
  then show "meter w' \<le> meter w" "r = Inr Refreshed \<Longrightarrow> meter w' < meter w"
    using inspect_meter [OF q] remove_meter [OF x] by auto
qed

lemma enforce_loop_returns: "\<exists>y. enforce_loop fs l w = Some y"
proof (induction "(meter w, length (led_files l))" arbitrary: l w rule: wf_induct_rule [OF wf_lex_prod [OF wf_less_than wf_less_than]])
  case (1 l w)
  show ?case
  proof (cases "length (led_files l) > unat (max_files (led_limits l))")
    case True
    then have "led_files l \<noteq> []" by auto
    note i = oldest_index_less [OF this]
    obtain r l1 w1 where rm: "remove_file fs (oldest_index (led_files l)) l w = (r, l1, w1)" by (metis prod.exhaust)
    show ?thesis
    proof (cases r)
      case (Inr s)
      have "((meter w1, length (led_files l1)), (meter w, length (led_files l))) \<in> less_than <*lex*> less_than"
        using remove_file_meter [OF rm] remove_file_shrinks [OF rm [unfolded Inr] i] i Inr by (cases "s = Refreshed") auto
      from 1 [OF this] show ?thesis using True rm Inr by (subst enforce_loop.simps) simp
    qed (use True rm in \<open>subst enforce_loop.simps, simp\<close>)
  qed (subst enforce_loop.simps, simp)
qed

lemma adopt_returns: "\<exists>y. adopt fs file l w = Some y"
  using enforce_loop_returns
  by (auto simp: adopt_def Let_def enforce_max_files_def split: option.splits prod.splits sum.splits) (metis option.distinct(1))+

lemma run_returns: "\<exists>y. run_ledger fs ops st = Some y"
proof (induction ops arbitrary: st)
  case (Cons op ops)
  obtain l w where st: "st = (l, w)" by force
  have "\<exists>y. run_ledger_op fs op (l, w) = Some y"
  proof (cases op)
    case (Adopt p)
    then show ?thesis using adopt_returns [of p l w] by auto
  qed simp_all
  then show ?case using Cons by (auto simp: st)
qed simp

end

lemma cut_call_meter:
  assumes "cut_call call st = (a, st')"
  shows "snd st' \<le> snd st" and "a = Inr x \<Longrightarrow> snd st' < snd st"
  using assms by (auto simp: cut_call_def split: if_splits prod.splits)

interpretation mt: metered_files "logged (cut_fs fs)" "\<lambda>st. snd (fst st)" for fs :: "'w file_system"
  by standard (auto simp: logged_def cut_fs_def map_prod_def split: prod.splits dest: cut_call_meter)

section \<open>The ledger's own files\<close>

text \<open>Strictly below the directory, without \<open>..\<close>, and of a name that matches; a directory may end in a separator or be \<open>.\<close> itself.\<close>

definition own_file :: "path \<Rightarrow> string \<Rightarrow> path \<Rightarrow> bool" where
  "own_file dir pattern p \<longleftrightarrow>
     (\<exists>pre b rel. lexically_normal dir = pre @ b \<and> set b \<subseteq> {[], ''.''} \<and> p = pre @ rel \<and> rel \<noteq> [] \<and>
        ''..'' \<notin> set rel \<and> matches_pattern pattern (generic_string rel))"

lemma normal_names_no_parent:
  assumes "''..'' \<notin> set names" and "rooted \<or> ''..'' \<notin> set es"
  shows "''..'' \<notin> set (fst (normal_names rooted names sep es))"
  using assms
proof (induction es arbitrary: names sep)
  case (Cons e es)
  have last: "last names \<noteq> ''..''" if "names \<noteq> []"
    using Cons(2) last_in_set [OF that] by metis
  have next_ok: "''..'' \<notin> set (fst (normal_names rooted ns sep' es))" if "''..'' \<notin> set ns" for ns sep'
    using Cons(1) [OF that] Cons(3) by auto
  have front: "''..'' \<notin> set (butlast names)" using Cons(2) by (meson in_set_butlastD)
  consider "e = [] \<or> e = ''.''" | "e = ''..''" "names \<noteq> []" | "e = ''..''" "names = []" "rooted" | "e \<noteq> []" "e \<noteq> ''.''" "e \<noteq> ''..''"
    using Cons(3) by auto
  then show ?case
  proof cases
    case 1
    then show ?thesis using next_ok [OF Cons(2)] by auto
  next
    case 2
    then show ?thesis using next_ok [OF front] last by simp
  next
    case 3
    then show ?thesis using next_ok [OF Cons(2)] by simp
  next
    case 4
    then show ?thesis using next_ok [of "names @ [e]"] Cons(2) by auto
  qed
qed simp

lemma normal_no_parent:
  assumes "''..'' \<in> set dir \<longrightarrow> is_absolute dir"
  shows "''..'' \<notin> set (lexically_normal dir)"
proof -
  let ?rooted = "is_absolute dir"
  obtain names sep where n: "normal_names ?rooted [] False (if ?rooted then tl dir else dir) = (names, sep)" by force
  have "''..'' \<notin> set names"
    using normal_names_no_parent [of "[]" ?rooted "if ?rooted then tl dir else dir" False] assms n by (auto split: if_splits)
  then show ?thesis
    using n by (auto simp: lexically_normal_def Let_def)
qed

lemma run_removes_own_files:
  assumes "run_ledger (logged fs) ops (new_ledger dir pattern limits, (w, [])) = Some (l, (w', log))"
    and "p \<in> set log" and "''..'' \<in> set dir \<longrightarrow> is_absolute dir"
  shows "own_file dir pattern p"
proof -
  let ?l = "new_ledger dir pattern limits"
  have "kept (\<lambda>st. \<forall>p\<in>set (snd st). owned ?l p) ?l l (w', log)"
    using assms(1) by (rule run_ledger_kept) (simp_all add: entries_owned_def new_ledger_def)
  then have "owned ?l p" using assms(2) by (simp add: kept_def)
  from owned_below [OF this] normal_no_parent [OF assms(3)] show ?thesis by (simp add: new_ledger_def own_file_def)
qed

text \<open>
  C34. The ledger removes only its own files. Let its directory be absolute, or a relative one without \<open>..\<close>. Whatever the file system
  answers and whatever else changes it meanwhile, every path the ledger asks to have removed, in any sequence of scans, adoptions, prunings
  and refreshes, lies strictly below the output directory, contains no \<open>..\<close>, and its name relative to
  the directory matches the filename pattern. This holds of the runs that return, and of every run up to any number of calls to the file
  system: cut off there, the run returns, and all it has asked to remove are such files. So it holds of an adoption
  that never returns as well. (The one caller makes the ledger with an absolute directory. For a relative directory that begins with \<open>..\<close> it does
  not hold: see \<open>parent_directory_escapes\<close> below.)\<close>

theorem ledger_removes_only_own_files:
  assumes "''..'' \<in> set dir \<longrightarrow> is_absolute dir"
  shows "(\<forall>l w' log. run_ledger (logged fs) ops (new_ledger dir pattern limits, (w, [])) = Some (l, (w', log)) \<longrightarrow>
            (\<forall>p\<in>set log. own_file dir pattern p)) \<and>
    (\<forall>n. \<exists>l st log. run_ledger (logged (cut_fs fs)) ops (new_ledger dir pattern limits, ((w, n), [])) = Some (l, (st, log)) \<and>
            (\<forall>p\<in>set log. own_file dir pattern p))"
proof (intro conjI allI impI ballI)
  fix n
  obtain l st log where run: "run_ledger (logged (cut_fs fs)) ops (new_ledger dir pattern limits, ((w, n), [])) = Some (l, (st, log))"
    using mt.run_returns [of fs ops "(new_ledger dir pattern limits, ((w, n), []))"] by auto
  with run_removes_own_files [OF run _ assms]
  show "\<exists>l st log. run_ledger (logged (cut_fs fs)) ops (new_ledger dir pattern limits, ((w, n), [])) = Some (l, (st, log)) \<and>
      (\<forall>p\<in>set log. own_file dir pattern p)" by blast
qed (rule run_removes_own_files [OF _ _ assms])

section \<open>A file system in memory\<close>

record mem_node =
  mn_type :: file_type
  mn_size :: u64
  mn_time :: int

type_synonym memory = "(path \<times> mem_node) list"

definition mem_read :: "(mem_node \<Rightarrow> 'a) \<Rightarrow> path \<Rightarrow> memory \<Rightarrow> (fs_error + 'a) \<times> memory" where
  "mem_read f p w = (case map_of w p of None \<Rightarrow> Inl Missing | Some n \<Rightarrow> Inr (f n), w)"

definition mem_fs :: "memory file_system" where
  "mem_fs = \<lparr>fs_symlink_status = mem_read mn_type, fs_file_size = mem_read mn_size, fs_last_write_time = mem_read mn_time,
     fs_remove = (\<lambda>p w. (Inr (map_of w p \<noteq> None), filter (\<lambda>e. fst e \<noteq> p) w)),
     fs_walk = (\<lambda>p rec w. (Inr (filter (\<lambda>q. take (length p) q = p \<and>
        (length q = Suc (length p) \<or> rec \<and> length p < length q)) (map fst w), None), w))\<rparr>"

declare enforce_loop.simps [code]

definition sample_disk :: memory where
  "sample_disk = [([''out''], \<lparr>mn_type = Directory, mn_size = 0, mn_time = 0\<rparr>),
     ([''out'', ''shot.png''], \<lparr>mn_type = RegularFile, mn_size = 5, mn_time = - 7000000000000000000\<rparr>),
     ([''out'', ''notes.txt''], \<lparr>mn_type = RegularFile, mn_size = 5, mn_time = - 7000000000000000000\<rparr>)]"

definition sample_limits :: watch_limits where
  "sample_limits = \<lparr>max_files = 0, max_age_days = 1, max_disk_mib = 0\<rparr>"

abbreviation sample_prune :: "ledger_op list" where
  "sample_prune \<equiv> [Scan, PruneAge 0]"

theorem ledger_removes_only_own_files_witness:
  "map_option (snd \<circ> snd) (run_ledger (logged mem_fs) sample_prune (new_ledger [''out''] ''shot'' sample_limits, (sample_disk, []))) =
     Some [[''out'', ''shot.png'']] \<and>
   own_file [''out''] ''shot'' [''out'', ''shot.png'']"
proof -
  let ?run = "run_ledger (logged mem_fs) sample_prune (new_ledger [''out''] ''shot'' sample_limits, (sample_disk, []))"
  have log: "map_option (snd \<circ> snd) ?run = Some [[''out'', ''shot.png'']]"
    by code_simp
  then obtain l w' where run: "?run = Some (l, (w', [[''out'', ''shot.png'']]))"
    by (cases ?run) auto
  have "''..'' \<in> set [''out''] \<longrightarrow> is_absolute [''out'']" by simp
  from ledger_removes_only_own_files [OF this, THEN conjunct1, rule_format, OF run] log show ?thesis by simp
qed

text \<open>
  A relative directory that begins with \<open>..\<close>: \<open>lexically_relative\<close> counts the \<open>..\<close> of the directory against its names, so that
  from \<open>../out\<close> the path \<open>sub/shot.png\<close> of the working directory is taken for a descendant, and pruning removes it. The check of the
  ancestors looks at \<open>../out/sub\<close> instead.\<close>

definition outside_disk :: memory where
  "outside_disk = [([''..'', ''out'', ''sub''], \<lparr>mn_type = Directory, mn_size = 0, mn_time = 0\<rparr>),
     ([''sub'', ''shot.png''], \<lparr>mn_type = RegularFile, mn_size = 5, mn_time = - 7000000000000000000\<rparr>)]"

theorem parent_directory_escapes:
  "map_option (snd \<circ> snd) (run_ledger (logged mem_fs) [Adopt [''sub'', ''shot.png''], PruneAge 0]
     (new_ledger [''..'', ''out''] ''sub/shot'' sample_limits, (outside_disk, []))) = Some [[''sub'', ''shot.png'']]"
  by code_simp

section \<open>The file limit\<close>

text \<open>
  A file system nobody else changes: reading does not change it and fails only for what is not there. Removing
  a file may fail.
\<close>

definition undisturbed :: "'w file_system \<Rightarrow> bool" where
  "undisturbed fs \<longleftrightarrow> (\<forall>p w.
     (\<exists>t. fs_symlink_status fs p w = (t, w) \<and> (\<forall>e. t = Inl e \<longrightarrow> e = Missing)) \<and>
     (\<exists>n. fs_file_size fs p w = (n, w) \<and> (\<forall>e. n = Inl e \<longrightarrow> e = Missing)) \<and>
     (\<exists>m. fs_last_write_time fs p w = (m, w) \<and> (\<forall>e. m = Inl e \<longrightarrow> e = Missing)))"

definition removal_failed :: "'w file_system \<Rightarrow> error \<Rightarrow> 'w \<Rightarrow> bool" where
  "removal_failed fs e w' \<longleftrightarrow> (\<exists>p w fe. fs_remove fs p w = (Inl fe, w') \<and> e = filesystem_failure ''remove'' p fe)"

lemma undisturbed_cases:
  assumes "undisturbed fs"
  shows "fs_symlink_status fs p w = (Inl Missing, w) \<or> (\<exists>t. fs_symlink_status fs p w = (Inr t, w))"
    and "fs_file_size fs p w = (Inl Missing, w) \<or> (\<exists>n. fs_file_size fs p w = (Inr n, w))"
    and "fs_last_write_time fs p w = (Inl Missing, w) \<or> (\<exists>m. fs_last_write_time fs p w = (Inr m, w))"
  using assms unfolding undisturbed_def by (metis old.sum.exhaust)+

lemma undisturbed_ancestors: "undisturbed fs \<Longrightarrow> \<exists>b. ancestors_safe fs p cs w = (Inr b, w)"
proof (induction cs arbitrary: p)
  case (Cons c cs)
  then show ?case
    using undisturbed_cases(1) [OF Cons(2), of "path_append p [c]" w] by (auto simp: Let_def is_missing_def)
qed auto

lemma undisturbed_inspect:
  assumes "undisturbed fs"
  shows "\<exists>r. inspect_regular_file fs dir p w = (Inr r, w)"
proof -
  have chain: "\<exists>b. safe_directory_chain fs dir (parent_path p) w = (Inr b, w)"
    using undisturbed_ancestors [OF assms] by (auto simp: safe_directory_chain_def split: option.splits)
  show ?thesis
    using chain undisturbed_cases(1,2,3) [OF assms, of p w]
    by (cases "relative_descendant dir p") (auto simp: inspect_regular_file_def on_fs_error_def is_missing_def)
qed

definition stale :: "'w file_system \<Rightarrow> path \<Rightarrow> 'w \<Rightarrow> ledger_file \<Rightarrow> bool" where
  "stale fs dir w f \<longleftrightarrow>
     (\<exists>c. inspect_regular_file fs dir (lf_path f) w = (Inr (Some c), w) \<and>
          (lf_modified_at c \<noteq> lf_modified_at f \<or> lf_size c \<noteq> lf_size f))"

lemma length_filter_update:
  assumes "i < length xs" and "P (xs ! i)" and "\<not> P y"
  shows "length (filter P (xs[i := y])) < length (filter P xs)"
  using assms by (induction xs arbitrary: i) (auto simp: nth_Cons split: nat.splits)

lemma undisturbed_remove:
  assumes "undisturbed fs" and "i < length (led_files l)" and "remove_file fs i l w = (r, l', w')"
  shows "same_ledger l l'" and "r = Inl e \<Longrightarrow> removal_failed fs e w'"
    and "r = Inr s \<Longrightarrow> length (led_files l') < length (led_files l) \<or>
     length (led_files l') = length (led_files l) \<and> w' = w \<and>
     length (filter (stale fs (led_dir l) w) (led_files l')) < length (filter (stale fs (led_dir l) w) (led_files l))"
proof -
  let ?f = "led_files l ! i"
  let ?less = "length (led_files l') < length (led_files l) \<or>
     length (led_files l') = length (led_files l) \<and> w' = w \<and>
     length (filter (stale fs (led_dir l) w) (led_files l')) < length (filter (stale fs (led_dir l) w) (led_files l))"
  obtain q where q: "inspect_regular_file fs (led_dir l) (lf_path ?f) w = (Inr q, w)"
    using undisturbed_inspect [OF assms(1)] by blast
  have shorter: "length (erase_index i (led_files l)) < length (led_files l)"
    using assms(2) by (simp add: length_erase_index)
  have "same_ledger l l' \<and> (\<forall>e. r = Inl e \<longrightarrow> removal_failed fs e w') \<and> (\<forall>s. r = Inr s \<longrightarrow> ?less)"
  proof (cases q)
    case None
    then show ?thesis using q shorter assms(3) by (auto simp: remove_file_def Let_def)
  next
    case (Some c)
    have path: "lf_path c = lf_path ?f" by (rule inspect_path [OF q [unfolded Some]])
    show ?thesis
    proof (cases "lf_modified_at c \<noteq> lf_modified_at ?f \<or> lf_size c \<noteq> lf_size ?f")
      case True
      have "stale fs (led_dir l) w ?f" using True q Some by (auto simp: stale_def)
      moreover have "\<not> stale fs (led_dir l) w c" using q Some by (auto simp: stale_def path)
      ultimately have "length (filter (stale fs (led_dir l) w) ((led_files l)[i := c])) <
          length (filter (stale fs (led_dir l) w) (led_files l))"
        using assms(2) by (intro length_filter_update)
      with True q Some assms(3) show ?thesis by (auto simp: remove_file_def Let_def)
    next
      case False
      obtain b w1 where rm: "fs_remove fs (lf_path ?f) w = (b, w1)" by force
      show ?thesis
      proof (cases b)
        case (Inl fe)
        then have "r = Inl (filesystem_failure ''remove'' (lf_path ?f) fe)" "l' = l" "w' = w1"
          using False q Some assms(3) rm by (auto simp: remove_file_def Let_def)
        then show ?thesis using rm Inl by (auto simp: removal_failed_def)
      next
        case (Inr x)
        with False q Some shorter assms(3) rm show ?thesis by (auto simp: remove_file_def Let_def)
      qed
    qed
  qed
  then show "same_ledger l l'" "r = Inl e \<Longrightarrow> removal_failed fs e w'" "r = Inr s \<Longrightarrow> ?less"
    by blast+
qed

lemma undisturbed_enforce_loop:
  assumes "undisturbed fs"
  shows "\<exists>r l' w'. enforce_loop fs l w = Some (r, l', w') \<and>
    (r = Inr () \<longrightarrow> length (led_files l') \<le> unat (max_files (led_limits l))) \<and> (\<forall>e. r = Inl e \<longrightarrow> removal_failed fs e w')"
proof (induction "(length (led_files l), length (filter (stale fs (led_dir l) w) (led_files l)))" arbitrary: l w
    rule: wf_induct_rule [OF wf_lex_prod [OF wf_less_than wf_less_than]])
  case (1 l w)
  show ?case
  proof (cases "length (led_files l) > unat (max_files (led_limits l))")
    case False
    then show ?thesis by (subst enforce_loop.simps) simp
  next
    case True
    then have "led_files l \<noteq> []" by auto
    note i = oldest_index_less [OF this]
    obtain r1 l1 w1 where rm: "remove_file fs (oldest_index (led_files l)) l w = (r1, l1, w1)" by (metis prod.exhaust)
    note step = undisturbed_remove [OF assms i rm]
    show ?thesis
    proof (cases r1)
      case (Inl e)
      then show ?thesis using True rm step(2) by (subst enforce_loop.simps) simp
    next
      case (Inr s)
      from step(3) [OF Inr] step(1)
      have "\<exists>r l' w'. enforce_loop fs l1 w1 = Some (r, l', w') \<and>
        (r = Inr () \<longrightarrow> length (led_files l') \<le> unat (max_files (led_limits l1))) \<and> (\<forall>e. r = Inl e \<longrightarrow> removal_failed fs e w')"
        by (intro 1) (auto simp: same_ledger_def)
      then show ?thesis
        using True rm step(1) Inr by (subst enforce_loop.simps) (simp add: same_ledger_def)
    qed
  qed
qed

lemma undisturbed_inspect_all: "undisturbed fs \<Longrightarrow> \<exists>r. inspect_all fs l files found w = (Inr r, w)"
proof (induction files arbitrary: found)
  case (Cons p files)
  obtain r where "inspect_regular_file fs (led_dir l) p w = (Inr r, w)" using undisturbed_inspect [OF Cons(2)] by blast
  then show ?case using Cons by simp
qed simp

lemma undisturbed_reconcile: "undisturbed fs \<Longrightarrow> \<exists>files. reconcile fs l w = (Inr (), with_files files l, w)"
  using undisturbed_inspect_all [of fs l "map lf_path (led_files l)" "[]" w] by (auto simp: reconcile_def)

lemma mem_fs_undisturbed: "undisturbed mem_fs"
  by (auto simp: undisturbed_def mem_fs_def mem_read_def split: option.splits)

text \<open>
  C35. Adopting a file respects the file limit. On a file system that nobody else changes \<open>adopt\<close> returns. A path outside the
  directory is an error and one that does not match the pattern is ignored; neither changes anything. A matching path that is not a
  regular file is ignored, and no file is removed. A matching regular file is taken up: without a limit, which is what \<open>max_files\<close> zero says,
  it becomes an entry and no file is removed; with a limit, \<open>adopt\<close> leaves at most \<open>max_files\<close> entries when it reports success, however many there were
  before and however stale their recorded sizes and times had become, and the only error it can report is that the file system failed to
  remove a file.\<close>

theorem adopt_respects_file_limit:
  assumes "undisturbed fs"
  shows "\<exists>r l' w'. adopt fs file l w = Some (r, l', w') \<and>
    (let candidate = adopt_candidate (led_dir l) file
     in case relative_descendant (led_dir l) candidate of
          None \<Rightarrow> (\<exists>e. r = Inl e \<and> err_code e = InvalidArgument) \<and> l' = l \<and> w' = w
        | Some relative \<Rightarrow>
            if \<not> matches_pattern (led_pattern l) (generic_string relative) then r = Inr () \<and> l' = l \<and> w' = w
            else case fst (inspect_regular_file fs (led_dir l) candidate w) of
                   Inl e \<Rightarrow> False
                 | Inr None \<Rightarrow> r = Inr () \<and> w' = w
                 | Inr (Some f) \<Rightarrow>
                     if max_files (led_limits l) = 0 then r = Inr () \<and> f \<in> set (led_files l') \<and> w' = w
                     else (r = Inr () \<longrightarrow> length (led_files l') \<le> unat (max_files (led_limits l))) \<and>
                          (\<forall>e. r = Inl e \<longrightarrow> removal_failed fs e w'))"
proof -
  let ?c = "adopt_candidate (led_dir l) file"
  obtain files where rec: "reconcile fs l w = (Inr (), with_files files l, w)" using undisturbed_reconcile [OF assms] by blast
  obtain q where q: "inspect_regular_file fs (led_dir l) ?c w = (Inr q, w)" using undisturbed_inspect [OF assms] by blast
  show ?thesis
  proof (cases "owned l ?c \<and> q \<noteq> None")
    case False
    then show ?thesis using rec q by (auto simp: adopt_def Let_def owned_def fail_code split: option.splits)
  next
    case True
    then obtain f where f: "q = Some f" by auto
    let ?l = "recalculate_total (with_files files l\<lparr>led_files := put_entry f files\<rparr>)"
    have lim: "led_limits ?l = led_limits l" by (simp add: recalculate_total_def)
    obtain r2 l2 w2 where e: "enforce_max_files fs ?l w = Some (r2, l2, w2)"
      and ok: "if max_files (led_limits l) = 0 then r2 = Inr () \<and> l2 = ?l \<and> w2 = w
        else (r2 = Inr () \<longrightarrow> length (led_files l2) \<le> unat (max_files (led_limits l))) \<and> (\<forall>e. r2 = Inl e \<longrightarrow> removal_failed fs e w2)"
    proof (cases "max_files (led_limits l) = 0")
      case True
      then show thesis using that [of "Inr ()" ?l w] lim by (simp add: enforce_max_files_def)
    next
      case False
      then show thesis
        using that undisturbed_enforce_loop [OF assms, of ?l w] lim unfolding enforce_max_files_def by (metis (no_types, lifting))
    qed
    have "adopt fs file l w = Some (r2, if isl r2 then l2 else update_pause_state l2, w2)"
      using True rec q f e by (auto simp: adopt_def Let_def owned_def split: option.splits sum.splits)
    moreover obtain rel where "relative_descendant (led_dir l) ?c = Some rel" "matches_pattern (led_pattern l) (generic_string rel)"
      using True by (auto simp: owned_def split: option.splits)
    ultimately show ?thesis using q f ok in_put_entry [of f files] by (auto split: if_splits)
  qed
qed

theorem adopt_respects_file_limit_witness:
  "\<exists>r l' w'. adopt mem_fs [''out'', ''shot.png''] (new_ledger [''out''] ''shot'' (sample_limits\<lparr>max_files := 1\<rparr>)) sample_disk = Some (r, l', w') \<and>
     (r = Inr () \<longrightarrow> length (led_files l') \<le> 1) \<and> (\<forall>e. r = Inl e \<longrightarrow> removal_failed mem_fs e w')"
proof -
  let ?l = "new_ledger [''out''] ''shot'' (sample_limits\<lparr>max_files := 1\<rparr>)"
  let ?c = "adopt_candidate (led_dir ?l) [''out'', ''shot.png'']"
  have "relative_descendant (led_dir ?l) ?c = Some [''shot.png'']" "matches_pattern (led_pattern ?l) (generic_string [''shot.png''])"
    "fst (inspect_regular_file mem_fs (led_dir ?l) ?c sample_disk) =
      Inr (Some \<lparr>lf_path = [''out'', ''shot.png''], lf_modified_at = - 7000000000000000000, lf_size = 5\<rparr>)"
    by code_simp+
  moreover have "max_files (led_limits ?l) = 1" by (simp add: new_ledger_def)
  ultimately show ?thesis
    using adopt_respects_file_limit [OF mem_fs_undisturbed, of "[''out'', ''shot.png'']" ?l sample_disk]
    by (simp del: One_nat_def add: Let_def)
qed

end
