(* ===== verification/Subscription_Queue.thy ===== *)
theory Subscription_Queue
  imports Events "HOL-Library.Sublist"
begin

text \<open>
  \<open>SubscriptionState\<close> of \<open>src/kernel/events/event_bus.cpp\<close>: the bounded queue of one subscription, a
  ring over a vector of fixed size. Every operation takes the object's mutex for its whole length, so
  an operation is one step here. Callbacks are identified by numbers; \<open>None\<close> is the empty
  \<open>std::function\<close>. Indices are natural numbers: head and size stay below the vector's size.
  Shown: the ring implements a bounded queue; enqueueing on every branch; nothing that must not be
  dropped is lost without a gap marker and the resync flag.
\<close>

section \<open>The interface of a bounded queue\<close>

text \<open>
  The laws a client of a bounded queue relies on, stated on the sequence of its items. \<open>replace\<close>
  overwrites the item pushed last.
\<close>

locale bounded_queue =
  fixes items :: "'s \<Rightarrow> 'a list"
    and cap :: "'s \<Rightarrow> nat"
    and invar :: "'s \<Rightarrow> bool"
    and push :: "'a \<Rightarrow> 's \<Rightarrow> 's"
    and replace :: "'a \<Rightarrow> 's \<Rightarrow> 's"
    and pop :: "'s \<Rightarrow> 's"
  assumes items_bounded: "invar s \<Longrightarrow> length (items s) \<le> cap s"
    and items_push: "invar s \<Longrightarrow> length (items s) < cap s \<Longrightarrow> items (push x s) = items s @ [x]"
    and items_replace: "invar s \<Longrightarrow> items s \<noteq> [] \<Longrightarrow> items (replace x s) = butlast (items s) @ [x]"
    and items_pop: "invar s \<Longrightarrow> items s \<noteq> [] \<Longrightarrow> items (pop s) = tl (items s)"
    and invar_push: "invar s \<Longrightarrow> length (items s) < cap s \<Longrightarrow> invar (push x s)"
    and invar_replace: "invar s \<Longrightarrow> items s \<noteq> [] \<Longrightarrow> invar (replace x s)"
    and invar_pop: "invar s \<Longrightarrow> items s \<noteq> [] \<Longrightarrow> invar (pop s)"
begin

text \<open>A relation that holds between the items in order survives the three operations.\<close>

lemma ordered_push:
  assumes "invar s" and "length (items s) < cap s" and "sorted_wrt R (items s)" and "\<And>y. y \<in> set (items s) \<Longrightarrow> R y x"
  shows "sorted_wrt R (items (push x s))"
  using assms by (simp add: items_push sorted_wrt_append)

lemma sorted_wrt_butlast: "sorted_wrt R xs \<Longrightarrow> sorted_wrt R (butlast xs)"
  by (cases xs rule: rev_cases) (simp_all add: sorted_wrt_append)

lemma ordered_replace:
  assumes "invar s" and "items s \<noteq> []" and "sorted_wrt R (items s)" and "\<And>y. y \<in> set (butlast (items s)) \<Longrightarrow> R y x"
  shows "sorted_wrt R (items (replace x s))"
  using assms by (simp add: items_replace sorted_wrt_append sorted_wrt_butlast)

lemma ordered_pop:
  assumes "invar s" and "items s \<noteq> []" and "sorted_wrt R (items s)"
  shows "sorted_wrt R (items (pop s))" and "y \<in> set (items (pop s)) \<Longrightarrow> R (hd (items s)) y"
  using assms by (cases "items s"; simp add: items_pop)+

lemma set_push: "invar s \<Longrightarrow> length (items s) < cap s \<Longrightarrow> set (items (push x s)) = insert x (set (items s))"
  by (simp add: items_push)

lemma set_replace: "invar s \<Longrightarrow> items s \<noteq> [] \<Longrightarrow> set (items (replace x s)) \<subseteq> insert x (set (items s))"
  by (auto simp: items_replace dest: in_set_butlastD)

lemma set_pop: "invar s \<Longrightarrow> items s \<noteq> [] \<Longrightarrow> set (items (pop s)) \<subseteq> set (items s)"
  by (auto simp: items_pop dest: list.set_sel(2))

end

section \<open>The state of a subscription\<close>

type_synonym callback = nat

record subscription_state =
  ss_id :: uuid
  ss_scope :: subscription_scope
  ss_buffer :: "subscription_event list"
  ss_policy :: queue_overflow_policy
  ss_head :: nat
  ss_size :: nat
  ss_notify :: "callback option"
  ss_overflow_count :: u64
  ss_lagging :: bool
  ss_needs_resync :: bool
  ss_last_delivered :: u64

definition new_subscription :: "uuid \<Rightarrow> subscription_scope \<Rightarrow> queue_options \<Rightarrow> subscription_state" where
  "new_subscription i scope options =
     \<lparr>ss_id = i, ss_scope = scope, ss_buffer = replicate (qo_capacity options) (EventItem default_event),
      ss_policy = qo_overflow options, ss_head = 0, ss_size = 0, ss_notify = None, ss_overflow_count = 0,
      ss_lagging = False, ss_needs_resync = False, ss_last_delivered = 0\<rparr>"

definition sub_kinds :: "subscription_state \<Rightarrow> event_kind list" where
  "sub_kinds s = sc_kinds (ss_scope s)"

definition sub_matches :: "subscription_state \<Rightarrow> event \<Rightarrow> bool" where
  "sub_matches s e \<longleftrightarrow>
     (sub_kinds s = [] \<or> ev_kind e \<in> set (sub_kinds s)) \<and> filter_matches (sc_filter (ss_scope s)) e"

definition coalescible_motion :: "event \<Rightarrow> bool" where
  "coalescible_motion e \<longleftrightarrow> ev_kind e = MouseMove"

definition tail_index :: "subscription_state \<Rightarrow> nat" where
  "tail_index s = (ss_head s + ss_size s) mod length (ss_buffer s)"

definition back_index :: "subscription_state \<Rightarrow> nat" where
  "back_index s = (ss_head s + ss_size s - 1) mod length (ss_buffer s)"

definition next_index :: "subscription_state \<Rightarrow> nat \<Rightarrow> nat" where
  "next_index s i = (i + 1) mod length (ss_buffer s)"

definition push_back :: "subscription_event \<Rightarrow> subscription_state \<Rightarrow> subscription_state" where
  "push_back x s = s\<lparr>ss_buffer := (ss_buffer s)[tail_index s := x], ss_size := ss_size s + 1\<rparr>"

definition replace_back :: "subscription_event \<Rightarrow> subscription_state \<Rightarrow> subscription_state" where
  "replace_back x s = s\<lparr>ss_buffer := (ss_buffer s)[back_index s := x]\<rparr>"

definition mark_overflow :: "subscription_state \<Rightarrow> subscription_state" where
  "mark_overflow s = s\<lparr>ss_lagging := True, ss_overflow_count := ss_overflow_count s + 1\<rparr>"

fun is_gap :: "subscription_event \<Rightarrow> bool" where
  "is_gap (GapItem c q) = True"
| "is_gap (EventItem e) = False"

definition mark_gap :: "subscription_state \<Rightarrow> subscription_state" where
  "mark_gap s =
     (let s = (mark_overflow s)\<lparr>ss_needs_resync := True\<rparr>
      in if ss_buffer s = [] then s
         else if is_gap (ss_buffer s ! back_index s) then s
         else replace_back (GapItem QueueGap (ss_last_delivered s)) s)"

fun is_motion_item :: "subscription_event \<Rightarrow> bool" where
  "is_motion_item (EventItem e) = (ev_kind e = MouseMove)"
| "is_motion_item (GapItem c q) = False"

definition enqueue :: "event \<Rightarrow> subscription_state \<Rightarrow> callback option \<times> subscription_state" where
  "enqueue e s =
     (if ss_buffer s = [] then (None, mark_overflow s)
      else if ss_size s < length (ss_buffer s) then (ss_notify s, push_back (EventItem e) s)
      else if ss_policy s = CoalescePolicy \<and> coalescing_class_of (ev_kind e) = CoalesceClass \<and>
              coalescible_motion e \<and> is_motion_item (ss_buffer s ! back_index s)
      then (ss_notify s, replace_back (EventItem e) s)
      else if ss_policy s = NeverDropPolicy \<or> coalescing_class_of (ev_kind e) = NeverDropClass
      then (ss_notify s, mark_gap s)
      else (None, mark_overflow s))"

definition pop_front :: "subscription_state \<Rightarrow> subscription_state" where
  "pop_front s = s\<lparr>ss_buffer := (ss_buffer s)[ss_head s := EventItem default_event],
                   ss_head := next_index s (ss_head s), ss_size := ss_size s - 1\<rparr>"

definition try_pop_item :: "subscription_state \<Rightarrow> subscription_event option \<times> subscription_state" where
  "try_pop_item s =
     (if ss_size s = 0 then (None, s)
      else let item = ss_buffer s ! ss_head s;
               s = pop_front s
           in (Some item, case item of EventItem e \<Rightarrow> s\<lparr>ss_last_delivered := ev_sequence e\<rparr> | GapItem c q \<Rightarrow> s))"

definition try_pop :: "subscription_state \<Rightarrow> event option \<times> subscription_state" where
  "try_pop s =
     (case try_pop_item s of
        (Some (EventItem e), s') \<Rightarrow> (Some e, s')
      | (_, s') \<Rightarrow> (None, s'))"

definition sub_set_notify :: "callback option \<Rightarrow> subscription_state \<Rightarrow> subscription_state" where
  "sub_set_notify cb s = s\<lparr>ss_notify := cb\<rparr>"

section \<open>The ring is a bounded queue\<close>

definition ring_ok :: "subscription_state \<Rightarrow> bool" where
  "ring_ok s \<longleftrightarrow> ss_size s \<le> length (ss_buffer s) \<and> (ss_buffer s = [] \<or> ss_head s < length (ss_buffer s))"

definition queue_items :: "subscription_state \<Rightarrow> subscription_event list" where
  "queue_items s = map (\<lambda>i. ss_buffer s ! ((ss_head s + i) mod length (ss_buffer s))) [0..<ss_size s]"

definition capacity :: "subscription_state \<Rightarrow> nat" where
  "capacity s = length (ss_buffer s)"

lemma length_queue_items [simp]: "length (queue_items s) = ss_size s"
  by (simp add: queue_items_def)

lemma queue_items_Nil [simp]: "queue_items s = [] \<longleftrightarrow> ss_size s = 0"
  by (simp add: queue_items_def)

text \<open>Different places of the queue lie in different cells of the ring.\<close>

lemma ring_cell_inj:
  assumes "i < n" and "j < n" and "(h + i) mod n = (h + j) mod n"
  shows "i = (j::nat)"
  using assms
proof (induction i j rule: linorder_wlog)
  case (le i j)
  have "n dvd (h + j) - (h + i)"
    using le(1,4) mod_eq_dvd_iff_nat [of "h + i" "h + j" n] by simp
  then have "n dvd j - i" by simp
  moreover have "j - i < n" using le(3) by simp
  ultimately show ?case using le(1) by (auto dest: nat_dvd_not_less)
qed (metis)

lemma queue_items_nth: "i < ss_size s \<Longrightarrow> queue_items s ! i = ss_buffer s ! ((ss_head s + i) mod length (ss_buffer s))"
  by (simp add: queue_items_def)

lemma queue_items_push:
  assumes "ring_ok s" and "ss_size s < capacity s"
  shows "queue_items (push_back x s) = queue_items s @ [x]"
proof (rule nth_equalityI)
  fix i assume i: "i < length (queue_items (push_back x s))"
  let ?n = "length (ss_buffer s)"
  have n: "0 < ?n" using assms(2) unfolding capacity_def by linarith
  have cell: "tail_index s < ?n" using n unfolding tail_index_def by (rule mod_less_divisor)
  have "(ss_head s + i) mod ?n = tail_index s \<longleftrightarrow> i = ss_size s"
    using ring_cell_inj [of i ?n "ss_size s" "ss_head s"] i assms(2)
    by (auto simp: push_back_def tail_index_def capacity_def)
  then show "queue_items (push_back x s) ! i = (queue_items s @ [x]) ! i"
    using i n cell by (auto simp: queue_items_nth nth_append push_back_def nth_list_update)
qed (simp add: push_back_def)

lemma queue_items_replace:
  assumes "ring_ok s" and "ss_size s \<noteq> 0"
  shows "queue_items (replace_back x s) = butlast (queue_items s) @ [x]"
proof (rule nth_equalityI)
  fix i assume "i < length (queue_items (replace_back x s))"
  then have i: "i < ss_size s" by (simp add: replace_back_def)
  let ?n = "length (ss_buffer s)"
  have n: "0 < ?n" "ss_size s \<le> ?n" using assms by (auto simp: ring_ok_def)
  have at_back: "back_index s = (ss_head s + (ss_size s - 1)) mod ?n"
    using assms(2) by (simp add: back_index_def)
  have cell: "back_index s < ?n" using n(1) unfolding back_index_def by (rule mod_less_divisor)
  from at_back have "(ss_head s + i) mod ?n = back_index s \<longleftrightarrow> i = ss_size s - 1"
    using ring_cell_inj [of i ?n "ss_size s - 1" "ss_head s"] i n by auto
  then show "queue_items (replace_back x s) ! i = (butlast (queue_items s) @ [x]) ! i"
    using i n cell by (auto simp: queue_items_nth nth_append nth_butlast replace_back_def nth_list_update)
qed (use assms in \<open>simp add: replace_back_def\<close>)

lemma queue_items_pop:
  assumes "ring_ok s" and "ss_size s \<noteq> 0"
  shows "queue_items (pop_front s) = tl (queue_items s)"
proof (rule nth_equalityI)
  fix i assume "i < length (queue_items (pop_front s))"
  then have i: "Suc i < ss_size s" by (simp add: pop_front_def)
  let ?n = "length (ss_buffer s)"
  have n: "0 < ?n" "ss_size s \<le> ?n" "ss_head s < ?n" using assms by (auto simp: ring_ok_def)
  have "(ss_head s + Suc i) mod ?n \<noteq> (ss_head s + 0) mod ?n"
    using ring_cell_inj [of "Suc i" ?n 0 "ss_head s"] i n by auto
  then have "(ss_head s + Suc i) mod ?n \<noteq> ss_head s" using n by simp
  then show "queue_items (pop_front s) ! i = tl (queue_items s) ! i"
    using i n by (simp add: queue_items_nth nth_tl pop_front_def next_index_def mod_simps)
qed (simp add: pop_front_def)

lemma ring_ok_ops:
  "ring_ok s \<Longrightarrow> ss_size s < capacity s \<Longrightarrow> ring_ok (push_back x s)"
  "ring_ok s \<Longrightarrow> ring_ok (replace_back x s)"
  "ring_ok s \<Longrightarrow> ring_ok (pop_front s)"
  by (auto simp: ring_ok_def push_back_def replace_back_def pop_front_def next_index_def capacity_def
      intro!: mod_less_divisor)

interpretation rb: bounded_queue queue_items capacity ring_ok push_back replace_back pop_front
  by standard
    (auto simp: queue_items_push queue_items_replace queue_items_pop ring_ok_ops,
      simp add: ring_ok_def capacity_def)

section \<open>What enqueueing does to the queue\<close>

text \<open>The four outcomes of \<open>enqueue\<close>, and the specification on the sequence of items.\<close>

datatype outcome = Stored | Coalesced | GapMarked | Dropped

definition must_keep :: "queue_overflow_policy \<Rightarrow> event \<Rightarrow> bool" where
  "must_keep policy e \<longleftrightarrow> policy = NeverDropPolicy \<or> coalescing_class_of (ev_kind e) = NeverDropClass"

definition enqueue_outcome :: "nat \<Rightarrow> queue_overflow_policy \<Rightarrow> event \<Rightarrow> subscription_event list \<Rightarrow> outcome" where
  "enqueue_outcome n policy e q =
     (if n = 0 then Dropped
      else if length q < n then Stored
      else if policy = CoalescePolicy \<and> ev_kind e = MouseMove \<and> is_motion_item (last q) then Coalesced
      else if must_keep policy e then GapMarked
      else Dropped)"

fun enqueue_spec :: "outcome \<Rightarrow> event \<Rightarrow> u64 \<Rightarrow> subscription_event list \<Rightarrow> subscription_event list" where
  "enqueue_spec Stored e delivered q = q @ [EventItem e]"
| "enqueue_spec Coalesced e delivered q = butlast q @ [EventItem e]"
| "enqueue_spec GapMarked e delivered q = (if is_gap (last q) then q else butlast q @ [GapItem QueueGap delivered])"
| "enqueue_spec Dropped e delivered q = q"

lemma motion_coalesces: "coalescing_class_of MouseMove = CoalesceClass"
  by code_simp

lemma queue_items_cong:
  "ss_buffer s' = ss_buffer s \<Longrightarrow> ss_head s' = ss_head s \<Longrightarrow> ss_size s' = ss_size s \<Longrightarrow> queue_items s' = queue_items s"
  by (simp add: queue_items_def)

lemma ring_ok_cong:
  "ss_buffer s' = ss_buffer s \<Longrightarrow> ss_head s' = ss_head s \<Longrightarrow> ss_size s' = ss_size s \<Longrightarrow> ring_ok s' = ring_ok s"
  by (simp add: ring_ok_def)

lemma back_cell_is_last:
  assumes "ss_size s \<noteq> 0"
  shows "ss_buffer s ! back_index s = last (queue_items s)"
proof -
  have "last (queue_items s) = queue_items s ! (ss_size s - 1)"
    using assms by (subst last_conv_nth) simp_all
  then show ?thesis
    using assms by (simp add: queue_items_nth back_index_def)
qed

lemmas state_defs = mark_overflow_def push_back_def replace_back_def pop_front_def

lemma mark_gap_items:
  assumes "ring_ok s" and "ss_size s \<noteq> 0"
  shows "queue_items (mark_gap s) =
      (if is_gap (last (queue_items s)) then queue_items s
       else butlast (queue_items s) @ [GapItem QueueGap (ss_last_delivered s)])"
    and "ring_ok (mark_gap s)"
proof -
  define m where "m = (mark_overflow s)\<lparr>ss_needs_resync := True\<rparr>"
  have m: "queue_items m = queue_items s" "ring_ok m" "ss_size m \<noteq> 0" "ss_buffer m \<noteq> []"
    "ss_last_delivered m = ss_last_delivered s"
    using assms by (auto simp: m_def mark_overflow_def ring_ok_def cong: queue_items_cong)
  then have gap: "mark_gap s = (if is_gap (last (queue_items s)) then m
      else replace_back (GapItem QueueGap (ss_last_delivered s)) m)"
    using back_cell_is_last [OF m(3)] by (simp add: mark_gap_def m_def [symmetric] Let_def)
  show "queue_items (mark_gap s) = (if is_gap (last (queue_items s)) then queue_items s
       else butlast (queue_items s) @ [GapItem QueueGap (ss_last_delivered s)])"
    using m assms(2) rb.items_replace [OF m(2)] by (simp add: gap)
  show "ring_ok (mark_gap s)"
    using m by (simp add: gap ring_ok_ops)
qed

lemma enqueue_cases:
  assumes "ring_ok s" and "enqueue e s = (notify, s')"
  defines "out \<equiv> enqueue_outcome (capacity s) (ss_policy s) e (queue_items s)"
  shows "s' = (case out of Stored \<Rightarrow> push_back (EventItem e) s | Coalesced \<Rightarrow> replace_back (EventItem e) s
                 | GapMarked \<Rightarrow> mark_gap s | Dropped \<Rightarrow> mark_overflow s)"
    and "notify = (if out = Dropped then None else ss_notify s)"
    and "out \<in> {Coalesced, GapMarked} \<Longrightarrow> ss_size s \<noteq> 0"
    and "out = Stored \<Longrightarrow> ss_size s < capacity s"
proof -
  note defs = enqueue_def enqueue_outcome_def capacity_def coalescible_motion_def must_keep_def
  have full: "ss_size s \<noteq> 0" if "\<not> ss_size s < length (ss_buffer s)" "ss_buffer s \<noteq> []"
    using that assms(1) by (auto simp: ring_ok_def)
  show "s' = (case out of Stored \<Rightarrow> push_back (EventItem e) s | Coalesced \<Rightarrow> replace_back (EventItem e) s
                 | GapMarked \<Rightarrow> mark_gap s | Dropped \<Rightarrow> mark_overflow s)"
    "notify = (if out = Dropped then None else ss_notify s)"
    using assms(2) back_cell_is_last [OF full] motion_coalesces
    by (auto simp: defs out_def split: if_splits)
  show "out \<in> {Coalesced, GapMarked} \<Longrightarrow> ss_size s \<noteq> 0" "out = Stored \<Longrightarrow> ss_size s < capacity s"
    using full by (auto simp: out_def enqueue_outcome_def capacity_def split: if_splits)
qed

lemma enqueue_items:
  assumes "ring_ok s" and "enqueue e s = (notify, s')"
  defines "out \<equiv> enqueue_outcome (capacity s) (ss_policy s) e (queue_items s)"
  shows "ring_ok s'" and "queue_items s' = enqueue_spec out e (ss_last_delivered s) (queue_items s)"
proof -
  note c = enqueue_cases [OF assms(1,2), folded out_def]
  have over: "queue_items (mark_overflow s) = queue_items s" "ring_ok (mark_overflow s) = ring_ok s"
    by (simp_all add: mark_overflow_def cong: queue_items_cong ring_ok_cong)
  show "ring_ok s'"
    using c assms(1) mark_gap_items(2) over(2) by (cases out) (simp_all add: ring_ok_ops)
  show "queue_items s' = enqueue_spec out e (ss_last_delivered s) (queue_items s)"
    using c assms(1) mark_gap_items(1) rb.items_push rb.items_replace over(1) by (cases out) simp_all
qed

lemma mark_gap_fields:
  "ss_overflow_count (mark_gap s) = ss_overflow_count s + 1" "ss_lagging (mark_gap s)" "ss_needs_resync (mark_gap s)"
  "ss_policy (mark_gap s) = ss_policy s" "ss_scope (mark_gap s) = ss_scope s" "ss_last_delivered (mark_gap s) = ss_last_delivered s"
  "length (ss_buffer (mark_gap s)) = length (ss_buffer s)" "ss_id (mark_gap s) = ss_id s"
  by (auto simp: mark_gap_def Let_def mark_overflow_def replace_back_def)

lemma enqueue_flags:
  assumes "ring_ok s" and "enqueue e s = (notify, s')"
  defines "out \<equiv> enqueue_outcome (capacity s) (ss_policy s) e (queue_items s)"
  shows "ss_overflow_count s' = ss_overflow_count s + (if out \<in> {GapMarked, Dropped} then 1 else 0)"
    and "ss_lagging s' \<longleftrightarrow> ss_lagging s \<or> out \<in> {GapMarked, Dropped}"
    and "ss_needs_resync s' \<longleftrightarrow> ss_needs_resync s \<or> out = GapMarked"
    and "ss_last_delivered s' = ss_last_delivered s" and "ss_scope s' = ss_scope s"
    and "ss_policy s' = ss_policy s" and "capacity s' = capacity s"
  using enqueue_cases(1) [OF assms(1,2), folded out_def]
  by (cases out; simp add: mark_gap_fields capacity_def state_defs)+

lemma try_pop_item_items:
  assumes "ring_ok s" and "try_pop_item s = (item, s')"
  shows "ring_ok s'"
    and "item = (if queue_items s = [] then None else Some (hd (queue_items s)))"
    and "queue_items s' = tl (queue_items s)"
proof -
  have hd: "hd (queue_items s) = ss_buffer s ! ss_head s" if "ss_size s \<noteq> 0"
    using that assms(1) by (subst hd_conv_nth) (auto simp: queue_items_nth ring_ok_def)
  show "ring_ok s'"
    using assms ring_ok_ops(3) [OF assms(1)]
    by (auto simp: try_pop_item_def Let_def ring_ok_def split: if_splits subscription_event.splits)
  show "item = (if queue_items s = [] then None else Some (hd (queue_items s)))"
    using assms(2) hd by (auto simp: try_pop_item_def Let_def split: if_splits)
  show "queue_items s' = tl (queue_items s)"
  proof (cases "ss_size s = 0")
    case True
    then have "queue_items s = []" and "s' = s"
      using assms(2) by (auto simp: try_pop_item_def)
    then show ?thesis by (simp del: queue_items_Nil)
  next
    case False
    then have "queue_items (pop_front s) = tl (queue_items s)" using rb.items_pop [OF assms(1)] by simp
    moreover have "queue_items s' = queue_items (pop_front s)"
      using assms(2) False
      by (auto simp: try_pop_item_def Let_def cong: queue_items_cong split: subscription_event.splits)
    ultimately show ?thesis by simp
  qed
qed

lemma try_pop_item_fields:
  assumes "try_pop_item s = (item, s')"
  shows "ss_overflow_count s' = ss_overflow_count s" "ss_lagging s' = ss_lagging s"
    "ss_needs_resync s' = ss_needs_resync s" "ss_policy s' = ss_policy s" "ss_scope s' = ss_scope s" "capacity s' = capacity s"
    "ss_last_delivered s' = (case item of Some (EventItem e) \<Rightarrow> ev_sequence e | _ \<Rightarrow> ss_last_delivered s)"
  using assms
  by (auto simp: try_pop_item_def Let_def pop_front_def capacity_def split: if_splits subscription_event.splits)

text \<open>
  C12. The ring buffer of a subscription implements a bounded queue. \<open>enqueue\<close> appends the event while
  there is room; when the queue is full it replaces a pending mouse move by a newer one, or turns the
  last item into a gap marker if the event must not be dropped, or drops the event; the overflow count,
  the lagging and resync flags and the notification follow the outcome. \<open>try_pop_item\<close> removes and
  returns the oldest item, and leaves an empty queue alone. Both keep the ring well formed.\<close>

theorem subscription_queue_refines:
  assumes "ring_ok s" and "enqueue e s = (notify, s')" and "try_pop_item s = (item, t)"
    and "out = enqueue_outcome (capacity s) (ss_policy s) e (queue_items s)"
  shows "ring_ok s' \<and> queue_items s' = enqueue_spec out e (ss_last_delivered s) (queue_items s) \<and>
      ss_overflow_count s' = ss_overflow_count s + (if out \<in> {GapMarked, Dropped} then 1 else 0) \<and>
      ss_lagging s' = (ss_lagging s \<or> out \<in> {GapMarked, Dropped}) \<and>
      ss_needs_resync s' = (ss_needs_resync s \<or> out = GapMarked) \<and>
      notify = (if out = Dropped then None else ss_notify s) \<and>
      ring_ok t \<and> item = (if queue_items s = [] then None else Some (hd (queue_items s))) \<and> queue_items t = tl (queue_items s)"
  using enqueue_items [OF assms(1,2)] enqueue_flags(1-3) [OF assms(1,2)] enqueue_cases(2) [OF assms(1,2)]
    try_pop_item_items [OF assms(1,3)] unfolding assms(4) by (intro conjI)

definition sample_scope :: subscription_scope where
  "sample_scope = \<lparr>sc_kinds = [MouseMove, KeyDown], sc_filter = \<lparr>ef_kinds = [], ef_categories = []\<rparr>\<rparr>"

definition sample_subscription :: subscription_state where
  "sample_subscription = new_subscription nil_uuid sample_scope \<lparr>qo_capacity = 1, qo_overflow = CoalescePolicy\<rparr>"

definition sample_event :: "event_kind \<Rightarrow> event" where
  "sample_event k = default_event\<lparr>ev_kind := k\<rparr>"

theorem subscription_queue_refines_witness:
  "queue_items (snd (enqueue (sample_event KeyDown) (snd (enqueue (sample_event MouseMove) sample_subscription)))) =
   [GapItem QueueGap 0]"
proof -
  let ?s = "snd (enqueue (sample_event MouseMove) sample_subscription)"
  have "ring_ok ?s"
    by code_simp
  moreover have "enqueue_outcome (capacity ?s) (ss_policy ?s) (sample_event KeyDown) (queue_items ?s) = GapMarked"
    by code_simp
  ultimately have "queue_items (snd (enqueue (sample_event KeyDown) ?s)) =
      enqueue_spec GapMarked (sample_event KeyDown) (ss_last_delivered ?s) (queue_items ?s)"
    using subscription_queue_refines [of ?s "sample_event KeyDown", OF _ prod.collapse [symmetric] prod.collapse [symmetric], of GapMarked]
    by simp
  also have "\<dots> = [GapItem QueueGap 0]"
    by code_simp
  finally show ?thesis .
qed

section \<open>Nothing that must be kept is lost silently\<close>

text \<open>The life of one queue: events are offered to it and items are taken from it, in any order.\<close>

datatype queue_op = Offer event | Take

fun run_queue_op :: "queue_op \<Rightarrow> subscription_state \<times> subscription_event list \<Rightarrow> subscription_state \<times> subscription_event list" where
  "run_queue_op (Offer e) (s, delivered) = (snd (enqueue e s), delivered)"
| "run_queue_op Take (s, delivered) =
     (case try_pop_item s of (item, s') \<Rightarrow> (s', delivered @ (case item of None \<Rightarrow> [] | Some x \<Rightarrow> [x])))"

definition run_queue :: "queue_op list \<Rightarrow> subscription_state \<Rightarrow> subscription_state \<times> subscription_event list" where
  "run_queue ops s = fold run_queue_op ops (s, [])"

fun offered :: "queue_op list \<Rightarrow> event list" where
  "offered [] = []"
| "offered (Offer e # ops) = e # offered ops"
| "offered (Take # ops) = offered ops"

fun events_of :: "subscription_event list \<Rightarrow> event list" where
  "events_of [] = []"
| "events_of (EventItem e # xs) = e # events_of xs"
| "events_of (GapItem c q # xs) = events_of xs"

lemma events_of_append: "events_of (xs @ ys) = events_of xs @ events_of ys"
  by (induction xs rule: events_of.induct) auto

lemma offered_append: "offered (xs @ ys) = offered xs @ offered ys"
  by (induction xs rule: offered.induct) auto

text \<open>What remains of some events when mouse moves are left out that another mouse move follows at once.\<close>

inductive thinned :: "event list \<Rightarrow> event list \<Rightarrow> bool" where
  none: "thinned [] []"
| kept: "thinned xs ys \<Longrightarrow> thinned (x # xs) (x # ys)"
| superseded: "thinned xs (z # ys) \<Longrightarrow> ev_kind y = MouseMove \<Longrightarrow> ev_kind z = MouseMove \<Longrightarrow> thinned xs (y # z # ys)"

inductive_simps thinned_Nil: "thinned xs []"

lemma thinned_snoc: "thinned xs ys \<Longrightarrow> thinned (xs @ [e]) (ys @ [e])"
  by (induction rule: thinned.induct) (auto intro: thinned.intros)

lemma thinned_Nil_iff: "thinned xs ys \<Longrightarrow> xs = [] \<longleftrightarrow> ys = []"
  by (induction rule: thinned.induct) auto

text \<open>The last event is never left out, so that a newer move can take its place.\<close>

lemma thinned_replace:
  assumes "thinned zs ys" and "zs = xs @ [m]" and "ev_kind m = MouseMove" and "ev_kind e = MouseMove"
  shows "thinned (xs @ [e]) (ys @ [e])"
  using assms
proof (induction arbitrary: xs rule: thinned.induct)
  case (kept zs ys x)
  show ?case
  proof (cases xs)
    case Nil
    then have "zs = []" "x = m" using kept.prems(1) by simp_all
    then have "ys = []" using thinned_Nil_iff [OF kept.hyps(1)] by simp
    have "thinned [e] [m, e]" using kept.prems by (auto intro!: thinned.intros)
    then show ?thesis using Nil \<open>ys = []\<close> \<open>x = m\<close> by simp
  next
    case (Cons w ws)
    then show ?thesis using kept.IH [of ws] kept.prems by (auto intro: thinned.kept)
  qed
next
  case (superseded zs z ys y)
  then show ?case by (auto intro: thinned.superseded)
qed simp

definition accounted :: "queue_overflow_policy \<Rightarrow> event list \<Rightarrow> bool \<Rightarrow> bool \<Rightarrow> subscription_event list \<Rightarrow> bool" where
  "accounted policy offer lagging resync seen \<longleftrightarrow>
     (resync \<longleftrightarrow> (\<exists>x\<in>set seen. is_gap x)) \<and> (resync \<longrightarrow> lagging) \<and> subseq (events_of seen) offer \<and>
     (\<not> resync \<longrightarrow> filter (must_keep policy) (events_of seen) = filter (must_keep policy) offer) \<and>
     (\<not> lagging \<longrightarrow> (if policy = CoalescePolicy then thinned (events_of seen) offer else events_of seen = offer))"

definition queue_accounted :: "event list \<Rightarrow> subscription_state \<times> subscription_event list \<Rightarrow> bool" where
  "queue_accounted offer st \<longleftrightarrow>
     (let (s, delivered) = st
      in ring_ok s \<and> 0 < capacity s \<and> length (delivered @ queue_items s) \<le> length offer \<and>
         (ss_lagging s \<longrightarrow> capacity s < length offer) \<and>
         accounted (ss_policy s) offer (ss_lagging s) (ss_needs_resync s) (delivered @ queue_items s))"

lemma subseq_drop_last: "subseq (xs @ [m]) ys \<Longrightarrow> subseq xs ys"
  by (meson subseq_order.trans subseq_rev_drop_many subseq_order.refl)

lemma accounted_stored:
  "accounted policy offer l r seen \<Longrightarrow> accounted policy (offer @ [e]) l r (seen @ [EventItem e])"
  by (auto simp: accounted_def events_of_append thinned_snoc)

lemma accounted_coalesced:
  assumes "accounted CoalescePolicy offer l r (pre @ [EventItem m])" and "ev_kind m = MouseMove" and "ev_kind e = MouseMove"
  shows "accounted CoalescePolicy (offer @ [e]) l r (pre @ [EventItem e])"
  using assms subseq_drop_last [of "events_of pre" m offer]
  by (auto simp: accounted_def events_of_append must_keep_def motion_coalesces intro: thinned_replace)

lemma accounted_gap:
  assumes "accounted policy offer l r (pre @ [EventItem m])"
  shows "accounted policy (offer @ [e]) True True (pre @ [GapItem c q])"
  using assms subseq_drop_last [of "events_of pre" m offer]
  by (auto simp: accounted_def events_of_append intro: subseq_rev_drop_many list_emb_append2)

lemma accounted_gap_kept:
  assumes "accounted policy offer l r (pre @ [x])" and "is_gap x"
  shows "accounted policy (offer @ [e]) True True (pre @ [x])"
  using assms by (auto simp: accounted_def intro: list_emb_append2)

lemma accounted_dropped:
  assumes "accounted policy offer l r seen" and "\<not> must_keep policy e"
  shows "accounted policy (offer @ [e]) True r seen"
  using assms by (auto simp: accounted_def intro: list_emb_append2)

lemma offer_accounted:
  assumes "queue_accounted offer (s, delivered)"
  shows "queue_accounted (offer @ [e]) (run_queue_op (Offer e) (s, delivered))"
proof -
  obtain notify s' where enq: "enqueue e s = (notify, s')" by force
  let ?q = "queue_items s" and ?out = "enqueue_outcome (capacity s) (ss_policy s) e (queue_items s)"
  from assms have ok: "ring_ok s" and cap: "0 < capacity s"
    and acc: "accounted (ss_policy s) offer (ss_lagging s) (ss_needs_resync s) (delivered @ ?q)"
    by (auto simp: queue_accounted_def)
  have split: "delivered @ ?q = (delivered @ butlast ?q) @ [last ?q]" if "ss_size s \<noteq> 0"
    using that by (simp del: queue_items_Nil add: queue_items_Nil [symmetric])
  note items = enqueue_items [OF ok enq] and flags = enqueue_flags [OF ok enq] and c = enqueue_cases(3) [OF ok enq]
  have "accounted (ss_policy s) (offer @ [e]) (ss_lagging s') (ss_needs_resync s') (delivered @ queue_items s')"
  proof (cases ?out)
    case Stored
    with accounted_stored [OF acc, of e] show ?thesis by (simp add: items flags)
  next
    case Coalesced
    then have sz: "ss_size s \<noteq> 0" using c by simp
    from Coalesced have pol: "ss_policy s = CoalescePolicy" "ev_kind e = MouseMove" "is_motion_item (last ?q)"
      by (auto simp: enqueue_outcome_def split: if_splits)
    then obtain m where "last ?q = EventItem m" "ev_kind m = MouseMove" by (cases "last ?q") auto
    with accounted_coalesced [of offer _ _ "delivered @ butlast ?q" m e] acc pol split [OF sz] Coalesced
    show ?thesis by (simp add: items flags)
  next
    case GapMarked
    then have sz: "ss_size s \<noteq> 0" using c by simp
    show ?thesis
    proof (cases "last ?q")
      case (EventItem m)
      with accounted_gap [of "ss_policy s" offer _ _ "delivered @ butlast ?q" m e] acc split [OF sz] GapMarked
      show ?thesis by (simp add: items flags)
    next
      case (GapItem x y)
      with accounted_gap_kept [of "ss_policy s" offer _ _ "delivered @ butlast ?q" "last ?q" e] acc split [OF sz] GapMarked
      show ?thesis by (simp add: items flags)
    qed
  next
    case Dropped
    then have "\<not> must_keep (ss_policy s) e" using cap by (auto simp: enqueue_outcome_def split: if_splits)
    with accounted_dropped [OF acc] Dropped show ?thesis by (simp add: items flags)
  qed
  moreover have "length (delivered @ queue_items s') \<le> length (offer @ [e])"
    using assms by (cases ?out) (auto simp: queue_accounted_def items(2))
  moreover have "capacity s < length (offer @ [e])" if "ss_lagging s'"
  proof (cases "ss_lagging s")
    case False
    then have "?out \<in> {GapMarked, Dropped}" using that flags(2) by simp
    then have "\<not> length ?q < capacity s" using cap by (auto simp: enqueue_outcome_def split: if_splits)
    then show ?thesis using assms by (auto simp: queue_accounted_def)
  qed (use assms in \<open>auto simp: queue_accounted_def\<close>)
  ultimately show ?thesis
    using items(1) cap by (simp add: queue_accounted_def enq flags)
qed

lemma take_accounted:
  assumes "queue_accounted offer (s, delivered)"
  shows "queue_accounted offer (run_queue_op Take (s, delivered))"
proof -
  obtain item s' where pop: "try_pop_item s = (item, s')" by force
  have ok: "ring_ok s" using assms by (simp add: queue_accounted_def)
  have "(delivered @ (case item of None \<Rightarrow> [] | Some x \<Rightarrow> [x])) @ queue_items s' = delivered @ queue_items s"
    using try_pop_item_items(2,3) [OF ok pop] by (cases "queue_items s") (simp_all del: queue_items_Nil)
  moreover from arg_cong [OF this, of length] have "length (case item of None \<Rightarrow> [] | Some x \<Rightarrow> [x]) + ss_size s' = ss_size s"
    by simp
  ultimately show ?thesis
    using assms try_pop_item_items(1) [OF ok pop]
    by (cases item) (simp_all add: queue_accounted_def pop try_pop_item_fields [OF pop])
qed

lemma run_accounted:
  "queue_accounted offer st \<Longrightarrow> queue_accounted (offer @ offered ops) (fold run_queue_op ops st)"
proof (induction ops arbitrary: offer st)
  case Nil
  then show ?case by simp
next
  case (Cons op ops)
  show ?case
  proof (cases op)
    case (Offer e)
    have "queue_accounted (offer @ [e]) (run_queue_op op st)"
      using Cons(2) offer_accounted [of offer "fst st" "snd st" e] by (simp add: Offer)
    from Cons(1) [OF this] show ?thesis by (simp add: Offer)
  next
    case Take
    have "queue_accounted offer (run_queue_op op st)"
      using Cons(2) take_accounted [of offer "fst st" "snd st"] by (simp add: Take)
    from Cons(1) [OF this] show ?thesis by (simp add: Take)
  qed
qed

lemma new_subscription_ring: "ring_ok (new_subscription i scope options)" "queue_items (new_subscription i scope options) = []"
  by (auto simp: ring_ok_def new_subscription_def queue_items_def)

lemma new_subscription_fields:
  "capacity (new_subscription i scope options) = qo_capacity options" "\<not> ss_lagging (new_subscription i scope options)"
  "\<not> ss_needs_resync (new_subscription i scope options)" "ss_last_delivered (new_subscription i scope options) = 0"
  "ss_scope (new_subscription i scope options) = scope" "ss_policy (new_subscription i scope options) = qo_overflow options"
  by (simp_all add: new_subscription_def capacity_def)

lemma run_queue_fields:
  assumes "fold run_queue_op ops (s, delivered) = (s', delivered')" and "ring_ok s"
  shows "ss_policy s' = ss_policy s" and "capacity s' = capacity s"
proof -
  have "ss_policy s' = ss_policy s \<and> capacity s' = capacity s"
    using assms
  proof (induction ops arbitrary: s delivered)
    case (Cons op ops)
    obtain t d where step: "run_queue_op op (s, delivered) = (t, d)" by force
    have "ring_ok t \<and> ss_policy t = ss_policy s \<and> capacity t = capacity s"
    proof (cases op)
      case (Offer e)
      then have "enqueue e s = (fst (enqueue e s), t)" using step by auto
      from enqueue_items(1) [OF Cons.prems(2) this] enqueue_flags(6,7) [OF Cons.prems(2) this] show ?thesis by simp
    next
      case Take
      then have "try_pop_item s = (fst (try_pop_item s), t)" using step by (auto split: prod.splits)
      from try_pop_item_items(1) [OF Cons.prems(2) this] try_pop_item_fields [OF this] show ?thesis by simp
    qed
    then show ?case using Cons.IH [of t d] Cons.prems(1) step by simp
  qed simp
  then show "ss_policy s' = ss_policy s" "capacity s' = capacity s" by blast+
qed

lemma offer_with_room:
  assumes "ring_ok s" and "length (queue_items s) < capacity s"
  shows "queue_items (snd (enqueue e s)) = queue_items s @ [EventItem e]"
  using enqueue_items(2) [OF assms(1) prod.collapse [symmetric]] assms(2)
  by (simp add: enqueue_outcome_def del: length_queue_items)

text \<open>
  C10. Nothing that must be kept is lost silently. Let events be offered to a fresh subscription queue with
  room for at least one item, and items be taken from it, in any order. What has been taken and what is
  still queued is then a subsequence of what was offered; the resync flag is up exactly when a gap marker
  is among these items; while it is down every event that must not be dropped is there, in order. The queue only lags after
  more events than it has room for; while it does not lag, nothing is missing, except that under the coalescing policy a mouse
  move may be missing that was followed at once by another mouse move. Whatever the flags, an event offered while there is room
  is put at the end of the queue. (A queue of capacity zero drops every event, and lags.)\<close>

theorem no_silent_loss:
  assumes "0 < qo_capacity options"
    and "run_queue ops (new_subscription i scope options) = (s, delivered)"
    and "seen = delivered @ queue_items s"
  shows "subseq (events_of seen) (offered ops) \<and>
    (ss_needs_resync s \<longleftrightarrow> (\<exists>x\<in>set seen. is_gap x)) \<and> (ss_needs_resync s \<longrightarrow> ss_lagging s) \<and>
    (\<not> ss_needs_resync s \<longrightarrow>
       filter (must_keep (qo_overflow options)) (events_of seen) = filter (must_keep (qo_overflow options)) (offered ops)) \<and>
    (ss_lagging s \<longrightarrow> qo_capacity options < length (offered ops)) \<and>
    (\<not> ss_lagging s \<longrightarrow>
       (if qo_overflow options = CoalescePolicy then thinned (events_of seen) (offered ops) else events_of seen = offered ops)) \<and>
    (\<forall>e. length (queue_items s) < qo_capacity options \<longrightarrow>
       (let (s', delivered') = run_queue (ops @ [Offer e]) (new_subscription i scope options)
        in delivered' = delivered \<and> queue_items s' = queue_items s @ [EventItem e]))"
proof -
  have "queue_accounted [] (new_subscription i scope options, [])"
    using assms(1) new_subscription_ring [of i scope options]
    by (simp add: queue_accounted_def accounted_def new_subscription_fields thinned.none del: queue_items_Nil length_queue_items)
  from run_accounted [OF this, of ops] have acc: "queue_accounted (offered ops) (s, delivered)" using assms(2) by (simp add: run_queue_def)
  have fields: "ss_policy s = qo_overflow options" "capacity s = qo_capacity options"
    using run_queue_fields [of ops "new_subscription i scope options" "[]" s delivered] new_subscription_ring(1) assms(2)
    by (simp_all add: run_queue_def new_subscription_fields)
  have "queue_items (snd (enqueue e s)) = queue_items s @ [EventItem e]" if "length (queue_items s) < qo_capacity options" for e
    using acc that by (intro offer_with_room) (auto simp: queue_accounted_def fields)
  moreover have "run_queue (ops @ [Offer e]) (new_subscription i scope options) = (snd (enqueue e s), delivered)" for e
    using assms(2) by (simp add: run_queue_def)
  ultimately have room: "\<forall>e. length (queue_items s) < qo_capacity options \<longrightarrow>
       (let (s', delivered') = run_queue (ops @ [Offer e]) (new_subscription i scope options)
        in delivered' = delivered \<and> queue_items s' = queue_items s @ [EventItem e])"
    by (simp del: length_queue_items)
  show ?thesis
    unfolding assms(3) using acc [unfolded queue_accounted_def accounted_def prod.case Let_def [where s = "(s, delivered)"] fields] room
    by (intro conjI) simp_all
qed

theorem no_silent_loss_witness:
  "(let (s, delivered) = run_queue [Offer (sample_event KeyDown), Offer (sample_event KeyDown), Take] sample_subscription
    in ss_needs_resync s \<and> delivered @ queue_items s = [GapItem QueueGap 0])"
proof -
  let ?ops = "[Offer (sample_event KeyDown), Offer (sample_event KeyDown), Take]"
  obtain s delivered where run: "run_queue ?ops sample_subscription = (s, delivered)" by force
  have items: "(case run_queue ?ops sample_subscription of (s, d) \<Rightarrow> d @ queue_items s) = [GapItem QueueGap 0]"
    by code_simp
  have "ss_needs_resync s"
    using no_silent_loss [OF _ run [unfolded sample_subscription_def] refl] items [unfolded run prod.case]
    by (simp del: set_append)
  with items run show ?thesis by simp
qed

end
