(* ===== verification/Event_Bus.thy ===== *)
theory Event_Bus
  imports Subscription_Queue
begin

unbundle bit_operations_syntax

text \<open>
  \<open>EventBusState\<close>, \<open>EventBus\<close> and \<open>Subscription\<close> of \<open>src/kernel/events/event_bus.cpp\<close>. The subscription
  objects live in a store by address: the bus holds shared pointers to the subscribed ones, a handle
  holds one to its own. A snapshot provider is an opaque value \<open>'f\<close>; what a provider returns when it is
  called is an argument of the subscribe operation. A callback that is invoked is part of an operation's
  result, in order; the bus catches whatever a callback throws and goes on. Allocation failure is not
  modelled. Shown: identifiers are distinct for the first \<open>2^56\<close> subscriptions; reference counts equal the
  number of live subscriptions per kind and the demand callback hears exactly the changes; every queue
  holds its events in strictly increasing sequence order.
\<close>

section \<open>Subscription identifiers\<close>

definition id_byte :: "u64 \<Rightarrow> nat \<Rightarrow> u8" where
  "id_byte v offset = ucast (drop_bit (offset * 8) v AND 0xFF)"

definition make_subscription_id :: "u64 \<Rightarrow> uuid" where
  "make_subscription_id v =
     (fold (\<lambda>offset bytes. bytes[16 - 1 - offset := id_byte v offset]) [0..<8] nil_uuid)[6 := 0x70, 8 := 0x80]"

section \<open>The bus\<close>

record 'f bus_state =
  bus_alive :: bool
  bus_store :: "subscription_state list"
  bus_subscriptions :: "nat list"
  bus_providers :: "(event_kind, 'f) omap"
  bus_refcounts :: "(event_kind, nat) omap"
  bus_demand :: "callback option"
  bus_next_sequence :: u64
  bus_next_id :: u64

definition new_bus :: "u64 \<Rightarrow> 'f bus_state" where
  "new_bus next_id = \<lparr>bus_alive = True, bus_store = [], bus_subscriptions = [], bus_providers = [], bus_refcounts = [],
     bus_demand = None, bus_next_sequence = 1, bus_next_id = next_id\<rparr>"

type_synonym demand_call = "callback \<times> event_kind \<times> bool"

definition invoke_demand_callback :: "callback option \<Rightarrow> (event_kind \<times> bool) list \<Rightarrow> demand_call list" where
  "invoke_demand_callback cb transitions = (case cb of None \<Rightarrow> [] | Some c \<Rightarrow> map (Pair c) transitions)"

text \<open>\<open>EventBusState::add\<close>: replay the current set of each kind that has one, then count the kinds.\<close>

definition replay_event :: "event_kind \<Rightarrow> event \<Rightarrow> subscription_state \<times> u64 \<Rightarrow> subscription_state \<times> u64" where
  "replay_event kind e acc =
     (case acc of (s, next_sequence) \<Rightarrow>
        if ev_kind e \<noteq> kind \<or> \<not> sub_matches s e then (s, next_sequence)
        else (snd (enqueue (e\<lparr>ev_sequence := next_sequence\<rparr>) s), next_sequence + 1))"

definition replay_kind ::
  "(event_kind, 'f) omap \<Rightarrow> ('f \<Rightarrow> event list) \<Rightarrow> event_kind \<Rightarrow> subscription_state \<times> u64 \<Rightarrow> subscription_state \<times> u64" where
  "replay_kind providers call kind acc =
     (if replay_policy_of kind \<noteq> CurrentSet then acc
      else case omap_find providers kind of
             None \<Rightarrow> acc
           | Some provider \<Rightarrow> fold (replay_event kind) (call provider) acc)"

definition count_kind ::
  "event_kind \<Rightarrow> (event_kind, nat) omap \<times> (event_kind \<times> bool) list \<Rightarrow> (event_kind, nat) omap \<times> (event_kind \<times> bool) list" where
  "count_kind kind acc =
     (case acc of (counts, transitions) \<Rightarrow>
        let count = (case omap_find counts kind of None \<Rightarrow> 0 | Some c \<Rightarrow> c)
        in (omap_put kind (count + 1) counts, if count = 0 then transitions @ [(kind, True)] else transitions))"

definition bus_add :: "('f \<Rightarrow> event list) \<Rightarrow> subscription_state \<Rightarrow> 'f bus_state \<Rightarrow> 'f bus_state \<times> demand_call list" where
  "bus_add call s b =
     (let (s, next_sequence) = fold (replay_kind (bus_providers b) call) (sub_kinds s) (s, bus_next_sequence b);
          (counts, transitions) = fold count_kind (sub_kinds s) (bus_refcounts b, [])
      in (b\<lparr>bus_store := bus_store b @ [s], bus_subscriptions := bus_subscriptions b @ [length (bus_store b)],
            bus_refcounts := counts, bus_next_sequence := next_sequence\<rparr>,
          invoke_demand_callback (bus_demand b) transitions))"

text \<open>\<open>EventBusState::remove\<close>; the count is a \<open>std::size_t\<close> and wraps below zero.\<close>

definition uncount_kind ::
  "event_kind \<Rightarrow> (event_kind, nat) omap \<times> (event_kind \<times> bool) list \<Rightarrow> (event_kind, nat) omap \<times> (event_kind \<times> bool) list" where
  "uncount_kind kind acc =
     (case acc of (counts, transitions) \<Rightarrow>
        case omap_find counts kind of
          None \<Rightarrow> (counts, transitions)
        | Some count \<Rightarrow>
            let count = (if count = 0 then 2 ^ 64 - 1 else count - 1)
            in if count = 0 then (omap_erase kind counts, transitions @ [(kind, False)])
               else (omap_put kind count counts, transitions))"

definition bus_remove :: "nat \<Rightarrow> 'f bus_state \<Rightarrow> 'f bus_state \<times> demand_call list" where
  "bus_remove a b =
     (if a \<notin> set (bus_subscriptions b) then (b, [])
      else let (counts, transitions) = fold uncount_kind (sub_kinds (bus_store b ! a)) (bus_refcounts b, [])
           in (b\<lparr>bus_subscriptions := remove1 a (bus_subscriptions b), bus_refcounts := counts\<rparr>,
               invoke_demand_callback (bus_demand b) transitions))"

definition register_snapshot_provider :: "event_kind \<Rightarrow> 'f \<Rightarrow> 'f bus_state \<Rightarrow> 'f bus_state" where
  "register_snapshot_provider kind provider b = b\<lparr>bus_providers := omap_put kind provider (bus_providers b)\<rparr>"

definition unregister_snapshot_provider :: "event_kind \<Rightarrow> 'f bus_state \<Rightarrow> 'f bus_state" where
  "unregister_snapshot_provider kind b = b\<lparr>bus_providers := omap_erase kind (bus_providers b)\<rparr>"

definition set_demand_callback :: "callback option \<Rightarrow> 'f bus_state \<Rightarrow> 'f bus_state" where
  "set_demand_callback cb b = b\<lparr>bus_demand := cb\<rparr>"

definition subscription_refcount :: "event_kind \<Rightarrow> 'f bus_state \<Rightarrow> nat" where
  "subscription_refcount kind b = (case omap_find (bus_refcounts b) kind of None \<Rightarrow> 0 | Some c \<Rightarrow> c)"

definition deliver_to :: "event \<Rightarrow> nat \<Rightarrow> subscription_state list \<times> callback list \<Rightarrow> subscription_state list \<times> callback list" where
  "deliver_to e a acc =
     (case acc of (store, to_notify) \<Rightarrow>
        if \<not> sub_matches (store ! a) e then (store, to_notify)
        else case enqueue e (store ! a) of (notify, s) \<Rightarrow>
               (store[a := s], case notify of None \<Rightarrow> to_notify | Some c \<Rightarrow> to_notify @ [c]))"

definition publish :: "event \<Rightarrow> 'f bus_state \<Rightarrow> 'f bus_state \<times> callback list" where
  "publish e b =
     (let (store, to_notify) =
        fold (deliver_to (e\<lparr>ev_sequence := bus_next_sequence b\<rparr>)) (bus_subscriptions b) (bus_store b, [])
      in (b\<lparr>bus_store := store, bus_next_sequence := bus_next_sequence b + 1\<rparr>, to_notify))"

section \<open>Subscribing and handles\<close>

fun unique_kinds_from :: "event_kind list \<Rightarrow> event_kind list \<Rightarrow> event_kind list" where
  "unique_kinds_from seen [] = seen"
| "unique_kinds_from seen (kind # kinds) =
     unique_kinds_from (if kind \<in> set seen then seen else seen @ [kind]) kinds"

definition scope_with_kinds :: "subscription_scope \<Rightarrow> subscription_scope" where
  "scope_with_kinds scope =
     scope\<lparr>sc_kinds := if sc_kinds scope = [] then map evd_kind event_descriptors else unique_kinds_from [] (sc_kinds scope)\<rparr>"

text \<open>A handle: whether its weak pointer to the bus is set, and the address of its subscription.\<close>

record subscription_handle =
  h_bus :: bool
  h_state :: "nat option"

definition empty_handle :: subscription_handle where
  "empty_handle = \<lparr>h_bus = False, h_state = None\<rparr>"

definition subscribe ::
  "('f \<Rightarrow> event list) \<Rightarrow> subscription_scope \<Rightarrow> queue_options \<Rightarrow> 'f bus_state \<Rightarrow>
   subscription_handle \<times> 'f bus_state \<times> demand_call list" where
  "subscribe call scope options b =
     (let s = new_subscription (make_subscription_id (bus_next_id b)) (scope_with_kinds scope) options;
          (b', calls) = bus_add call s (b\<lparr>bus_next_id := bus_next_id b + 1\<rparr>)
      in (\<lparr>h_bus = True, h_state = Some (length (bus_store b))\<rparr>, b', calls))"

definition subscribe_filter ::
  "('f \<Rightarrow> event list) \<Rightarrow> event_filter \<Rightarrow> queue_options \<Rightarrow> 'f bus_state \<Rightarrow>
   subscription_handle \<times> 'f bus_state \<times> demand_call list" where
  "subscribe_filter call f options b = subscribe call \<lparr>sc_kinds = ef_kinds f, sc_filter = f\<rparr> options b"

definition subscribe_depth ::
  "('f \<Rightarrow> event list) \<Rightarrow> event_filter \<Rightarrow> nat \<Rightarrow> 'f bus_state \<Rightarrow>
   subscription_handle \<times> 'f bus_state \<times> demand_call list" where
  "subscribe_depth call f max_queue b = subscribe_filter call f (default_queue_options\<lparr>qo_capacity := max_queue\<rparr>) b"

definition unsubscribe :: "subscription_handle \<Rightarrow> 'f bus_state \<Rightarrow> subscription_handle \<times> 'f bus_state \<times> demand_call list" where
  "unsubscribe h b =
     (case h_state h of
        None \<Rightarrow> (empty_handle, b, [])
      | Some a \<Rightarrow>
          if \<not> (h_bus h \<and> bus_alive b) then (empty_handle, b, [])
          else case bus_remove a b of (b', calls) \<Rightarrow> (empty_handle, b', calls))"

text \<open>Move assignment to a different object: results are this handle, the other one, the bus.\<close>

definition move_assign ::
  "subscription_handle \<Rightarrow> subscription_handle \<Rightarrow> 'f bus_state \<Rightarrow>
   subscription_handle \<times> subscription_handle \<times> 'f bus_state \<times> demand_call list" where
  "move_assign this other b = (case unsubscribe this b of (_, b', calls) \<Rightarrow> (other, empty_handle, b', calls))"

definition update_state :: "nat \<Rightarrow> subscription_state \<Rightarrow> 'f bus_state \<Rightarrow> 'f bus_state" where
  "update_state a s b = b\<lparr>bus_store := (bus_store b)[a := s]\<rparr>"

definition handle_try_pop_item :: "subscription_handle \<Rightarrow> 'f bus_state \<Rightarrow> subscription_event option \<times> 'f bus_state" where
  "handle_try_pop_item h b =
     (case h_state h of
        None \<Rightarrow> (None, b)
      | Some a \<Rightarrow> (case try_pop_item (bus_store b ! a) of (item, s) \<Rightarrow> (item, update_state a s b)))"

definition handle_try_pop :: "subscription_handle \<Rightarrow> 'f bus_state \<Rightarrow> event option \<times> 'f bus_state" where
  "handle_try_pop h b =
     (case h_state h of
        None \<Rightarrow> (None, b)
      | Some a \<Rightarrow> (case try_pop (bus_store b ! a) of (item, s) \<Rightarrow> (item, update_state a s b)))"

definition handle_set_notify :: "subscription_handle \<Rightarrow> callback option \<Rightarrow> 'f bus_state \<Rightarrow> 'f bus_state" where
  "handle_set_notify h cb b =
     (case h_state h of None \<Rightarrow> b | Some a \<Rightarrow> update_state a (sub_set_notify cb (bus_store b ! a)) b)"

definition handle_overflow_count :: "subscription_handle \<Rightarrow> 'f bus_state \<Rightarrow> u64" where
  "handle_overflow_count h b = (case h_state h of None \<Rightarrow> 0 | Some a \<Rightarrow> ss_overflow_count (bus_store b ! a))"

definition handle_lagging :: "subscription_handle \<Rightarrow> 'f bus_state \<Rightarrow> bool" where
  "handle_lagging h b = (case h_state h of None \<Rightarrow> False | Some a \<Rightarrow> ss_lagging (bus_store b ! a))"

definition handle_needs_resync :: "subscription_handle \<Rightarrow> 'f bus_state \<Rightarrow> bool" where
  "handle_needs_resync h b = (case h_state h of None \<Rightarrow> False | Some a \<Rightarrow> ss_needs_resync (bus_store b ! a))"

definition handle_id :: "subscription_handle \<Rightarrow> 'f bus_state \<Rightarrow> uuid" where
  "handle_id h b = (case h_state h of None \<Rightarrow> nil_uuid | Some a \<Rightarrow> ss_id (bus_store b ! a))"

section \<open>Identifiers are distinct\<close>

lemma subscription_id_bytes:
  "make_subscription_id v =
     [0, 0, 0, 0, 0, 0, 0x70, 0, 0x80, id_byte v 6, id_byte v 5, id_byte v 4, id_byte v 3, id_byte v 2, id_byte v 1, id_byte v 0]"
  by (simp add: make_subscription_id_def nil_uuid_def upt_rec numeral_eq_Suc)

lemma bit_id_byte: "r < 8 \<Longrightarrow> bit (id_byte v k) r \<longleftrightarrow> bit v (k * 8 + r)"
proof -
  assume "r < 8"
  then have "bit (0xFF :: u64) r"
    using bit_mask_iff [where 'a = u64, of 8 r] by (simp add: mask_eq_exp_minus_1)
  with \<open>r < 8\<close> show ?thesis
    by (simp add: id_byte_def bit_ucast_iff bit_and_iff bit_drop_bit_eq)
qed

lemma id_byte_eq_iff: "id_byte v k = id_byte w k \<longleftrightarrow> (\<forall>r<8. bit v (k * 8 + r) = bit w (k * 8 + r))"
  by (auto simp: bit_eq_iff bit_id_byte dest: bit_imp_le_length)

lemma take_bit_eq_bits: "take_bit n (v::u64) = take_bit n w \<longleftrightarrow> (\<forall>m<n. bit v m = bit w m)"
proof
  assume eq: "take_bit n v = take_bit n w"
  show "\<forall>m<n. bit v m = bit w m"
    using arg_cong [OF eq, of bit] by (metis bit_take_bit_iff)
qed (rule bit_eqI, auto simp: bit_take_bit_iff)

lemma all_less_7: "(\<forall>k<7. P k) \<longleftrightarrow> P 0 \<and> P 1 \<and> P 2 \<and> P 3 \<and> P 4 \<and> P 5 \<and> P (6::nat)"
  by (simp add: numeral_eq_Suc All_less_Suc2 conj_assoc)

lemma all_bits_split: "(\<forall>n<56. P n) \<longleftrightarrow> (\<forall>k<7. \<forall>r<8. P (k * 8 + r :: nat))"
proof
  assume r: "\<forall>k<7. \<forall>r<8. P (k * 8 + r)"
  show "\<forall>n<56. P n"
  proof (intro allI impI)
    fix n :: nat
    assume "n < 56"
    then have "n div 8 < 7" and "n mod 8 < 8" by auto
    with r have "P (n div 8 * 8 + n mod 8)" by blast
    then show "P n" by simp
  qed
qed auto

text \<open>
  Two subscription identifiers are equal exactly when the process-wide counters they were made from
  agree on their low 56 bits: the first \<open>2^56\<close> subscriptions have distinct identifiers. The variant byte
  overwrites the top byte of the counter, so identifiers repeat after that.\<close>

theorem subscription_ids_distinct:
  "make_subscription_id v = make_subscription_id w \<longleftrightarrow> take_bit 56 v = take_bit 56 w"
proof -
  have "make_subscription_id v = make_subscription_id w \<longleftrightarrow> (\<forall>k<7. id_byte v k = id_byte w k)"
    unfolding subscription_id_bytes all_less_7 by simp blast
  also have "\<dots> \<longleftrightarrow> (\<forall>n<56. bit v n = bit w n)"
    by (simp add: id_byte_eq_iff all_bits_split)
  also have "\<dots> \<longleftrightarrow> take_bit 56 v = take_bit 56 w"
    by (rule take_bit_eq_bits [symmetric])
  finally show ?thesis .
qed

section \<open>Reference counts\<close>

definition demand_of :: "'f bus_state \<Rightarrow> event_kind \<Rightarrow> nat" where
  "demand_of b k = length (filter (\<lambda>a. k \<in> set (sub_kinds (bus_store b ! a))) (bus_subscriptions b))"

definition counts_for :: "(event_kind \<Rightarrow> nat) \<Rightarrow> (event_kind, nat) omap \<Rightarrow> bool" where
  "counts_for f counts \<longleftrightarrow> omap_ok counts \<and> (\<forall>k. omap_find counts k = (if f k = 0 then None else Some (f k)))"

definition sub_ok :: "subscription_state \<Rightarrow> bool" where
  "sub_ok s \<longleftrightarrow> ring_ok s \<and> distinct (sub_kinds s)"

definition bus_ok :: "'f bus_state \<Rightarrow> bool" where
  "bus_ok b \<longleftrightarrow> (\<forall>s\<in>set (bus_store b). sub_ok s) \<and> distinct (bus_subscriptions b) \<and>
     (\<forall>a\<in>set (bus_subscriptions b). a < length (bus_store b)) \<and> counts_for (demand_of b) (bus_refcounts b)"

lemma count_kind_for:
  assumes "counts_for f counts"
  shows "counts_for (f(k := f k + 1)) (fst (count_kind k (counts, ts)))"
    and "snd (count_kind k (counts, ts)) = ts @ (if f k = 0 then [(k, True)] else [])"
  using assms by (auto simp: counts_for_def count_kind_def Let_def map_model)

lemma count_kinds:
  assumes "counts_for f counts" and "distinct ks"
  shows "counts_for (\<lambda>k. f k + (if k \<in> set ks then 1 else 0)) (fst (fold count_kind ks (counts, ts))) \<and>
    snd (fold count_kind ks (counts, ts)) = ts @ map (\<lambda>k. (k, True)) (filter (\<lambda>k. f k = 0) ks)"
  using assms
proof (induction ks arbitrary: f counts ts)
  case (Cons k ks)
  obtain counts' ts' where step: "count_kind k (counts, ts) = (counts', ts')" by force
  note one = count_kind_for [OF Cons(2), of k ts, unfolded step, simplified]
  have eq: "(\<lambda>x. (f(k := Suc (f k))) x + (if x \<in> set ks then 1 else 0)) = (\<lambda>x. f x + (if x \<in> set (k # ks) then 1 else 0))"
    using Cons(3) by auto
  have "filter (\<lambda>x. (f(k := Suc (f k))) x = 0) ks = filter (\<lambda>x. f x = 0) ks"
    using Cons(3) by (intro filter_cong) auto
  with Cons(1) [OF one(1), of ts'] Cons(3) show ?case
    unfolding eq by (simp add: step one(2))
qed simp

lemma uncount_kind_for:
  assumes "counts_for f counts" and "f k \<noteq> 0"
  shows "counts_for (f(k := f k - 1)) (fst (uncount_kind k (counts, ts)))"
    and "snd (uncount_kind k (counts, ts)) = ts @ (if f k = 1 then [(k, False)] else [])"
  using assms by (auto simp: counts_for_def uncount_kind_def Let_def map_model)

lemma uncount_kinds:
  assumes "counts_for f counts" and "distinct ks" and "\<forall>k\<in>set ks. f k \<noteq> 0"
  shows "counts_for (\<lambda>k. f k - (if k \<in> set ks then 1 else 0)) (fst (fold uncount_kind ks (counts, ts))) \<and>
    snd (fold uncount_kind ks (counts, ts)) = ts @ map (\<lambda>k. (k, False)) (filter (\<lambda>k. f k = 1) ks)"
  using assms
proof (induction ks arbitrary: f counts ts)
  case (Cons k ks)
  obtain counts' ts' where step: "uncount_kind k (counts, ts) = (counts', ts')" by force
  have "f k \<noteq> 0" using Cons(4) by simp
  note one = uncount_kind_for [OF Cons(2) this, of ts, unfolded step, simplified]
  have eq: "(\<lambda>x. (f(k := f k - Suc 0)) x - (if x \<in> set ks then 1 else 0)) = (\<lambda>x. f x - (if x \<in> set (k # ks) then 1 else 0))"
    using Cons(3) by auto
  have "filter (\<lambda>x. (f(k := f k - Suc 0)) x = 1) ks = filter (\<lambda>x. f x = 1) ks"
    using Cons(3) by (intro filter_cong) auto
  moreover have "\<forall>x\<in>set ks. (f(k := f k - Suc 0)) x \<noteq> 0"
    using Cons(3,4) by auto
  ultimately show ?case
    using Cons(1) [OF one(1), of ts'] Cons(3) unfolding eq by (simp add: step one(2))
qed simp

section \<open>Runs\<close>

text \<open>Any interleaving of operations; a subscription is named by its address. The log records what was taken.\<close>

datatype 'f bus_op =
    Publish event
  | Subscribe subscription_scope queue_options "'f \<Rightarrow> event list"
  | Unsubscribe nat
  | TakeItem nat
  | SetNotify nat "callback option"
  | RegisterProvider event_kind 'f
  | UnregisterProvider event_kind
  | SetDemand "callback option"

abbreviation handle_of :: "nat \<Rightarrow> 'f bus_state \<Rightarrow> subscription_handle" where
  "handle_of a b \<equiv> \<lparr>h_bus = True, h_state = if a < length (bus_store b) then Some a else None\<rparr>"

fun run_bus_op :: "'f bus_op \<Rightarrow> 'f bus_state \<times> (nat \<times> subscription_event) list \<Rightarrow> 'f bus_state \<times> (nat \<times> subscription_event) list" where
  "run_bus_op (Publish e) (b, log) = (fst (publish e b), log)"
| "run_bus_op (Subscribe scope options call) (b, log) = (fst (snd (subscribe call scope options b)), log)"
| "run_bus_op (Unsubscribe a) (b, log) = (fst (snd (unsubscribe (handle_of a b) b)), log)"
| "run_bus_op (TakeItem a) (b, log) =
     (case handle_try_pop_item (handle_of a b) b of
        (item, b') \<Rightarrow> (b', log @ (case item of None \<Rightarrow> [] | Some x \<Rightarrow> [(a, x)])))"
| "run_bus_op (SetNotify a cb) (b, log) = (handle_set_notify (handle_of a b) cb b, log)"
| "run_bus_op (RegisterProvider k f) (b, log) = (register_snapshot_provider k f b, log)"
| "run_bus_op (UnregisterProvider k) (b, log) = (unregister_snapshot_provider k b, log)"
| "run_bus_op (SetDemand cb) (b, log) = (set_demand_callback cb b, log)"

definition run_bus :: "'f bus_op list \<Rightarrow> u64 \<Rightarrow> 'f bus_state \<times> (nat \<times> subscription_event) list" where
  "run_bus ops next_id = fold run_bus_op ops (new_bus next_id, [])"

section \<open>What the operations do to the store\<close>

lemma enqueue_sub_ok: "sub_ok s \<Longrightarrow> sub_ok (snd (enqueue e s)) \<and> ss_scope (snd (enqueue e s)) = ss_scope s"
  using enqueue_items(1) [of s e] enqueue_flags(5) [of s e] by (metis prod.collapse sub_ok_def sub_kinds_def)

lemma deliver_fold:
  assumes "distinct as" and "\<forall>a\<in>set as. a < length store"
  shows "length (fst (fold (deliver_to e) as (store, cbs))) = length store \<and>
    (\<forall>i<length store. fst (fold (deliver_to e) as (store, cbs)) ! i =
      (if i \<in> set as \<and> sub_matches (store ! i) e then snd (enqueue e (store ! i)) else store ! i))"
  using assms
proof (induction as arbitrary: store cbs)
  case (Cons a as)
  obtain store' cbs' where step: "deliver_to e a (store, cbs) = (store', cbs')" by force
  then have store': "store' = (if sub_matches (store ! a) e then store[a := snd (enqueue e (store ! a))] else store)"
    by (auto simp: deliver_to_def split: prod.splits if_splits)
  then have len: "length store' = length store" by simp
  have "\<forall>x\<in>set as. x < length store'" using Cons(3) len by simp
  with Cons(1) [of store' cbs'] Cons(2) have
    IH: "length (fst (fold (deliver_to e) as (store', cbs'))) = length store'"
      "\<And>i. i < length store' \<Longrightarrow> fst (fold (deliver_to e) as (store', cbs')) ! i =
        (if i \<in> set as \<and> sub_matches (store' ! i) e then snd (enqueue e (store' ! i)) else store' ! i)"
    by auto
  show ?case
    using Cons(2,3) IH len by (auto simp: step nth_list_update store')
qed simp

lemma replay_event_inv:
  assumes "sub_ok s"
  shows "sub_ok (fst (replay_event k e (s, n))) \<and> ss_scope (fst (replay_event k e (s, n))) = ss_scope s"
  using assms enqueue_sub_ok by (simp add: replay_event_def)

lemma replay_kind_inv:
  "sub_ok (fst acc) \<Longrightarrow> sub_ok (fst (replay_kind ps call k acc)) \<and> ss_scope (fst (replay_kind ps call k acc)) = ss_scope (fst acc)"
proof -
  have "sub_ok (fst acc) \<Longrightarrow> sub_ok (fst (fold (replay_event k) es acc)) \<and> ss_scope (fst (fold (replay_event k) es acc)) = ss_scope (fst acc)" for es
  proof (induction es arbitrary: acc)
    case (Cons e es)
    then show ?case using replay_event_inv [of "fst acc" k e "snd acc"] by (metis fold_simps(2) prod.collapse)
  qed simp
  then show "sub_ok (fst acc) \<Longrightarrow> ?thesis"
    by (auto simp: replay_kind_def split: option.splits)
qed

lemma replay_kinds_inv:
  "sub_ok (fst acc) \<Longrightarrow> sub_ok (fst (fold (replay_kind ps call) ks acc)) \<and>
     ss_scope (fst (fold (replay_kind ps call) ks acc)) = ss_scope (fst acc)"
proof (induction ks arbitrary: acc)
  case (Cons k ks)
  then show ?case using replay_kind_inv [of acc ps call k] by simp
qed simp

lemma unique_kinds_distinct: "distinct seen \<Longrightarrow> distinct (unique_kinds_from seen ks) \<and> set (unique_kinds_from seen ks) = set seen \<union> set ks"
  by (induction seen ks rule: unique_kinds_from.induct) auto

lemma scope_kinds_distinct: "distinct (sc_kinds (scope_with_kinds scope))"
  using unique_kinds_distinct [of "[]"] distinct_kinds by (simp add: scope_with_kinds_def)

lemma new_subscription_ok: "sub_ok (new_subscription i (scope_with_kinds scope) options)"
  by (simp add: sub_ok_def new_subscription_ring sub_kinds_def new_subscription_fields scope_kinds_distinct)

section \<open>Reference counts are right in every reachable state\<close>

lemma demand_of_cong:
  assumes "bus_subscriptions b' = bus_subscriptions b"
    and "\<And>a. a \<in> set (bus_subscriptions b) \<Longrightarrow> sub_kinds (bus_store b' ! a) = sub_kinds (bus_store b ! a)"
  shows "demand_of b' = demand_of b"
proof
  fix k
  show "demand_of b' k = demand_of b k"
    unfolding demand_of_def using assms by (intro arg_cong [where f = length] filter_cong) auto
qed

text \<open>Operations that keep the addresses, the scopes and the counts keep the bus well formed.\<close>

lemma bus_ok_store:
  assumes "bus_ok b" and "bus_subscriptions b' = bus_subscriptions b" and "bus_refcounts b' = bus_refcounts b"
    and "length (bus_store b') = length (bus_store b)"
    and "\<And>i. i < length (bus_store b) \<Longrightarrow> sub_ok (bus_store b' ! i) \<and> ss_scope (bus_store b' ! i) = ss_scope (bus_store b ! i)"
  shows "bus_ok b'"
proof -
  have "demand_of b' = demand_of b"
    using assms by (intro demand_of_cong) (auto simp: bus_ok_def sub_kinds_def)
  then show ?thesis
    using assms unfolding bus_ok_def by (auto simp: in_set_conv_nth)
qed

lemma sub_ok_nth: "bus_ok b \<Longrightarrow> i < length (bus_store b) \<Longrightarrow> sub_ok (bus_store b ! i)"
  by (simp add: bus_ok_def)

lemma publish_fields:
  fixes e :: event and b :: "'f bus_state"
  assumes "bus_ok b"
  defines "e' \<equiv> e\<lparr>ev_sequence := bus_next_sequence b\<rparr>" and "b' \<equiv> fst (publish e b)"
  shows "bus_subscriptions b' = bus_subscriptions b" and "bus_refcounts b' = bus_refcounts b"
    and "bus_next_sequence b' = bus_next_sequence b + 1" and "length (bus_store b') = length (bus_store b)"
    and "i < length (bus_store b) \<Longrightarrow> bus_store b' ! i =
      (if i \<in> set (bus_subscriptions b) \<and> sub_matches (bus_store b ! i) e' then snd (enqueue e' (bus_store b ! i)) else bus_store b ! i)"
proof -
  obtain store cbs where f: "fold (deliver_to e') (bus_subscriptions b) (bus_store b, []) = (store, cbs)" by force
  then have b': "b' = b\<lparr>bus_store := store, bus_next_sequence := bus_next_sequence b + 1\<rparr>"
    by (simp add: b'_def publish_def e'_def)
  show "bus_subscriptions b' = bus_subscriptions b" "bus_refcounts b' = bus_refcounts b"
    "bus_next_sequence b' = bus_next_sequence b + 1"
    by (simp_all add: b')
  show "length (bus_store b') = length (bus_store b)"
    "i < length (bus_store b) \<Longrightarrow> bus_store b' ! i =
      (if i \<in> set (bus_subscriptions b) \<and> sub_matches (bus_store b ! i) e' then snd (enqueue e' (bus_store b ! i)) else bus_store b ! i)"
    using deliver_fold [of "bus_subscriptions b" "bus_store b" e' "[]"] assms(1) f by (auto simp: b' bus_ok_def)
qed

lemma publish_ok: "bus_ok b \<Longrightarrow> bus_ok (fst (publish e b))"
  by (rule bus_ok_store [of b]) (auto simp: publish_fields sub_ok_nth enqueue_sub_ok)

lemma update_state_ok:
  assumes "bus_ok b" and "sub_ok s" and "ss_scope s = ss_scope (bus_store b ! a)"
  shows "bus_ok (update_state a s b)"
proof (rule bus_ok_store [OF assms(1)])
  fix i
  assume "i < length (bus_store b)"
  then show "sub_ok (bus_store (update_state a s b) ! i) \<and> ss_scope (bus_store (update_state a s b) ! i) = ss_scope (bus_store b ! i)"
    using assms by (cases "a = i") (simp_all add: update_state_def sub_ok_nth)
qed (simp_all add: update_state_def)

lemma bus_add_result:
  assumes "bus_ok b" and "sub_ok s" and "bus_add call s b = (b', calls)"
  shows "bus_ok b'" and "demand_of b' k = demand_of b k + (if k \<in> set (sub_kinds s) then 1 else 0)"
    and "calls = invoke_demand_callback (bus_demand b) (map (\<lambda>k. (k, True)) (filter (\<lambda>k. demand_of b k = 0) (sub_kinds s)))"
    and "bus_store b' = bus_store b @ [fst (fold (replay_kind (bus_providers b) call) (sub_kinds s) (s, bus_next_sequence b))]"
    and "bus_next_sequence b' = snd (fold (replay_kind (bus_providers b) call) (sub_kinds s) (s, bus_next_sequence b))"
proof -
  obtain r n where r: "fold (replay_kind (bus_providers b) call) (sub_kinds s) (s, bus_next_sequence b) = (r, n)" by force
  have ok: "sub_ok r" and "ss_scope r = ss_scope s"
    using replay_kinds_inv [of "(s, bus_next_sequence b)" "bus_providers b" call "sub_kinds s"] assms(2) by (simp_all add: r)
  then have kinds: "sub_kinds r = sub_kinds s" by (simp add: sub_kinds_def)
  obtain counts ts where c: "fold count_kind (sub_kinds s) (bus_refcounts b, []) = (counts, ts)" by force
  have counts: "counts_for (\<lambda>k. demand_of b k + (if k \<in> set (sub_kinds s) then 1 else 0)) counts"
    and ts: "ts = map (\<lambda>k. (k, True)) (filter (\<lambda>k. demand_of b k = 0) (sub_kinds s))"
    using count_kinds [of "demand_of b" "bus_refcounts b" "sub_kinds s" "[]"] assms(1,2) by (auto simp: c bus_ok_def sub_ok_def)
  have b': "b' = b\<lparr>bus_store := bus_store b @ [r], bus_subscriptions := bus_subscriptions b @ [length (bus_store b)],
      bus_refcounts := counts, bus_next_sequence := n\<rparr>" and calls: "calls = invoke_demand_callback (bus_demand b) ts"
    using assms(3) by (simp_all add: bus_add_def r c kinds)
  have old: "filter (\<lambda>a. k \<in> set (sub_kinds ((bus_store b @ [r]) ! a))) (bus_subscriptions b) =
      filter (\<lambda>a. k \<in> set (sub_kinds (bus_store b ! a))) (bus_subscriptions b)" for k
    using assms(1) by (intro filter_cong) (auto simp: bus_ok_def nth_append)
  have demand: "demand_of b' k = demand_of b k + (if k \<in> set (sub_kinds s) then 1 else 0)" for k
    by (simp add: demand_of_def b' old kinds)
  then have "counts_for (demand_of b') (bus_refcounts b')"
    using counts by (simp add: b' counts_for_def)
  then show "bus_ok b'"
    using assms(1) ok by (auto simp: bus_ok_def b' less_Suc_eq)
  show "demand_of b' k = demand_of b k + (if k \<in> set (sub_kinds s) then 1 else 0)" by (rule demand)
  show "calls = invoke_demand_callback (bus_demand b) (map (\<lambda>k. (k, True)) (filter (\<lambda>k. demand_of b k = 0) (sub_kinds s)))"
    by (simp add: calls ts)
  show "bus_store b' = bus_store b @ [fst (fold (replay_kind (bus_providers b) call) (sub_kinds s) (s, bus_next_sequence b))]"
    "bus_next_sequence b' = snd (fold (replay_kind (bus_providers b) call) (sub_kinds s) (s, bus_next_sequence b))"
    by (simp_all add: b' r)
qed

lemma length_filter_remove1: "a \<in> set xs \<Longrightarrow> length (filter P (remove1 a xs)) = length (filter P xs) - (if P a then 1 else 0)"
  by (simp add: filter_remove1 length_remove1)

lemma bus_remove_result:
  assumes "bus_ok b" and "a \<in> set (bus_subscriptions b)" and "bus_remove a b = (b', calls)"
  defines "ks \<equiv> sub_kinds (bus_store b ! a)"
  shows "bus_ok b'" and "demand_of b' k = demand_of b k - (if k \<in> set ks then 1 else 0)"
    and "calls = invoke_demand_callback (bus_demand b) (map (\<lambda>k. (k, False)) (filter (\<lambda>k. demand_of b k = 1) ks))"
    and "bus_store b' = bus_store b" and "bus_next_sequence b' = bus_next_sequence b"
proof -
  have "distinct ks" using assms(1,2) sub_ok_nth by (auto simp: ks_def bus_ok_def sub_ok_def)
  moreover have "\<forall>k\<in>set ks. demand_of b k \<noteq> 0"
    using assms(2) by (auto simp: demand_of_def ks_def filter_empty_conv)
  moreover obtain counts ts where c: "fold uncount_kind ks (bus_refcounts b, []) = (counts, ts)" by force
  ultimately have counts: "counts_for (\<lambda>k. demand_of b k - (if k \<in> set ks then 1 else 0)) counts"
    and ts: "ts = map (\<lambda>k. (k, False)) (filter (\<lambda>k. demand_of b k = 1) ks)"
    using uncount_kinds [of "demand_of b" "bus_refcounts b" ks "[]"] assms(1) by (auto simp: bus_ok_def)
  have b': "b' = b\<lparr>bus_subscriptions := remove1 a (bus_subscriptions b), bus_refcounts := counts\<rparr>"
    and calls: "calls = invoke_demand_callback (bus_demand b) ts"
    using assms(2,3) c by (simp_all add: bus_remove_def ks_def)
  have demand: "demand_of b' k = demand_of b k - (if k \<in> set ks then 1 else 0)" for k
    using assms(2) by (simp add: demand_of_def b' length_filter_remove1 ks_def)
  then have "counts_for (demand_of b') (bus_refcounts b')"
    using counts by (simp add: b' counts_for_def)
  then show "bus_ok b'"
    using assms(1) by (auto simp: bus_ok_def b' dest: in_set_remove1 [THEN iffD1, rotated] notin_set_remove1)
  show "demand_of b' k = demand_of b k - (if k \<in> set ks then 1 else 0)" by (rule demand)
  show "calls = invoke_demand_callback (bus_demand b) (map (\<lambda>k. (k, False)) (filter (\<lambda>k. demand_of b k = 1) ks))"
    by (simp add: calls ts)
  show "bus_store b' = bus_store b" "bus_next_sequence b' = bus_next_sequence b"
    by (simp_all add: b')
qed

lemma pop_sub_ok: "sub_ok s \<Longrightarrow> sub_ok (snd (try_pop_item s)) \<and> ss_scope (snd (try_pop_item s)) = ss_scope s"
  using try_pop_item_items(1) [of s] try_pop_item_fields(5) [of s] by (metis prod.collapse sub_ok_def sub_kinds_def)

lemma notify_sub_ok: "sub_ok s \<Longrightarrow> sub_ok (sub_set_notify cb s) \<and> ss_scope (sub_set_notify cb s) = ss_scope s"
  by (simp add: sub_ok_def sub_set_notify_def sub_kinds_def ring_ok_def)

lemma subscribe_ok:
  assumes "bus_ok b"
  shows "bus_ok (fst (snd (subscribe call scope options b)))"
proof -
  have "bus_ok (b\<lparr>bus_next_id := bus_next_id b + 1\<rparr>)"
    by (rule bus_ok_store [OF assms]) (simp_all add: sub_ok_nth [OF assms])
  from bus_add_result(1) [OF this new_subscription_ok prod.collapse [symmetric]] show ?thesis
    by (simp add: subscribe_def split_beta)
qed

lemma unsubscribe_ok: "bus_ok b \<Longrightarrow> bus_ok (fst (snd (unsubscribe h b)))"
  using bus_remove_result(1) [of b]
  by (auto simp: unsubscribe_def bus_remove_def split: option.splits prod.splits)

lemma run_bus_op_ok: "bus_ok b \<Longrightarrow> bus_ok (fst (run_bus_op op (b, log)))"
proof (cases op)
  case (TakeItem a)
  assume ok: "bus_ok b"
  then show ?thesis
    using pop_sub_ok [OF sub_ok_nth [OF ok], of a] update_state_ok [OF ok, of "snd (try_pop_item (bus_store b ! a))" a]
    by (simp add: TakeItem handle_try_pop_item_def split_beta)
next
  case (SetNotify a cb)
  assume ok: "bus_ok b"
  then show ?thesis
    using notify_sub_ok [OF sub_ok_nth [OF ok]] update_state_ok [OF ok]
    by (auto simp: SetNotify handle_set_notify_def)
next
  case (RegisterProvider k f)
  assume ok: "bus_ok b"
  show ?thesis
    by (rule bus_ok_store [OF ok]) (simp_all add: RegisterProvider register_snapshot_provider_def sub_ok_nth [OF ok])
next
  case (UnregisterProvider k)
  assume ok: "bus_ok b"
  show ?thesis
    by (rule bus_ok_store [OF ok]) (simp_all add: UnregisterProvider unregister_snapshot_provider_def sub_ok_nth [OF ok])
next
  case (SetDemand cb)
  assume ok: "bus_ok b"
  show ?thesis
    by (rule bus_ok_store [OF ok]) (simp_all add: SetDemand set_demand_callback_def sub_ok_nth [OF ok])
qed (simp_all add: publish_ok subscribe_ok unsubscribe_ok)

lemma new_bus_ok: "bus_ok (new_bus i)"
  by (simp add: bus_ok_def new_bus_def counts_for_def demand_of_def)

lemma run_bus_ok: "bus_ok (fst st) \<Longrightarrow> bus_ok (fst (fold run_bus_op ops st))"
proof (induction ops arbitrary: st)
  case (Cons op ops)
  then show ?case using run_bus_op_ok [of "fst st" op "snd st"] by simp
qed simp

lemma reachable_bus_ok: "run_bus ops i = (b, log) \<Longrightarrow> bus_ok b"
  using run_bus_ok [of "(new_bus i, [])" ops] new_bus_ok [of i] by (simp add: run_bus_def)

text \<open>The kinds of the live subscription a handle stands for; none for an empty handle or one already unsubscribed.\<close>

definition live_kinds :: "subscription_handle \<Rightarrow> 'f bus_state \<Rightarrow> event_kind list" where
  "live_kinds h b =
     (case h_state h of
        None \<Rightarrow> []
      | Some a \<Rightarrow> if h_bus h \<and> bus_alive b \<and> a \<in> set (bus_subscriptions b) then sub_kinds (bus_store b ! a) else [])"

lemma no_demand_call: "invoke_demand_callback cb [] = []"
  by (simp add: invoke_demand_callback_def split: option.splits)

lemma unsubscribe_result:
  assumes "bus_ok b" and "unsubscribe h b = (h', b', calls)"
  shows "bus_ok b'" and "demand_of b' k = demand_of b k - (if k \<in> set (live_kinds h b) then 1 else 0)"
    and "calls = invoke_demand_callback (bus_demand b) (map (\<lambda>k. (k, False)) (filter (\<lambda>k. demand_of b k = 1) (live_kinds h b)))"
proof -
  have "bus_ok b' \<and> demand_of b' k = demand_of b k - (if k \<in> set (live_kinds h b) then 1 else 0) \<and>
    calls = invoke_demand_callback (bus_demand b) (map (\<lambda>k. (k, False)) (filter (\<lambda>k. demand_of b k = 1) (live_kinds h b)))"
  proof (cases "\<exists>a. h_state h = Some a \<and> h_bus h \<and> bus_alive b \<and> a \<in> set (bus_subscriptions b)")
    case True
    then obtain a where a: "h_state h = Some a" "h_bus h" "bus_alive b" "a \<in> set (bus_subscriptions b)" by blast
    then have "bus_remove a b = (b', calls)" using assms(2) by (simp add: unsubscribe_def split: prod.splits)
    from bus_remove_result [OF assms(1) a(4) this] show ?thesis by (simp add: live_kinds_def a)
  next
    case False
    then have "live_kinds h b = []" by (auto simp: live_kinds_def split: option.splits)
    moreover have "b' = b" "calls = []"
      using False assms(2) by (auto simp: unsubscribe_def bus_remove_def split: option.splits if_splits)
    ultimately show ?thesis using assms(1) by (simp add: no_demand_call)
  qed
  then show "bus_ok b'" "demand_of b' k = demand_of b k - (if k \<in> set (live_kinds h b) then 1 else 0)"
    "calls = invoke_demand_callback (bus_demand b) (map (\<lambda>k. (k, False)) (filter (\<lambda>k. demand_of b k = 1) (live_kinds h b)))"
    by blast+
qed

lemma subscribe_result:
  assumes "bus_ok b" and "subscribe call scope options b = (h, b', calls)"
  shows "bus_ok b'" and "demand_of b' k = demand_of b k + (if k \<in> set (sc_kinds (scope_with_kinds scope)) then 1 else 0)"
    and "calls = invoke_demand_callback (bus_demand b)
      (map (\<lambda>k. (k, True)) (filter (\<lambda>k. demand_of b k = 0) (sc_kinds (scope_with_kinds scope))))"
proof -
  let ?b = "b\<lparr>bus_next_id := bus_next_id b + 1\<rparr>"
  let ?s = "new_subscription (make_subscription_id (bus_next_id b)) (scope_with_kinds scope) options"
  have ok: "bus_ok ?b" by (rule bus_ok_store [OF assms(1)]) (simp_all add: sub_ok_nth [OF assms(1)])
  have same: "demand_of ?b = demand_of b" by (rule demand_of_cong) simp_all
  have add: "bus_add call ?s ?b = (b', calls)" using assms(2) by (simp add: subscribe_def split: prod.splits)
  have kinds: "sub_kinds ?s = sc_kinds (scope_with_kinds scope)" by (simp add: sub_kinds_def new_subscription_fields)
  note added = bus_add_result [OF ok new_subscription_ok add, unfolded same kinds]
  show "bus_ok b'" "demand_of b' k = demand_of b k + (if k \<in> set (sc_kinds (scope_with_kinds scope)) then 1 else 0)"
    "calls = invoke_demand_callback (bus_demand b)
      (map (\<lambda>k. (k, True)) (filter (\<lambda>k. demand_of b k = 0) (sc_kinds (scope_with_kinds scope))))"
    using added(1-3) by simp_all
qed

lemma refcount_is_demand: "bus_ok b \<Longrightarrow> subscription_refcount k b = demand_of b k"
  by (simp add: bus_ok_def counts_for_def subscription_refcount_def)

text \<open>
  C13. After any run of the bus, with any number of live subscriptions and none included, the reference count
  of a kind is the number of live subscriptions whose scope has that kind, and the demand callback, where one
  is set, hears exactly the changes. Subscribing raises the count of each kind of the scope by one and announces the
  kinds nobody wanted before, each once and in order of the scope. Unsubscribing any handle lowers the count of the kinds of
  the live subscription it stands for by one and announces the kinds nobody wants any more; a handle that is empty
  or was already unsubscribed changes no count and announces nothing.\<close>

theorem demand_callbacks_exact:
  assumes "run_bus ops i = (b, log)"
  shows "subscription_refcount k b = demand_of b k \<and>
    (case subscribe call scope options b of
       (_, b1, calls) \<Rightarrow>
         subscription_refcount k b1 = demand_of b k + (if k \<in> set (sc_kinds (scope_with_kinds scope)) then 1 else 0) \<and>
         subscription_refcount k b1 = demand_of b1 k \<and>
         calls = invoke_demand_callback (bus_demand b)
           (map (\<lambda>k. (k, True)) (filter (\<lambda>k. demand_of b k = 0) (sc_kinds (scope_with_kinds scope))))) \<and>
    (case unsubscribe handle b of
       (_, b2, calls) \<Rightarrow>
         subscription_refcount k b2 = demand_of b k - (if k \<in> set (live_kinds handle b) then 1 else 0) \<and>
         subscription_refcount k b2 = demand_of b2 k \<and>
         calls = invoke_demand_callback (bus_demand b)
           (map (\<lambda>k. (k, False)) (filter (\<lambda>k. demand_of b k = 1) (live_kinds handle b))))"
proof -
  have ok: "bus_ok b" using assms by (rule reachable_bus_ok)
  show ?thesis
    using refcount_is_demand [OF ok] subscribe_result [OF ok, of call scope options]
      unsubscribe_result [OF ok, of handle]
    by (simp add: refcount_is_demand split: prod.splits)
qed

definition sample_run :: "nat bus_op list" where
  "sample_run = [SetDemand (Some 9), Subscribe sample_scope \<lparr>qo_capacity = 2, qo_overflow = CoalescePolicy\<rparr> (\<lambda>_. []),
     Publish (sample_event KeyDown), Publish (sample_event MouseMove), TakeItem 0]"

definition sample_handle :: subscription_handle where
  "sample_handle = \<lparr>h_bus = True, h_state = Some 0\<rparr>"

theorem demand_callbacks_exact_witness:
  "snd (snd (subscribe (\<lambda>_. []) sample_scope default_queue_options (fst (run_bus [SetDemand (Some 9) :: nat bus_op] 1)))) =
     [(9, MouseMove, True), (9, KeyDown, True)] \<and>
   (case unsubscribe sample_handle (fst (run_bus sample_run 1)) of
      (h, b, calls) \<Rightarrow> calls = [(9, MouseMove, False), (9, KeyDown, False)] \<and> subscription_refcount KeyDown b = 0)"
proof -
  let ?b = "fst (run_bus [SetDemand (Some 9) :: nat bus_op] 1)" and ?c = "fst (run_bus sample_run 1)"
  have fresh: "bus_demand ?b = Some 9" "sc_kinds (scope_with_kinds sample_scope) = [MouseMove, KeyDown]"
    "demand_of ?b MouseMove = 0" "demand_of ?b KeyDown = 0"
    by code_simp+
  have live: "bus_demand ?c = Some 9" "live_kinds sample_handle ?c = [MouseMove, KeyDown]"
    "demand_of ?c MouseMove = 1" "demand_of ?c KeyDown = 1"
    by code_simp+
  note start = demand_callbacks_exact [OF prod.collapse [symmetric], where ops = "[SetDemand (Some 9) :: nat bus_op]" and i = 1
      and call = "\<lambda>_. []" and scope = sample_scope and options = default_queue_options
      and k = KeyDown and handle = empty_handle]
  note stop = demand_callbacks_exact [OF prod.collapse [symmetric], where ops = sample_run and i = 1
      and call = "\<lambda>_. []" and scope = sample_scope and options = default_queue_options and k = KeyDown and handle = "sample_handle"]
  have "snd (snd (subscribe (\<lambda>_. []) sample_scope default_queue_options ?b)) = [(9, MouseMove, True), (9, KeyDown, True)]"
    using start by (simp add: fresh invoke_demand_callback_def split: prod.splits)
  moreover have "(case unsubscribe sample_handle ?c of
      (h, b, calls) \<Rightarrow> calls = [(9, MouseMove, False), (9, KeyDown, False)] \<and> subscription_refcount KeyDown b = 0)"
    using stop by (simp add: live invoke_demand_callback_def split: prod.splits)
  ultimately show ?thesis ..
qed

section \<open>Events are delivered in order\<close>

text \<open>Two items in the order of their sequence numbers; a gap marker has none.\<close>

fun item_before :: "subscription_event \<Rightarrow> subscription_event \<Rightarrow> bool" where
  "item_before (EventItem d) (EventItem e) = (unat (ev_sequence d) < unat (ev_sequence e))"
| "item_before _ _ = True"

fun item_below :: "nat \<Rightarrow> subscription_event \<Rightarrow> bool" where
  "item_below n (EventItem e) = (unat (ev_sequence e) < n)"
| "item_below n (GapItem c q) = True"

definition taken :: "nat \<Rightarrow> (nat \<times> subscription_event) list \<Rightarrow> subscription_event list" where
  "taken a log = map snd (filter (\<lambda>x. fst x = a) log)"

definition history_ok :: "nat \<Rightarrow> subscription_event list \<Rightarrow> subscription_state \<Rightarrow> bool" where
  "history_ok n past s \<longleftrightarrow> sorted_wrt item_before (past @ queue_items s) \<and>
     (\<forall>x\<in>set (past @ queue_items s). item_below n x) \<and>
     ss_last_delivered s = last (0 # map ev_sequence (events_of past))"

lemma item_below_mono: "item_below n x \<Longrightarrow> n \<le> m \<Longrightarrow> item_below m x"
  by (cases x) auto

lemma history_ok_mono: "history_ok n past s \<Longrightarrow> n \<le> m \<Longrightarrow> history_ok m past s"
  unfolding history_ok_def using item_below_mono by blast

lemma item_below_before: "item_below (unat (ev_sequence e)) x \<Longrightarrow> item_before x (EventItem e)"
  by (cases x) auto

lemma before_gap: "item_before x (GapItem c q)"
  by (cases x) auto

lemma sorted_replace_last:
  assumes "sorted_wrt item_before (past @ q)" and "\<And>x. x \<in> set (past @ q) \<Longrightarrow> item_before x y"
  shows "sorted_wrt item_before (past @ butlast q @ [y])"
  using assms by (cases q rule: rev_cases) (auto simp: sorted_wrt_append)

lemma enqueue_history:
  assumes "ring_ok s" and "history_ok n past s" and "unat (ev_sequence e) = n"
  shows "history_ok (Suc n) past (snd (enqueue e s))"
proof -
  obtain notify s' where enq: "enqueue e s = (notify, s')" by force
  let ?q = "queue_items s"
  have old: "sorted_wrt item_before (past @ ?q)" "\<And>x. x \<in> set (past @ ?q) \<Longrightarrow> item_below n x"
    using assms(2) by (auto simp: history_ok_def)
  have new: "item_before x (EventItem e)" "item_below (Suc n) x" if "x \<in> set (past @ ?q)" for x
    using old(2) [OF that] assms(3) item_below_before item_below_mono [of n x "Suc n"] by auto
  have e: "item_below (Suc n) (EventItem e)" using assms(3) by simp
  note mem = in_set_butlastD
  have "sorted_wrt item_before (past @ queue_items s') \<and> (\<forall>x\<in>set (past @ queue_items s'). item_below (Suc n) x)"
  proof (cases "enqueue_outcome (capacity s) (ss_policy s) e ?q")
    case Stored
    then show ?thesis using old new e by (auto simp: enqueue_items [OF assms(1) enq] sorted_wrt_append)
  next
    case Coalesced
    then show ?thesis
      using sorted_replace_last [OF old(1) new(1)] new(2) e by (auto simp: enqueue_items [OF assms(1) enq] dest: mem)
  next
    case GapMarked
    then show ?thesis
      using sorted_replace_last [OF old(1) before_gap] old(1) new(2) by (auto simp: enqueue_items [OF assms(1) enq] dest: mem)
  next
    case Dropped
    then show ?thesis using old new by (auto simp: enqueue_items [OF assms(1) enq])
  qed
  then show ?thesis
    using assms(2) enqueue_flags(4) [OF assms(1) enq] by (simp add: history_ok_def enq)
qed

lemma pop_history:
  assumes "ring_ok s" and "history_ok n past s" and "try_pop_item s = (item, s')"
  shows "history_ok n (past @ (case item of None \<Rightarrow> [] | Some x \<Rightarrow> [x])) s'"
proof (cases "queue_items s")
  case Nil
  then have "ss_size s = 0" by (metis queue_items_Nil)
  with assms show ?thesis by (auto simp: try_pop_item_def)
next
  case (Cons x q)
  then have item: "item = Some x" and q: "queue_items s' = q"
    using try_pop_item_items(2,3) [OF assms(1,3)] by (simp_all del: queue_items_Nil)
  have "ss_last_delivered s' = last (0 # map ev_sequence (events_of (past @ [x])))"
    using assms(2) try_pop_item_fields(7) [OF assms(3)]
    by (cases x) (simp_all add: item events_of_append history_ok_def)
  then show ?thesis
    using assms(2) Cons q by (simp add: history_ok_def item)
qed

text \<open>How many sequence numbers an operation uses at most, and runs that do not exhaust the 64-bit counter.\<close>

definition replay_size :: "(event_kind, 'f) omap \<Rightarrow> ('f \<Rightarrow> event list) \<Rightarrow> event_kind \<Rightarrow> nat" where
  "replay_size providers call k = (case omap_find providers k of None \<Rightarrow> 0 | Some f \<Rightarrow> length (call f))"

fun sequence_use :: "'f bus_op \<Rightarrow> 'f bus_state \<Rightarrow> nat" where
  "sequence_use (Publish e) b = 1"
| "sequence_use (Subscribe scope options call) b =
     sum_list (map (replay_size (bus_providers b) call) (sc_kinds (scope_with_kinds scope)))"
| "sequence_use op b = 0"

fun fits :: "'f bus_op list \<Rightarrow> 'f bus_state \<times> (nat \<times> subscription_event) list \<Rightarrow> bool" where
  "fits [] st = True"
| "fits (op # ops) st =
     (uint (bus_next_sequence (fst st)) + int (sequence_use op (fst st)) < 2 ^ 64 \<and> fits ops (run_bus_op op st))"

lemma fits_unat: "uint (n::u64) + int k < 2 ^ 64 \<longleftrightarrow> unat n + k < 2 ^ 64"
proof -
  have "uint n + int k = int (unat n + k)" by simp
  then show ?thesis by (simp only: of_nat_less_iff [where 'a = int, symmetric] of_nat_power of_nat_numeral)
qed

lemma unat_u64_Suc: "unat (n::u64) + 1 < 2 ^ 64 \<Longrightarrow> unat (n + 1) = Suc (unat n)"
  by (simp add: unat_word_ariths)

definition replaying :: "u64 \<Rightarrow> nat \<Rightarrow> subscription_state \<times> u64 \<Rightarrow> bool" where
  "replaying start used acc \<longleftrightarrow> sub_ok (fst acc) \<and> history_ok (unat (snd acc)) [] (fst acc) \<and>
     unat start \<le> unat (snd acc) \<and> unat (snd acc) \<le> unat start + used"

lemma replaying_event:
  assumes "replaying n0 u acc" and "unat n0 + u + 1 < 2 ^ 64"
  shows "replaying n0 (u + 1) (replay_event k e acc)"
proof -
  obtain s n where acc: "acc = (s, n)" by force
  have ok: "sub_ok s" "history_ok (unat n) [] s" "unat n0 \<le> unat n" "unat n \<le> unat n0 + u"
    using assms(1) by (simp_all add: replaying_def acc)
  have "unat (n + 1) = Suc (unat n)" using ok(4) assms(2) by (intro unat_u64_Suc) linarith
  then show ?thesis
    using ok enqueue_history [of s "unat n" "[]" "e\<lparr>ev_sequence := n\<rparr>"] enqueue_sub_ok [OF ok(1)]
    by (auto simp: replaying_def acc replay_event_def sub_ok_def)
qed

lemma replaying_events:
  "replaying n0 u acc \<Longrightarrow> unat n0 + u + length es < 2 ^ 64 \<Longrightarrow> replaying n0 (u + length es) (fold (replay_event k) es acc)"
proof (induction es arbitrary: u acc)
  case (Cons e es)
  have "replaying n0 (u + 1) (replay_event k e acc)"
    using Cons(2,3) by (intro replaying_event) simp_all
  from Cons(1) [OF this] Cons(3) show ?case by simp
qed simp

lemma replaying_kind:
  assumes "replaying n0 u acc" and "unat n0 + u + replay_size ps call k < 2 ^ 64"
  shows "replaying n0 (u + replay_size ps call k) (replay_kind ps call k acc)"
  using assms replaying_events [of n0 u acc]
  by (auto simp: replay_kind_def replay_size_def replaying_def split: option.splits)

lemma replaying_kinds:
  "replaying n0 u acc \<Longrightarrow> unat n0 + u + sum_list (map (replay_size ps call) ks) < 2 ^ 64 \<Longrightarrow>
     replaying n0 (u + sum_list (map (replay_size ps call) ks)) (fold (replay_kind ps call) ks acc)"
proof (induction ks arbitrary: u acc)
  case (Cons k ks)
  have "replaying n0 (u + replay_size ps call k) (replay_kind ps call k acc)"
    using Cons(2,3) by (intro replaying_kind) simp_all
  from Cons(1) [OF this] Cons(3) show ?case by (simp add: add.assoc)
qed simp

definition run_ok :: "'f bus_state \<times> (nat \<times> subscription_event) list \<Rightarrow> bool" where
  "run_ok st \<longleftrightarrow>
     (let (b, log) = st
      in bus_ok b \<and> (\<forall>x\<in>set log. fst x < length (bus_store b)) \<and>
         (\<forall>a<length (bus_store b). history_ok (unat (bus_next_sequence b)) (taken a log) (bus_store b ! a)))"

lemma run_ok_same:
  assumes "run_ok (b, log)" and "bus_ok b'" and "bus_next_sequence b' = bus_next_sequence b" and "length (bus_store b') = length (bus_store b)"
    and "\<And>i. i < length (bus_store b) \<Longrightarrow> queue_items (bus_store b' ! i) = queue_items (bus_store b ! i) \<and>
      ss_last_delivered (bus_store b' ! i) = ss_last_delivered (bus_store b ! i)"
  shows "run_ok (b', log)"
  using assms by (simp add: run_ok_def history_ok_def)

lemma run_ok_publish:
  assumes "run_ok (b, log)" and "unat (bus_next_sequence b) + 1 < 2 ^ 64"
  shows "run_ok (fst (publish e b), log)"
proof -
  have ok: "bus_ok b" using assms(1) by (simp add: run_ok_def)
  note f = publish_fields [where e = e, OF ok]
  have "history_ok (Suc (unat (bus_next_sequence b))) (taken a log) (bus_store (fst (publish e b)) ! a)"
    if "a < length (bus_store b)" for a
    using assms(1) that enqueue_history [of "bus_store b ! a" "unat (bus_next_sequence b)" "taken a log" "e\<lparr>ev_sequence := bus_next_sequence b\<rparr>"]
      sub_ok_nth [OF ok that] history_ok_mono [of "unat (bus_next_sequence b)" "taken a log" _ "Suc (unat (bus_next_sequence b))"]
    by (simp add: f run_ok_def sub_ok_def)
  then show ?thesis
    using assms publish_ok [OF ok] unat_u64_Suc [OF assms(2)] by (simp add: run_ok_def f)
qed

lemma taken_absent: "\<forall>x\<in>set log. fst x \<noteq> a \<Longrightarrow> taken a log = []"
  by (induction log) (auto simp: taken_def)

lemma run_ok_subscribe:
  assumes "run_ok (b, log)" and "unat (bus_next_sequence b) + sequence_use (Subscribe scope options call) b < 2 ^ 64"
  shows "run_ok (fst (snd (subscribe call scope options b)), log)"
proof -
  have ok: "bus_ok b" using assms(1) by (simp add: run_ok_def)
  let ?b = "b\<lparr>bus_next_id := bus_next_id b + 1\<rparr>"
  have ok': "bus_ok ?b" by (rule bus_ok_store [OF ok]) (simp_all add: sub_ok_nth [OF ok])
  let ?s = "new_subscription (make_subscription_id (bus_next_id b)) (scope_with_kinds scope) options"
  obtain b' calls where add: "bus_add call ?s ?b = (b', calls)" by force
  then have res: "fst (snd (subscribe call scope options b)) = b'" by (simp add: subscribe_def)
  have kinds: "sub_kinds ?s = sc_kinds (scope_with_kinds scope)" by (simp add: sub_kinds_def new_subscription_fields)
  let ?f = "fold (replay_kind (bus_providers b) call) (sub_kinds ?s) (?s, bus_next_sequence b)"
  note r = bus_add_result(1,4,5) [OF ok' new_subscription_ok add, simplified]
  have "replaying (bus_next_sequence b) 0 (?s, bus_next_sequence b)"
    by (simp add: replaying_def new_subscription_ok history_ok_def new_subscription_ring new_subscription_fields del: queue_items_Nil)
  from replaying_kinds [OF this, of "bus_providers b" call "sub_kinds ?s"]
  have new: "history_ok (unat (snd ?f)) [] (fst ?f)" "unat (bus_next_sequence b) \<le> unat (snd ?f)"
    using assms(2) by (simp_all add: kinds replaying_def)
  have "history_ok (unat (snd ?f)) (taken a log) ((bus_store b @ [fst ?f]) ! a)" if "a < Suc (length (bus_store b))" for a
  proof (cases "a = length (bus_store b)")
    case True
    then have "taken a log = []" using assms(1) by (intro taken_absent) (auto simp: run_ok_def)
    with True new show ?thesis by simp
  next
    case False
    then have "a < length (bus_store b)" using that by simp
    then show ?thesis using assms(1) new(2) history_ok_mono by (auto simp: run_ok_def nth_append)
  qed
  then show ?thesis
    using assms(1) r by (simp add: res run_ok_def less_SucI)
qed

lemma run_ok_take:
  assumes "run_ok (b, log)"
  shows "run_ok (run_bus_op (TakeItem a) (b, log))"
proof (cases "a < length (bus_store b)")
  case False
  with assms show ?thesis by (simp add: handle_try_pop_item_def)
next
  case True
  obtain item s' where pop: "try_pop_item (bus_store b ! a) = (item, s')" by force
  have ok: "bus_ok b" using assms by (simp add: run_ok_def)
  let ?log = "log @ (case item of None \<Rightarrow> [] | Some x \<Rightarrow> [(a, x)])" and ?b = "update_state a s' b"
  have res: "run_bus_op (TakeItem a) (b, log) = (?b, ?log)"
    using True by (simp add: handle_try_pop_item_def pop)
  have same: "taken a ?log = taken a log @ (case item of None \<Rightarrow> [] | Some x \<Rightarrow> [x])"
    "i \<noteq> a \<Longrightarrow> taken i ?log = taken i log" for i
    by (auto simp: taken_def split: option.splits)
  have "history_ok (unat (bus_next_sequence b)) (taken i ?log) (bus_store ?b ! i)" if "i < length (bus_store b)" for i
    using assms that pop_history [OF _ _ pop, of "unat (bus_next_sequence b)" "taken a log"] sub_ok_nth [OF ok True]
    by (cases "i = a") (simp_all add: same run_ok_def update_state_def sub_ok_def)
  moreover have "bus_ok ?b"
    using run_bus_op_ok [OF ok, of "TakeItem a" log] by (simp add: res del: run_bus_op.simps)
  ultimately show ?thesis
    using assms True by (auto simp: res run_ok_def update_state_def simp del: run_bus_op.simps split: option.splits)
qed

lemma run_ok_step:
  assumes "run_ok (b, log)" and "unat (bus_next_sequence b) + sequence_use op b < 2 ^ 64"
  shows "run_ok (run_bus_op op (b, log))"
proof -
  have ok: "bus_ok b" using assms(1) by (simp add: run_ok_def)
  note same = run_ok_same [OF assms(1) run_bus_op_ok [OF ok, of op log]]
  show ?thesis
  proof (cases op)
    case (Publish e)
    then show ?thesis using run_ok_publish assms by simp
  next
    case (Subscribe scope options call)
    then show ?thesis using run_ok_subscribe [OF assms(1)] assms(2) by simp
  next
    case (Unsubscribe a)
    obtain b' calls where r: "bus_remove a b = (b', calls)" by force
    have "bus_store b' = bus_store b \<and> bus_next_sequence b' = bus_next_sequence b"
      using r by (auto simp: bus_remove_def split: if_splits prod.splits)
    with r show ?thesis using same by (simp add: Unsubscribe unsubscribe_def split_beta)
  next
    case (SetNotify a cb)
    then show ?thesis
      using same by (cases "a < length (bus_store b)")
        (auto simp: handle_set_notify_def update_state_def nth_list_update sub_set_notify_def queue_items_def)
  qed (use run_ok_take [OF assms(1)] same in \<open>auto simp: register_snapshot_provider_def unregister_snapshot_provider_def set_demand_callback_def\<close>)
qed

lemma run_ok_run: "run_ok st \<Longrightarrow> fits ops st \<Longrightarrow> run_ok (fold run_bus_op ops st)"
proof (induction ops arbitrary: st)
  case (Cons op ops)
  then have "run_ok (run_bus_op op st)" using run_ok_step [of "fst st" "snd st" op] unfolding fits.simps fits_unat prod.collapse by blast
  with Cons show ?case by simp
qed simp

lemma events_of_sorted: "sorted_wrt item_before xs \<Longrightarrow> sorted_wrt (<) (map (\<lambda>e. unat (ev_sequence e)) (events_of xs))"
proof (induction xs rule: events_of.induct)
  case (2 e xs)
  have "EventItem d \<in> set xs" if "d \<in> set (events_of xs)" for d
    using that by (induction xs rule: events_of.induct) auto
  with 2 show ?case by fastforce
qed auto

text \<open>
  C11. Every subscription hears events in order. After any interleaving of publishing, subscribing,
  unsubscribing and taking items that does not exhaust the 64-bit sequence counter, the events one
  subscription has taken so far, followed by those still in its queue, have strictly increasing sequence
  numbers, all below the next one the bus will assign; and the sequence number a gap marker would report
  as last delivered is that of the event taken last.\<close>

theorem events_delivered_in_order:
  assumes "run_bus ops i = (b, log)" and "fits ops (new_bus i, [])" and "a < length (bus_store b)"
  shows "sorted_wrt (<) (map (\<lambda>e. unat (ev_sequence e)) (events_of (taken a log @ queue_items (bus_store b ! a)))) \<and>
    (\<forall>x\<in>set (taken a log @ queue_items (bus_store b ! a)). item_below (unat (bus_next_sequence b)) x) \<and>
    ss_last_delivered (bus_store b ! a) = last (0 # map ev_sequence (events_of (taken a log)))"
proof -
  have "run_ok (new_bus i, [])"
    using new_bus_ok [of i] by (simp add: run_ok_def new_bus_def)
  from run_ok_run [OF this assms(2)] have "run_ok (b, log)"
    using assms(1) by (simp add: run_bus_def)
  then have h: "history_ok (unat (bus_next_sequence b)) (taken a log) (bus_store b ! a)"
    using assms(3) by (simp add: run_ok_def)
  then show ?thesis
    unfolding history_ok_def using events_of_sorted by blast
qed

theorem events_delivered_in_order_witness:
  "sorted_wrt (<) (map (\<lambda>e. unat (ev_sequence e)) (events_of (taken 0 (snd (run_bus sample_run 1)) @
     queue_items (bus_store (fst (run_bus sample_run 1)) ! 0)))) \<and>
   map ev_sequence (events_of (taken 0 (snd (run_bus sample_run 1)) @ queue_items (bus_store (fst (run_bus sample_run 1)) ! 0))) = [1, 2]"
proof -
  have "fits sample_run (new_bus 1, [])"
    by code_simp
  moreover have "0 < length (bus_store (fst (run_bus sample_run 1)))"
    by code_simp
  moreover have "map ev_sequence (events_of (taken 0 (snd (run_bus sample_run 1)) @ queue_items (bus_store (fst (run_bus sample_run 1)) ! 0))) = [1, 2]"
    by code_simp
  ultimately show ?thesis
    using events_delivered_in_order [OF prod.collapse [symmetric], of sample_run 1 0] by blast
qed

end
