(* ===== verification/Capability_Routing.thy ===== *)
theory Capability_Routing
  imports Errors "HOL-Library.Char_ord" "HOL-Library.List_Lexorder" "HOL-Library.Product_Lexorder" "HOL-Library.Multiset"
begin

text \<open>
  \<open>src/kernel/routing\<close> with \<open>include/grab/capability.hpp\<close>: the capabilities and their names, the registry of
  providers, the probing of the environment, and the resolver that ranks the providers of a capability and
  caches the result per generation of the environment. A provider is named by its place in the registry;
  probing it is a virtual call and may have effects, so it acts on an arbitrary state \<open>'w\<close>. The resolver
  holds its mutex for the whole call. \<open>std::ranges::stable_sort\<close> is the stable sort by key of the library.
  Logging is left out. Shown: what the chain of a resolution contains and in which order, when and how
  resolution fails, and that a cached capability is not probed again.
\<close>

section \<open>Capabilities\<close>

datatype availability_state = Available | Degraded | NeedsPermission | Unavailable | AvailabilityStateCount

datatype capability =
    ScreenDisplayImageCap | ScreenDisplayVideoCap | ScreenWindowImageCap | ScreenActiveWindowImageCap | ScreenUserSelectedImageCap
  | EventKeyGlobalCap | EventMouseGlobalCap | EventWindowFocusCap | EventWindowListCap | WindowFindCap
  | WindowGeometryCap | MouseMoveCap | MouseMoveAbsoluteCap | MouseMoveRelativeCap | MouseClickCap
  | MouseDragCap | KeyTextCap | KeyChordCap | OverlayCap | CapabilityCount

definition availability_state_names :: "availability_state enum_table" where
  "availability_state_names =
     [(Available, ''available''), (Degraded, ''degraded''), (NeedsPermission, ''needs-permission''), (Unavailable, ''unavailable'')]"

definition capability_names :: "capability enum_table" where
  "capability_names = [
     (ScreenDisplayImageCap, ''screen.display.image''),
     (ScreenDisplayVideoCap, ''screen.display.video''),
     (ScreenWindowImageCap, ''screen.window.image''),
     (ScreenActiveWindowImageCap, ''screen.active_window.image''),
     (ScreenUserSelectedImageCap, ''screen.user_selected.image''),
     (EventKeyGlobalCap, ''event.key.global''),
     (EventMouseGlobalCap, ''event.mouse.global''),
     (EventWindowFocusCap, ''event.window.focus''),
     (EventWindowListCap, ''event.window.list''),
     (WindowFindCap, ''window.find''),
     (WindowGeometryCap, ''window.geometry''),
     (MouseMoveCap, ''mouse.move''),
     (MouseMoveAbsoluteCap, ''mouse.move.absolute''),
     (MouseMoveRelativeCap, ''mouse.move.relative''),
     (MouseClickCap, ''mouse.click''),
     (MouseDragCap, ''mouse.drag''),
     (KeyTextCap, ''key.text''),
     (KeyChordCap, ''key.chord''),
     (OverlayCap, ''overlay'')]"

text \<open>The number of a capability, its place in the enumeration.\<close>

fun capability_value :: "capability \<Rightarrow> u8" where
  "capability_value ScreenDisplayImageCap = 0"
| "capability_value ScreenDisplayVideoCap = 1"
| "capability_value ScreenWindowImageCap = 2"
| "capability_value ScreenActiveWindowImageCap = 3"
| "capability_value ScreenUserSelectedImageCap = 4"
| "capability_value EventKeyGlobalCap = 5"
| "capability_value EventMouseGlobalCap = 6"
| "capability_value EventWindowFocusCap = 7"
| "capability_value EventWindowListCap = 8"
| "capability_value WindowFindCap = 9"
| "capability_value WindowGeometryCap = 10"
| "capability_value MouseMoveCap = 11"
| "capability_value MouseMoveAbsoluteCap = 12"
| "capability_value MouseMoveRelativeCap = 13"
| "capability_value MouseClickCap = 14"
| "capability_value MouseDragCap = 15"
| "capability_value KeyTextCap = 16"
| "capability_value KeyChordCap = 17"
| "capability_value OverlayCap = 18"
| "capability_value CapabilityCount = 19"

definition state_name :: "availability_state \<Rightarrow> string" where
  "state_name state = text_of availability_state_names state ''unavailable''"

definition capability_name :: "capability \<Rightarrow> string" where
  "capability_name c = text_of capability_names c []"

definition capability_from_string :: "string \<Rightarrow> capability option" where
  "capability_from_string str = value_of capability_names str"

record availability =
  av_state :: availability_state
  av_reason :: string
  av_quality :: int

section \<open>The environment\<close>

datatype session_type = UnknownSession | X11Session | WaylandSession | HeadlessSession

record input_device_access =
  dev_path :: string
  dev_readable :: bool

record environment =
  env_session :: session_type
  env_xwayland_present :: bool
  env_compositor :: string
  env_desktop :: string
  env_input_devices :: "input_device_access list"
  env_uinput_writable :: bool
  env_generation :: u64

text \<open>\<open>SystemFacts\<close>: the four questions put to the system.\<close>

record system_facts =
  fact_get_env :: "string \<Rightarrow> string option"
  fact_path_readable :: "string \<Rightarrow> bool"
  fact_path_writable :: "string \<Rightarrow> bool"
  fact_list_input_devices :: "string list"

definition present :: "string option \<Rightarrow> bool" where
  "present v = (case v of None \<Rightarrow> False | Some str \<Rightarrow> str \<noteq> [])"

definition probe_environment :: "system_facts \<Rightarrow> environment" where
  "probe_environment facts =
     (let wayland = fact_get_env facts ''WAYLAND_DISPLAY'';
          x11 = fact_get_env facts ''DISPLAY''
      in \<lparr>env_session = (if present wayland then WaylandSession else if present x11 then X11Session else HeadlessSession),
          env_xwayland_present = (present wayland \<and> present x11),
          env_compositor = [],
          env_desktop = (case fact_get_env facts ''XDG_CURRENT_DESKTOP'' of None \<Rightarrow> [] | Some d \<Rightarrow> d),
          env_input_devices = map (\<lambda>p. \<lparr>dev_path = p, dev_readable = fact_path_readable facts p\<rparr>) (fact_list_input_devices facts),
          env_uinput_writable = fact_path_writable facts ''/dev/uinput'',
          env_generation = 0\<rparr>)"

fun read_live_environment :: "string list \<Rightarrow> string \<Rightarrow> string option" where
  "read_live_environment [] name = None"
| "read_live_environment (variable # entries) name =
     (let p = name @ ''=''
      in if take (length p) variable = p then Some (drop (length p) variable) else read_live_environment entries name)"

text \<open>
  \<open>real_system_facts\<close>, from the process environment, the two \<open>open\<close> probes and the entries of \<open>/dev/input\<close>
  (file name and path of each).
\<close>

definition real_system_facts :: "string list \<Rightarrow> (string \<Rightarrow> bool) \<Rightarrow> (string \<Rightarrow> bool) \<Rightarrow> (string \<times> string) list \<Rightarrow> system_facts" where
  "real_system_facts environ read_probe write_probe entries =
     \<lparr>fact_get_env = read_live_environment environ,
      fact_path_readable = read_probe,
      fact_path_writable = write_probe,
      fact_list_input_devices = sort (map snd (filter (\<lambda>e. take 5 (fst e) = ''event'') entries))\<rparr>"

section \<open>Providers and the registry\<close>

record 'w provider =
  pv_name :: string
  pv_capabilities :: "capability list"
  pv_quality :: int
  pv_probe :: "environment \<Rightarrow> 'w \<Rightarrow> availability \<times> 'w"

type_synonym 'w registry = "'w provider list"

definition providers_for :: "capability \<Rightarrow> 'w registry \<Rightarrow> nat list" where
  "providers_for c registry = filter (\<lambda>i. c \<in> set (pv_capabilities (registry ! i))) [0..<length registry]"

definition all_providers :: "'w registry \<Rightarrow> nat list" where
  "all_providers registry = [0..<length registry]"

definition add_provider :: "'w provider \<Rightarrow> 'w registry \<Rightarrow> 'w registry" where
  "add_provider p registry = registry @ [p]"

section \<open>The resolver\<close>

record capability_request =
  req_capability :: capability
  req_target_class :: string
  req_target_key :: string
  req_prefer_permission :: bool

record resolution =
  res_chain :: "nat list"
  res_best :: availability

type_synonym cache_key = "u64 \<times> u8 \<times> string \<times> string \<times> bool"

type_synonym resolver_cache = "(cache_key, resolution) omap"

definition cache_key_of :: "capability_request \<Rightarrow> environment \<Rightarrow> cache_key" where
  "cache_key_of request env =
     (env_generation env, capability_value (req_capability request), req_target_class request, req_target_key request,
      req_prefer_permission request)"

fun rank :: "availability_state \<Rightarrow> bool \<Rightarrow> int" where
  "rank Available prefer = 0"
| "rank Degraded prefer = (if prefer then 2 else 1)"
| "rank NeedsPermission prefer = (if prefer then 1 else 2)"
| "rank AvailabilityStateCount prefer = 3"
| "rank Unavailable prefer = 3"

type_synonym candidate = "nat \<times> availability"

fun probe_all ::
  "'w registry \<Rightarrow> environment \<Rightarrow> nat list \<Rightarrow> candidate list \<Rightarrow> provider_attempt list \<Rightarrow> 'w \<Rightarrow>
   candidate list \<times> provider_attempt list \<times> 'w" where
  "probe_all registry env [] candidates rejected w = (candidates, rejected, w)"
| "probe_all registry env (p # ps) candidates rejected w =
     (case pv_probe (registry ! p) env w of
        (availability, w) \<Rightarrow>
          if av_state availability = Unavailable
          then probe_all registry env ps candidates
                 (rejected @ [\<lparr>attempt_provider = pv_name (registry ! p), attempt_reason = av_reason availability\<rparr>]) w
          else probe_all registry env ps (candidates @ [(p, availability)]) rejected w)"

text \<open>The comparison of the sort, as a key: by rank, then by descending quality.\<close>

definition candidate_key :: "bool \<Rightarrow> candidate \<Rightarrow> int \<times> int" where
  "candidate_key prefer c = (rank (av_state (snd c)) prefer, - av_quality (snd c))"

definition unavailable_error :: "capability_request \<Rightarrow> provider_attempt list \<Rightarrow> error" where
  "unavailable_error request rejected =
     (let capability_id = capability_name (req_capability request)
      in (fail CapabilityUnavailable (''no provider available for '' @ capability_id))
           \<lparr>err_capability := capability_id,
            err_target := if req_target_key request = [] then req_target_class request else req_target_key request,
            err_attempts := rejected\<rparr>)"

definition resolve_request ::
  "'w registry \<Rightarrow> capability_request \<Rightarrow> environment \<Rightarrow> resolver_cache \<Rightarrow> 'w \<Rightarrow> resolution result \<times> resolver_cache \<times> 'w" where
  "resolve_request registry request env cache w =
     (let key = cache_key_of request env
      in case omap_find cache key of
           Some found \<Rightarrow> (Inr found, cache, w)
         | None \<Rightarrow>
             (case probe_all registry env (providers_for (req_capability request) registry) [] [] w of
                (candidates, rejected, w) \<Rightarrow>
                  if candidates = [] then (Inl (unavailable_error request rejected), cache, w)
                  else let candidates = sort_key (candidate_key (req_prefer_permission request)) candidates;
                           resolution = \<lparr>res_chain = map fst candidates, res_best = snd (hd candidates)\<rparr>
                       in (Inr resolution, omap_put key resolution cache, w)))"

section \<open>Names\<close>

lemma capability_tables:
  "distinct (map fst capability_names)" "distinct (map snd capability_names)"
  by code_simp+

text \<open>
  The name of a capability identifies it: \<open>capability_from_string\<close> reads the name of every capability
  back, and reads no other text as a capability.\<close>

theorem capability_name_roundtrip:
  "(c \<noteq> CapabilityCount \<longrightarrow> capability_from_string (capability_name c) = Some c) \<and>
   (capability_from_string str = Some d \<longrightarrow> capability_name d = str)"
proof -
  have "c \<noteq> CapabilityCount \<Longrightarrow> c \<in> fst ` set capability_names"
    by (cases c) (simp_all add: capability_names_def)
  moreover have "capability_name d = str" if d: "capability_from_string str = Some d"
  proof -
    from d obtain e where e: "List.find (\<lambda>e. snd e = str) capability_names = Some e" "fst e = d"
      by (auto simp: capability_from_string_def value_of_def)
    then have "e \<in> set capability_names" "snd e = str" by (auto simp: find_Some_iff in_set_conv_nth)
    then show ?thesis
      using find_unique_key [OF capability_tables(1), of e] e(2) by (simp add: capability_name_def text_of_def)
  qed
  ultimately show ?thesis
    using value_of_text_of [OF capability_tables] by (simp add: capability_from_string_def capability_name_def)
qed

theorem capability_name_roundtrip_witness:
  "capability_from_string (capability_name KeyChordCap) = Some KeyChordCap \<and> capability_name KeyChordCap = ''key.chord''"
  using capability_name_roundtrip [of KeyChordCap "''key.chord''" KeyChordCap]
  by (simp add: capability_from_string_def value_of_def capability_names_def)

section \<open>Ranking\<close>

text \<open>The providers asked, in order, each with its answer.\<close>

fun probed :: "'w registry \<Rightarrow> environment \<Rightarrow> nat list \<Rightarrow> 'w \<Rightarrow> candidate list \<times> 'w" where
  "probed registry env [] w = ([], w)"
| "probed registry env (p # ps) w =
     (case pv_probe (registry ! p) env w of (a, w) \<Rightarrow> case probed registry env ps w of (cs, w) \<Rightarrow> ((p, a) # cs, w))"

definition usable :: "candidate \<Rightarrow> bool" where
  "usable c \<longleftrightarrow> av_state (snd c) \<noteq> Unavailable"

definition attempt_of :: "'w registry \<Rightarrow> candidate \<Rightarrow> provider_attempt" where
  "attempt_of registry c = \<lparr>attempt_provider = pv_name (registry ! fst c), attempt_reason = av_reason (snd c)\<rparr>"

lemma probe_all_probed:
  "probe_all registry env ps candidates rejected w =
     (case probed registry env ps w of (cs, w') \<Rightarrow>
        (candidates @ filter usable cs, rejected @ map (attempt_of registry) (filter (\<lambda>c. \<not> usable c) cs), w'))"
  by (induction registry env ps candidates rejected w rule: probe_all.induct)
    (auto simp: usable_def attempt_of_def split: prod.splits)

lemma probed_asks: "map fst (fst (probed registry env ps w)) = ps"
  by (induction registry env ps w rule: probed.induct) (auto split: prod.splits)

text \<open>
  What callers are promised about the order. The states from best to worst: a provider that is available comes before all others, and the
  request says whether one that only lacks a permission is preferred to a degraded one. Among providers in the same state the one with
  the higher quality is better, and among those the one registered first.
\<close>

definition states_best_first :: "bool \<Rightarrow> availability_state list" where
  "states_best_first prefer_permission =
     (if prefer_permission then [Available, NeedsPermission, Degraded, AvailabilityStateCount]
      else [Available, Degraded, NeedsPermission, AvailabilityStateCount])"

definition state_better :: "bool \<Rightarrow> availability_state \<Rightarrow> availability_state \<Rightarrow> bool" where
  "state_better prefer a b \<longleftrightarrow> (\<exists>xs ys zs. states_best_first prefer = xs @ a # ys @ b # zs)"

definition ranked_before :: "bool \<Rightarrow> candidate \<Rightarrow> candidate \<Rightarrow> bool" where
  "ranked_before prefer c d \<longleftrightarrow>
     state_better prefer (av_state (snd c)) (av_state (snd d)) \<or>
     av_state (snd c) = av_state (snd d) \<and>
       (av_quality (snd c) > av_quality (snd d) \<or> av_quality (snd c) = av_quality (snd d) \<and> fst c < fst d)"

lemma split_at_index: "(\<exists>xs ys zs. us = xs @ a # ys @ b # zs) \<longleftrightarrow> (\<exists>i j. i < j \<and> j < length us \<and> us ! i = a \<and> us ! j = b)"
proof
  assume "\<exists>xs ys zs. us = xs @ a # ys @ b # zs"
  then obtain xs ys zs where us: "us = xs @ a # ys @ b # zs" by blast
  then have "us ! length xs = a" "us ! (length xs + Suc (length ys)) = b" by (simp_all add: nth_append)
  then show "\<exists>i j. i < j \<and> j < length us \<and> us ! i = a \<and> us ! j = b"
    by (intro exI [of _ "length xs"] exI [of _ "length xs + Suc (length ys)"]) (simp add: us)
next
  assume "\<exists>i j. i < j \<and> j < length us \<and> us ! i = a \<and> us ! j = b"
  then obtain i j where ij: "i < j" "j < length us" "us ! i = a" "us ! j = b" by blast
  have "us = take i us @ a # drop (Suc i) us" using ij by (metis id_take_nth_drop order.strict_trans)
  moreover have "drop (Suc i) us = take (j - Suc i) (drop (Suc i) us) @ b # drop (Suc (j - Suc i)) (drop (Suc i) us)"
    using ij id_take_nth_drop [of "j - Suc i" "drop (Suc i) us"] by simp
  ultimately show "\<exists>xs ys zs. us = xs @ a # ys @ b # zs" by metis
qed

lemma state_better_rank:
  assumes "a \<noteq> Unavailable" and "b \<noteq> Unavailable"
  shows "state_better prefer a b \<longleftrightarrow> rank a prefer < rank b prefer" and "rank a prefer = rank b prefer \<longleftrightarrow> a = b"
proof -
  have four: "(\<exists>i j. i < j \<and> j < (4 :: nat) \<and> us ! i = a \<and> us ! j = b) \<longleftrightarrow>
      us ! 0 = a \<and> (us ! 1 = b \<or> us ! 2 = b \<or> us ! 3 = b) \<or> us ! 1 = a \<and> (us ! 2 = b \<or> us ! 3 = b) \<or> us ! 2 = a \<and> us ! 3 = b"
    for us :: "availability_state list"
  proof -
    have "(\<exists>i j. i < j \<and> j < (4 :: nat) \<and> us ! i = a \<and> us ! j = b) \<longleftrightarrow> (\<exists>j<4. us ! j = b \<and> (\<exists>i<j. us ! i = a))" by blast
    then show ?thesis by (simp add: numeral_eq_Suc Ex_less_Suc) blast
  qed
  have "length (states_best_first prefer) = 4" by (simp add: states_best_first_def)
  then have "state_better prefer a b \<longleftrightarrow>
      (\<exists>i j. i < j \<and> j < 4 \<and> states_best_first prefer ! i = a \<and> states_best_first prefer ! j = b)"
    by (simp only: state_better_def split_at_index)
  then show "state_better prefer a b \<longleftrightarrow> rank a prefer < rank b prefer"
    unfolding four using assms by (cases a; cases b; cases "prefer") (simp_all add: states_best_first_def)
  show "rank a prefer = rank b prefer \<longleftrightarrow> a = b" using assms by (cases a; cases b; cases "prefer") simp_all
qed

text \<open>Sorting by a key keeps the positions of elements that tie.\<close>

lemma sort_key_positions:
  assumes "sorted_wrt (\<lambda>x y. fst x < fst y) xs"
  shows "sorted_wrt (\<lambda>x y. f x < f y \<or> f x = f y \<and> fst x < fst y) (sort_key f (xs :: (nat \<times> 'a) list))"
proof -
  have insert: "sorted_wrt (\<lambda>x y. f x < f y \<or> f x = f y \<and> fst x < fst y) (insort_key f x ys)"
    if "sorted_wrt (\<lambda>x y. f x < f y \<or> f x = f y \<and> fst x < fst y) ys" "\<forall>y\<in>set ys. fst x < fst y" for x and ys :: "(nat \<times> 'a) list"
    using that
  proof (induction ys)
    case (Cons y ys)
    then show ?case by (cases "f x \<le> f y") (auto simp: set_insort_key)
  qed simp
  show ?thesis using assms by (induction xs) (simp_all add: insert)
qed

text \<open>
  C37. What a resolution contains. When the capability is not cached and some provider that offers it is
  usable, resolution succeeds. Every provider that offers the capability has been asked once, in registry order; the chain holds exactly
  the usable ones, each once, the best first: by state in the order the request asks for, then by descending quality, then in registry
  order. The best availability is that of the first of the chain, and the result is cached under its key.\<close>

theorem resolve_ranks_providers:
  assumes "omap_find cache (cache_key_of request env) = None"
    and "probed registry env (providers_for (req_capability request) registry) w = (asked, w')"
    and "\<exists>c\<in>set asked. av_state (snd c) \<noteq> Unavailable"
  shows "\<exists>cs res. resolve_request registry request env cache w = (Inr res, omap_put (cache_key_of request env) res cache, w') \<and>
    res_chain res = map fst cs \<and> res_best res = snd (hd cs) \<and>
    set cs = {c \<in> set asked. av_state (snd c) \<noteq> Unavailable} \<and>
    sorted_wrt (ranked_before (req_prefer_permission request)) cs \<and> distinct (map fst cs) \<and>
    map fst asked = filter (\<lambda>i. req_capability request \<in> set (pv_capabilities (registry ! i))) [0..<length registry]"
proof -
  let ?key = "candidate_key (req_prefer_permission request)" and ?us = "filter usable asked"
  let ?cs = "sort_key ?key ?us"
  have asked: "map fst asked = providers_for (req_capability request) registry"
    using probed_asks assms(2) by (metis fst_conv)
  have order: "sorted_wrt (<) (map fst asked)" unfolding asked providers_for_def by (rule sorted_wrt_filter) simp
  then have "sorted_wrt (\<lambda>x y. fst x < fst y) ?us" by (simp add: sorted_wrt_map sorted_wrt_filter)
  then have "sorted_wrt (\<lambda>c d. ?key c < ?key d \<or> ?key c = ?key d \<and> fst c < fst d) ?cs" by (rule sort_key_positions)
  then have ranked: "sorted_wrt (ranked_before (req_prefer_permission request)) ?cs"
  proof (rule sorted_wrt_mono_rel [rotated])
    fix c d assume "c \<in> set ?cs" "d \<in> set ?cs" and less: "?key c < ?key d \<or> ?key c = ?key d \<and> fst c < fst d"
    then have "av_state (snd c) \<noteq> Unavailable" "av_state (snd d) \<noteq> Unavailable" by (simp_all add: usable_def)
    note ranks = state_better_rank [OF this, of "req_prefer_permission request"]
    show "ranked_before (req_prefer_permission request) c d"
      using less unfolding ranked_before_def ranks(1) ranks(2) [symmetric] by (auto simp: candidate_key_def)
  qed
  have "distinct (map fst asked)" using order strict_sorted_iff by blast
  then have "distinct (map fst ?us)" by (rule distinct_map_filter)
  then have "distinct (map fst ?cs)" by (metis mset_map mset_sort mset_eq_imp_distinct_iff)
  moreover have "?us \<noteq> []" using assms(3) by (auto simp: filter_empty_conv usable_def)
  then have "resolve_request registry request env cache w =
      (Inr \<lparr>res_chain = map fst ?cs, res_best = snd (hd ?cs)\<rparr>,
       omap_put (cache_key_of request env) \<lparr>res_chain = map fst ?cs, res_best = snd (hd ?cs)\<rparr> cache, w')"
    using assms(1,2) by (simp add: resolve_request_def probe_all_probed Let_def)
  ultimately show ?thesis using ranked asked
    by (intro exI [of _ ?cs] exI [of _ "\<lparr>res_chain = map fst ?cs, res_best = snd (hd ?cs)\<rparr>"]) (simp add: usable_def providers_for_def)
qed

text \<open>
  When resolution fails. With the capability not cached, resolution fails exactly when every provider
  that offers it answers that it is unavailable; the error names the capability and lists every one of
  them with its reason in registry order, and nothing is cached.\<close>

theorem resolve_fails_exactly:
  assumes "omap_find cache (cache_key_of request env) = None"
    and "probed registry env (providers_for (req_capability request) registry) w = (asked, w')"
  shows "(\<exists>e. fst (resolve_request registry request env cache w) = Inl e) = (\<forall>c\<in>set asked. \<not> usable c) \<and>
    (\<forall>e cache' w2. resolve_request registry request env cache w = (Inl e, cache', w2) \<longrightarrow>
       err_code e = CapabilityUnavailable \<and> err_attempts e = map (attempt_of registry) asked \<and>
       err_capability e = capability_name (req_capability request) \<and> cache' = cache \<and> w2 = w')"
  using assms
  by (auto simp: resolve_request_def probe_all_probed Let_def filter_empty_conv unavailable_error_def fail_def filter_id_conv
      intro!: arg_cong [where f = "map (attempt_of registry)"])

text \<open>
  A resolved capability is not probed again: once a request has been resolved, resolving a request for
  the same capability, target and preference in an environment of the same generation returns the same
  resolution at once, without asking any provider, until the generation changes.\<close>

theorem resolve_cached:
  assumes "resolve_request registry request env cache w = (Inr res, cache', w')"
    and "cache_key_of request2 env2 = cache_key_of request env"
  shows "resolve_request registry request2 env2 cache' v = (Inr res, cache', v)"
proof -
  have "omap_find cache' (cache_key_of request env) = Some res"
    using assms(1) by (auto simp: resolve_request_def Let_def omap_find_put split: option.splits prod.splits if_splits)
  then show ?thesis using assms(2) by (simp add: resolve_request_def)
qed

definition sample_provider :: "string \<Rightarrow> availability_state \<Rightarrow> int \<Rightarrow> nat provider" where
  "sample_provider name state quality =
     \<lparr>pv_name = name, pv_capabilities = [OverlayCap], pv_quality = 0,
      pv_probe = (\<lambda>env w. (\<lparr>av_state = state, av_reason = ''reason'', av_quality = quality\<rparr>, w + 1))\<rparr>"

definition sample_registry :: "nat registry" where
  "sample_registry = [sample_provider ''a'' Unavailable 9, sample_provider ''b'' Degraded 5,
     sample_provider ''c'' NeedsPermission 1, sample_provider ''d'' Degraded 7]"

definition sample_request :: capability_request where
  "sample_request = \<lparr>req_capability = OverlayCap, req_target_class = [], req_target_key = ''k'', req_prefer_permission = True\<rparr>"

definition sample_environment :: environment where
  "sample_environment = \<lparr>env_session = X11Session, env_xwayland_present = False, env_compositor = [], env_desktop = [],
     env_input_devices = [], env_uinput_writable = False, env_generation = 4\<rparr>"

lemma sample_resolution:
  "resolve_request sample_registry sample_request sample_environment [] 0 =
     (Inr \<lparr>res_chain = [2, 3, 1], res_best = \<lparr>av_state = NeedsPermission, av_reason = ''reason'', av_quality = 1\<rparr>\<rparr>,
      [(cache_key_of sample_request sample_environment,
        \<lparr>res_chain = [2, 3, 1], res_best = \<lparr>av_state = NeedsPermission, av_reason = ''reason'', av_quality = 1\<rparr>\<rparr>)], 4)"
  by code_simp

theorem resolve_ranks_providers_witness:
  "\<exists>cs res. resolve_request sample_registry sample_request sample_environment [] 0 =
      (Inr res, omap_put (cache_key_of sample_request sample_environment) res [], 4) \<and>
    res_chain res = map fst cs \<and> res_chain res = [2, 3, 1] \<and> sorted_wrt (ranked_before True) cs"
proof -
  obtain asked w' where asked: "probed sample_registry sample_environment
      (providers_for (req_capability sample_request) sample_registry) 0 = (asked, w')" by force
  have "list_ex (\<lambda>c. av_state (snd c) \<noteq> Unavailable) (fst (probed sample_registry sample_environment
      (providers_for (req_capability sample_request) sample_registry) 0))" by code_simp
  then have some: "\<exists>c\<in>set asked. av_state (snd c) \<noteq> Unavailable" by (simp add: asked list_ex_iff)
  have w': "w' = 4"
  proof -
    have "snd (probed sample_registry sample_environment (providers_for (req_capability sample_request) sample_registry) 0) = 4" by code_simp
    then show ?thesis by (simp add: asked)
  qed
  have wish: "req_prefer_permission sample_request" by (simp add: sample_request_def)
  obtain cs res where res: "resolve_request sample_registry sample_request sample_environment [] 0 =
      (Inr res, omap_put (cache_key_of sample_request sample_environment) res [], 4)"
    "res_chain res = map fst cs" "sorted_wrt (ranked_before True) cs"
    using resolve_ranks_providers [OF _ asked some, of "[]"] wish w' by (simp del: omap_put.simps) blast
  have "res_chain res = [2, 3, 1]" using res(1) sample_resolution by auto
  with res show ?thesis by blast
qed

theorem resolve_fails_exactly_witness:
  "\<exists>e. fst (resolve_request [sample_provider ''a'' Unavailable 9] sample_request sample_environment [] 0) = Inl e \<and>
     err_attempts e = [\<lparr>attempt_provider = ''a'', attempt_reason = ''reason''\<rparr>]"
proof -
  let ?r = "[sample_provider ''a'' Unavailable 9]" and ?c = "req_capability sample_request"
  have asked: "probed ?r sample_environment (providers_for ?c ?r) 0 =
      ([(0, \<lparr>av_state = Unavailable, av_reason = ''reason'', av_quality = 9\<rparr>)], 1)" by code_simp
  obtain q cache' w2 where r: "resolve_request ?r sample_request sample_environment [] 0 = (q, cache', w2)" by (metis prod.exhaust)
  have "attempt_of ?r (0, \<lparr>av_state = Unavailable, av_reason = ''reason'', av_quality = 9\<rparr>) =
      \<lparr>attempt_provider = ''a'', attempt_reason = ''reason''\<rparr>" by code_simp
  then show ?thesis
    using resolve_fails_exactly [OF _ asked, of "[]"] r by (auto simp: usable_def)
qed

theorem resolve_cached_witness:
  "\<exists>res cache' w'. resolve_request sample_registry sample_request sample_environment [] 0 = (Inr res, cache', w') \<and>
     resolve_request sample_registry sample_request (sample_environment\<lparr>env_desktop := ''x''\<rparr>) cache' 7 = (Inr res, cache', 7)"
proof -
  have "cache_key_of sample_request (sample_environment\<lparr>env_desktop := ''x''\<rparr>) = cache_key_of sample_request sample_environment"
    by (simp add: cache_key_of_def)
  then show ?thesis
    using resolve_cached [OF sample_resolution] sample_resolution by blast
qed

end
