(* ===== verification/Watch_Schedule.thy ===== *)
theory Watch_Schedule
  imports Prelude
begin

text \<open>
  \<open>src/config/schedule.cpp\<close>: when a watch captures next and when its script takes the next step. A time
  point is its count of nanoseconds; the interval is in milliseconds; the arithmetic on time points stays
  far from the 64-bit limits of the clock. Shown: the step index never leaves the script, steps come in order
  and the script ends or starts over after the last; captures keep their cadence, and the missed ones
  are counted, saturating.
\<close>

section \<open>The schedule\<close>

datatype step_action = MoveStep | ClickStep | ClickAtStep | DragStep | TypeStep | KeyStep | DelayStep

record script_step =
  st_action :: step_action
  st_x :: int
  st_y :: int
  st_to_x :: int
  st_to_y :: int
  st_button :: u8
  st_text :: string
  st_delay_ms :: u32

record script_section =
  scr_loop :: bool
  scr_steps :: "script_step list"

datatype due_kind = DueCapture | DueStep | DueIdle

record due =
  due_kind :: due_kind
  due_step_index :: nat
  due_wake_at :: int

record watch_schedule =
  ws_interval :: int
  ws_script :: "script_section option"
  ws_capture_at :: int
  ws_step_at :: int
  ws_step_index :: nat
  ws_skipped :: u64
  ws_initialized :: bool
  ws_script_active :: bool

definition steps_of :: "watch_schedule \<Rightarrow> script_step list" where
  "steps_of s = (case ws_script s of None \<Rightarrow> [] | Some sc \<Rightarrow> scr_steps sc)"

definition new_schedule :: "int \<Rightarrow> script_section option \<Rightarrow> watch_schedule" where
  "new_schedule interval script =
     \<lparr>ws_interval = interval, ws_script = script, ws_capture_at = 0, ws_step_at = 0, ws_step_index = 0, ws_skipped = 0,
      ws_initialized = False, ws_script_active = (case script of None \<Rightarrow> False | Some sc \<Rightarrow> scr_steps sc \<noteq> [])\<rparr>"

definition milliseconds :: "int \<Rightarrow> int" where
  "milliseconds ms = ms * 1000000"

definition arm_step :: "int \<Rightarrow> watch_schedule \<Rightarrow> watch_schedule" where
  "arm_step now s =
     (let step = steps_of s ! ws_step_index s
      in s\<lparr>ws_step_at := if st_action step = DelayStep then now + milliseconds (uint (st_delay_ms step)) else now\<rparr>)"

definition initialize :: "int \<Rightarrow> watch_schedule \<Rightarrow> watch_schedule" where
  "initialize now s =
     (if ws_initialized s then s
      else let s = s\<lparr>ws_capture_at := now\<rparr>;
               s = (if ws_script_active s then arm_step now s else s)
           in s\<lparr>ws_initialized := True\<rparr>)"

definition account_for_overrun :: "int \<Rightarrow> watch_schedule \<Rightarrow> watch_schedule" where
  "account_for_overrun now s =
     (if ws_interval s \<le> 0 \<or> now \<le> ws_capture_at s then s
      else let elapsed_intervals = (now - ws_capture_at s) div milliseconds (ws_interval s)
           in if elapsed_intervals \<le> 0 then s
              else let s = s\<lparr>ws_capture_at := ws_capture_at s + milliseconds (ws_interval s) * elapsed_intervals\<rparr>;
                       skipped = word_of_int elapsed_intervals
                   in if - 1 - ws_skipped s < skipped then s\<lparr>ws_skipped := - 1\<rparr>
                      else s\<lparr>ws_skipped := ws_skipped s + skipped\<rparr>)"

definition next_due :: "int \<Rightarrow> watch_schedule \<Rightarrow> due \<times> watch_schedule" where
  "next_due now s =
     (let s = account_for_overrun now (initialize now s)
      in if \<not> ws_script_active s \<or> ws_capture_at s \<le> ws_step_at s
         then (\<lparr>due_kind = DueCapture, due_step_index = 0, due_wake_at = ws_capture_at s\<rparr>, s)
         else (\<lparr>due_kind = DueStep, due_step_index = ws_step_index s, due_wake_at = ws_step_at s\<rparr>, s))"

definition capture_done :: "int \<Rightarrow> watch_schedule \<Rightarrow> watch_schedule" where
  "capture_done now s = (let s = initialize now s in s\<lparr>ws_capture_at := now + milliseconds (ws_interval s)\<rparr>)"

definition step_done :: "int \<Rightarrow> watch_schedule \<Rightarrow> watch_schedule" where
  "step_done now s =
     (let s = initialize now s
      in if \<not> ws_script_active s then s
         else let s = s\<lparr>ws_step_index := ws_step_index s + 1\<rparr>
              in if ws_step_index s = length (steps_of s)
                 then if \<not> (case ws_script s of None \<Rightarrow> False | Some sc \<Rightarrow> scr_loop sc)
                      then s\<lparr>ws_script_active := False\<rparr>
                      else arm_step now (s\<lparr>ws_step_index := 0\<rparr>)
                 else arm_step now s)"

definition fail_script :: "watch_schedule \<Rightarrow> watch_schedule" where
  "fail_script s = s\<lparr>ws_script_active := False\<rparr>"

section \<open>Runs\<close>

datatype schedule_op = NextDue int | CaptureDone int | StepDone int | FailScript

fun run_schedule_op :: "schedule_op \<Rightarrow> watch_schedule \<Rightarrow> watch_schedule" where
  "run_schedule_op (NextDue now) s = snd (next_due now s)"
| "run_schedule_op (CaptureDone now) s = capture_done now s"
| "run_schedule_op (StepDone now) s = step_done now s"
| "run_schedule_op FailScript s = fail_script s"

definition step_count :: "schedule_op list \<Rightarrow> nat" where
  "step_count ops = length (filter (\<lambda>op. case op of StepDone now \<Rightarrow> True | _ \<Rightarrow> False) ops)"

text \<open>The script after \<open>m\<close> finished steps: where it stands, and whether it still runs.\<close>

definition script_at :: "script_section option \<Rightarrow> nat \<Rightarrow> watch_schedule \<Rightarrow> bool" where
  "script_at script m s \<longleftrightarrow> ws_script s = script \<and>
     (case script of None \<Rightarrow> \<not> ws_script_active s
      | Some sc \<Rightarrow>
          let n = length (scr_steps sc)
          in if n = 0 \<or> \<not> scr_loop sc \<and> n \<le> m then \<not> ws_script_active s
             else ws_script_active s \<and> ws_step_index s = m mod n)"

lemma arm_step_fields [simp]:
  "ws_script (arm_step now s) = ws_script s" "ws_script_active (arm_step now s) = ws_script_active s"
  "ws_step_index (arm_step now s) = ws_step_index s" "ws_capture_at (arm_step now s) = ws_capture_at s"
  "ws_interval (arm_step now s) = ws_interval s" "ws_skipped (arm_step now s) = ws_skipped s"
  by (simp_all add: arm_step_def Let_def)

lemma initialize_fields [simp]:
  "ws_script (initialize now s) = ws_script s" "ws_script_active (initialize now s) = ws_script_active s"
  "ws_step_index (initialize now s) = ws_step_index s" "ws_interval (initialize now s) = ws_interval s"
  "ws_skipped (initialize now s) = ws_skipped s"
  by (simp_all add: initialize_def Let_def)

lemma overrun_fields [simp]:
  "ws_script (account_for_overrun now s) = ws_script s" "ws_script_active (account_for_overrun now s) = ws_script_active s"
  "ws_step_index (account_for_overrun now s) = ws_step_index s" "ws_step_at (account_for_overrun now s) = ws_step_at s"
  by (simp_all add: account_for_overrun_def Let_def)

lemma step_done_script:
  assumes "script_at script m s"
  shows "script_at script (Suc m) (step_done now s)"
proof (cases script)
  case None
  with assms show ?thesis by (simp add: script_at_def step_done_def Let_def)
next
  case (Some sc)
  let ?n = "length (scr_steps sc)"
  show ?thesis
  proof (cases "?n = 0 \<or> \<not> scr_loop sc \<and> ?n \<le> m")
    case True
    with assms Some show ?thesis by (auto simp: script_at_def step_done_def Let_def)
  next
    case False
    then have s: "ws_script s = Some sc" "ws_script_active s" "ws_step_index s = m mod ?n"
      using assms Some by (auto simp: script_at_def Let_def)
    have small: "m mod ?n = m" if "\<not> scr_loop sc" using that False by simp
    have "Suc (m mod ?n) = ?n \<Longrightarrow> Suc m mod ?n = 0" "Suc (m mod ?n) \<noteq> ?n \<Longrightarrow> Suc m mod ?n = Suc (m mod ?n)"
      by (simp_all add: mod_Suc)
    with s False small Some show ?thesis
      by (auto simp: script_at_def step_done_def Let_def steps_of_def)
  qed
qed

lemma other_ops_script:
  assumes "script_at script m s"
  shows "script_at script m (snd (next_due now s))" and "script_at script m (capture_done now s)"
  using assms by (auto simp: script_at_def next_due_def capture_done_def Let_def split: option.splits)

text \<open>
  A script runs its steps in order. After any calls of the schedule among which \<open>m\<close> finished steps and
  no failure, the script stands at step \<open>m\<close> modulo its length while it runs; it runs forever when it
  loops, and stops exactly after its last step when it does not; the step index is always one of a step
  while the script is active, so arming a step never reads past the script.\<close>

theorem script_steps_in_order:
  assumes "FailScript \<notin> set ops" and "s = fold run_schedule_op ops (new_schedule interval script)"
  shows "script_at script (step_count ops) s \<and> (ws_script_active s \<longrightarrow> ws_step_index s < length (steps_of s))"
proof -
  have "script_at script (m + step_count ops) (fold run_schedule_op ops s0)" if "script_at script m s0" for m s0
    using that assms(1)
  proof (induction ops arbitrary: m s0)
    case Nil
    then show ?case by (simp add: step_count_def)
  next
    case (Cons op ops)
    show ?case
    proof (cases op)
      case (StepDone now)
      from Cons(1) [OF step_done_script [OF Cons(2), of now]] Cons(3) show ?thesis
        by (simp add: StepDone step_count_def)
    qed (use Cons other_ops_script [OF Cons(2)] in \<open>auto simp: step_count_def\<close>)
  qed
  moreover have "script_at script 0 (new_schedule interval script)"
    by (auto simp: script_at_def new_schedule_def Let_def split: option.splits)
  ultimately have at: "script_at script (step_count ops) s" using assms(2) by (metis add_0)
  then have "ws_script_active s \<longrightarrow> ws_step_index s < length (steps_of s)"
    by (auto simp: script_at_def Let_def steps_of_def split: option.splits if_splits)
  with at show ?thesis by blast
qed

definition sample_script :: script_section where
  "sample_script = \<lparr>scr_loop = True, scr_steps = replicate 3 \<lparr>st_action = DelayStep, st_x = 0, st_y = 0, st_to_x = 0, st_to_y = 0,
     st_button = 1, st_text = [], st_delay_ms = 5\<rparr>\<rparr>"

theorem script_steps_in_order_witness:
  "ws_step_index (fold run_schedule_op [NextDue 0, StepDone 1, StepDone 2, CaptureDone 3, StepDone 4, StepDone 5]
     (new_schedule 10 (Some sample_script))) = 1"
  using script_steps_in_order [of "[NextDue 0, StepDone 1, StepDone 2, CaptureDone 3, StepDone 4, StepDone 5]" _ 10 "Some sample_script", OF _ refl]
  by (simp add: script_at_def sample_script_def step_count_def Let_def)

section \<open>Cadence\<close>

text \<open>
  C36. Captures keep their cadence. When an initialised schedule with a positive interval is asked for what is
  due, the capture time moves on by a whole number of intervals, to at most \<open>now\<close> if it had passed and
  to within one interval of it; the missed captures are added to the count of skipped ones, which
  saturates at \<open>2^64 - 1\<close>; what is due is the earlier of capture and step, the capture on a tie.\<close>

theorem captures_keep_cadence:
  assumes "ws_initialized s" and "0 < ws_interval s" and "next_due now s = (d, s')"
    and "k = (if now \<le> ws_capture_at s then 0 else (now - ws_capture_at s) div milliseconds (ws_interval s))"
    and "k < 2 ^ 64"
  shows "ws_capture_at s' = ws_capture_at s + k * milliseconds (ws_interval s) \<and>
    now < ws_capture_at s' + milliseconds (ws_interval s) \<and>
    (ws_capture_at s \<le> now \<longrightarrow> ws_capture_at s' \<le> now) \<and>
    uint (ws_skipped s') = min (uint (ws_skipped s) + k) (2 ^ 64 - 1) \<and>
    due_wake_at d = (if ws_script_active s then min (ws_capture_at s') (ws_step_at s') else ws_capture_at s') \<and>
    (due_kind d = DueStep \<longleftrightarrow> ws_script_active s \<and> ws_step_at s' < ws_capture_at s')"
proof -
  let ?i = "milliseconds (ws_interval s)"
  have i: "0 < ?i" using assms(2) by (simp add: milliseconds_def)
  have init: "initialize now s = s" using assms(1) by (simp add: initialize_def)
  have s': "s' = account_for_overrun now s"
    and d: "due_wake_at d = (if ws_script_active s then min (ws_capture_at s') (ws_step_at s') else ws_capture_at s')"
      "due_kind d = DueStep \<longleftrightarrow> ws_script_active s \<and> ws_step_at s' < ws_capture_at s'"
    using assms(3) by (auto simp: next_due_def init Let_def min_def split: if_splits)
  have k: "0 \<le> k" using assms(4) i by (auto simp: pos_imp_zdiv_nonneg_iff)
  have cap: "ws_capture_at s' = ws_capture_at s + k * ?i"
    using assms(2,4) k by (auto simp: s' account_for_overrun_def Let_def)
  have skipped: "uint (word_of_int k :: u64) = k"
    using k assms(5) by (simp add: uint_word_of_int)
  have max: "uint (- 1 :: u64) = 2 ^ 64 - 1"
    by (simp add: unsigned_minus_1_eq_mask mask_eq_exp_minus_1)
  have room: "uint (- 1 - ws_skipped s) = 2 ^ 64 - 1 - uint (ws_skipped s)"
    using uint_sub_lem [of "ws_skipped s" "- 1"] max uint_lt2p [of "ws_skipped s"] by simp
  have "ws_skipped s' = (if k = 0 then ws_skipped s else if - 1 - ws_skipped s < word_of_int k then - 1 else ws_skipped s + word_of_int k)"
    using assms(2,4) k by (auto simp: s' account_for_overrun_def Let_def)
  moreover have "uint (ws_skipped s + word_of_int k) = uint (ws_skipped s) + k" if "\<not> - 1 - ws_skipped s < word_of_int k"
    using that uint_add_lem [of "ws_skipped s" "word_of_int k"] by (simp add: word_less_def room skipped)
  ultimately have count: "uint (ws_skipped s') = min (uint (ws_skipped s) + k) (2 ^ 64 - 1)"
    using uint_lt2p [of "ws_skipped s"] max by (auto simp: word_less_def room skipped)
  have bounds: "now < ws_capture_at s + k * ?i + ?i" "ws_capture_at s \<le> now \<longrightarrow> ws_capture_at s + k * ?i \<le> now"
  proof -
    have mod: "0 \<le> (now - ws_capture_at s) mod ?i" "(now - ws_capture_at s) mod ?i < ?i" using i by simp_all
    have split: "k * ?i + (now - ws_capture_at s) mod ?i = now - ws_capture_at s" if "\<not> now \<le> ws_capture_at s"
      using that assms(4) by simp
    show "now < ws_capture_at s + k * ?i + ?i"
    proof (cases "now \<le> ws_capture_at s")
      case True
      with assms(4) i show ?thesis by simp
    next
      case False
      with split mod show ?thesis by linarith
    qed
    show "ws_capture_at s \<le> now \<longrightarrow> ws_capture_at s + k * ?i \<le> now"
    proof (cases "now \<le> ws_capture_at s")
      case True
      with assms(4) show ?thesis by simp
    next
      case False
      with split mod show ?thesis by linarith
    qed
  qed
  from cap bounds count d show ?thesis by simp
qed

theorem captures_keep_cadence_witness:
  "let s = (new_schedule 10 None)\<lparr>ws_initialized := True, ws_capture_at := 0\<rparr>; (d, s') = next_due 35000000 s
   in ws_capture_at s' = 30000000 \<and> ws_skipped s' = 3 \<and> due_kind d = DueCapture"
proof -
  let ?s = "(new_schedule 10 None)\<lparr>ws_initialized := True, ws_capture_at := 0\<rparr>"
  obtain d s' where n: "next_due 35000000 ?s = (d, s')" by force
  have k: "3 = (if 35000000 \<le> ws_capture_at ?s then 0 else (35000000 - ws_capture_at ?s) div milliseconds (ws_interval ?s))"
    by (simp add: new_schedule_def milliseconds_def)
  have "ws_capture_at s' = 30000000" "uint (ws_skipped s') = 3" "due_kind d \<noteq> DueStep"
    using captures_keep_cadence [OF _ _ n k] by (simp_all add: new_schedule_def milliseconds_def)
  moreover have "due_kind d \<noteq> DueIdle" using n by (auto simp: next_due_def Let_def split: if_splits)
  ultimately show ?thesis
    by (cases "due_kind d") (auto simp: n word_uint_eq_iff)
qed

end
