(* ===== verification/Gesture_Classifier.thy ===== *)
theory Gesture_Classifier
  imports Events
begin

unbundle bit_operations_syntax

text \<open>
  \<open>src/kernel/input/gesture_classifier.cpp\<close>: the state machine that turns pointer events into gestures. Times
  are milliseconds. The two computations on \<open>double\<close>, the conversion of an event's time stamp and the
  comparison of the distance of two points with the slop, are arguments: nothing shown depends on them.
  Shown: a press or hold in progress belongs to a button that is down; in the stream of gestures every hold
  is ended or cancelled before the next begins, by the same button; every press is reported at most once.
\<close>

section \<open>Data\<close>

datatype gesture = MoveGesture | Hold | HoldEnd | HoldCancel | Click | DoubleClick | Pause

record gesture_event =
  ge_kind :: gesture
  ge_at :: space_point
  ge_button :: u32

record gesture_thresholds =
  th_hold :: int
  th_double_click :: int
  th_pause :: int
  th_slop_px :: f64

datatype gesture_state = Idle | Moving | Pressed | Holding | AwaitDouble | PostDouble

record gesture_classifier =
  gc_thresholds :: gesture_thresholds
  gc_state :: gesture_state
  gc_press_at :: space_point
  gc_press_time :: int
  gc_last_motion_at :: space_point
  gc_last_motion_time :: int
  gc_owner_button :: u32
  gc_buttons_down :: u8

record float_ops =
  fl_milliseconds :: "f64 \<Rightarrow> int"
  fl_hypot_exceeds :: "f64 \<Rightarrow> f64 \<Rightarrow> f64 \<Rightarrow> f64 \<Rightarrow> f64 \<Rightarrow> bool"

definition origin_point :: space_point where
  "origin_point = \<lparr>sp_x = 0, sp_y = 0, sp_space = 0\<rparr>"

definition new_classifier :: "gesture_thresholds \<Rightarrow> gesture_classifier" where
  "new_classifier thresholds =
     \<lparr>gc_thresholds = thresholds, gc_state = Idle, gc_press_at = origin_point, gc_press_time = 0,
      gc_last_motion_at = origin_point, gc_last_motion_time = 0, gc_owner_button = 0, gc_buttons_down = 0\<rparr>"

section \<open>Buttons\<close>

definition is_eligible_button :: "u32 \<Rightarrow> bool" where
  "is_eligible_button button \<longleftrightarrow> button \<ge> 1 \<and> button \<le> 3"

definition button_bit :: "u32 \<Rightarrow> u8" where
  "button_bit button = push_bit (unat (button - 1)) 1"

definition mark_button_down :: "u32 \<Rightarrow> gesture_classifier \<Rightarrow> bool \<times> gesture_classifier" where
  "mark_button_down button g =
     (let b = button_bit button; was_down = gc_buttons_down g AND b \<noteq> 0
      in (\<not> was_down, g\<lparr>gc_buttons_down := gc_buttons_down g OR b\<rparr>))"

definition mark_button_up :: "u32 \<Rightarrow> gesture_classifier \<Rightarrow> bool \<times> gesture_classifier" where
  "mark_button_up button g =
     (let b = button_bit button; was_down = gc_buttons_down g AND b \<noteq> 0
      in (was_down, g\<lparr>gc_buttons_down := gc_buttons_down g AND NOT b\<rparr>))"

definition button_is_down :: "u32 \<Rightarrow> gesture_classifier \<Rightarrow> bool" where
  "button_is_down button g \<longleftrightarrow> is_eligible_button button \<and> gc_buttons_down g AND button_bit button \<noteq> 0"

section \<open>Steps\<close>

definition exceeds_slop :: "float_ops \<Rightarrow> space_point \<Rightarrow> space_point \<Rightarrow> f64 \<Rightarrow> bool" where
  "exceeds_slop fl from_point to_point slop_px =
     (if sp_space from_point \<noteq> sp_space to_point then True
      else fl_hypot_exceeds fl (sp_x from_point) (sp_y from_point) (sp_x to_point) (sp_y to_point) slop_px)"

definition past_slop :: "float_ops \<Rightarrow> gesture_classifier \<Rightarrow> space_point \<Rightarrow> bool" where
  "past_slop fl g position = exceeds_slop fl (gc_press_at g) position (th_slop_px (gc_thresholds g))"

definition emit :: "gesture \<Rightarrow> space_point \<Rightarrow> u32 \<Rightarrow> gesture_event" where
  "emit kind at button = \<lparr>ge_kind = kind, ge_at = at, ge_button = button\<rparr>"

definition begin_press :: "u32 \<Rightarrow> space_point \<Rightarrow> int \<Rightarrow> gesture_classifier \<Rightarrow> gesture_classifier" where
  "begin_press button position now g =
     g\<lparr>gc_state := Pressed, gc_press_at := position, gc_press_time := now, gc_owner_button := button\<rparr>"

definition begin_moving :: "space_point \<Rightarrow> int \<Rightarrow> gesture_classifier \<Rightarrow> gesture_classifier" where
  "begin_moving position now g = g\<lparr>gc_state := Moving, gc_last_motion_at := position, gc_last_motion_time := now\<rparr>"

definition process_deadline :: "int \<Rightarrow> gesture_classifier \<Rightarrow> gesture_event list \<times> gesture_classifier" where
  "process_deadline now g =
     (case gc_state g of
        Pressed \<Rightarrow>
          if now - gc_press_time g \<ge> th_hold (gc_thresholds g)
          then ([emit Hold (gc_press_at g) (gc_owner_button g)], g\<lparr>gc_state := Holding\<rparr>) else ([], g)
      | Moving \<Rightarrow>
          if now - gc_last_motion_time g \<ge> th_pause (gc_thresholds g)
          then ([emit Pause (gc_last_motion_at g) 0], g\<lparr>gc_state := Idle\<rparr>) else ([], g)
      | AwaitDouble \<Rightarrow>
          if now - gc_press_time g > th_double_click (gc_thresholds g)
          then ([emit Click (gc_press_at g) (gc_owner_button g)],
                let g = g\<lparr>gc_state := Idle\<rparr>
                in if \<not> button_is_down (gc_owner_button g) g then g\<lparr>gc_owner_button := 0\<rparr> else g)
          else ([], g)
      | _ \<Rightarrow> ([], g))"

definition handle_motion :: "float_ops \<Rightarrow> space_point \<Rightarrow> int \<Rightarrow> gesture_classifier \<Rightarrow> gesture_event list \<times> gesture_classifier" where
  "handle_motion fl position now g =
     (case gc_state g of
        Pressed \<Rightarrow>
          if past_slop fl g position then ([emit MoveGesture position 0], begin_moving position now g) else ([], g)
      | Holding \<Rightarrow>
          if past_slop fl g position
          then ([emit HoldCancel position (gc_owner_button g), emit MoveGesture position 0], begin_moving position now g)
          else ([], g)
      | AwaitDouble \<Rightarrow>
          if past_slop fl g position
          then ([emit Click (gc_press_at g) (gc_owner_button g), emit MoveGesture position 0],
                begin_moving position now (g\<lparr>gc_owner_button := 0\<rparr>))
          else ([], g)
      | PostDouble \<Rightarrow>
          ([emit MoveGesture position 0],
           begin_moving position now (if \<not> button_is_down (gc_owner_button g) g then g\<lparr>gc_owner_button := 0\<rparr> else g))
      | _ \<Rightarrow> ([emit MoveGesture position 0], begin_moving position now g))"

definition claim_press :: "u32 \<Rightarrow> space_point option \<Rightarrow> int \<Rightarrow> bool \<Rightarrow> gesture_classifier \<Rightarrow> gesture_classifier" where
  "claim_press button position now owner_is_down g =
     (if owner_is_down then g
      else let g = g\<lparr>gc_owner_button := button\<rparr>
           in case position of None \<Rightarrow> g | Some p \<Rightarrow> begin_press button p now g)"

definition handle_button_down ::
  "float_ops \<Rightarrow> u32 \<Rightarrow> space_point option \<Rightarrow> int \<Rightarrow> gesture_classifier \<Rightarrow> gesture_event list \<times> gesture_classifier" where
  "handle_button_down fl button position now g =
     (if \<not> is_eligible_button button then ([], g)
      else let owner_is_down = button_is_down (gc_owner_button g) g
           in case mark_button_down button g of
                (marked, g) \<Rightarrow>
                  if \<not> marked then ([], g)
                  else case gc_state g of
                    Idle \<Rightarrow> ([], claim_press button position now owner_is_down g)
                  | Moving \<Rightarrow> ([], claim_press button position now owner_is_down g)
                  | Pressed \<Rightarrow> ([], g)
                  | Holding \<Rightarrow> ([], g)
                  | PostDouble \<Rightarrow> ([], claim_press button position now owner_is_down g)
                  | AwaitDouble \<Rightarrow>
                      (case position of
                         None \<Rightarrow> ([], g)
                       | Some p \<Rightarrow>
                           if button \<noteq> gc_owner_button g then ([], g)
                           else if now - gc_press_time g \<le> th_double_click (gc_thresholds g) \<and> \<not> past_slop fl g p
                           then ([emit DoubleClick p button], g\<lparr>gc_state := PostDouble\<rparr>)
                           else ([emit Click (gc_press_at g) (gc_owner_button g)], begin_press button p now g)))"

definition handle_button_up ::
  "float_ops \<Rightarrow> u32 \<Rightarrow> space_point option \<Rightarrow> gesture_classifier \<Rightarrow> gesture_event list \<times> gesture_classifier" where
  "handle_button_up fl button position g =
     (if \<not> is_eligible_button button then ([], g)
      else case mark_button_up button g of
             (marked, g) \<Rightarrow>
               if \<not> marked \<or> button \<noteq> gc_owner_button g then ([], g)
               else case gc_state g of
                 Pressed \<Rightarrow>
                   if (case position of None \<Rightarrow> False | Some p \<Rightarrow> past_slop fl g p)
                   then ([], g\<lparr>gc_state := Idle, gc_owner_button := 0\<rparr>)
                   else ([], g\<lparr>gc_state := AwaitDouble\<rparr>)
               | Holding \<Rightarrow>
                   ([emit HoldEnd (case position of None \<Rightarrow> gc_press_at g | Some p \<Rightarrow> p) (gc_owner_button g)],
                    g\<lparr>gc_state := Idle, gc_owner_button := 0\<rparr>)
               | Moving \<Rightarrow> ([], g\<lparr>gc_owner_button := 0\<rparr>)
               | Idle \<Rightarrow> ([], g\<lparr>gc_owner_button := 0\<rparr>)
               | _ \<Rightarrow> ([], g))"

definition dispatch ::
  "float_ops \<Rightarrow> event \<Rightarrow> int \<Rightarrow> gesture_classifier \<Rightarrow> gesture_event list \<times> gesture_classifier" where
  "dispatch fl e now g =
     (if ev_kind e = MouseMove
      then case ev_payload e of
             MouseMovePayload axis delta position \<Rightarrow>
               (case position of None \<Rightarrow> ([], g) | Some p \<Rightarrow> handle_motion fl p now g)
           | _ \<Rightarrow> ([], g)
      else if ev_kind e = MouseButtonDown
      then case ev_payload e of
             MouseButtonPayload button name position \<Rightarrow> handle_button_down fl button position now g
           | _ \<Rightarrow> ([], g)
      else if ev_kind e = MouseButtonUp
      then case ev_payload e of
             MouseButtonPayload button name position \<Rightarrow> handle_button_up fl button position g
           | _ \<Rightarrow> ([], g)
      else ([], g))"

definition feed :: "float_ops \<Rightarrow> event \<Rightarrow> gesture_classifier \<Rightarrow> gesture_event list \<times> gesture_classifier" where
  "feed fl e g =
     (let now = fl_milliseconds fl (ev_timestamp e)
      in case process_deadline now g of
           (early, g) \<Rightarrow> (case dispatch fl e now g of (late, g) \<Rightarrow> (early @ late, g)))"

definition advance :: "int \<Rightarrow> gesture_classifier \<Rightarrow> gesture_event list \<times> gesture_classifier" where
  "advance now g = process_deadline now g"

definition reset :: "gesture_classifier \<Rightarrow> gesture_classifier" where
  "reset g = new_classifier (gc_thresholds g)"

section \<open>Runs\<close>

datatype gesture_input = Feed event | Advance int

fun drive1 :: "float_ops \<Rightarrow> gesture_input \<Rightarrow> gesture_classifier \<Rightarrow> gesture_event list \<times> gesture_classifier" where
  "drive1 fl (Feed e) g = feed fl e g"
| "drive1 fl (Advance now) g = advance now g"

fun drive :: "float_ops \<Rightarrow> gesture_input list \<Rightarrow> gesture_classifier \<Rightarrow> gesture_event list \<times> gesture_classifier" where
  "drive fl [] g = ([], g)"
| "drive fl (i # is) g =
     (case drive1 fl i g of (out, g) \<Rightarrow> (case drive fl is g of (rest, g) \<Rightarrow> (out @ rest, g)))"

text \<open>The hold that is open after a stream of gestures; \<^const>\<open>None\<close> for a stream in which a hold begins inside another,
  ends twice, or ends under another button.\<close>

fun follow_holds :: "u32 option \<Rightarrow> gesture_event list \<Rightarrow> u32 option option" where
  "follow_holds open_hold [] = Some open_hold"
| "follow_holds open_hold (e # es) =
     (if ge_kind e = Hold then (if open_hold = None then follow_holds (Some (ge_button e)) es else None)
      else if ge_kind e = HoldEnd \<or> ge_kind e = HoldCancel
      then (if open_hold = Some (ge_button e) then follow_holds None es else None)
      else follow_holds open_hold es)"

definition open_hold :: "gesture_classifier \<Rightarrow> u32 option" where
  "open_hold g = (if gc_state g = Holding then Some (gc_owner_button g) else None)"

definition press_cost :: "gesture_event \<Rightarrow> nat" where
  "press_cost e = (case ge_kind e of Click \<Rightarrow> 1 | Hold \<Rightarrow> 1 | DoubleClick \<Rightarrow> 2 | _ \<Rightarrow> 0)"

definition reported_presses :: "gesture_event list \<Rightarrow> nat" where
  "reported_presses es = sum_list (map press_cost es)"

definition pending_press :: "gesture_classifier \<Rightarrow> nat" where
  "pending_press g = (if gc_state g = Pressed \<or> gc_state g = AwaitDouble then 1 else 0)"

fun presses_of :: "gesture_input \<Rightarrow> nat" where
  "presses_of (Feed e) = (if ev_kind e = MouseButtonDown then 1 else 0)"
| "presses_of (Advance now) = 0"

definition owner_down :: "gesture_classifier \<Rightarrow> bool" where
  "owner_down g \<longleftrightarrow> (gc_state g = Pressed \<or> gc_state g = Holding \<longrightarrow> button_is_down (gc_owner_button g) g)"

lemmas step_defs = process_deadline_def handle_motion_def handle_button_down_def handle_button_up_def
  claim_press_def begin_press_def begin_moving_def emit_def mark_button_down_def mark_button_up_def Let_def

section \<open>The button mask\<close>

lemma button_is_down_bit:
  "button_is_down b g \<longleftrightarrow> is_eligible_button b \<and> bit (gc_buttons_down g) (unat (b - 1))"
  unfolding button_is_down_def button_bit_def and_single_bit by simp

lemma eligible_bit_index: "is_eligible_button b \<Longrightarrow> unat (b - 1) < 8"
  by (cases "b = 0") (auto simp: is_eligible_button_def word_le_nat_alt unat_minus_one)

lemma button_index_inject: "unat (b - 1) = unat (c - 1) \<longleftrightarrow> b = (c :: u32)"
  by (metis diff_add_cancel unsigned_word_eqI)

lemma button_is_down_marked [simp]:
  "is_eligible_button b \<Longrightarrow> button_is_down b (g\<lparr>gc_buttons_down := gc_buttons_down g OR button_bit b\<rparr>)"
  by (simp add: button_is_down_bit button_bit_def bit_or_iff bit_push_bit_iff eligible_bit_index del: push_bit_of_1)

lemma button_stays_down_marking [simp]:
  "button_is_down b g \<Longrightarrow> button_is_down b (g\<lparr>gc_buttons_down := gc_buttons_down g OR x\<rparr>)"
  by (simp add: button_is_down_bit bit_or_iff)

lemma other_button_stays_down [simp]:
  "button_is_down c g \<Longrightarrow> b \<noteq> c \<Longrightarrow> button_is_down c (g\<lparr>gc_buttons_down := gc_buttons_down g AND NOT (button_bit b)\<rparr>)"
  by (auto simp: button_is_down_bit button_bit_def bit_simps button_index_inject dest: bit_imp_le_length)

lemma unmarked_button_not_owner:
  "button_is_down c g \<Longrightarrow> gc_buttons_down g AND button_bit b = 0 \<Longrightarrow> b \<noteq> c"
  by (auto simp: button_is_down_def)

lemma button_is_down_update [simp]:
  "button_is_down b (g\<lparr>gc_state := s\<rparr>) = button_is_down b g"
  "button_is_down b (g\<lparr>gc_owner_button := c\<rparr>) = button_is_down b g"
  "button_is_down b (g\<lparr>gc_press_at := p\<rparr>) = button_is_down b g"
  "button_is_down b (g\<lparr>gc_press_time := t\<rparr>) = button_is_down b g"
  "button_is_down b (g\<lparr>gc_last_motion_at := p\<rparr>) = button_is_down b g"
  "button_is_down b (g\<lparr>gc_last_motion_time := t\<rparr>) = button_is_down b g"
  by (simp_all add: button_is_down_def)

section \<open>What each handler keeps\<close>

lemma owner_down_deadline: "owner_down g \<Longrightarrow> owner_down (snd (process_deadline now g))"
  by (auto simp: owner_down_def step_defs split: gesture_state.split)

lemma owner_down_motion: "owner_down g \<Longrightarrow> owner_down (snd (handle_motion fl p now g))"
  by (auto simp: owner_down_def step_defs split: gesture_state.split)

lemma owner_down_button_down: "owner_down g \<Longrightarrow> owner_down (snd (handle_button_down fl b p now g))"
  by (auto simp: owner_down_def step_defs split: gesture_state.split option.split)

lemma owner_down_button_up: "owner_down g \<Longrightarrow> owner_down (snd (handle_button_up fl b p g))"
  by (cases "gc_state g")
     (auto simp: owner_down_def step_defs unmarked_button_not_owner other_button_stays_down split: option.split)

lemmas gesture_counts = reported_presses_def press_cost_def pending_press_def open_hold_def

lemma follow_holds_append:
  "follow_holds h (xs @ ys) = (case follow_holds h xs of None \<Rightarrow> None | Some h \<Rightarrow> follow_holds h ys)"
  by (induction h xs rule: follow_holds.induct) auto

lemma reported_presses_append [simp]: "reported_presses (xs @ ys) = reported_presses xs + reported_presses ys"
  by (simp add: reported_presses_def)

text \<open>The effect of a handler: its gestures continue the stream of holds, and presses are reported from the
  ones that are pending or new.\<close>

definition accounts_for :: "nat \<Rightarrow> gesture_classifier \<Rightarrow> gesture_event list \<times> gesture_classifier \<Rightarrow> bool" where
  "accounts_for presses g r \<longleftrightarrow>
     follow_holds (open_hold g) (fst r) = Some (open_hold (snd r))
     \<and> reported_presses (fst r) + pending_press (snd r) \<le> pending_press g + presses"

lemma accounts_for_nothing: "accounts_for n g ([], g)"
  by (simp add: accounts_for_def gesture_counts)

lemma accounts_for_seq:
  assumes "accounts_for m g (out, h)" and "accounts_for n h (rest, k)"
  shows "accounts_for (m + n) g (out @ rest, k)"
  using assms by (auto simp: accounts_for_def follow_holds_append)

lemma accounts_for_deadline: "accounts_for 0 g (process_deadline now g)"
  by (cases "gc_state g") (auto simp: accounts_for_def gesture_counts step_defs)

lemma accounts_for_motion: "accounts_for 0 g (handle_motion fl p now g)"
  by (cases "gc_state g") (auto simp: accounts_for_def gesture_counts step_defs)

lemma accounts_for_button_down: "accounts_for 1 g (handle_button_down fl b p now g)"
  by (cases "gc_state g"; cases p) (auto simp: accounts_for_def gesture_counts step_defs)

lemma accounts_for_button_up: "accounts_for 0 g (handle_button_up fl b p g)"
  by (cases "gc_state g"; cases p) (auto simp: accounts_for_def gesture_counts step_defs)

lemma dispatch_owner_down: "owner_down g \<Longrightarrow> owner_down (snd (dispatch fl e now g))"
  by (auto simp: dispatch_def owner_down_motion owner_down_button_down owner_down_button_up
           split: payload.split option.split)

lemma dispatch_accounts_for: "accounts_for (presses_of (Feed e)) g (dispatch fl e now g)"
  by (auto simp: dispatch_def accounts_for_nothing accounts_for_motion accounts_for_button_down [unfolded One_nat_def]
           accounts_for_button_up split: payload.split option.split)

lemma drive1_owner_down: "owner_down g \<Longrightarrow> owner_down (snd (drive1 fl i g))"
  by (cases i)
     (auto simp: feed_def advance_def Let_def split: prod.split
           dest: owner_down_deadline dispatch_owner_down, metis owner_down_deadline dispatch_owner_down snd_conv)

lemma drive1_accounts_for: "accounts_for (presses_of i) g (drive1 fl i g)"
proof (cases i)
  case (Feed e)
  define now where "now = fl_milliseconds fl (ev_timestamp e)"
  obtain early h where early: "process_deadline now g = (early, h)" by fastforce
  obtain late k where late: "dispatch fl e now h = (late, k)" by fastforce
  have "accounts_for (0 + presses_of (Feed e)) g (early @ late, k)"
    using accounts_for_seq [of 0 g early h] accounts_for_deadline [of g now] dispatch_accounts_for [of e h fl now] early late
    by metis
  then show ?thesis using Feed early late by (simp add: feed_def Let_def now_def)
qed (simp add: advance_def accounts_for_deadline)

lemma drive_owner_down: "owner_down g \<Longrightarrow> owner_down (snd (drive fl is g))"
proof (induction "is" arbitrary: g)
  case (Cons i "is")
  obtain out h where h: "drive1 fl i g = (out, h)" by fastforce
  then have "owner_down h" using drive1_owner_down [OF Cons.prems, of fl i] by simp
  then show ?case using Cons.IH [of h] h by (simp add: case_prod_beta)
qed simp

lemma drive_accounts_for: "accounts_for (sum_list (map presses_of is)) g (drive fl is g)"
proof (induction "is" arbitrary: g)
  case (Cons i "is")
  obtain out h where h: "drive1 fl i g = (out, h)" by fastforce
  obtain rest k where k: "drive fl is h = (rest, k)" by fastforce
  show ?case using accounts_for_seq [of "presses_of i" g out h] drive1_accounts_for [of i g fl] Cons.IH [of h] h k by simp
qed (simp add: accounts_for_nothing)

lemma new_classifier_start [simp]:
  "owner_down (new_classifier th)" "open_hold (new_classifier th) = None" "pending_press (new_classifier th) = 0"
  by (simp_all add: new_classifier_def owner_down_def open_hold_def pending_press_def)

section \<open>Properties\<close>

text \<open>
  Whatever the classifier is fed and whenever its clock is advanced, a press or a hold that is in
  progress belongs to one of the three buttons it tracks, and that button is down in its button mask.\<close>

theorem press_owner_is_down:
  "gc_state (snd (drive fl is (new_classifier th))) \<in> {Pressed, Holding} \<longrightarrow>
   button_is_down (gc_owner_button (snd (drive fl is (new_classifier th)))) (snd (drive fl is (new_classifier th)))"
  using drive_owner_down [OF new_classifier_start(1), of fl "is" th] by (auto simp: owner_down_def)

definition sample_floats :: float_ops where
  "sample_floats = \<lparr>fl_milliseconds = (\<lambda>t. uint t), fl_hypot_exceeds = (\<lambda>x y x' y' s. x \<noteq> x' \<or> y \<noteq> y')\<rparr>"

definition sample_thresholds :: gesture_thresholds where
  "sample_thresholds = \<lparr>th_hold = 500, th_double_click = 300, th_pause = 250, th_slop_px = 4\<rparr>"

definition button_event :: "event_kind \<Rightarrow> f64 \<Rightarrow> u32 \<Rightarrow> space_point \<Rightarrow> event" where
  "button_event kind time button position =
     default_event\<lparr>ev_timestamp := time, ev_kind := kind, ev_payload := MouseButtonPayload button [] (Some position)\<rparr>"

lemma press_owner_is_down_witness:
  "gc_state (snd (drive sample_floats [Feed (button_event MouseButtonDown 10 1 origin_point), Advance 510]
                        (new_classifier sample_thresholds))) = Holding
   \<and> button_is_down 1 (snd (drive sample_floats [Feed (button_event MouseButtonDown 10 1 origin_point), Advance 510]
                                  (new_classifier sample_thresholds)))"
proof -
  let ?g = "snd (drive sample_floats [Feed (button_event MouseButtonDown 10 1 origin_point), Advance 510]
                        (new_classifier sample_thresholds))"
  have "gc_state ?g = Holding" "gc_owner_button ?g = 1" by code_simp+
  then show ?thesis
    using press_owner_is_down [of sample_floats "[Feed (button_event MouseButtonDown 10 1 origin_point), Advance 510]"
                                  sample_thresholds] by simp
qed

text \<open>
  C38. In the stream of gestures of any run every hold is ended or cancelled, by the button that began it,
  before the next one begins; a hold is open at the end exactly when the classifier is in the state Holding.\<close>

theorem holds_are_bracketed:
  "follow_holds None (fst (drive fl is (new_classifier th))) =
   Some (open_hold (snd (drive fl is (new_classifier th))))"
  using drive_accounts_for [of "is" "new_classifier th" fl] by (simp add: accounts_for_def)

text \<open>
  No button press is reported twice: clicks and holds count one press each and double clicks two, and
  together with a press still undecided they never exceed the button-down events that were fed.\<close>

theorem presses_reported_once:
  "reported_presses (fst (drive fl is (new_classifier th))) + pending_press (snd (drive fl is (new_classifier th)))
   \<le> sum_list (map presses_of is)"
  using drive_accounts_for [of "is" "new_classifier th" fl] by (simp add: accounts_for_def)

lemma eligible_bit_nonzero: "is_eligible_button b \<Longrightarrow> button_bit b \<noteq> 0"
  using and_single_bit [of "-1" "unat (b - 1)"] eligible_bit_index [of b] by (simp add: button_bit_def)

text \<open>
  A press and release of a tracked button at one point, at an idle classifier with no button down, is
  classified by the time between them: released before the hold threshold it is one click at the place of the
  press, reported once the double-click window has closed; held longer it is a hold that the release ends; and a second
  press within the window and the slop is one double click instead of two clicks.\<close>

theorem press_release_classified:
  assumes "gc_state g = Idle" and "gc_buttons_down g = 0" and "is_eligible_button b"
    and "\<not> fl_hypot_exceeds fl (sp_x p) (sp_y p) (sp_x p) (sp_y p) (th_slop_px (gc_thresholds g))"
    and "0 < th_hold (gc_thresholds g)"
    and "ms = fl_milliseconds fl"
  shows
   "fst (drive fl [Feed (button_event MouseButtonDown t b p), Feed (button_event MouseButtonUp u b p)] g) =
      (if ms u - ms t \<ge> th_hold (gc_thresholds g) then [emit Hold p b, emit HoldEnd p b] else [])
    \<and> (ms u - ms t < th_hold (gc_thresholds g) \<and> ms u - ms t \<le> th_double_click (gc_thresholds g) \<longrightarrow>
        fst (drive fl [Feed (button_event MouseButtonDown t b p), Feed (button_event MouseButtonUp u b p), Advance now] g) =
          (if now - ms t > th_double_click (gc_thresholds g) then [emit Click p b] else [])
      \<and> fst (drive fl [Feed (button_event MouseButtonDown t b p), Feed (button_event MouseButtonUp u b p),
                       Feed (button_event MouseButtonDown v b p)] g) =
          (if ms v - ms t \<le> th_double_click (gc_thresholds g) then [emit DoubleClick p b] else [emit Click p b]))"
proof -
  note unfolded = feed_def advance_def dispatch_def button_event_def step_defs button_is_down_def past_slop_def exceeds_slop_def
  have "button_bit b \<noteq> 0" using assms(3) by (rule eligible_bit_nonzero)
  with assms show ?thesis by (simp add: unfolded)
qed

lemma press_release_classified_witness:
  "fst (drive sample_floats [Feed (button_event MouseButtonDown 10 1 origin_point),
                             Feed (button_event MouseButtonUp 60 1 origin_point), Advance 400]
         (new_classifier sample_thresholds)) = [emit Click origin_point 1]"
  using press_release_classified [of "new_classifier sample_thresholds" 1 sample_floats origin_point
                                     "fl_milliseconds sample_floats" 10 60 400]
  by (simp add: new_classifier_def sample_floats_def sample_thresholds_def is_eligible_button_def)

end
