(* ===== verification/Tile_Differ.thy ===== *)
theory Tile_Differ
  imports Prelude
begin

text \<open>
  \<open>src/kernel/capture/tile_differ.cpp\<close> over \<open>include/grab/image.hpp\<close>: two captures are compared tile by
  tile. Coordinates keep their 32 bits; byte offsets, which the source computes in \<open>size_t\<close> after a check that they fit,
  are integers, with the largest \<open>size_t\<close> written out in that check. Taking a \<open>subspan\<close> outside the storage is
  undefined and is \<open>None\<close> here, as is a loop that does not end; the theorem excludes both.

  Shown: the comparison returns, never reads outside the storage of either image, and its tiles are exactly
  the cells of the tile grid in which a pixel differs.
\<close>

section \<open>Images\<close>

datatype pixel_format = Bgra | Rgba | Rgb | Bgr | Gray

fun bytes_per_pixel :: "pixel_format \<Rightarrow> int" where
  "bytes_per_pixel Bgra = 4"
| "bytes_per_pixel Rgba = 4"
| "bytes_per_pixel Rgb = 3"
| "bytes_per_pixel Bgr = 3"
| "bytes_per_pixel Gray = 1"

record image =
  im_width :: u32
  im_height :: u32
  im_stride :: u32
  im_format :: pixel_format
  im_pixels :: "u8 list"

record tile_size =
  sz_width :: u32
  sz_height :: u32

record rectangle =
  rc_x :: int
  rc_y :: int
  rc_width :: u32
  rc_height :: u32

section \<open>The comparison\<close>

datatype tile_diff_kind = NoChange | DirtyTiles | FullInvalidation

record tile_diff_result =
  td_kind :: tile_diff_kind
  td_dirty_tiles :: "rectangle list"
  td_reason :: string

definition full_invalidation :: "string \<Rightarrow> tile_diff_result" where
  "full_invalidation reason = \<lparr>td_kind = FullInvalidation, td_dirty_tiles = [], td_reason = reason\<rparr>"

definition max_size :: int where
  "max_size = 18446744073709551615"

definition has_valid_layout :: "image \<Rightarrow> bool" where
  "has_valid_layout im =
     (let row_bytes = uint (im_width im) * bytes_per_pixel (im_format im); stride = uint (im_stride im)
      in if stride < row_bytes then False
         else if im_height im = 0 then True
         else let last_row = uint (im_height im - 1)
              in if stride \<noteq> 0 \<and> last_row > (max_size - row_bytes) div stride then False
                 else last_row * stride + row_bytes \<le> int (length (im_pixels im)))"

definition subspan :: "'a list \<Rightarrow> int \<Rightarrow> int \<Rightarrow> 'a list option" where
  "subspan xs offset count =
     (if offset + count \<le> int (length xs) then Some (take (nat count) (drop (nat offset) xs)) else None)"

text \<open>The loop over the rows of a tile; \<open>k\<close> rows remain.\<close>

fun rows_changed :: "image \<Rightarrow> image \<Rightarrow> int \<Rightarrow> int \<Rightarrow> u32 \<Rightarrow> u32 \<Rightarrow> nat \<Rightarrow> bool option" where
  "rows_changed previous current byte_x byte_width y row 0 = Some False"
| "rows_changed previous current byte_x byte_width y row (Suc k) =
     (let previous_offset = uint (y + row) * uint (im_stride previous) + byte_x;
          current_offset = uint (y + row) * uint (im_stride current) + byte_x
      in case subspan (im_pixels previous) previous_offset byte_width of None \<Rightarrow> None
      | Some previous_row \<Rightarrow>
        (case subspan (im_pixels current) current_offset byte_width of None \<Rightarrow> None
         | Some current_row \<Rightarrow>
             if previous_row \<noteq> current_row then Some True
             else rows_changed previous current byte_x byte_width y (row + 1) k))"

definition tile_changed :: "image \<Rightarrow> image \<Rightarrow> u32 \<Rightarrow> u32 \<Rightarrow> u32 \<Rightarrow> u32 \<Rightarrow> bool option" where
  "tile_changed previous current x y width height =
     (let bytes = bytes_per_pixel (im_format current)
      in rows_changed previous current (uint x * bytes) (uint width * bytes) y 0 (unat height))"

partial_function (option) tile_columns ::
  "image \<Rightarrow> image \<Rightarrow> tile_size \<Rightarrow> u32 \<Rightarrow> u32 \<Rightarrow> u32 \<Rightarrow> rectangle list \<Rightarrow> rectangle list option" where
  "tile_columns previous current tile y height x tiles =
     (if x < im_width current then
        let width = min (sz_width tile) (im_width current - x)
        in case tile_changed previous current x y width height of None \<Rightarrow> None
           | Some changed \<Rightarrow>
               tile_columns previous current tile y height (x + width)
                 (if changed then tiles @ [\<lparr>rc_x = uint x, rc_y = uint y, rc_width = width, rc_height = height\<rparr>] else tiles)
      else Some tiles)"

partial_function (option) tile_rows ::
  "image \<Rightarrow> image \<Rightarrow> tile_size \<Rightarrow> u32 \<Rightarrow> rectangle list \<Rightarrow> rectangle list option" where
  "tile_rows previous current tile y tiles =
     (if y < im_height current then
        let height = min (sz_height tile) (im_height current - y)
        in case tile_columns previous current tile y height 0 tiles of None \<Rightarrow> None
           | Some tiles' \<Rightarrow> tile_rows previous current tile (y + height) tiles'
      else Some tiles)"

declare tile_columns.simps [code] tile_rows.simps [code]

definition maximum_coordinate :: u32 where
  "maximum_coordinate = 0x7FFFFFFF"

definition tile_diff :: "image \<Rightarrow> image \<Rightarrow> tile_size \<Rightarrow> tile_diff_result option" where
  "tile_diff previous current tile =
     (if im_width previous \<noteq> im_width current \<or> im_height previous \<noteq> im_height current \<or>
         im_format previous \<noteq> im_format current
      then Some (full_invalidation ''image geometry or pixel format changed'')
      else if sz_width tile = 0 \<or> sz_height tile = 0
      then Some (full_invalidation ''tile dimensions must be non-zero'')
      else if im_width current > maximum_coordinate \<or> im_height current > maximum_coordinate
      then Some (full_invalidation ''image dimensions exceed rectangle coordinates'')
      else if \<not> has_valid_layout previous \<or> \<not> has_valid_layout current
      then Some (full_invalidation ''image storage does not contain its active pixels'')
      else map_option (\<lambda>tiles. \<lparr>td_kind = (if tiles \<noteq> [] then DirtyTiles else NoChange), td_dirty_tiles = tiles, td_reason = []\<rparr>)
             (tile_rows previous current tile 0 []))"

section \<open>Pixels\<close>

definition comparable :: "image \<Rightarrow> image \<Rightarrow> tile_size \<Rightarrow> bool" where
  "comparable previous current tile \<longleftrightarrow>
     im_width previous = im_width current \<and> im_height previous = im_height current \<and>
     im_format previous = im_format current \<and> sz_width tile \<noteq> 0 \<and> sz_height tile \<noteq> 0 \<and>
     im_width current \<le> maximum_coordinate \<and> im_height current \<le> maximum_coordinate \<and>
     has_valid_layout previous \<and> has_valid_layout current"

text \<open>The bytes of the pixel in column \<open>px\<close> and row \<open>py\<close>.\<close>

definition pixel :: "image \<Rightarrow> nat \<Rightarrow> nat \<Rightarrow> u8 list" where
  "pixel im px py =
     map (\<lambda>k. im_pixels im ! (py * unat (im_stride im) + px * nat (bytes_per_pixel (im_format im)) + k))
       [0..<nat (bytes_per_pixel (im_format im))]"

definition in_rectangle :: "rectangle \<Rightarrow> nat \<Rightarrow> nat \<Rightarrow> bool" where
  "in_rectangle r px py \<longleftrightarrow>
     rc_x r \<le> int px \<and> int px < rc_x r + uint (rc_width r) \<and> rc_y r \<le> int py \<and> int py < rc_y r + uint (rc_height r)"

text \<open>The cells of the grid, along one axis, from \<open>at\<close> on: start and extent.\<close>

function cuts :: "nat \<Rightarrow> nat \<Rightarrow> nat \<Rightarrow> (nat \<times> nat) list" where
  "cuts step extent at =
     (if at < extent \<and> 0 < step
      then (at, min step (extent - at)) # cuts step extent (at + min step (extent - at)) else [])"
  by auto
termination
  by (relation "measure (\<lambda>(step, extent, at). extent - at)") auto

declare cuts.simps [simp del]

lemma cuts_range:
  "c \<in> set (cuts step extent at) \<Longrightarrow> at \<le> fst c \<and> fst c + snd c \<le> extent \<and> 0 < snd c"
proof (induction step extent at rule: cuts.induct)
  case (1 step extent at)
  then show ?case
    by (subst (asm) cuts.simps) (force split: if_splits)
qed

lemma cuts_cover:
  "0 < step \<Longrightarrow> at \<le> p \<Longrightarrow> p < extent \<Longrightarrow> \<exists>c\<in>set (cuts step extent at). fst c \<le> p \<and> p < fst c + snd c"
proof (induction step extent at rule: cuts.induct)
  case (1 step extent at)
  then show ?case
    by (subst cuts.simps) (cases "p < at + min step (extent - at)"; force)
qed

lemma cuts_disjoint:
  assumes "c \<in> set (cuts step extent at)" and "d \<in> set (cuts step extent at)"
    and "fst c \<le> p" and "p < fst c + snd c" and "fst d \<le> p" and "p < fst d + snd d"
  shows "c = d"
  using assms
proof (induction step extent at rule: cuts.induct)
  case (1 step extent at)
  show ?case
  proof (cases "at < extent \<and> 0 < step")
    case True
    let ?rest = "cuts step extent (at + min step (extent - at))"
    have unfold: "cuts step extent at = (at, min step (extent - at)) # ?rest"
      using True by (subst cuts.simps) simp
    have "\<not> fst e \<le> p" if "e \<in> set ?rest" "p < at + min step (extent - at)" for e
      using cuts_range [OF that(1)] that(2) by simp
    with 1 True show ?thesis
      unfolding unfold by (cases c; cases d) auto
  next
    case False
    then have "cuts step extent at = []" by (subst cuts.simps) simp
    with "1.prems" show ?thesis by simp
  qed
qed

lemma bytes_positive: "0 < bytes_per_pixel f"
  by (cases f) simp_all

text \<open>Two equally long runs of pixels agree exactly when the pixels do.\<close>

lemma runs_equal:
  fixes xs ys :: "'a list"
  assumes "0 < b" and "o1 + w * b \<le> length xs" and "o2 + w * b \<le> length ys"
  shows "take (w * b) (drop o1 xs) = take (w * b) (drop o2 ys) \<longleftrightarrow>
    (\<forall>i<w. \<forall>k<b. xs ! (o1 + i * b + k) = ys ! (o2 + i * b + k))"
proof -
  have "take (w * b) (drop o1 xs) = take (w * b) (drop o2 ys) \<longleftrightarrow> (\<forall>j<w * b. xs ! (o1 + j) = ys ! (o2 + j))"
    using assms(2,3) by (simp add: list_eq_iff_nth_eq)
  also have "\<dots> \<longleftrightarrow> (\<forall>i<w. \<forall>k<b. xs ! (o1 + i * b + k) = ys ! (o2 + i * b + k))"
  proof safe
    fix i k assume all: "\<forall>j<w * b. xs ! (o1 + j) = ys ! (o2 + j)" and "i < w" "k < b"
    then have "i * b + k < w * b"
      by (metis add.commute div_less_iff_less_mult div_mult_self3 div_less assms(1) add_0 not_less_zero gr0I less_nat_zero_code mult.commute)
    with all show "xs ! (o1 + i * b + k) = ys ! (o2 + i * b + k)"
      by (simp add: add.assoc)
  next
    fix j assume all: "\<forall>i<w. \<forall>k<b. xs ! (o1 + i * b + k) = ys ! (o2 + i * b + k)" and "j < w * b"
    then have "j div b < w" "j mod b < b"
      using assms(1) by (simp_all add: less_mult_imp_div_less)
    with all have "xs ! (o1 + j div b * b + j mod b) = ys ! (o2 + j div b * b + j mod b)"
      by blast
    then show "xs ! (o1 + j) = ys ! (o2 + j)"
      by (simp add: add.assoc)
  qed
  finally show ?thesis .
qed

definition pixel_bytes :: "image \<Rightarrow> nat" where
  "pixel_bytes im = nat (bytes_per_pixel (im_format im))"

lemma pixel_bytes_positive: "0 < pixel_bytes im"
  using bytes_positive by (simp add: pixel_bytes_def)

lemma bytes_int: "bytes_per_pixel (im_format im) = int (pixel_bytes im)"
  using bytes_positive [of "im_format im"] by (simp add: pixel_bytes_def)

lemma layout_bound:
  assumes "has_valid_layout im" and "py < unat (im_height im)" and "px + w \<le> unat (im_width im)"
  shows "py * unat (im_stride im) + px * pixel_bytes im + w * pixel_bytes im \<le> length (im_pixels im)"
proof -
  let ?row = "unat (im_width im) * pixel_bytes im" and ?stride = "unat (im_stride im)"
  have "im_height im \<noteq> 0"
    using assms(2) by auto
  then have last: "uint (im_height im - 1) = int (unat (im_height im)) - 1"
    using unat_minus_one [of "im_height im"] assms(2)
    by (simp only: uint_nat) (simp add: of_nat_diff)
  have "uint (im_height im - 1) * uint (im_stride im) + uint (im_width im) * int (pixel_bytes im)
      \<le> int (length (im_pixels im))"
    using assms(1) \<open>im_height im \<noteq> 0\<close>
    by (simp add: has_valid_layout_def Let_def bytes_int split: if_splits)
  then have "int ((unat (im_height im) - 1) * ?stride + ?row) \<le> int (length (im_pixels im))"
    using assms(2) by (simp add: last of_nat_diff)
  then have "(unat (im_height im) - 1) * ?stride + ?row \<le> length (im_pixels im)"
    by (simp only: of_nat_le_iff)
  moreover have "py * ?stride \<le> (unat (im_height im) - 1) * ?stride"
    using assms(2) by (intro mult_right_mono) auto
  moreover have "px * pixel_bytes im + w * pixel_bytes im \<le> ?row"
    using assms(3) by (metis add_mult_distrib mult_le_mono1)
  ultimately show ?thesis by linarith
qed

lemma pixel_nth: "pixel im px py = map (\<lambda>k. im_pixels im ! (py * unat (im_stride im) + px * pixel_bytes im + k)) [0..<pixel_bytes im]"
  by (simp add: pixel_def pixel_bytes_def)

lemma row_subspans:
  assumes "has_valid_layout im" and "py < unat (im_height im)" and "x + w \<le> unat (im_width im)"
  shows "subspan (im_pixels im) (int py * uint (im_stride im) + int (x * pixel_bytes im)) (int (w * pixel_bytes im)) =
    Some (take (w * pixel_bytes im) (drop (py * unat (im_stride im) + x * pixel_bytes im) (im_pixels im)))"
proof -
  have offset: "int py * uint (im_stride im) + int (x * pixel_bytes im) =
      int (py * unat (im_stride im) + x * pixel_bytes im)"
    by simp
  have "int (py * unat (im_stride im) + x * pixel_bytes im) + int (w * pixel_bytes im) \<le> int (length (im_pixels im))"
    using layout_bound [OF assms] by linarith
  then show ?thesis
    unfolding offset subspan_def by (simp only: nat_int if_True)
qed

section \<open>The loops\<close>

definition differs :: "image \<Rightarrow> image \<Rightarrow> nat \<Rightarrow> nat \<Rightarrow> bool" where
  "differs previous current px py \<longleftrightarrow> pixel previous px py \<noteq> pixel current px py"

lemma comparable_bytes: "comparable previous current tile \<Longrightarrow> pixel_bytes previous = pixel_bytes current"
  by (simp add: comparable_def pixel_bytes_def)

lemma row_equal:
  assumes "comparable previous current tile" and "py < unat (im_height current)" and "x + w \<le> unat (im_width current)"
  defines "b \<equiv> pixel_bytes current"
  shows "take (w * b) (drop (py * unat (im_stride previous) + x * b) (im_pixels previous)) =
      take (w * b) (drop (py * unat (im_stride current) + x * b) (im_pixels current)) \<longleftrightarrow>
    (\<forall>i<w. \<not> differs previous current (x + i) py)"
proof -
  from assms(1) have layouts: "has_valid_layout previous" "has_valid_layout current"
    and dims: "im_height previous = im_height current" "im_width previous = im_width current"
    by (simp_all add: comparable_def)
  note bp = comparable_bytes [OF assms(1)]
  have "differs previous current (x + i) py \<longleftrightarrow>
      (\<exists>k<b. im_pixels previous ! (py * unat (im_stride previous) + x * b + i * b + k) \<noteq>
             im_pixels current ! (py * unat (im_stride current) + x * b + i * b + k))" for i
    by (auto simp: differs_def pixel_nth bp b_def [symmetric] add_mult_distrib add.assoc)
  then show ?thesis
    using runs_equal [of b "py * unat (im_stride previous) + x * b" w "im_pixels previous"
        "py * unat (im_stride current) + x * b" "im_pixels current"]
      layout_bound [OF layouts(1), of py x w] layout_bound [OF layouts(2), of py x w] assms(2,3)
      pixel_bytes_positive [of current]
    by (auto simp: dims bp b_def [symmetric])
qed

lemma rows_changed_spec:
  assumes "comparable previous current tile" and "x + w \<le> unat (im_width current)"
    and "unat y + unat row + k \<le> unat (im_height current)"
  shows "rows_changed previous current (int (x * pixel_bytes current)) (int (w * pixel_bytes current)) y row k =
    Some (\<exists>r<k. \<exists>i<w. differs previous current (x + i) (unat y + unat row + r))"
  using assms(3)
proof (induction k arbitrary: row)
  case 0
  then show ?case by simp
next
  case (Suc k)
  from assms(1) have layouts: "has_valid_layout previous" "has_valid_layout current"
    and dims: "im_height previous = im_height current" "im_width previous = im_width current"
    by (simp_all add: comparable_def)
  note bp = comparable_bytes [OF assms(1)]
  let ?py = "unat y + unat row"
  have small: "?py + 1 \<le> unat (im_height current)"
    using Suc.prems by simp
  then have no_wrap: "?py + 1 < 2 ^ 32"
    using unsigned_less [of "im_height current", where ?'a = nat] by simp
  have "unat (y + row) = ?py"
    using no_wrap by (simp add: unat_word_ariths)
  then have yrow: "uint (y + row) = int ?py"
    by (simp only: uint_nat)
  have next_row: "unat (row + 1) = Suc (unat row)"
    using no_wrap by (simp add: unat_word_ariths)
  have py: "?py < unat (im_height current)" "?py < unat (im_height previous)" "x + w \<le> unat (im_width previous)"
    using small assms(2) by (simp_all add: dims)
  note spans = row_subspans [OF layouts(1) py(2,3), unfolded bp] row_subspans [OF layouts(2) py(1) assms(2)]
  let ?rest = "rows_changed previous current (int (x * pixel_bytes current)) (int (w * pixel_bytes current)) y (row + 1) k"
  have "rows_changed previous current (int (x * pixel_bytes current)) (int (w * pixel_bytes current)) y row (Suc k) =
      (if \<not> (\<forall>i<w. \<not> differs previous current (x + i) ?py) then Some True else ?rest)"
    unfolding rows_changed.simps Let_def yrow spans option.case row_equal [OF assms(1) py(1) assms(2)] ..
  moreover have "?rest = Some (\<exists>r<k. \<exists>i<w. differs previous current (x + i) (?py + Suc r))"
    using Suc.IH [of "row + 1"] Suc.prems by (simp add: next_row)
  moreover have "(\<exists>r<Suc k. Q r) \<longleftrightarrow> Q 0 \<or> (\<exists>r<k. Q (Suc r))" for Q
    by (auto simp: less_Suc_eq_0_disj)
  ultimately show ?case by (auto simp del: rows_changed.simps)
qed

lemma tile_changed_spec:
  assumes "comparable previous current tile" and "unat x + unat w \<le> unat (im_width current)"
    and "unat y + unat h \<le> unat (im_height current)"
  shows "tile_changed previous current x y w h =
    Some (\<exists>r<unat h. \<exists>i<unat w. differs previous current (unat x + i) (unat y + r))"
  using rows_changed_spec [OF assms(1,2), of y 0 "unat h"] assms(3)
  by (simp add: tile_changed_def Let_def bytes_int)

text \<open>A cell of the grid, as the rectangle the comparison reports, and whether a pixel in it differs.\<close>

definition cell :: "nat \<times> nat \<Rightarrow> nat \<times> nat \<Rightarrow> rectangle" where
  "cell row col = \<lparr>rc_x = int (fst col), rc_y = int (fst row), rc_width = of_nat (snd col), rc_height = of_nat (snd row)\<rparr>"

definition cell_differs :: "image \<Rightarrow> image \<Rightarrow> nat \<times> nat \<Rightarrow> nat \<times> nat \<Rightarrow> bool" where
  "cell_differs previous current row col \<longleftrightarrow>
     (\<exists>r < snd row. \<exists>i < snd col. differs previous current (fst col + i) (fst row + r))"

lemma unat_min_step:
  assumes "(x :: u32) < n"
  shows "unat (min s (n - x)) = min (unat s) (unat n - unat x)"
    and "unat (x + min s (n - x)) = unat x + min (unat s) (unat n - unat x)"
proof -
  have le: "x \<le> n" using assms by simp
  show m: "unat (min s (n - x)) = min (unat s) (unat n - unat x)"
    using unat_sub [OF le] by (simp add: min_def word_le_nat_alt)
  have "unat x + unat (min s (n - x)) \<le> unat n"
    using assms by (simp add: m word_less_nat_alt)
  then have "unat x + unat (min s (n - x)) < 2 ^ 32"
    using unsigned_less [of n, where ?'a = nat] by simp
  then show "unat (x + min s (n - x)) = unat x + min (unat s) (unat n - unat x)"
    by (simp add: unat_word_ariths flip: m)
qed

lemma tile_columns_spec:
  assumes "comparable previous current tile" and "unat y + unat h \<le> unat (im_height current)"
  shows "tile_columns previous current tile y h x tiles =
    Some (tiles @ map (cell (unat y, unat h))
      (filter (cell_differs previous current (unat y, unat h)) (cuts (unat (sz_width tile)) (unat (im_width current)) (unat x))))"
proof (induction "unat (im_width current) - unat x" arbitrary: x tiles rule: less_induct)
  case less
  show ?case
  proof (cases "x < im_width current")
    case True
    let ?w = "min (sz_width tile) (im_width current - x)"
    have positive: "0 < unat (sz_width tile)"
      using assms(1) by (simp add: comparable_def unat_gt_0)
    have width: "unat ?w = min (unat (sz_width tile)) (unat (im_width current) - unat x)"
      "unat (x + ?w) = unat x + min (unat (sz_width tile)) (unat (im_width current) - unat x)"
      using unat_min_step [OF True] by simp_all
    have "tile_changed previous current x y ?w h = Some (cell_differs previous current (unat y, unat h) (unat x, unat ?w))"
      using tile_changed_spec [OF assms(1) _ assms(2), of x ?w] width(1) True
      by (simp add: cell_differs_def word_less_nat_alt)
    moreover have "tile_columns previous current tile y h (x + ?w) ts =
        Some (ts @ map (cell (unat y, unat h)) (filter (cell_differs previous current (unat y, unat h))
          (cuts (unat (sz_width tile)) (unat (im_width current)) (unat (x + ?w)))))" for ts
      using True positive width(2) by (intro less) (simp add: word_less_nat_alt)
    moreover have "cuts (unat (sz_width tile)) (unat (im_width current)) (unat x) =
        (unat x, unat ?w) # cuts (unat (sz_width tile)) (unat (im_width current)) (unat (x + ?w))"
      using True positive by (subst cuts.simps) (simp add: word_less_nat_alt width)
    moreover have "cell (unat y, unat h) (unat x, unat ?w) = \<lparr>rc_x = uint x, rc_y = uint y, rc_width = ?w, rc_height = h\<rparr>"
      by (simp add: cell_def)
    ultimately show ?thesis
      using True by (subst tile_columns.simps) (simp add: Let_def)
  next
    case False
    then have "cuts (unat (sz_width tile)) (unat (im_width current)) (unat x) = []"
      by (subst cuts.simps) (simp add: word_less_nat_alt)
    with False show ?thesis
      by (subst tile_columns.simps) simp
  qed
qed

definition row_tiles :: "image \<Rightarrow> image \<Rightarrow> tile_size \<Rightarrow> nat \<times> nat \<Rightarrow> rectangle list" where
  "row_tiles previous current tile row =
     map (cell row) (filter (cell_differs previous current row) (cuts (unat (sz_width tile)) (unat (im_width current)) 0))"

lemma tile_rows_spec:
  assumes "comparable previous current tile"
  shows "tile_rows previous current tile y tiles =
    Some (tiles @ concat (map (row_tiles previous current tile)
      (cuts (unat (sz_height tile)) (unat (im_height current)) (unat y))))"
proof (induction "unat (im_height current) - unat y" arbitrary: y tiles rule: less_induct)
  case less
  show ?case
  proof (cases "y < im_height current")
    case True
    let ?h = "min (sz_height tile) (im_height current - y)"
    have positive: "0 < unat (sz_height tile)"
      using assms by (simp add: comparable_def unat_gt_0)
    note height = unat_min_step [OF True, of "sz_height tile"]
    have "tile_columns previous current tile y ?h 0 tiles = Some (tiles @ row_tiles previous current tile (unat y, unat ?h))"
      using tile_columns_spec [OF assms, of y ?h 0 tiles] height(1) True
      by (simp add: row_tiles_def word_less_nat_alt)
    moreover have "tile_rows previous current tile (y + ?h) ts =
        Some (ts @ concat (map (row_tiles previous current tile)
          (cuts (unat (sz_height tile)) (unat (im_height current)) (unat (y + ?h)))))" for ts
      using True positive height(2) by (intro less) (simp add: word_less_nat_alt)
    moreover have "cuts (unat (sz_height tile)) (unat (im_height current)) (unat y) =
        (unat y, unat ?h) # cuts (unat (sz_height tile)) (unat (im_height current)) (unat (y + ?h))"
      using True positive by (subst cuts.simps) (simp add: word_less_nat_alt height)
    ultimately show ?thesis
      using True by (subst tile_rows.simps) (simp add: Let_def)
  next
    case False
    then have "cuts (unat (sz_height tile)) (unat (im_height current)) (unat y) = []"
      by (subst cuts.simps) (simp add: word_less_nat_alt)
    with False show ?thesis
      by (subst tile_rows.simps) simp
  qed
qed

lemma in_cell:
  assumes "col \<in> set (cuts sw (unat (w :: u32)) 0)" and "row \<in> set (cuts sh (unat (h :: u32)) 0)"
  shows "in_rectangle (cell row col) px py \<longleftrightarrow>
    fst col \<le> px \<and> px < fst col + snd col \<and> fst row \<le> py \<and> py < fst row + snd row"
proof -
  have "snd col < 2 ^ 32" "snd row < 2 ^ 32"
    using cuts_range [OF assms(1)] cuts_range [OF assms(2)] unsigned_less [of w, where ?'a = nat]
      unsigned_less [of h, where ?'a = nat] by simp_all
  then have "uint (of_nat (snd col) :: u32) = int (snd col)" "uint (of_nat (snd row) :: u32) = int (snd row)"
    by (simp_all only: uint_nat unat_of_nat) simp_all
  then show ?thesis
    by (auto simp: in_rectangle_def cell_def)
qed

lemma tile_diff_comparable:
  assumes "comparable previous current tile"
  defines "tiles \<equiv> concat (map (row_tiles previous current tile) (cuts (unat (sz_height tile)) (unat (im_height current)) 0))"
  shows "tile_diff previous current tile =
    Some \<lparr>td_kind = (if tiles \<noteq> [] then DirtyTiles else NoChange), td_dirty_tiles = tiles, td_reason = []\<rparr>"
  using assms tile_rows_spec [OF assms(1), of 0 "[]"]
  by (auto simp: tile_diff_def comparable_def)

lemma dirty_tiles:
  "t \<in> set (concat (map (row_tiles previous current tile) (cuts (unat (sz_height tile)) (unat (im_height current)) 0))) \<longleftrightarrow>
   (\<exists>row\<in>set (cuts (unat (sz_height tile)) (unat (im_height current)) 0).
    \<exists>col\<in>set (cuts (unat (sz_width tile)) (unat (im_width current)) 0).
      t = cell row col \<and> cell_differs previous current row col)"
  by (auto simp: row_tiles_def)

lemma dirty_tile_of_pixel:
  assumes "comparable previous current tile" and "px < unat (im_width current)" and "py < unat (im_height current)"
    and "differs previous current px py"
  defines "tiles \<equiv> concat (map (row_tiles previous current tile) (cuts (unat (sz_height tile)) (unat (im_height current)) 0))"
  shows "\<exists>!t. t \<in> set tiles \<and> in_rectangle t px py"
proof -
  have positive: "0 < unat (sz_width tile)" "0 < unat (sz_height tile)"
    using assms(1) by (simp_all add: comparable_def unat_gt_0)
  from cuts_cover [OF positive(1) le0 assms(2)] obtain col
    where col: "col \<in> set (cuts (unat (sz_width tile)) (unat (im_width current)) 0)" "fst col \<le> px" "px < fst col + snd col"
    by blast
  from cuts_cover [OF positive(2) le0 assms(3)] obtain row
    where row: "row \<in> set (cuts (unat (sz_height tile)) (unat (im_height current)) 0)" "fst row \<le> py" "py < fst row + snd row"
    by blast
  have "cell_differs previous current row col"
    unfolding cell_differs_def
    by (rule exI [of _ "py - fst row"], rule conjI, use row in simp, rule exI [of _ "px - fst col"])
      (use row col assms(4) in simp)
  then have "cell row col \<in> set tiles" "in_rectangle (cell row col) px py"
    using col row unfolding tiles_def dirty_tiles by (auto simp: in_cell)
  moreover have "t = cell row col" if "t \<in> set tiles" "in_rectangle t px py" for t
  proof -
    from that(1) obtain row' col' where t: "t = cell row' col'"
      "row' \<in> set (cuts (unat (sz_height tile)) (unat (im_height current)) 0)"
      "col' \<in> set (cuts (unat (sz_width tile)) (unat (im_width current)) 0)"
      unfolding tiles_def dirty_tiles by blast
    with that(2) row col show ?thesis
      using cuts_disjoint [OF t(2) row(1), of py] cuts_disjoint [OF t(3) col(1), of px] by (auto simp: in_cell)
  qed
  ultimately show ?thesis by blast
qed

text \<open>
  The grid of a tile size over an image of some width and height, row by row: the tile in column \<open>i\<close> and row \<open>j\<close> starts at
  that multiple of the size, and the last ones of a row or column are cut at the edge.
\<close>

definition grid_tiles :: "tile_size \<Rightarrow> nat \<Rightarrow> nat \<Rightarrow> rectangle list" where
  "grid_tiles tile width height =
     (let tw = unat (sz_width tile); th = unat (sz_height tile)
      in concat (map (\<lambda>j. map (\<lambda>i. \<lparr>rc_x = int (i * tw), rc_y = int (j * th), rc_width = of_nat (min tw (width - i * tw)),
                                      rc_height = of_nat (min th (height - j * th))\<rparr>)
                          [0..<(width + tw - 1) div tw])
           [0..<(height + th - 1) div th]))"

lemma ceiling_div:
  assumes "0 < (step :: nat)"
  shows "i < (extent + step - 1) div step \<longleftrightarrow> i * step < extent"
proof -
  have "i < (extent + step - 1) div step \<longleftrightarrow> Suc i \<le> (extent + step - 1) div step" by (simp add: Suc_le_eq)
  also have "\<dots> \<longleftrightarrow> Suc i * step \<le> extent + step - 1" using assms by (rule less_eq_div_iff_mult_less_eq)
  also have "\<dots> \<longleftrightarrow> i * step < extent" using assms by (auto simp: algebra_simps)
  finally show ?thesis .
qed

lemma cuts_grid:
  assumes "0 < step"
  shows "cuts step extent (k * step) =
    map (\<lambda>i. (i * step, min step (extent - i * step))) [k..<(extent + step - 1) div step]"
proof (induction "extent - k * step" arbitrary: k rule: less_induct)
  case less
  let ?n = "(extent + step - 1) div step"
  show ?case
  proof (cases "k * step < extent")
    case True
    then have range: "[k..<?n] = k # [Suc k..<?n]" using ceiling_div [OF assms, of k extent] by (simp add: upt_conv_Cons)
    have unfold: "cuts step extent (k * step) =
        (k * step, min step (extent - k * step)) # cuts step extent (k * step + min step (extent - k * step))"
      using True assms by (subst cuts.simps) simp
    have rest: "cuts step extent (k * step + min step (extent - k * step)) = cuts step extent (Suc k * step)"
    proof (cases "step \<le> extent - k * step")
      case False
      then have "k * step + min step (extent - k * step) = extent" "extent \<le> Suc k * step" using True by simp_all
      then have "cuts step extent (k * step + min step (extent - k * step)) = []" "cuts step extent (Suc k * step) = []"
        by (subst cuts.simps, simp)+
      then show ?thesis by simp
    qed (simp add: add.commute)
    have "extent - Suc k * step < extent - k * step" using True assms by simp
    note IH = less [OF this]
    show ?thesis unfolding unfold rest IH range by simp
  next
    case False
    then have "cuts step extent (k * step) = []" by (subst cuts.simps) simp
    moreover have "[k..<?n] = []" using False ceiling_div [OF assms, of k extent] by simp
    ultimately show ?thesis by simp
  qed
qed

lemma grid_cells:
  assumes "sz_width tile \<noteq> 0" and "sz_height tile \<noteq> 0"
  shows "grid_tiles tile w h =
    concat (map (\<lambda>row. map (cell row) (cuts (unat (sz_width tile)) w 0)) (cuts (unat (sz_height tile)) h 0))"
proof -
  have "0 < unat (sz_width tile)" "0 < unat (sz_height tile)" using assms by (simp_all add: unat_gt_0)
  from cuts_grid [OF this(1), of w 0] cuts_grid [OF this(2), of h 0] show ?thesis
    by (simp add: grid_tiles_def Let_def cell_def comp_def)
qed

definition changed_tile :: "image \<Rightarrow> image \<Rightarrow> rectangle \<Rightarrow> bool" where
  "changed_tile previous current t \<longleftrightarrow>
     (\<exists>px < unat (im_width current). \<exists>py < unat (im_height current). in_rectangle t px py \<and> pixel previous px py \<noteq> pixel current px py)"

lemma changed_cell:
  assumes "col \<in> set (cuts sw (unat (im_width current)) 0)" and "row \<in> set (cuts sh (unat (im_height current)) 0)"
  shows "changed_tile previous current (cell row col) \<longleftrightarrow> cell_differs previous current row col"
proof
  assume "changed_tile previous current (cell row col)"
  then obtain px py where "in_rectangle (cell row col) px py" "differs previous current px py"
    by (auto simp: changed_tile_def differs_def)
  then show "cell_differs previous current row col"
    unfolding in_cell [OF assms] cell_differs_def
    by (intro exI [of _ "py - fst row"] conjI exI [of _ "px - fst col"]) auto
next
  assume "cell_differs previous current row col"
  then obtain r i where "r < snd row" "i < snd col" "differs previous current (fst col + i) (fst row + r)"
    by (auto simp: cell_differs_def)
  then show "changed_tile previous current (cell row col)"
    using cuts_range [OF assms(1)] cuts_range [OF assms(2)]
    unfolding changed_tile_def differs_def
    by (intro exI [of _ "fst col + i"] exI [of _ "fst row + r"] conjI) (auto simp: in_cell [OF assms])
qed

lemma dirty_tiles_of_grid:
  assumes "sz_width tile \<noteq> 0" and "sz_height tile \<noteq> 0"
  shows "concat (map (row_tiles previous current tile) (cuts (unat (sz_height tile)) (unat (im_height current)) 0)) =
    filter (changed_tile previous current) (grid_tiles tile (unat (im_width current)) (unat (im_height current)))"
proof -
  let ?cols = "cuts (unat (sz_width tile)) (unat (im_width current)) 0" and ?rows = "cuts (unat (sz_height tile)) (unat (im_height current)) 0"
  have "row_tiles previous current tile row = filter (changed_tile previous current) (map (cell row) ?cols)"
    if "row \<in> set ?rows" for row
    using changed_cell [OF _ that] by (simp add: row_tiles_def filter_map comp_def cong: filter_cong)
  then have rows: "map (row_tiles previous current tile) ?rows = map (\<lambda>row. filter (changed_tile previous current) (map (cell row) ?cols)) ?rows"
    by simp
  show ?thesis unfolding rows grid_cells [OF assms] filter_concat map_map comp_def ..
qed

text \<open>
  C19. Comparing two captures always returns and never reads outside either image. It asks for a full
  invalidation exactly when the images differ in geometry or format, the tile is empty, the coordinates do not fit, or a
  storage does not hold its pixels. Otherwise it reports, in order, exactly those tiles of the grid of the given tile size that hold a
  differing pixel, and no change when there is none; every differing pixel lies in exactly one reported tile.\<close>

theorem tile_diff_exact:
  "\<exists>r. tile_diff previous current tile = Some r \<and>
    (td_kind r = FullInvalidation \<longleftrightarrow> \<not> comparable previous current tile) \<and>
    (comparable previous current tile \<longrightarrow>
       td_dirty_tiles r = filter (\<lambda>t. \<exists>px < unat (im_width current). \<exists>py < unat (im_height current).
            in_rectangle t px py \<and> pixel previous px py \<noteq> pixel current px py)
         (grid_tiles tile (unat (im_width current)) (unat (im_height current))) \<and>
       (td_kind r = NoChange \<longleftrightarrow>
          (\<forall>px < unat (im_width current). \<forall>py < unat (im_height current). pixel previous px py = pixel current px py)) \<and>
       (\<forall>px < unat (im_width current). \<forall>py < unat (im_height current).
          pixel previous px py \<noteq> pixel current px py \<longrightarrow> (\<exists>!t. t \<in> set (td_dirty_tiles r) \<and> in_rectangle t px py)))"
proof (cases "comparable previous current tile")
  case True
  define tiles where "tiles = concat (map (row_tiles previous current tile)
    (cuts (unat (sz_height tile)) (unat (im_height current)) 0))"
  have grid: "tiles = filter (changed_tile previous current) (grid_tiles tile (unat (im_width current)) (unat (im_height current)))"
    using True unfolding tiles_def by (intro dirty_tiles_of_grid) (simp_all add: comparable_def)
  have holds: "changed_tile previous current t" if "t \<in> set tiles" for t using that by (simp add: grid)
  note once = dirty_tile_of_pixel [OF True, folded tiles_def]
  have "tiles = [] \<longleftrightarrow> (\<forall>px < unat (im_width current). \<forall>py < unat (im_height current). \<not> differs previous current px py)"
    using holds once unfolding changed_tile_def differs_def [symmetric] by (metis list.set_intros(1) neq_Nil_conv empty_iff list.set(1))
  moreover have "tiles = filter (\<lambda>t. \<exists>px < unat (im_width current). \<exists>py < unat (im_height current).
            in_rectangle t px py \<and> pixel previous px py \<noteq> pixel current px py)
         (grid_tiles tile (unat (im_width current)) (unat (im_height current)))"
    by (subst grid) (simp only: changed_tile_def [abs_def])
  ultimately show ?thesis using True once
    by (intro exI [of _ "\<lparr>td_kind = (if tiles \<noteq> [] then DirtyTiles else NoChange), td_dirty_tiles = tiles, td_reason = []\<rparr>"])
      (auto simp: tile_diff_comparable tiles_def [symmetric] differs_def)
next
  case False
  then show ?thesis
    by (auto simp: tile_diff_def comparable_def full_invalidation_def not_less)
qed

theorem tile_diff_exact_witness:
  defines "before \<equiv> \<lparr>im_width = 3, im_height = 2, im_stride = 4, im_format = Gray, im_pixels = [1, 2, 3, 0, 4, 5, 6]\<rparr>"
    and "after \<equiv> \<lparr>im_width = 3, im_height = 2, im_stride = 3, im_format = Gray, im_pixels = [1, 2, 3, 4, 5, 7]\<rparr>"
    and "tile \<equiv> \<lparr>sz_width = 2, sz_height = 2\<rparr>"
  shows "comparable before after tile \<and>
    map_option td_dirty_tiles (tile_diff before after tile) =
      Some [\<lparr>rc_x = 2, rc_y = 0, rc_width = 1, rc_height = 2\<rparr>] \<and>
    grid_tiles tile 3 2 = [\<lparr>rc_x = 0, rc_y = 0, rc_width = 2, rc_height = 2\<rparr>, \<lparr>rc_x = 2, rc_y = 0, rc_width = 1, rc_height = 2\<rparr>] \<and>
    filter (changed_tile before after) (grid_tiles tile 3 2) = [\<lparr>rc_x = 2, rc_y = 0, rc_width = 1, rc_height = 2\<rparr>]"
proof -
  have c: "comparable before after tile"
    unfolding before_def after_def tile_def by code_simp
  have d: "map_option td_dirty_tiles (tile_diff before after tile) =
      Some [\<lparr>rc_x = 2, rc_y = 0, rc_width = 1, rc_height = 2\<rparr>]"
    unfolding before_def after_def tile_def by code_simp
  have g: "grid_tiles tile 3 2 = [\<lparr>rc_x = 0, rc_y = 0, rc_width = 2, rc_height = 2\<rparr>, \<lparr>rc_x = 2, rc_y = 0, rc_width = 1, rc_height = 2\<rparr>]"
    unfolding tile_def by code_simp
  have size: "unat (im_width after) = 3" "unat (im_height after) = 2" by (simp_all add: after_def)
  obtain r where r: "tile_diff before after tile = Some r"
    "td_dirty_tiles r = filter (changed_tile before after) (grid_tiles tile 3 2)"
    using tile_diff_exact [of before after tile] c unfolding changed_tile_def [abs_def] size by blast
  then show ?thesis using c d g by simp
qed

end
