(* ===== verification/Capture_Control.thy ===== *)
theory Capture_Control
  imports Tile_Differ
begin

text \<open>
  \<open>src/kernel/capture/damage_hint_auditor.cpp\<close> and \<open>src/kernel/capture/inject_gate.cpp\<close>. The auditor compares
  the damage rectangles a driver announces with what the tile comparison finds, and stops trusting
  them for good once they miss too much. The two computations on \<open>double\<close>, the quotient of two counts and the
  comparison with the threshold, are arguments. The gate hands out one token per target at a time; a
  lane, which holds the target's mutex, is an address, and calls to \<open>acquire\<close> and the destruction of tokens
  interleave in any order.

  Shown: the auditor is degraded exactly when its history says so and announces hints as usable exactly when it is
  not; two rectangles intersect exactly when they share a pixel; and in every run of the gate a target has at most
  one token, while a caller waits only for tokens of its own target.
\<close>

section \<open>The damage hint auditor\<close>

datatype damage_hint_action = UseHints | FullScan | InvalidateAll

record 'd damage_hint_audit =
  au_action :: damage_hint_action
  au_miss_rate :: 'd
  au_reason :: string

record 'd damage_hint_auditor =
  da_miss_threshold :: 'd
  da_degraded :: bool
  da_degradation_reason :: string

text \<open>What the auditor uses of \<open>double\<close>: \<open>0.0\<close>, \<open>1.0\<close>, \<open>m / n\<close> for two counts, \<open>>\<close>, and \<open>std::clamp\<close> to the unit interval.\<close>

record 'd rate_ops =
  ra_zero :: 'd
  ra_one :: 'd
  ra_ratio :: "nat \<Rightarrow> nat \<Rightarrow> 'd"
  ra_greater :: "'d \<Rightarrow> 'd \<Rightarrow> bool"
  ra_clamp :: "'d \<Rightarrow> 'd"

definition intersects :: "rectangle \<Rightarrow> rectangle \<Rightarrow> bool" where
  "intersects lhs rhs =
     (if rc_width lhs = 0 \<or> rc_height lhs = 0 \<or> rc_width rhs = 0 \<or> rc_height rhs = 0 then False
      else
        let lhs_right = rc_x lhs + uint (rc_width lhs); lhs_bottom = rc_y lhs + uint (rc_height lhs);
            rhs_right = rc_x rhs + uint (rc_width rhs); rhs_bottom = rc_y rhs + uint (rc_height rhs)
        in rc_x lhs < rhs_right \<and> rc_x rhs < lhs_right \<and> rc_y lhs < rhs_bottom \<and> rc_y rhs < lhs_bottom)"

definition misses :: "rectangle list \<Rightarrow> rectangle list \<Rightarrow> nat" where
  "misses hints truth = length (filter (\<lambda>tile. \<not> (\<exists>hint\<in>set hints. intersects tile hint)) truth)"

definition calculate_miss_rate :: "'d rate_ops \<Rightarrow> rectangle list \<Rightarrow> rectangle list \<Rightarrow> 'd" where
  "calculate_miss_rate ops hints truth =
     (if truth = [] then ra_zero ops else ra_ratio ops (misses hints truth) (length truth))"

definition new_auditor :: "'d rate_ops \<Rightarrow> 'd \<Rightarrow> 'd damage_hint_auditor" where
  "new_auditor ops threshold =
     \<lparr>da_miss_threshold = ra_clamp ops threshold, da_degraded = False, da_degradation_reason = []\<rparr>"

definition audit ::
  "'d rate_ops \<Rightarrow> rectangle list \<Rightarrow> tile_diff_result \<Rightarrow> bool \<Rightarrow> 'd damage_hint_auditor \<Rightarrow>
   'd damage_hint_audit \<times> 'd damage_hint_auditor" where
  "audit ops hints ground_truth overflowed a =
     (if overflowed then
        let a = a\<lparr>da_degraded := True, da_degradation_reason := ''damage hint queue overflowed''\<rparr>
        in (\<lparr>au_action = InvalidateAll, au_miss_rate = ra_one ops, au_reason = da_degradation_reason a\<rparr>, a)
      else if td_kind ground_truth = FullInvalidation then
        (\<lparr>au_action = InvalidateAll, au_miss_rate = ra_zero ops, au_reason = td_reason ground_truth\<rparr>, a)
      else
        let miss_rate = calculate_miss_rate ops hints (td_dirty_tiles ground_truth);
            a = (if \<not> da_degraded a \<and> ra_greater ops miss_rate (da_miss_threshold a)
                 then a\<lparr>da_degraded := True, da_degradation_reason := ''damage hint miss rate exceeded threshold''\<rparr> else a)
        in if da_degraded a
           then (\<lparr>au_action = FullScan, au_miss_rate = miss_rate, au_reason = da_degradation_reason a\<rparr>, a)
           else (\<lparr>au_action = UseHints, au_miss_rate = miss_rate, au_reason = []\<rparr>, a))"

section \<open>Audits in a row\<close>

record audit_input =
  ai_hints :: "rectangle list"
  ai_truth :: tile_diff_result
  ai_overflowed :: bool

fun run_audits ::
  "'d rate_ops \<Rightarrow> audit_input list \<Rightarrow> 'd damage_hint_auditor \<Rightarrow> 'd damage_hint_audit list \<times> 'd damage_hint_auditor" where
  "run_audits ops [] a = ([], a)"
| "run_audits ops (i # is) a =
     (case audit ops (ai_hints i) (ai_truth i) (ai_overflowed i) a of
        (r, a) \<Rightarrow> (case run_audits ops is a of (rs, a) \<Rightarrow> (r # rs, a)))"

text \<open>Two rectangles intersect exactly when they share a pixel; an empty one intersects nothing.\<close>

lemma word_uint_positive: "(w :: u32) \<noteq> 0 \<Longrightarrow> 0 < uint w"
  by (simp add: order_less_le uint_0_iff)

lemma intersects_iff:
  "intersects a b \<longleftrightarrow>
     (\<exists>px py. rc_x a \<le> px \<and> px < rc_x a + uint (rc_width a) \<and> rc_y a \<le> py \<and> py < rc_y a + uint (rc_height a) \<and>
              rc_x b \<le> px \<and> px < rc_x b + uint (rc_width b) \<and> rc_y b \<le> py \<and> py < rc_y b + uint (rc_height b))"
proof
  assume "intersects a b"
  then show "\<exists>px py. rc_x a \<le> px \<and> px < rc_x a + uint (rc_width a) \<and> rc_y a \<le> py \<and> py < rc_y a + uint (rc_height a) \<and>
      rc_x b \<le> px \<and> px < rc_x b + uint (rc_width b) \<and> rc_y b \<le> py \<and> py < rc_y b + uint (rc_height b)"
    by (intro exI [of _ "max (rc_x a) (rc_x b)"] exI [of _ "max (rc_y a) (rc_y b)"])
      (auto simp: intersects_def Let_def word_uint_positive split: if_splits)
qed (auto simp: intersects_def Let_def)

text \<open>
  What an audit is to find out: a changed tile is missed when no hint shares a pixel with it. The rate is the share of the changed
  tiles that were missed, zero when nothing changed.
\<close>

definition in_area :: "rectangle \<Rightarrow> int \<Rightarrow> int \<Rightarrow> bool" where
  "in_area r px py \<longleftrightarrow> rc_x r \<le> px \<and> px < rc_x r + uint (rc_width r) \<and> rc_y r \<le> py \<and> py < rc_y r + uint (rc_height r)"

definition missed :: "rectangle list \<Rightarrow> rectangle \<Rightarrow> bool" where
  "missed hints tile \<longleftrightarrow> (\<forall>hint\<in>set hints. \<not> (\<exists>px py. in_area hint px py \<and> in_area tile px py))"

definition miss_share :: "'d rate_ops \<Rightarrow> audit_input \<Rightarrow> 'd" where
  "miss_share ops i =
     (let truth = td_dirty_tiles (ai_truth i)
      in if truth = [] then ra_zero ops else ra_ratio ops (card {k. k < length truth \<and> missed (ai_hints i) (truth ! k)}) (length truth))"

lemma miss_rate_share: "calculate_miss_rate ops (ai_hints i) (td_dirty_tiles (ai_truth i)) = miss_share ops i"
proof -
  have missed: "missed hints tile \<longleftrightarrow> \<not> (\<exists>hint\<in>set hints. intersects tile hint)" for hints tile
    unfolding missed_def intersects_iff in_area_def by blast
  have "misses hints truth = card {k. k < length truth \<and> missed hints (truth ! k)}" for hints and truth :: "rectangle list"
    by (simp add: misses_def missed length_filter_conv_card)
  then show ?thesis by (simp add: calculate_miss_rate_def miss_share_def Let_def)
qed

text \<open>An audit that makes the auditor stop trusting the hints, by itself.\<close>

definition damning :: "'d rate_ops \<Rightarrow> 'd \<Rightarrow> audit_input \<Rightarrow> bool" where
  "damning ops threshold i \<longleftrightarrow>
     ai_overflowed i \<or>
     td_kind (ai_truth i) \<noteq> FullInvalidation \<and> ra_greater ops (miss_share ops i) threshold"

lemma audit_step:
  assumes "audit ops (ai_hints i) (ai_truth i) (ai_overflowed i) a = (r, a')"
  shows "da_miss_threshold a' = da_miss_threshold a"
    and "da_degraded a' \<longleftrightarrow> da_degraded a \<or> damning ops (da_miss_threshold a) i"
    and "au_action r = (if ai_overflowed i \<or> td_kind (ai_truth i) = FullInvalidation then InvalidateAll
                        else if da_degraded a' then FullScan else UseHints)"
    and "au_miss_rate r = (if ai_overflowed i then ra_one ops else if td_kind (ai_truth i) = FullInvalidation then ra_zero ops
                           else miss_share ops i)"
  using assms by (auto simp: audit_def damning_def Let_def miss_rate_share split: if_splits)

lemma run_audits_history:
  assumes "run_audits ops is a = (rs, a')"
  shows "length rs = length is \<and> da_miss_threshold a' = da_miss_threshold a \<and>
    (da_degraded a' \<longleftrightarrow> da_degraded a \<or> (\<exists>i\<in>set is. damning ops (da_miss_threshold a) i)) \<and>
    (\<forall>k<length is. au_action (rs ! k) =
       (if ai_overflowed (is ! k) \<or> td_kind (ai_truth (is ! k)) = FullInvalidation then InvalidateAll
        else if da_degraded a \<or> (\<exists>j\<le>k. damning ops (da_miss_threshold a) (is ! j)) then FullScan else UseHints) \<and>
       au_miss_rate (rs ! k) = (if ai_overflowed (is ! k) then ra_one ops
         else if td_kind (ai_truth (is ! k)) = FullInvalidation then ra_zero ops else miss_share ops (is ! k)))"
  using assms
proof (induction "is" arbitrary: a rs)
  case (Cons i "is")
  obtain r b where r: "audit ops (ai_hints i) (ai_truth i) (ai_overflowed i) a = (r, b)" by fastforce
  obtain rs' where rs': "run_audits ops is b = (rs', a')" "rs = r # rs'"
    using Cons.prems r by (auto split: prod.splits)
  note step = audit_step [OF r] and later = Cons.IH [OF rs'(1)]
  have more: "(\<exists>j\<le>Suc k. damning ops (da_miss_threshold a) ((i # is) ! j)) \<longleftrightarrow>
      damning ops (da_miss_threshold a) i \<or> (\<exists>j\<le>k. damning ops (da_miss_threshold a) (is ! j))" for k
    by (metis Suc_le_mono le0 not0_implies_Suc nth_Cons_0 nth_Cons_Suc)
  have "au_action ((r # rs') ! k) =
       (if ai_overflowed ((i # is) ! k) \<or> td_kind (ai_truth ((i # is) ! k)) = FullInvalidation then InvalidateAll
        else if da_degraded a \<or> (\<exists>j\<le>k. damning ops (da_miss_threshold a) ((i # is) ! j)) then FullScan else UseHints) \<and>
       au_miss_rate ((r # rs') ! k) = (if ai_overflowed ((i # is) ! k) then ra_one ops
         else if td_kind (ai_truth ((i # is) ! k)) = FullInvalidation then ra_zero ops else miss_share ops ((i # is) ! k))"
    if k: "k < length (i # is)" for k
  proof (cases k)
    case 0
    with step show ?thesis by simp
  next
    case (Suc j)
    with k have "j < length is" by simp
    with later step show ?thesis
      unfolding Suc more by simp
  qed
  moreover have "da_degraded a' \<longleftrightarrow> da_degraded a \<or> (\<exists>x\<in>set (i # is). damning ops (da_miss_threshold a) x)"
    using step later by auto
  ultimately show ?case
    unfolding rs'(2) using step(1) later by simp
qed simp

text \<open>
  C20. The auditor's trust in the damage hints follows from its history and is never regained: after any sequence of audits it
  is degraded exactly when one of them overflowed, or compared tiles and missed a larger share of the changed ones than the threshold
  allows, where a tile is missed when no hint shares a pixel with it. Each answer is to
  invalidate everything when the hints overflowed or the comparison asks for it, else to scan when the auditor is degraded by then, and
  else to use the hints; it names the share that was missed, one for an overflow and zero for an invalidation.\<close>

theorem audit_follows_history:
  assumes "run_audits ops is (new_auditor ops threshold) = (rs, a)"
  shows "length rs = length is \<and>
    (da_degraded a \<longleftrightarrow> (\<exists>i\<in>set is. damning ops (ra_clamp ops threshold) i)) \<and>
    (\<forall>k<length is. au_action (rs ! k) =
       (if ai_overflowed (is ! k) \<or> td_kind (ai_truth (is ! k)) = FullInvalidation then InvalidateAll
        else if \<exists>j\<le>k. damning ops (ra_clamp ops threshold) (is ! j) then FullScan else UseHints) \<and>
       au_miss_rate (rs ! k) = (if ai_overflowed (is ! k) then ra_one ops
         else if td_kind (ai_truth (is ! k)) = FullInvalidation then ra_zero ops else miss_share ops (is ! k)))"
  using run_audits_history [OF assms] by (simp add: new_auditor_def)

definition sample_tile :: "int \<Rightarrow> rectangle" where
  "sample_tile x = \<lparr>rc_x = x, rc_y = 0, rc_width = 4, rc_height = 4\<rparr>"

definition sample_rates :: "nat rate_ops" where
  "sample_rates = \<lparr>ra_zero = 0, ra_one = 100, ra_ratio = (\<lambda>m n. 100 * m div n), ra_greater = (>), ra_clamp = min 100\<rparr>"

definition sample_audits :: "audit_input list" where
  "sample_audits =
     [\<lparr>ai_hints = [sample_tile 2], ai_truth = \<lparr>td_kind = DirtyTiles, td_dirty_tiles = [sample_tile 0], td_reason = []\<rparr>, ai_overflowed = False\<rparr>,
      \<lparr>ai_hints = [sample_tile 4], ai_truth = \<lparr>td_kind = DirtyTiles, td_dirty_tiles = [sample_tile 0], td_reason = []\<rparr>, ai_overflowed = False\<rparr>,
      \<lparr>ai_hints = [sample_tile 0], ai_truth = \<lparr>td_kind = NoChange, td_dirty_tiles = [], td_reason = []\<rparr>, ai_overflowed = False\<rparr>]"

theorem audit_follows_history_witness:
  "map au_action (fst (run_audits sample_rates sample_audits (new_auditor sample_rates 20))) = [UseHints, FullScan, FullScan] \<and>
   (\<exists>i\<in>set sample_audits. damning sample_rates 20 i)"
proof -
  have "map au_action (fst (run_audits sample_rates sample_audits (new_auditor sample_rates 20))) = [UseHints, FullScan, FullScan]"
    by code_simp
  moreover have "da_degraded (snd (run_audits sample_rates sample_audits (new_auditor sample_rates 20)))"
    by code_simp
  moreover have "ra_clamp sample_rates 20 = 20"
    by (simp add: sample_rates_def)
  moreover have "da_degraded (snd (run_audits sample_rates sample_audits (new_auditor sample_rates 20))) \<longleftrightarrow>
      (\<exists>i\<in>set sample_audits. damning sample_rates (ra_clamp sample_rates 20) i)"
    using audit_follows_history [OF surjective_pairing, of sample_rates sample_audits 20] by (elim conjE)
  ultimately show ?thesis by simp
qed

section \<open>The injection gate\<close>

text \<open>
  The heap addresses of lanes are numbers; \<open>ig_fresh\<close> is the next one \<open>make_shared\<close> returns. A request has looked
  up its lane and waits for the lane's mutex; a token holds it. A capture and an injection are acquired alike.
\<close>

record inject_gate =
  ig_lanes :: "(u64, nat) omap"
  ig_fresh :: nat

definition lane_for :: "u64 \<Rightarrow> inject_gate \<Rightarrow> nat \<times> inject_gate" where
  "lane_for t g =
     (case omap_find (ig_lanes g) t of
        Some lane \<Rightarrow> (lane, g)
      | None \<Rightarrow> (ig_fresh g, g\<lparr>ig_lanes := omap_put t (ig_fresh g) (ig_lanes g), ig_fresh := Suc (ig_fresh g)\<rparr>))"

record gate_request =
  gr_caller :: nat
  gr_target :: u64
  gr_lane :: nat

record gate_system =
  gs_gate :: inject_gate
  gs_waiting :: "gate_request list"
  gs_tokens :: "gate_request list"

definition new_gate_system :: gate_system where
  "new_gate_system = \<lparr>gs_gate = \<lparr>ig_lanes = [], ig_fresh = 0\<rparr>, gs_waiting = [], gs_tokens = []\<rparr>"

inductive gate_step :: "gate_system \<Rightarrow> gate_system \<Rightarrow> bool" where
  request: "lane_for t (gs_gate s) = (lane, g) \<Longrightarrow>
    gate_step s (s\<lparr>gs_gate := g, gs_waiting := gs_waiting s @ [\<lparr>gr_caller = c, gr_target = t, gr_lane = lane\<rparr>]\<rparr>)"
| lock: "w \<in> set (gs_waiting s) \<Longrightarrow> gr_lane w \<notin> gr_lane ` set (gs_tokens s) \<Longrightarrow>
    gate_step s (s\<lparr>gs_waiting := remove1 w (gs_waiting s), gs_tokens := w # gs_tokens s\<rparr>)"
| release: "w \<in> set (gs_tokens s) \<Longrightarrow> gate_step s (s\<lparr>gs_tokens := remove1 w (gs_tokens s)\<rparr>)"

inductive gate_reachable :: "gate_system \<Rightarrow> bool" where
  gate_initial: "gate_reachable new_gate_system"
| gate_next: "gate_reachable s \<Longrightarrow> gate_step s s' \<Longrightarrow> gate_reachable s'"

definition lanes_ok :: "inject_gate \<Rightarrow> bool" where
  "lanes_ok g \<longleftrightarrow>
     (\<forall>t lane. omap_find (ig_lanes g) t = Some lane \<longrightarrow> lane < ig_fresh g) \<and>
     (\<forall>t u lane. omap_find (ig_lanes g) t = Some lane \<and> omap_find (ig_lanes g) u = Some lane \<longrightarrow> t = u)"

definition gate_ok :: "gate_system \<Rightarrow> bool" where
  "gate_ok s \<longleftrightarrow>
     lanes_ok (gs_gate s) \<and> distinct (map gr_lane (gs_tokens s)) \<and>
     (\<forall>w\<in>set (gs_waiting s) \<union> set (gs_tokens s). omap_find (ig_lanes (gs_gate s)) (gr_target w) = Some (gr_lane w))"

lemma lane_for_ok:
  assumes "lanes_ok g" and "lane_for t g = (lane, g')"
  shows "lanes_ok g' \<and> omap_find (ig_lanes g') t = Some lane \<and>
    (\<forall>u l. omap_find (ig_lanes g) u = Some l \<longrightarrow> omap_find (ig_lanes g') u = Some l)"
proof -
  have "omap_find (ig_lanes g) u \<noteq> Some (ig_fresh g)" for u
    using assms(1) by (auto simp: lanes_ok_def)
  with assms show ?thesis
    by (auto simp: lane_for_def lanes_ok_def omap_find_put less_Suc_eq split: option.splits if_splits)
qed

lemma gate_step_ok: "gate_step s s' \<Longrightarrow> gate_ok s \<Longrightarrow> gate_ok s'"
proof (induction rule: gate_step.induct)
  case (request t s lane g c)
  then show ?case
    using lane_for_ok [of "gs_gate s" t lane g] by (auto simp: gate_ok_def)
next
  case (lock w s)
  then show ?case
    by (auto simp: gate_ok_def dest: notin_set_remove1 set_remove1_subset [THEN subsetD])
next
  case (release w s)
  then have "distinct (map gr_lane (remove1 w (gs_tokens s)))"
    by (auto simp: gate_ok_def distinct_map intro: inj_on_subset dest: set_remove1_subset [THEN subsetD])
  with release show ?case
    by (auto simp: gate_ok_def dest: set_remove1_subset [THEN subsetD])
qed

lemma gate_reachable_ok: "gate_reachable s \<Longrightarrow> gate_ok s"
  by (induction rule: gate_reachable.induct)
    (auto simp: gate_step_ok, simp add: gate_ok_def lanes_ok_def new_gate_system_def)

text \<open>
  In every run of the gate a target has at most one token at a time, be it for a capture or an
  injection, and a caller whose target has no token is never held up by other targets: it can be
  given its token in the next step.\<close>

theorem gate_serialises_per_target:
  assumes "gate_reachable s"
  shows "distinct (map gr_target (gs_tokens s)) \<and>
    (\<forall>w\<in>set (gs_waiting s). gr_target w \<notin> gr_target ` set (gs_tokens s) \<longrightarrow>
       (\<exists>s'. gate_step s s' \<and> gs_tokens s' = w # gs_tokens s))"
proof -
  note ok = gate_reachable_ok [OF assms, unfolded gate_ok_def]
  have same: "gr_target a = gr_target b \<longleftrightarrow> gr_lane a = gr_lane b"
    if "a \<in> set (gs_waiting s) \<union> set (gs_tokens s)" "b \<in> set (gs_waiting s) \<union> set (gs_tokens s)" for a b
    using ok that unfolding lanes_ok_def by (metis option.inject)
  have "distinct (map gr_target (gs_tokens s))"
    using ok same by (auto simp: distinct_map inj_on_def)
  moreover have "\<exists>s'. gate_step s s' \<and> gs_tokens s' = w # gs_tokens s"
    if w: "w \<in> set (gs_waiting s)" "gr_target w \<notin> gr_target ` set (gs_tokens s)" for w
  proof -
    have "gr_lane w \<notin> gr_lane ` set (gs_tokens s)"
      using w same by force
    from gate_step.lock [OF w(1) this] show ?thesis by force
  qed
  ultimately show ?thesis by blast
qed

lemma sample_gate:
  "gate_reachable \<lparr>gs_gate = \<lparr>ig_lanes = [(7, 0)], ig_fresh = 1\<rparr>,
     gs_waiting = [\<lparr>gr_caller = 1, gr_target = 7, gr_lane = 0\<rparr>], gs_tokens = []\<rparr>"
  using gate_next [OF gate_initial gate_step.request [of 7 new_gate_system 0 "\<lparr>ig_lanes = [(7, 0)], ig_fresh = 1\<rparr>" 1]]
  by (simp add: new_gate_system_def lane_for_def)

theorem gate_serialises_per_target_witness:
  "\<exists>s'. gate_step \<lparr>gs_gate = \<lparr>ig_lanes = [(7, 0)], ig_fresh = 1\<rparr>,
       gs_waiting = [\<lparr>gr_caller = 1, gr_target = 7, gr_lane = 0\<rparr>], gs_tokens = []\<rparr> s' \<and>
     map gr_target (gs_tokens s') = [7]"
  using gate_serialises_per_target [OF sample_gate] by auto

end
