(* ===== verification/State_Manager.thy ===== *)
theory State_Manager
  imports Locator_Json Event_Bus
begin

text \<open>
  \<open>src/kernel/graph/state_manager.cpp\<close> and \<open>state_snapshot_provider.cpp\<close>: which windows are open and which has the
  focus, kept from window events, and the provider that drains its subscription into the manager and answers
  replays. The document of a snapshot is a JSON value; printing it and reading the clock are arguments.

  Shown: the manager implements a map from application and title to process, its records never name a window twice, and
  replaying the open windows rebuilds them; the provider's drain consumes its queue up to the first gap.
\<close>

section \<open>The manager\<close>

record window_record =
  wn_app :: string
  wn_pid :: int
  wn_title :: string

definition empty_window :: window_record where
  "empty_window = \<lparr>wn_app = [], wn_pid = 0, wn_title = []\<rparr>"

record state_manager =
  sm_open_windows :: "window_record list"
  sm_focused :: window_record
  sm_has_focused_window :: bool

definition new_state_manager :: state_manager where
  "new_state_manager = \<lparr>sm_open_windows = [], sm_focused = empty_window, sm_has_focused_window = False\<rparr>"

definition pid_valid :: "int \<Rightarrow> bool" where
  "pid_valid p \<longleftrightarrow> p > 0"

definition pid_to_string :: "int \<Rightarrow> string" where
  "pid_to_string p = (if pid_valid p then to_string (nat p) else [])"

definition is_empty_window :: "string \<Rightarrow> int \<Rightarrow> string \<Rightarrow> bool" where
  "is_empty_window app pid title \<longleftrightarrow> app = [] \<and> \<not> pid_valid pid \<and> title = []"

definition same_identity :: "window_record \<Rightarrow> string \<Rightarrow> string \<Rightarrow> bool" where
  "same_identity r app title \<longleftrightarrow> wn_app r = app \<and> wn_title r = title"

definition make_record :: "string \<Rightarrow> int \<Rightarrow> string \<Rightarrow> window_record" where
  "make_record app pid title = \<lparr>wn_app = app, wn_pid = pid, wn_title = title\<rparr>"

text \<open>\<open>find_if\<close>, and the record found is overwritten or a new one pushed back.\<close>

fun put_window :: "string \<Rightarrow> int \<Rightarrow> string \<Rightarrow> window_record list \<Rightarrow> window_record list" where
  "put_window app pid title [] = [make_record app pid title]"
| "put_window app pid title (r # rs) =
     (if same_identity r app title then make_record app pid title # rs else r # put_window app pid title rs)"

definition observe_window :: "event \<Rightarrow> state_manager \<Rightarrow> state_manager" where
  "observe_window e m =
     (case ev_payload e of
        WindowChangePayload app pid title prev_title duration \<Rightarrow>
          (case ev_kind e of
             WindowCreated \<Rightarrow> m\<lparr>sm_open_windows := put_window app pid title (sm_open_windows m)\<rparr>
           | WindowClosed \<Rightarrow>
               let m = m\<lparr>sm_open_windows := filter (\<lambda>r. \<not> same_identity r app title) (sm_open_windows m)\<rparr>
               in if sm_has_focused_window m \<and> same_identity (sm_focused m) app title
                  then m\<lparr>sm_focused := empty_window, sm_has_focused_window := False\<rparr> else m
           | WindowFocusChanged \<Rightarrow>
               if is_empty_window app pid title
               then m\<lparr>sm_focused := empty_window, sm_has_focused_window := False\<rparr>
               else m\<lparr>sm_focused := make_record app pid title, sm_has_focused_window := True\<rparr>
           | _ \<Rightarrow> m)
      | _ \<Rightarrow> m)"

definition window_to_json :: "window_record \<Rightarrow> json" where
  "window_to_json w =
     JsonObject [(''app'', JsonString (wn_app w)), (''pid'', JsonString (pid_to_string (wn_pid w))),
                 (''title'', JsonString (wn_title w))]"

definition state_document :: "state_manager \<Rightarrow> json" where
  "state_document m =
     JsonObject [(''open'', JsonArray (map window_to_json (sm_open_windows m))),
       (''focused'', if sm_has_focused_window m then window_to_json (sm_focused m) else window_to_json empty_window)]"

definition state_snapshot :: "(json \<Rightarrow> string) \<Rightarrow> f64 \<Rightarrow> state_manager \<Rightarrow> event" where
  "state_snapshot dump timestamp m =
     default_event\<lparr>ev_timestamp := timestamp, ev_sequence := 0, ev_kind := StateSnapshot,
       ev_category := event_category_of StateSnapshot, ev_payload := StateSnapshotPayload (dump (state_document m))\<rparr>"

definition open_window_event :: "f64 \<Rightarrow> window_record \<Rightarrow> event" where
  "open_window_event timestamp w =
     default_event\<lparr>ev_timestamp := timestamp, ev_sequence := 0, ev_kind := WindowCreated,
       ev_category := event_category_of WindowCreated,
       ev_payload := WindowChangePayload (wn_app w) (wn_pid w) (wn_title w) [] 0\<rparr>"

definition open_window_events :: "f64 \<Rightarrow> state_manager \<Rightarrow> event list" where
  "open_window_events timestamp m = map (open_window_event timestamp) (sm_open_windows m)"

definition publish_snapshot ::
  "(json \<Rightarrow> string) \<Rightarrow> f64 \<Rightarrow> state_manager \<Rightarrow> 'f bus_state \<Rightarrow> 'f bus_state \<times> callback list" where
  "publish_snapshot dump timestamp m b = publish (state_snapshot dump timestamp m) b"

definition open_window_count :: "state_manager \<Rightarrow> nat" where
  "open_window_count m = length (sm_open_windows m)"

section \<open>The provider\<close>

lemma try_pop_smaller: "try_pop s = (Some e, s') \<Longrightarrow> ss_size s' < ss_size s"
  by (auto simp: try_pop_def try_pop_item_def pop_front_def Let_def split: if_splits subscription_event.splits)

text \<open>The loop of \<open>drain_locked\<close> on the provider's own queue.\<close>

function drain_queue :: "subscription_state \<Rightarrow> state_manager \<Rightarrow> subscription_state \<times> state_manager" where
  "drain_queue s m =
     (case try_pop s of
        (Some e, s') \<Rightarrow> drain_queue s' (observe_window e m)
      | (None, s') \<Rightarrow> (s', m))"
  by pat_completeness auto
termination
  by (relation "measure (\<lambda>(s, m). ss_size s)") (auto dest: try_pop_smaller [OF sym])

declare drain_queue.simps [simp del]

record snapshot_provider =
  sn_manager :: state_manager
  sn_subscription :: "subscription_handle option"

definition drain_locked :: "snapshot_provider \<Rightarrow> 'f bus_state \<Rightarrow> snapshot_provider \<times> 'f bus_state" where
  "drain_locked p b =
     (case sn_subscription p of
        None \<Rightarrow> (p, b)
      | Some h \<Rightarrow>
          (case h_state h of
             None \<Rightarrow> (p, b)
           | Some a \<Rightarrow>
               (case drain_queue (bus_store b ! a) (sn_manager p) of
                  (s, m) \<Rightarrow> (p\<lparr>sn_manager := m\<rparr>, update_state a s b))))"

definition window_filter :: event_filter where
  "window_filter = \<lparr>ef_kinds = [WindowCreated, WindowClosed, WindowFocusChanged], ef_categories = []\<rparr>"

text \<open>
  The two callbacks are known to the bus by the values it was given: \<open>state_callback\<close> and \<open>windows_callback\<close>. The bus
  calls them through the function it is run with.
\<close>

definition new_snapshot_provider ::
  "('f \<Rightarrow> event list) \<Rightarrow> 'f \<Rightarrow> 'f \<Rightarrow> 'f bus_state \<Rightarrow> snapshot_provider \<times> 'f bus_state \<times> demand_call list" where
  "new_snapshot_provider call state_callback windows_callback b =
     (case subscribe_filter call window_filter default_queue_options b of
        (h, b, calls) \<Rightarrow>
          (\<lparr>sn_manager = new_state_manager, sn_subscription = Some h\<rparr>,
           register_snapshot_provider WindowCreated windows_callback
             (register_snapshot_provider StateSnapshot state_callback b), calls))"

definition provide_state ::
  "(json \<Rightarrow> string) \<Rightarrow> f64 \<Rightarrow> snapshot_provider \<Rightarrow> 'f bus_state \<Rightarrow> event list \<times> snapshot_provider \<times> 'f bus_state" where
  "provide_state dump now p b =
     (case drain_locked p b of (p, b) \<Rightarrow> ([state_snapshot dump now (sn_manager p)], p, b))"

definition provide_windows ::
  "f64 \<Rightarrow> snapshot_provider \<Rightarrow> 'f bus_state \<Rightarrow> event list \<times> snapshot_provider \<times> 'f bus_state" where
  "provide_windows now p b =
     (case drain_locked p b of (p, b) \<Rightarrow> (open_window_events now (sn_manager p), p, b))"

definition destroy_snapshot_provider ::
  "snapshot_provider \<Rightarrow> 'f bus_state \<Rightarrow> snapshot_provider \<times> 'f bus_state \<times> demand_call list" where
  "destroy_snapshot_provider p b =
     (let b = unregister_snapshot_provider WindowCreated (unregister_snapshot_provider StateSnapshot b)
      in case sn_subscription p of
           None \<Rightarrow> (p, b, [])
         | Some h \<Rightarrow> (case unsubscribe h b of (_, b, calls) \<Rightarrow> (p\<lparr>sn_subscription := None\<rparr>, b, calls)))"

section \<open>The manager implements a map\<close>

type_synonym window_map = "string \<times> string \<rightharpoonup> int"

definition identity :: "window_record \<Rightarrow> string \<times> string" where
  "identity r = (wn_app r, wn_title r)"

definition windows_of :: "state_manager \<Rightarrow> window_map" where
  "windows_of m = map_of (map (\<lambda>r. (identity r, wn_pid r)) (sm_open_windows m))"

definition focus_of :: "state_manager \<Rightarrow> window_record option" where
  "focus_of m = (if sm_has_focused_window m then Some (sm_focused m) else None)"

text \<open>What an event does to the map, and to the window that has the focus.\<close>

definition windows_step :: "event \<Rightarrow> window_map \<Rightarrow> window_map" where
  "windows_step e M =
     (case ev_payload e of
        WindowChangePayload app pid title _ _ \<Rightarrow>
          (if ev_kind e = WindowCreated then M((app, title) \<mapsto> pid)
           else if ev_kind e = WindowClosed then M((app, title) := None) else M)
      | _ \<Rightarrow> M)"

definition focus_step :: "event \<Rightarrow> window_record option \<Rightarrow> window_record option" where
  "focus_step e f =
     (case ev_payload e of
        WindowChangePayload app pid title _ _ \<Rightarrow>
          (if ev_kind e = WindowClosed then (if map_option identity f = Some (app, title) then None else f)
           else if ev_kind e = WindowFocusChanged
           then (if app = [] \<and> pid \<le> 0 \<and> title = [] then None else Some (make_record app pid title)) else f)
      | _ \<Rightarrow> f)"

definition manager_ok :: "state_manager \<Rightarrow> bool" where
  "manager_ok m \<longleftrightarrow> distinct (map identity (sm_open_windows m)) \<and>
     (\<not> sm_has_focused_window m \<longrightarrow> sm_focused m = empty_window)"

lemma same_identity_iff: "same_identity r app title \<longleftrightarrow> identity r = (app, title)"
  by (simp add: same_identity_def identity_def)

lemma identity_make_record [simp]: "identity (make_record app pid title) = (app, title)"
  by (simp add: identity_def make_record_def)

lemma put_window_identities:
  "map identity (put_window app pid title rs) =
     (if (app, title) \<in> identity ` set rs then map identity rs else map identity rs @ [(app, title)])"
  by (induction rs) (auto simp: same_identity_iff)

lemma put_window_map:
  "distinct (map identity rs) \<Longrightarrow>
   map_of (map (\<lambda>r. (identity r, wn_pid r)) (put_window app pid title rs)) =
     (map_of (map (\<lambda>r. (identity r, wn_pid r)) rs))((app, title) \<mapsto> pid)"
  by (induction rs) (auto simp: same_identity_iff fun_eq_iff, simp_all add: make_record_def)

lemma remove_window_map:
  "map_of (map (\<lambda>r. (identity r, wn_pid r)) (filter (\<lambda>r. \<not> same_identity r app title) rs)) =
     (map_of (map (\<lambda>r. (identity r, wn_pid r)) rs))((app, title) := None)"
  by (induction rs) (auto simp: same_identity_iff fun_eq_iff)

lemma observe_window_ok: "manager_ok m \<Longrightarrow> manager_ok (observe_window e m)"
  by (simp add: observe_window_def manager_ok_def Let_def put_window_identities distinct_map_filter image_iff
        split: payload.split event_kind.split)

lemma observe_window_windows: "manager_ok m \<Longrightarrow> windows_of (observe_window e m) = windows_step e (windows_of m)"
  by (simp add: observe_window_def windows_step_def windows_of_def manager_ok_def Let_def put_window_map remove_window_map
        split: payload.split event_kind.split)

lemma observe_window_focus: "focus_of (observe_window e m) = focus_step e (focus_of m)"
  by (simp add: observe_window_def focus_step_def focus_of_def Let_def same_identity_iff is_empty_window_def pid_valid_def
        not_less split: payload.split event_kind.split)

text \<open>
  C21. The state manager implements a map from application and title to the process of the window, and a focus. After
  any sequence of events its records name every window once, and the map they spell and the window in focus are those
  of the events taken in order: a created window is added or its process replaced, a closed one is removed and loses
  the focus, a focus event that names no window clears the focus. While nothing has the focus the record of it is the
  empty one.
\<close>

theorem manager_refines_map:
  "let m = fold observe_window evs new_state_manager in
   distinct (map identity (sm_open_windows m)) \<and>
   windows_of m = fold windows_step evs Map.empty \<and>
   focus_of m = fold focus_step evs None \<and>
   (\<not> sm_has_focused_window m \<longrightarrow> sm_focused m = empty_window)"
proof -
  have "manager_ok (fold observe_window evs m) \<and> windows_of (fold observe_window evs m) = fold windows_step evs (windows_of m) \<and>
    focus_of (fold observe_window evs m) = fold focus_step evs (focus_of m)" if "manager_ok m" for m
    using that by (induction evs arbitrary: m) (simp_all add: observe_window_ok observe_window_windows observe_window_focus)
  from this [of new_state_manager] show ?thesis
    by (simp add: Let_def manager_ok_def windows_of_def focus_of_def new_state_manager_def empty_window_def)
qed

definition window_event :: "event_kind \<Rightarrow> string \<Rightarrow> int \<Rightarrow> string \<Rightarrow> event" where
  "window_event k app pid title =
     default_event\<lparr>ev_kind := k, ev_payload := WindowChangePayload app pid title [] 0\<rparr>"

definition sample_windows :: "event list" where
  "sample_windows = [window_event WindowCreated ''ed'' 4 ''a'', window_event WindowCreated ''sh'' 5 ''b'',
     window_event WindowFocusChanged ''ed'' 4 ''a'', window_event WindowClosed ''ed'' 0 ''a'']"

theorem manager_refines_map_witness:
  "windows_of (fold observe_window sample_windows new_state_manager) (''ed'', ''a'') = None \<and>
   windows_of (fold observe_window sample_windows new_state_manager) (''sh'', ''b'') = Some 5 \<and>
   sm_focused (fold observe_window sample_windows new_state_manager) = empty_window"
proof -
  have "focus_of (fold observe_window sample_windows new_state_manager) = None"
    "windows_of (fold observe_window sample_windows new_state_manager) = [(''sh'', ''b'') \<mapsto> 5]"
    using manager_refines_map [of sample_windows, unfolded Let_def]
    by (simp_all add: sample_windows_def window_event_def windows_step_def focus_step_def fun_eq_iff make_record_def identity_def)
  then show ?thesis
    using manager_refines_map [of sample_windows, unfolded Let_def] by (auto simp: focus_of_def split: if_splits)
qed

section \<open>Replays\<close>

lemma put_window_new: "(app, title) \<notin> identity ` set rs \<Longrightarrow> put_window app pid title rs = rs @ [make_record app pid title]"
  by (induction rs) (auto simp: same_identity_iff)

lemma observe_open_window:
  "identity r \<notin> identity ` set (sm_open_windows m) \<Longrightarrow>
   observe_window (open_window_event ts r) m = m\<lparr>sm_open_windows := sm_open_windows m @ [r]\<rparr>"
  by (simp add: observe_window_def open_window_event_def put_window_new identity_def make_record_def)

lemma replay_onto:
  "distinct (map identity (sm_open_windows m @ rs)) \<Longrightarrow>
   fold observe_window (map (open_window_event ts) rs) m = m\<lparr>sm_open_windows := sm_open_windows m @ rs\<rparr>"
  by (induction rs arbitrary: m) (auto simp: observe_open_window)

text \<open>
  A replay rebuilds the open windows. Whatever events a manager has seen, a second manager that observes the events
  of its open windows, as a late subscriber of window events receives them, holds the same records in the same order,
  and has no focus.
\<close>

theorem replay_rebuilds_windows:
  "fold observe_window (open_window_events ts (fold observe_window evs new_state_manager)) new_state_manager =
     new_state_manager\<lparr>sm_open_windows := sm_open_windows (fold observe_window evs new_state_manager)\<rparr>"
proof -
  have "manager_ok (fold observe_window evs m)" if "manager_ok m" for m
    using that by (induction evs arbitrary: m) (simp_all add: observe_window_ok)
  from this [of new_state_manager]
  have "distinct (map identity (sm_open_windows (fold observe_window evs new_state_manager)))"
    by (simp add: manager_ok_def new_state_manager_def)
  then show ?thesis
    unfolding open_window_events_def by (subst replay_onto) (simp_all add: new_state_manager_def)
qed

section \<open>The drain\<close>

lemma try_pop_cases:
  assumes "ring_ok s"
  shows "case queue_items s of
      [] \<Rightarrow> try_pop s = (None, s)
    | GapItem c q # rest \<Rightarrow> \<exists>s'. try_pop s = (None, s') \<and> ring_ok s' \<and> queue_items s' = rest
    | EventItem e # rest \<Rightarrow> \<exists>s'. try_pop s = (Some e, s') \<and> ring_ok s' \<and> queue_items s' = rest"
proof -
  obtain item s' where pop: "try_pop_item s = (item, s')" by force
  show ?thesis
  proof (cases "queue_items s")
    case Nil
    then have "ss_size s = 0" by simp
    then show ?thesis using Nil by (simp add: try_pop_def try_pop_item_def del: queue_items_Nil)
  next
    case (Cons x rest)
    then show ?thesis
      using try_pop_item_items [OF assms pop] pop
      by (cases x) (simp_all add: try_pop_def del: queue_items_Nil)
  qed
qed

lemma drain_queue_items:
  assumes "ring_ok s"
  shows "snd (drain_queue s m) = fold observe_window (events_of (takeWhile (\<lambda>x. \<not> is_gap x) (queue_items s))) m \<and>
    queue_items (fst (drain_queue s m)) = tl (dropWhile (\<lambda>x. \<not> is_gap x) (queue_items s)) \<and>
    ring_ok (fst (drain_queue s m))"
  using assms
proof (induction s m rule: drain_queue.induct)
  case (1 s m)
  show ?case
  proof (cases "queue_items s")
    case Nil
    then show ?thesis
      using try_pop_cases [OF 1(2)] 1(2) by (subst (1 2 3) drain_queue.simps) (simp del: queue_items_Nil)
  next
    case (Cons x rest)
    show ?thesis
    proof (cases x)
      case (EventItem e)
      then obtain s' where s': "try_pop s = (Some e, s')" "ring_ok s'" "queue_items s' = rest"
        using try_pop_cases [OF 1(2)] Cons by auto
      then show ?thesis
        using 1(1) [OF s'(1) [symmetric] refl s'(2)] Cons EventItem
        by (subst (1 2 3) drain_queue.simps) (simp del: queue_items_Nil)
    next
      case (GapItem c q)
      then obtain s' where "try_pop s = (None, s')" "ring_ok s'" "queue_items s' = rest"
        using try_pop_cases [OF 1(2)] Cons by auto
      then show ?thesis
        using Cons GapItem by (subst (1 2 3) drain_queue.simps) (simp del: queue_items_Nil)
    qed
  qed
qed

text \<open>
  A replay answers from the events the provider has drained, and the drain ends at the first gap. The manager
  observes the queued events in order up to the first gap marker of the queue; the marker is taken, and what lies
  behind it stays queued. With no gap in the queue the drain takes everything, and the events returned are those of all
  the windows open after it.
\<close>

theorem drain_ends_at_gap:
  assumes "sn_subscription p = Some h" and "h_state h = Some a" and "a < length (bus_store b)" and "ring_ok (bus_store b ! a)"
    and "provide_windows now p b = (events, p', b')"
  shows "sn_manager p' =
      fold observe_window (events_of (takeWhile (\<lambda>x. \<not> is_gap x) (queue_items (bus_store b ! a)))) (sn_manager p) \<and>
    queue_items (bus_store b' ! a) = tl (dropWhile (\<lambda>x. \<not> is_gap x) (queue_items (bus_store b ! a))) \<and>
    events = open_window_events now (sn_manager p')"
proof -
  obtain s m where "drain_queue (bus_store b ! a) (sn_manager p) = (s, m)" by force
  with drain_queue_items [OF assms(4), of "sn_manager p"] assms show ?thesis
    by (auto simp: provide_windows_def drain_locked_def update_state_def simp del: queue_items_Nil)
qed

text \<open>A queue of three places whose middle one is a gap.\<close>

definition gap_subscription :: subscription_state where
  "gap_subscription = (new_subscription nil_uuid \<lparr>sc_kinds = [], sc_filter = window_filter\<rparr> \<lparr>qo_capacity = 3, qo_overflow = CoalescePolicy\<rparr>)
     \<lparr>ss_buffer := [EventItem (window_event WindowCreated ''ed'' 4 ''a''), GapItem QueueGap 0,
        EventItem (window_event WindowCreated ''sh'' 5 ''b'')], ss_size := 3\<rparr>"

definition gap_bus :: "nat bus_state" where
  "gap_bus = (new_bus 1)\<lparr>bus_store := [gap_subscription]\<rparr>"

definition gap_provider :: snapshot_provider where
  "gap_provider = \<lparr>sn_manager = new_state_manager, sn_subscription = Some (handle_of 0 gap_bus)\<rparr>"

theorem drain_ends_at_gap_witness:
  "map wn_app (sm_open_windows (sn_manager (fst (snd (provide_windows 0 gap_provider gap_bus))))) = [''ed''] \<and>
   length (queue_items (bus_store (snd (snd (provide_windows 0 gap_provider gap_bus))) ! 0)) = 1"
proof -
  have "queue_items gap_subscription = [EventItem (window_event WindowCreated ''ed'' 4 ''a''), GapItem QueueGap 0,
      EventItem (window_event WindowCreated ''sh'' 5 ''b'')]"
    by code_simp
  moreover have "ring_ok gap_subscription"
    by code_simp
  moreover have "bus_store gap_bus = [gap_subscription]" and "sn_manager gap_provider = new_state_manager"
    by (simp_all add: gap_bus_def gap_provider_def)
  moreover have "sn_subscription gap_provider = Some (handle_of 0 gap_bus)" and "h_state (handle_of 0 gap_bus) = Some 0"
    by (simp_all add: gap_provider_def gap_bus_def)
  moreover obtain events p b where "provide_windows 0 gap_provider gap_bus = (events, p, b)"
    using prod_cases3 by blast
  ultimately show ?thesis
    using drain_ends_at_gap [of gap_provider "handle_of 0 gap_bus" 0 gap_bus 0 events p b]
    by (simp add: observe_window_def window_event_def new_state_manager_def make_record_def del: length_queue_items queue_items_Nil)
qed

end
