(* ===== verification/Commands.thy ===== *)
theory Commands
  imports Events
begin

text \<open>
  \<open>include/grab/sequence_types.hpp\<close>, \<open>include/grab/command_descriptor.hpp\<close>, \<open>include/grab/command.hpp\<close>, and the
  data of \<open>drag.hpp\<close>, \<open>curve.hpp\<close> and \<open>overlay.hpp\<close> that commands carry: the identity of a step, the states of a run,
  the table of commands, and the step of a document. Durations are whole numbers of the unit the source names; a
  \<open>float\<close> or \<open>double\<close> is its bit pattern.

  Shown: an index and a generation are read back from the identity they make, and the table has one row for every
  command, whose name and kind determine each other.
\<close>

section \<open>The identity of a step\<close>

type_synonym step_id = u32

definition max_steps :: nat where
  "max_steps = 65536"

definition lane_shift :: nat where
  "lane_shift = 16"

definition index_mask :: u32 where
  "index_mask = 0x0000FFFF"

definition first_generation :: u16 where
  "first_generation = 1"

definition make_step_id :: "u16 \<Rightarrow> u16 \<Rightarrow> step_id" where
  "make_step_id index generation = push_bit lane_shift (ucast generation) OR ucast index"

definition nil_step :: step_id where
  "nil_step = 0"

definition step_index :: "step_id \<Rightarrow> u16" where
  "step_index i = ucast (i AND index_mask)"

definition step_generation :: "step_id \<Rightarrow> u16" where
  "step_generation i = ucast (drop_bit lane_shift i)"

definition step_is_nil :: "step_id \<Rightarrow> bool" where
  "step_is_nil i \<longleftrightarrow> i = 0"

section \<open>The states of a run\<close>

datatype status = StatusRunning | StatusSuccess | StatusFailure | StatusCount

datatype play_state = PlayIdle | PlayPlaying | PlayPaused | PlayInterrupted | PlayDone | PlayStateCount

datatype step_status = StepPending | StepReady | StepRunning | StepSucceeded | StepFailed | StepSkipped | StepStatusCount

datatype timing_class = Instant | Timed | Opaque | TimingClassCount

datatype pacing_mode = Strict | Grace | Precise | PacingModeCount

record pacing_options =
  pc_mode :: pacing_mode
  pc_grace :: int

record step_timing =
  tm_declared :: "int option"
  tm_call_duration :: int
  tm_server_observed :: "int option"

datatype neutralization_outcome = NotAttempted | NothingHeld | HoldsReleased | ReleaseFailed

definition status_names :: "status enum_table" where
  "status_names = [(StatusRunning, ''running''), (StatusSuccess, ''success''), (StatusFailure, ''failure'')]"

definition play_state_names :: "play_state enum_table" where
  "play_state_names = [(PlayIdle, ''idle''), (PlayPlaying, ''playing''), (PlayPaused, ''paused''),
     (PlayInterrupted, ''interrupted''), (PlayDone, ''done'')]"

definition step_status_names :: "step_status enum_table" where
  "step_status_names = [(StepPending, ''pending''), (StepReady, ''ready''), (StepRunning, ''running''),
     (StepSucceeded, ''succeeded''), (StepFailed, ''failed''), (StepSkipped, ''skipped'')]"

definition timing_class_names :: "timing_class enum_table" where
  "timing_class_names = [(Instant, ''instant''), (Timed, ''timed''), (Opaque, ''opaque'')]"

definition pacing_mode_names :: "pacing_mode enum_table" where
  "pacing_mode_names = [(Strict, ''strict''), (Grace, ''grace''), (Precise, ''precise'')]"

definition pacing_mode_name :: "pacing_mode \<Rightarrow> string" where
  "pacing_mode_name v = text_of pacing_mode_names v []"

definition pacing_mode_from_name :: "string \<Rightarrow> pacing_mode option" where
  "pacing_mode_from_name t = value_of pacing_mode_names t"

section \<open>The table of commands\<close>

datatype command_kind =
    KindDoctor | KindDaemon | KindType | KindClick | KindDrag | KindDragCurve | KindCapture | KindWindows |
    KindFocus | KindPlace | KindBatch | KindCompare | KindWatch | KindKey | KindSession | KindOverlayTrail |
    KindOverlayShape | KindOverlayFeedback | KindOverlaySketch | KindMove | KindWarp | KindFollow | KindPress |
    KindRelease | KindScroll | KindClickAt | KindKeyDown | KindKeyUp | KindWait | KindPlay | KindOverlayAdd |
    KindOverlayUpdate | KindOverlayRemove | KindOverlayClear | KindOverlayGrab | KindOverlayRelease |
    KindOverlayAttach | KindOverlayDetach | KindCount

datatype mutability = ReadOnly | Mutating | MutabilityCount

record command_descriptor =
  cd_name :: string
  cd_kind :: command_kind
  cd_retry :: retry_class
  cd_mutability :: mutability
  cd_idempotent :: bool
  cd_consent_gated :: bool
  cd_timing :: timing_class
  cd_blocking :: bool

definition command_descriptor ::
  "string \<Rightarrow> command_kind \<Rightarrow> retry_class \<Rightarrow> mutability \<Rightarrow> bool \<Rightarrow> bool \<Rightarrow> timing_class \<Rightarrow> bool \<Rightarrow> command_descriptor" where
  "command_descriptor name kind retry mutability idempotent consent_gated timing blocking =
     \<lparr>cd_name = name, cd_kind = kind, cd_retry = retry, cd_mutability = mutability, cd_idempotent = idempotent,
      cd_consent_gated = consent_gated, cd_timing = timing, cd_blocking = blocking\<rparr>"

definition command_descriptors :: "command_descriptor list" where
  "command_descriptors =
     [command_descriptor ''system.doctor'' KindDoctor Idempotent ReadOnly True False Opaque True,
      command_descriptor ''service.daemon'' KindDaemon Never Mutating False False Opaque False,
      command_descriptor ''input.type'' KindType Never Mutating False True Instant False,
      command_descriptor ''input.click'' KindClick Never Mutating False True Instant False,
      command_descriptor ''input.drag'' KindDrag Never Mutating False True Timed False,
      command_descriptor ''input.drag_curve'' KindDragCurve Never Mutating False True Timed False,
      command_descriptor ''screen.capture'' KindCapture Idempotent ReadOnly True True Opaque True,
      command_descriptor ''screen.windows'' KindWindows Idempotent ReadOnly True True Opaque True,
      command_descriptor ''window.focus'' KindFocus Idempotent Mutating True True Opaque False,
      command_descriptor ''window.place'' KindPlace Idempotent Mutating True True Opaque False,
      command_descriptor ''screen.batch'' KindBatch Idempotent ReadOnly True True Opaque True,
      command_descriptor ''image.compare'' KindCompare Idempotent ReadOnly True False Opaque True,
      command_descriptor ''screen.watch'' KindWatch Idempotent ReadOnly True True Opaque False,
      command_descriptor ''input.key'' KindKey Never Mutating False True Instant False,
      command_descriptor ''session.open'' KindSession Never Mutating False True Opaque False,
      command_descriptor ''overlay.trail'' KindOverlayTrail ResolveOnly Mutating False False Instant False,
      command_descriptor ''overlay.shape'' KindOverlayShape ResolveOnly Mutating False False Instant False,
      command_descriptor ''overlay.feedback'' KindOverlayFeedback ResolveOnly Mutating False False Instant False,
      command_descriptor ''overlay.sketch'' KindOverlaySketch ResolveOnly Mutating False False Instant False,
      command_descriptor ''input.move'' KindMove Never Mutating False True Timed False,
      command_descriptor ''input.warp'' KindWarp Never Mutating False True Instant False,
      command_descriptor ''input.follow'' KindFollow Never Mutating False True Timed False,
      command_descriptor ''input.press'' KindPress Never Mutating False True Instant False,
      command_descriptor ''input.release'' KindRelease Never Mutating False True Instant False,
      command_descriptor ''input.scroll'' KindScroll Never Mutating False True Instant False,
      command_descriptor ''input.click_at'' KindClickAt Never Mutating False True Instant False,
      command_descriptor ''input.key_down'' KindKeyDown Never Mutating False True Instant False,
      command_descriptor ''input.key_up'' KindKeyUp Never Mutating False True Instant False,
      command_descriptor ''time.wait'' KindWait Idempotent ReadOnly True False Timed False,
      command_descriptor ''system.play'' KindPlay Never Mutating False True Opaque False,
      command_descriptor ''overlay.add'' KindOverlayAdd Never Mutating False False Instant False,
      command_descriptor ''overlay.update'' KindOverlayUpdate Never Mutating False False Instant False,
      command_descriptor ''overlay.remove'' KindOverlayRemove Idempotent Mutating True False Instant False,
      command_descriptor ''overlay.clear'' KindOverlayClear Idempotent Mutating True False Instant False,
      command_descriptor ''overlay.grab'' KindOverlayGrab Never Mutating False False Instant False,
      command_descriptor ''overlay.release'' KindOverlayRelease Idempotent Mutating True False Instant False,
      command_descriptor ''overlay.attach'' KindOverlayAttach Never Mutating False False Instant False,
      command_descriptor ''overlay.detach'' KindOverlayDetach Idempotent Mutating True False Instant False]"

definition find_command :: "command_kind \<Rightarrow> command_descriptor option" where
  "find_command kind = List.find (\<lambda>d. cd_kind d = kind) command_descriptors"

definition command_name :: "command_kind \<Rightarrow> string" where
  "command_name kind = (case find_command kind of None \<Rightarrow> [] | Some d \<Rightarrow> cd_name d)"

definition kind_named :: "string \<Rightarrow> command_kind option" where
  "kind_named name = map_option cd_kind (List.find (\<lambda>d. cd_name d = name) command_descriptors)"

definition command_names_are_unique :: bool where
  "command_names_are_unique \<longleftrightarrow>
     list_all (\<lambda>d. length (filter (\<lambda>d'. cd_name d' = cd_name d) command_descriptors) = 1) command_descriptors"

definition command_names_round_trip :: bool where
  "command_names_round_trip \<longleftrightarrow>
     list_all (\<lambda>d. kind_named (cd_name d) = Some (cd_kind d) \<and> command_name (cd_kind d) = cd_name d) command_descriptors"

definition timing_class_of :: "command_kind \<Rightarrow> timing_class" where
  "timing_class_of kind = (case find_command kind of None \<Rightarrow> Opaque | Some d \<Rightarrow> cd_timing d)"

definition is_blocking_command :: "command_kind \<Rightarrow> bool" where
  "is_blocking_command kind = (case find_command kind of None \<Rightarrow> False | Some d \<Rightarrow> cd_blocking d)"

section \<open>What commands carry\<close>

record point =
  pt_x :: int
  pt_y :: int

record point_f =
  pf_x :: f64
  pf_y :: f64

type_synonym curve = "point_f list"

datatype drag_path = LinearPath | CubicPath

record drag_options =
  dr_interpolation_steps :: int
  dr_step_dwell :: int
  dr_path :: drag_path

type_synonym f32 = u32

record color =
  col_r :: u8
  col_g :: u8
  col_b :: u8
  col_a :: u8

record stroke_style =
  stroke_color :: color
  stroke_width_px :: f32

datatype lifetime_policy = Persistent | Ttl int | Fade int

datatype easing = LinearEasing | InQuad | OutQuad | InOutQuad | InCubic | OutCubic | InOutCubic

datatype axis = AxisX | AxisY

datatype axis_edge = EdgeMin | EdgeMax

record channel =
  ch_easing :: easing
  ch_duration :: int

record scale_channel = channel +
  ch_from :: f64
  ch_to :: f64

record translate_channel = channel +
  ch_dx :: f64
  ch_dy :: f64

record reveal_channel = channel +
  rv_axis :: axis
  rv_from_edge :: axis_edge
  rv_from :: f64
  rv_to :: f64

record animation_spec =
  an_scale :: "scale_channel option"
  an_opacity :: "scale_channel option"
  an_translate :: "translate_channel option"
  an_reveal :: "reveal_channel option"

datatype band = Annotation | Trail

datatype path_command = MoveTo space_point | LineTo space_point | BezierTo "space_point list" | ClosePath

datatype geometry =
    PathGeometry "path_command list" bool
  | RectGeometry space_rect
  | EllipseGeometry space_point f64 f64
  | PolygonGeometry "space_point list"

record shape =
  sh_geometry :: geometry
  sh_stroke :: "stroke_style option"
  sh_fill :: "color option"
  sh_lifetime :: lifetime_policy
  sh_band :: band
  sh_z :: int
  sh_animation :: "animation_spec option"

section \<open>Commands and steps\<close>

datatype command =
    TypeCommand string
  | KeyCommand string
  | KeyDownCommand string
  | KeyUpCommand string
  | ClickCommand u8
  | ClickAtCommand point u8
  | PressCommand u8
  | ReleaseCommand u8
  | ScrollCommand int int
  | WarpCommand point
  | MoveCommand "point option" point drag_options
  | FollowCommand curve drag_options
  | DragCommand point point u8 drag_options
  | CaptureCommand string string
  | WaitCommand int
  | OverlayAddCommand string shape
  | OverlayUpdateCommand string shape
  | OverlayRemoveCommand string
  | OverlayClearCommand
  | OverlayGrabCommand
  | OverlayReleaseCommand
  | OverlayAttachCommand string "point option"
  | OverlayDetachCommand string

fun kind_of :: "command \<Rightarrow> command_kind" where
  "kind_of (TypeCommand a) = KindType"
| "kind_of (KeyCommand a) = KindKey"
| "kind_of (KeyDownCommand a) = KindKeyDown"
| "kind_of (KeyUpCommand a) = KindKeyUp"
| "kind_of (ClickCommand a) = KindClick"
| "kind_of (ClickAtCommand a b) = KindClickAt"
| "kind_of (PressCommand a) = KindPress"
| "kind_of (ReleaseCommand a) = KindRelease"
| "kind_of (ScrollCommand a b) = KindScroll"
| "kind_of (WarpCommand a) = KindWarp"
| "kind_of (MoveCommand a b c) = KindMove"
| "kind_of (FollowCommand a b) = KindFollow"
| "kind_of (DragCommand a b c d) = KindDrag"
| "kind_of (CaptureCommand a b) = KindCapture"
| "kind_of (WaitCommand a) = KindWait"
| "kind_of (OverlayAddCommand a b) = KindOverlayAdd"
| "kind_of (OverlayUpdateCommand a b) = KindOverlayUpdate"
| "kind_of (OverlayRemoveCommand a) = KindOverlayRemove"
| "kind_of (OverlayClearCommand) = KindOverlayClear"
| "kind_of (OverlayGrabCommand) = KindOverlayGrab"
| "kind_of (OverlayReleaseCommand) = KindOverlayRelease"
| "kind_of (OverlayAttachCommand a b) = KindOverlayAttach"
| "kind_of (OverlayDetachCommand a) = KindOverlayDetach"

fun is_sequence_command :: "command_kind \<Rightarrow> bool" where
  "is_sequence_command KindType = True"
| "is_sequence_command KindKey = True"
| "is_sequence_command KindKeyDown = True"
| "is_sequence_command KindKeyUp = True"
| "is_sequence_command KindClick = True"
| "is_sequence_command KindClickAt = True"
| "is_sequence_command KindPress = True"
| "is_sequence_command KindRelease = True"
| "is_sequence_command KindScroll = True"
| "is_sequence_command KindWarp = True"
| "is_sequence_command KindMove = True"
| "is_sequence_command KindFollow = True"
| "is_sequence_command KindDrag = True"
| "is_sequence_command KindCapture = True"
| "is_sequence_command KindWait = True"
| "is_sequence_command KindOverlayAdd = True"
| "is_sequence_command KindOverlayUpdate = True"
| "is_sequence_command KindOverlayRemove = True"
| "is_sequence_command KindOverlayClear = True"
| "is_sequence_command KindOverlayGrab = True"
| "is_sequence_command KindOverlayRelease = True"
| "is_sequence_command KindOverlayAttach = True"
| "is_sequence_command KindOverlayDetach = True"
| "is_sequence_command KindDoctor = False"
| "is_sequence_command KindDaemon = False"
| "is_sequence_command KindDragCurve = False"
| "is_sequence_command KindWindows = False"
| "is_sequence_command KindFocus = False"
| "is_sequence_command KindPlace = False"
| "is_sequence_command KindBatch = False"
| "is_sequence_command KindCompare = False"
| "is_sequence_command KindWatch = False"
| "is_sequence_command KindSession = False"
| "is_sequence_command KindOverlayTrail = False"
| "is_sequence_command KindOverlayShape = False"
| "is_sequence_command KindOverlayFeedback = False"
| "is_sequence_command KindOverlaySketch = False"
| "is_sequence_command KindPlay = False"
| "is_sequence_command KindCount = False"

datatype error_policy = Abort | Continue | Goto | ErrorPolicyCount

definition error_policy_names :: "error_policy enum_table" where
  "error_policy_names = [(Abort, ''abort''), (Continue, ''continue''), (Goto, ''goto'')]"

definition error_policy_from_name :: "string \<Rightarrow> error_policy option" where
  "error_policy_from_name t = value_of error_policy_names t"

record step =
  st_id :: step_id
  st_label :: string
  st_command :: command
  st_after :: "step_id list"
  st_on_error :: error_policy
  st_on_error_target :: string
  st_extra_grace :: int

section \<open>Identities read back\<close>

lemma index_mask_mask: "index_mask = mask 16"
  by (simp add: index_mask_def mask_eq_exp_minus_1)

lemma step_index_make [simp]: "step_index (make_step_id index generation) = index"
  by (rule bit_word_eqI)
    (auto simp: step_index_def make_step_id_def index_mask_mask lane_shift_def bit_simps)

lemma step_generation_make [simp]: "step_generation (make_step_id index generation) = generation"
  by (rule bit_word_eqI) (auto simp: step_generation_def make_step_id_def lane_shift_def bit_simps dest: bit_imp_le_length)

lemma make_step_id_parts: "make_step_id (step_index i) (step_generation i) = i"
  by (rule bit_word_eqI)
    (auto simp: step_index_def step_generation_def make_step_id_def index_mask_mask lane_shift_def bit_simps)

lemma make_step_id_eq [simp]: "make_step_id i g = make_step_id j h \<longleftrightarrow> i = j \<and> g = h"
  by (metis step_index_make step_generation_make)

lemma make_step_id_not_nil [simp]: "make_step_id i first_generation \<noteq> 0"
proof
  assume "make_step_id i first_generation = 0"
  then have "step_generation 0 = first_generation" by (metis step_generation_make)
  then show False by (simp add: step_generation_def first_generation_def)
qed

text \<open>
  The table has a row for every kind but the count, names and kinds determine each other, a command is marked
  idempotent exactly when its retry class is, and the kinds a step may have are those of the commands.
\<close>

lemma command_table_total: "kind \<noteq> KindCount \<Longrightarrow> \<exists>d. find_command kind = Some d \<and> cd_kind d = kind"
  by (cases kind) (simp_all add: find_command_def command_descriptors_def command_descriptor_def)

lemma command_table_consistent:
  "command_names_are_unique \<and> command_names_round_trip \<and>
   list_all (\<lambda>d. cd_idempotent d \<longleftrightarrow> cd_retry d = Idempotent) command_descriptors"
  by code_simp

lemma sequence_commands_exact: "is_sequence_command kind \<longleftrightarrow> (\<exists>c. kind_of c = kind)"
proof
  show "\<exists>c. kind_of c = kind" if "is_sequence_command kind"
    using that by (cases kind) (simp_all, (meson kind_of.simps)+)
  show "is_sequence_command kind" if "\<exists>c. kind_of c = kind"
  proof -
    from that obtain c where "kind = kind_of c" by blast
    then show ?thesis by (cases c) simp_all
  qed
qed

end
