(* ===== verification/Sequence.thy ===== *)
theory Sequence
  imports Commands Topological_Order
begin

text \<open>
  \<open>src/kernel/sequence/sequence.cpp\<close>: the document half of a sequence. \<open>build\<close> stamps the steps with their
  positions, indexes the labels, builds the dependency graph and caches a topological order; a sequence then only
  answers questions. Timers and log records are left out: they do not change the answer.

  Shown: \<open>build\<close> accepts exactly the documents whose dependencies are well formed and acyclic, what it returns holds
  the steps, the graph, the labels and a linearisation of them, a copy is the sequence again, and \<open>ancestors_of\<close>
  returns the steps that reach a step.
\<close>

section \<open>Building\<close>

type_synonym dependency_graph = "(step_id, unit) adjacency_graph"

record sequence =
  sq_steps :: "step list"
  sq_graph :: dependency_graph
  sq_order :: "step_id list"
  sq_labels :: "string \<rightharpoonup> step_id"
  sq_pacing :: pacing_options
  sq_name :: string

definition default_pacing :: pacing_options where
  "default_pacing = \<lparr>pc_mode = Strict, pc_grace = 0\<rparr>"

definition new_sequence :: sequence where
  "new_sequence = \<lparr>sq_steps = [], sq_graph = empty_graph, sq_order = [], sq_labels = Map.empty,
     sq_pacing = default_pacing, sq_name = []\<rparr>"

definition step_name :: "step \<Rightarrow> string" where
  "step_name s =
     (if st_label s \<noteq> [] then [CHR 0x27] @ st_label s @ [CHR 0x27]
      else ''at index '' @ to_string (unat (step_index (st_id s))))"

definition positional_id :: "nat \<Rightarrow> step_id" where
  "positional_id i = make_step_id (of_nat i) first_generation"

fun stamp_ids :: "nat \<Rightarrow> step list \<Rightarrow> step list" where
  "stamp_ids i [] = []"
| "stamp_ids i (s # ss) = s\<lparr>st_id := positional_id i\<rparr> # stamp_ids (i + 1) ss"

definition add_dependency :: "step_id \<Rightarrow> step_id \<Rightarrow> dependency_graph \<Rightarrow> dependency_graph" where
  "add_dependency s p g = snd (add_edge p s () g)"

definition fill_graph :: "step list \<Rightarrow> dependency_graph \<Rightarrow> dependency_graph" where
  "fill_graph steps g =
     fold (\<lambda>s. fold (add_dependency (st_id s)) (st_after s)) steps
       (fold (\<lambda>s g. snd (add_node (st_id s) g)) steps (graph_clear g))"

definition emplace_label :: "step \<Rightarrow> (string \<rightharpoonup> step_id) \<Rightarrow> (string \<rightharpoonup> step_id)" where
  "emplace_label s labels =
     (if st_label s = [] then labels
      else if labels (st_label s) = None then labels(st_label s \<mapsto> st_id s) else labels)"

definition reindex :: "sequence \<Rightarrow> sequence" where
  "reindex q = q\<lparr>sq_graph := fill_graph (sq_steps q) (sq_graph q), sq_labels := fold emplace_label (sq_steps q) Map.empty\<rparr>"

definition copy_sequence :: "sequence \<Rightarrow> sequence" where
  "copy_sequence other =
     reindex (new_sequence\<lparr>sq_steps := sq_steps other, sq_order := sq_order other, sq_pacing := sq_pacing other, sq_name := sq_name other\<rparr>)"

definition assign_sequence :: "sequence \<Rightarrow> sequence \<Rightarrow> sequence" where
  "assign_sequence q other =
     reindex (q\<lparr>sq_steps := sq_steps other, sq_order := sq_order other, sq_pacing := sq_pacing other, sq_name := sq_name other\<rparr>)"

fun index_labels :: "step list \<Rightarrow> (string \<rightharpoonup> step_id) \<Rightarrow> (string \<rightharpoonup> step_id) result" where
  "index_labels [] labels = Inr labels"
| "index_labels (s # ss) labels =
     (if st_label s = [] then index_labels ss labels
      else if labels (st_label s) \<noteq> None
      then Inl (fail InvalidArgument (''duplicate step label '' @ [CHR 0x27] @ st_label s @ [CHR 0x27]))
      else index_labels ss (labels(st_label s \<mapsto> st_id s)))"

fun add_dependencies :: "step \<Rightarrow> step_id list \<Rightarrow> dependency_graph \<Rightarrow> dependency_graph result" where
  "add_dependencies s [] g = Inr g"
| "add_dependencies s (p # ps) g =
     (if \<not> contains_node g p
      then Inl (fail InvalidArgument (''step '' @ step_name s @ '' depends on step index '' @
             to_string (unat (step_index p)) @ '', which does not exist''))
      else if p = st_id s then Inl (fail InvalidArgument (''step '' @ step_name s @ '' depends on itself''))
      else case add_edge p (st_id s) () g of
             (False, g) \<Rightarrow> Inl (fail InvalidArgument (''step '' @ step_name s @ '' lists step index '' @
                             to_string (unat (step_index p)) @ '' as a dependency twice''))
           | (True, g) \<Rightarrow> add_dependencies s ps g)"

fun add_all_dependencies :: "step list \<Rightarrow> dependency_graph \<Rightarrow> dependency_graph result" where
  "add_all_dependencies [] g = Inr g"
| "add_all_dependencies (s # ss) g =
     (case add_dependencies s (st_after s) g of Inl e \<Rightarrow> Inl e | Inr g \<Rightarrow> add_all_dependencies ss g)"

definition exceeds_max_steps :: "nat \<Rightarrow> bool" where
  "exceeds_max_steps n \<longleftrightarrow> n > max_steps"

lemma exceeds_max_steps_code [code]: "exceeds_max_steps n \<longleftrightarrow> int n > 65536"
  by (simp add: exceeds_max_steps_def max_steps_def)

definition build :: "step list \<Rightarrow> pacing_options \<Rightarrow> string \<Rightarrow> sequence result" where
  "build steps pacing name =
     (if exceeds_max_steps (length steps)
      then Inl (fail InvalidArgument (''sequence has '' @ to_string (length steps) @ '' steps; the maximum is '' @ to_string max_steps))
      else let steps = stamp_ids 0 steps in
        case index_labels steps Map.empty of
          Inl e \<Rightarrow> Inl e
        | Inr labels \<Rightarrow>
            (case add_all_dependencies steps (fold (\<lambda>s g. snd (add_node (st_id s) g)) steps empty_graph) of
               Inl e \<Rightarrow> Inl e
             | Inr g \<Rightarrow>
                 (case topological_order g of
                    None \<Rightarrow> Inl (fail InvalidArgument ''sequence has a dependency cycle'')
                  | Some order \<Rightarrow>
                      Inr \<lparr>sq_steps = steps, sq_graph = g, sq_order = order, sq_labels = labels, sq_pacing = pacing, sq_name = name\<rparr>)))"

section \<open>Questions\<close>

definition find_step :: "sequence \<Rightarrow> step_id \<Rightarrow> step option" where
  "find_step q i =
     (let index = unat (step_index i)
      in if step_is_nil i \<or> index \<ge> length (sq_steps q) then None
         else let s = sq_steps q ! index in if st_id s \<noteq> i then None else Some s)"

definition resolve_label :: "sequence \<Rightarrow> string \<Rightarrow> step_id option" where
  "resolve_label q label = sq_labels q label"

text \<open>The two loops of \<open>ancestors_of\<close>: the edges into a node, and the cursor over the nodes found so far.\<close>

fun ancestor_edges ::
  "(step_id, unit) edge_list \<Rightarrow> bool list \<Rightarrow> step_id list \<Rightarrow> step_id list \<Rightarrow> bool list \<times> step_id list \<times> step_id list" where
  "ancestor_edges [] seen found waiting = (seen, found, waiting)"
| "ancestor_edges (e # es) seen found waiting =
     (let index = unat (step_index (target e))
      in if index \<ge> length seen \<or> seen ! index then ancestor_edges es seen found waiting
         else ancestor_edges es (seen[index := True]) (found @ [target e]) (waiting @ [target e]))"

definition unseen :: "bool list \<Rightarrow> nat" where
  "unseen seen = length (filter Not seen)"

lemma unseen_update: "i < length seen \<Longrightarrow> \<not> seen ! i \<Longrightarrow> Suc (unseen (seen[i := True])) = unseen seen"
  unfolding unseen_def by (induction seen arbitrary: i) (auto split: nat.split simp: nth_Cons)

lemma ancestor_edges_measure:
  "ancestor_edges es seen found waiting = (seen', found', waiting') \<Longrightarrow>
   unseen seen' + length waiting' = unseen seen + length waiting \<and> length waiting \<le> length waiting'"
proof (induction es arbitrary: seen found waiting)
  case Nil
  then show ?case by simp
next
  case (Cons e es)
  let ?i = "unat (step_index (target e))"
  show ?case
  proof (cases "?i \<ge> length seen \<or> seen ! ?i")
    case True
    with Cons show ?thesis by (simp add: Let_def)
  next
    case False
    then have "ancestor_edges es (seen[?i := True]) (found @ [target e]) (waiting @ [target e]) = (seen', found', waiting')"
      using Cons.prems by (simp add: Let_def)
    from Cons.IH [OF this] unseen_update [of ?i seen] False show ?thesis by simp
  qed
qed

function ancestors_loop :: "dependency_graph \<Rightarrow> bool list \<Rightarrow> step_id list \<Rightarrow> step_id list \<Rightarrow> nat \<Rightarrow> step_id list" where
  "ancestors_loop g seen found waiting cursor =
     (if cursor \<ge> length waiting then found
      else case ancestor_edges (in_edges g (waiting ! cursor)) seen found waiting of
             (seen, found, waiting) \<Rightarrow> ancestors_loop g seen found waiting (cursor + 1))"
  by pat_completeness auto
termination
  by (relation "measure (\<lambda>(g, seen, found, waiting, cursor). unseen seen + (length waiting - cursor))")
    (auto dest!: ancestor_edges_measure [OF sym])

declare ancestors_loop.simps [simp del]

definition ancestors_of :: "sequence \<Rightarrow> step_id \<Rightarrow> step_id list" where
  "ancestors_of q i =
     (if \<not> contains_node (sq_graph q) i then []
      else sort (ancestors_loop (sq_graph q) (replicate (length (sq_steps q)) False) [] [i] 0))"

section \<open>What build accepts\<close>

text \<open>The dependencies of a document as a relation, and the conditions on a document whose steps are stamped.\<close>

definition depends :: "step list \<Rightarrow> (step_id \<times> step_id) set" where
  "depends steps = {(p, st_id s) | s p. s \<in> set steps \<and> p \<in> set (st_after s)}"

definition step_labels :: "step list \<Rightarrow> string list" where
  "step_labels steps = filter (\<lambda>l. l \<noteq> []) (map st_label steps)"

definition document_ok :: "step list \<Rightarrow> bool" where
  "document_ok steps \<longleftrightarrow> distinct (step_labels steps) \<and>
     (\<forall>s\<in>set steps. set (st_after s) \<subseteq> st_id ` set steps \<and> distinct (st_after s)) \<and> acyclic (depends steps)"

lemma length_stamp_ids [simp]: "length (stamp_ids k ss) = length ss"
  by (induction ss arbitrary: k) simp_all

lemma stamp_ids_nth: "i < length ss \<Longrightarrow> stamp_ids k ss ! i = (ss ! i)\<lparr>st_id := positional_id (k + i)\<rparr>"
  by (induction ss arbitrary: k i) (auto simp: nth_Cons split: nat.split)

lemma positional_id_index: "i < max_steps \<Longrightarrow> unat (step_index (positional_id i)) = i"
  by (simp add: positional_id_def unat_of_nat max_steps_def)

lemma positional_id_eq: "i < max_steps \<Longrightarrow> j < max_steps \<Longrightarrow> positional_id i = positional_id j \<longleftrightarrow> i = j"
  by (metis positional_id_index)

lemma positional_id_not_nil [simp]: "positional_id i \<noteq> 0"
  by (simp add: positional_id_def)

definition positional :: "step list \<Rightarrow> bool" where
  "positional steps \<longleftrightarrow> length steps \<le> max_steps \<and> (\<forall>i<length steps. st_id (steps ! i) = positional_id i)"

lemma stamped_positional: "length ss \<le> max_steps \<Longrightarrow> positional (stamp_ids 0 ss)"
  by (simp add: positional_def stamp_ids_nth)

lemma stamp_positional: "positional ss \<Longrightarrow> stamp_ids 0 ss = ss"
  by (rule nth_equalityI) (simp_all add: positional_def stamp_ids_nth)

lemma positional_distinct: "positional steps \<Longrightarrow> distinct (map st_id steps)"
  by (auto simp: positional_def distinct_conv_nth positional_id_eq)

lemma positional_index:
  assumes "positional steps" and "s \<in> set steps"
  shows "unat (step_index (st_id s)) < length steps" and "steps ! unat (step_index (st_id s)) = s" and "st_id s \<noteq> 0"
proof -
  from assms(2) obtain i where "i < length steps" and "steps ! i = s" by (metis in_set_conv_nth)
  with assms(1) show "unat (step_index (st_id s)) < length steps" and "steps ! unat (step_index (st_id s)) = s" and "st_id s \<noteq> 0"
    by (auto simp: positional_def positional_id_index)
qed

subsection \<open>Labels\<close>

lemma index_labels_iff:
  "index_labels ss L = Inr L' \<longleftrightarrow>
   distinct (step_labels ss) \<and> set (step_labels ss) \<inter> dom L = {} \<and> L' = fold emplace_label ss L"
  by (induction ss arbitrary: L) (auto simp: step_labels_def emplace_label_def)

lemma emplaced_label:
  "fold emplace_label ss L l =
     (case L l of Some i \<Rightarrow> Some i
      | None \<Rightarrow> if l = [] then None else map_option st_id (List.find (\<lambda>s. st_label s = l) ss))"
  by (induction ss arbitrary: L) (auto simp: emplace_label_def split: option.splits)

lemma resolved_label:
  assumes "distinct (step_labels ss)"
  shows "fold emplace_label ss Map.empty l = Some i \<longleftrightarrow> l \<noteq> [] \<and> (\<exists>s\<in>set ss. st_label s = l \<and> st_id s = i)"
proof -
  have found: "List.find (\<lambda>s. st_label s = l) ss = Some s \<longleftrightarrow> s \<in> set ss \<and> st_label s = l" if "l \<noteq> []" for s
    using that assms by (induction ss) (auto simp: step_labels_def split: if_splits)
  show ?thesis
  proof (cases "l = []")
    case True
    then show ?thesis by (simp add: emplaced_label)
  next
    case False
    then have "fold emplace_label ss Map.empty l = Some i \<longleftrightarrow> (\<exists>s. List.find (\<lambda>s. st_label s = l) ss = Some s \<and> st_id s = i)"
      by (simp add: emplaced_label)
    with False show ?thesis by (auto simp: found)
  qed
qed

subsection \<open>The graph\<close>

lemma add_nodes:
  assumes "graph_wf g"
  shows "graph_wf (fold (\<lambda>s g. snd (add_node (st_id s) g)) ss g) \<and>
    (\<forall>n. contains_node (fold (\<lambda>s g. snd (add_node (st_id s) g)) ss g) n \<longleftrightarrow> n \<in> st_id ` set ss \<or> contains_node g n) \<and>
    (\<forall>a b. contains_edge (fold (\<lambda>s g. snd (add_node (st_id s) g)) ss g) a b \<longleftrightarrow> contains_edge g a b)"
  using assms
proof (induction ss arbitrary: g)
  case (Cons s ss)
  have "contains_node (snd (add_node (st_id s) g)) n \<longleftrightarrow> n = st_id s \<or> contains_node g n" for n
    by (auto simp: add_node_def contains_node_def map_model)
  moreover have "contains_edge (snd (add_node (st_id s) g)) a b \<longleftrightarrow> contains_edge g a b" for a b
    by (auto simp: add_node_def contains_edge_look edge_payload_look adj_look_put_empty)
  ultimately show ?case
    using Cons.IH [OF graph_wf_add_node [OF Cons.prems, of "st_id s"]] by auto
qed simp

lemma add_dependency_facts:
  assumes "graph_wf g"
  shows "graph_wf (add_dependency s p g)" and "contains_node (add_dependency s p g) n \<longleftrightarrow> contains_node g n"
    and "p \<noteq> s \<Longrightarrow> contains_node g p \<Longrightarrow> contains_node g s \<Longrightarrow>
      contains_edge (add_dependency s p g) a b \<longleftrightarrow> (a, b) = (p, s) \<or> contains_edge g a b"
proof -
  show "graph_wf (add_dependency s p g)"
    unfolding add_dependency_def using assms by (rule graph_wf_add_edge)
  note abs = abs_add_edge [OF assms, of p s "()", folded add_dependency_def]
  have "vertices (abs_of (add_dependency s p g)) = vertices (abs_of g)"
    using arg_cong [OF abs, of "\<lambda>x. vertices (snd x)"] by (simp split: if_splits)
  then show "contains_node (add_dependency s p g) n \<longleftrightarrow> contains_node g n"
    by (auto simp: abs_of_def set_eq_iff)
  assume "p \<noteq> s" "contains_node g p" "contains_node g s"
  then show "contains_edge (add_dependency s p g) a b \<longleftrightarrow> (a, b) = (p, s) \<or> contains_edge g a b"
    using arg_cong [OF abs, of "\<lambda>x. arcs (snd x) (a, b)"]
    by (auto simp: abs_of_def contains_edge_look split: if_splits)
qed

lemma add_dependencies_Cons:
  assumes "graph_wf g" and "contains_node g (st_id s)"
  shows "add_dependencies s (p # ps) g = Inr g' \<longleftrightarrow>
    contains_node g p \<and> p \<noteq> st_id s \<and> \<not> contains_edge g p (st_id s) \<and>
    add_dependencies s ps (add_dependency (st_id s) p g) = Inr g'"
  using assms by (simp add: add_edge_cases add_dependency_def split: bool.split)

lemma add_dependencies_iff:
  assumes "graph_wf g" and "contains_node g (st_id s)"
  shows "add_dependencies s ps g = Inr g' \<longleftrightarrow>
      (\<forall>p\<in>set ps. contains_node g p \<and> p \<noteq> st_id s \<and> \<not> contains_edge g p (st_id s)) \<and> distinct ps \<and>
      g' = fold (add_dependency (st_id s)) ps g"
  using assms
proof (induction ps arbitrary: g)
  case Nil
  then show ?case by auto
next
  case (Cons p ps)
  show ?case
  proof (cases "contains_node g p \<and> p \<noteq> st_id s \<and> \<not> contains_edge g p (st_id s)")
    case True
    note step = add_dependency_facts [OF Cons.prems(1), where s = "st_id s" and p = p]
    have edge: "contains_edge (add_dependency (st_id s) p g) q (st_id s) \<longleftrightarrow> q = p \<or> contains_edge g q (st_id s)" for q
      using True Cons.prems(2) step(3) by simp
    have "contains_node (add_dependency (st_id s) p g) (st_id s)" using step(2) Cons.prems(2) by simp
    from Cons.IH [OF step(1) this] show ?thesis
      unfolding add_dependencies_Cons [OF Cons.prems] step(2) edge using True by auto
  next
    case False
    then show ?thesis unfolding add_dependencies_Cons [OF Cons.prems] by auto
  qed
qed

lemma fold_add_dependency:
  assumes "graph_wf g" and "contains_node g s" and "\<forall>p\<in>set ps. contains_node g p \<and> p \<noteq> s"
  shows "graph_wf (fold (add_dependency s) ps g)"
    and "contains_node (fold (add_dependency s) ps g) n \<longleftrightarrow> contains_node g n"
    and "contains_edge (fold (add_dependency s) ps g) a b \<longleftrightarrow> b = s \<and> a \<in> set ps \<or> contains_edge g a b"
  using assms by (induction ps arbitrary: g) (auto simp: add_dependency_facts)

definition dependency_step :: "step \<Rightarrow> dependency_graph \<Rightarrow> dependency_graph" where
  "dependency_step s = fold (add_dependency (st_id s)) (st_after s)"

definition predecessors_ok :: "dependency_graph \<Rightarrow> step \<Rightarrow> bool" where
  "predecessors_ok g s \<longleftrightarrow> (\<forall>p\<in>set (st_after s). contains_node g p \<and> p \<noteq> st_id s)"

lemma dependency_step_facts:
  assumes "graph_wf g" and "contains_node g (st_id s)" and "predecessors_ok g s"
  shows "graph_wf (dependency_step s g)" and "contains_node (dependency_step s g) = contains_node g"
    and "contains_edge (dependency_step s g) a b \<longleftrightarrow> b = st_id s \<and> a \<in> set (st_after s) \<or> contains_edge g a b"
  using fold_add_dependency [OF assms(1,2), of "st_after s"] assms(3)
  by (auto simp: dependency_step_def predecessors_ok_def fun_eq_iff)

lemma dependencies_facts:
  assumes "graph_wf g" and "\<forall>s\<in>set ss. contains_node g (st_id s) \<and> predecessors_ok g s"
  shows "graph_wf (fold dependency_step ss g) \<and> contains_node (fold dependency_step ss g) = contains_node g \<and>
    (\<forall>a b. contains_edge (fold dependency_step ss g) a b \<longleftrightarrow> (a, b) \<in> depends ss \<or> contains_edge g a b)"
  using assms
proof (induction ss arbitrary: g)
  case Nil
  then show ?case by (simp add: depends_def)
next
  case (Cons s ss)
  note step = dependency_step_facts [OF Cons.prems(1), of s]
  have ok: "contains_node g (st_id s)" "predecessors_ok g s" using Cons.prems(2) by auto
  have "\<forall>x\<in>set ss. contains_node (dependency_step s g) (st_id x) \<and> predecessors_ok (dependency_step s g) x"
    using Cons.prems(2) step(2) [OF ok] by (simp add: predecessors_ok_def)
  from Cons.IH [OF step(1) [OF ok] this] step(2,3) [OF ok] show ?case
    by (auto simp: depends_def)
qed

lemma all_dependencies_iff:
  assumes "graph_wf g" and "\<forall>s\<in>set ss. contains_node g (st_id s)" and "distinct (map st_id ss)"
    and "\<forall>s\<in>set ss. \<forall>a. \<not> contains_edge g a (st_id s)"
  shows "add_all_dependencies ss g = Inr g' \<longleftrightarrow>
    (\<forall>s\<in>set ss. predecessors_ok g s \<and> distinct (st_after s)) \<and> g' = fold dependency_step ss g"
  using assms
proof (induction ss arbitrary: g)
  case Nil
  then show ?case by auto
next
  case (Cons s ss)
  have node: "contains_node g (st_id s)" using Cons.prems(2) by simp
  have first: "add_dependencies s (st_after s) g = Inr h \<longleftrightarrow>
      predecessors_ok g s \<and> distinct (st_after s) \<and> h = dependency_step s g" for h
    unfolding add_dependencies_iff [OF Cons.prems(1) node] using Cons.prems(4)
    by (auto simp: predecessors_ok_def dependency_step_def)
  have split: "add_all_dependencies (s # ss) g = Inr g' \<longleftrightarrow>
      (\<exists>h. add_dependencies s (st_after s) g = Inr h \<and> add_all_dependencies ss h = Inr g')"
    by (cases "add_dependencies s (st_after s) g") simp_all
  show ?case
  proof (cases "predecessors_ok g s \<and> distinct (st_after s)")
    case True
    note step = dependency_step_facts [OF Cons.prems(1) node]
    have ok: "predecessors_ok g s" using True by simp
    have same: "predecessors_ok (dependency_step s g) x = predecessors_ok g x" for x
      by (simp add: predecessors_ok_def step(2) [OF ok])
    have "add_all_dependencies ss (dependency_step s g) = Inr g' \<longleftrightarrow>
        (\<forall>x\<in>set ss. predecessors_ok (dependency_step s g) x \<and> distinct (st_after x)) \<and> g' = fold dependency_step ss (dependency_step s g)"
      using Cons.prems step [OF ok] by (intro Cons.IH) (auto simp: image_iff)
    then show ?thesis unfolding split first same using True by auto
  next
    case False
    then show ?thesis unfolding split first by auto
  qed
qed

lemma fill_graph_fold: "fill_graph ss g = fold dependency_step ss (fold (\<lambda>s g. snd (add_node (st_id s) g)) ss (graph_clear g))"
  by (simp add: fill_graph_def dependency_step_def [abs_def])

section \<open>Build decides the documents\<close>

text \<open>The graph of a document whose steps are all named.\<close>

definition document_graph :: "step list \<Rightarrow> dependency_graph" where
  "document_graph steps = fill_graph steps empty_graph"

definition nodes_graph :: "step list \<Rightarrow> dependency_graph" where
  "nodes_graph steps = fold (\<lambda>s g. snd (add_node (st_id s) g)) steps empty_graph"

lemma clear_empty: "graph_clear g = empty_graph"
  by (simp add: graph_clear_def empty_graph_def)

lemma nodes_graph_facts:
  "graph_wf (nodes_graph steps)" "contains_node (nodes_graph steps) n \<longleftrightarrow> n \<in> st_id ` set steps" "\<not> contains_edge (nodes_graph steps) a b"
  using add_nodes [OF graph_wf_empty, of steps]
  by (auto simp: nodes_graph_def contains_node_def contains_edge_def empty_graph_def omap_contains_def)

lemma self_dependency: "p \<in> set (st_after s) \<Longrightarrow> s \<in> set steps \<Longrightarrow> acyclic (depends steps) \<Longrightarrow> p \<noteq> st_id s"
  by (auto simp: depends_def acyclic_def)

lemma document_graph_facts:
  assumes "document_ok steps"
  shows "graph_wf (document_graph steps)" "contains_node (document_graph steps) n \<longleftrightarrow> n \<in> st_id ` set steps"
    "contains_edge (document_graph steps) a b \<longleftrightarrow> (a, b) \<in> depends steps"
    "\<forall>s\<in>set steps. predecessors_ok (nodes_graph steps) s"
proof -
  show ok: "\<forall>s\<in>set steps. predecessors_ok (nodes_graph steps) s"
    using assms self_dependency [of _ _ steps] by (auto simp: document_ok_def predecessors_ok_def nodes_graph_facts)
  have "document_graph steps = fold dependency_step steps (nodes_graph steps)"
    by (simp add: document_graph_def fill_graph_fold clear_empty nodes_graph_def)
  then show "graph_wf (document_graph steps)" "contains_node (document_graph steps) n \<longleftrightarrow> n \<in> st_id ` set steps"
    "contains_edge (document_graph steps) a b \<longleftrightarrow> (a, b) \<in> depends steps"
    using dependencies_facts [OF nodes_graph_facts(1), of steps steps] ok by (auto simp: nodes_graph_facts)
qed

definition document_sequence :: "step list \<Rightarrow> pacing_options \<Rightarrow> string \<Rightarrow> sequence" where
  "document_sequence steps pacing name =
     \<lparr>sq_steps = steps, sq_graph = document_graph steps, sq_order = the (topological_order (document_graph steps)),
      sq_labels = fold emplace_label steps Map.empty, sq_pacing = pacing, sq_name = name\<rparr>"

lemma built_graph:
  assumes "positional steps"
  shows "add_all_dependencies steps (nodes_graph steps) = Inr g \<longleftrightarrow>
    (\<forall>s\<in>set steps. predecessors_ok (nodes_graph steps) s \<and> distinct (st_after s)) \<and> g = document_graph steps"
  using all_dependencies_iff [OF nodes_graph_facts(1), of steps steps] positional_distinct [OF assms]
  by (simp add: nodes_graph_facts document_graph_def fill_graph_fold clear_empty flip: nodes_graph_def)

lemma document_ok_alt:
  "document_ok steps \<longleftrightarrow> distinct (step_labels steps) \<and>
     (\<forall>s\<in>set steps. predecessors_ok (nodes_graph steps) s \<and> distinct (st_after s)) \<and> acyclic (edge_rel (document_graph steps))"
proof -
  have "edge_rel (document_graph steps) = depends steps" if "\<forall>s\<in>set steps. predecessors_ok (nodes_graph steps) s"
    using dependencies_facts [OF nodes_graph_facts(1), of steps steps] that
    by (auto simp: edge_rel_def document_graph_def fill_graph_fold clear_empty nodes_graph_facts simp flip: nodes_graph_def)
  moreover have "\<forall>s\<in>set steps. predecessors_ok (nodes_graph steps) s" if "document_ok steps"
    using document_graph_facts(4) [OF that] .
  ultimately show ?thesis
    by (auto simp: document_ok_def predecessors_ok_def nodes_graph_facts)
qed

lemma build_iff:
  "build steps pacing name = Inr q \<longleftrightarrow>
     length steps \<le> max_steps \<and> document_ok (stamp_ids 0 steps) \<and> q = document_sequence (stamp_ids 0 steps) pacing name"
proof (cases "length steps \<le> max_steps")
  case False
  then show ?thesis by (simp add: build_def exceeds_max_steps_def)
next
  case True
  let ?ss = "stamp_ids 0 steps"
  have wf: "graph_wf (document_graph ?ss)" if "\<forall>s\<in>set ?ss. predecessors_ok (nodes_graph ?ss) s"
    using dependencies_facts [OF nodes_graph_facts(1), of ?ss ?ss] that
    by (simp add: document_graph_def fill_graph_fold clear_empty nodes_graph_facts flip: nodes_graph_def)
  have "build steps pacing name = Inr q \<longleftrightarrow>
      (\<exists>labels g order. index_labels ?ss Map.empty = Inr labels \<and> add_all_dependencies ?ss (nodes_graph ?ss) = Inr g \<and>
        topological_order g = Some order \<and>
        q = \<lparr>sq_steps = ?ss, sq_graph = g, sq_order = order, sq_labels = labels, sq_pacing = pacing, sq_name = name\<rparr>)"
    using True by (auto simp: build_def exceeds_max_steps_def Let_def split: sum.splits option.splits simp flip: nodes_graph_def)
  also have "\<dots> \<longleftrightarrow> distinct (step_labels ?ss) \<and>
      (\<forall>s\<in>set ?ss. predecessors_ok (nodes_graph ?ss) s \<and> distinct (st_after s)) \<and>
      topological_order (document_graph ?ss) \<noteq> None \<and> q = document_sequence ?ss pacing name"
    unfolding index_labels_iff built_graph [OF stamped_positional [OF True]] by (auto simp: document_sequence_def)
  also have "\<dots> \<longleftrightarrow> document_ok ?ss \<and> q = document_sequence ?ss pacing name"
    unfolding document_ok_alt using no_order_iff_cycle [OF wf] by auto
  finally show ?thesis using True by simp
qed

section \<open>What a built sequence answers\<close>

definition built :: "sequence \<Rightarrow> bool" where
  "built q \<longleftrightarrow> positional (sq_steps q) \<and> document_ok (sq_steps q) \<and>
     q = document_sequence (sq_steps q) (sq_pacing q) (sq_name q)"

abbreviation step_ids :: "sequence \<Rightarrow> step_id set" where
  "step_ids q \<equiv> st_id ` set (sq_steps q)"

lemma built_iff_build: "built q \<longleftrightarrow> (\<exists>steps pacing name. build steps pacing name = Inr q)"
proof
  assume "built q"
  then have "build (sq_steps q) (sq_pacing q) (sq_name q) = Inr q"
    unfolding build_iff built_def by (simp add: stamp_positional) (simp add: positional_def)
  then show "\<exists>steps pacing name. build steps pacing name = Inr q" by blast
next
  assume "\<exists>steps pacing name. build steps pacing name = Inr q"
  then show "built q"
    by (auto simp: build_iff built_def document_sequence_def stamped_positional)
qed

lemma built_parts:
  assumes "built q"
  shows "sq_graph q = document_graph (sq_steps q)" "sq_labels q = fold emplace_label (sq_steps q) Map.empty"
    "topological_order (sq_graph q) = Some (sq_order q)" "graph_wf (sq_graph q)" "acyclic (depends (sq_steps q))"
    "contains_node (sq_graph q) n \<longleftrightarrow> n \<in> step_ids q"
    "contains_edge (sq_graph q) a b \<longleftrightarrow> (a, b) \<in> depends (sq_steps q)"
proof -
  have ok: "document_ok (sq_steps q)" and q: "q = document_sequence (sq_steps q) (sq_pacing q) (sq_name q)"
    using assms by (simp_all add: built_def)
  show graph: "sq_graph q = document_graph (sq_steps q)"
    by (subst q) (simp add: document_sequence_def)
  show "sq_labels q = fold emplace_label (sq_steps q) Map.empty"
    by (subst q) (simp add: document_sequence_def)
  show wf: "graph_wf (sq_graph q)" and "acyclic (depends (sq_steps q))"
    "contains_node (sq_graph q) n \<longleftrightarrow> n \<in> step_ids q"
    "contains_edge (sq_graph q) a b \<longleftrightarrow> (a, b) \<in> depends (sq_steps q)"
    using document_graph_facts [OF ok] ok by (simp_all add: graph document_ok_def)
  have "topological_order (sq_graph q) \<noteq> None"
    using no_order_iff_cycle [OF wf] ok by (simp add: document_ok_alt graph)
  moreover have "sq_order q = the (topological_order (sq_graph q))"
    by (subst q) (simp add: document_sequence_def graph)
  ultimately show "topological_order (sq_graph q) = Some (sq_order q)" by simp
qed

lemma built_order:
  assumes "built q"
  shows "distinct (sq_order q)" "set (sq_order q) = step_ids q"
    "\<forall>i<length (sq_order q). {p. (p, sq_order q ! i) \<in> depends (sq_steps q)} \<subseteq> set (take i (sq_order q))"
  using returned_order [OF built_parts(4,3) [OF assms]] built_parts(6,7) [OF assms] by auto

lemma find_step_iff:
  assumes "built q"
  shows "find_step q i = Some s \<longleftrightarrow> s \<in> set (sq_steps q) \<and> st_id s = i"
proof
  assume "find_step q i = Some s"
  then show "s \<in> set (sq_steps q) \<and> st_id s = i"
    by (auto simp: find_step_def Let_def split: if_splits) (metis not_le nth_mem)
next
  assume s: "s \<in> set (sq_steps q) \<and> st_id s = i"
  have "positional (sq_steps q)" using assms by (simp add: built_def)
  from positional_index [OF this, of s] s show "find_step q i = Some s"
    by (auto simp: find_step_def Let_def step_is_nil_def)
qed

lemma resolve_label_iff:
  assumes "built q"
  shows "resolve_label q l = Some i \<longleftrightarrow> l \<noteq> [] \<and> (\<exists>s\<in>set (sq_steps q). st_label s = l \<and> st_id s = i)"
  using resolved_label [of "sq_steps q" l i] assms
  by (simp add: resolve_label_def built_parts(2) [OF assms] built_def document_ok_def)

lemma reindexed: "built q \<Longrightarrow> sq_steps r = sq_steps q \<Longrightarrow>
    reindex r = r\<lparr>sq_graph := sq_graph q, sq_labels := sq_labels q\<rparr>"
  by (simp add: reindex_def built_parts(1,2) document_graph_def fill_graph_fold clear_empty)

lemma copies:
  assumes "built q"
  shows "copy_sequence q = q" and "assign_sequence r q = q"
  unfolding copy_sequence_def assign_sequence_def by (simp_all add: reindexed [OF assms])

subsection \<open>Ancestors\<close>

definition seen_ok :: "sequence \<Rightarrow> bool list \<Rightarrow> step_id list \<Rightarrow> bool" where
  "seen_ok q seen found \<longleftrightarrow> length seen = length (sq_steps q) \<and> distinct found \<and> set found \<subseteq> step_ids q \<and>
     (\<forall>a\<in>step_ids q. seen ! unat (step_index a) \<longleftrightarrow> a \<in> set found)"

lemma step_index_inj:
  assumes "built q" and "a \<in> step_ids q" and "b \<in> step_ids q" and "unat (step_index a) = unat (step_index b)"
  shows "a = b"
proof -
  have "positional (sq_steps q)" using assms(1) by (simp add: built_def)
  note index = positional_index [OF this]
  from assms(2,3) obtain s t where "s \<in> set (sq_steps q)" "a = st_id s" "t \<in> set (sq_steps q)" "b = st_id t" by blast
  with index(2) assms(4) show ?thesis by metis
qed

lemma step_index_bound: "built q \<Longrightarrow> a \<in> step_ids q \<Longrightarrow> unat (step_index a) < length (sq_steps q)"
  using positional_index(1) [of "sq_steps q"] by (auto simp: built_def)

lemma ancestor_edges_step:
  assumes "built q" and "seen_ok q seen found" and "waiting = i # found" and "target ` set es \<subseteq> step_ids q"
    and "ancestor_edges es seen found waiting = (seen', found', waiting')"
  shows "seen_ok q seen' found' \<and> waiting' = i # found' \<and> (\<exists>new. found' = found @ new) \<and> set found' = set found \<union> target ` set es"
  using assms(2-)
proof (induction es arbitrary: seen found waiting)
  case Nil
  then show ?case by auto
next
  case (Cons e es)
  let ?a = "target e" and ?i = "unat (step_index (target e))"
  have a: "?a \<in> step_ids q" and rest: "target ` set es \<subseteq> step_ids q" using Cons.prems(3) by auto
  have i: "?i < length seen" using step_index_bound [OF assms(1) a] Cons.prems(1) by (simp add: seen_ok_def)
  have known: "seen ! ?i \<longleftrightarrow> ?a \<in> set found" using Cons.prems(1) a unfolding seen_ok_def by blast
  show ?case
  proof (cases "seen ! ?i")
    case True
    then have "ancestor_edges es seen found waiting = (seen', found', waiting')"
      using Cons.prems(4) by (simp add: Let_def)
    from Cons.IH [OF Cons.prems(1,2) rest this] True known show ?thesis by auto
  next
    case False
    have "seen_ok q (seen[?i := True]) (found @ [?a])"
      using Cons.prems(1) a i False known step_index_inj [OF assms(1) _ a]
      by (auto simp: seen_ok_def nth_list_update)
    moreover have "ancestor_edges es (seen[?i := True]) (found @ [?a]) (waiting @ [?a]) = (seen', found', waiting')"
      using Cons.prems(4) False i by (simp add: Let_def)
    ultimately show ?thesis
      using Cons.IH [of "seen[?i := True]" "found @ [?a]" "waiting @ [?a]"] Cons.prems(2) rest by auto
  qed
qed

lemma in_edges_targets:
  assumes "built q"
  shows "target ` set (in_edges (sq_graph q) n) = {p. (p, n) \<in> depends (sq_steps q)}"
proof -
  have "adj_ok (incoming (sq_graph q))" and "adj_look (incoming (sq_graph q)) n p = adj_look (outgoing (sq_graph q)) p n" for p
    using built_parts(4) [OF assms] by (simp_all add: graph_wf_def)
  then show ?thesis
    using targets_of_edges [of "incoming (sq_graph q)" _ n] built_parts(7) [OF assms, of _ n]
    by (auto simp: in_edges_def contains_edge_look edge_payload_look)
qed

lemma ancestors_loop_result:
  assumes "built q" and "seen_ok q seen found" and "waiting = i # found" and "cursor \<le> length waiting"
    and "\<forall>k<cursor. {p. (p, waiting ! k) \<in> depends (sq_steps q)} \<subseteq> set found"
    and "set found \<subseteq> {a. (a, i) \<in> (depends (sq_steps q))\<^sup>+}"
  shows "distinct (ancestors_loop (sq_graph q) seen found waiting cursor) \<and>
    set (ancestors_loop (sq_graph q) seen found waiting cursor) = {a. (a, i) \<in> (depends (sq_steps q))\<^sup>+}"
  using assms(2-)
proof (induction "sq_graph q" seen found waiting cursor rule: ancestors_loop.induct)
  case (1 seen found waiting cursor)
  let ?D = "depends (sq_steps q)"
  show ?case
  proof (cases "cursor \<ge> length waiting")
    case True
    then have closed: "p \<in> set found" if "(p, w) \<in> ?D" "w \<in> set waiting" for p w
      using 1(3,4,5) that by (metis (mono_tags, lifting) in_set_conv_nth le_antisym mem_Collect_eq subset_iff)
    have "a \<in> set found" if "(a, i) \<in> ?D\<^sup>+" for a
      using that by (induction rule: converse_trancl_induct) (auto simp: 1(3) intro: closed)
    with 1(6) have "set found = {a. (a, i) \<in> ?D\<^sup>+}" by blast
    moreover have "ancestors_loop (sq_graph q) seen found waiting cursor = found"
      using True by (subst ancestors_loop.simps) simp
    ultimately show ?thesis using 1(2) by (simp add: seen_ok_def)
  next
    case False
    let ?n = "waiting ! cursor"
    obtain seen' found' waiting' where edges: "ancestor_edges (in_edges (sq_graph q) ?n) seen found waiting = (seen', found', waiting')"
      using prod_cases3 by blast
    have n: "?n = i \<or> ?n \<in> set found" using False 1(3) by (auto simp: nth_Cons split: nat.split)
    have ids: "{p. (p, ?n) \<in> ?D} \<subseteq> step_ids q"
      using assms(1) by (auto simp: depends_def built_def document_ok_def)
    from ancestor_edges_step [OF assms(1) 1(2,3) _ edges] in_edges_targets [OF assms(1), of ?n] ids
    have step: "seen_ok q seen' found'" "waiting' = i # found'" "\<exists>new. found' = found @ new"
      "set found' = set found \<union> {p. (p, ?n) \<in> ?D}" by auto
    have "\<forall>k<cursor + 1. {p. (p, waiting' ! k) \<in> ?D} \<subseteq> set found'"
    proof (intro allI impI)
      fix k assume k: "k < cursor + 1"
      from step(2,3) 1(3) obtain new where "waiting' = waiting @ new" by auto
      then have "waiting' ! k = waiting ! k" using k False by (simp add: nth_append)
      then show "{p. (p, waiting' ! k) \<in> ?D} \<subseteq> set found'"
        using k 1(5) [rule_format, of k] step(4) by (cases "k = cursor") auto
    qed
    moreover have "set found' \<subseteq> {a. (a, i) \<in> ?D\<^sup>+}"
      using 1(6) n step(4) by (auto intro: trancl_into_trancl2)
    moreover have "cursor + 1 \<le> length waiting'" using False 1(3) step(2,3) by auto
    ultimately have "distinct (ancestors_loop (sq_graph q) seen' found' waiting' (cursor + 1)) \<and>
        set (ancestors_loop (sq_graph q) seen' found' waiting' (cursor + 1)) = {a. (a, i) \<in> ?D\<^sup>+}"
      by (intro 1(1) [OF _ edges [symmetric] refl] step(1,2)) (use False in auto)
    moreover have "ancestors_loop (sq_graph q) seen found waiting cursor = ancestors_loop (sq_graph q) seen' found' waiting' (cursor + 1)"
      using False edges by (subst ancestors_loop.simps) simp
    ultimately show ?thesis by simp
  qed
qed

lemma ancestors_of_set:
  assumes "built q" and "i \<in> step_ids q"
  shows "set (ancestors_of q i) = {a. (a, i) \<in> (depends (sq_steps q))\<^sup>+}" and "distinct (ancestors_of q i)" and "sorted (ancestors_of q i)"
proof -
  have "seen_ok q (replicate (length (sq_steps q)) False) []"
    using step_index_bound [OF assms(1)] by (auto simp: seen_ok_def)
  from ancestors_loop_result [OF assms(1) this refl, of 0] assms(2)
  show "set (ancestors_of q i) = {a. (a, i) \<in> (depends (sq_steps q))\<^sup>+}" "distinct (ancestors_of q i)" "sorted (ancestors_of q i)"
    by (auto simp: ancestors_of_def built_parts(6) [OF assms(1)])
qed

section \<open>Properties\<close>

text \<open>
  C22. \<open>build\<close> accepts a document exactly when it has at most 65536 steps, no two steps share a label, every dependency
  names a step of the document, none is listed twice, and the dependencies have no cycle. A sequence it returns holds the steps in
  order, each stamped with its position, and the caller's pacing and name; its graph has exactly the dependencies as edges; its order
  lists every step once, after all it depends on; its labels resolve to the steps that carry them.
\<close>

theorem build_exact:
  "((\<exists>q. build steps pacing name = Inr q) \<longleftrightarrow> length steps \<le> 65536 \<and> document_ok (stamp_ids 0 steps)) \<and>
   (\<forall>q. build steps pacing name = Inr q \<longrightarrow>
      sq_steps q = stamp_ids 0 steps \<and> sq_pacing q = pacing \<and> sq_name q = name \<and>
      (\<forall>a b. contains_edge (sq_graph q) a b \<longleftrightarrow> (a, b) \<in> depends (sq_steps q)) \<and>
      distinct (sq_order q) \<and> set (sq_order q) = st_id ` set (sq_steps q) \<and>
      (\<forall>i<length (sq_order q). {p. (p, sq_order q ! i) \<in> depends (sq_steps q)} \<subseteq> set (take i (sq_order q))) \<and>
      (\<forall>l i. resolve_label q l = Some i \<longleftrightarrow> l \<noteq> [] \<and> (\<exists>s\<in>set (sq_steps q). st_label s = l \<and> st_id s = i)))"
proof (intro conjI allI impI)
  show "(\<exists>q. build steps pacing name = Inr q) \<longleftrightarrow> length steps \<le> 65536 \<and> document_ok (stamp_ids 0 steps)"
    unfolding build_iff by (simp add: max_steps_def)
  fix q assume q: "build steps pacing name = Inr q"
  then have "built q" unfolding built_iff_build by blast
  note facts = built_order [OF this] built_parts(7) [OF this] resolve_label_iff [OF this]
  show "sq_steps q = stamp_ids 0 steps" "sq_pacing q = pacing" "sq_name q = name"
    using q by (simp_all add: build_iff document_sequence_def)
  show "contains_edge (sq_graph q) a b \<longleftrightarrow> (a, b) \<in> depends (sq_steps q)" for a b by (rule facts)
  show "distinct (sq_order q)" "set (sq_order q) = st_id ` set (sq_steps q)" using facts(1,2) .
  show "{p. (p, sq_order q ! i) \<in> depends (sq_steps q)} \<subseteq> set (take i (sq_order q))" if "i < length (sq_order q)" for i
    using facts(3) that by blast
  show "resolve_label q l = Some i \<longleftrightarrow> l \<noteq> [] \<and> (\<exists>s\<in>set (sq_steps q). st_label s = l \<and> st_id s = i)" for l i by (rule facts)
qed

definition plain_step :: "string \<Rightarrow> nat list \<Rightarrow> step" where
  "plain_step label after =
     \<lparr>st_id = nil_step, st_label = label, st_command = WaitCommand 5, st_after = map positional_id after, st_on_error = Abort,
      st_on_error_target = [], st_extra_grace = 0\<rparr>"

definition diamond :: "step list" where
  "diamond = [plain_step ''a'' [], plain_step ''b'' [0], plain_step ''c'' [0], plain_step ''d'' [1, 2]]"

theorem build_exact_witness:
  "(\<exists>q. build diamond default_pacing ''doc'' = Inr q) \<and> document_ok (stamp_ids 0 diamond) \<and>
   \<not> document_ok (stamp_ids 0 [plain_step [] [1], plain_step [] [0]])"
proof -
  have "case build diamond default_pacing ''doc'' of Inl e \<Rightarrow> False | Inr q \<Rightarrow> True" by code_simp
  then have "\<exists>q. build diamond default_pacing ''doc'' = Inr q" by (cases "build diamond default_pacing ''doc''") auto
  moreover have "case build [plain_step [] [1], plain_step [] [0]] default_pacing ''doc'' of Inl e \<Rightarrow> True | Inr q \<Rightarrow> False" by code_simp
  then have "\<not> (\<exists>q. build [plain_step [] [1], plain_step [] [0]] default_pacing ''doc'' = Inr q)" by auto
  ultimately show ?thesis
    using build_exact [of diamond default_pacing "''doc''"] build_exact [of "[plain_step [] [1], plain_step [] [0]]" default_pacing "''doc''"] by simp
qed

text \<open>
  The ancestors of a step of a built sequence are exactly the steps that lead to it over dependencies, in ascending order, each
  once; the step itself is not among them. A copy of a built sequence is that sequence, graph and labels included, and a
  step is found by its own identity and by no other.
\<close>

theorem ancestors_exact:
  assumes "build steps pacing name = Inr q"
  shows "(\<forall>s\<in>set (sq_steps q). strictly_sorted (ancestors_of q (st_id s)) \<and> st_id s \<notin> set (ancestors_of q (st_id s)) \<and>
      set (ancestors_of q (st_id s)) = {a. (a, st_id s) \<in> (depends (sq_steps q))\<^sup>+}) \<and>
    copy_sequence q = q \<and> (\<forall>i s. find_step q i = Some s \<longleftrightarrow> s \<in> set (sq_steps q) \<and> st_id s = i)"
proof -
  have q: "built q" unfolding built_iff_build using assms by blast
  have "strictly_sorted (ancestors_of q (st_id s)) \<and> st_id s \<notin> set (ancestors_of q (st_id s)) \<and>
      set (ancestors_of q (st_id s)) = {a. (a, st_id s) \<in> (depends (sq_steps q))\<^sup>+}" if "s \<in> set (sq_steps q)" for s
    using ancestors_of_set [OF q, of "st_id s"] that built_parts(5) [OF q] by (auto simp: acyclic_def strict_sorted_iff)
  then show ?thesis using copies(1) [OF q] find_step_iff [OF q] by blast
qed

theorem ancestors_exact_witness:
  "case build diamond default_pacing ''doc'' of
     Inl e \<Rightarrow> False
   | Inr q \<Rightarrow> copy_sequence q = q \<and> ancestors_of q (positional_id 3) = map positional_id [0, 1, 2]"
proof -
  have "case build diamond default_pacing ''doc'' of Inl e \<Rightarrow> False
    | Inr q \<Rightarrow> ancestors_of q (positional_id 3) = map positional_id [0, 1, 2]" by code_simp
  then show ?thesis using ancestors_exact [of diamond default_pacing "''doc''"] by (auto split: sum.splits)
qed

end
