(* ===== verification/Player.thy ===== *)
theory Player
  imports Sequence
begin

text \<open>
  \<open>src/kernel/sequence/player.cpp\<close>: the run half of a sequence. The player walks the dependency graph of a sequence: a step is
  admitted to the frontier when all it depends on has ended, entered when its grace has passed, ticked until it
  ends, and exited. The runner that carries out steps is an argument, a record of functions on its own state \<open>'r\<close>, which the
  player holds. Times are counts of nanoseconds, unbounded integers here; timers and log records are left out, the scratch vector is
  the copy of the frontier a loop walks.
\<close>

section \<open>The runner\<close>

record 'r command_runner =
  rn_enter :: "step \<Rightarrow> int \<Rightarrow> 'r \<Rightarrow> status \<times> 'r"
  rn_tick :: "step \<Rightarrow> int \<Rightarrow> 'r \<Rightarrow> status \<times> 'r"
  rn_exit :: "step \<Rightarrow> int \<Rightarrow> 'r \<Rightarrow> neutralization_outcome \<times> 'r"
  rn_join :: "step \<Rightarrow> 'r \<Rightarrow> 'r"
  rn_release_holds :: "step \<Rightarrow> 'r \<Rightarrow> neutralization_outcome \<times> 'r"
  rn_last_error :: "step \<Rightarrow> 'r \<Rightarrow> error_code"
  rn_next_tick :: "step \<Rightarrow> 'r \<Rightarrow> int option"
  rn_declared_duration :: "step \<Rightarrow> 'r \<Rightarrow> int option"

text \<open>The bodies the class gives to the methods that have one.\<close>

definition default_join :: "step \<Rightarrow> 'r \<Rightarrow> 'r" where
  "default_join s r = r"

definition default_release_holds :: "step \<Rightarrow> 'r \<Rightarrow> neutralization_outcome \<times> 'r" where
  "default_release_holds s r = (NotAttempted, r)"

definition default_last_error :: "step \<Rightarrow> 'r \<Rightarrow> error_code" where
  "default_last_error s r = ProviderFailed"

definition default_next_tick :: "step \<Rightarrow> 'r \<Rightarrow> int option" where
  "default_next_tick s r = None"

definition default_declared_duration :: "step \<Rightarrow> 'r \<Rightarrow> int option" where
  "default_declared_duration s r = (case st_command s of WaitCommand duration \<Rightarrow> Some duration | _ \<Rightarrow> None)"

definition ns_of_ms :: "int \<Rightarrow> int" where
  "ns_of_ms ms = ms * 1000000"

definition grace_before :: "step \<Rightarrow> pacing_options \<Rightarrow> int" where
  "grace_before s pacing =
     (if st_after s = [] then 0
      else case pc_mode pacing of
             Strict \<Rightarrow> 0
           | Grace \<Rightarrow> ns_of_ms (pc_grace pacing)
           | Precise \<Rightarrow> ns_of_ms (pc_grace pacing + st_extra_grace s)
           | PacingModeCount \<Rightarrow> 0)"

definition retry_class_of_step :: "step \<Rightarrow> retry_class" where
  "retry_class_of_step s = (case find_command (kind_of (st_command s)) of None \<Rightarrow> Never | Some d \<Rightarrow> cd_retry d)"

definition may_retry :: "step \<Rightarrow> error_code \<Rightarrow> bool" where
  "may_retry s code = (if code = PossiblyCommitted then False else retry_class_of_step s = Idempotent)"

definition max_retries_per_step :: u32 where
  "max_retries_per_step = 1"

fun terminal_status :: "step_status \<Rightarrow> bool" where
  "terminal_status s \<longleftrightarrow> s = StepSucceeded \<or> s = StepFailed \<or> s = StepSkipped"

section \<open>The player\<close>

record step_run =
  ru_ready_at :: int
  ru_entered_at :: int
  ru_finished_at :: int
  ru_declared :: "int option"
  ru_call_duration :: int
  ru_retries :: u32
  ru_entered :: bool
  ru_exited :: bool

definition new_step_run :: step_run where
  "new_step_run = \<lparr>ru_ready_at = 0, ru_entered_at = 0, ru_finished_at = 0, ru_declared = None, ru_call_duration = 0,
     ru_retries = 0, ru_entered = False, ru_exited = False\<rparr>"

record 'r player =
  pl_program :: sequence
  pl_runner :: 'r
  pl_status :: "step_status list"
  pl_runs :: "step_run list"
  pl_frontier :: "step_id list"
  pl_entry_order :: "step_id list"
  pl_successor_offsets :: "nat list"
  pl_successors :: "step_id list"
  pl_state :: play_state
  pl_neutralization :: neutralization_outcome
  pl_failure :: "error option"
  pl_last_now :: int
  pl_first_entry :: int
  pl_last_finish :: int
  pl_anything_entered :: bool
  pl_run_id :: uuid
  pl_deepest_frontier :: nat
  pl_reported :: bool

definition index_of :: "step_id \<Rightarrow> nat" where
  "index_of i = unat (step_index i)"

text \<open>The constructor: out-degrees, their prefix sums, and a pass that writes every successor at its predecessor's cursor.\<close>

definition count_degree :: "nat \<Rightarrow> step_id \<Rightarrow> nat list \<Rightarrow> nat list" where
  "count_degree n p degrees = (let i = index_of p in if i < n then degrees[i := degrees ! i + 1] else degrees)"

definition successor_degrees :: "step list \<Rightarrow> nat list" where
  "successor_degrees steps = fold (\<lambda>s. fold (count_degree (length steps)) (st_after s)) steps (replicate (length steps) 0)"

fun prefix_sums :: "nat \<Rightarrow> nat list \<Rightarrow> nat list" where
  "prefix_sums acc [] = [acc]"
| "prefix_sums acc (d # ds) = acc # prefix_sums (acc + d) ds"

definition place_successor :: "nat \<Rightarrow> step_id \<Rightarrow> step_id \<Rightarrow> step_id list \<times> nat list \<Rightarrow> step_id list \<times> nat list" where
  "place_successor n s p acc =
     (case acc of (successors, cursor) \<Rightarrow>
        let i = index_of p
        in if i < n then (successors[cursor ! i := s], cursor[i := cursor ! i + 1]) else (successors, cursor))"

definition place_successors :: "step list \<Rightarrow> nat list \<Rightarrow> step_id list" where
  "place_successors steps offsets =
     fst (fold (\<lambda>s. fold (place_successor (length steps) (st_id s)) (st_after s)) steps
       (replicate (last offsets) nil_step, take (length steps) offsets))"

definition new_player :: "sequence \<Rightarrow> 'r \<Rightarrow> uuid \<Rightarrow> 'r player" where
  "new_player program runner run_id =
     (let steps = sq_steps program; offsets = prefix_sums 0 (successor_degrees steps)
      in \<lparr>pl_program = program, pl_runner = runner, pl_status = replicate (length steps) StepPending,
          pl_runs = replicate (length steps) new_step_run, pl_frontier = [], pl_entry_order = [],
          pl_successor_offsets = offsets, pl_successors = place_successors steps offsets, pl_state = PlayIdle,
          pl_neutralization = NotAttempted, pl_failure = None, pl_last_now = 0, pl_first_entry = 0, pl_last_finish = 0,
          pl_anything_entered = False, pl_run_id = run_id, pl_deepest_frontier = 0, pl_reported = False\<rparr>)"

definition is_terminal :: "'r player \<Rightarrow> step_id \<Rightarrow> bool" where
  "is_terminal p i \<longleftrightarrow> index_of i < length (pl_status p) \<and> terminal_status (pl_status p ! index_of i)"

definition set_status :: "step_id \<Rightarrow> step_status \<Rightarrow> 'r player \<Rightarrow> 'r player" where
  "set_status i s p =
     (if index_of i \<ge> length (pl_status p) then p else p\<lparr>pl_status := (pl_status p)[index_of i := s]\<rparr>)"

definition set_state :: "play_state \<Rightarrow> 'r player \<Rightarrow> 'r player" where
  "set_state s p = (if pl_state p = s then p else p\<lparr>pl_state := s\<rparr>)"

definition update_run :: "nat \<Rightarrow> (step_run \<Rightarrow> step_run) \<Rightarrow> 'r player \<Rightarrow> 'r player" where
  "update_run i f p = p\<lparr>pl_runs := (pl_runs p)[i := f (pl_runs p ! i)]\<rparr>"

definition admit_to_frontier :: "step_id \<Rightarrow> int \<Rightarrow> 'r player \<Rightarrow> 'r player" where
  "admit_to_frontier i ready_at p =
     (let p = (if index_of i < length (pl_runs p) then update_run (index_of i) (\<lambda>r. r\<lparr>ru_ready_at := ready_at\<rparr>) p else p);
          p = p\<lparr>pl_frontier := pl_frontier p @ [i]\<rparr>
      in p\<lparr>pl_deepest_frontier := max (pl_deepest_frontier p) (length (pl_frontier p))\<rparr>)"

definition drop_from_frontier :: "step_id \<Rightarrow> 'r player \<Rightarrow> 'r player" where
  "drop_from_frontier i p = p\<lparr>pl_frontier := remove1 i (pl_frontier p)\<rparr>"

text \<open>How the outcome of an exit on the unwind path, and of a release, is folded into the verdict of the run.\<close>

definition fold_exit_outcome :: "neutralization_outcome \<Rightarrow> 'r player \<Rightarrow> 'r player" where
  "fold_exit_outcome outcome p =
     (if outcome = ReleaseFailed then p\<lparr>pl_neutralization := ReleaseFailed\<rparr>
      else if outcome = HoldsReleased \<and> pl_neutralization p \<noteq> ReleaseFailed then p\<lparr>pl_neutralization := HoldsReleased\<rparr>
      else if pl_neutralization p = NotAttempted then p\<lparr>pl_neutralization := NothingHeld\<rparr> else p)"

definition record_neutralization :: "neutralization_outcome \<Rightarrow> 'r player \<Rightarrow> 'r player" where
  "record_neutralization outcome p =
     (case outcome of
        ReleaseFailed \<Rightarrow> p\<lparr>pl_neutralization := ReleaseFailed\<rparr>
      | HoldsReleased \<Rightarrow> if pl_neutralization p \<noteq> ReleaseFailed then p\<lparr>pl_neutralization := HoldsReleased\<rparr> else p
      | NothingHeld \<Rightarrow> if pl_neutralization p = NotAttempted then p\<lparr>pl_neutralization := NothingHeld\<rparr> else p
      | NotAttempted \<Rightarrow> p)"

definition call_join :: "'r command_runner \<Rightarrow> step \<Rightarrow> 'r player \<Rightarrow> 'r player" where
  "call_join R s p = p\<lparr>pl_runner := rn_join R s (pl_runner p)\<rparr>"

definition call_exit :: "'r command_runner \<Rightarrow> step \<Rightarrow> int \<Rightarrow> 'r player \<Rightarrow> neutralization_outcome \<times> 'r player" where
  "call_exit R s now p = (case rn_exit R s now (pl_runner p) of (outcome, r) \<Rightarrow> (outcome, p\<lparr>pl_runner := r\<rparr>))"

definition call_enter :: "'r command_runner \<Rightarrow> step \<Rightarrow> int \<Rightarrow> 'r player \<Rightarrow> status \<times> 'r player" where
  "call_enter R s now p = (case rn_enter R s now (pl_runner p) of (status, r) \<Rightarrow> (status, p\<lparr>pl_runner := r\<rparr>))"

definition call_tick :: "'r command_runner \<Rightarrow> step \<Rightarrow> int \<Rightarrow> 'r player \<Rightarrow> status \<times> 'r player" where
  "call_tick R s now p = (case rn_tick R s now (pl_runner p) of (status, r) \<Rightarrow> (status, p\<lparr>pl_runner := r\<rparr>))"

definition neutralize :: "'r command_runner \<Rightarrow> step_id \<Rightarrow> int \<Rightarrow> 'r player \<Rightarrow> 'r player" where
  "neutralize R i now p =
     (if index_of i \<ge> length (pl_runs p) then p
      else let run = pl_runs p ! index_of i
        in if \<not> ru_entered run \<or> ru_exited run then p
           else case find_step (pl_program p) i of
                  None \<Rightarrow> p
                | Some s \<Rightarrow>
                    let p = (if is_blocking_command (kind_of (st_command s)) then call_join R s p else p)
                    in case call_exit R s now p of
                         (outcome, p) \<Rightarrow>
                           fold_exit_outcome outcome (update_run (index_of i) (\<lambda>r. r\<lparr>ru_exited := True\<rparr>) p))"

definition reap_holds :: "'r command_runner \<Rightarrow> step_id \<Rightarrow> 'r player \<Rightarrow> 'r player" where
  "reap_holds R i p =
     (case find_step (pl_program p) i of
        None \<Rightarrow> p
      | Some s \<Rightarrow>
          (case rn_release_holds R s (pl_runner p) of (outcome, r) \<Rightarrow> record_neutralization outcome (p\<lparr>pl_runner := r\<rparr>)))"

fun eligible_from :: "'r player \<Rightarrow> step_id list \<Rightarrow> int \<Rightarrow> int option" where
  "eligible_from p [] eligible = Some eligible"
| "eligible_from p (i # is) eligible =
     (if \<not> is_terminal p i then None
      else eligible_from p is (max eligible (ru_finished_at (pl_runs p ! index_of i))))"

definition admit_successor :: "step_id \<Rightarrow> 'r player \<Rightarrow> 'r player" where
  "admit_successor i p =
     (if index_of i \<ge> length (pl_status p) \<or> pl_status p ! index_of i \<noteq> StepPending then p
      else case find_step (pl_program p) i of
             None \<Rightarrow> p
           | Some s \<Rightarrow>
               (case eligible_from p (st_after s) 0 of
                  None \<Rightarrow> p
                | Some eligible \<Rightarrow>
                    admit_to_frontier i (eligible + grace_before s (sq_pacing (pl_program p))) (set_status i StepReady p)))"

definition successors_of :: "'r player \<Rightarrow> nat \<Rightarrow> step_id list" where
  "successors_of p i =
     map (\<lambda>slot. pl_successors p ! slot) [pl_successor_offsets p ! i ..< pl_successor_offsets p ! (i + 1)]"

definition admit_successors :: "step_id \<Rightarrow> 'r player \<Rightarrow> 'r player" where
  "admit_successors i p =
     (if index_of i + 1 \<ge> length (pl_successor_offsets p) then p
      else fold admit_successor (successors_of p (index_of i)) p)"

definition succeed :: "'r command_runner \<Rightarrow> step_id \<Rightarrow> int \<Rightarrow> 'r player \<Rightarrow> 'r player" where
  "succeed R i now p =
     (let p = update_run (index_of i) (\<lambda>r. r\<lparr>ru_call_duration := now - ru_entered_at r, ru_finished_at := now\<rparr>) p;
          run = pl_runs p ! index_of i;
          p = (case find_step (pl_program p) i of
                 None \<Rightarrow> p
               | Some s \<Rightarrow>
                   if ru_entered run \<and> \<not> ru_exited run
                   then update_run (index_of i) (\<lambda>r. r\<lparr>ru_exited := True\<rparr>) (snd (call_exit R s now p)) else p);
          p = set_status i StepSucceeded p;
          p = p\<lparr>pl_last_finish := max (pl_last_finish p) now\<rparr>
      in admit_successors i (drop_from_frontier i p))"

section \<open>Unwinding and jumping\<close>

definition unwind_entry :: "'r command_runner \<Rightarrow> int \<Rightarrow> step_id \<Rightarrow> 'r player \<Rightarrow> 'r player" where
  "unwind_entry R now i p =
     (if index_of i \<ge> length (pl_runs p) then p
      else let run = pl_runs p ! index_of i
        in if \<not> ru_entered run then p
           else if ru_exited run then reap_holds R i p
           else let p = update_run (index_of i) (\<lambda>r. r\<lparr>ru_call_duration := now - ru_entered_at r\<rparr>) p;
                    p = neutralize R i now p
                in if \<not> terminal_status (pl_status p ! index_of i)
                   then update_run (index_of i) (\<lambda>r. r\<lparr>ru_finished_at := now\<rparr>) (set_status i StepSkipped p) else p)"

definition unwind_ready :: "int \<Rightarrow> step_id \<Rightarrow> 'r player \<Rightarrow> 'r player" where
  "unwind_ready now i p =
     (if index_of i < length (pl_status p) \<and> \<not> terminal_status (pl_status p ! index_of i)
      then update_run (index_of i) (\<lambda>r. r\<lparr>ru_finished_at := now\<rparr>) (set_status i StepSkipped p) else p)"

definition unwind :: "'r command_runner \<Rightarrow> int \<Rightarrow> 'r player \<Rightarrow> 'r player" where
  "unwind R now p =
     (let p = fold (unwind_entry R now) (rev (pl_entry_order p)) p;
          p = fold (unwind_ready now) (pl_frontier p) p
      in p\<lparr>pl_frontier := []\<rparr>)"

definition report_run :: "'r player \<Rightarrow> 'r player" where
  "report_run p =
     (if pl_reported p then p
      else if pl_state p \<noteq> PlayDone \<and> pl_state p \<noteq> PlayInterrupted then p else p\<lparr>pl_reported := True\<rparr>)"

definition skip_entered :: "'r command_runner \<Rightarrow> int \<Rightarrow> step_id \<Rightarrow> 'r player \<Rightarrow> 'r player" where
  "skip_entered R now i p =
     neutralize R i now (update_run (index_of i) (\<lambda>r. r\<lparr>ru_call_duration := now - ru_entered_at r\<rparr>) p)"

definition finish_skipped :: "int \<Rightarrow> step_id \<Rightarrow> 'r player \<Rightarrow> 'r player" where
  "finish_skipped now i p = update_run (index_of i) (\<lambda>r. r\<lparr>ru_finished_at := now\<rparr>) (set_status i StepSkipped p)"

definition holds_open :: "'r player \<Rightarrow> step_id \<Rightarrow> bool" where
  "holds_open p i \<longleftrightarrow> ru_entered (pl_runs p ! index_of i) \<and> \<not> ru_exited (pl_runs p ! index_of i)"

definition skip_ancestor :: "'r command_runner \<Rightarrow> int \<Rightarrow> step_id \<Rightarrow> 'r player \<Rightarrow> 'r player" where
  "skip_ancestor R now i p =
     (if index_of i \<ge> length (pl_status p) \<or> terminal_status (pl_status p ! index_of i) then p
      else finish_skipped now i (if holds_open p i then skip_entered R now i p else p))"

definition drop_member :: "'r command_runner \<Rightarrow> int \<Rightarrow> step_id \<Rightarrow> step_id \<Rightarrow> 'r player \<Rightarrow> 'r player" where
  "drop_member R now goal i p =
     (if i = goal \<or> index_of i \<ge> length (pl_status p) \<or> terminal_status (pl_status p ! index_of i) then p
      else if holds_open p i then finish_skipped now i (skip_entered R now i p)
      else set_status i StepPending p)"

fun frontier_behind :: "sequence \<Rightarrow> step_id \<Rightarrow> step_id list \<Rightarrow> step_id option" where
  "frontier_behind q goal [] = None"
| "frontier_behind q goal (m # ms) =
     (if m = goal then frontier_behind q goal ms
      else if goal \<in> set (ancestors_of q m) then Some m else frontier_behind q goal ms)"

definition jump_to :: "'r command_runner \<Rightarrow> step_id \<Rightarrow> 'r player \<Rightarrow> unit result \<times> 'r player" where
  "jump_to R goal p =
     (case find_step (pl_program p) goal of
        None \<Rightarrow> (Inl (fail NoMatch (''no step with index '' @ to_string (index_of goal))), p)
      | Some s \<Rightarrow>
          if is_terminal p goal
          then (Inl (fail InvalidArgument (''goto is forward-only; step '' @ step_name s @ '' has already run'')), p)
          else case frontier_behind (pl_program p) goal (pl_frontier p) of
                 Some m \<Rightarrow>
                   (Inl (fail InvalidArgument (''goto is forward-only; step '' @ step_name s @ '' is an ancestor of step '' @
                      (case find_step (pl_program p) m of None \<Rightarrow> ''in the frontier'' | Some b \<Rightarrow> step_name b))), p)
               | None \<Rightarrow>
                   let now = pl_last_now p;
                       p = fold (skip_ancestor R now) (ancestors_of (pl_program p) goal) p;
                       p = fold (drop_member R now goal) (pl_frontier p) p;
                       p = p\<lparr>pl_frontier := []\<rparr>
                   in (Inr (),
                       if pl_status p ! index_of goal \<noteq> StepRunning
                       then admit_to_frontier goal (now + grace_before s (sq_pacing (pl_program p))) (set_status goal StepReady p)
                       else admit_to_frontier goal (ru_ready_at (pl_runs p ! index_of goal)) p))"

definition abort_run :: "'r command_runner \<Rightarrow> error \<Rightarrow> int \<Rightarrow> 'r player \<Rightarrow> 'r player" where
  "abort_run R e now p = set_state PlayInterrupted (unwind R now (p\<lparr>pl_failure := Some e\<rparr>))"

text \<open>\<open>fail_step\<close>: the bookkeeping, then what the step's policy says.\<close>

definition end_failed :: "'r command_runner \<Rightarrow> step_id \<Rightarrow> int \<Rightarrow> 'r player \<Rightarrow> 'r player" where
  "end_failed R i now p =
     (let p = update_run (index_of i) (\<lambda>r. r\<lparr>ru_call_duration := now - ru_entered_at r, ru_finished_at := now\<rparr>) p;
          p = neutralize R i now p;
          p = set_status i StepFailed p;
          p = p\<lparr>pl_last_finish := max (pl_last_finish p) now\<rparr>
      in drop_from_frontier i p)"

definition fail_step :: "'r command_runner \<Rightarrow> step_id \<Rightarrow> error_code \<Rightarrow> int \<Rightarrow> 'r player \<Rightarrow> 'r player" where
  "fail_step R i code now p =
     (let p = end_failed R i now p
      in case find_step (pl_program p) i of
           None \<Rightarrow> p
         | Some s \<Rightarrow>
             (case st_on_error s of
                Continue \<Rightarrow> admit_successors i p
              | Goto \<Rightarrow>
                  (case resolve_label (pl_program p) (st_on_error_target s) of
                     None \<Rightarrow>
                       abort_run R (fail NoMatch (''step '' @ step_name s @ '' recovers to label '' @ [CHR 0x27] @
                         st_on_error_target s @ [CHR 0x27] @ '', which names no step'')) now p
                   | Some goal \<Rightarrow>
                       (case jump_to R goal p of (Inl e, p) \<Rightarrow> abort_run R e now p | (Inr _, p) \<Rightarrow> p))
              | _ \<Rightarrow> abort_run R (fail code (''step '' @ step_name s @ '' failed and its policy is abort'')) now p))"

definition on_status :: "'r command_runner \<Rightarrow> step_id \<Rightarrow> status \<Rightarrow> int \<Rightarrow> 'r player \<Rightarrow> 'r player" where
  "on_status R i status now p =
     (case status of
        StatusRunning \<Rightarrow> p
      | StatusSuccess \<Rightarrow> succeed R i now p
      | _ \<Rightarrow>
          (case find_step (pl_program p) i of
             None \<Rightarrow> fail_step R i InternalFault now p
           | Some s \<Rightarrow>
               let code = rn_last_error R s (pl_runner p)
               in if may_retry s code \<and> ru_retries (pl_runs p ! index_of i) < max_retries_per_step
                  then let p = update_run (index_of i) (\<lambda>r. r\<lparr>ru_retries := ru_retries r + 1\<rparr>) p;
                           p = neutralize R i now p;
                           p = update_run (index_of i) (\<lambda>r. r\<lparr>ru_exited := False, ru_entered_at := now\<rparr>) p
                       in case call_enter R s now p of
                            (again, p) \<Rightarrow>
                              (case again of
                                 StatusRunning \<Rightarrow> p
                               | StatusSuccess \<Rightarrow> succeed R i now p
                               | _ \<Rightarrow> fail_step R i (rn_last_error R s (pl_runner p)) now p)
                  else fail_step R i code now p))"

section \<open>Commands to the player\<close>

definition active :: "'r player \<Rightarrow> bool" where
  "active p \<longleftrightarrow> pl_state p = PlayPlaying \<or> pl_state p = PlayPaused"

definition admit_root :: "step \<Rightarrow> 'r player \<Rightarrow> 'r player" where
  "admit_root s p =
     (if st_after s \<noteq> [] then p
      else admit_to_frontier (st_id s) (pl_last_now p) (set_status (st_id s) StepReady p))"

definition play :: "'r player \<Rightarrow> unit result \<times> 'r player" where
  "play p =
     (if pl_state p = PlayPaused then (Inr (), set_state PlayPlaying p)
      else if pl_state p = PlayPlaying then (Inr (), p)
      else if pl_state p \<noteq> PlayIdle
      then (Inl (fail InvalidArgument ''this run has already finished; construct a new player to replay the document''), p)
      else (Inr (), fold admit_root (sq_steps (pl_program p)) (set_state PlayPlaying p)))"

definition pause :: "'r player \<Rightarrow> unit result \<times> 'r player" where
  "pause p =
     (if pl_state p \<noteq> PlayPlaying then (Inl (fail InvalidArgument ''nothing is playing, so there is nothing to pause''), p)
      else (Inr (), set_state PlayPaused p))"

definition interrupt :: "'r command_runner \<Rightarrow> 'r player \<Rightarrow> unit result \<times> 'r player" where
  "interrupt R p =
     (if \<not> active p then (Inl (fail InvalidArgument ''nothing is playing, so there is nothing to interrupt''), p)
      else (Inr (), report_run (set_state PlayInterrupted (unwind R (pl_last_now p) p))))"

definition skip_member :: "'r command_runner \<Rightarrow> int \<Rightarrow> step_id \<Rightarrow> 'r player \<Rightarrow> 'r player" where
  "skip_member R now i p =
     (if index_of i \<ge> length (pl_status p) then p
      else finish_skipped now i (if holds_open p i then skip_entered R now i p else p))"

definition skip :: "'r command_runner \<Rightarrow> 'r player \<Rightarrow> unit result \<times> 'r player" where
  "skip R p =
     (if \<not> active p then (Inl (fail InvalidArgument ''nothing is playing, so there is nothing to skip''), p)
      else let now = pl_last_now p; scratch = pl_frontier p;
               p = p\<lparr>pl_frontier := []\<rparr>;
               p = fold (skip_member R now) scratch p;
               p = fold admit_successors scratch p;
               p = (if pl_state p = PlayPlaying \<and> pl_frontier p = [] then set_state PlayDone p else p)
           in (Inr (), report_run p))"

definition goto_step :: "'r command_runner \<Rightarrow> step_id \<Rightarrow> 'r player \<Rightarrow> unit result \<times> 'r player" where
  "goto_step R goal p =
     (if \<not> active p then (Inl (fail InvalidArgument ''nothing is playing, so there is nowhere to go from''), p)
      else jump_to R goal p)"

definition goto_label :: "'r command_runner \<Rightarrow> string \<Rightarrow> 'r player \<Rightarrow> unit result \<times> 'r player" where
  "goto_label R label p =
     (case resolve_label (pl_program p) label of
        None \<Rightarrow> (Inl (fail NoMatch (''no step is labelled '' @ [CHR 0x27] @ label @ [CHR 0x27])), p)
      | Some goal \<Rightarrow> goto_step R goal p)"

section \<open>The pump\<close>

fun tick_pass :: "'r command_runner \<Rightarrow> int \<Rightarrow> step_id list \<Rightarrow> bool \<Rightarrow> 'r player \<Rightarrow> bool \<times> 'r player" where
  "tick_pass R now [] progressed p = (progressed, p)"
| "tick_pass R now (i # is) progressed p =
     (if index_of i \<ge> length (pl_status p) \<or> pl_status p ! index_of i \<noteq> StepRunning then tick_pass R now is progressed p
      else case find_step (pl_program p) i of
             None \<Rightarrow> tick_pass R now is progressed p
           | Some s \<Rightarrow>
               if (case rn_next_tick R s (pl_runner p) of None \<Rightarrow> False | Some due \<Rightarrow> due > now)
               then tick_pass R now is progressed p
               else case call_tick R s now p of
                      (status, p) \<Rightarrow>
                        let (progressed, p) = (if status \<noteq> StatusRunning then (True, on_status R i status now p) else (progressed, p))
                        in if \<not> active p then (progressed, p) else tick_pass R now is progressed p)"

definition mark_entered :: "'r command_runner \<Rightarrow> step \<Rightarrow> int \<Rightarrow> 'r player \<Rightarrow> 'r player" where
  "mark_entered R s now p =
     (let i = st_id s;
          p = set_status i StepRunning p;
          p = update_run (index_of i) (\<lambda>r. r\<lparr>ru_entered := True, ru_exited := False, ru_entered_at := now,
                ru_declared := rn_declared_duration R s (pl_runner p)\<rparr>) p;
          p = p\<lparr>pl_entry_order := pl_entry_order p @ [i]\<rparr>
      in if \<not> pl_anything_entered p then p\<lparr>pl_anything_entered := True, pl_first_entry := now\<rparr> else p)"

fun enter_pass :: "'r command_runner \<Rightarrow> int \<Rightarrow> step_id list \<Rightarrow> bool \<Rightarrow> 'r player \<Rightarrow> bool \<times> 'r player" where
  "enter_pass R now [] progressed p = (progressed, p)"
| "enter_pass R now (i # is) progressed p =
     (if index_of i \<ge> length (pl_status p) \<or> pl_status p ! index_of i \<noteq> StepReady \<or> ru_ready_at (pl_runs p ! index_of i) > now
      then enter_pass R now is progressed p
      else case find_step (pl_program p) i of
             None \<Rightarrow> enter_pass R now is progressed p
           | Some s \<Rightarrow>
               (case call_enter R s now (mark_entered R s now p) of
                  (status, p) \<Rightarrow>
                    let p = on_status R i status now p
                    in if pl_state p \<noteq> PlayPlaying then (True, p) else enter_pass R now is True p))"

definition pump_once :: "'r command_runner \<Rightarrow> int \<Rightarrow> 'r player \<Rightarrow> bool \<times> 'r player" where
  "pump_once R now p =
     (case tick_pass R now (pl_frontier p) False p of
        (progressed, p) \<Rightarrow>
          if pl_state p = PlayPlaying then enter_pass R now (pl_frontier p) progressed p else (progressed, p))"

fun pump_loop :: "'r command_runner \<Rightarrow> int \<Rightarrow> nat \<Rightarrow> 'r player \<Rightarrow> 'r player" where
  "pump_loop R now 0 p = p"
| "pump_loop R now (Suc n) p =
     (case pump_once R now p of
        (progressed, p) \<Rightarrow> if \<not> progressed then p else if \<not> active p then p else pump_loop R now n p)"

definition pump :: "'r command_runner \<Rightarrow> int \<Rightarrow> 'r player \<Rightarrow> unit result \<times> 'r player" where
  "pump R now p =
     (let p = p\<lparr>pl_last_now := now\<rparr>
      in if \<not> active p then (Inr (), p)
         else let failed_before = pl_failure p \<noteq> None;
                  p = pump_loop R now (2 * length (pl_status p) + 2) p;
                  p = (if pl_state p = PlayPlaying \<and> pl_frontier p = [] then set_state PlayDone p else p);
                  p = report_run p
              in (case pl_failure p of Some e \<Rightarrow> if failed_before then Inr () else Inl e | None \<Rightarrow> Inr (), p))"

section \<open>Questions\<close>

definition status_of :: "'r player \<Rightarrow> step_id \<Rightarrow> step_status" where
  "status_of p i =
     (if step_is_nil i \<or> index_of i \<ge> length (pl_status p) then StepPending else pl_status p ! index_of i)"

definition deadline_candidate :: "'r command_runner \<Rightarrow> 'r player \<Rightarrow> step_id \<Rightarrow> int option" where
  "deadline_candidate R p i =
     (if index_of i \<ge> length (pl_status p) then None
      else if pl_status p ! index_of i = StepReady
      then (if pl_state p \<noteq> PlayPlaying then None else Some (ru_ready_at (pl_runs p ! index_of i)))
      else if pl_status p ! index_of i = StepRunning
      then (case find_step (pl_program p) i of
              None \<Rightarrow> None
            | Some s \<Rightarrow> (case rn_next_tick R s (pl_runner p) of None \<Rightarrow> Some (pl_last_now p) | Some t \<Rightarrow> Some t))
      else None)"

definition earlier :: "int option \<Rightarrow> int option \<Rightarrow> int option" where
  "earlier candidate best =
     (case candidate of None \<Rightarrow> best
      | Some t \<Rightarrow> (case best of None \<Rightarrow> Some t | Some b \<Rightarrow> if t < b then Some t else Some b))"

definition next_deadline :: "'r command_runner \<Rightarrow> 'r player \<Rightarrow> int option" where
  "next_deadline R p =
     (if \<not> active p then None else fold (\<lambda>i. earlier (deadline_candidate R p i)) (pl_frontier p) None)"

definition ready_at :: "'r player \<Rightarrow> step_id \<Rightarrow> int option" where
  "ready_at p i =
     (if index_of i \<ge> length (pl_runs p) \<or> pl_status p ! index_of i = StepPending then None
      else Some (ru_ready_at (pl_runs p ! index_of i)))"

definition entered_at :: "'r player \<Rightarrow> step_id \<Rightarrow> int option" where
  "entered_at p i =
     (if index_of i \<ge> length (pl_runs p) \<or> \<not> ru_entered (pl_runs p ! index_of i) then None
      else Some (ru_entered_at (pl_runs p ! index_of i)))"

definition finished_at :: "'r player \<Rightarrow> step_id \<Rightarrow> int option" where
  "finished_at p i =
     (if index_of i \<ge> length (pl_runs p) \<or> \<not> terminal_status (pl_status p ! index_of i) then None
      else Some (ru_finished_at (pl_runs p ! index_of i)))"

definition elapsed :: "'r player \<Rightarrow> int" where
  "elapsed p =
     (if \<not> pl_anything_entered p \<or> pl_last_finish p < pl_first_entry p then 0 else pl_last_finish p - pl_first_entry p)"

definition timing_of :: "'r player \<Rightarrow> step_id \<Rightarrow> step_timing" where
  "timing_of p i =
     (if index_of i \<ge> length (pl_runs p) then \<lparr>tm_declared = None, tm_call_duration = 0, tm_server_observed = None\<rparr>
      else \<lparr>tm_declared = ru_declared (pl_runs p ! index_of i), tm_call_duration = ru_call_duration (pl_runs p ! index_of i),
            tm_server_observed = None\<rparr>)"

definition overrun_of :: "'r player \<Rightarrow> step_id \<Rightarrow> int" where
  "overrun_of p i =
     (if index_of i \<ge> length (pl_runs p) then 0
      else case ru_declared (pl_runs p ! index_of i) of
             None \<Rightarrow> 0
           | Some declared \<Rightarrow>
               if ru_call_duration (pl_runs p ! index_of i) \<le> declared then 0
               else ru_call_duration (pl_runs p ! index_of i) - declared)"

end
