(* ===== verification/Player_Index.thy ===== *)
theory Player_Index
  imports Player
begin

text \<open>
  The successor table of the player. The constructor of \<open>src/kernel/sequence/player.cpp\<close> lays the successors of all steps out in one vector
  with an offset per step (out-degrees, prefix sums, a fill by cursors). Shown: the slice of a step is the list of the steps
  that depend on it, in document order.
\<close>

section \<open>Counting and placing pairs\<close>

text \<open>The two passes over the dependencies as folds over the list of pairs of a predecessor's index and a step.\<close>

definition dependency_pairs :: "step list \<Rightarrow> (nat \<times> step_id) list" where
  "dependency_pairs steps = concat (map (\<lambda>s. map (\<lambda>p. (index_of p, st_id s)) (st_after s)) steps)"

definition occurrences :: "nat \<Rightarrow> (nat \<times> 'a) list \<Rightarrow> nat" where
  "occurrences i es = length (filter (\<lambda>e. fst e = i) es)"

fun count_pair :: "nat \<times> 'a \<Rightarrow> nat list \<Rightarrow> nat list" where
  "count_pair (i, s) degrees = degrees[i := degrees ! i + 1]"

fun place_pair :: "nat \<times> 'a \<Rightarrow> 'a list \<times> nat list \<Rightarrow> 'a list \<times> nat list" where
  "place_pair (i, s) (xs, cursor) = (xs[cursor ! i := s], cursor[i := cursor ! i + 1])"

lemma occurrences_simps [simp]:
  "occurrences i [] = 0"
  "occurrences i (es @ [(j, s)]) = (if i = j then Suc (occurrences i es) else occurrences i es)"
  by (simp_all add: occurrences_def)

lemma count_pairs:
  assumes "\<forall>e\<in>set es. fst e < n"
  shows "length (fold count_pair es (replicate n 0)) = n \<and>
    (\<forall>i<n. fold count_pair es (replicate n 0) ! i = occurrences i es)"
  using assms
proof (induction es rule: rev_induct)
  case Nil
  then show ?case by simp
next
  case (snoc e es)
  then show ?case by (cases e) (auto simp: nth_list_update)
qed

lemma place_pairs:
  fixes off cnt :: "nat \<Rightarrow> nat"
  assumes "\<forall>e\<in>set es. fst e < n" and "\<forall>i<n. occurrences i es \<le> cnt i" and "\<forall>i<n. off i + cnt i \<le> N"
    and "\<forall>j<n. \<forall>i<j. off i + cnt i \<le> off j"
    and "fold place_pair es (replicate N z, map off [0..<n]) = (xs, cursor)"
  shows "length xs = N \<and> length cursor = n \<and> (\<forall>i<n. cursor ! i = off i + occurrences i es \<and>
    (\<forall>k<occurrences i es. xs ! (off i + k) = map snd (filter (\<lambda>e. fst e = i) es) ! k))"
  using assms(1,2,5)
proof (induction es arbitrary: xs cursor rule: rev_induct)
  case Nil
  then show ?case by auto
next
  case (snoc e es)
  obtain j s where e: "e = (j, s)" by force
  obtain ys cur where fold: "fold place_pair es (replicate N z, map off [0..<n]) = (ys, cur)" by force
  have j: "j < n" using snoc.prems(1) e by simp
  have "\<forall>i<n. occurrences i es \<le> cnt i" using snoc.prems(2) e by (metis Suc_leD occurrences_simps(2))
  then have IH: "length ys = N" "length cur = n" "\<forall>i<n. cur ! i = off i + occurrences i es"
    "\<forall>i<n. \<forall>k<occurrences i es. ys ! (off i + k) = map snd (filter (\<lambda>e. fst e = i) es) ! k"
    using snoc.IH [OF _ _ fold] snoc.prems(1) by auto
  have at: "cur ! j = off j + occurrences j es" and room: "occurrences j es < cnt j"
    using IH(3) j snoc.prems(2) e by (auto dest: spec [of _ j])
  have new: "xs = ys[off j + occurrences j es := s]" "cursor = cur[j := Suc (off j + occurrences j es)]"
    using snoc.prems(3) fold e at by auto
  have "off j + occurrences j es < N" using assms(3) j room by (metis add_less_cancel_left less_le_trans)
  moreover have apart: "off i + k \<noteq> off j + occurrences j es" if "i < n" "i \<noteq> j" "k < occurrences i es" for i k
  proof -
    have "off i + k < off i + cnt i" using that snoc.prems(2) e by (metis add_less_cancel_left less_le_trans occurrences_simps(2))
    moreover have "i < j \<Longrightarrow> off i + cnt i \<le> off j" "j < i \<Longrightarrow> off j + cnt j \<le> off i" using assms(4) that(1) j by blast+
    ultimately show ?thesis using that(2) room by (cases "i < j") auto
  qed
  ultimately have "xs ! (off i + k) = map snd (filter (\<lambda>x. fst x = i) (es @ [e])) ! k"
    if "i < n" "k < occurrences i (es @ [e])" for i k
  proof (cases "i = j \<and> k = occurrences j es")
    case True
    then show ?thesis using new(1) e IH(1) \<open>off j + occurrences j es < N\<close> by (simp add: nth_append occurrences_def)
  next
    case False
    then have k: "k < occurrences i es" using that(2) e by (auto split: if_splits)
    then have "xs ! (off i + k) = ys ! (off i + k)"
      using new(1) apart [OF that(1) _ k] False by (cases "i = j") auto
    then show ?thesis using IH(4) that(1) k by (auto simp: nth_append occurrences_def)
  qed
  then show ?case using new IH(1-3) e j by (auto simp: nth_list_update)
qed

lemma prefix_sums_facts:
  "length (prefix_sums a ds) = Suc (length ds)"
  "i \<le> length ds \<Longrightarrow> prefix_sums a ds ! i = a + sum_list (take i ds)"
  "last (prefix_sums a ds) = a + sum_list ds"
proof -
  show "length (prefix_sums a ds) = Suc (length ds)" by (induction ds arbitrary: a) simp_all
  show "i \<le> length ds \<Longrightarrow> prefix_sums a ds ! i = a + sum_list (take i ds)"
    by (induction ds arbitrary: a i) (auto simp: nth_Cons split: nat.split)
  have "prefix_sums b es \<noteq> []" for b es by (cases es) simp_all
  then show "last (prefix_sums a ds) = a + sum_list ds" by (induction ds arbitrary: a) simp_all
qed

section \<open>The table of a sequence\<close>

lemma fold_dependency_pairs:
  assumes "\<And>s p acc. s \<in> set steps \<Longrightarrow> p \<in> set (st_after s) \<Longrightarrow> f s p acc = g (index_of p, st_id s) acc"
  shows "fold (\<lambda>s. fold (f s) (st_after s)) steps acc = fold g (dependency_pairs steps) acc"
proof -
  have "fold (f s) ps acc = fold g (map (\<lambda>p. (index_of p, st_id s)) ps) acc" if "s \<in> set steps" "set ps \<subseteq> set (st_after s)" for s ps acc
    using that(2) by (induction ps arbitrary: acc) (simp_all add: assms [OF that(1)])
  then show ?thesis
    using assms unfolding dependency_pairs_def
  proof (induction steps arbitrary: acc)
    case (Cons s steps)
    then show ?case by (simp add: fold_append)
  qed simp
qed

lemma predecessor_index:
  assumes "built q" and "s \<in> set (sq_steps q)" and "p \<in> set (st_after s)"
  shows "p \<in> step_ids q" and "index_of p < length (sq_steps q)"
proof -
  show "p \<in> step_ids q" using assms by (auto simp: built_def document_ok_def)
  from step_index_bound [OF assms(1) this] show "index_of p < length (sq_steps q)" by (simp add: index_of_def)
qed

text \<open>The steps that depend on a step, in document order.\<close>

definition dependants :: "sequence \<Rightarrow> step_id \<Rightarrow> step_id list" where
  "dependants q i = map st_id (filter (\<lambda>s. i \<in> set (st_after s)) (sq_steps q))"

lemma index_of_eq: "built q \<Longrightarrow> a \<in> step_ids q \<Longrightarrow> b \<in> step_ids q \<Longrightarrow> index_of a = index_of b \<longleftrightarrow> a = b"
  using step_index_inj by (auto simp: index_of_def)

lemma pairs_of_step:
  assumes "built q" and "i \<in> step_ids q"
  shows "map snd (filter (\<lambda>e. fst e = index_of i) (dependency_pairs (sq_steps q))) = dependants q i"
proof -
  have one: "map snd (filter (\<lambda>e. fst e = index_of i) (map (\<lambda>p. (index_of p, st_id s)) ps)) =
      (if i \<in> set ps then [st_id s] else [])" if "set ps \<subseteq> step_ids q" "distinct ps" for s ps
    using that by (induction ps) (auto simp: index_of_eq [OF assms(1) _ assms(2)])
  have step: "map snd (filter (\<lambda>e. fst e = index_of i) (map (\<lambda>p. (index_of p, st_id s)) (st_after s))) =
      (if i \<in> set (st_after s) then [st_id s] else [])" if "s \<in> set (sq_steps q)" for s
    using assms(1) that by (intro one) (auto simp: built_def document_ok_def)
  have "map snd (filter (\<lambda>e. fst e = index_of i) (dependency_pairs ss)) =
      map st_id (filter (\<lambda>s. i \<in> set (st_after s)) ss)" if "set ss \<subseteq> set (sq_steps q)" for ss
    using that unfolding dependency_pairs_def by (induction ss) (simp_all add: step)
  from this [of "sq_steps q"] show ?thesis by (simp add: dependants_def)
qed

lemma sum_list_take_le: "i < j \<Longrightarrow> j \<le> length ds \<Longrightarrow> sum_list (take i ds) + ds ! i \<le> sum_list (take j (ds :: nat list))"
proof -
  assume "i < j" "j \<le> length ds"
  then have "take j ds = take (Suc i) ds @ take (j - Suc i) (drop (Suc i) ds)" by (metis Suc_leI le_add_diff_inverse take_add)
  then show ?thesis using \<open>i < j\<close> \<open>j \<le> length ds\<close> by (simp add: take_Suc_conv_app_nth)
qed

lemma successor_table:
  assumes "built q" and "i \<in> step_ids q"
  shows "index_of i + 1 < length (pl_successor_offsets (new_player q r u))"
    and "successors_of (new_player q r u) (index_of i) = dependants q i"
proof -
  let ?n = "length (sq_steps q)" and ?es = "dependency_pairs (sq_steps q)"
  let ?ds = "successor_degrees (sq_steps q)" and ?off = "\<lambda>i. sum_list (take i (successor_degrees (sq_steps q)))"
  have es: "\<forall>e\<in>set ?es. fst e < ?n"
    using predecessor_index(2) [OF assms(1)] by (auto simp: dependency_pairs_def)
  have ds: "?ds = fold count_pair ?es (replicate ?n 0)"
    unfolding successor_degrees_def using predecessor_index(2) [OF assms(1)]
    by (intro fold_dependency_pairs) (simp add: count_degree_def Let_def)
  have degrees: "length ?ds = ?n" "\<forall>i<?n. ?ds ! i = occurrences i ?es" unfolding ds using count_pairs [OF es] by auto
  have start: "take ?n (prefix_sums 0 ?ds) = map ?off [0..<?n]"
    by (rule nth_equalityI) (simp_all add: prefix_sums_facts degrees(1))
  obtain xs cursor where fold: "fold place_pair ?es (replicate (sum_list ?ds) nil_step, map ?off [0..<?n]) = (xs, cursor)" by force
  have "place_successors (sq_steps q) (prefix_sums 0 ?ds) = xs"
    unfolding place_successors_def start prefix_sums_facts(3)
    by (subst fold_dependency_pairs [where g = place_pair])
      (use predecessor_index(2) [OF assms(1)] fold in \<open>auto simp: place_successor_def Let_def split: prod.splits\<close>)
  moreover have "length xs = sum_list ?ds \<and> length cursor = ?n \<and> (\<forall>i<?n. cursor ! i = ?off i + occurrences i ?es \<and>
      (\<forall>k<occurrences i ?es. xs ! (?off i + k) = map snd (filter (\<lambda>e. fst e = i) ?es) ! k))"
    by (rule place_pairs [OF es _ _ _ fold, where cnt = "\<lambda>i. ?ds ! i"])
      (use degrees sum_list_take_le [of _ _ ?ds] sum_list_take_le [of _ ?n ?ds] in auto)
  moreover have i: "index_of i < ?n" using step_index_bound [OF assms] by (simp add: index_of_def)
  moreover have "?off (Suc (index_of i)) = ?off (index_of i) + occurrences (index_of i) ?es"
    using i degrees by (simp add: take_Suc_conv_app_nth)
  ultimately have "successors_of (new_player q r u) (index_of i) = map snd (filter (\<lambda>e. fst e = index_of i) ?es)"
    by (intro nth_equalityI) (simp_all add: successors_of_def new_player_def Let_def prefix_sums_facts degrees(1) occurrences_def)
  then show "successors_of (new_player q r u) (index_of i) = dependants q i" unfolding pairs_of_step [OF assms] .
  show "index_of i + 1 < length (pl_successor_offsets (new_player q r u))"
    using i by (simp add: new_player_def Let_def prefix_sums_facts degrees(1))
qed

end
