(* ===== verification/Player_Runs.thy ===== *)
theory Player_Runs
  imports Player_Index
begin

text \<open>
  Every run of the player of \<open>src/kernel/sequence/player.cpp\<close>. The locale \<open>observed_runner\<close> is what the proofs know of a runner: a
  phase per step (entered and not exited, or not) that its calls change. Inside it the invariant of the player is kept by
  every operation; recording the calls of any runner interprets it.
\<close>

section \<open>Views of the state\<close>

definition ids :: "'r player \<Rightarrow> step_id set" where
  "ids p = step_ids (pl_program p)"

lemma step_in_ids [simp, intro]: "s \<in> set (sq_steps (pl_program p)) \<Longrightarrow> st_id s \<in> ids p"
  by (simp add: ids_def)

lemma ids_cong: "pl_program p' = pl_program p \<Longrightarrow> ids p' = ids p"
  by (simp add: ids_def)

lemma ids_update [simp]:
  "ids (p\<lparr>pl_runner := a\<rparr>) = ids p" "ids (p\<lparr>pl_frontier := b\<rparr>) = ids p" "ids (p\<lparr>pl_entry_order := b\<rparr>) = ids p" "ids (p\<lparr>pl_state := c\<rparr>) = ids p"
  "ids (p\<lparr>pl_neutralization := d\<rparr>) = ids p" "ids (p\<lparr>pl_failure := e\<rparr>) = ids p" "ids (p\<lparr>pl_last_now := t\<rparr>) = ids p"
  "ids (p\<lparr>pl_last_finish := t\<rparr>) = ids p" "ids (p\<lparr>pl_first_entry := t\<rparr>) = ids p" "ids (p\<lparr>pl_anything_entered := g\<rparr>) = ids p"
  "ids (p\<lparr>pl_deepest_frontier := n\<rparr>) = ids p" "ids (p\<lparr>pl_reported := g\<rparr>) = ids p"
  by (simp_all add: ids_def)

definition st :: "'r player \<Rightarrow> step_id \<Rightarrow> step_status" where
  "st p i = pl_status p ! index_of i"

definition run :: "'r player \<Rightarrow> step_id \<Rightarrow> step_run" where
  "run p i = pl_runs p ! index_of i"

definition frame :: "'r player \<Rightarrow> bool" where
  "frame p \<longleftrightarrow> built (pl_program p) \<and> length (pl_status p) = length (sq_steps (pl_program p)) \<and>
     length (pl_runs p) = length (sq_steps (pl_program p)) \<and>
     (\<forall>i\<in>ids p. index_of i + 1 < length (pl_successor_offsets p) \<and> successors_of p (index_of i) = dependants (pl_program p) i)"

lemma index_bound: "built q \<Longrightarrow> i \<in> step_ids q \<Longrightarrow> index_of i < length (sq_steps q)"
  using step_index_bound by (simp add: index_of_def)

lemma frame_bounds:
  "frame p \<Longrightarrow> i \<in> ids p \<Longrightarrow> index_of i < length (pl_status p)" "frame p \<Longrightarrow> i \<in> ids p \<Longrightarrow> index_of i < length (pl_runs p)"
  by (simp_all add: frame_def index_bound ids_def)

lemma find_in_frame: "frame p \<Longrightarrow> find_step (pl_program p) i = Some s \<longleftrightarrow> s \<in> set (sq_steps (pl_program p)) \<and> st_id s = i"
  by (rule find_step_iff) (simp add: frame_def)

lemma found_in_frame:
  assumes "frame p" and "i \<in> ids p"
  obtains s where "find_step (pl_program p) i = Some s" and "s \<in> set (sq_steps (pl_program p))" and "st_id s = i"
  using assms find_in_frame unfolding ids_def by blast

text \<open>The updates that keep the frame, and what they leave alone.\<close>

lemma set_status_fields [simp]:
  "pl_program (set_status i s p) = pl_program p" "pl_runner (set_status i s p) = pl_runner p" "run (set_status i s p) = run p"
  "pl_frontier (set_status i s p) = pl_frontier p" "pl_entry_order (set_status i s p) = pl_entry_order p"
  "pl_state (set_status i s p) = pl_state p" "pl_last_now (set_status i s p) = pl_last_now p"
  "pl_failure (set_status i s p) = pl_failure p" "frame (set_status i s p) = frame p" "ids (set_status i s p) = ids p"
  by (auto simp: set_status_def run_def frame_def successors_of_def ids_def)

lemma update_run_fields [simp]:
  "pl_program (update_run k f p) = pl_program p" "pl_runner (update_run k f p) = pl_runner p" "st (update_run k f p) = st p"
  "pl_frontier (update_run k f p) = pl_frontier p" "pl_entry_order (update_run k f p) = pl_entry_order p"
  "pl_state (update_run k f p) = pl_state p" "pl_last_now (update_run k f p) = pl_last_now p"
  "pl_failure (update_run k f p) = pl_failure p" "frame (update_run k f p) = frame p" "pl_status (update_run k f p) = pl_status p" "ids (update_run k f p) = ids p"
  by (auto simp: update_run_def st_def frame_def successors_of_def ids_def)

lemma st_update [simp]:
  "st (p\<lparr>pl_runner := a\<rparr>) = st p" "st (p\<lparr>pl_frontier := b\<rparr>) = st p" "st (p\<lparr>pl_entry_order := b\<rparr>) = st p" "st (p\<lparr>pl_state := c\<rparr>) = st p"
  "st (p\<lparr>pl_neutralization := d\<rparr>) = st p" "st (p\<lparr>pl_failure := e\<rparr>) = st p" "st (p\<lparr>pl_last_now := t\<rparr>) = st p"
  "st (p\<lparr>pl_last_finish := t\<rparr>) = st p" "st (p\<lparr>pl_first_entry := t\<rparr>) = st p" "st (p\<lparr>pl_anything_entered := g\<rparr>) = st p"
  "st (p\<lparr>pl_deepest_frontier := n\<rparr>) = st p" "st (p\<lparr>pl_reported := g\<rparr>) = st p"
  by (simp_all add: st_def fun_eq_iff)

lemma run_update [simp]:
  "run (p\<lparr>pl_runner := a\<rparr>) = run p" "run (p\<lparr>pl_frontier := b\<rparr>) = run p" "run (p\<lparr>pl_entry_order := b\<rparr>) = run p" "run (p\<lparr>pl_state := c\<rparr>) = run p"
  "run (p\<lparr>pl_neutralization := d\<rparr>) = run p" "run (p\<lparr>pl_failure := e\<rparr>) = run p" "run (p\<lparr>pl_last_now := t\<rparr>) = run p"
  "run (p\<lparr>pl_last_finish := t\<rparr>) = run p" "run (p\<lparr>pl_first_entry := t\<rparr>) = run p" "run (p\<lparr>pl_anything_entered := g\<rparr>) = run p"
  "run (p\<lparr>pl_deepest_frontier := n\<rparr>) = run p" "run (p\<lparr>pl_reported := g\<rparr>) = run p"
  by (simp_all add: run_def fun_eq_iff)

lemma frame_update [simp]:
  "frame (p\<lparr>pl_runner := a\<rparr>) = frame p" "frame (p\<lparr>pl_frontier := b\<rparr>) = frame p" "frame (p\<lparr>pl_entry_order := b\<rparr>) = frame p"
  "frame (p\<lparr>pl_state := c\<rparr>) = frame p" "frame (p\<lparr>pl_neutralization := d\<rparr>) = frame p" "frame (p\<lparr>pl_failure := e\<rparr>) = frame p"
  "frame (p\<lparr>pl_last_now := t\<rparr>) = frame p" "frame (p\<lparr>pl_last_finish := t\<rparr>) = frame p" "frame (p\<lparr>pl_first_entry := t\<rparr>) = frame p"
  "frame (p\<lparr>pl_anything_entered := g\<rparr>) = frame p" "frame (p\<lparr>pl_deepest_frontier := n\<rparr>) = frame p" "frame (p\<lparr>pl_reported := g\<rparr>) = frame p"
  by (simp_all add: frame_def successors_of_def)

lemma st_set_status:
  assumes "frame p" and "i \<in> ids p" and "x \<in> ids p"
  shows "st (set_status i s p) x = (if x = i then s else st p x)"
  using assms index_of_eq [of "pl_program p" x i] frame_bounds(1) [OF assms(1,2)]
  by (auto simp: set_status_def st_def frame_def ids_def nth_list_update)

lemma run_update_run:
  assumes "frame p" and "i \<in> ids p" and "x \<in> ids p"
  shows "run (update_run (index_of i) f p) x = (if x = i then f (run p i) else run p x)"
  using assms index_of_eq [of "pl_program p" x i] frame_bounds(2) [OF assms(1,2)]
  by (auto simp: update_run_def run_def frame_def ids_def nth_list_update)

lemmas view_simps = st_set_status run_update_run

lemma is_terminal_iff: "frame p \<Longrightarrow> i \<in> ids p \<Longrightarrow> is_terminal p i \<longleftrightarrow> terminal_status (st p i)"
  by (simp add: is_terminal_def st_def frame_bounds)

section \<open>What the proofs know of a runner\<close>

text \<open>
  \<open>phase r i\<close> is \<open>Some True\<close> between the entry and the exit of a step, \<open>Some False\<close> outside; it says nothing, \<open>None\<close>, once the protocol
  is broken. The laws say what a call made in order does to it.
\<close>

locale observed_runner =
  fixes R :: "'r command_runner" and phase :: "'r \<Rightarrow> step_id \<Rightarrow> bool option"
  assumes enter_phase: "phase r (st_id s) = Some False \<Longrightarrow> phase (snd (rn_enter R s now r)) = (phase r)(st_id s := Some True)"
    and tick_phase: "phase r (st_id s) = Some True \<Longrightarrow> phase (snd (rn_tick R s now r)) = phase r"
    and join_phase: "phase r (st_id s) = Some True \<Longrightarrow> phase (rn_join R s r) = phase r"
    and exit_phase: "phase r (st_id s) = Some True \<Longrightarrow> phase (snd (rn_exit R s now r)) = (phase r)(st_id s := Some False)"
    and release_phase: "phase r (st_id s) = Some False \<Longrightarrow> phase (snd (rn_release_holds R s r)) = phase r"
begin

text \<open>
  The invariant without the frontier. \<open>timed\<close> asks for the clauses about time as well, which hold while the clock the caller passes
  does not run backwards.
\<close>

definition good :: "'r player \<Rightarrow> step_id \<Rightarrow> bool" where
  "good p i \<longleftrightarrow> (ru_entered (run p i) \<and> \<not> ru_exited (run p i) \<longleftrightarrow> st p i = StepRunning) \<and>
     (st p i = StepPending \<or> st p i = StepReady \<longrightarrow> \<not> ru_entered (run p i)) \<and> st p i \<noteq> StepStatusCount \<and>
     ru_retries (run p i) \<le> 1 \<and> phase (pl_runner p) i = Some (st p i = StepRunning)"

definition on_time :: "'r player \<Rightarrow> step \<Rightarrow> bool" where
  "on_time p s \<longleftrightarrow>
     (terminal_status (st p (st_id s)) \<longrightarrow> ru_finished_at (run p (st_id s)) \<le> pl_last_now p) \<and>
     (ru_entered (run p (st_id s)) \<longrightarrow> ru_ready_at (run p (st_id s)) \<le> ru_entered_at (run p (st_id s)) \<and>
        ru_entered_at (run p (st_id s)) \<le> pl_last_now p) \<and>
     (st p (st_id s) = StepReady \<or> ru_entered (run p (st_id s)) \<longrightarrow> (\<forall>x\<in>set (st_after s).
        ru_finished_at (run p x) + grace_before s (sq_pacing (pl_program p)) \<le> ru_ready_at (run p (st_id s))))"

definition waited :: "'r player \<Rightarrow> step \<Rightarrow> bool" where
  "waited p s \<longleftrightarrow> (st p (st_id s) = StepReady \<or> ru_entered (run p (st_id s)) \<longrightarrow> (\<forall>x\<in>set (st_after s). terminal_status (st p x)))"

definition core :: "bool \<Rightarrow> 'r player \<Rightarrow> bool" where
  "core timed p \<longleftrightarrow> frame p \<and> (\<forall>i\<in>ids p. good p i) \<and> distinct (pl_entry_order p) \<and>
     set (pl_entry_order p) = {i\<in>ids p. ru_entered (run p i)} \<and>
     (\<forall>s\<in>set (sq_steps (pl_program p)). waited p s \<and> (timed \<longrightarrow> on_time p s))"

definition front :: "'r player \<Rightarrow> bool" where
  "front p \<longleftrightarrow> distinct (pl_frontier p) \<and> set (pl_frontier p) = {i\<in>ids p. st p i = StepReady \<or> st p i = StepRunning}"

definition inv :: "bool \<Rightarrow> 'r player \<Rightarrow> bool" where
  "inv timed p \<longleftrightarrow> core timed p \<and> front p"

lemma coreD: "core timed p \<Longrightarrow> frame p" "core timed p \<Longrightarrow> i \<in> ids p \<Longrightarrow> good p i"
  unfolding core_def by blast+

text \<open>A step that has not ended ends with status \<open>t\<close>, and is exited if it was entered.\<close>

definition retired :: "step_id \<Rightarrow> step_status \<Rightarrow> 'r player \<Rightarrow> 'r player \<Rightarrow> bool" where
  "retired i t p p' \<longleftrightarrow> pl_program p' = pl_program p \<and> frame p' \<and> pl_last_now p' = pl_last_now p \<and>
     pl_entry_order p' = pl_entry_order p \<and>
     (\<forall>x\<in>ids p. st p' x = (if x = i then t else st p x)) \<and> (\<forall>x\<in>ids p. x \<noteq> i \<longrightarrow> run p' x = run p x) \<and>
     ru_entered (run p' i) = ru_entered (run p i) \<and> (ru_entered (run p i) \<longrightarrow> ru_exited (run p' i)) \<and>
     ru_retries (run p' i) = ru_retries (run p i) \<and> ru_ready_at (run p' i) = ru_ready_at (run p i) \<and>
     ru_entered_at (run p' i) = ru_entered_at (run p i) \<and> ru_finished_at (run p' i) = pl_last_now p \<and>
     phase (pl_runner p') = (if st p i = StepRunning then (phase (pl_runner p))(i := Some False) else phase (pl_runner p))"

lemma retired_core:
  assumes "core timed p" and "i \<in> ids p" and "\<not> terminal_status (st p i)" and "terminal_status t" and "retired i t p p'"
  shows "core timed p'"
proof -
  note r = assms(5) [unfolded retired_def]
  have st': "st p' x = (if x = i then t else st p x)" if "x \<in> ids p" for x using r that by blast
  have same': "run p' x = run p x" if "x \<in> ids p" "x \<noteq> i" for x using r that by blast
  have run': "ru_entered (run p' i) = ru_entered (run p i)" "ru_entered (run p i) \<longrightarrow> ru_exited (run p' i)"
    "ru_retries (run p' i) = ru_retries (run p i)"
    "phase (pl_runner p') = (if st p i = StepRunning then (phase (pl_runner p))(i := Some False) else phase (pl_runner p))"
    using r by blast+
  have good: "good p' x" if "x \<in> ids p" for x
  proof (cases "x = i")
    case True
    have "t \<noteq> StepRunning" "t \<noteq> StepPending" "t \<noteq> StepReady" "t \<noteq> StepStatusCount" using assms(4) by auto
    then show ?thesis
      using coreD(2) [OF assms(1,2)] st' [OF assms(2)] run' True unfolding good_def by (cases "st p i = StepRunning") simp_all
  next
    case False
    then show ?thesis
      using coreD(2) [OF assms(1) that] st' [OF that] same' [OF that] run'(4) unfolding good_def by simp
  qed
  have after: "x \<in> ids p" if "s \<in> set (sq_steps (pl_program p))" "x \<in> set (st_after s)" for s x
    using predecessor_index(1) [OF _ that] coreD(1) [OF assms(1)] by (simp add: frame_def ids_def)
  have "waited p' s \<and> (timed \<longrightarrow> on_time p' s)" if s: "s \<in> set (sq_steps (pl_program p))" for s
  proof -
    have ids: "st_id s \<in> ids p" using s by simp
    have old: "waited p s" "timed \<Longrightarrow> on_time p s" using assms(1) s by (auto simp: core_def)
    have st: "st p' x = (if x = i then t else st p x)" if "x \<in> ids p" for x using r that by blast
    have same: "run p' x = run p x" if "x \<in> ids p" "x \<noteq> i" for x using r that by blast
    have live: "x \<noteq> i" if "x \<in> set (st_after s)" "st p (st_id s) = StepReady \<or> ru_entered (run p (st_id s))" for x
      using old(1) that assms(3) by (auto simp: waited_def)
    have entered: "ru_entered (run p' (st_id s)) = ru_entered (run p (st_id s))" using r ids same by (cases "st_id s = i") auto
    have "waited p' s"
      unfolding waited_def
    proof (intro impI ballI)
      fix x assume "st p' (st_id s) = StepReady \<or> ru_entered (run p' (st_id s))" and x: "x \<in> set (st_after s)"
      then have "st p (st_id s) = StepReady \<or> ru_entered (run p (st_id s))"
        using st [OF ids] entered assms(4) by (auto split: if_splits)
      then show "terminal_status (st p' x)" using old(1) st [OF after [OF s x]] assms(4) x by (auto simp: waited_def)
    qed
    moreover have "on_time p' s" if timed: "timed"
    proof -
      have fin: "ru_finished_at (run p' x) = ru_finished_at (run p x)"
        if "x \<in> set (st_after s)" "st p (st_id s) = StepReady \<or> ru_entered (run p (st_id s))" for x
        using same [OF after [OF s that(1)] live [OF that]] by simp
      have prog: "pl_program p' = pl_program p" "pl_last_now p' = pl_last_now p" using r by auto
      have times: "ru_ready_at (run p' (st_id s)) = ru_ready_at (run p (st_id s))"
        "ru_entered_at (run p' (st_id s)) = ru_entered_at (run p (st_id s))"
        using r same [OF ids] by (cases "st_id s = i"; simp)+
      have waiting: "st p (st_id s) = StepReady \<or> ru_entered (run p (st_id s))"
        if "st p' (st_id s) = StepReady \<or> ru_entered (run p' (st_id s))"
        using that st [OF ids] entered assms(4) by (auto split: if_splits)
      note o = old(2) [OF timed, unfolded on_time_def]
      show ?thesis
        unfolding on_time_def prog times entered
      proof (intro conjI impI ballI)
        assume "terminal_status (st p' (st_id s))"
        then show "ru_finished_at (run p' (st_id s)) \<le> pl_last_now p"
          using o r st [OF ids] same [OF ids] by (cases "st_id s = i") simp_all
      next
        fix x assume "st p' (st_id s) = StepReady \<or> ru_entered (run p (st_id s))" and x: "x \<in> set (st_after s)"
        then have w: "st p (st_id s) = StepReady \<or> ru_entered (run p (st_id s))" using waiting entered by simp
        then show "ru_finished_at (run p' x) + grace_before s (sq_pacing (pl_program p)) \<le> ru_ready_at (run p (st_id s))"
          using o fin [OF x w] x by simp
      qed (use o in blast)+
    qed
    ultimately show ?thesis by blast
  qed
  moreover have "{x \<in> ids p. ru_entered (run p' x)} = {x \<in> ids p. ru_entered (run p x)}"
    using r by (metis (mono_tags, lifting))
  ultimately show ?thesis
    using r assms(1) good ids_cong [of p' p] by (simp add: core_def)
qed

subsection \<open>Exits\<close>

definition quiet :: "'r player \<Rightarrow> 'r player \<Rightarrow> bool" where
  "quiet p p' \<longleftrightarrow> pl_frontier p' = pl_frontier p \<and> pl_state p' = pl_state p \<and> pl_failure p' = pl_failure p"

lemma quiet_trans: "quiet p q \<Longrightarrow> quiet q r \<Longrightarrow> quiet p r"
  by (simp add: quiet_def)

lemma holds_open_run: "holds_open p i \<longleftrightarrow> ru_entered (run p i) \<and> \<not> ru_exited (run p i)"
  by (simp add: holds_open_def run_def)

lemma running_open: "core timed p \<Longrightarrow> i \<in> ids p \<Longrightarrow> holds_open p i \<longleftrightarrow> st p i = StepRunning"
  using coreD(2) [of timed p i] by (auto simp: good_def holds_open_run)

lemma fold_exit_outcome_fields [simp]:
  "pl_program (fold_exit_outcome v p) = pl_program p" "ids (fold_exit_outcome v p) = ids p" "pl_runner (fold_exit_outcome v p) = pl_runner p" "st (fold_exit_outcome v p) = st p"
  "run (fold_exit_outcome v p) = run p" "pl_entry_order (fold_exit_outcome v p) = pl_entry_order p"
  "pl_last_now (fold_exit_outcome v p) = pl_last_now p" "frame (fold_exit_outcome v p) = frame p"
  "pl_frontier (fold_exit_outcome v p) = pl_frontier p" "pl_state (fold_exit_outcome v p) = pl_state p"
  "pl_failure (fold_exit_outcome v p) = pl_failure p"
  by (auto simp: fold_exit_outcome_def ids_def)

lemma neutralize_closed: "\<not> holds_open p i \<Longrightarrow> neutralize R i now p = p"
  by (auto simp: neutralize_def holds_open_def Let_def)

lemma neutralize_open:
  assumes "frame p" and "i \<in> ids p" and "holds_open p i" and "phase (pl_runner p) i = Some True"
  shows "pl_program (neutralize R i now p) = pl_program p" "frame (neutralize R i now p)"
    "pl_last_now (neutralize R i now p) = pl_last_now p" "pl_entry_order (neutralize R i now p) = pl_entry_order p"
    "quiet p (neutralize R i now p)" "st (neutralize R i now p) = st p"
    "x \<in> ids p \<Longrightarrow> run (neutralize R i now p) x = (if x = i then (run p i)\<lparr>ru_exited := True\<rparr> else run p x)"
    "phase (pl_runner (neutralize R i now p)) = (phase (pl_runner p))(i := Some False)"
    "ids (neutralize R i now p) = ids p"
proof -
  obtain s where s: "find_step (pl_program p) i = Some s" "st_id s = i" using found_in_frame [OF assms(1,2)] by metis
  define j where "j = (if is_blocking_command (kind_of (st_command s)) then call_join R s p else p)"
  obtain v r where e: "rn_exit R s now (pl_runner j) = (v, r)" by force
  have n: "neutralize R i now p =
      fold_exit_outcome v (update_run (index_of i) (\<lambda>r. r\<lparr>ru_exited := True\<rparr>) (j\<lparr>pl_runner := r\<rparr>))"
    using s assms(3) frame_bounds(2) [OF assms(1,2)] e
    by (simp add: neutralize_def holds_open_def Let_def call_exit_def j_def not_le)
  have j: "pl_program j = pl_program p" "frame j" "ids j = ids p" "pl_last_now j = pl_last_now p" "pl_entry_order j = pl_entry_order p" "quiet p j"
    "st j = st p" "run j = run p" using assms(1) by (simp_all add: j_def call_join_def quiet_def)
  have "phase (pl_runner j) = phase (pl_runner p)"
    using join_phase [of "pl_runner p" s] assms(4) s(2) by (simp add: j_def call_join_def)
  then show "phase (pl_runner (neutralize R i now p)) = (phase (pl_runner p))(i := Some False)"
    using exit_phase [of "pl_runner j" s now] assms(4) s(2) e by (simp add: n)
  show "run (neutralize R i now p) x = (if x = i then (run p i)\<lparr>ru_exited := True\<rparr> else run p x)" if "x \<in> ids p"
    using j assms(2) that by (simp add: n run_update_run)
  show "pl_program (neutralize R i now p) = pl_program p" "frame (neutralize R i now p)"
    "pl_last_now (neutralize R i now p) = pl_last_now p" "pl_entry_order (neutralize R i now p) = pl_entry_order p"
    "quiet p (neutralize R i now p)" "st (neutralize R i now p) = st p" "ids (neutralize R i now p) = ids p"
    using j by (simp_all add: n quiet_def)
qed

lemma open_phase: "core timed p \<Longrightarrow> i \<in> ids p \<Longrightarrow> holds_open p i \<Longrightarrow> phase (pl_runner p) i = Some True"
  using coreD(2) [of timed p i] by (auto simp: good_def holds_open_run)

text \<open>Ending a step on the skipping paths, and its failure.\<close>

lemma end_skipped:
  assumes "core timed p" and "i \<in> ids p" and "\<not> terminal_status (st p i)" and "now = pl_last_now p"
  defines "p' \<equiv> finish_skipped now i (if holds_open p i then skip_entered R now i p else p)"
  shows "retired i StepSkipped p p'" and "quiet p p'"
proof -
  have frame: "frame p" by (rule coreD(1) [OF assms(1)])
  let ?q = "update_run (index_of i) (\<lambda>r. r\<lparr>ru_call_duration := now - ru_entered_at r\<rparr>) p"
  have q: "frame ?q" "i \<in> ids ?q" using frame assms(2) by simp_all
  have open_q: "holds_open ?q i = holds_open p i" using frame assms(2) by (simp add: holds_open_run run_update_run)
  have "retired i StepSkipped p p' \<and> quiet p p'"
  proof (cases "holds_open p i")
    case True
    have ph: "phase (pl_runner ?q) i = Some True" using open_phase [OF assms(1,2) True] by simp
    note n = neutralize_open [OF q(1,2) _ ph, unfolded open_q, OF True]
    have "st p i = StepRunning" using True running_open [OF assms(1,2)] by simp
    then show ?thesis
      using True n assms(2,4) frame unfolding p'_def finish_skipped_def skip_entered_def retired_def
      by (simp add: view_simps quiet_def holds_open_run)
  next
    case False
    then have "st p i \<noteq> StepRunning" "\<not> ru_entered (run p i)"
      using running_open [OF assms(1,2)] coreD(2) [OF assms(1,2)] assms(3) by (cases "st p i"; auto simp: good_def)+
    then show ?thesis
      using False assms(2,4) frame unfolding p'_def finish_skipped_def retired_def by (simp add: view_simps quiet_def)
  qed
  then show "retired i StepSkipped p p'" "quiet p p'" by blast+
qed

subsection \<open>Unwinding\<close>

definition same_core :: "'r player \<Rightarrow> 'r player \<Rightarrow> bool" where
  "same_core p p' \<longleftrightarrow> pl_program p' = pl_program p \<and> frame p' = frame p \<and> st p' = st p \<and> run p' = run p \<and>
     pl_entry_order p' = pl_entry_order p \<and> pl_last_now p' = pl_last_now p \<and> phase (pl_runner p') = phase (pl_runner p)"

lemma same_core: "same_core p p' \<Longrightarrow> core timed p' = core timed p"
  by (simp add: same_core_def core_def good_def waited_def on_time_def ids_def)

lemma record_neutralization_core: "same_core q (record_neutralization v p) = same_core q p" "quiet q (record_neutralization v p) = quiet q p"
  by (auto simp: record_neutralization_def same_core_def quiet_def split: neutralization_outcome.split)

lemma reap_holds_core:
  assumes "core timed p" and "i \<in> ids p" and "st p i \<noteq> StepRunning"
  shows "same_core p (reap_holds R i p)" and "quiet p (reap_holds R i p)"
proof -
  obtain s where s: "find_step (pl_program p) i = Some s" "st_id s = i" using found_in_frame [OF coreD(1) [OF assms(1)] assms(2)] by metis
  obtain v r where e: "rn_release_holds R s (pl_runner p) = (v, r)" by force
  have "phase (pl_runner p) i = Some False" using coreD(2) [OF assms(1,2)] assms(3) by (simp add: good_def)
  then have "phase r = phase (pl_runner p)" using release_phase [of "pl_runner p" s] e s(2) by simp
  then show "same_core p (reap_holds R i p)" "quiet p (reap_holds R i p)"
    using s e by (simp_all add: reap_holds_def record_neutralization_core) (simp_all add: same_core_def quiet_def)
qed

text \<open>What skipping some of the running steps changes.\<close>

definition swept :: "step_id set \<Rightarrow> 'r player \<Rightarrow> 'r player \<Rightarrow> bool" where
  "swept A p p' \<longleftrightarrow> pl_program p' = pl_program p \<and> pl_last_now p' = pl_last_now p \<and> pl_entry_order p' = pl_entry_order p \<and>
     (\<forall>x\<in>ids p. st p' x = (if x \<in> A then StepSkipped else st p x)) \<and>
     (\<forall>x\<in>ids p. x \<notin> A \<longrightarrow> run p' x = run p x) \<and>
     (\<forall>x\<in>ids p. ru_entered (run p' x) = ru_entered (run p x) \<and> ru_ready_at (run p' x) = ru_ready_at (run p x) \<and>
        ru_retries (run p' x) = ru_retries (run p x))"

lemma swept_refl: "same_core p p' \<Longrightarrow> swept {} p p'"
  by (simp add: swept_def same_core_def)

lemma swept_trans: "swept A p q \<Longrightarrow> swept B q r \<Longrightarrow> swept (A \<union> B) p r"
  using ids_cong [of q p] by (auto simp: swept_def)

lemma retired_swept:
  assumes "retired i StepSkipped p p'"
  shows "swept {i} p p'"
  using assms unfolding retired_def swept_def by (metis empty_iff insert_iff)

lemma unwind_entry_step:
  assumes "core timed p" and "i \<in> ids p" and "now = pl_last_now p"
  shows "core timed (unwind_entry R now i p)" and "quiet p (unwind_entry R now i p)"
    and "swept (if st p i = StepRunning then {i} else {}) p (unwind_entry R now i p)"
proof -
  have bound: "\<not> index_of i \<ge> length (pl_runs p)" using frame_bounds(2) [OF coreD(1) [OF assms(1)] assms(2)] by simp
  have "core timed (unwind_entry R now i p) \<and> quiet p (unwind_entry R now i p) \<and>
    swept (if st p i = StepRunning then {i} else {}) p (unwind_entry R now i p)"
  proof (cases "holds_open p i")
    case True
    then have running: "st p i = StepRunning" using running_open [OF assms(1,2)] by simp
    let ?q = "update_run (index_of i) (\<lambda>r. r\<lparr>ru_call_duration := now - ru_entered_at r\<rparr>) p"
    have "frame ?q" "i \<in> ids ?q" "holds_open ?q i" "phase (pl_runner ?q) i = Some True"
      using True coreD(1) [OF assms(1)] assms(2) open_phase [OF assms(1,2)] by (simp_all add: holds_open_run run_update_run)
    from neutralize_open(6) [OF this, of now] have "st (neutralize R i now ?q) i = StepRunning" using running by simp
    then have eq: "unwind_entry R now i p = finish_skipped now i (skip_entered R now i p)"
      using bound True by (simp add: unwind_entry_def Let_def skip_entered_def finish_skipped_def holds_open_def st_def)
    have "\<not> terminal_status (st p i)" using running by simp
    note e = end_skipped [OF assms(1,2) this assms(3)]
    show ?thesis
      using e retired_core [OF assms(1,2) _ _ e(1)] retired_swept [OF e(1)] running True by (simp add: eq)
  next
    case False
    then have "st p i \<noteq> StepRunning" using running_open [OF assms(1,2)] by simp
    note r = reap_holds_core [OF assms(1,2) this]
    have "unwind_entry R now i p = p \<or> unwind_entry R now i p = reap_holds R i p"
      using False by (auto simp: unwind_entry_def Let_def holds_open_def)
    moreover have "same_core p p" "quiet p p" by (simp_all add: same_core_def quiet_def)
    ultimately show ?thesis
      using r \<open>st p i \<noteq> StepRunning\<close> same_core [OF r(1)] assms(1) swept_refl by auto
  qed
  then show "core timed (unwind_entry R now i p)" "quiet p (unwind_entry R now i p)"
    "swept (if st p i = StepRunning then {i} else {}) p (unwind_entry R now i p)" by blast+
qed

lemma unwind_ready_step:
  assumes "core timed p" and "i \<in> ids p" and "now = pl_last_now p" and "st p i \<noteq> StepRunning"
  shows "core timed (unwind_ready now i p)" and "quiet p (unwind_ready now i p)"
    and "swept (if terminal_status (st p i) then {} else {i}) p (unwind_ready now i p)"
proof -
  have bound: "index_of i < length (pl_status p)" by (rule frame_bounds(1) [OF coreD(1) [OF assms(1)] assms(2)])
  have "core timed (unwind_ready now i p) \<and> quiet p (unwind_ready now i p) \<and>
    swept (if terminal_status (st p i) then {} else {i}) p (unwind_ready now i p)"
  proof (cases "terminal_status (st p i)")
    case True
    then have "unwind_ready now i p = p" by (simp add: unwind_ready_def st_def)
    then show ?thesis using assms(1) True swept_refl [of p p] by (simp add: same_core_def quiet_def)
  next
    case False
    have "\<not> holds_open p i" using assms(4) running_open [OF assms(1,2)] by simp
    then have eq: "unwind_ready now i p = finish_skipped now i (if holds_open p i then skip_entered R now i p else p)"
      using bound False by (simp add: unwind_ready_def finish_skipped_def st_def)
    note e = end_skipped [OF assms(1,2) False assms(3), folded eq]
    then show ?thesis using retired_core [OF assms(1,2) False _ e(1)] retired_swept False by simp
  qed
  then show "core timed (unwind_ready now i p)" "quiet p (unwind_ready now i p)"
    "swept (if terminal_status (st p i) then {} else {i}) p (unwind_ready now i p)" by blast+
qed

lemma unwind_entries:
  assumes "core timed p" and "set is \<subseteq> ids p" and "now = pl_last_now p"
  shows "core timed (fold (unwind_entry R now) is p) \<and> quiet p (fold (unwind_entry R now) is p) \<and>
    swept {i\<in>set is. st p i = StepRunning} p (fold (unwind_entry R now) is p)"
  using assms
proof (induction "is" arbitrary: p)
  case Nil
  then show ?case using swept_refl [of p p] by (simp add: quiet_def same_core_def)
next
  case (Cons i "is")
  let ?q = "unwind_entry R now i p"
  have i: "i \<in> ids p" using Cons.prems(2) by simp
  note step = unwind_entry_step [OF Cons.prems(1) i Cons.prems(3)]
  have q: "pl_program ?q = pl_program p" "pl_last_now ?q = pl_last_now p"
    and st: "\<forall>x\<in>ids p. st ?q x = (if x \<in> (if st p i = StepRunning then {i} else {}) then StepSkipped else st p x)"
    using step(3) unfolding swept_def by blast+
  have IH: "core timed (fold (unwind_entry R now) is ?q) \<and> quiet ?q (fold (unwind_entry R now) is ?q) \<and>
      swept {i\<in>set is. st ?q i = StepRunning} ?q (fold (unwind_entry R now) is ?q)"
    by (rule Cons.IH) (use step(1) q ids_cong [OF q(1)] Cons.prems(2,3) in auto)
  have "(if st p i = StepRunning then {i} else {}) \<union> {x\<in>set is. st ?q x = StepRunning} = {x\<in>set (i # is). st p x = StepRunning}"
    using st Cons.prems(2) by (auto split: if_splits)
  note sets = this
  from IH have "core timed (fold (unwind_entry R now) is ?q)" "quiet ?q (fold (unwind_entry R now) is ?q)" and
    sw: "swept {x\<in>set is. st ?q x = StepRunning} ?q (fold (unwind_entry R now) is ?q)" by blast+
  with quiet_trans [OF step(2)] swept_trans [OF step(3) sw, unfolded sets] show ?case by simp
qed

lemma unwind_readies:
  assumes "core timed p" and "set is \<subseteq> ids p" and "now = pl_last_now p" and "\<forall>i\<in>ids p. st p i \<noteq> StepRunning"
  shows "core timed (fold (unwind_ready now) is p) \<and> quiet p (fold (unwind_ready now) is p) \<and>
    swept {i\<in>set is. \<not> terminal_status (st p i)} p (fold (unwind_ready now) is p)"
  using assms
proof (induction "is" arbitrary: p)
  case Nil
  then show ?case using swept_refl [of p p] by (simp add: quiet_def same_core_def)
next
  case (Cons i "is")
  let ?q = "unwind_ready now i p"
  have i: "i \<in> ids p" "st p i \<noteq> StepRunning" using Cons.prems(2,4) by auto
  note step = unwind_ready_step [OF Cons.prems(1) i(1) Cons.prems(3) i(2)]
  have q: "pl_program ?q = pl_program p" "pl_last_now ?q = pl_last_now p"
    and st: "\<forall>x\<in>ids p. st ?q x = (if x \<in> (if terminal_status (st p i) then {} else {i}) then StepSkipped else st p x)"
    using step(3) unfolding swept_def by blast+
  have IH: "core timed (fold (unwind_ready now) is ?q) \<and> quiet ?q (fold (unwind_ready now) is ?q) \<and>
      swept {i\<in>set is. \<not> terminal_status (st ?q i)} ?q (fold (unwind_ready now) is ?q)"
    by (rule Cons.IH) (use step(1) q ids_cong [OF q(1)] st Cons.prems(2-4) in \<open>auto split: if_splits\<close>)
  have "(if terminal_status (st p i) then {} else {i}) \<union> {x\<in>set is. \<not> terminal_status (st ?q x)} =
      {x\<in>set (i # is). \<not> terminal_status (st p x)}"
    using st Cons.prems(2) by (auto split: if_splits)
  note sets = this
  from IH have "core timed (fold (unwind_ready now) is ?q)" "quiet ?q (fold (unwind_ready now) is ?q)" and
    sw: "swept {x\<in>set is. \<not> terminal_status (st ?q x)} ?q (fold (unwind_ready now) is ?q)" by blast+
  with quiet_trans [OF step(2)] swept_trans [OF step(3) sw, unfolded sets] show ?case by simp
qed

lemma core_frontier [simp]: "core timed (p\<lparr>pl_frontier := f\<rparr>) = core timed p"
  by (rule same_core) (simp add: same_core_def)

lemma unwind_step:
  assumes "inv timed p" and "now = pl_last_now p"
  shows "inv timed (unwind R now p)" and "pl_frontier (unwind R now p) = []" and "pl_state (unwind R now p) = pl_state p"
    and "pl_failure (unwind R now p) = pl_failure p"
    and "swept {i\<in>ids p. st p i = StepReady \<or> st p i = StepRunning} p (unwind R now p)"
proof -
  have core: "core timed p" and front: "front p" using assms(1) by (simp_all add: inv_def)
  let ?q = "fold (unwind_entry R now) (rev (pl_entry_order p)) p"
  let ?r = "fold (unwind_ready now) (pl_frontier ?q) ?q"
  have entry: "set (rev (pl_entry_order p)) = {i\<in>ids p. ru_entered (run p i)}" using core by (simp add: core_def)
  have "st p i = StepRunning \<Longrightarrow> ru_entered (run p i)" if "i \<in> ids p" for i using coreD(2) [OF core that] by (simp add: good_def)
  then have running: "{i\<in>set (rev (pl_entry_order p)). st p i = StepRunning} = {i\<in>ids p. st p i = StepRunning}"
    unfolding entry by blast
  have q: "core timed ?q" "quiet p ?q" "swept {i\<in>ids p. st p i = StepRunning} p ?q"
    using unwind_entries [OF core _ assms(2), of "rev (pl_entry_order p)"] entry unfolding running by auto
  have st_q: "\<forall>x\<in>ids p. st ?q x = (if st p x = StepRunning then StepSkipped else st p x)" "pl_program ?q = pl_program p" "pl_last_now ?q = pl_last_now p"
    using q(3) by (auto simp: swept_def)
  have frontier: "pl_frontier ?q = pl_frontier p" "set (pl_frontier p) = {i\<in>ids p. st p i = StepReady \<or> st p i = StepRunning}"
    using q(2) front by (simp_all add: quiet_def front_def)
  have r: "core timed ?r" "quiet ?q ?r" "swept {i\<in>set (pl_frontier ?q). \<not> terminal_status (st ?q i)} ?q ?r"
  proof -
    have "set (pl_frontier ?q) \<subseteq> ids ?q" "now = pl_last_now ?q" "\<forall>i\<in>ids ?q. st ?q i \<noteq> StepRunning"
      using st_q frontier assms(2) ids_cong [OF st_q(2)] by auto
    from unwind_readies [OF q(1) this] show "core timed ?r" "quiet ?q ?r"
      "swept {i\<in>set (pl_frontier ?q). \<not> terminal_status (st ?q i)} ?q ?r" by blast+
  qed
  have "{i\<in>ids p. st p i = StepRunning} \<union> {i\<in>set (pl_frontier ?q). \<not> terminal_status (st ?q i)} =
      {i\<in>ids p. st p i = StepReady \<or> st p i = StepRunning}"
    using frontier st_q(1) by auto
  then have sw: "swept {i\<in>ids p. st p i = StepReady \<or> st p i = StepRunning} p ?r"
    using swept_trans [OF q(3) r(3)] by simp
  have u: "unwind R now p = ?r\<lparr>pl_frontier := []\<rparr>" by (simp add: unwind_def Let_def)
  show "swept {i\<in>ids p. st p i = StepReady \<or> st p i = StepRunning} p (unwind R now p)"
    using sw unfolding u by (simp add: swept_def)
  then show "inv timed (unwind R now p)"
    using r(1) ids_cong [of "unwind R now p" p] unfolding inv_def front_def u by (auto simp: swept_def split: if_splits)
  show "pl_frontier (unwind R now p) = []" "pl_state (unwind R now p) = pl_state p" "pl_failure (unwind R now p) = pl_failure p"
    using q(2) r(2) by (simp_all add: u quiet_def)
qed

subsection \<open>Admission\<close>

lemma admit_to_frontier_fields [simp]:
  "pl_program (admit_to_frontier i t p) = pl_program p" "ids (admit_to_frontier i t p) = ids p" "pl_runner (admit_to_frontier i t p) = pl_runner p"
  "st (admit_to_frontier i t p) = st p" "pl_frontier (admit_to_frontier i t p) = pl_frontier p @ [i]"
  "pl_entry_order (admit_to_frontier i t p) = pl_entry_order p" "pl_state (admit_to_frontier i t p) = pl_state p"
  "pl_failure (admit_to_frontier i t p) = pl_failure p" "pl_last_now (admit_to_frontier i t p) = pl_last_now p"
  "frame (admit_to_frontier i t p) = frame p"
  by (simp_all add: admit_to_frontier_def Let_def ids_def)

lemma run_admit_to_frontier:
  "frame p \<Longrightarrow> i \<in> ids p \<Longrightarrow> x \<in> ids p \<Longrightarrow>
   run (admit_to_frontier i t p) x = (if x = i then (run p i)\<lparr>ru_ready_at := t\<rparr> else run p x)"
  using frame_bounds(2) [of p i] by (simp add: admit_to_frontier_def Let_def run_update_run)

lemma after_in_ids: "frame p \<Longrightarrow> s \<in> set (sq_steps (pl_program p)) \<Longrightarrow> x \<in> set (st_after s) \<Longrightarrow> x \<in> ids p"
  using predecessor_index(1) [of "pl_program p"] by (simp add: frame_def ids_def)

lemma step_of_id_unique:
  "frame p \<Longrightarrow> s \<in> set (sq_steps (pl_program p)) \<Longrightarrow> s' \<in> set (sq_steps (pl_program p)) \<Longrightarrow> st_id s = st_id s' \<Longrightarrow> s = s'"
  by (metis find_in_frame option.inject)

lemma admit_core:
  assumes "core timed p" and "s \<in> set (sq_steps (pl_program p))" and "st p (st_id s) = StepPending \<or> st p (st_id s) = StepReady"
    and "\<forall>x\<in>set (st_after s). terminal_status (st p x)"
    and "timed \<longrightarrow> (\<forall>x\<in>set (st_after s). ru_finished_at (run p x) + grace_before s (sq_pacing (pl_program p)) \<le> t)"
  shows "core timed (admit_to_frontier (st_id s) t (set_status (st_id s) StepReady p))" (is "core timed ?p'")
proof -
  let ?i = "st_id s"
  have frame: "frame p" and i: "?i \<in> ids p" using coreD(1) [OF assms(1)] assms(2) by auto
  have st: "st ?p' x = (if x = ?i then StepReady else st p x)" if "x \<in> ids p" for x using frame i that by (simp add: view_simps)
  have run: "run ?p' x = (if x = ?i then (run p ?i)\<lparr>ru_ready_at := t\<rparr> else run p x)" if "x \<in> ids p" for x
    using frame i that by (simp add: run_admit_to_frontier)
  have not_entered: "\<not> ru_entered (run p ?i)" and not_done: "\<not> terminal_status (st p ?i)"
    using coreD(2) [OF assms(1) i] assms(3) by (auto simp: good_def)
  have good: "good ?p' x" if "x \<in> ids p" for x
    using coreD(2) [OF assms(1) that] st [OF that] run [OF that] not_entered assms(3) by (cases "x = ?i") (auto simp: good_def)
  have entered: "ru_entered (run ?p' x) = ru_entered (run p x)" if "x \<in> ids p" for x using run [OF that] by simp
  have steps: "waited ?p' s' \<and> (timed \<longrightarrow> on_time ?p' s')" if s': "s' \<in> set (sq_steps (pl_program p))" for s'
  proof -
    have i': "st_id s' \<in> ids p" using s' by simp
    have old: "waited p s'" "timed \<longrightarrow> on_time p s'" using assms(1) s' by (auto simp: core_def)
    have ended: "terminal_status (st ?p' x) \<and> ru_finished_at (run ?p' x) = ru_finished_at (run p x)"
      if "x \<in> set (st_after s')" "terminal_status (st p x)" for x
    proof -
      have "x \<noteq> ?i" using that(2) not_done by metis
      then show ?thesis using st run after_in_ids [OF frame s' that(1)] that(2) by simp
    qed
    show ?thesis
    proof (cases "st_id s' = ?i")
      case True
      then have "s' = s" using step_of_id_unique [OF frame s' assms(2)] by simp
      then show ?thesis
        using assms(4,5) ended st [OF i] run [OF i] not_entered by (auto simp: waited_def on_time_def simp del: terminal_status.simps) simp
    next
      case False
      have "terminal_status (st p x)" if "st p (st_id s') = StepReady \<or> ru_entered (run p (st_id s'))" "x \<in> set (st_after s')" for x
        using old(1) that by (auto simp: waited_def)
      then show ?thesis
        using old False ended st [OF i'] run [OF i'] by (simp add: waited_def on_time_def del: terminal_status.simps)
    qed
  qed
  have "{x \<in> ids p. ru_entered (run ?p' x)} = {x \<in> ids p. ru_entered (run p x)}" using entered by blast
  then show ?thesis using assms(1) good steps by (simp add: core_def)
qed

lemma admit_front:
  assumes "frame p" and "i \<in> ids p" and "distinct (pl_frontier p)"
    and "set (pl_frontier p) = {x\<in>ids p. st p x = StepReady \<or> st p x = StepRunning} - {i}"
  shows "front (admit_to_frontier i t (set_status i StepReady p))"
proof -
  have "{x\<in>ids p. st (set_status i StepReady p) x = StepReady \<or> st (set_status i StepReady p) x = StepRunning} =
      insert i {x\<in>ids p. st p x = StepReady \<or> st p x = StepRunning}"
    using assms(1,2) st_set_status [OF assms(1,2)] by (auto split: if_splits)
  with assms(2-4) show ?thesis by (simp add: front_def)
qed

lemma eligible_from_Some:
  assumes "frame p" and "set is \<subseteq> ids p" and "eligible_from p is e = Some t"
  shows "e \<le> t \<and> (\<forall>x\<in>set is. terminal_status (st p x) \<and> ru_finished_at (run p x) \<le> t)"
  using assms(2,3)
proof (induction "is" arbitrary: e)
  case (Cons i "is")
  then have "terminal_status (st p i)" and "eligible_from p is (max e (ru_finished_at (run p i))) = Some t"
    using is_terminal_iff [OF assms(1), of i] by (auto simp: run_def split: if_splits)
  with Cons.IH [of "max e (ru_finished_at (run p i))"] Cons.prems(1) show ?case by (simp del: terminal_status.simps)
qed simp

lemma eligible_from_None:
  assumes "frame p" and "set is \<subseteq> ids p"
  shows "eligible_from p is e = None \<longleftrightarrow> (\<exists>x\<in>set is. \<not> terminal_status (st p x))"
  using assms(2) by (induction "is" arbitrary: e) (simp_all add: is_terminal_iff [OF assms(1)] del: terminal_status.simps)

definition ready_now :: "'r player \<Rightarrow> step_id \<Rightarrow> bool" where
  "ready_now p i \<longleftrightarrow> st p i = StepPending \<and>
     (\<forall>s\<in>set (sq_steps (pl_program p)). st_id s = i \<longrightarrow> (\<forall>x\<in>set (st_after s). terminal_status (st p x)))"

text \<open>What an operation that only admits steps changes.\<close>

definition admitted :: "step_id set \<Rightarrow> 'r player \<Rightarrow> 'r player \<Rightarrow> bool" where
  "admitted A p p' \<longleftrightarrow> pl_program p' = pl_program p \<and> pl_last_now p' = pl_last_now p \<and> pl_entry_order p' = pl_entry_order p \<and>
     pl_state p' = pl_state p \<and> pl_failure p' = pl_failure p \<and> pl_runner p' = pl_runner p \<and>
     (\<forall>x\<in>ids p. st p' x = (if x \<in> A then StepReady else st p x)) \<and>
     (\<forall>x\<in>ids p. ru_entered (run p' x) = ru_entered (run p x) \<and> ru_exited (run p' x) = ru_exited (run p x) \<and>
        ru_retries (run p' x) = ru_retries (run p x) \<and> ru_finished_at (run p' x) = ru_finished_at (run p x)) \<and>
     (\<forall>x\<in>ids p. x \<notin> A \<longrightarrow> run p' x = run p x)"

lemma admitted_refl: "admitted {} p p"
  by (simp add: admitted_def)

lemma admitted_trans: "admitted A p q \<Longrightarrow> admitted B q r \<Longrightarrow> admitted (A \<union> B) p r"
  using ids_cong [of q p] unfolding admitted_def by auto

lemma admit_successor_step:
  assumes "inv timed p" and "i \<in> ids p"
  shows "inv timed (admit_successor i p)" and "admitted (if ready_now p i then {i} else {}) p (admit_successor i p)"
proof -
  have core: "core timed p" and front: "front p" and frame: "frame p" using assms(1) coreD(1) by (auto simp: inv_def)
  obtain s where s: "find_step (pl_program p) i = Some s" "s \<in> set (sq_steps (pl_program p))" "st_id s = i"
    by (rule found_in_frame [OF frame assms(2)])
  have after: "set (st_after s) \<subseteq> ids p" using after_in_ids [OF frame s(2)] by blast
  have uniq: "s' = s" if "s' \<in> set (sq_steps (pl_program p))" "st_id s' = i" for s' using step_of_id_unique [OF frame that(1) s(2)] that(2) s(3) by simp
  have bound: "\<not> index_of i \<ge> length (pl_status p)" using frame_bounds(1) [OF frame assms(2)] by simp
  have "inv timed (admit_successor i p) \<and> admitted (if ready_now p i then {i} else {}) p (admit_successor i p)"
  proof (cases "st p i = StepPending \<and> eligible_from p (st_after s) 0 \<noteq> None")
    case True
    then obtain e where e: "eligible_from p (st_after s) 0 = Some e" by blast
    note el = eligible_from_Some [OF frame after e]
    have ready: "ready_now p i" using True el uniq by (auto simp: ready_now_def simp del: terminal_status.simps)
    have eq: "admit_successor i p = admit_to_frontier i (e + grace_before s (sq_pacing (pl_program p))) (set_status i StepReady p)"
      using True bound s(1) e by (simp add: admit_successor_def st_def)
    have "core timed (admit_successor i p)"
      unfolding eq using admit_core [OF core s(2)] True el s(3) by auto
    moreover have "front (admit_successor i p)"
      unfolding eq using front True by (intro admit_front [OF frame assms(2)]) (auto simp: front_def)
    moreover have "admitted {i} p (admit_successor i p)"
      unfolding eq admitted_def using frame assms(2) by (auto simp: view_simps run_admit_to_frontier)
    ultimately show ?thesis using ready by (simp add: inv_def)
  next
    case False
    then have "admit_successor i p = p" using s(1) by (auto simp: admit_successor_def st_def)
    moreover have "\<not> ready_now p i"
      using False s eligible_from_None [OF frame after, of 0] by (auto simp: ready_now_def simp del: terminal_status.simps)
    ultimately show ?thesis using assms(1) admitted_refl by simp
  qed
  then show "inv timed (admit_successor i p)" "admitted (if ready_now p i then {i} else {}) p (admit_successor i p)" by blast+
qed

end

end
