(* ===== verification/Player_Steps.thy ===== *)
theory Player_Steps
  imports Player_Runs
begin

text \<open>
  The operations of the player keep its invariant: the ends of steps, jumps, retries, and the passes of the pump, each with what it changes.
\<close>

context observed_runner
begin

lemma core_cong:
  assumes "core timed p" and "frame q" and "pl_program q = pl_program p" and "pl_entry_order q = pl_entry_order p"
    and "pl_last_now q = pl_last_now p" and "phase (pl_runner q) = phase (pl_runner p)"
    and same: "\<And>x. x \<in> ids p \<Longrightarrow> st q x = st p x \<and> run q x = run p x"
  shows "core timed q"
proof -
  have ids: "ids q = ids p" by (rule ids_cong [OF assms(3)])
  have "good q x" if "x \<in> ids p" for x using coreD(2) [OF assms(1) that] same [OF that] assms(6) by (simp add: good_def)
  moreover have "waited q s \<and> (timed \<longrightarrow> on_time q s)" if s: "s \<in> set (sq_steps (pl_program p))" for s
  proof -
    have "waited p s \<and> (timed \<longrightarrow> on_time p s)" using assms(1) s by (simp add: core_def)
    moreover have "st q x = st p x" "run q x = run p x" if "x = st_id s \<or> x \<in> set (st_after s)" for x
      using same [of x] that s after_in_ids [OF coreD(1) [OF assms(1)] s] by auto
    ultimately show ?thesis by (simp add: waited_def on_time_def assms(3,5))
  qed
  moreover have "{i\<in>ids p. ru_entered (run q i)} = {i\<in>ids p. ru_entered (run p i)}" using same by auto
  ultimately show ?thesis using assms(1-4) by (simp add: core_def ids)
qed

subsection \<open>Admitting successors\<close>

lemma ready_now_admitted:
  assumes "frame p" and "admitted A p q" and "\<forall>x\<in>A. st p x = StepPending" and "y \<in> ids p"
  shows "ready_now q y \<longleftrightarrow> ready_now p y \<and> y \<notin> A"
proof -
  have st: "st q x = (if x \<in> A then StepReady else st p x)" if "x \<in> ids p" for x using assms(2) that by (simp add: admitted_def)
  have prog: "pl_program q = pl_program p" using assms(2) by (simp add: admitted_def)
  have "terminal_status (st q x) = terminal_status (st p x)" if "s \<in> set (sq_steps (pl_program p))" "x \<in> set (st_after s)" for s x
    using st [OF after_in_ids [OF assms(1) that]] assms(3) by auto
  then show ?thesis
    unfolding ready_now_def prog using st [OF assms(4)] assms(3) by (auto simp del: terminal_status.simps)
qed

lemma admit_all:
  assumes "inv timed p" and "set xs \<subseteq> ids p"
  shows "inv timed (fold admit_successor xs p) \<and> admitted {x\<in>set xs. ready_now p x} p (fold admit_successor xs p)"
  using assms
proof (induction xs arbitrary: p)
  case Nil
  then show ?case by (simp add: admitted_refl)
next
  case (Cons x xs)
  let ?q = "admit_successor x p" and ?A = "if ready_now p x then {x} else {}"
  have x: "x \<in> ids p" and frame: "frame p" using Cons.prems coreD(1) by (auto simp: inv_def)
  note step = admit_successor_step [OF Cons.prems(1) x]
  have ids: "ids ?q = ids p" using step(2) by (intro ids_cong) (simp add: admitted_def)
  have IH: "inv timed (fold admit_successor xs ?q) \<and> admitted {y\<in>set xs. ready_now ?q y} ?q (fold admit_successor xs ?q)"
    by (rule Cons.IH) (use step(1) ids Cons.prems(2) in auto)
  have "ready_now ?q y \<longleftrightarrow> ready_now p y \<and> y \<notin> ?A" if "y \<in> set xs" for y
    by (rule ready_now_admitted [OF frame step(2)]) (use that Cons.prems(2) in \<open>auto simp: ready_now_def\<close>)
  then have sets: "?A \<union> {y\<in>set xs. ready_now ?q y} = {y\<in>set (x # xs). ready_now p y}" by (auto split: if_splits)
  from IH have "admitted {y\<in>set xs. ready_now ?q y} ?q (fold admit_successor xs ?q)" by blast
  from admitted_trans [OF step(2) this, unfolded sets] IH show ?case by simp
qed

abbreviation dependants_of :: "'r player \<Rightarrow> step_id \<Rightarrow> step_id set" where
  "dependants_of p i \<equiv> set (dependants (pl_program p) i)"

lemma dependants_ids: "dependants_of p i \<subseteq> ids p"
  by (auto simp: dependants_def ids_def)

lemma admit_successors_step:
  assumes "inv timed p" and "i \<in> ids p"
  shows "inv timed (admit_successors i p)" and "admitted {x\<in>dependants_of p i. ready_now p x} p (admit_successors i p)"
proof -
  have "frame p" using assms(1) coreD(1) by (auto simp: inv_def)
  then have "admit_successors i p = fold admit_successor (dependants (pl_program p) i) p"
    using assms(2) by (auto simp: admit_successors_def frame_def)
  then show "inv timed (admit_successors i p)" "admitted {x\<in>dependants_of p i. ready_now p x} p (admit_successors i p)"
    using admit_all [OF assms(1) dependants_ids] by simp_all
qed

subsection \<open>The end of a step\<close>

definition ended :: "step_id \<Rightarrow> step_status \<Rightarrow> 'r player \<Rightarrow> 'r player \<Rightarrow> bool" where
  "ended i t p q \<longleftrightarrow> retired i t p q \<and> pl_frontier q = remove1 i (pl_frontier p) \<and> pl_state q = pl_state p \<and> pl_failure q = pl_failure p"

lemma retiredD:
  assumes "retired i t p q"
  shows "pl_program q = pl_program p" "ids q = ids p" "frame q" "pl_last_now q = pl_last_now p"
    "x \<in> ids p \<Longrightarrow> st q x = (if x = i then t else st p x)" "x \<in> ids p \<Longrightarrow> x \<noteq> i \<Longrightarrow> run q x = run p x"
    "ru_retries (run q i) = ru_retries (run p i)" "ru_entered (run q i) = ru_entered (run p i)"
  using assms ids_cong [of q p] unfolding retired_def by blast+

lemma ended_inv:
  assumes "inv timed p" and "i \<in> ids p" and "\<not> terminal_status (st p i)" and "terminal_status t" and "ended i t p q"
  shows "inv timed q"
proof -
  have core: "core timed p" and front: "front p" using assms(1) by (simp_all add: inv_def)
  have r: "retired i t p q" and f: "pl_frontier q = remove1 i (pl_frontier p)" using assms(5) by (simp_all add: ended_def)
  have "core timed q" by (rule retired_core [OF core assms(2-4) r])
  moreover have "{x\<in>ids q. st q x = StepReady \<or> st q x = StepRunning} = {x\<in>ids p. st p x = StepReady \<or> st p x = StepRunning} - {i}"
    using retiredD(2,5) [OF r] assms(4) by (auto split: if_splits)
  ultimately show ?thesis using front f by (simp add: inv_def front_def set_remove1_eq)
qed

lemma drop_fields [simp]:
  "pl_program (drop_from_frontier i p) = pl_program p" "ids (drop_from_frontier i p) = ids p" "pl_runner (drop_from_frontier i p) = pl_runner p"
  "st (drop_from_frontier i p) = st p" "run (drop_from_frontier i p) = run p" "frame (drop_from_frontier i p) = frame p"
  "pl_frontier (drop_from_frontier i p) = remove1 i (pl_frontier p)" "pl_entry_order (drop_from_frontier i p) = pl_entry_order p"
  "pl_state (drop_from_frontier i p) = pl_state p" "pl_failure (drop_from_frontier i p) = pl_failure p"
  "pl_last_now (drop_from_frontier i p) = pl_last_now p"
  by (simp_all add: drop_from_frontier_def)

lemma succeed_ends:
  assumes "core timed p" and "i \<in> ids p" and "st p i = StepRunning" and "now = pl_last_now p"
  obtains q where "ended i StepSucceeded p q" and "succeed R i now p = admit_successors i q"
proof -
  have frame: "frame p" by (rule coreD(1) [OF assms(1)])
  obtain s where s: "find_step (pl_program p) i = Some s" "st_id s = i" using found_in_frame [OF frame assms(2)] by metis
  have open_: "ru_entered (run p i)" "\<not> ru_exited (run p i)" "phase (pl_runner p) (st_id s) = Some True"
    using coreD(2) [OF assms(1,2)] assms(3) s(2) by (auto simp: good_def)
  let ?q0 = "update_run (index_of i) (\<lambda>r. r\<lparr>ru_call_duration := now - ru_entered_at r, ru_finished_at := now\<rparr>) p"
  obtain v r where e: "rn_exit R s now (pl_runner p) = (v, r)" by force
  define q1 where "q1 = set_status i StepSucceeded (update_run (index_of i) (\<lambda>r. r\<lparr>ru_exited := True\<rparr>) (?q0\<lparr>pl_runner := r\<rparr>))"
  define q where "q = drop_from_frontier i (q1\<lparr>pl_last_finish := max (pl_last_finish q1) now\<rparr>)"
  have run0: "pl_runs ?q0 ! index_of i = run ?q0 i" by (simp add: run_def)
  have "run ?q0 i = (run p i)\<lparr>ru_call_duration := now - ru_entered_at (run p i), ru_finished_at := now\<rparr>"
    using frame assms(2) by (simp add: run_update_run)
  then have "succeed R i now p = admit_successors i q"
    using s(1) open_ e unfolding succeed_def Let_def run0 by (simp add: q_def q1_def call_exit_def)
  moreover have "phase r = (phase (pl_runner p))(i := Some False)" using exit_phase [OF open_(3), of now] e s(2) by simp
  then have "ended i StepSucceeded p q"
    using frame assms(2-4) open_ by (simp add: ended_def retired_def q_def q1_def view_simps)
  ultimately show thesis using that by blast
qed

lemma end_failed_ends:
  assumes "core timed p" and "i \<in> ids p" and "st p i = StepRunning" and "now = pl_last_now p"
  shows "ended i StepFailed p (end_failed R i now p)"
proof -
  have frame: "frame p" by (rule coreD(1) [OF assms(1)])
  let ?q = "update_run (index_of i) (\<lambda>r. r\<lparr>ru_call_duration := now - ru_entered_at r, ru_finished_at := now\<rparr>) p"
  have open_: "ru_entered (run p i)" "\<not> ru_exited (run p i)" "phase (pl_runner p) i = Some True"
    using coreD(2) [OF assms(1,2)] assms(3) by (auto simp: good_def)
  have "frame ?q" "i \<in> ids ?q" "holds_open ?q i" "phase (pl_runner ?q) i = Some True"
    using frame assms(2) open_ by (simp_all add: holds_open_run run_update_run)
  note n = neutralize_open [OF this, where now = now]
  show ?thesis
    using n frame assms(2-4) open_ unfolding end_failed_def Let_def ended_def retired_def
    by (simp add: view_simps quiet_def)
qed

subsection \<open>Jumps\<close>

text \<open>What an operation on running and waiting steps that are given up leaves of the others.\<close>

definition settled :: "'r player \<Rightarrow> 'r player \<Rightarrow> bool" where
  "settled p q \<longleftrightarrow> pl_program q = pl_program p \<and> pl_last_now q = pl_last_now p \<and> pl_frontier q = pl_frontier p \<and>
     pl_state q = pl_state p \<and> pl_failure q = pl_failure p \<and> pl_entry_order q = pl_entry_order p \<and>
     (\<forall>x\<in>ids p. st q x = st p x \<and> run q x = run p x \<or> \<not> terminal_status (st p x) \<and> st q x = StepSkipped \<or>
        st p x = StepReady \<and> st q x = StepPending) \<and>
     (\<forall>x\<in>ids p. ru_retries (run q x) = ru_retries (run p x) \<and> ru_entered (run q x) = ru_entered (run p x))"

lemma settled_refl: "settled p p"
  by (simp add: settled_def)

lemma settled_trans:
  assumes "settled p q" and "settled q r"
  shows "settled p r"
proof -
  have ids: "ids q = ids p" using assms(1) by (intro ids_cong) (simp add: settled_def)
  have "st r x = st p x \<and> run r x = run p x \<or> \<not> terminal_status (st p x) \<and> st r x = StepSkipped \<or>
      st p x = StepReady \<and> st r x = StepPending" if "x \<in> ids p" for x
  proof -
    have "st q x = st p x \<and> run q x = run p x \<or> \<not> terminal_status (st p x) \<and> st q x = StepSkipped \<or> st p x = StepReady \<and> st q x = StepPending"
      "st r x = st q x \<and> run r x = run q x \<or> \<not> terminal_status (st q x) \<and> st r x = StepSkipped \<or> st q x = StepReady \<and> st r x = StepPending"
      using assms that ids unfolding settled_def by blast+
    then show ?thesis by (elim disjE conjE) simp_all
  qed
  then show ?thesis using assms ids unfolding settled_def by simp
qed

lemma settled_terminal: "settled p q \<Longrightarrow> x \<in> ids p \<Longrightarrow> terminal_status (st p x) \<Longrightarrow> st q x = st p x \<and> run q x = run p x"
  by (auto simp: settled_def)

lemma skip_settles:
  assumes "core timed p" and "i \<in> ids p" and "\<not> terminal_status (st p i)" and "now = pl_last_now p"
  defines "q \<equiv> finish_skipped now i (if holds_open p i then skip_entered R now i p else p)"
  shows "core timed q" "settled p q" "x \<in> ids p \<Longrightarrow> st q x = (if x = i then StepSkipped else st p x)"
proof -
  note e = end_skipped [OF assms(1-4), folded q_def]
  show "core timed q" using retired_core [OF assms(1-3) _ e(1)] by simp
  show "st q x = (if x = i then StepSkipped else st p x)" if "x \<in> ids p" using retiredD(5) [OF e(1) that] .
  have "ru_retries (run q x) = ru_retries (run p x) \<and> ru_entered (run q x) = ru_entered (run p x)" if "x \<in> ids p" for x
    using retiredD(6-8) [OF e(1)] that by (cases "x = i") auto
  moreover have "st q x = st p x \<and> run q x = run p x \<or> \<not> terminal_status (st p x) \<and> st q x = StepSkipped" if "x \<in> ids p" for x
    using retiredD(5,6) [OF e(1) that] assms(3) by (cases "x = i") auto
  moreover have "pl_entry_order q = pl_entry_order p" using e(1) by (simp add: retired_def)
  ultimately show "settled p q"
    using retiredD(1,4) [OF e(1)] e(2) unfolding settled_def quiet_def by blast
qed

lemma skip_ancestors:
  assumes "core timed p" and "set xs \<subseteq> ids p" and "now = pl_last_now p"
  shows "core timed (fold (skip_ancestor R now) xs p) \<and> settled p (fold (skip_ancestor R now) xs p) \<and>
    (\<forall>x\<in>ids p. if x \<in> set xs then terminal_status (st (fold (skip_ancestor R now) xs p) x)
               else st (fold (skip_ancestor R now) xs p) x = st p x)"
  using assms
proof (induction xs arbitrary: p)
  case Nil
  then show ?case by (simp add: settled_refl)
next
  case (Cons i xs)
  let ?q = "skip_ancestor R now i p" and ?r = "fold (skip_ancestor R now) xs (skip_ancestor R now i p)"
  have i: "i \<in> ids p" using Cons.prems(2) by simp
  have bound: "\<not> index_of i \<ge> length (pl_status p)" using frame_bounds(1) [OF coreD(1) [OF Cons.prems(1)] i] by simp
  have q: "core timed ?q" "settled p ?q" "\<forall>x\<in>ids p. st ?q x = (if x = i \<and> \<not> terminal_status (st p i) then StepSkipped else st p x)"
  proof -
    have "core timed ?q \<and> settled p ?q \<and> (\<forall>x\<in>ids p. st ?q x = (if x = i \<and> \<not> terminal_status (st p i) then StepSkipped else st p x))"
    proof (cases "terminal_status (st p i)")
      case True
      then have "?q = p" by (simp add: skip_ancestor_def st_def)
      with True Cons.prems(1) show ?thesis using settled_refl by simp
    next
      case False
      then have "?q = finish_skipped now i (if holds_open p i then skip_entered R now i p else p)"
        using bound by (simp add: skip_ancestor_def st_def)
      with skip_settles [OF Cons.prems(1) i False Cons.prems(3)] False show ?thesis by simp
    qed
    then show "core timed ?q" "settled p ?q" "\<forall>x\<in>ids p. st ?q x = (if x = i \<and> \<not> terminal_status (st p i) then StepSkipped else st p x)" by blast+
  qed
  have same: "ids ?q = ids p" "pl_last_now ?q = pl_last_now p" using q(2) ids_cong [of ?q p] by (auto simp: settled_def)
  have IH: "core timed ?r" "settled ?q ?r" "\<forall>x\<in>ids p. if x \<in> set xs then terminal_status (st ?r x) else st ?r x = st ?q x"
    using Cons.IH [OF q(1)] Cons.prems(2,3) same by auto
  have "if x \<in> set (i # xs) then terminal_status (st ?r x) else st ?r x = st p x" if "x \<in> ids p" for x
    using q(3) IH(3) that by (cases "x \<in> set xs"; cases "x = i") auto
  then show ?case unfolding fold_simps(2) using IH(1) settled_trans [OF q(2) IH(2)] by blast
qed

lemma pending_core:
  assumes "core timed p" and "i \<in> ids p" and "st p i = StepReady \<or> st p i = StepPending"
  shows "core timed (set_status i StepPending p)" (is "core timed ?q")
proof -
  have frame: "frame p" by (rule coreD(1) [OF assms(1)])
  have st: "st ?q x = (if x = i then StepPending else st p x)" if "x \<in> ids p" for x using st_set_status [OF frame assms(2) that] .
  have good: "good ?q x" if "x \<in> ids p" for x
    using coreD(2) [OF assms(1) that] st [OF that] assms(3) by (cases "x = i") (auto simp: good_def)
  have "waited ?q s \<and> (timed \<longrightarrow> on_time ?q s)" if s: "s \<in> set (sq_steps (pl_program p))" for s
  proof -
    have old: "waited p s" "timed \<longrightarrow> on_time p s" using assms(1) s by (auto simp: core_def)
    have "terminal_status (st ?q x) = terminal_status (st p x)" if "x \<in> ids p" for x using st [OF that] assms(3) by auto
    then have ended: "terminal_status (st ?q x) = terminal_status (st p x)" if "x \<in> set (st_after s) \<or> x = st_id s" for x
      using that after_in_ids [OF frame s] s by auto
    have "st ?q (st_id s) = StepReady \<Longrightarrow> st p (st_id s) = StepReady" using st [of "st_id s"] s by (auto split: if_splits)
    then show ?thesis
      using old ended by (simp add: waited_def on_time_def del: terminal_status.simps)
  qed
  then show ?thesis using assms(1) good by (simp add: core_def)
qed

lemma drop_members:
  assumes "core timed p" and "set xs \<subseteq> ids p" and "now = pl_last_now p"
  shows "core timed (fold (drop_member R now goal) xs p) \<and> settled p (fold (drop_member R now goal) xs p) \<and>
    (\<forall>x\<in>ids p. if x \<in> set xs \<and> x \<noteq> goal
       then terminal_status (st (fold (drop_member R now goal) xs p) x) \<or> st (fold (drop_member R now goal) xs p) x = StepPending
       else st (fold (drop_member R now goal) xs p) x = st p x \<and> run (fold (drop_member R now goal) xs p) x = run p x)"
  using assms
proof (induction xs arbitrary: p)
  case Nil
  then show ?case by (simp add: settled_refl)
next
  case (Cons i xs)
  let ?q = "drop_member R now goal i p" and ?r = "fold (drop_member R now goal) xs (drop_member R now goal i p)"
  have i: "i \<in> ids p" and frame: "frame p" using Cons.prems(1,2) coreD(1) by auto
  have bound: "\<not> index_of i \<ge> length (pl_status p)" using frame_bounds(1) [OF frame i] by simp
  have q: "core timed ?q" "settled p ?q"
    "\<forall>x\<in>ids p. if x = i \<and> x \<noteq> goal then terminal_status (st ?q x) \<or> st ?q x = StepPending else st ?q x = st p x \<and> run ?q x = run p x"
  proof -
    have "core timed ?q \<and> settled p ?q \<and>
      (\<forall>x\<in>ids p. if x = i \<and> x \<noteq> goal then terminal_status (st ?q x) \<or> st ?q x = StepPending else st ?q x = st p x \<and> run ?q x = run p x)"
    proof (cases "i = goal \<or> terminal_status (st p i)")
      case True
      then have "?q = p" by (auto simp: drop_member_def st_def)
      with True Cons.prems(1) show ?thesis using settled_refl by auto
    next
      case False
      then have live: "\<not> terminal_status (st p i)" and ne: "i \<noteq> goal" by blast+
      show ?thesis
      proof (cases "holds_open p i")
        case True
        then have eq: "?q = finish_skipped now i (if holds_open p i then skip_entered R now i p else p)"
          using bound False by (simp add: drop_member_def st_def)
        note e = end_skipped [OF Cons.prems(1) i live Cons.prems(3), folded eq]
        have "run ?q x = run p x" if "x \<in> ids p" "x \<noteq> i" for x using retiredD(6) [OF e(1) that] .
        with skip_settles [OF Cons.prems(1) i live Cons.prems(3), folded eq] ne show ?thesis by auto
      next
        case closed: False
        then have eq: "?q = set_status i StepPending p" using bound False by (simp add: drop_member_def st_def)
        have "st p i \<noteq> StepRunning" using closed running_open [OF Cons.prems(1) i] by simp
        then have pend: "st p i = StepReady \<or> st p i = StepPending"
          using live coreD(2) [OF Cons.prems(1) i] by (cases "st p i") (auto simp: good_def)
        then show ?thesis
          using pending_core [OF Cons.prems(1) i pend] st_set_status [OF frame i] ne
          unfolding eq settled_def by auto
      qed
    qed
    then show "core timed ?q" "settled p ?q"
      "\<forall>x\<in>ids p. if x = i \<and> x \<noteq> goal then terminal_status (st ?q x) \<or> st ?q x = StepPending else st ?q x = st p x \<and> run ?q x = run p x" by blast+
  qed
  have same: "ids ?q = ids p" "pl_last_now ?q = pl_last_now p" using q(2) ids_cong [of ?q p] by (auto simp: settled_def)
  have IH: "core timed ?r" "settled ?q ?r"
    "\<forall>x\<in>ids p. if x \<in> set xs \<and> x \<noteq> goal then terminal_status (st ?r x) \<or> st ?r x = StepPending else st ?r x = st ?q x \<and> run ?r x = run ?q x"
    using Cons.IH [OF q(1)] Cons.prems(2,3) same by auto
  have "if x \<in> set (i # xs) \<and> x \<noteq> goal then terminal_status (st ?r x) \<or> st ?r x = StepPending else st ?r x = st p x \<and> run ?r x = run p x"
    if "x \<in> ids p" for x
    using q(3) IH(3) that by (cases "x \<in> set xs"; cases "x = i"; cases "x = goal") auto
  then show ?case unfolding fold_simps(2) using IH(1) settled_trans [OF q(2) IH(2)] by blast
qed

lemma ancestors_in:
  assumes "frame p" and "goal \<in> ids p"
  shows "set (ancestors_of (pl_program p) goal) \<subseteq> ids p" and "goal \<notin> set (ancestors_of (pl_program p) goal)"
    and "s \<in> set (sq_steps (pl_program p)) \<Longrightarrow> st_id s = goal \<Longrightarrow> set (st_after s) \<subseteq> set (ancestors_of (pl_program p) goal)"
proof -
  let ?D = "depends (sq_steps (pl_program p))"
  have built: "built (pl_program p)" using assms(1) by (simp add: frame_def)
  have anc: "set (ancestors_of (pl_program p) goal) = {a. (a, goal) \<in> ?D\<^sup>+}"
    using ancestors_of_set(1) [OF built] assms(2) by (simp add: ids_def)
  have "a \<in> ids p" if "(a, b) \<in> ?D\<^sup>+" for a b
    using that by (induction rule: converse_trancl_induct) (auto simp: depends_def intro: after_in_ids [OF assms(1)])
  then show "set (ancestors_of (pl_program p) goal) \<subseteq> ids p" unfolding anc by blast
  show "goal \<notin> set (ancestors_of (pl_program p) goal)" unfolding anc using built_parts(5) [OF built] by (simp add: acyclic_def)
  show "set (st_after s) \<subseteq> set (ancestors_of (pl_program p) goal)" if "s \<in> set (sq_steps (pl_program p))" "st_id s = goal"
    unfolding anc using that by (auto simp: depends_def)
qed

text \<open>A jump: where it lands, and what it leaves.\<close>

definition jumped :: "step_id \<Rightarrow> 'r player \<Rightarrow> 'r player \<Rightarrow> bool" where
  "jumped goal p q \<longleftrightarrow> goal \<in> ids p \<and> \<not> terminal_status (st p goal) \<and> pl_program q = pl_program p \<and> pl_last_now q = pl_last_now p \<and>
     pl_state q = pl_state p \<and> pl_failure q = pl_failure p \<and> pl_frontier q = [goal] \<and>
     st q goal = (if st p goal = StepRunning then StepRunning else StepReady) \<and>
     (\<forall>x\<in>ids p. x \<noteq> goal \<longrightarrow> (st q x = st p x \<or> \<not> terminal_status (st p x) \<and> st q x = StepSkipped \<or> st p x = StepReady \<and> st q x = StepPending)) \<and>
     (\<forall>x\<in>ids p. ru_retries (run q x) = ru_retries (run p x))"

lemma jump_settled:
  assumes "inv timed p" and "goal \<in> ids p" and "\<not> terminal_status (st p goal)"
  defines "now \<equiv> pl_last_now p"
  defines "p1 \<equiv> fold (skip_ancestor R now) (ancestors_of (pl_program p) goal) p"
  defines "p2 \<equiv> fold (drop_member R now goal) (pl_frontier p1) p1"
  shows "core timed p2" and "settled p p2" and "st p2 goal = st p goal" and "run p2 goal = run p goal"
    and "\<forall>x\<in>ids p. x \<noteq> goal \<longrightarrow> st p2 x \<noteq> StepReady \<and> st p2 x \<noteq> StepRunning"
    and "\<forall>x\<in>set (ancestors_of (pl_program p) goal). terminal_status (st p2 x)"
proof -
  have core: "core timed p" and front: "front p" and frame: "frame p" using assms(1) coreD(1) by (auto simp: inv_def)
  note anc = ancestors_in [OF frame assms(2)]
  have p1: "core timed p1" "settled p p1"
    "\<forall>x\<in>ids p. if x \<in> set (ancestors_of (pl_program p) goal) then terminal_status (st p1 x) else st p1 x = st p x"
    using skip_ancestors [OF core anc(1), of now] unfolding p1_def now_def by blast+
  have same: "ids p1 = ids p" "pl_last_now p1 = now" "pl_frontier p1 = pl_frontier p"
    using p1(2) ids_cong [of p1 p] by (auto simp: settled_def now_def)
  have frontier: "set (pl_frontier p) = {x\<in>ids p. st p x = StepReady \<or> st p x = StepRunning}" using front by (simp add: front_def)
  have p2: "core timed p2" "settled p1 p2"
    "\<forall>x\<in>ids p. if x \<in> set (pl_frontier p) \<and> x \<noteq> goal then terminal_status (st p2 x) \<or> st p2 x = StepPending
       else st p2 x = st p1 x \<and> run p2 x = run p1 x"
    using drop_members [OF p1(1), of "pl_frontier p1" now goal] frontier same unfolding p2_def by auto
  show "core timed p2" by (rule p2(1))
  show "settled p p2" by (rule settled_trans [OF p1(2) p2(2)])
  have "st p1 goal = st p goal" using p1(3) assms(2) anc(2) by auto
  moreover from this have "run p1 goal = run p goal" using p1(2) assms(2,3) unfolding settled_def by auto
  ultimately show "st p2 goal = st p goal" "run p2 goal = run p goal" using p2(3) assms(2) by auto
  show "\<forall>x\<in>ids p. x \<noteq> goal \<longrightarrow> st p2 x \<noteq> StepReady \<and> st p2 x \<noteq> StepRunning"
  proof (intro ballI impI)
    fix x assume x: "x \<in> ids p" "x \<noteq> goal"
    show "st p2 x \<noteq> StepReady \<and> st p2 x \<noteq> StepRunning"
    proof (cases "x \<in> set (pl_frontier p)")
      case True
      then show ?thesis using p2(3) x by auto
    next
      case False
      then have "st p x \<noteq> StepReady" "st p x \<noteq> StepRunning" using frontier x(1) by auto
      moreover have "st p2 x = st p1 x" using p2(3) x False by auto
      ultimately show ?thesis using p1(2) x(1) unfolding settled_def by auto
    qed
  qed
  show "\<forall>x\<in>set (ancestors_of (pl_program p) goal). terminal_status (st p2 x)"
  proof
    fix x assume x: "x \<in> set (ancestors_of (pl_program p) goal)"
    then have "x \<in> ids p" using anc(1) by blast
    then show "terminal_status (st p2 x)" using p1(3) x settled_terminal [OF p2(2), of x] same(1) by auto
  qed
qed

lemma jump_to_step:
  assumes "inv timed p" and "jump_to R goal p = (res, q)"
  shows "case res of Inl e \<Rightarrow> q = p | Inr u \<Rightarrow> inv timed q \<and> jumped goal p q"
proof (cases res)
  case (Inl e)
  then show ?thesis using assms(2) by (auto simp: jump_to_def Let_def split: option.splits if_splits)
next
  case (Inr u)
  have core: "core timed p" and front: "front p" and frame: "frame p" using assms(1) coreD(1) by (auto simp: inv_def)
  from assms(2) Inr obtain s where s: "find_step (pl_program p) goal = Some s" and nt: "\<not> is_terminal p goal"
    and nb: "frontier_behind (pl_program p) goal (pl_frontier p) = None"
    by (auto simp: jump_to_def Let_def split: option.splits if_splits)
  have s': "s \<in> set (sq_steps (pl_program p))" "st_id s = goal" using s find_in_frame [OF frame] by auto
  then have goal: "goal \<in> ids p" by auto
  have live: "\<not> terminal_status (st p goal)" using nt is_terminal_iff [OF frame goal] by simp
  let ?now = "pl_last_now p"
  define p1 where "p1 = fold (skip_ancestor R ?now) (ancestors_of (pl_program p) goal) p"
  define p2 where "p2 = fold (drop_member R ?now goal) (pl_frontier p1) p1"
  note j = jump_settled [OF assms(1) goal live, folded p1_def, folded p2_def]
  let ?p3 = "p2\<lparr>pl_frontier := []\<rparr>"
  have same: "ids p2 = ids p" "pl_program p2 = pl_program p" "pl_last_now p2 = ?now" "pl_state p2 = pl_state p" "pl_failure p2 = pl_failure p"
    using j(2) ids_cong [of p2 p] by (auto simp: settled_def)
  have q: "q = (if st p goal \<noteq> StepRunning
      then admit_to_frontier goal (?now + grace_before s (sq_pacing (pl_program p))) (set_status goal StepReady ?p3)
      else admit_to_frontier goal (ru_ready_at (run ?p3 goal)) ?p3)"
  proof -
    have "q = (if pl_status p2 ! index_of goal \<noteq> StepRunning
        then admit_to_frontier goal (?now + grace_before s (sq_pacing (pl_program p2))) (set_status goal StepReady ?p3)
        else admit_to_frontier goal (ru_ready_at (pl_runs p2 ! index_of goal)) ?p3)"
      using assms(2) s nt nb unfolding p2_def p1_def by (auto simp: jump_to_def Let_def split: if_splits)
    moreover have "pl_status p2 ! index_of goal = st p goal" using j(3) by (simp add: st_def)
    moreover have "pl_runs p2 ! index_of goal = run ?p3 goal" by (simp add: run_def)
    ultimately show ?thesis using same(2) by simp
  qed
  have core3: "core timed ?p3" using j(1) by simp
  have frame3: "frame ?p3" "goal \<in> ids ?p3" using coreD(1) [OF j(1)] goal same by simp_all
  have "inv timed q \<and> jumped goal p q"
  proof (cases "st p goal = StepRunning")
    case True
    then have q: "q = admit_to_frontier goal (ru_ready_at (run ?p3 goal)) ?p3" using q by simp
    have runs: "run q x = run p2 x" if "x \<in> ids p" for x unfolding q using run_admit_to_frontier [OF frame3, of x] that same by simp
    have "core timed q"
      by (rule core_cong [OF j(1)]) (use frame3 runs same in \<open>simp_all add: q\<close>)
    moreover have "front q" using j(5) j(3) True goal same by (auto simp: front_def q)
    moreover have "jumped goal p q"
      unfolding jumped_def using goal live same j(2,3) True runs by (auto simp: q settled_def)
    ultimately show ?thesis by (simp add: inv_def)
  next
    case False
    then have q: "q = admit_to_frontier goal (?now + grace_before s (sq_pacing (pl_program p))) (set_status goal StepReady ?p3)" using q by simp
    have "st p goal = StepPending \<or> st p goal = StepReady"
      using live False coreD(2) [OF core goal] by (cases "st p goal") (auto simp: good_def)
    then have "st ?p3 goal = StepPending \<or> st ?p3 goal = StepReady" using j(3) by simp
    moreover have ended: "\<forall>x\<in>set (st_after s). terminal_status (st ?p3 x)"
      using j(6) ancestors_in(3) [OF frame goal s'] by auto
    moreover have "ru_finished_at (run ?p3 x) \<le> ?now" if timed "x \<in> set (st_after s)" for x
    proof -
      have "x \<in> ids p2" using after_in_ids [OF frame s'(1) that(2)] same by simp
      then obtain s2 where "s2 \<in> set (sq_steps (pl_program p2))" "st_id s2 = x" by (auto simp: ids_def)
      then have "on_time p2 s2" "terminal_status (st p2 x)" using j(1) that ended by (auto simp: core_def)
      then show ?thesis using \<open>st_id s2 = x\<close> same(3) by (auto simp: on_time_def)
    qed
    ultimately have "core timed q"
      unfolding q using admit_core [OF core3, of s "?now + grace_before s (sq_pacing (pl_program p))"] s' same by simp
    moreover have "front q"
      unfolding q using j(5) same by (intro admit_front [OF frame3]) auto
    moreover have "ru_retries (run q x) = ru_retries (run p x)" if "x \<in> ids p" for x
      using j(2) that same goal frame3 by (simp add: q run_admit_to_frontier settled_def)
    moreover have "st q x = (if x = goal then StepReady else st p2 x)" if "x \<in> ids p" for x
      using st_set_status [OF frame3, of x] that same by (simp add: q)
    ultimately show ?thesis
      unfolding inv_def jumped_def using goal live same j(2) False by (auto simp: q settled_def)
  qed
  then show ?thesis using Inr by simp
qed

end

end
