(* ===== verification/Player_Pump.thy ===== *)
theory Player_Pump
  imports Player_Steps
begin

text \<open>
  The pump of \<open>src/kernel/sequence/player.cpp\<close>: what the status of a call does to the run, both passes, the loop and its limit.
  \<open>weight\<close> bounds the rounds in which a step can still make progress: one that it is entered or retried in and one that it ends in.
\<close>

context observed_runner
begin

section \<open>What the pump may change\<close>

definition weight :: "'r player \<Rightarrow> step_id \<Rightarrow> nat" where
  "weight p i = (if terminal_status (st p i) then 0 else if st p i = StepRunning \<and> ru_retries (run p i) \<noteq> 0 then 1 else 2)"

definition complete :: "'r player \<Rightarrow> bool" where
  "complete p \<longleftrightarrow> (\<forall>x\<in>ids p. \<not> ready_now p x)"

definition straight :: "'r player \<Rightarrow> bool" where
  "straight p \<longleftrightarrow> (\<forall>s\<in>set (sq_steps (pl_program p)). st_on_error s \<noteq> Goto)"

definition advanced :: "'r player \<Rightarrow> 'r player \<Rightarrow> bool" where
  "advanced p q \<longleftrightarrow> pl_program q = pl_program p \<and> pl_last_now q = pl_last_now p \<and>
     (pl_state q = pl_state p \<and> pl_failure q = pl_failure p \<or>
      pl_state q = PlayInterrupted \<and> pl_frontier q = [] \<and> pl_failure q \<noteq> None) \<and>
     (\<forall>x\<in>ids p. (terminal_status (st p x) \<longrightarrow> st q x = st p x) \<and> weight q x \<le> weight p x) \<and>
     (straight p \<and> complete p \<longrightarrow> pl_state q = PlayInterrupted \<or> complete q)"

lemma advancedD:
  assumes "advanced p q"
  shows "pl_program q = pl_program p" "ids q = ids p" "pl_last_now q = pl_last_now p" "straight q = straight p"
    "x \<in> ids p \<Longrightarrow> terminal_status (st p x) \<Longrightarrow> st q x = st p x" "x \<in> ids p \<Longrightarrow> weight q x \<le> weight p x"
  using assms ids_cong [of q p] unfolding advanced_def straight_def by (blast, blast, blast, simp, blast, blast)

lemma advanced_refl: "advanced p p"
  by (simp add: advanced_def)

lemma advanced_trans:
  assumes "advanced p q" and "advanced q r" and "pl_state q \<noteq> PlayInterrupted"
  shows "advanced p r"
proof -
  note p = advancedD [OF assms(1)] and q = advancedD [OF assms(2)]
  have "(terminal_status (st p x) \<longrightarrow> st r x = st p x) \<and> weight r x \<le> weight p x" if "x \<in> ids p" for x
    using p(5,6) [OF that] q(5,6) [unfolded p(2), OF that] by (metis le_trans)
  moreover have "straight p \<and> complete p \<longrightarrow> pl_state r = PlayInterrupted \<or> complete r"
    using assms p(4) unfolding advanced_def by blast
  moreover have "pl_state r = pl_state p \<and> pl_failure r = pl_failure p \<or>
      pl_state r = PlayInterrupted \<and> pl_frontier r = [] \<and> pl_failure r \<noteq> None"
    using assms unfolding advanced_def by metis
  ultimately show ?thesis using p(1,3) q(1,3) unfolding advanced_def by simp
qed

lemma ready_now_after_end:
  assumes "frame p" and "retired i t p q" and "terminal_status t" and "x \<in> ids p" and "ready_now q x"
  shows "ready_now p x \<or> x \<in> dependants_of p i"
proof (cases "x \<in> dependants_of p i")
  case False
  have st: "st q y = (if y = i then t else st p y)" if "y \<in> ids p" for y by (rule retiredD(5) [OF assms(2) that])
  have "terminal_status (st p y)" if s: "s \<in> set (sq_steps (pl_program p))" "st_id s = x" "y \<in> set (st_after s)" for s y
  proof -
    have "y \<noteq> i" using False s by (auto simp: dependants_def)
    moreover have "terminal_status (st q y)" using assms(5) s retiredD(1) [OF assms(2)] by (auto simp: ready_now_def)
    ultimately show ?thesis using st [OF after_in_ids [OF assms(1) s(1,3)]] by simp
  qed
  moreover have "st p x = StepPending" using st [OF assms(4)] assms(3,5) by (auto simp: ready_now_def split: if_splits)
  ultimately have "ready_now p x" by (simp add: ready_now_def del: terminal_status.simps)
  then show ?thesis by blast
qed simp

lemma ended_weights:
  assumes "retired i t p q" and "\<not> terminal_status (st p i)" and "terminal_status t" and "x \<in> ids p"
  shows "(terminal_status (st p x) \<longrightarrow> st q x = st p x) \<and> weight q x \<le> weight p x \<and> (x = i \<longrightarrow> weight q x = 0)"
  using retiredD(5) [OF assms(1,4)] retiredD(6) [OF assms(1,4)] assms(2,3)
  by (cases "x = i") (simp_all add: weight_def del: terminal_status.simps)

lemma end_advances:
  assumes "inv timed p" and "i \<in> ids p" and "\<not> terminal_status (st p i)" and "terminal_status t" and "ended i t p q"
  shows "inv timed (admit_successors i q)" and "advanced p (admit_successors i q)" and "weight (admit_successors i q) i = 0"
proof -
  have frame: "frame p" using assms(1) coreD(1) by (auto simp: inv_def)
  have r: "retired i t p q" using assms(5) by (simp add: ended_def)
  have inv: "inv timed q" by (rule ended_inv [OF assms(1-5)])
  have i: "i \<in> ids q" "ids q = ids p" "pl_program q = pl_program p" "frame q" using retiredD(1-3) [OF r] assms(2) by simp_all
  note a = admit_successors_step [OF inv i(1)]
  show "inv timed (admit_successors i q)" by (rule a(1))
  let ?A = "{x\<in>dependants_of q i. ready_now q x}" and ?r = "admit_successors i q"
  have st: "st ?r x = (if x \<in> ?A then StepReady else st q x)" and retries: "ru_retries (run ?r x) = ru_retries (run q x)" if "x \<in> ids p" for x
    using a(2) that i(2) unfolding admitted_def by auto
  have same: "terminal_status (st ?r x) = terminal_status (st q x)" "weight ?r x = weight q x" if "x \<in> ids p" for x
    using st [OF that] retries [OF that] by (auto simp: weight_def ready_now_def)
  have w: "(terminal_status (st p x) \<longrightarrow> st ?r x = st p x) \<and> weight ?r x \<le> weight p x \<and> (x = i \<longrightarrow> weight ?r x = 0)" if "x \<in> ids p" for x
    using ended_weights [OF r assms(3,4) that] same [OF that] st [OF that] by (auto simp: ready_now_def)
  have "complete ?r" if "complete p"
    unfolding complete_def
  proof
    fix x assume "x \<in> ids ?r"
    then have x: "x \<in> ids p" "x \<in> ids q" using a(2) i(2) ids_cong [of ?r q] by (auto simp: admitted_def)
    have "ready_now ?r x \<longleftrightarrow> ready_now q x \<and> x \<notin> ?A"
      by (rule ready_now_admitted [OF i(4) a(2) _ x(2)]) (auto simp: ready_now_def)
    then show "\<not> ready_now ?r x"
      using ready_now_after_end [OF frame r assms(4) x(1)] that x i(3) by (auto simp: complete_def)
  qed
  then show "advanced p ?r" "weight ?r i = 0"
    using a(2) i(3) w assms(2,5) retiredD(4) [OF r] unfolding advanced_def admitted_def ended_def by auto
qed

section \<open>Failures and statuses\<close>

lemma abort_advances:
  assumes "inv timed p" and "now = pl_last_now p"
  shows "inv timed (abort_run R e now p)" and "pl_state (abort_run R e now p) = PlayInterrupted"
    and "x \<in> ids p \<Longrightarrow> weight p x = 0 \<Longrightarrow> weight (abort_run R e now p) x = 0"
    and "advanced p (abort_run R e now p)"
proof -
  let ?p = "p\<lparr>pl_failure := Some e\<rparr>"
  have core: "core timed (q\<lparr>pl_failure := f\<rparr>) = core timed q" for q f by (rule same_core) (simp add: same_core_def)
  have core': "core timed (q\<lparr>pl_state := f\<rparr>) = core timed q" for q f by (rule same_core) (simp add: same_core_def)
  have inv: "inv timed ?p" using assms(1) by (simp add: inv_def front_def core)
  note u = unwind_step [OF inv, of now]
  have now: "now = pl_last_now ?p" using assms(2) by simp
  have eq: "abort_run R e now p = (unwind R now ?p)\<lparr>pl_state := PlayInterrupted\<rparr>"
    by (cases "unwind R now ?p") (simp add: abort_run_def set_state_def)
  show "inv timed (abort_run R e now p)" using u(1) [OF now] unfolding eq by (simp add: inv_def front_def core')
  show "pl_state (abort_run R e now p) = PlayInterrupted" by (simp add: eq)
  have st: "st (unwind R now ?p) x = (if st p x = StepReady \<or> st p x = StepRunning then StepSkipped else st p x)"
    and run: "ru_retries (run (unwind R now ?p) x) = ru_retries (run p x)" if "x \<in> ids p" for x
    using u(5) [OF now] that unfolding swept_def by auto
  have w: "(terminal_status (st p x) \<longrightarrow> st (unwind R now ?p) x = st p x) \<and> weight (unwind R now ?p) x \<le> weight p x" if "x \<in> ids p" for x
    using st [OF that] run [OF that] by (auto simp: weight_def)
  have weight: "weight (q\<lparr>pl_state := f\<rparr>) x = weight q x" for q f x by (simp add: weight_def)
  show "weight (abort_run R e now p) x = 0" if "x \<in> ids p" "weight p x = 0" using w [OF that(1)] that(2) by (simp add: eq weight)
  have "pl_program (unwind R now ?p) = pl_program p" "pl_last_now (unwind R now ?p) = pl_last_now p"
    using u(5) [OF now] by (simp_all add: swept_def)
  then show "advanced p (abort_run R e now p)"
    using u(2,4) [OF now] w unfolding eq advanced_def by (simp add: weight)
qed

lemma jump_weights:
  assumes "jumped goal p q" and "x \<in> ids p"
  shows "(terminal_status (st p x) \<longrightarrow> st q x = st p x) \<and> weight q x \<le> weight p x"
proof -
  have "ru_retries (run q x) = ru_retries (run p x)" using assms unfolding jumped_def by blast
  moreover have "x \<noteq> goal \<Longrightarrow> st q x = st p x \<or> \<not> terminal_status (st p x) \<and> st q x = StepSkipped \<or> st p x = StepReady \<and> st q x = StepPending"
    using assms unfolding jumped_def by blast
  moreover have "x = goal \<Longrightarrow> \<not> terminal_status (st p x) \<and> st q x = (if st p x = StepRunning then StepRunning else StepReady)"
    using assms unfolding jumped_def by blast
  ultimately show ?thesis by (cases "x = goal") (auto simp: weight_def)
qed

lemma fail_step_step:
  assumes "inv timed p" and "i \<in> ids p" and "st p i = StepRunning" and "now = pl_last_now p"
  shows "inv timed (fail_step R i code now p)" and "advanced p (fail_step R i code now p)" and "weight (fail_step R i code now p) i = 0"
proof -
  have core: "core timed p" and frame: "frame p" using assms(1) coreD(1) by (auto simp: inv_def)
  let ?q = "end_failed R i now p"
  have ended: "ended i StepFailed p ?q" by (rule end_failed_ends [OF core assms(2-4)])
  then have r: "retired i StepFailed p ?q" by (simp add: ended_def)
  have live: "\<not> terminal_status (st p i)" "terminal_status StepFailed" using assms(3) by simp_all
  have inv: "inv timed ?q" by (rule ended_inv [OF assms(1,2) live ended])
  note q = retiredD(1-4) [OF r]
  have now: "now = pl_last_now ?q" using assms(4) q(4) by simp
  obtain s where s: "find_step (pl_program p) i = Some s" "s \<in> set (sq_steps (pl_program p))" using found_in_frame [OF frame assms(2)] by metis
  note w = ended_weights [OF r live]
  have zero: "weight ?q i = 0" using w [OF assms(2)] by blast
  note ab = abort_advances [OF inv now]
  have abort: "inv timed (abort_run R e now ?q) \<and> advanced p (abort_run R e now ?q) \<and> weight (abort_run R e now ?q) i = 0" for e
  proof -
    have "(terminal_status (st p x) \<longrightarrow> st (abort_run R e now ?q) x = st p x) \<and> weight (abort_run R e now ?q) x \<le> weight p x" if "x \<in> ids p" for x
      using w [OF that] advancedD(5,6) [OF ab(4) [of e], of x] that q(2) by (metis le_trans)
    then have "advanced p (abort_run R e now ?q)"
      using ab(2,4) [of e] q(1,4) ended unfolding advanced_def ended_def by auto
    then show ?thesis using ab(1,3) assms(2) q(2) zero by simp
  qed
  have "inv timed (fail_step R i code now p) \<and> advanced p (fail_step R i code now p) \<and> weight (fail_step R i code now p) i = 0"
  proof (cases "st_on_error s")
    case Continue
    then have "fail_step R i code now p = admit_successors i ?q" using s q by (simp add: fail_step_def Let_def)
    then show ?thesis using end_advances [OF assms(1,2) live ended] by simp
  next
    case Goto
    then have not_straight: "\<not> straight p" using s(2) by (auto simp: straight_def)
    show ?thesis
    proof (cases "resolve_label (pl_program p) (st_on_error_target s)")
      case None
      then show ?thesis using abort Goto s q by (simp add: fail_step_def Let_def)
    next
      case (Some goal)
      obtain res q' where j: "jump_to R goal ?q = (res, q')" by force
      show ?thesis
      proof (cases res)
        case (Inl e)
        then have "q' = ?q" using jump_to_step [OF inv j] by simp
        then show ?thesis using abort Goto s q Some j Inl by (simp add: fail_step_def Let_def)
      next
        case (Inr u)
        then have q': "inv timed q'" "jumped goal ?q q'" using jump_to_step [OF inv j] by simp_all
        have eq: "fail_step R i code now p = q'" using Goto s q Some j Inr by (simp add: fail_step_def Let_def)
        have "(terminal_status (st p x) \<longrightarrow> st q' x = st p x) \<and> weight q' x \<le> weight p x" if "x \<in> ids p" for x
          using w [OF that] jump_weights [OF q'(2), of x] that q(2) by (metis le_trans)
        then have "advanced p q'"
          using q'(2) q ended not_straight unfolding advanced_def jumped_def ended_def by auto
        moreover have "weight q' i = 0" using jump_weights [OF q'(2), of i] zero assms(2) q(2) by simp
        ultimately show ?thesis using q'(1) eq by simp
      qed
    qed
  qed (use abort s q in \<open>simp_all add: fail_step_def Let_def\<close>)
  then show "inv timed (fail_step R i code now p)" "advanced p (fail_step R i code now p)" "weight (fail_step R i code now p) i = 0" by blast+
qed

lemma succeed_step:
  assumes "inv timed p" and "i \<in> ids p" and "st p i = StepRunning" and "now = pl_last_now p"
  shows "inv timed (succeed R i now p)" and "advanced p (succeed R i now p)" and "weight (succeed R i now p) i = 0"
proof -
  have core: "core timed p" using assms(1) by (simp add: inv_def)
  have live: "\<not> terminal_status (st p i)" "terminal_status StepSucceeded" using assms(3) by simp_all
  obtain q where "ended i StepSucceeded p q" "succeed R i now p = admit_successors i q"
    by (rule succeed_ends [OF core assms(2-4)])
  then show "inv timed (succeed R i now p)" "advanced p (succeed R i now p)" "weight (succeed R i now p) i = 0"
    using end_advances [OF assms(1,2) live] by simp_all
qed

section \<open>Entries\<close>

text \<open>A waiting step is entered, or a running one entered again; the other steps are left as they are.\<close>

definition started :: "step_id \<Rightarrow> 'r player \<Rightarrow> 'r player \<Rightarrow> bool" where
  "started i p q \<longleftrightarrow> pl_program q = pl_program p \<and> frame q \<and> pl_last_now q = pl_last_now p \<and> pl_frontier q = pl_frontier p \<and>
     pl_state q = pl_state p \<and> pl_failure q = pl_failure p \<and>
     pl_entry_order q = (if ru_entered (run p i) then pl_entry_order p else pl_entry_order p @ [i]) \<and>
     (\<forall>x\<in>ids p. st q x = (if x = i then StepRunning else st p x)) \<and> (\<forall>x\<in>ids p. x \<noteq> i \<longrightarrow> run q x = run p x) \<and>
     ru_entered (run q i) \<and> \<not> ru_exited (run q i) \<and> ru_retries (run q i) \<le> 1 \<and> ru_ready_at (run q i) = ru_ready_at (run p i) \<and>
     ru_finished_at (run q i) = ru_finished_at (run p i) \<and> ru_entered_at (run q i) = pl_last_now p \<and>
     phase (pl_runner q) = (phase (pl_runner p))(i := Some True)"

lemma started_core:
  assumes "core timed p" and "i \<in> ids p" and "st p i = StepReady \<or> st p i = StepRunning" and "started i p q"
    and "timed \<longrightarrow> ru_ready_at (run p i) \<le> pl_last_now p"
  shows "core timed q"
proof -
  note d = assms(4) [unfolded started_def]
  have frame: "frame p" by (rule coreD(1) [OF assms(1)])
  have prog: "pl_program q = pl_program p" "pl_last_now q = pl_last_now p" "frame q" using d by simp_all
  have st: "st q x = (if x = i then StepRunning else st p x)" if "x \<in> ids p" for x using d that by blast
  have run: "run q x = run p x" if "x \<in> ids p" "x \<noteq> i" for x using d that by blast
  have "good q x" if "x \<in> ids p" for x
    using coreD(2) [OF assms(1) that] st [OF that] run [OF that] d by (cases "x = i") (simp_all add: good_def)
  moreover have "waited q s \<and> (timed \<longrightarrow> on_time q s)" if s: "s \<in> set (sq_steps (pl_program p))" for s
  proof -
    have i: "st_id s \<in> ids p" using s by simp
    have old: "waited p s" "timed \<longrightarrow> on_time p s" using assms(1) s by (auto simp: core_def)
    have wait: "st p (st_id s) = StepReady \<or> ru_entered (run p (st_id s))" if "st q (st_id s) = StepReady \<or> ru_entered (run q (st_id s))"
    proof (cases "st_id s = i")
      case True
      then show ?thesis using assms(3) coreD(2) [OF assms(1,2)] by (auto simp: good_def)
    next
      case False
      then show ?thesis using that st [OF i] run [OF i] by simp
    qed
    have ended: "terminal_status (st p x) \<Longrightarrow> terminal_status (st q x) \<and> run q x = run p x" if "x \<in> set (st_after s)" for x
      using after_in_ids [OF frame s that] st run assms(3) by (cases "x = i") auto
    have "waited q s" using old(1) wait ended unfolding waited_def by blast
    moreover have "on_time q s" if timed
    proof -
      have o: "on_time p s" using old(2) that by simp
      have done_: "terminal_status (st q (st_id s)) \<Longrightarrow> ru_finished_at (run q (st_id s)) \<le> pl_last_now p"
        using o st [OF i] run [OF i] by (cases "st_id s = i") (auto simp: on_time_def)
      have entered: "ru_ready_at (run q (st_id s)) \<le> ru_entered_at (run q (st_id s)) \<and> ru_entered_at (run q (st_id s)) \<le> pl_last_now p"
        if "ru_entered (run q (st_id s))"
        using o that run [OF i] d assms(5) \<open>timed\<close> by (cases "st_id s = i") (simp_all add: on_time_def)
      have ready: "ru_ready_at (run q (st_id s)) = ru_ready_at (run p (st_id s))" using run [OF i] d by (cases "st_id s = i") simp_all
      have "ru_finished_at (run q x) + grace_before s (sq_pacing (pl_program p)) \<le> ru_ready_at (run p (st_id s))"
        if "st q (st_id s) = StepReady \<or> ru_entered (run q (st_id s))" "x \<in> set (st_after s)" for x
        using o old(1) wait [OF that(1)] ended [OF that(2)] that(2) by (simp add: on_time_def waited_def del: terminal_status.simps)
      then show ?thesis unfolding on_time_def prog ready using done_ entered [unfolded ready] by blast
    qed
    ultimately show ?thesis by blast
  qed
  moreover have "distinct (pl_entry_order q)" "set (pl_entry_order q) = {x\<in>ids p. ru_entered (run q x)}"
  proof -
    have order: "distinct (pl_entry_order p)" "set (pl_entry_order p) = {x\<in>ids p. ru_entered (run p x)}" using assms(1) by (simp_all add: core_def)
    show "distinct (pl_entry_order q)" using order d by auto
    have "{x\<in>ids p. ru_entered (run q x)} = insert i {x\<in>ids p. ru_entered (run p x)}" using run d assms(2) by auto
    then show "set (pl_entry_order q) = {x\<in>ids p. ru_entered (run q x)}" using order(2) d assms(2) by auto
  qed
  ultimately show ?thesis using prog ids_cong [OF prog(1)] by (simp add: core_def)
qed

lemma started_front:
  assumes "front p" and "i \<in> ids p" and "st p i = StepReady \<or> st p i = StepRunning" and "started i p q"
  shows "front q"
proof -
  have "ids q = ids p" "pl_frontier q = pl_frontier p" using assms(4) ids_cong [of q p] by (simp_all add: started_def)
  moreover have "(st q x = StepReady \<or> st q x = StepRunning) = (st p x = StepReady \<or> st p x = StepRunning)" if "x \<in> ids p" for x
    using assms(3,4) that unfolding started_def by simp
  ultimately show ?thesis using assms(1) unfolding front_def by auto
qed

lemma started_weights:
  assumes "st p i = StepReady \<or> st p i = StepRunning" and "started i p q" and "ru_retries (run p i) = 0 \<or> ru_retries (run q i) \<noteq> 0" and "x \<in> ids p"
  shows "(terminal_status (st p x) \<longrightarrow> st q x = st p x) \<and> weight q x \<le> weight p x"
  using assms unfolding started_def by (cases "x = i") (auto simp: weight_def)

lemma started_advances:
  assumes "frame p" and "i \<in> ids p" and "st p i = StepReady \<or> st p i = StepRunning" and "started i p q"
    and "ru_retries (run p i) = 0 \<or> ru_retries (run q i) \<noteq> 0"
  shows "advanced p q"
proof -
  have prog: "pl_program q = pl_program p" "ids q = ids p" using assms(4) ids_cong [of q p] by (simp_all add: started_def)
  have st: "st q x = (if x = i then StepRunning else st p x)" if "x \<in> ids p" for x using assms(4) that by (simp add: started_def)
  have "terminal_status (st q y) = terminal_status (st p y)" if "s \<in> set (sq_steps (pl_program p))" "y \<in> set (st_after s)" for s y
    using st [OF after_in_ids [OF assms(1) that]] assms(3) by auto
  then have "ready_now q x \<Longrightarrow> ready_now p x" if "x \<in> ids p" for x
    unfolding ready_now_def prog using st [OF that] by (auto simp del: terminal_status.simps split: if_splits)
  then have "complete p \<Longrightarrow> complete q" unfolding complete_def prog by blast
  then show ?thesis using started_weights [OF assms(3-5)] assms(4) unfolding advanced_def started_def by auto
qed

lemma enter_starts:
  assumes "core timed p" and "s \<in> set (sq_steps (pl_program p))" and "st p (st_id s) = StepReady" and "now = pl_last_now p"
  shows "started (st_id s) p (snd (call_enter R s now (mark_entered R s now p)))"
    and "ru_retries (run (snd (call_enter R s now (mark_entered R s now p))) (st_id s)) = ru_retries (run p (st_id s))"
proof -
  let ?i = "st_id s"
  have frame: "frame p" and i: "?i \<in> ids p" using coreD(1) [OF assms(1)] assms(2) by auto
  have closed: "\<not> ru_entered (run p ?i)" "phase (pl_runner p) ?i = Some False" "ru_retries (run p ?i) \<le> 1"
    using coreD(2) [OF assms(1) i] assms(3) by (simp_all add: good_def)
  obtain v r where e: "rn_enter R s now (pl_runner p) = (v, r)" by force
  have ph: "phase r = (phase (pl_runner p))(?i := Some True)" using enter_phase [OF closed(2), of now] e by simp
  let ?m = "update_run (index_of ?i) (\<lambda>r. r\<lparr>ru_entered := True, ru_exited := False, ru_entered_at := now,
      ru_declared := rn_declared_duration R s (pl_runner p)\<rparr>) (set_status ?i StepRunning p)"
  let ?n = "?m\<lparr>pl_entry_order := pl_entry_order ?m @ [?i]\<rparr>"
  have "mark_entered R s now p = ?n \<or> mark_entered R s now p = ?n\<lparr>pl_anything_entered := True, pl_first_entry := now\<rparr>"
    by (simp add: mark_entered_def Let_def)
  then have "snd (call_enter R s now (mark_entered R s now p)) = ?n\<lparr>pl_runner := r\<rparr> \<or>
      snd (call_enter R s now (mark_entered R s now p)) = ?n\<lparr>pl_anything_entered := True, pl_first_entry := now, pl_runner := r\<rparr>"
    using e by (auto simp: call_enter_def)
  moreover have "started ?i p (?n\<lparr>pl_runner := r\<rparr>)" "started ?i p (?n\<lparr>pl_anything_entered := True, pl_first_entry := now, pl_runner := r\<rparr>)"
    using frame i closed ph assms(4) by (simp_all add: started_def view_simps)
  moreover have "ru_retries (run (?n\<lparr>pl_runner := r\<rparr>) ?i) = ru_retries (run p ?i)"
    "ru_retries (run (?n\<lparr>pl_anything_entered := True, pl_first_entry := now, pl_runner := r\<rparr>) ?i) = ru_retries (run p ?i)"
    using frame i by (simp_all add: view_simps)
  ultimately show "started ?i p (snd (call_enter R s now (mark_entered R s now p)))"
    "ru_retries (run (snd (call_enter R s now (mark_entered R s now p))) ?i) = ru_retries (run p ?i)" by metis+
qed

lemma retry_starts:
  assumes "core timed p" and "s \<in> set (sq_steps (pl_program p))" and "st p (st_id s) = StepRunning" and "now = pl_last_now p"
    and "ru_retries (run p (st_id s)) < max_retries_per_step"
  defines "q \<equiv> update_run (index_of (st_id s)) (\<lambda>r. r\<lparr>ru_exited := False, ru_entered_at := now\<rparr>)
    (neutralize R (st_id s) now (update_run (index_of (st_id s)) (\<lambda>r. r\<lparr>ru_retries := ru_retries r + 1\<rparr>) p))"
  shows "started (st_id s) p (snd (call_enter R s now q))" and "ru_retries (run (snd (call_enter R s now q)) (st_id s)) = 1"
    and "ru_retries (run p (st_id s)) = 0"
proof -
  let ?i = "st_id s" and ?u = "update_run (index_of (st_id s)) (\<lambda>r. r\<lparr>ru_retries := ru_retries r + 1\<rparr>) p"
  have frame: "frame p" and i: "?i \<in> ids p" using coreD(1) [OF assms(1)] assms(2) by auto
  have op: "ru_entered (run p ?i)" "\<not> ru_exited (run p ?i)" "phase (pl_runner p) ?i = Some True"
    using coreD(2) [OF assms(1) i] assms(3) by (auto simp: good_def)
  show fresh: "ru_retries (run p ?i) = 0" using assms(5) by (simp add: max_retries_per_step_def)
  have u: "frame ?u" "?i \<in> ids ?u" "holds_open ?u ?i" "phase (pl_runner ?u) ?i = Some True"
    using frame i op by (simp_all add: holds_open_run run_update_run)
  note n = neutralize_open [OF u, where now = now]
  have q: "frame q" "ids q = ids p" using n by (simp_all add: q_def)
  have runs: "run q x = (if x = ?i then (run p ?i)\<lparr>ru_retries := 1, ru_exited := False, ru_entered_at := now\<rparr> else run p x)" if "x \<in> ids p" for x
    using n(2,7,9) frame i that fresh unfolding q_def by (simp add: run_update_run)
  obtain v r where e: "rn_enter R s now (pl_runner q) = (v, r)" by force
  have "phase (pl_runner q) = (phase (pl_runner p))(?i := Some False)" using n(8) by (simp add: q_def)
  then have ph: "phase r = (phase (pl_runner p))(?i := Some True)" using enter_phase [of "pl_runner q" s now] e by simp
  have eq: "snd (call_enter R s now q) = q\<lparr>pl_runner := r\<rparr>" using e by (simp add: call_enter_def)
  have same: "pl_program q = pl_program p" "pl_last_now q = pl_last_now p" "pl_entry_order q = pl_entry_order p" "st q = st p"
    "pl_frontier q = pl_frontier p" "pl_state q = pl_state p" "pl_failure q = pl_failure p"
    using n(1,3-6) by (simp_all add: q_def quiet_def)
  show "started ?i p (snd (call_enter R s now q))"
    using q(1) runs i op same ph assms(3,4) unfolding eq started_def by simp
  show "ru_retries (run (snd (call_enter R s now q)) ?i) = 1" using runs [OF i] by (simp add: eq)
qed

section \<open>The status of a call\<close>

definition steady :: "'r player \<Rightarrow> 'r player \<Rightarrow> bool" where
  "steady p q \<longleftrightarrow> pl_program q = pl_program p \<and> pl_frontier q = pl_frontier p \<and> pl_state q = pl_state p \<and>
     (\<forall>x\<in>ids p. st q x = st p x \<and> ru_ready_at (run q x) = ru_ready_at (run p x))"

lemma steady_refl: "steady p p"
  by (simp add: steady_def)

lemma steady_trans: "steady p q \<Longrightarrow> steady q r \<Longrightarrow> steady p r"
  using ids_cong [of q p] by (simp add: steady_def)

lemma on_status_step:
  assumes "inv timed p" and "i \<in> ids p" and "st p i = StepRunning" and "now = pl_last_now p" and "pl_state p \<noteq> PlayInterrupted"
  shows "inv timed (on_status R i v now p) \<and> advanced p (on_status R i v now p) \<and>
    (weight (on_status R i v now p) i = 0 \<or> steady p (on_status R i v now p)) \<and>
    (v \<noteq> StatusRunning \<longrightarrow> weight (on_status R i v now p) i < weight p i)"
proof -
  have core: "core timed p" and front: "front p" and frame: "frame p" using assms(1) coreD(1) by (auto simp: inv_def)
  obtain s where s: "find_step (pl_program p) i = Some s" "s \<in> set (sq_steps (pl_program p))" "st_id s = i"
    by (rule found_in_frame [OF frame assms(2)])
  have live: "weight p i > 0" using assms(3) by (simp add: weight_def)
  note succeed = succeed_step [OF assms(1-4)] and failed = fail_step_step [OF assms(1-4)]
  let ?code = "rn_last_error R s (pl_runner p)"
  have ends: ?thesis if "on_status R i v now p = succeed R i now p \<or> on_status R i v now p = fail_step R i ?code now p"
    using that succeed failed [of ?code] live by auto
  define retry where "retry \<longleftrightarrow> may_retry s ?code \<and> ru_retries (pl_runs p ! index_of i) < max_retries_per_step"
  have again: ?thesis if v: "v \<noteq> StatusRunning" "v \<noteq> StatusSuccess" and retry
  proof -
    have few: "ru_retries (run p (st_id s)) < max_retries_per_step" using \<open>retry\<close> s(3) by (simp add: retry_def run_def)
    define q where "q = update_run (index_of i) (\<lambda>r. r\<lparr>ru_exited := False, ru_entered_at := now\<rparr>)
      (neutralize R i now (update_run (index_of i) (\<lambda>r. r\<lparr>ru_retries := ru_retries r + 1\<rparr>) p))"
    obtain v' q' where e: "call_enter R s now q = (v', q')" by force
    have run': "st p (st_id s) = StepRunning" using assms(3) s(3) by simp
    note r = retry_starts [OF core s(2) run' assms(4) few, unfolded s(3), folded q_def, unfolded e snd_conv]
    have on: "st p i = StepReady \<or> st p i = StepRunning" using assms(3) by simp
    have order: "timed \<longrightarrow> ru_ready_at (run p i) \<le> pl_last_now p"
    proof
      assume timed
      then have "on_time p s" using core s(2) by (simp add: core_def)
      moreover have "ru_entered (run p i)" using coreD(2) [OF core assms(2)] assms(3) by (simp add: good_def)
      ultimately show "ru_ready_at (run p i) \<le> pl_last_now p" using s(3) by (auto simp: on_time_def)
    qed
    have q': "inv timed q'" using started_core [OF core assms(2) on r(1) order] started_front [OF front assms(2) on r(1)] by (simp add: inv_def)
    have adv: "advanced p q'" by (rule started_advances [OF frame assms(2) on r(1)]) (simp add: r(2))
    note same = advancedD [OF adv]
    have i: "i \<in> ids q'" "st q' i = StepRunning" "now = pl_last_now q'" "pl_state q' = pl_state p"
      using r(1) assms(2,4) same(2) by (simp_all add: started_def)
    have lighter: "weight q' i = 1" "weight p i = 2" using i(2) assms(3) r(2,3) by (simp_all add: weight_def)
    have st: "steady p q'" using r(1) assms(3) unfolding steady_def started_def by auto
    show ?thesis
    proof (cases "v' = StatusRunning")
      case True
      then have "on_status R i v now p = q'" using v \<open>retry\<close> s(1) e by (cases v) (simp_all add: on_status_def Let_def retry_def q_def)
      then show ?thesis using q' adv st lighter by simp
    next
      case False
      define w where "w = on_status R i v now p"
      have "w = succeed R i now q' \<or> w = fail_step R i (rn_last_error R s (pl_runner q')) now q'"
        using v \<open>retry\<close> s(1) e False by (cases v; cases v') (simp_all add: on_status_def Let_def retry_def q_def w_def)
      then have w: "inv timed w" "advanced q' w" "weight w i = 0"
        using succeed_step [OF q' i(1-3)] fail_step_step [OF q' i(1-3)] by auto
      have "advanced p w"
        by (rule advanced_trans [OF adv w(2)]) (use i(4) assms(5) in simp)
      then show ?thesis using w live by (simp add: w_def)
    qed
  qed
  show ?thesis
  proof (cases "v = StatusRunning")
    case True
    then show ?thesis using assms(1) advanced_refl steady_refl by (simp add: on_status_def)
  next
    case False
    then show ?thesis using ends again s(1) by (cases v; cases retry) (auto simp: on_status_def Let_def retry_def)
  qed
qed

section \<open>The passes\<close>

lemma tick_core:
  assumes "inv timed p" and "s \<in> set (sq_steps (pl_program p))" and "st p (st_id s) = StepRunning"
  shows "inv timed (snd (call_tick R s now p))" and "steady p (snd (call_tick R s now p))" and "advanced p (snd (call_tick R s now p))"
    and "weight (snd (call_tick R s now p)) = weight p"
proof -
  have core: "core timed p" and front: "front p" using assms(1) by (simp_all add: inv_def)
  have "phase (pl_runner p) (st_id s) = Some True" using coreD(2) [OF core, of "st_id s"] assms(2,3) by (simp add: good_def)
  then obtain v r where e: "rn_tick R s now (pl_runner p) = (v, r)" "phase r = phase (pl_runner p)"
    using tick_phase [of "pl_runner p" s now] by (cases "rn_tick R s now (pl_runner p)") simp
  have q: "snd (call_tick R s now p) = p\<lparr>pl_runner := r\<rparr>" using e by (simp add: call_tick_def)
  have "same_core p (p\<lparr>pl_runner := r\<rparr>)" using e by (simp add: same_core_def)
  then show "inv timed (snd (call_tick R s now p))" using core front same_core unfolding q by (simp add: inv_def front_def)
  show "steady p (snd (call_tick R s now p))" unfolding q by (simp add: steady_def)
  show "weight (snd (call_tick R s now p)) = weight p" unfolding q by (simp add: weight_def fun_eq_iff)
  show "advanced p (snd (call_tick R s now p))" unfolding q by (simp add: advanced_def weight_def complete_def ready_now_def)
qed

lemma active_state: "active p \<Longrightarrow> pl_state p \<noteq> PlayInterrupted \<and> pl_state p \<noteq> PlayIdle \<and> pl_state p \<noteq> PlayDone"
  by (auto simp: active_def)

lemma tick_pass_mono: "tick_pass R now is b p = (b', q) \<Longrightarrow> b \<Longrightarrow> b'"
  by (induction "is" arbitrary: b p)
    (auto simp: Let_def split: if_splits option.splits prod.splits)

lemma tick_pass_step:
  assumes "inv timed p" and "set is \<subseteq> ids p" and "now = pl_last_now p" and "active p" and "tick_pass R now is b p = (b', q)"
  shows "inv timed q \<and> advanced p q \<and> (b' \<longrightarrow> b \<or> (\<exists>x\<in>ids p. weight q x < weight p x)) \<and> (\<not> b' \<longrightarrow> steady p q)"
  using assms
proof (induction "is" arbitrary: b p)
  case Nil
  then show ?case using advanced_refl steady_refl by auto
next
  case (Cons i "is")
  have frame: "frame p" and i: "i \<in> ids p" using Cons.prems(1,2) coreD(1) by (auto simp: inv_def)
  have bound: "\<not> index_of i \<ge> length (pl_status p)" using frame_bounds(1) [OF frame i] by simp
  obtain s where s: "find_step (pl_program p) i = Some s" "s \<in> set (sq_steps (pl_program p))" "st_id s = i"
    by (rule found_in_frame [OF frame i])
  show ?case
  proof (cases "st p i \<noteq> StepRunning \<or> (case rn_next_tick R s (pl_runner p) of None \<Rightarrow> False | Some due \<Rightarrow> due > now)")
    case True
    then have "tick_pass R now is b p = (b', q)"
      using Cons.prems(5) s(1) bound by (cases "st p i = StepRunning") (simp_all add: st_def)
    then show ?thesis using Cons.IH [OF Cons.prems(1) _ Cons.prems(3,4)] Cons.prems(2) by auto
  next
    case False
    then have running: "st p (st_id s) = StepRunning" using s(3) by blast
    obtain v p1 where e: "call_tick R s now p = (v, p1)" by force
    note t = tick_core [OF Cons.prems(1) s(2) running, where now = now, unfolded e snd_conv]
    define p2 where "p2 = (if v \<noteq> StatusRunning then on_status R i v now p1 else p1)"
    have p1: "i \<in> ids p1" "st p1 i = StepRunning" "now = pl_last_now p1" "pl_state p1 \<noteq> PlayInterrupted"
      using advancedD(2,3) [OF t(3)] t(2) i s(3) running Cons.prems(3) active_state [OF Cons.prems(4)] by (simp_all add: steady_def)
    note o = on_status_step [OF t(1) p1, of v]
    have p2: "inv timed p2" "advanced p p2"
      using t(1,3) o advanced_trans [OF t(3) _ p1(4)] by (simp_all add: p2_def)
    have progress: "v \<noteq> StatusRunning \<Longrightarrow> weight p2 i < weight p i" using o t(4) by (simp add: p2_def)
    have still: "v = StatusRunning \<Longrightarrow> steady p p2" using t(2) by (simp add: p2_def)
    have pass: "(if \<not> active p2 then (b \<or> v \<noteq> StatusRunning, p2) else tick_pass R now is (b \<or> v \<noteq> StatusRunning) p2) = (b', q)"
      using Cons.prems(5) s(1) bound False e by (cases "v = StatusRunning") (auto simp: st_def p2_def)
    show ?thesis
    proof (cases "active p2")
      case False
      then show ?thesis using pass p2 progress still i by auto
    next
      case True
      then have "tick_pass R now is (b \<or> v \<noteq> StatusRunning) p2 = (b', q)" using pass by simp
      moreover have "set is \<subseteq> ids p2" "now = pl_last_now p2" using advancedD(2,3) [OF p2(2)] Cons.prems(2,3) by auto
      ultimately have IH: "inv timed q \<and> advanced p2 q \<and> (b' \<longrightarrow> (b \<or> v \<noteq> StatusRunning) \<or> (\<exists>x\<in>ids p2. weight q x < weight p2 x)) \<and> (\<not> b' \<longrightarrow> steady p2 q)"
        using Cons.IH [OF p2(1) _ _ True] by blast
      have adv: "advanced p q" using advanced_trans [OF p2(2)] IH active_state [OF True] by blast
      have less: "weight q x < weight p x" if "x \<in> ids p" "weight q x < weight p2 x \<or> weight p2 x < weight p x" for x
        using that advancedD(6) [OF p2(2) that(1)] IH advancedD(2) [OF p2(2)] advancedD(6) [of p2 q x] by auto
      have "b \<or> (\<exists>x\<in>ids p. weight q x < weight p x)" if b'
        using IH that progress less i advancedD(2) [OF p2(2)] by blast
      moreover have "steady p q" if "\<not> b'"
      proof -
        have "v = StatusRunning" using \<open>tick_pass R now is (b \<or> v \<noteq> StatusRunning) p2 = (b', q)\<close> that tick_pass_mono by fastforce
        then show ?thesis using steady_trans still IH that by blast
      qed
      ultimately show ?thesis using IH adv by blast
    qed
  qed
qed

end

end
