(* ===== verification/Player_Rounds.thy ===== *)
theory Player_Rounds
  imports Player_Pump
begin

text \<open>
  Rounds of the pump of \<open>src/kernel/sequence/player.cpp\<close>: a round that makes progress lowers the potential, so that the limit of the
  loop is never what ends it; and every command to the player keeps the invariant.
\<close>

context observed_runner
begin

section \<open>The pass that enters\<close>

definition enterable :: "int \<Rightarrow> 'r player \<Rightarrow> step_id \<Rightarrow> bool" where
  "enterable now p i \<longleftrightarrow> i \<in> ids p \<and> st p i = StepReady \<and> ru_ready_at (run p i) \<le> now"

lemma enterable_steady: "steady p q \<Longrightarrow> enterable now q = enterable now p"
  using ids_cong [of q p] by (auto simp: steady_def enterable_def fun_eq_iff)

lemma enter_step:
  assumes "inv timed p" and "s \<in> set (sq_steps (pl_program p))" and "enterable now p (st_id s)" and "now = pl_last_now p"
    and "pl_state p \<noteq> PlayInterrupted" and "call_enter R s now (mark_entered R s now p) = (v, p1)"
  defines "q \<equiv> on_status R (st_id s) v now p1"
  shows "inv timed q" and "advanced p q"
    and "weight q (st_id s) + 2 \<le> weight p (st_id s) \<or> (\<forall>x. enterable now q x \<longrightarrow> enterable now p x \<and> x \<noteq> st_id s)"
proof -
  let ?i = "st_id s"
  have core: "core timed p" and front: "front p" and frame: "frame p" using assms(1) coreD(1) by (auto simp: inv_def)
  have i: "?i \<in> ids p" "st p ?i = StepReady" "timed \<longrightarrow> ru_ready_at (run p ?i) \<le> pl_last_now p"
    using assms(3,4) by (simp_all add: enterable_def)
  note st = enter_starts [OF core assms(2) i(2) assms(4), unfolded assms(6) snd_conv]
  have on: "st p ?i = StepReady \<or> st p ?i = StepRunning" using i(2) by simp
  have inv: "inv timed p1" using started_core [OF core i(1) on st(1) i(3)] started_front [OF front i(1) on st(1)] by (simp add: inv_def)
  have adv: "advanced p p1" by (rule started_advances [OF frame i(1) on st(1)]) (simp add: st(2))
  have p1: "?i \<in> ids p1" "st p1 ?i = StepRunning" "now = pl_last_now p1" "pl_state p1 \<noteq> PlayInterrupted"
    using st(1) i(1) assms(4,5) advancedD(2) [OF adv] by (simp_all add: started_def)
  note o = on_status_step [OF inv p1, of v, folded q_def]
  show "inv timed q" using o by blast
  show "advanced p q" using advanced_trans [OF adv _ p1(4)] o by blast
  have "enterable now p x \<and> x \<noteq> ?i" if "steady p1 q" "enterable now q x" for x
  proof -
    have "enterable now p1 x" using that enterable_steady by simp
    then have x: "x \<in> ids p" "st p1 x = StepReady" "ru_ready_at (run p1 x) \<le> now" using advancedD(2) [OF adv] by (simp_all add: enterable_def)
    then have "x \<noteq> ?i" using p1(2) by auto
    then show ?thesis using st(1) x unfolding enterable_def started_def by simp
  qed
  moreover have "weight p ?i = 2" using i(2) by (simp add: weight_def)
  ultimately show "weight q ?i + 2 \<le> weight p ?i \<or> (\<forall>x. enterable now q x \<longrightarrow> enterable now p x \<and> x \<noteq> ?i)" using o by auto
qed

lemma enter_pass_step:
  assumes "inv timed p" and "set is \<subseteq> ids p" and "now = pl_last_now p" and "pl_state p = PlayPlaying" and "enter_pass R now is b p = (b', q)"
  shows "inv timed q \<and> advanced p q \<and> (b' \<longrightarrow> b \<or> (\<exists>x. enterable now p x)) \<and>
    (pl_state q = PlayPlaying \<longrightarrow>
      (\<exists>x\<in>ids p. weight q x + 2 \<le> weight p x) \<or> (\<forall>x. enterable now q x \<longrightarrow> enterable now p x \<and> x \<notin> set is))"
  using assms
proof (induction "is" arbitrary: b p)
  case Nil
  then show ?case using advanced_refl by auto
next
  case (Cons i "is")
  have frame: "frame p" and i: "i \<in> ids p" using Cons.prems(1,2) coreD(1) by (auto simp: inv_def)
  have bound: "\<not> index_of i \<ge> length (pl_status p)" using frame_bounds(1) [OF frame i] by simp
  obtain s where s: "find_step (pl_program p) i = Some s" "s \<in> set (sq_steps (pl_program p))" "st_id s = i"
    by (rule found_in_frame [OF frame i])
  show ?case
  proof (cases "enterable now p i")
    case False
    then have "enter_pass R now is b p = (b', q)"
      using Cons.prems(5) s(1) bound i by (auto simp: st_def run_def enterable_def not_le split: if_splits)
    then show ?thesis using Cons.IH [OF Cons.prems(1) _ Cons.prems(3,4)] Cons.prems(2) False by auto
  next
    case True
    obtain v p1 where e: "call_enter R s now (mark_entered R s now p) = (v, p1)" by force
    define p2 where "p2 = on_status R i v now p1"
    have "pl_state p \<noteq> PlayInterrupted" "enterable now p (st_id s)" using Cons.prems(4) True s(3) by simp_all
    note en = enter_step [OF Cons.prems(1) s(2) this(2) Cons.prems(3) this(1) e, unfolded s(3), folded p2_def]
    have pass: "(if pl_state p2 \<noteq> PlayPlaying then (True, p2) else enter_pass R now is True p2) = (b', q)"
      using Cons.prems(5) s(1) bound e True by (auto simp: st_def run_def enterable_def not_less p2_def Let_def split: if_splits)
    show ?thesis
    proof (cases "pl_state p2 = PlayPlaying")
      case False
      then show ?thesis using pass en True by auto
    next
      case playing: True
      then have "enter_pass R now is True p2 = (b', q)" using pass by simp
      moreover have "set is \<subseteq> ids p2" "now = pl_last_now p2" using advancedD(2,3) [OF en(2)] Cons.prems(2,3) by auto
      ultimately have IH: "inv timed q" "advanced p2 q" "pl_state q = PlayPlaying \<longrightarrow>
          (\<exists>x\<in>ids p2. weight q x + 2 \<le> weight p2 x) \<or> (\<forall>x. enterable now q x \<longrightarrow> enterable now p2 x \<and> x \<notin> set is)"
        using Cons.IH [OF en(1) _ _ playing] by blast+
      have adv: "advanced p q" using advanced_trans [OF en(2) IH(2)] playing by simp
      have ids: "ids p2 = ids p" by (rule advancedD(2) [OF en(2)])
      have lighter: "weight q x \<le> weight p2 x \<and> weight p2 x \<le> weight p x" if "x \<in> ids p" for x
        using that advancedD(6) [OF en(2) that] advancedD(6) [OF IH(2)] ids by simp
      have "(\<exists>x\<in>ids p. weight q x + 2 \<le> weight p x) \<or> (\<forall>x. enterable now q x \<longrightarrow> enterable now p x \<and> x \<notin> set (i # is))"
        if "pl_state q = PlayPlaying"
      proof (cases "\<exists>x\<in>ids p. weight q x + 2 \<le> weight p x")
        case no: False
        have "\<not> weight p2 i + 2 \<le> weight p i" using no lighter [OF i] i by auto
        moreover have "\<not> (\<exists>x\<in>ids p2. weight q x + 2 \<le> weight p2 x)" unfolding ids using no lighter by fastforce
        ultimately have "\<forall>x. enterable now p2 x \<longrightarrow> enterable now p x \<and> x \<noteq> i" "\<forall>x. enterable now q x \<longrightarrow> enterable now p2 x \<and> x \<notin> set is"
          using en(3) IH(3) that by blast+
        then show ?thesis by auto
      qed simp
      then show ?thesis using IH(1) adv True by blast
    qed
  qed
qed

section \<open>Rounds\<close>

definition potential :: "int \<Rightarrow> 'r player \<Rightarrow> nat" where
  "potential now p = (\<Sum>x\<in>ids p. weight p x) + (if pl_state p = PlayPlaying \<and> (\<exists>x. enterable now p x) then 1 else 0)"

lemma finite_ids [simp]: "finite (ids p)"
  by (simp add: ids_def)

lemma weights_mono: "advanced p q \<Longrightarrow> (\<Sum>x\<in>ids q. weight q x) \<le> (\<Sum>x\<in>ids p. weight p x)"
  using advancedD(2,6) [of p q] by (simp add: sum_mono)

lemma weights_drop:
  assumes "advanced p q" and "x \<in> ids p" and "weight q x + n \<le> weight p x"
  shows "(\<Sum>x\<in>ids q. weight q x) + n \<le> (\<Sum>x\<in>ids p. weight p x)"
proof -
  have "(\<Sum>y\<in>ids p - {x}. weight q y) \<le> (\<Sum>y\<in>ids p - {x}. weight p y)" using advancedD(6) [OF assms(1)] by (intro sum_mono) simp
  then show ?thesis using assms(2,3) advancedD(2) [OF assms(1)] by (simp add: sum.remove [where x = x])
qed

lemma frontier_ids: "inv timed p \<Longrightarrow> set (pl_frontier p) \<subseteq> ids p"
  by (auto simp: inv_def front_def)

lemma pump_once_step:
  assumes "inv timed p" and "now = pl_last_now p" and "active p" and "pump_once R now p = (b, q)"
  shows "inv timed q" and "advanced p q" and "b \<Longrightarrow> active q \<Longrightarrow> potential now q < potential now p"
proof -
  obtain b1 p1 where t: "tick_pass R now (pl_frontier p) False p = (b1, p1)" by force
  note tick = tick_pass_step [OF assms(1) frontier_ids [OF assms(1)] assms(2,3) t]
  have once: "(if pl_state p1 = PlayPlaying then enter_pass R now (pl_frontier p1) b1 p1 else (b1, p1)) = (b, q)"
    using assms(4) t by (simp add: pump_once_def)
  let ?W = "\<lambda>p. \<Sum>x\<in>ids p. weight p x"
  have W1: "?W p1 \<le> ?W p" "b1 \<Longrightarrow> ?W p1 + 1 \<le> ?W p" using tick weights_mono weights_drop [of p p1 _ 1] by (blast, fastforce)
  have "inv timed q \<and> advanced p q \<and> (b \<longrightarrow> active q \<longrightarrow> potential now q < potential now p)"
  proof (cases "pl_state p1 = PlayPlaying")
    case False
    then show ?thesis using once tick W1 by (auto simp: potential_def)
  next
    case True
    then have e: "enter_pass R now (pl_frontier p1) b1 p1 = (b, q)" using once by simp
    have inv1: "inv timed p1" "now = pl_last_now p1" using tick advancedD(3) [of p p1] assms(2) by auto
    note en = enter_pass_step [OF inv1(1) frontier_ids [OF inv1(1)] inv1(2) True e]
    have adv: "advanced p q" using advanced_trans [of p p1 q] tick en True by auto
    have "potential now q < potential now p" if b "active q"
    proof -
      have W2: "?W q \<le> ?W p1" using en weights_mono by blast
      have again: "?W q + 2 \<le> ?W p1" if "pl_state q = PlayPlaying" "enterable now q x" for x
      proof -
        have "\<exists>x\<in>ids p1. weight q x + 2 \<le> weight p1 x"
        proof (rule ccontr)
          assume "\<not> ?thesis"
          then have "enterable now p1 x" "x \<notin> set (pl_frontier p1)" using en that by blast+
          then show False using inv1(1) by (auto simp: inv_def front_def enterable_def)
        qed
        then show ?thesis using en weights_drop by blast
      qed
      have first: "1 \<le> potential now p - ?W p" if "\<not> b1"
      proof -
        have "\<exists>x. enterable now p1 x" using en that \<open>b\<close> by blast
        moreover have "steady p p1" using tick that by blast
        ultimately show ?thesis using True enterable_steady [of p p1 now] by (simp add: potential_def steady_def)
      qed
      have "?W p \<le> potential now p" by (simp add: potential_def)
      then have bound: "?W p1 < potential now p" using W1 first by (cases b1) auto
      show ?thesis
      proof (cases "pl_state q = PlayPlaying \<and> (\<exists>x. enterable now q x)")
        case True
        then have "potential now q = ?W q + 1" "?W q + 2 \<le> ?W p1" using again by (auto simp: potential_def)
        then show ?thesis using bound by linarith
      next
        case False
        then have "potential now q = ?W q" by (simp add: potential_def)
        then show ?thesis using bound W2 by linarith
      qed
    qed
    then show ?thesis using en adv by blast
  qed
  then show "inv timed q" "advanced p q" "b \<Longrightarrow> active q \<Longrightarrow> potential now q < potential now p" by blast+
qed

lemma pump_loop_step:
  assumes "inv timed p" and "now = pl_last_now p" and "active p"
  shows "inv timed (pump_loop R now n p) \<and> advanced p (pump_loop R now n p)"
  using assms
proof (induction n arbitrary: p)
  case 0
  then show ?case using advanced_refl by simp
next
  case (Suc n)
  obtain b q where o: "pump_once R now p = (b, q)" by force
  note st = pump_once_step(1,2) [OF Suc.prems o]
  show ?case
  proof (cases "b \<and> active q")
    case True
    then have "inv timed (pump_loop R now n q) \<and> advanced q (pump_loop R now n q)"
      using Suc.IH [OF st(1)] Suc.prems(2) advancedD(3) [OF st(2)] by simp
    then show ?thesis using True o advanced_trans [OF st(2)] active_state [of q] by auto
  next
    case False
    then show ?thesis using o st by auto
  qed
qed

text \<open>With more rounds than the potential, the loop ends because a round made no progress.\<close>

lemma pump_loop_enough:
  assumes "inv timed p" and "now = pl_last_now p" and "active p" and "potential now p < n" and "n \<le> m"
  shows "pump_loop R now m p = pump_loop R now n p"
  using assms
proof (induction n arbitrary: p m)
  case 0
  then show ?case by simp
next
  case (Suc n)
  obtain m' where m: "m = Suc m'" "n \<le> m'" using Suc.prems(5) by (cases m) auto
  obtain b q where o: "pump_once R now p = (b, q)" by force
  note st = pump_once_step [OF Suc.prems(1-3) o]
  show ?case
  proof (cases "b \<and> active q")
    case True
    then have "pump_loop R now m' q = pump_loop R now n q"
      using Suc.IH [OF st(1) _ _ _ m(2)] Suc.prems(2,4) advancedD(3) [OF st(2)] st(3) by simp
    then show ?thesis using o m(1) True by simp
  next
    case False
    then show ?thesis using o m(1) by auto
  qed
qed

lemma potential_bound:
  assumes "frame p"
  shows "potential now p < 2 * length (pl_status p) + 2"
proof -
  have "(\<Sum>x\<in>ids p. weight p x) \<le> (\<Sum>x\<in>ids p. 2)" by (intro sum_mono) (simp add: weight_def)
  also have "\<dots> = 2 * card (ids p)" by simp
  also have "card (ids p) \<le> length (sq_steps (pl_program p))" unfolding ids_def by (metis card_length set_map length_map)
  finally show ?thesis using assms by (simp add: potential_def frame_def)
qed

section \<open>Commands\<close>

definition staged :: "'r player \<Rightarrow> bool" where
  "staged p \<longleftrightarrow> (pl_state p = PlayIdle \<longrightarrow> (\<forall>x\<in>ids p. st p x = StepPending)) \<and>
     (pl_state p = PlayDone \<or> pl_state p = PlayInterrupted \<longrightarrow> pl_frontier p = [])"

definition sound :: "bool \<Rightarrow> 'r player \<Rightarrow> bool" where
  "sound timed p \<longleftrightarrow> inv timed p \<and> staged p"

definition following :: "'r player \<Rightarrow> bool" where
  "following p \<longleftrightarrow> pl_state p = PlayIdle \<or> pl_state p = PlayInterrupted \<or> complete p"

lemma inv_cong [simp]:
  "inv timed (p\<lparr>pl_state := c\<rparr>) = inv timed p" "inv timed (p\<lparr>pl_reported := g\<rparr>) = inv timed p"
  "complete (p\<lparr>pl_state := c\<rparr>) = complete p" "complete (p\<lparr>pl_reported := g\<rparr>) = complete p" "complete (p\<lparr>pl_last_now := t\<rparr>) = complete p"
proof -
  have "core timed (p\<lparr>pl_state := c\<rparr>) = core timed p" "core timed (p\<lparr>pl_reported := g\<rparr>) = core timed p"
    by (rule same_core, simp add: same_core_def)+
  then show "inv timed (p\<lparr>pl_state := c\<rparr>) = inv timed p" "inv timed (p\<lparr>pl_reported := g\<rparr>) = inv timed p" by (simp_all add: inv_def front_def)
qed (simp_all add: complete_def ready_now_def)

lemma set_state_eq: "set_state s p = p\<lparr>pl_state := s\<rparr>"
  by (cases p) (simp add: set_state_def)

lemma report_run_sound:
  "sound timed (report_run p) = sound timed p" "following (report_run p) = following p" "pl_state (report_run p) = pl_state p"
  "pl_program (report_run p) = pl_program p" "pl_last_now (report_run p) = pl_last_now p"
  "pl_failure (report_run p) = pl_failure p" "st (report_run p) = st p"
  by (simp_all add: report_run_def sound_def staged_def following_def)

lemma later_inv:
  assumes "inv timed p" and "timed \<longrightarrow> pl_last_now p \<le> now"
  shows "inv timed (p\<lparr>pl_last_now := now\<rparr>)"
proof -
  have "on_time p s \<Longrightarrow> pl_last_now p \<le> now \<Longrightarrow> on_time (p\<lparr>pl_last_now := now\<rparr>) s" for s by (auto simp: on_time_def)
  then show ?thesis using assms by (simp add: inv_def core_def front_def good_def waited_def)
qed

lemma pump_sound:
  assumes "sound timed p" and "timed \<longrightarrow> pl_last_now p \<le> now"
  shows "sound timed (snd (pump R now p))" and "pl_program (snd (pump R now p)) = pl_program p" and "pl_last_now (snd (pump R now p)) = now"
    and "straight p \<Longrightarrow> following p \<Longrightarrow> following (snd (pump R now p))"
proof -
  let ?p = "p\<lparr>pl_last_now := now\<rparr>"
  have inv: "inv timed ?p" using later_inv assms by (simp add: sound_def)
  have "sound timed (snd (pump R now p)) \<and> pl_program (snd (pump R now p)) = pl_program p \<and> pl_last_now (snd (pump R now p)) = now \<and>
    (straight p \<and> following p \<longrightarrow> following (snd (pump R now p)))"
  proof (cases "active ?p")
    case False
    then have "snd (pump R now p) = ?p" by (simp add: pump_def)
    then show ?thesis using inv assms(1) by (simp add: sound_def staged_def following_def)
  next
    case True
    define q where "q = pump_loop R now (2 * length (pl_status p) + 2) ?p"
    define r where "r = (if pl_state q = PlayPlaying \<and> pl_frontier q = [] then set_state PlayDone q else q)"
    have eq: "snd (pump R now p) = report_run r" using True by (simp add: pump_def Let_def q_def r_def del: pump_loop.simps)
    have q: "inv timed q" "advanced ?p q" using pump_loop_step [OF inv, of now] True unfolding q_def by (simp_all del: pump_loop.simps)
    have "pl_state q = pl_state p \<or> pl_state q = PlayInterrupted \<and> pl_frontier q = []" using q(2) by (auto simp: advanced_def)
    then have "staged q" using active_state [OF True] by (auto simp: staged_def)
    then have "sound timed r" using q(1) by (simp add: sound_def r_def set_state_eq) (simp add: staged_def)
    moreover have "following r" if "straight p" "following p"
    proof -
      have "straight ?p" "complete ?p" using that active_state [OF True] by (auto simp: straight_def following_def)
      then show ?thesis using q(2) by (auto simp: advanced_def following_def r_def set_state_eq)
    qed
    ultimately show ?thesis using advancedD(1,3) [OF q(2)] unfolding eq report_run_sound by (simp add: r_def set_state_eq)
  qed
  then show "sound timed (snd (pump R now p))" "pl_program (snd (pump R now p)) = pl_program p" "pl_last_now (snd (pump R now p)) = now"
    "straight p \<Longrightarrow> following p \<Longrightarrow> following (snd (pump R now p))" by blast+
qed

lemma interrupt_sound:
  assumes "sound timed p"
  shows "sound timed (snd (interrupt R p))" and "pl_program (snd (interrupt R p)) = pl_program p"
    and "pl_last_now (snd (interrupt R p)) = pl_last_now p" and "following p \<Longrightarrow> following (snd (interrupt R p))"
proof -
  have inv: "inv timed p" using assms by (simp add: sound_def)
  note u = unwind_step [OF inv refl]
  show "sound timed (snd (interrupt R p))"
    using assms u(1,2) by (simp add: interrupt_def report_run_sound) (simp add: sound_def staged_def set_state_eq)
  show "pl_program (snd (interrupt R p)) = pl_program p" "pl_last_now (snd (interrupt R p)) = pl_last_now p"
    using u(5) by (simp_all add: interrupt_def report_run_sound set_state_eq swept_def)
  show "following p \<Longrightarrow> following (snd (interrupt R p))"
    by (simp add: interrupt_def report_run_sound) (simp add: following_def set_state_eq)
qed

lemma pause_sound:
  "sound timed p \<Longrightarrow> sound timed (snd (pause p))" "pl_program (snd (pause p)) = pl_program p" "pl_last_now (snd (pause p)) = pl_last_now p"
  "following p \<Longrightarrow> following (snd (pause p))"
  by (auto simp: pause_def sound_def staged_def following_def set_state_eq)

lemma goto_step_sound:
  assumes "sound timed p"
  shows "sound timed (snd (goto_step R goal p))" and "pl_program (snd (goto_step R goal p)) = pl_program p"
    and "pl_last_now (snd (goto_step R goal p)) = pl_last_now p"
proof -
  have inv: "inv timed p" using assms by (simp add: sound_def)
  obtain res q where j: "jump_to R goal p = (res, q)" by force
  have "sound timed (snd (goto_step R goal p)) \<and> pl_program (snd (goto_step R goal p)) = pl_program p \<and>
      pl_last_now (snd (goto_step R goal p)) = pl_last_now p"
  proof (cases "active p \<and> (\<exists>u. res = Inr u)")
    case True
    then have q: "inv timed q" "jumped goal p q" "snd (goto_step R goal p) = q"
      using jump_to_step [OF inv j] j by (auto simp: goto_step_def split: sum.splits)
    then have "pl_state q = pl_state p" by (simp add: jumped_def)
    then show ?thesis using q active_state [of p] True by (auto simp: sound_def staged_def jumped_def)
  next
    case False
    then have "snd (goto_step R goal p) = p" using jump_to_step [OF inv j] j by (auto simp: goto_step_def split: sum.splits)
    then show ?thesis using assms by simp
  qed
  then show "sound timed (snd (goto_step R goal p))" "pl_program (snd (goto_step R goal p)) = pl_program p"
    "pl_last_now (snd (goto_step R goal p)) = pl_last_now p" by blast+
qed

subsection \<open>Starting\<close>

lemma admit_root_step:
  assumes "inv timed p" and "s \<in> set (sq_steps (pl_program p))" and "st p (st_id s) = StepPending"
  shows "inv timed (admit_root s p)" and "admitted (if st_after s = [] then {st_id s} else {}) p (admit_root s p)"
proof -
  have core: "core timed p" and front: "front p" and frame: "frame p" using assms(1) coreD(1) by (auto simp: inv_def)
  have i: "st_id s \<in> ids p" using assms(2) by simp
  have "inv timed (admit_root s p) \<and> admitted (if st_after s = [] then {st_id s} else {}) p (admit_root s p)"
  proof (cases "st_after s = []")
    case True
    then have eq: "admit_root s p = admit_to_frontier (st_id s) (pl_last_now p) (set_status (st_id s) StepReady p)" by (simp add: admit_root_def)
    have "core timed (admit_root s p)" unfolding eq using admit_core [OF core assms(2)] assms(3) True by simp
    moreover have "front (admit_root s p)" unfolding eq using front assms(3) by (intro admit_front [OF frame i]) (auto simp: front_def)
    moreover have "admitted {st_id s} p (admit_root s p)" unfolding eq admitted_def using frame i by (auto simp: view_simps run_admit_to_frontier)
    ultimately show ?thesis using True by (simp add: inv_def)
  next
    case False
    then show ?thesis using assms(1) admitted_refl by (simp add: admit_root_def)
  qed
  then show "inv timed (admit_root s p)" "admitted (if st_after s = [] then {st_id s} else {}) p (admit_root s p)" by blast+
qed

lemma admit_roots:
  assumes "inv timed p" and "set ss \<subseteq> set (sq_steps (pl_program p))" and "distinct (map st_id ss)" and "\<forall>s\<in>set ss. st p (st_id s) = StepPending"
  shows "inv timed (fold admit_root ss p) \<and> admitted (st_id ` {s\<in>set ss. st_after s = []}) p (fold admit_root ss p)"
  using assms
proof (induction ss arbitrary: p)
  case Nil
  then show ?case by (simp add: admitted_refl)
next
  case (Cons s ss)
  let ?q = "admit_root s p" and ?A = "if st_after s = [] then {st_id s} else {}" and ?B = "st_id ` {s\<in>set ss. st_after s = []}"
  have "s \<in> set (sq_steps (pl_program p))" "st p (st_id s) = StepPending" using Cons.prems by auto
  note q = admit_root_step [OF Cons.prems(1) this]
  have st: "st ?q x = (if x \<in> ?A then StepReady else st p x)" if "x \<in> ids p" for x using q(2) that unfolding admitted_def by blast
  have prog: "pl_program ?q = pl_program p" using q(2) by (simp add: admitted_def)
  have IH: "inv timed (fold admit_root ss ?q) \<and> admitted ?B ?q (fold admit_root ss ?q)"
  proof (rule Cons.IH [OF q(1)])
    show "\<forall>s\<in>set ss. st ?q (st_id s) = StepPending"
    proof
      fix s' assume s': "s' \<in> set ss"
      then have "st_id s' \<noteq> st_id s" using Cons.prems(3) by (metis distinct.simps(2) image_eqI list.simps(9) set_map)
      moreover have "st_id s' \<in> ids p" using s' Cons.prems(2) by auto
      ultimately have "st_id s' \<notin> ?A" "st_id s' \<in> ids p" by auto
      then show "st ?q (st_id s') = StepPending" using st Cons.prems(4) s' by simp
    qed
  qed (use Cons.prems(2,3) prog in auto)
  have sets: "?A \<union> ?B = st_id ` {s'\<in>set (s # ss). st_after s' = []}" by auto
  have "admitted (?A \<union> ?B) p (fold admit_root ss ?q)" using admitted_trans [OF q(2)] IH by blast
  then show ?case unfolding sets using IH by simp
qed

lemma play_sound:
  assumes "sound timed p"
  shows "sound timed (snd (play p))" and "pl_program (snd (play p)) = pl_program p" and "pl_last_now (snd (play p)) = pl_last_now p"
    and "following p \<Longrightarrow> following (snd (play p))"
proof -
  have inv: "inv timed p" and frame: "frame p" using assms coreD(1) by (auto simp: sound_def inv_def)
  have "sound timed (snd (play p)) \<and> pl_program (snd (play p)) = pl_program p \<and> pl_last_now (snd (play p)) = pl_last_now p \<and>
    (following p \<longrightarrow> following (snd (play p)))"
  proof (cases "pl_state p = PlayIdle")
    case False
    then show ?thesis using assms by (auto simp: play_def set_state_eq sound_def staged_def following_def)
  next
    case True
    let ?p = "p\<lparr>pl_state := PlayPlaying\<rparr>"
    let ?q = "fold admit_root (sq_steps (pl_program p)) ?p" and ?A = "st_id ` {s\<in>set (sq_steps (pl_program p)). st_after s = []}"
    have pend: "\<forall>x\<in>ids p. st p x = StepPending" using assms True by (simp add: sound_def staged_def)
    have eq: "snd (play p) = ?q" using True by (simp add: play_def set_state_eq)
    have "distinct (map st_id (sq_steps (pl_program p)))" using frame positional_distinct by (simp add: frame_def built_def)
    then have q: "inv timed ?q" "admitted ?A ?p ?q" using admit_roots [of timed ?p "sq_steps (pl_program p)"] inv pend by simp_all
    have st: "st ?q x = (if x \<in> ?A then StepReady else StepPending)" if "x \<in> ids p" for x
      using q(2) that pend unfolding admitted_def by simp
    have same: "ids ?q = ids p" "pl_program ?q = pl_program p" "pl_last_now ?q = pl_last_now p" "pl_state ?q = PlayPlaying"
      using q(2) ids_cong [of ?q p] by (simp_all add: admitted_def)
    have "\<not> ready_now ?q x" if x: "x \<in> ids p" for x
    proof
      assume r: "ready_now ?q x"
      obtain s where s: "s \<in> set (sq_steps (pl_program p))" "st_id s = x" by (rule found_in_frame [OF frame x])
      have "x \<notin> ?A" using r st [OF x] by (auto simp: ready_now_def)
      then obtain y where y: "y \<in> set (st_after s)" using s by (cases "st_after s") auto
      then have "terminal_status (st ?q y)" using r s same(2) by (auto simp: ready_now_def)
      then show False using st [OF after_in_ids [OF frame s(1) y]] by (auto split: if_splits)
    qed
    then have "complete ?q" unfolding complete_def same by blast
    then show ?thesis unfolding eq using q(1) same by (simp add: sound_def staged_def following_def)
  qed
  then show "sound timed (snd (play p))" "pl_program (snd (play p)) = pl_program p" "pl_last_now (snd (play p)) = pl_last_now p"
    "following p \<Longrightarrow> following (snd (play p))" by blast+
qed

subsection \<open>Skipping\<close>

lemma skip_members:
  assumes "core timed p" and "set xs \<subseteq> ids p" and "distinct xs" and "\<forall>x\<in>set xs. \<not> terminal_status (st p x)" and "now = pl_last_now p"
  shows "core timed (fold (skip_member R now) xs p) \<and> settled p (fold (skip_member R now) xs p) \<and>
    (\<forall>x\<in>ids p. st (fold (skip_member R now) xs p) x = (if x \<in> set xs then StepSkipped else st p x))"
  using assms
proof (induction xs arbitrary: p)
  case Nil
  then show ?case by (simp add: settled_refl)
next
  case (Cons i xs)
  let ?q = "skip_member R now i p" and ?r = "fold (skip_member R now) xs (skip_member R now i p)"
  have i: "i \<in> ids p" "\<not> terminal_status (st p i)" using Cons.prems(2,4) by auto
  have "\<not> index_of i \<ge> length (pl_status p)" using frame_bounds(1) [OF coreD(1) [OF Cons.prems(1)] i(1)] by simp
  then have eq: "?q = finish_skipped now i (if holds_open p i then skip_entered R now i p else p)" by (simp add: skip_member_def)
  note q = skip_settles [OF Cons.prems(1) i Cons.prems(5), folded eq]
  have same: "ids ?q = ids p" "pl_last_now ?q = pl_last_now p" using q(2) ids_cong [of ?q p] by (auto simp: settled_def)
  have live: "\<forall>x\<in>set xs. \<not> terminal_status (st ?q x)" using q(3) Cons.prems(2-4) by (auto split: if_splits)
  have IH: "core timed ?r \<and> settled ?q ?r \<and> (\<forall>x\<in>ids p. st ?r x = (if x \<in> set xs then StepSkipped else st ?q x))"
    using Cons.IH [OF q(1) _ _ live] Cons.prems(2,3,5) same by simp
  have "st ?r x = (if x \<in> set (i # xs) then StepSkipped else st p x)" if "x \<in> ids p" for x
    using IH q(3) that by auto
  then show ?case unfolding fold_simps(2) using IH settled_trans [OF q(2)] by blast
qed

lemma admit_successors_all:
  assumes "inv timed p" and "set xs \<subseteq> ids p"
  shows "inv timed (fold admit_successors xs p) \<and> admitted {x. \<exists>i\<in>set xs. x \<in> dependants_of p i \<and> ready_now p x} p (fold admit_successors xs p)"
  using assms
proof (induction xs arbitrary: p)
  case Nil
  then show ?case by (simp add: admitted_refl)
next
  case (Cons i xs)
  let ?q = "admit_successors i p" and ?A = "{x\<in>dependants_of p i. ready_now p x}"
  have i: "i \<in> ids p" and frame: "frame p" using Cons.prems coreD(1) by (auto simp: inv_def)
  note q = admit_successors_step [OF Cons.prems(1) i]
  have same: "ids ?q = ids p" "pl_program ?q = pl_program p" using q(2) ids_cong [of ?q p] by (auto simp: admitted_def)
  let ?B = "{x. \<exists>i\<in>set xs. x \<in> dependants_of ?q i \<and> ready_now ?q x}"
  have IH: "inv timed (fold admit_successors xs ?q) \<and> admitted ?B ?q (fold admit_successors xs ?q)"
    by (rule Cons.IH [OF q(1)]) (use Cons.prems(2) same in auto)
  have "ready_now ?q x \<longleftrightarrow> ready_now p x \<and> x \<notin> ?A" if "x \<in> ids p" for x
    by (rule ready_now_admitted [OF frame q(2) _ that]) (auto simp: ready_now_def)
  then have sets: "?A \<union> ?B = {x. \<exists>j\<in>set (i # xs). x \<in> dependants_of p j \<and> ready_now p x}"
    unfolding same using dependants_ids [of p] by auto
  have "admitted (?A \<union> ?B) p (fold admit_successors xs ?q)" using admitted_trans [OF q(2)] IH by blast
  then show ?case unfolding sets using IH by simp
qed

lemma skip_sound:
  assumes "sound timed p"
  shows "sound timed (snd (skip R p))" and "pl_program (snd (skip R p)) = pl_program p" and "pl_last_now (snd (skip R p)) = pl_last_now p"
    and "following p \<Longrightarrow> following (snd (skip R p))"
proof -
  have core: "core timed p" and front: "front p" and frame: "frame p" using assms coreD(1) by (auto simp: sound_def inv_def)
  have "sound timed (snd (skip R p)) \<and> pl_program (snd (skip R p)) = pl_program p \<and> pl_last_now (snd (skip R p)) = pl_last_now p \<and>
    (following p \<longrightarrow> following (snd (skip R p)))"
  proof (cases "active p")
    case False
    then show ?thesis using assms by (simp add: skip_def)
  next
    case True
    let ?p = "p\<lparr>pl_frontier := []\<rparr>" and ?f = "pl_frontier p"
    define q where "q = fold (skip_member R (pl_last_now p)) ?f ?p"
    define r where "r = fold admit_successors ?f q"
    define z where "z = (if pl_state r = PlayPlaying \<and> pl_frontier r = [] then set_state PlayDone r else r)"
    have eq: "snd (skip R p) = report_run z" using True by (simp add: skip_def Let_def q_def r_def z_def)
    have f: "distinct ?f" "set ?f = {x\<in>ids p. st p x = StepReady \<or> st p x = StepRunning}" using front by (simp_all add: front_def)
    then have live: "\<forall>x\<in>set ?f. \<not> terminal_status (st ?p x)" by auto
    have q: "core timed q" "settled ?p q" "\<forall>x\<in>ids p. st q x = (if x \<in> set ?f then StepSkipped else st p x)"
      using skip_members [of timed ?p ?f "pl_last_now p"] core f live unfolding q_def by auto
    have same: "pl_program q = pl_program p" "ids q = ids p" "pl_frontier q = []" "pl_last_now q = pl_last_now p" "pl_state q = pl_state p"
      using q(2) ids_cong [of q p] by (auto simp: settled_def)
    have "front q" using q(3) f(2) same by (auto simp: front_def split: if_splits)
    then have inv: "inv timed q" using q(1) by (simp add: inv_def)
    let ?A = "{x. \<exists>i\<in>set ?f. x \<in> dependants_of q i \<and> ready_now q x}"
    have r: "inv timed r" "admitted ?A q r" using admit_successors_all [OF inv, of ?f] f(2) same(2) unfolding r_def by auto
    have z: "sound timed z" "pl_program z = pl_program p" "pl_last_now z = pl_last_now p"
      using r same active_state [OF True] unfolding z_def by (auto simp: sound_def staged_def set_state_eq admitted_def)
    have "complete r" if "complete p"
      unfolding complete_def
    proof
      fix x assume "x \<in> ids r"
      then have x: "x \<in> ids q" "x \<in> ids p" using r(2) same ids_cong [of r q] by (auto simp: admitted_def)
      have "ready_now r x \<longleftrightarrow> ready_now q x \<and> x \<notin> ?A"
        by (rule ready_now_admitted [OF coreD(1) [OF q(1)] r(2) _ x(1)]) (auto simp: ready_now_def)
      moreover have "ready_now p x" if rq: "ready_now q x" and nA: "x \<notin> ?A"
        unfolding ready_now_def
      proof (intro conjI ballI impI)
        show "st p x = StepPending" using rq q(3) x by (auto simp: ready_now_def split: if_splits)
        fix s y assume s: "s \<in> set (sq_steps (pl_program p))" "st_id s = x" and y: "y \<in> set (st_after s)"
        then have "terminal_status (st q y)" using rq same by (auto simp: ready_now_def)
        moreover have "y \<notin> set ?f" using nA rq s y same by (auto simp: dependants_def)
        ultimately show "terminal_status (st p y)" using q(3) after_in_ids [OF frame s(1) y] by simp
      qed
      ultimately show "\<not> ready_now r x" using \<open>complete p\<close> x(2) by (auto simp: complete_def)
    qed
    then have "following p \<Longrightarrow> following z" using active_state [OF True] by (auto simp: following_def z_def set_state_eq)
    then show ?thesis unfolding eq report_run_sound using z by blast
  qed
  then show "sound timed (snd (skip R p))" "pl_program (snd (skip R p)) = pl_program p" "pl_last_now (snd (skip R p)) = pl_last_now p"
    "following p \<Longrightarrow> following (snd (skip R p))" by blast+
qed

text \<open>A straight run that is done has left no step out.\<close>

lemma complete_ends:
  assumes "inv timed p" and "complete p" and "pl_frontier p = []" and "x \<in> ids p"
  shows "terminal_status (st p x)"
proof (rule ccontr)
  assume live: "\<not> terminal_status (st p x)"
  have core: "core timed p" and front: "front p" and frame: "frame p" using assms(1) coreD(1) by (auto simp: inv_def)
  have pend: "st p y = StepPending" if "y \<in> ids p" "\<not> terminal_status (st p y)" for y
    using that front assms(3) coreD(2) [OF core that(1)] by (cases "st p y") (auto simp: front_def good_def)
  let ?D = "depends (sq_steps (pl_program p))"
  have "finite ?D" "acyclic ?D" using frame built_parts(5) by (auto simp: frame_def depends_def)
  then have "wf ?D" by (rule finite_acyclic_wf)
  then show False using assms(4) live
  proof (induction x rule: wf_induct_rule)
    case (less x)
    have "terminal_status (st p y)" if "s \<in> set (sq_steps (pl_program p))" "st_id s = x" "y \<in> set (st_after s)" for s y
      using less.IH [of y] that after_in_ids [OF frame that(1,3)] by (auto simp: depends_def)
    then have "ready_now p x" using pend [OF less.prems] by (simp add: ready_now_def del: terminal_status.simps)
    then show False using assms(2) less.prems(1) by (simp add: complete_def)
  qed
qed

end

end
