(* ===== verification/Player_Traces.thy ===== *)
theory Player_Traces
  imports Player_Rounds
begin

text \<open>
  Runs of the player of \<open>src/kernel/sequence/player.cpp\<close> as its caller sees them: any sequence of commands and pumps on a new
  player, with any runner, whose calls are written down. The laws of \<open>observed_runner\<close> hold for every such runner.
\<close>

section \<open>Recording the calls\<close>

datatype call = CallEnter step_id | CallTick step_id | CallJoin step_id | CallExit step_id | CallReleaseHolds step_id

primrec call_step :: "call \<Rightarrow> step_id" where
  "call_step (CallEnter i) = i"
| "call_step (CallTick i) = i"
| "call_step (CallJoin i) = i"
| "call_step (CallExit i) = i"
| "call_step (CallReleaseHolds i) = i"

text \<open>The runner with a record of its calls, the last one first.\<close>

definition recorded :: "'r command_runner \<Rightarrow> ('r \<times> call list) command_runner" where
  "recorded R =
     \<lparr>rn_enter = (\<lambda>s now (r, cs). case rn_enter R s now r of (v, r) \<Rightarrow> (v, (r, CallEnter (st_id s) # cs))),
      rn_tick = (\<lambda>s now (r, cs). case rn_tick R s now r of (v, r) \<Rightarrow> (v, (r, CallTick (st_id s) # cs))),
      rn_exit = (\<lambda>s now (r, cs). case rn_exit R s now r of (v, r) \<Rightarrow> (v, (r, CallExit (st_id s) # cs))),
      rn_join = (\<lambda>s (r, cs). (rn_join R s r, CallJoin (st_id s) # cs)),
      rn_release_holds = (\<lambda>s (r, cs). case rn_release_holds R s r of (v, r) \<Rightarrow> (v, (r, CallReleaseHolds (st_id s) # cs))),
      rn_last_error = (\<lambda>s (r, cs). rn_last_error R s r), rn_next_tick = (\<lambda>s (r, cs). rn_next_tick R s r),
      rn_declared_duration = (\<lambda>s (r, cs). rn_declared_duration R s r)\<rparr>"

text \<open>
  The protocol of one step: an entry finds it closed and opens it, ticks and joins find it open, an exit closes it, a release of holds
  finds it closed. \<open>None\<close> once a call was out of order.
\<close>

fun protocol :: "step_id \<Rightarrow> call list \<Rightarrow> bool option" where
  "protocol i [] = Some False"
| "protocol i (c # cs) =
     (case protocol i cs of
        None \<Rightarrow> None
      | Some entered \<Rightarrow>
          if call_step c \<noteq> i then Some entered
          else case c of
                 CallEnter _ \<Rightarrow> if entered then None else Some True
               | CallTick _ \<Rightarrow> if entered then Some True else None
               | CallJoin _ \<Rightarrow> if entered then Some True else None
               | CallExit _ \<Rightarrow> if entered then Some False else None
               | CallReleaseHolds _ \<Rightarrow> if entered then None else Some False)"

lemma protocol_other: "call_step c \<noteq> i \<Longrightarrow> protocol i (c # cs) = protocol i cs"
  by (simp split: option.split)

interpretation rec: observed_runner "recorded R" "\<lambda>r i. protocol i (snd r)" for R :: "'r command_runner"
proof
  fix r :: "'r \<times> call list" and s :: step and now :: int
  obtain r0 cs where r: "r = (r0, cs)" by force
  have step: "(\<lambda>i. protocol i (c # cs)) = (\<lambda>i. protocol i cs)(call_step c := protocol (call_step c) (c # cs))" for c cs
    using protocol_other by (auto simp: fun_eq_iff simp del: protocol.simps)
  show "(\<lambda>i. protocol i (snd (snd (rn_enter (recorded R) s now r)))) = (\<lambda>i. protocol i (snd r))(st_id s := Some True)"
    if "protocol (st_id s) (snd r) = Some False"
    using that step [of "CallEnter (st_id s)" cs] by (simp add: recorded_def r split: prod.split)
  show "(\<lambda>i. protocol i (snd (snd (rn_tick (recorded R) s now r)))) = (\<lambda>i. protocol i (snd r))"
    if "protocol (st_id s) (snd r) = Some True"
    using that step [of "CallTick (st_id s)" cs] by (auto simp: recorded_def r split: prod.split)
  show "(\<lambda>i. protocol i (snd (rn_join (recorded R) s r))) = (\<lambda>i. protocol i (snd r))"
    if "protocol (st_id s) (snd r) = Some True"
    using that step [of "CallJoin (st_id s)" cs] by (auto simp: recorded_def r split: prod.split)
  show "(\<lambda>i. protocol i (snd (snd (rn_exit (recorded R) s now r)))) = (\<lambda>i. protocol i (snd r))(st_id s := Some False)"
    if "protocol (st_id s) (snd r) = Some True"
    using that step [of "CallExit (st_id s)" cs] by (simp add: recorded_def r split: prod.split)
  show "(\<lambda>i. protocol i (snd (snd (rn_release_holds (recorded R) s r)))) = (\<lambda>i. protocol i (snd r))"
    if "protocol (st_id s) (snd r) = Some False"
    using that step [of "CallReleaseHolds (st_id s)" cs] by (auto simp: recorded_def r split: prod.split)
qed

section \<open>Runs\<close>

datatype player_op = PlayOp | PauseOp | InterruptOp | SkipOp | GotoStepOp step_id | GotoLabelOp string | PumpOp int

fun perform :: "'r command_runner \<Rightarrow> player_op \<Rightarrow> 'r player \<Rightarrow> 'r player" where
  "perform R PlayOp p = snd (play p)"
| "perform R PauseOp p = snd (pause p)"
| "perform R InterruptOp p = snd (interrupt R p)"
| "perform R SkipOp p = snd (skip R p)"
| "perform R (GotoStepOp i) p = snd (goto_step R i p)"
| "perform R (GotoLabelOp l) p = snd (goto_label R l p)"
| "perform R (PumpOp now) p = snd (pump R now p)"

definition performed :: "'r command_runner \<Rightarrow> player_op list \<Rightarrow> sequence \<Rightarrow> 'r \<Rightarrow> uuid \<Rightarrow> ('r \<times> call list) player" where
  "performed R ops q r u = fold (perform (recorded R)) ops (new_player q (r, []) u)"

fun pump_times :: "player_op list \<Rightarrow> int list" where
  "pump_times [] = []"
| "pump_times (PumpOp now # ops) = now # pump_times ops"
| "pump_times (_ # ops) = pump_times ops"

fun is_goto :: "player_op \<Rightarrow> bool" where
  "is_goto (GotoStepOp i) = True"
| "is_goto (GotoLabelOp l) = True"
| "is_goto _ = False"

lemma new_player_sound: "built q \<Longrightarrow> rec.sound timed (new_player q (r, []) u) \<and> rec.following (new_player q (r, []) u)"
proof -
  assume q: "built q"
  let ?p = "new_player q (r, [] :: call list) u"
  have ids: "ids ?p = step_ids q" and prog: "pl_program ?p = q" and calls: "snd (pl_runner ?p) = []" and rest: "pl_entry_order ?p = []" "pl_frontier ?p = []" "pl_state ?p = PlayIdle"
    by (simp_all add: ids_def new_player_def Let_def)
  have st: "st ?p x = StepPending" "run ?p x = new_step_run" if "x \<in> step_ids q" for x
    using index_bound [OF q that] by (simp_all add: st_def run_def new_player_def Let_def)
  have "length (pl_status ?p) = length (sq_steps q)" "length (pl_runs ?p) = length (sq_steps q)" by (simp_all add: new_player_def Let_def)
  then have frame: "frame ?p" 
    unfolding frame_def ids prog using successor_table [OF q, where r = "(r, [])" and u = u] q by (intro conjI ballI) simp_all
  have "rec.good ?p x" if "x \<in> step_ids q" for x using st [OF that] calls by (simp add: rec.good_def new_step_run_def)
  moreover have "rec.waited ?p s \<and> rec.on_time ?p s" if "s \<in> set (sq_steps q)" for s
    using st [of "st_id s"] that by (simp add: rec.waited_def rec.on_time_def new_step_run_def)
  ultimately have "rec.core timed ?p" using frame st unfolding rec.core_def ids prog rest by (simp add: new_step_run_def)
  then show ?thesis
    using st by (auto simp: rec.sound_def rec.inv_def rec.front_def rec.staged_def rec.following_def ids rest)
qed

lemma goto_label_sound:
  assumes "rec.sound timed p"
  shows "rec.sound timed (snd (goto_label (recorded R) l p)) \<and> pl_program (snd (goto_label (recorded R) l p)) = pl_program p \<and>
    pl_last_now (snd (goto_label (recorded R) l p)) = pl_last_now p"
  using assms rec.goto_step_sound [OF assms] by (simp add: goto_label_def split: option.split)

lemma perform_sound:
  assumes "rec.sound timed p" and "\<And>t. op = PumpOp t \<Longrightarrow> timed \<longrightarrow> pl_last_now p \<le> t"
  shows "rec.sound timed (perform (recorded R) op p) \<and> pl_program (perform (recorded R) op p) = pl_program p \<and>
    pl_last_now (perform (recorded R) op p) = (case op of PumpOp t \<Rightarrow> t | _ \<Rightarrow> pl_last_now p) \<and>
    (rec.straight p \<and> \<not> is_goto op \<and> rec.following p \<longrightarrow> rec.following (perform (recorded R) op p))"
proof (cases op)
  case PlayOp
  then show ?thesis using rec.play_sound [OF assms(1)] by simp
next
  case PauseOp
  then show ?thesis using rec.pause_sound(1) [OF assms(1)] rec.pause_sound(2-4) [of p] by simp
next
  case InterruptOp
  then show ?thesis using rec.interrupt_sound [OF assms(1)] by simp
next
  case SkipOp
  then show ?thesis using rec.skip_sound [OF assms(1)] by simp
next
  case (GotoStepOp i)
  then show ?thesis using rec.goto_step_sound [OF assms(1)] by simp
next
  case (GotoLabelOp l)
  then show ?thesis using goto_label_sound [OF assms(1)] by simp
next
  case (PumpOp t)
  then show ?thesis using rec.pump_sound [OF assms(1), of t] assms(2) by simp
qed

lemma performs_sound:
  assumes "rec.sound timed p" and "timed \<longrightarrow> sorted (pl_last_now p # pump_times ops)"
  shows "rec.sound timed (fold (perform (recorded R)) ops p) \<and> pl_program (fold (perform (recorded R)) ops p) = pl_program p \<and>
    (rec.straight p \<and> (\<forall>op\<in>set ops. \<not> is_goto op) \<and> rec.following p \<longrightarrow> rec.following (fold (perform (recorded R)) ops p))"
  using assms
proof (induction ops arbitrary: p)
  case Nil
  then show ?case by simp
next
  case (Cons op ops)
  let ?q = "perform (recorded R) op p"
  have pump: "timed \<longrightarrow> pl_last_now p \<le> t" if "op = PumpOp t" for t using Cons.prems(2) that by simp
  have q: "rec.sound timed ?q" "pl_program ?q = pl_program p" "pl_last_now ?q = (case op of PumpOp t \<Rightarrow> t | _ \<Rightarrow> pl_last_now p)"
    "rec.straight p \<and> \<not> is_goto op \<and> rec.following p \<longrightarrow> rec.following ?q"
    using perform_sound [OF Cons.prems(1) pump] by blast+
  have "timed \<longrightarrow> sorted (pl_last_now ?q # pump_times ops)" unfolding q(3) using Cons.prems(2) by (cases op) simp_all
  with q(1) have IH: "rec.sound timed (fold (perform (recorded R)) ops ?q) \<and> pl_program (fold (perform (recorded R)) ops ?q) = pl_program ?q \<and>
      (rec.straight ?q \<and> (\<forall>op\<in>set ops. \<not> is_goto op) \<and> rec.following ?q \<longrightarrow> rec.following (fold (perform (recorded R)) ops ?q))"
    using Cons.IH by blast
  moreover have "rec.straight ?q = rec.straight p" using q by (simp add: rec.straight_def)
  ultimately show ?case using q by simp
qed

lemma performed_sound:
  assumes "built q" and "timed \<longrightarrow> sorted (0 # pump_times ops)"
  shows "rec.sound timed (performed R ops q r u)" and "pl_program (performed R ops q r u) = q"
    and "\<forall>s\<in>set (sq_steps q). st_on_error s \<noteq> Goto \<Longrightarrow> \<forall>op\<in>set ops. \<not> is_goto op \<Longrightarrow> rec.following (performed R ops q r u)"
proof -
  let ?p = "new_player q (r, [] :: call list) u"
  have new: "pl_program ?p = q" "pl_last_now ?p = 0" by (simp_all add: new_player_def Let_def)
  note s = new_player_sound [OF assms(1), of timed r u]
  have all: "rec.sound timed (performed R ops q r u) \<and> pl_program (performed R ops q r u) = pl_program ?p \<and>
      (rec.straight ?p \<and> (\<forall>op\<in>set ops. \<not> is_goto op) \<and> rec.following ?p \<longrightarrow> rec.following (performed R ops q r u))"
    using performs_sound [of timed ?p ops R] s assms(2) new unfolding performed_def by simp
  then show "rec.sound timed (performed R ops q r u)" "pl_program (performed R ops q r u) = q" using new by simp_all
  show "rec.following (performed R ops q r u)" if "\<forall>s\<in>set (sq_steps q). st_on_error s \<noteq> Goto" "\<forall>op\<in>set ops. \<not> is_goto op"
    using all that s new by (simp add: rec.straight_def)
qed

section \<open>The calls of an unwind\<close>

definition unwind_calls :: "sequence \<Rightarrow> (step_id \<Rightarrow> bool) \<Rightarrow> step_id \<Rightarrow> call list" where
  "unwind_calls q running i =
     (if running i
      then (case find_step q i of None \<Rightarrow> [] | Some s \<Rightarrow> if is_blocking_command (kind_of (st_command s)) then [CallJoin i] else []) @ [CallExit i]
      else [CallReleaseHolds i])"

lemma recorded_calls:
  "snd (snd (rn_exit (recorded R) s now r)) = CallExit (st_id s) # snd r" "snd (rn_join (recorded R) s r) = CallJoin (st_id s) # snd r"
  "snd (snd (rn_release_holds (recorded R) s r)) = CallReleaseHolds (st_id s) # snd r"
  by (cases r; simp add: recorded_def split: prod.split)+

lemma record_neutralization_runner [simp]: "pl_runner (record_neutralization v p) = pl_runner p"
  by (simp add: record_neutralization_def split: neutralization_outcome.split)

lemma unwind_entry_calls:
  assumes "rec.core timed p" and "i \<in> ids p" and "ru_entered (run p i)" and "now = pl_last_now p"
  shows "snd (pl_runner (unwind_entry (recorded R) now i p)) = rev (unwind_calls (pl_program p) (\<lambda>i. st p i = StepRunning) i) @ snd (pl_runner p)"
proof -
  have frame: "frame p" by (rule rec.coreD(1) [OF assms(1)])
  have bound: "\<not> index_of i \<ge> length (pl_runs p)" using frame_bounds(2) [OF frame assms(2)] by simp
  obtain s where s: "find_step (pl_program p) i = Some s" "st_id s = i" using found_in_frame [OF frame assms(2)] by metis
  show ?thesis
  proof (cases "st p i = StepRunning")
    case True
    then have open_: "holds_open p i" using rec.running_open [OF assms(1,2)] by simp
    let ?p = "update_run (index_of i) (\<lambda>r. r\<lparr>ru_call_duration := now - ru_entered_at r\<rparr>) p"
    have "holds_open ?p i" using frame assms(2) open_ by (simp add: rec.holds_open_run run_update_run)
    then have eq: "neutralize (recorded R) i now ?p = (case call_exit (recorded R) s now (if is_blocking_command (kind_of (st_command s)) then call_join (recorded R) s ?p else ?p)
        of (outcome, p) \<Rightarrow> fold_exit_outcome outcome (update_run (index_of i) (\<lambda>r. r\<lparr>ru_exited := True\<rparr>) p))"
      using s(1) bound by (simp add: neutralize_def holds_open_def Let_def) (simp add: update_run_def)
    have calls: "snd (pl_runner (neutralize (recorded R) i now ?p)) = CallExit i # (if is_blocking_command (kind_of (st_command s)) then [CallJoin i] else []) @ snd (pl_runner p)"
      unfolding eq using s(2) recorded_calls(1) [of R s now] recorded_calls(2) [of R s]
      by (simp add: call_exit_def call_join_def split: prod.split) (metis (no_types, lifting) snd_conv)
    have "unwind_entry (recorded R) now i p = (let q = neutralize (recorded R) i now ?p in
        if \<not> terminal_status (pl_status q ! index_of i) then update_run (index_of i) (\<lambda>r. r\<lparr>ru_finished_at := now\<rparr>) (set_status i StepSkipped q) else q)"
      using bound open_ by (simp add: unwind_entry_def Let_def holds_open_def)
    then have "pl_runner (unwind_entry (recorded R) now i p) = pl_runner (neutralize (recorded R) i now ?p)" by (simp add: Let_def)
    then show ?thesis using calls s(1) True by (simp add: unwind_calls_def)
  next
    case False
    then have "ru_exited (run p i)" using assms(3) rec.running_open [OF assms(1,2)] by (simp add: rec.holds_open_run)
    then have "unwind_entry (recorded R) now i p = reap_holds (recorded R) i p" using bound assms(3) by (simp add: unwind_entry_def Let_def run_def)
    then show ?thesis
      using s False recorded_calls(3) [of R s "pl_runner p"] by (cases "rn_release_holds (recorded R) s (pl_runner p)") (simp add: reap_holds_def unwind_calls_def)
  qed
qed

lemma unwind_entries_calls:
  assumes "rec.core timed p" and "set is \<subseteq> {i\<in>ids p. ru_entered (run p i)}" and "distinct is" and "now = pl_last_now p"
  shows "rev (snd (pl_runner (fold (unwind_entry (recorded R) now) is p))) =
    rev (snd (pl_runner p)) @ concat (map (unwind_calls (pl_program p) (\<lambda>i. st p i = StepRunning)) is)"
  using assms
proof (induction "is" arbitrary: p)
  case Nil
  then show ?case by simp
next
  case (Cons i "is")
  let ?q = "unwind_entry (recorded R) now i p" and ?U = "\<lambda>p. unwind_calls (pl_program p) (\<lambda>i. st p i = StepRunning)"
  have i: "i \<in> ids p" "ru_entered (run p i)" using Cons.prems(2) by auto
  note q = rec.unwind_entry_step [OF Cons.prems(1) i(1) Cons.prems(4), where R = R]
  have same: "pl_program ?q = pl_program p" "ids ?q = ids p" "pl_last_now ?q = pl_last_now p" using q(3) ids_cong [of ?q p] by (auto simp: rec.swept_def)
  have views: "ru_entered (run ?q x) = ru_entered (run p x) \<and> (x \<noteq> i \<longrightarrow> st ?q x = st p x)" if "x \<in> ids p" for x
    using q(3) that unfolding rec.swept_def by (simp split: if_splits)
  have "rev (snd (pl_runner (fold (unwind_entry (recorded R) now) is ?q))) = rev (snd (pl_runner ?q)) @ concat (map (?U ?q) is)"
    by (rule Cons.IH [OF q(1)]) (use Cons.prems(2-4) same views in auto)
  moreover have "map (?U ?q) is = map (?U p) is"
  proof (rule map_cong [OF refl])
    fix x assume "x \<in> set is"
    then have "x \<in> ids p" "x \<noteq> i" using Cons.prems(2,3) by auto
    then show "?U ?q x = ?U p x" using views unfolding same(1) by (simp add: unwind_calls_def)
  qed
  ultimately show ?case using unwind_entry_calls [OF Cons.prems(1) i Cons.prems(4), of R] by simp
qed

lemma unwind_ready_runner: "pl_runner (fold (unwind_ready now) is p) = pl_runner p"
proof (induction "is" arbitrary: p)
  case (Cons i "is")
  have "pl_runner (unwind_ready now i p) = pl_runner p" by (simp add: unwind_ready_def)
  then show ?case using Cons by simp
qed simp

section \<open>Properties\<close>

lemma status_of_st: "frame p \<Longrightarrow> i \<in> ids p \<Longrightarrow> status_of p i = st p i"
proof -
  assume p: "frame p" "i \<in> ids p"
  then obtain s where "find_step (pl_program p) i = Some s" by (rule found_in_frame)
  then have "\<not> step_is_nil i" by (auto simp: find_step_def Let_def split: if_splits)
  then show ?thesis using frame_bounds(1) [OF p] by (simp add: status_of_def st_def)
qed

lemma built_sequence: "build steps pacing name = Inr q \<Longrightarrow> built q"
  unfolding built_iff_build by blast

text \<open>A document of two steps, the second after the first, and a runner whose steps succeed once the clock has reached 10.\<close>

definition sample_runner :: "unit command_runner" where
  "sample_runner =
     \<lparr>rn_enter = (\<lambda>s now r. (StatusRunning, r)), rn_tick = (\<lambda>s now r. (if now < 10 then StatusRunning else StatusSuccess, r)),
      rn_exit = (\<lambda>s now r. (NothingHeld, r)), rn_join = default_join, rn_release_holds = default_release_holds,
      rn_last_error = default_last_error, rn_next_tick = default_next_tick, rn_declared_duration = default_declared_duration\<rparr>"

definition sample_document :: "step list" where
  "sample_document = [plain_step ''a'' [], plain_step ''b'' [0]]"

definition sample_pacing :: pacing_options where
  "sample_pacing = \<lparr>pc_mode = Grace, pc_grace = 5\<rparr>"

definition sample_play :: "player_op list \<Rightarrow> sequence \<Rightarrow> (unit \<times> call list) player" where
  "sample_play ops q = performed sample_runner ops q () nil_uuid"

definition sample_ops :: "player_op list" where
  "sample_ops = [PlayOp, PumpOp 1, PumpOp 10, PumpOp 5000010]"

lemma sample_facts:
  obtains q a b where "build sample_document sample_pacing ''doc'' = Inr q" and "a \<in> set (sq_steps q)" and "b \<in> set (sq_steps q)" and "st_id a = positional_id 0"
    and "st_id b = positional_id 1" and "st_after b = [positional_id 0]" and "\<forall>s\<in>set (sq_steps q). st_on_error s \<noteq> Goto"
    and "pl_state (sample_play sample_ops q) = PlayDone" and "entered_at (sample_play sample_ops q) (positional_id 1) = Some 5000010"
    and "active (sample_play (take 2 sample_ops) q)" and "length (pl_status (sample_play (take 2 sample_ops) q)) = 2"
    and "status_of (sample_play (take 2 sample_ops) q) (positional_id 0) = StepRunning"
    and "status_of (sample_play (take 2 sample_ops) q) (positional_id 1) = StepPending"
    and "pl_entry_order (sample_play (take 2 sample_ops) q) = [positional_id 0]"
proof -
  have facts: "case build sample_document sample_pacing ''doc'' of Inl e \<Rightarrow> False
    | Inr q \<Rightarrow> map st_id (sq_steps q) = map positional_id [0, 1] \<and> map st_after (sq_steps q) = [[], [positional_id 0]] \<and>
        map st_on_error (sq_steps q) = [Abort, Abort] \<and>
        (let p = sample_play sample_ops q in pl_state p = PlayDone \<and> entered_at p (positional_id 1) = Some 5000010) \<and>
        (let p = sample_play (take 2 sample_ops) q in active p \<and> length (pl_status p) = 2 \<and>
           status_of p (positional_id 0) = StepRunning \<and> status_of p (positional_id 1) = StepPending \<and> pl_entry_order p = [positional_id 0])"
    by code_simp
  then obtain q where q: "build sample_document sample_pacing ''doc'' = Inr q" by (auto split: sum.splits)
  with facts obtain a b where "sq_steps q = [a, b]" by auto
  with q facts show thesis by (intro that [of q a b]) (simp_all add: Let_def)
qed

text \<open>
  C23. Whatever commands and pumps a caller sends a player, and however its runner answers, the calls the runner receives for a step
  keep to the protocol: it is entered only while closed, ticked and joined only while open, exited exactly once for every entry,
  and its holds are released only after that. It is open exactly while its status is running; once the run is done or
  interrupted every step is closed and none is ready.
\<close>

theorem player_calls_in_order:
  fixes R :: "'r command_runner" and ops :: "player_op list" and r :: 'r and u :: uuid
  assumes "build steps pacing name = Inr q"
  defines "p \<equiv> performed R ops q r u"
  shows "(\<forall>s\<in>set (sq_steps q). protocol (st_id s) (snd (pl_runner p)) = Some (status_of p (st_id s) = StepRunning)) \<and>
    (pl_state p = PlayDone \<or> pl_state p = PlayInterrupted \<longrightarrow>
      (\<forall>s\<in>set (sq_steps q). status_of p (st_id s) \<noteq> StepRunning \<and> status_of p (st_id s) \<noteq> StepReady))"
proof -
  note s = performed_sound(1,2) [OF built_sequence [OF assms(1)], of False ops R r u, folded p_def, simplified]
  have ids: "ids p = step_ids q" using s(2) by (simp add: ids_def)
  have core: "rec.core False p" and front: "rec.front p" and frame: "frame p" and staged: "rec.staged p"
    using s(1) rec.coreD(1) by (auto simp: rec.sound_def rec.inv_def)
  have "protocol i (snd (pl_runner p)) = Some (st p i = StepRunning)" if "i \<in> ids p" for i
    using rec.coreD(2) [OF core that] by (simp add: rec.good_def)
  moreover have "st p i \<noteq> StepRunning \<and> st p i \<noteq> StepReady" if "pl_state p = PlayDone \<or> pl_state p = PlayInterrupted" "i \<in> ids p" for i
    using front staged that unfolding rec.front_def rec.staged_def by auto
  ultimately show ?thesis using status_of_st [OF frame] unfolding ids by auto
qed

theorem player_calls_in_order_witness:
  "\<exists>q. build sample_document sample_pacing ''doc'' = Inr q \<and>
     protocol (positional_id 0) (snd (pl_runner (sample_play (take 2 sample_ops) q))) = Some True \<and>
     protocol (positional_id 1) (snd (pl_runner (sample_play sample_ops q))) = Some False"
proof -
  obtain q a b where q: "build sample_document sample_pacing ''doc'' = Inr q" "pl_state (sample_play sample_ops q) = PlayDone"
    "status_of (sample_play (take 2 sample_ops) q) (positional_id 0) = StepRunning"
    and s: "a \<in> set (sq_steps q)" "b \<in> set (sq_steps q)" "st_id a = positional_id 0" "st_id b = positional_id 1"
    by (rule sample_facts) blast
  note order = player_calls_in_order [OF q(1), where R = sample_runner and r = "()" and u = nil_uuid, folded sample_play_def]
  have "protocol (st_id a) (snd (pl_runner (sample_play (take 2 sample_ops) q))) = Some True"
    using bspec [OF conjunct1 [OF order] s(1)] q(3) s(3) by simp
  moreover have "protocol (st_id b) (snd (pl_runner (sample_play sample_ops q))) = Some False"
    using bspec [OF conjunct1 [OF order] s(2)] order [of sample_ops] q(2) s(2) by auto
  ultimately show ?thesis using q(1) s(3,4) by auto
qed

text \<open>
  C24. While the clock of the pump does not run backwards, a step is entered only after all it depends on has ended, and not before the
  grace its pacing asks for has passed since the end of each of them.
\<close>

theorem steps_wait_for_dependencies:
  fixes R :: "'r command_runner" and ops :: "player_op list" and r :: 'r and u :: uuid
  assumes "build steps pacing name = Inr q" and "sorted (0 # pump_times ops)"
  defines "p \<equiv> performed R ops q r u"
  assumes "s \<in> set (sq_steps q)" and "entered_at p (st_id s) = Some t" and "x \<in> set (st_after s)"
  shows "\<exists>f. finished_at p x = Some f \<and> f + grace_before s (sq_pacing q) \<le> t"
proof -
  note sound = performed_sound(1,2) [OF built_sequence [OF assms(1)], of True ops R r u, folded p_def]
  have p: "rec.core True p" "pl_program p = q" using sound assms(2) by (simp_all add: rec.sound_def rec.inv_def)
  have frame: "frame p" by (rule rec.coreD(1) [OF p(1)])
  have x: "x \<in> ids p" by (rule rec.after_in_ids [OF frame]) (use assms(4,6) p(2) in simp_all)
  have "ru_entered (run p (st_id s))" "ru_entered_at (run p (st_id s)) = t" using assms(5) by (auto simp: entered_at_def run_def split: if_splits)
  moreover have "rec.waited p s" "rec.on_time p s" using p assms(4) by (simp_all add: rec.core_def)
  ultimately have "terminal_status (st p x)" "ru_finished_at (run p x) + grace_before s (sq_pacing q) \<le> t"
    using assms(6) p(2) by (force simp: rec.waited_def rec.on_time_def simp del: terminal_status.simps)+
  then show ?thesis using frame_bounds(2) [OF frame x] by (simp add: finished_at_def st_def run_def del: terminal_status.simps)
qed

theorem steps_wait_for_dependencies_witness:
  "\<exists>q f. build sample_document sample_pacing ''doc'' = Inr q \<and>
     finished_at (sample_play sample_ops q) (positional_id 0) = Some f \<and> f + 5000000 \<le> 5000010"
proof -
  obtain q b where q: "build sample_document sample_pacing ''doc'' = Inr q" "entered_at (sample_play sample_ops q) (positional_id 1) = Some 5000010"
    and b: "b \<in> set (sq_steps q)" "st_id b = positional_id 1" "st_after b = [positional_id 0]"
    by (rule sample_facts) blast
  have "sq_pacing q = sample_pacing" using q(1) by (simp add: build_iff document_sequence_def)
  then have "grace_before b (sq_pacing q) = 5000000" using b(3) by (simp add: grace_before_def sample_pacing_def ns_of_ms_def)
  moreover have "sorted (0 # pump_times sample_ops)" by (simp add: sample_ops_def)
  ultimately show ?thesis
    using steps_wait_for_dependencies [OF q(1), where R = sample_runner and r = "()" and u = nil_uuid, folded sample_play_def] b q by force
qed

text \<open>
  C25. In a document without recovery jumps, driven without goto commands, no step is forgotten: when the player says that the run is
  done, every step has succeeded, failed or been skipped.
\<close>

theorem done_run_ended_every_step:
  assumes "build steps pacing name = Inr q" and "\<forall>s\<in>set (sq_steps q). st_on_error s \<noteq> Goto" and "\<forall>op\<in>set ops. \<not> is_goto op"
    and "pl_state (performed R ops q r u) = PlayDone" and "s \<in> set (sq_steps q)"
  shows "status_of (performed R ops q r u) (st_id s) \<in> {StepSucceeded, StepFailed, StepSkipped}"
proof -
  let ?p = "performed R ops q r u"
  note sound = performed_sound [OF built_sequence [OF assms(1)], of False ops R r u, simplified]
  have inv: "rec.inv False ?p" "pl_frontier ?p = []" "rec.complete ?p"
    using sound(1,3) assms(2-4) by (auto simp: rec.sound_def rec.staged_def rec.following_def)
  have frame: "frame ?p" using inv(1) rec.coreD(1) by (auto simp: rec.inv_def)
  have i: "st_id s \<in> ids ?p" using assms(5) sound(2) by (simp add: ids_def)
  show ?thesis using rec.complete_ends [OF inv(1,3,2) i] status_of_st [OF frame i] by simp
qed

theorem done_run_ended_every_step_witness:
  "\<exists>q. build sample_document sample_pacing ''doc'' = Inr q \<and>
     status_of (sample_play sample_ops q) (positional_id 1) \<in> {StepSucceeded, StepFailed, StepSkipped}"
proof -
  obtain q b where q: "build sample_document sample_pacing ''doc'' = Inr q" "\<forall>s\<in>set (sq_steps q). st_on_error s \<noteq> Goto"
    "pl_state (sample_play sample_ops q) = PlayDone" and b: "b \<in> set (sq_steps q)" "st_id b = positional_id 1"
    by (rule sample_facts) blast
  have "\<forall>op\<in>set sample_ops. \<not> is_goto op" by (simp add: sample_ops_def)
  then show ?thesis
    using done_run_ended_every_step [OF q(1), of sample_ops sample_runner "()" nil_uuid, folded sample_play_def] b q by force
qed

text \<open>
  C26. The limit of \<open>pump\<close>, two rounds for every step and two more, is never what stops it: with any larger number of rounds
  the loop ends in the same state, because a round has made no progress or the run has ended.
\<close>

theorem pump_limit_suffices:
  fixes R :: "'r command_runner" and ops :: "player_op list" and r :: 'r and u :: uuid and now :: int
  assumes "build steps pacing name = Inr q"
  defines "p \<equiv> (performed R ops q r u)\<lparr>pl_last_now := now\<rparr>"
  assumes "active p" and "2 * length (pl_status p) + 2 \<le> m"
  shows "pump_loop (recorded R) now m p = pump_loop (recorded R) now (2 * length (pl_status p) + 2) p"
proof -
  have "rec.inv False (performed R ops q r u)"
    using performed_sound(1) [OF built_sequence [OF assms(1)], of False ops R r u] by (simp add: rec.sound_def)
  then have inv: "rec.inv False p" unfolding p_def by (rule rec.later_inv) simp
  then have "frame p" using rec.coreD(1) by (auto simp: rec.inv_def)
  from rec.pump_loop_enough [OF inv _ assms(3) rec.potential_bound [OF this] assms(4)] show ?thesis by (simp add: p_def)
qed

theorem pump_limit_suffices_witness:
  "\<exists>q. build sample_document sample_pacing ''doc'' = Inr q \<and>
     (let p = (sample_play (take 2 sample_ops) q)\<lparr>pl_last_now := 10\<rparr>
      in pump_loop (recorded sample_runner) 10 1000 p = pump_loop (recorded sample_runner) 10 6 p)"
proof -
  obtain q where q: "build sample_document sample_pacing ''doc'' = Inr q" "active (sample_play (take 2 sample_ops) q)"
    "length (pl_status (sample_play (take 2 sample_ops) q)) = 2"
    by (rule sample_facts) blast
  then have "active ((sample_play (take 2 sample_ops) q)\<lparr>pl_last_now := 10\<rparr>)" by (simp add: active_def)
  from pump_limit_suffices [OF q(1), where R = sample_runner and r = "()" and u = nil_uuid, folded sample_play_def, OF this, of 1000] q
  show ?thesis by (auto simp: Let_def simp del: pump_loop.simps)
qed

text \<open>
  C27. Interrupting an active run succeeds and ends it: walking the entered steps from the last entry to the first, a step that is still
  open is joined, when its command blocks, and exited, and one that has ended has its holds released, with no other call to the
  runner; the steps that were ready or running are skipped and the others keep their status.
\<close>

theorem interrupt_unwinds_in_reverse:
  fixes R :: "'r command_runner" and ops :: "player_op list" and r :: 'r and u :: uuid
  assumes "build steps pacing name = Inr q"
  defines "p \<equiv> performed R ops q r u"
  assumes "active p" and "interrupt (recorded R) p = (res, p')"
  shows "res = Inr () \<and> pl_state p' = PlayInterrupted \<and> pl_frontier p' = [] \<and>
    rev (snd (pl_runner p')) =
      rev (snd (pl_runner p)) @ concat (map (unwind_calls q (\<lambda>i. status_of p i = StepRunning)) (rev (pl_entry_order p))) \<and>
    (\<forall>s\<in>set (sq_steps q). status_of p' (st_id s) =
      (if status_of p (st_id s) = StepReady \<or> status_of p (st_id s) = StepRunning then StepSkipped else status_of p (st_id s)))"
proof -
  note sound = performed_sound(1,2) [OF built_sequence [OF assms(1)], of False ops R r u, folded p_def, simplified]
  have inv: "rec.inv False p" and prog: "pl_program p = q" using sound by (simp_all add: rec.sound_def)
  have core: "rec.core False p" and frame: "frame p" using inv rec.coreD(1) by (auto simp: rec.inv_def)
  have order: "distinct (rev (pl_entry_order p))" "set (rev (pl_entry_order p)) = {i\<in>ids p. ru_entered (run p i)}"
    using core by (simp_all add: rec.core_def)
  let ?u = "unwind (recorded R) (pl_last_now p) p"
  note u = rec.unwind_step [OF inv refl, where R = R]
  have p': "res = Inr ()" "p' = report_run (set_state PlayInterrupted ?u)" using assms(3,4) by (simp_all add: interrupt_def)
  have views: "pl_runner p' = pl_runner ?u" "pl_frontier p' = []" "pl_state p' = PlayInterrupted" "st p' = st ?u"
    using u(2) by (simp_all add: p'(2) rec.set_state_eq report_run_def)
  have frame': "frame p'" "pl_program p' = q"
    using rec.interrupt_sound(1,2) [of False p R] sound(1) assms(4) prog rec.coreD(1) by (auto simp: rec.sound_def rec.inv_def)
  have same: "status_of p i = st p i" "status_of p' i = st p' i" if "i \<in> ids p" for i
    using status_of_st frame frame' that ids_cong [of p' p] prog by auto
  have calls: "rev (snd (pl_runner ?u)) =
      rev (snd (pl_runner p)) @ concat (map (unwind_calls q (\<lambda>i. st p i = StepRunning)) (rev (pl_entry_order p)))"
    using unwind_entries_calls [OF core _ order(1) refl, of R] order(2) prog by (simp add: unwind_def Let_def unwind_ready_runner)
  have running: "map (unwind_calls q (\<lambda>i. status_of p i = StepRunning)) (rev (pl_entry_order p)) =
      map (unwind_calls q (\<lambda>i. st p i = StepRunning)) (rev (pl_entry_order p))"
    using order(2) same(1) by (intro map_cong) (auto simp: unwind_calls_def)
  have "st p' i = (if st p i = StepReady \<or> st p i = StepRunning then StepSkipped else st p i)" if "i \<in> ids p" for i
    using u(5) that views(4) by (simp add: rec.swept_def)
  moreover have "st_id s \<in> ids p" if "s \<in> set (sq_steps q)" for s using that prog by (simp add: ids_def)
  ultimately show ?thesis unfolding running views(1) calls using p'(1) views(2,3) same by simp
qed

theorem interrupt_unwinds_in_reverse_witness:
  "\<exists>q. build sample_document sample_pacing ''doc'' = Inr q \<and>
     (let p = sample_play (take 2 sample_ops) q; p' = snd (interrupt (recorded sample_runner) p)
      in pl_state p' = PlayInterrupted \<and> status_of p' (positional_id 0) = StepSkipped \<and> status_of p' (positional_id 1) = StepPending \<and>
         rev (snd (pl_runner p')) =
           rev (snd (pl_runner p)) @ unwind_calls q (\<lambda>i. status_of p i = StepRunning) (positional_id 0))"
proof -
  obtain q a b where q: "build sample_document sample_pacing ''doc'' = Inr q"
    "active (sample_play (take 2 sample_ops) q)" "status_of (sample_play (take 2 sample_ops) q) (positional_id 0) = StepRunning"
    "status_of (sample_play (take 2 sample_ops) q) (positional_id 1) = StepPending"
    "pl_entry_order (sample_play (take 2 sample_ops) q) = [positional_id 0]"
    and s: "a \<in> set (sq_steps q)" "b \<in> set (sq_steps q)" "st_id a = positional_id 0" "st_id b = positional_id 1"
    by (rule sample_facts) blast
  obtain res p' where i: "interrupt (recorded sample_runner) (sample_play (take 2 sample_ops) q) = (res, p')" by force
  note u = interrupt_unwinds_in_reverse [OF q(1), where R = sample_runner and r = "()" and u = nil_uuid, folded sample_play_def, OF q(2) i]
  have "status_of p' (st_id a) = StepSkipped" "status_of p' (st_id b) = StepPending" using u s q(3,4) by auto
  then show ?thesis using u s q(1,5) i by (auto simp: Let_def)
qed

end
