(* ===== verification/Overlay_Scene.thy ===== *)
theory Overlay_Scene
  imports Commands
begin

text \<open>
  \<open>src/kernel/presentation/overlay_scene.cpp\<close> and the scene types of \<open>include/grab/overlay.hpp\<close>: the shapes drawn over the desktop, with
  their lifetimes, and the stream of changes that the renderer follows. An operation reads the clock, which is its argument, and does its
  work in one locked section; the section of the publisher that takes a change is another. Times are milliseconds in 64 bits, as integers.
\<close>

section \<open>Scene types\<close>

record shape_id =
  si_epoch :: u64
  si_slot :: u32

record shape_record =
  rc_id :: shape_id
  rc_shape :: shape
  rc_started_at :: int

datatype scene_change = Upsert shape_record | RemoveShape shape_id | ClearScene u64

record scene_delta =
  sd_epoch :: u64
  sd_revision :: u64
  sd_change :: scene_change

record scene_snapshot =
  sn_epoch :: u64
  sn_through_revision :: u64
  sn_shapes :: "shape_record list"

section \<open>Validity and deadlines\<close>

text \<open>\<open>std::isfinite\<close> on the bit pattern of a \<open>double\<close>: the exponent is not all ones; and \<open>d \<ge> 0.0\<close> for a finite one.\<close>

definition double_isfinite :: "f64 \<Rightarrow> bool" where
  "double_isfinite d \<longleftrightarrow> take_bit 11 (drop_bit 52 d) \<noteq> (0x7FF :: f64)"

definition double_nonnegative :: "f64 \<Rightarrow> bool" where
  "double_nonnegative d \<longleftrightarrow> \<not> bit d 63 \<or> take_bit 63 d = 0"

definition point_is_finite :: "space_point \<Rightarrow> bool" where
  "point_is_finite p \<longleftrightarrow> double_isfinite (sp_x p) \<and> double_isfinite (sp_y p)"

fun path_command_is_finite :: "path_command \<Rightarrow> bool" where
  "path_command_is_finite (MoveTo p) \<longleftrightarrow> point_is_finite p"
| "path_command_is_finite (LineTo p) \<longleftrightarrow> point_is_finite p"
| "path_command_is_finite (BezierTo control) \<longleftrightarrow> list_all point_is_finite control"
| "path_command_is_finite ClosePath \<longleftrightarrow> True"

fun geometry_is_valid :: "geometry \<Rightarrow> bool" where
  "geometry_is_valid (PathGeometry commands closed) \<longleftrightarrow> commands \<noteq> [] \<and> list_all path_command_is_finite commands"
| "geometry_is_valid (RectGeometry r) \<longleftrightarrow>
     double_isfinite (sr_x r) \<and> double_isfinite (sr_y r) \<and> double_isfinite (sr_w r) \<and> double_isfinite (sr_h r)"
| "geometry_is_valid (EllipseGeometry center radius_x radius_y) \<longleftrightarrow>
     point_is_finite center \<and> double_isfinite radius_x \<and> double_isfinite radius_y \<and> double_nonnegative radius_x \<and> double_nonnegative radius_y"
| "geometry_is_valid (PolygonGeometry points) \<longleftrightarrow> list_all point_is_finite points"

definition shape_is_valid :: "shape \<Rightarrow> bool" where
  "shape_is_valid s \<longleftrightarrow> (sh_stroke s \<noteq> None \<or> sh_fill s \<noteq> None) \<and> geometry_is_valid (sh_geometry s)"

definition ms_max :: int where
  "ms_max = 2 ^ 63 - 1"

definition ms_min :: int where
  "ms_min = - (2 ^ 63)"

definition saturating_add :: "int \<Rightarrow> int \<Rightarrow> int" where
  "saturating_add left right =
     (if right > 0 \<and> left > ms_max - right then ms_max else if right < 0 \<and> left < ms_min - right then ms_min else left + right)"

definition deadline_for :: "shape_record \<Rightarrow> int option" where
  "deadline_for r =
     (case sh_lifetime (rc_shape r) of
        Ttl d \<Rightarrow> Some (saturating_add (rc_started_at r) d)
      | Fade d \<Rightarrow> Some (saturating_add (rc_started_at r) d)
      | Persistent \<Rightarrow> None)"

definition deadline_is_due :: "shape_record \<Rightarrow> int \<Rightarrow> bool" where
  "deadline_is_due r now \<longleftrightarrow> (case deadline_for r of None \<Rightarrow> False | Some t \<Rightarrow> t \<le> now)"

definition revision_count_for_mutation :: "bool \<Rightarrow> nat" where
  "revision_count_for_mutation expires_immediately = (if expires_immediately then 2 else 1)"

fun lifetime_index :: "lifetime_policy \<Rightarrow> nat" where
  "lifetime_index Persistent = 0"
| "lifetime_index (Ttl d) = 1"
| "lifetime_index (Fade d) = 2"

section \<open>The scene\<close>

record scene_entry =
  en_record :: shape_record
  en_live :: bool

record scene_deadline =
  dl_expires_at :: int
  dl_id :: shape_id
  dl_entry_slot :: u32

record 'k overlay_scene =
  sc_sink :: "'k option"
  sc_entries :: "scene_entry list"
  sc_free_slots :: "u32 list"
  sc_deadlines :: "scene_deadline list"
  sc_pending :: "scene_delta list"
  sc_cursor :: nat
  sc_epoch :: u64
  sc_revision :: u64
  sc_next_shape_slot :: u64
  sc_publishing :: bool
  sc_publication_failures :: u64

definition new_scene :: "'k overlay_scene" where
  "new_scene = \<lparr>sc_sink = None, sc_entries = [], sc_free_slots = [], sc_deadlines = [], sc_pending = [], sc_cursor = 0, sc_epoch = 0,
     sc_revision = 0, sc_next_shape_slot = 0, sc_publishing = False, sc_publication_failures = 0\<rparr>"

text \<open>The exceptions the sections can throw; a thrown one leaves the section with what was changed before it.\<close>

datatype scene_exception = OverflowError string | OutOfRange

definition and_then ::
  "(scene_exception + 'a) \<times> 's \<Rightarrow> ('a \<Rightarrow> 's \<Rightarrow> (scene_exception + 'b) \<times> 's) \<Rightarrow> (scene_exception + 'b) \<times> 's" where
  "and_then m f = (case m of (Inl e, s) \<Rightarrow> (Inl e, s) | (Inr a, s) \<Rightarrow> f a s)"

text \<open>\<open>entry.record = {}\<close>: the default record.\<close>

definition default_shape :: shape where
  "default_shape = \<lparr>sh_geometry = PathGeometry [] False, sh_stroke = None, sh_fill = None, sh_lifetime = Persistent, sh_band = Annotation,
     sh_z = 0, sh_animation = None\<rparr>"

definition default_record :: shape_record where
  "default_record = \<lparr>rc_id = \<lparr>si_epoch = 0, si_slot = 0\<rparr>, rc_shape = default_shape, rc_started_at = 0\<rparr>"

definition dead_entry :: scene_entry where
  "dead_entry = \<lparr>en_record = default_record, en_live = False\<rparr>"

definition deadline_less :: "scene_deadline \<Rightarrow> scene_deadline \<Rightarrow> bool" where
  "deadline_less l r \<longleftrightarrow> dl_expires_at l < dl_expires_at r \<or>
     dl_expires_at l = dl_expires_at r \<and> si_slot (dl_id l) < si_slot (dl_id r)"

fun live_entry_slot_from :: "nat \<Rightarrow> shape_id \<Rightarrow> scene_entry list \<Rightarrow> u32 option" where
  "live_entry_slot_from n i [] = None"
| "live_entry_slot_from n i (e # es) =
     (if en_live e \<and> rc_id (en_record e) = i then Some (of_nat n) else live_entry_slot_from (n + 1) i es)"

definition live_entry_slot :: "shape_id \<Rightarrow> 'k overlay_scene \<Rightarrow> u32 option" where
  "live_entry_slot i s = live_entry_slot_from 0 i (sc_entries s)"

definition remove_deadline :: "shape_id \<Rightarrow> 'k overlay_scene \<Rightarrow> 'k overlay_scene" where
  "remove_deadline i s = s\<lparr>sc_deadlines := filter (\<lambda>d. dl_id d \<noteq> i) (sc_deadlines s)\<rparr>"

definition insert_deadline :: "shape_record \<Rightarrow> u32 \<Rightarrow> 'k overlay_scene \<Rightarrow> 'k overlay_scene" where
  "insert_deadline r slot s =
     (case deadline_for r of
        None \<Rightarrow> s
      | Some t \<Rightarrow>
          let d = \<lparr>dl_expires_at = t, dl_id = rc_id r, dl_entry_slot = slot\<rparr>
          in s\<lparr>sc_deadlines := takeWhile (\<lambda>x. deadline_less x d) (sc_deadlines s) @ d #
                dropWhile (\<lambda>x. deadline_less x d) (sc_deadlines s)\<rparr>)"

definition u64_max :: u64 where
  "u64_max = 0xFFFFFFFFFFFFFFFF"

definition queue_change :: "scene_change \<Rightarrow> 'k overlay_scene \<Rightarrow> (scene_exception + unit) \<times> 'k overlay_scene" where
  "queue_change change s =
     (if sc_revision s = u64_max then (Inl (OverflowError ''overlay revision overflow''), s)
      else (Inr (), s\<lparr>sc_pending := sc_pending s @ [\<lparr>sd_epoch = sc_epoch s, sd_revision = sc_revision s + 1, sd_change = change\<rparr>],
              sc_revision := sc_revision s + 1\<rparr>))"

definition revision_has_capacity :: "nat \<Rightarrow> 'k overlay_scene \<Rightarrow> bool" where
  "revision_has_capacity count s \<longleftrightarrow> count \<le> unat (u64_max - sc_revision s)"

text \<open>\<open>drain_expired\<close>: the deadlines are sorted, so that those up to \<open>now\<close> are at the front; they are counted before anything changes.\<close>

definition expired_entry :: "scene_entry list \<Rightarrow> scene_deadline \<Rightarrow> bool option" where
  "expired_entry entries d =
     (if unat (dl_entry_slot d) < length entries
      then let e = entries ! unat (dl_entry_slot d) in Some (en_live e \<and> rc_id (en_record e) = dl_id d)
      else None)"

fun count_expired :: "scene_entry list \<Rightarrow> scene_deadline list \<Rightarrow> nat \<Rightarrow> nat option" where
  "count_expired entries [] n = Some n"
| "count_expired entries (d # ds) n =
     (case expired_entry entries d of None \<Rightarrow> None | Some due \<Rightarrow> count_expired entries ds (if due then n + 1 else n))"

fun expire_all :: "scene_deadline list \<Rightarrow> 'k overlay_scene \<Rightarrow> (scene_exception + unit) \<times> 'k overlay_scene" where
  "expire_all [] s = (Inr (), s)"
| "expire_all (d # ds) s =
     (case expired_entry (sc_entries s) d of
        None \<Rightarrow> (Inl OutOfRange, s)
      | Some False \<Rightarrow> expire_all ds s
      | Some True \<Rightarrow>
          and_then
            (queue_change (RemoveShape (dl_id d))
              (s\<lparr>sc_entries := (sc_entries s)[unat (dl_entry_slot d) := dead_entry],
                 sc_free_slots := sc_free_slots s @ [dl_entry_slot d]\<rparr>))
            (\<lambda>_. expire_all ds))"

definition drain_expired :: "int \<Rightarrow> 'k overlay_scene \<Rightarrow> (scene_exception + unit) \<times> 'k overlay_scene" where
  "drain_expired now s =
     (let expired = takeWhile (\<lambda>d. dl_expires_at d \<le> now) (sc_deadlines s)
      in case count_expired (sc_entries s) expired 0 of
           None \<Rightarrow> (Inl OutOfRange, s)
         | Some n \<Rightarrow>
             if \<not> revision_has_capacity n s then (Inl (OverflowError ''overlay revision overflow''), s)
             else and_then (expire_all expired s)
               (\<lambda>_ s. (Inr (), s\<lparr>sc_deadlines := drop (length expired) (sc_deadlines s)\<rparr>)))"

definition begin_publication :: "'k overlay_scene \<Rightarrow> bool \<times> 'k overlay_scene" where
  "begin_publication s =
     (if sc_publishing s \<or> sc_cursor s = length (sc_pending s) then (False, s) else (True, s\<lparr>sc_publishing := True\<rparr>))"

text \<open>One turn of the loop of \<open>drain_publications\<close>: the locked section, and the count of a call to the sink that threw.\<close>

definition take_delta :: "'k overlay_scene \<Rightarrow> (scene_delta \<times> 'k option) option \<times> 'k overlay_scene" where
  "take_delta s =
     (if sc_cursor s = length (sc_pending s) then (None, s\<lparr>sc_pending := [], sc_cursor := 0, sc_publishing := False\<rparr>)
      else (Some (sc_pending s ! sc_cursor s, sc_sink s), s\<lparr>sc_cursor := sc_cursor s + 1\<rparr>))"

definition count_failure :: "'k overlay_scene \<Rightarrow> 'k overlay_scene" where
  "count_failure s = s\<lparr>sc_publication_failures := sc_publication_failures s + 1\<rparr>"

section \<open>Operations\<close>

definition maximum_slot :: u32 where
  "maximum_slot = 0xFFFFFFFF"

definition place_entry :: "u32 \<Rightarrow> shape_record \<Rightarrow> 'k overlay_scene \<Rightarrow> (scene_exception + unit) \<times> 'k overlay_scene" where
  "place_entry slot r s =
     (let e = \<lparr>en_record = r, en_live = True\<rparr>
      in if unat slot = length (sc_entries s) then (Inr (), s\<lparr>sc_entries := sc_entries s @ [e]\<rparr>)
         else if unat slot < length (sc_entries s) then (Inr (), s\<lparr>sc_entries := (sc_entries s)[unat slot := e]\<rparr>)
         else (Inl OutOfRange, s))"

definition choose_slot :: "'k overlay_scene \<Rightarrow> (u32 \<times> bool) result" where
  "choose_slot s =
     (if sc_next_shape_slot s > ucast maximum_slot then Inl (fail Overflowed ''overlay shape ids are exhausted'')
      else if sc_free_slots s \<noteq> [] then Inr (last (sc_free_slots s), True)
      else if length (sc_entries s) > unat maximum_slot then Inl (fail Overflowed ''overlay shape storage is exhausted'')
      else Inr (of_nat (length (sc_entries s)), False))"

definition drain_if :: "bool \<Rightarrow> int \<Rightarrow> 'k overlay_scene \<Rightarrow> (scene_exception + unit) \<times> 'k overlay_scene" where
  "drain_if due now s = (if due then drain_expired now s else (Inr (), s))"

definition store_new ::
  "u32 \<Rightarrow> bool \<Rightarrow> shape \<Rightarrow> int \<Rightarrow> 'k overlay_scene \<Rightarrow> (scene_exception + shape_id result) \<times> 'k overlay_scene" where
  "store_new slot reuses shape now s =
     (let i = \<lparr>si_epoch = sc_epoch s, si_slot = ucast (sc_next_shape_slot s)\<rparr>;
          r = \<lparr>rc_id = i, rc_shape = shape, rc_started_at = now\<rparr>;
          due = deadline_is_due r now
      in if \<not> revision_has_capacity (revision_count_for_mutation due) s
         then (Inr (Inl (fail Overflowed ''overlay revisions are exhausted'')), s)
         else
           and_then (place_entry slot r (if reuses then s\<lparr>sc_free_slots := butlast (sc_free_slots s)\<rparr> else s)) (\<lambda>_ s.
           and_then (queue_change (Upsert r) (insert_deadline r slot s)) (\<lambda>_ s.
           and_then (drain_if due now (s\<lparr>sc_next_shape_slot := sc_next_shape_slot s + 1\<rparr>)) (\<lambda>_ s.
             (Inr (Inr i), s)))))"

definition finish_section :: "(scene_exception + 'a) \<times> 'k overlay_scene \<Rightarrow> (scene_exception + 'a \<times> bool) \<times> 'k overlay_scene" where
  "finish_section m = and_then m (\<lambda>a s. case begin_publication s of (publish, s) \<Rightarrow> (Inr (a, publish), s))"

definition add_shape ::
  "shape \<Rightarrow> int \<Rightarrow> 'k overlay_scene \<Rightarrow> (scene_exception + shape_id result \<times> bool) \<times> 'k overlay_scene" where
  "add_shape shape now s =
     finish_section (and_then (drain_expired now s) (\<lambda>_ s.
       if \<not> shape_is_valid shape then (Inr (Inl (fail InvalidArgument ''overlay shape geometry is invalid'')), s)
       else case choose_slot s of
              Inl e \<Rightarrow> (Inr (Inl e), s)
            | Inr (slot, reuses) \<Rightarrow> store_new slot reuses shape now s))"

definition found_slot :: "shape_id \<Rightarrow> 'k overlay_scene \<Rightarrow> u32 option" where
  "found_slot i s = (if si_epoch i = sc_epoch s then live_entry_slot i s else None)"

definition store_update ::
  "shape_id \<Rightarrow> u32 \<Rightarrow> shape \<Rightarrow> int \<Rightarrow> 'k overlay_scene \<Rightarrow> (scene_exception + unit result) \<times> 'k overlay_scene" where
  "store_update i slot shape now s =
     (if unat slot \<ge> length (sc_entries s) then (Inl OutOfRange, s)
      else
        let old = en_record (sc_entries s ! unat slot);
            started_at = (if lifetime_index (sh_lifetime (rc_shape old)) = lifetime_index (sh_lifetime shape) then rc_started_at old else now);
            r = \<lparr>rc_id = i, rc_shape = shape, rc_started_at = started_at\<rparr>;
            due = deadline_is_due r now
        in if \<not> revision_has_capacity (revision_count_for_mutation due) s
           then (Inr (Inl (fail Overflowed ''overlay revisions are exhausted'')), s)
           else
             let s = remove_deadline i s;
                 s = s\<lparr>sc_entries := (sc_entries s)[unat slot := (sc_entries s ! unat slot)\<lparr>en_record := r\<rparr>]\<rparr>
             in and_then (queue_change (Upsert r) (insert_deadline r slot s)) (\<lambda>_ s.
                and_then (drain_if due now s) (\<lambda>_ s. (Inr (Inr ()), s))))"

definition update_shape ::
  "shape_id \<Rightarrow> shape \<Rightarrow> int \<Rightarrow> 'k overlay_scene \<Rightarrow> (scene_exception + unit result \<times> bool) \<times> 'k overlay_scene" where
  "update_shape i shape now s =
     finish_section (and_then (drain_expired now s) (\<lambda>_ s.
       case found_slot i s of
         None \<Rightarrow> (Inr (Inl (fail StaleShape ''overlay shape id is stale'')), s)
       | Some slot \<Rightarrow>
           if \<not> shape_is_valid shape then (Inr (Inl (fail InvalidArgument ''overlay shape geometry is invalid'')), s)
           else store_update i slot shape now s))"

definition erase_entry :: "shape_id \<Rightarrow> u32 \<Rightarrow> 'k overlay_scene \<Rightarrow> (scene_exception + unit result) \<times> 'k overlay_scene" where
  "erase_entry i slot s =
     (if unat slot \<ge> length (sc_entries s) then (Inl OutOfRange, s)
      else
        let s = remove_deadline i (s\<lparr>sc_entries := (sc_entries s)[unat slot := dead_entry]\<rparr>)
        in and_then (queue_change (RemoveShape i) (s\<lparr>sc_free_slots := sc_free_slots s @ [slot]\<rparr>)) (\<lambda>_ s. (Inr (Inr ()), s)))"

definition remove_shape :: "shape_id \<Rightarrow> int \<Rightarrow> 'k overlay_scene \<Rightarrow> (scene_exception + unit result \<times> bool) \<times> 'k overlay_scene" where
  "remove_shape i now s =
     finish_section (and_then (drain_expired now s) (\<lambda>_ s.
       case found_slot i s of
         None \<Rightarrow> (Inr (Inl (fail StaleShape ''overlay shape id is stale'')), s)
       | Some slot \<Rightarrow>
           if \<not> revision_has_capacity 1 s then (Inr (Inl (fail Overflowed ''overlay revisions are exhausted'')), s)
           else erase_entry i slot s))"

definition reset_scene :: "'k overlay_scene \<Rightarrow> 'k overlay_scene" where
  "reset_scene s =
     s\<lparr>sc_entries := map (\<lambda>_. dead_entry) (sc_entries s), sc_free_slots := rev (map of_nat [0..<length (sc_entries s)]),
       sc_deadlines := [], sc_epoch := sc_epoch s + 1, sc_revision := 0, sc_next_shape_slot := 0\<rparr>"

definition clear_scene :: "int \<Rightarrow> 'k overlay_scene \<Rightarrow> (scene_exception + unit \<times> bool) \<times> 'k overlay_scene" where
  "clear_scene now s =
     (if sc_epoch s = u64_max then (Inl (OverflowError ''overlay scene epoch overflow''), s)
      else finish_section (and_then (drain_expired now s) (\<lambda>_ s.
        let s = reset_scene s in queue_change (ClearScene (sc_epoch s)) s)))"

fun band_rank :: "band \<Rightarrow> nat" where
  "band_rank Annotation = 0"
| "band_rank Trail = 1"

definition record_less :: "shape_record \<Rightarrow> shape_record \<Rightarrow> bool" where
  "record_less l r \<longleftrightarrow>
     band_rank (sh_band (rc_shape l)) < band_rank (sh_band (rc_shape r)) \<or>
     sh_band (rc_shape l) = sh_band (rc_shape r) \<and>
       (sh_z (rc_shape l) < sh_z (rc_shape r) \<or>
        sh_z (rc_shape l) = sh_z (rc_shape r) \<and> si_slot (rc_id l) < si_slot (rc_id r))"

fun insert_record :: "shape_record \<Rightarrow> shape_record list \<Rightarrow> shape_record list" where
  "insert_record r [] = [r]"
| "insert_record r (x # xs) = (if record_less x r then x # insert_record r xs else r # x # xs)"

definition sort_records :: "shape_record list \<Rightarrow> shape_record list" where
  "sort_records rs = foldr insert_record rs []"

definition live_records :: "'k overlay_scene \<Rightarrow> shape_record list" where
  "live_records s = map en_record (filter en_live (sc_entries s))"

definition snapshot_scene :: "int \<Rightarrow> 'k overlay_scene \<Rightarrow> (scene_exception + scene_snapshot \<times> bool) \<times> 'k overlay_scene" where
  "snapshot_scene now s =
     finish_section (and_then (drain_expired now s) (\<lambda>_ s.
       (Inr \<lparr>sn_epoch = sc_epoch s, sn_through_revision = sc_revision s, sn_shapes = sort_records (live_records s)\<rparr>, s)))"

definition set_delta_sink :: "'k option \<Rightarrow> 'k overlay_scene \<Rightarrow> 'k overlay_scene" where
  "set_delta_sink sink s = s\<lparr>sc_sink := sink\<rparr>"

end
