(* ===== verification/Overlay_Runs.thy ===== *)
theory Overlay_Runs
  imports Overlay_Scene
begin

text \<open>
  What the overlay scene of \<open>src/kernel/presentation/overlay_scene.cpp\<close> promises: a replica that applies the changes it publishes holds the
  same shapes, identities are never given out twice, and snapshots are exact. The invariant is kept by every section, also by one that throws.
\<close>

section \<open>Views\<close>

definition slot_record :: "'k overlay_scene \<Rightarrow> nat \<Rightarrow> shape_record option" where
  "slot_record s i = (if i < length (sc_entries s) \<and> en_live (sc_entries s ! i) then Some (en_record (sc_entries s ! i)) else None)"

definition core_ok :: "'k overlay_scene \<Rightarrow> bool" where
  "core_ok s \<longleftrightarrow> length (sc_entries s) \<le> 2 ^ 32 \<and> unat (sc_next_shape_slot s) \<le> 2 ^ 32 \<and>
     (\<forall>i r. slot_record s i = Some r \<longrightarrow> si_epoch (rc_id r) = sc_epoch s \<and> unat (si_slot (rc_id r)) < unat (sc_next_shape_slot s)) \<and>
     (\<forall>i j r q. slot_record s i = Some r \<longrightarrow> slot_record s j = Some q \<longrightarrow> rc_id r = rc_id q \<longrightarrow> i = j) \<and>
     distinct (sc_free_slots s) \<and> unat ` set (sc_free_slots s) = {i. i < length (sc_entries s) \<and> slot_record s i = None}"

definition deadline_of :: "nat \<Rightarrow> shape_record \<Rightarrow> int \<Rightarrow> scene_deadline" where
  "deadline_of i r t = \<lparr>dl_expires_at = t, dl_id = rc_id r, dl_entry_slot = of_nat i\<rparr>"

definition dated :: "'k overlay_scene \<Rightarrow> bool" where
  "dated s \<longleftrightarrow> sorted_wrt deadline_less (sc_deadlines s) \<and>
     set (sc_deadlines s) = {deadline_of i r t | i r t. slot_record s i = Some r \<and> deadline_for r = Some t}"

definition shapes :: "'k overlay_scene \<Rightarrow> shape_id \<rightharpoonup> shape_record" where
  "shapes s = map_of (map (\<lambda>r. (rc_id r, r)) (live_records s))"

lemma slot_record_update [simp]:
  "slot_record (s\<lparr>sc_next_shape_slot := n\<rparr>) = slot_record s" "slot_record (s\<lparr>sc_free_slots := f\<rparr>) = slot_record s"
  "slot_record (s\<lparr>sc_deadlines := ds\<rparr>) = slot_record s" "slot_record (s\<lparr>sc_publishing := b\<rparr>) = slot_record s"
  "slot_record (s\<lparr>sc_sink := k\<rparr>) = slot_record s" "slot_record (s\<lparr>sc_cursor := c\<rparr>) = slot_record s"
  "slot_record (s\<lparr>sc_pending := p\<rparr>) = slot_record s" "slot_record (s\<lparr>sc_publication_failures := x\<rparr>) = slot_record s"
  by (simp_all add: slot_record_def fun_eq_iff)

lemma slot_record_bound: "slot_record s i = Some r \<Longrightarrow> i < length (sc_entries s)"
  by (simp add: slot_record_def split: if_splits)

lemma live_records_iff: "r \<in> set (live_records s) \<longleftrightarrow> (\<exists>i. slot_record s i = Some r)"
  by (auto simp: live_records_def slot_record_def in_set_conv_nth split: if_splits)

lemma distinct_live_ids:
  assumes "core_ok s"
  shows "distinct (map rc_id (live_records s))"
proof -
  have inj: "i = j" if "i < length (sc_entries s)" "j < length (sc_entries s)" "en_live (sc_entries s ! i)" "en_live (sc_entries s ! j)"
    "rc_id (en_record (sc_entries s ! i)) = rc_id (en_record (sc_entries s ! j))" for i j
  proof -
    have "slot_record s i = Some (en_record (sc_entries s ! i))" "slot_record s j = Some (en_record (sc_entries s ! j))"
      using that by (simp_all add: slot_record_def)
    then show ?thesis using assms that(5) unfolding core_ok_def by blast
  qed
  have "distinct (map (rc_id \<circ> en_record) (filter en_live es))"
    if "\<And>i j. i < length es \<Longrightarrow> j < length es \<Longrightarrow> en_live (es ! i) \<Longrightarrow> en_live (es ! j) \<Longrightarrow>
      rc_id (en_record (es ! i)) = rc_id (en_record (es ! j)) \<Longrightarrow> i = j" for es :: "scene_entry list"
    using that
  proof (induction es)
    case (Cons e es)
    have "distinct (map (rc_id \<circ> en_record) (filter en_live es))"
    proof (rule Cons.IH)
      show "i = j" if "i < length es" "j < length es" "en_live (es ! i)" "en_live (es ! j)"
        "rc_id (en_record (es ! i)) = rc_id (en_record (es ! j))" for i j
        using Cons.prems [of "Suc i" "Suc j"] that by simp
    qed
    moreover have "rc_id (en_record e) \<noteq> rc_id (en_record x)" if "en_live e" "x \<in> set es" "en_live x" for x
    proof -
      obtain j where "j < length es" "x = es ! j" using \<open>x \<in> set es\<close> by (auto simp: in_set_conv_nth)
      then show ?thesis using Cons.prems [of 0 "Suc j"] that by auto
    qed
    ultimately show ?case by (auto simp: image_iff comp_def)
  qed simp
  from this [of "sc_entries s"] inj show ?thesis by (simp add: live_records_def)
qed

lemma shapes_iff:
  assumes "core_ok s"
  shows "shapes s k = Some r \<longleftrightarrow> rc_id r = k \<and> (\<exists>i. slot_record s i = Some r)"
proof -
  have "distinct (map fst (map (\<lambda>r. (rc_id r, r)) (live_records s)))" using distinct_live_ids [OF assms] by (simp add: comp_def)
  then show ?thesis unfolding shapes_def by (subst map_of_eq_Some_iff) (auto simp: live_records_iff image_iff)
qed

lemma map_eqI: "(\<And>k v. m k = Some v \<longleftrightarrow> m' k = Some v) \<Longrightarrow> m = m'"
  by (rule ext) (metis not_None_eq)

lemma shapes_cong: "core_ok s \<Longrightarrow> core_ok t \<Longrightarrow> slot_record t = slot_record s \<Longrightarrow> shapes t = shapes s"
  by (rule map_eqI) (simp add: shapes_iff)

section \<open>Replicas\<close>

text \<open>What a consumer of the changes keeps, and which change may come next.\<close>

record replica =
  rp_epoch :: u64
  rp_revision :: u64
  rp_shapes :: "shape_id \<rightharpoonup> shape_record"

fun apply_change :: "scene_change \<Rightarrow> (shape_id \<rightharpoonup> shape_record) \<Rightarrow> shape_id \<rightharpoonup> shape_record" where
  "apply_change (Upsert r) m = m(rc_id r \<mapsto> r)"
| "apply_change (RemoveShape i) m = m(i := None)"
| "apply_change (ClearScene e) m = Map.empty"

definition apply_delta :: "scene_delta \<Rightarrow> replica \<Rightarrow> replica" where
  "apply_delta d r = \<lparr>rp_epoch = sd_epoch d, rp_revision = sd_revision d, rp_shapes = apply_change (sd_change d) (rp_shapes r)\<rparr>"

definition next_delta :: "replica \<Rightarrow> scene_delta \<Rightarrow> bool" where
  "next_delta r d \<longleftrightarrow>
     sd_epoch d = rp_epoch r \<and> unat (sd_revision d) = unat (rp_revision r) + 1 \<or>
     unat (sd_epoch d) = unat (rp_epoch r) + 1 \<and> sd_revision d = 1 \<and> sd_change d = ClearScene (sd_epoch d)"

fun follows :: "replica \<Rightarrow> scene_delta list \<Rightarrow> bool" where
  "follows r [] \<longleftrightarrow> True"
| "follows r (d # ds) \<longleftrightarrow> next_delta r d \<and> follows (apply_delta d r) ds"

definition view :: "'k overlay_scene \<Rightarrow> replica" where
  "view s = \<lparr>rp_epoch = sc_epoch s, rp_revision = sc_revision s, rp_shapes = shapes s\<rparr>"

lemma follows_append: "follows r (ds @ es) \<longleftrightarrow> follows r ds \<and> follows (fold apply_delta ds r) es"
  by (induction ds arbitrary: r) simp_all

definition same_queue :: "'k overlay_scene \<Rightarrow> 'k overlay_scene \<Rightarrow> bool" where
  "same_queue s t \<longleftrightarrow> sc_cursor t = sc_cursor s \<and> sc_publishing t = sc_publishing s \<and> sc_sink t = sc_sink s \<and>
     sc_publication_failures t = sc_publication_failures s"

definition emits :: "'k overlay_scene \<Rightarrow> 'k overlay_scene \<Rightarrow> bool" where
  "emits s t \<longleftrightarrow> same_queue s t \<and>
     (\<exists>ds. sc_pending t = sc_pending s @ ds \<and> follows (view s) ds \<and> fold apply_delta ds (view s) = view t)"

lemma emits_refl: "emits s s"
  by (auto simp: emits_def same_queue_def intro: exI [of _ "[]"])

lemma emits_trans:
  assumes "emits s t" and "emits t u"
  shows "emits s u"
proof -
  from assms obtain ds es where "sc_pending t = sc_pending s @ ds" "follows (view s) ds" "fold apply_delta ds (view s) = view t"
    "sc_pending u = sc_pending t @ es" "follows (view t) es" "fold apply_delta es (view t) = view u" unfolding emits_def by blast
  then have "sc_pending u = sc_pending s @ (ds @ es)" "follows (view s) (ds @ es)" "fold apply_delta (ds @ es) (view s) = view u"
    by (simp_all add: follows_append)
  moreover have "same_queue s u" using assms by (simp add: emits_def same_queue_def)
  ultimately show ?thesis unfolding emits_def by blast
qed

definition issued :: "'k overlay_scene \<Rightarrow> shape_id \<Rightarrow> bool" where
  "issued s k \<longleftrightarrow> unat (si_epoch k) < unat (sc_epoch s) \<or>
     si_epoch k = sc_epoch s \<and> unat (si_slot k) < unat (sc_next_shape_slot s)"

definition ages :: "'k overlay_scene \<Rightarrow> 'k overlay_scene \<Rightarrow> bool" where
  "ages s t \<longleftrightarrow> (\<forall>k. issued s k \<longrightarrow> issued t k \<and> (shapes s k = None \<longrightarrow> shapes t k = None))"

lemma ages_refl: "ages s s"
  by (simp add: ages_def)

lemma ages_trans: "ages s t \<Longrightarrow> ages t u \<Longrightarrow> ages s u"
  unfolding ages_def by blast

definition goes :: "'k overlay_scene \<Rightarrow> 'k overlay_scene \<Rightarrow> bool" where
  "goes s t \<longleftrightarrow> core_ok t \<and> emits s t \<and> ages s t"

lemma goes_trans: "goes s t \<Longrightarrow> goes t u \<Longrightarrow> goes s u"
  unfolding goes_def using emits_trans ages_trans by blast

lemma u64_max_minus_one: "u64_max = - 1"
  by (simp add: u64_max_def)

text \<open>A change that is queued after the entries were changed accordingly.\<close>

lemma queue_change_goes:
  assumes "core_ok t" and "same_queue s t" and "sc_pending t = sc_pending s" and "sc_epoch t = sc_epoch s" and "sc_revision t = sc_revision s"
    and "sc_revision s \<noteq> u64_max" and "shapes t = apply_change c (shapes s)" and "ages s t"
  obtains u where "queue_change c t = (Inr (), u)" and "goes s u"
    and "u = t\<lparr>sc_pending := sc_pending u, sc_revision := sc_revision s + 1\<rparr>"
proof -
  let ?d = "\<lparr>sd_epoch = sc_epoch t, sd_revision = sc_revision t + 1, sd_change = c\<rparr>"
  let ?u = "t\<lparr>sc_pending := sc_pending t @ [?d], sc_revision := sc_revision t + 1\<rparr>"
  have q: "queue_change c t = (Inr (), ?u)" using assms(5,6) by (simp add: queue_change_def)
  have recs: "slot_record ?u = slot_record t" by (simp add: slot_record_def fun_eq_iff)
  have shapes: "shapes ?u = shapes t" by (simp add: shapes_def live_records_def)
  have "sc_revision s + 1 \<noteq> 0" using assms(6) by (simp add: u64_max_minus_one eq_neg_iff_add_eq_0)
  then have "unat (sc_revision s + 1) = unat (sc_revision s) + 1" by (simp add: unatSuc add.commute)
  then have "next_delta (view s) ?d" using assms(4,5) by (simp add: next_delta_def view_def)
  moreover have "apply_delta ?d (view s) = view ?u" using assms(4,7) shapes by (simp add: apply_delta_def view_def)
  ultimately have "emits s ?u" unfolding emits_def using assms(2,3) by (auto simp: same_queue_def intro!: exI [of _ "[?d]"])
  moreover have "core_ok ?u" using assms(1) unfolding core_ok_def recs by simp
  moreover have "ages s ?u" using assms(8) unfolding ages_def issued_def shapes by simp
  ultimately have "goes s ?u" by (simp add: goes_def)
  then show thesis using that [OF q] assms(5) by simp
qed

section \<open>Entries\<close>

lemma shapes_kill:
  assumes "core_ok s" and "core_ok t" and "slot_record s i = Some r" and "slot_record t = (slot_record s)(i := None)"
  shows "shapes t = (shapes s)(rc_id r := None)"
proof (rule map_eqI)
  fix k v
  have inj: "j = i" if "slot_record s j = Some q" "rc_id q = rc_id r" for j q
    using assms(1,3) that unfolding core_ok_def by blast
  have "(\<exists>j. slot_record t j = Some v) \<longleftrightarrow> (\<exists>j. j \<noteq> i \<and> slot_record s j = Some v)" unfolding assms(4) by auto
  moreover have "rc_id v \<noteq> rc_id r \<Longrightarrow> slot_record s j = Some v \<Longrightarrow> j \<noteq> i" for j using assms(3) by auto
  ultimately show "shapes t k = Some v \<longleftrightarrow> ((shapes s)(rc_id r := None)) k = Some v"
    using shapes_iff [OF assms(1), of k v] shapes_iff [OF assms(2), of k v] inj by auto
qed

lemma shapes_put:
  assumes "core_ok s" and "core_ok t" and "slot_record t = (slot_record s)(i \<mapsto> r)"
    and "\<And>q. slot_record s i = Some q \<Longrightarrow> rc_id q = rc_id r"
  shows "shapes t = (shapes s)(rc_id r \<mapsto> r)"
proof (rule map_eqI)
  fix k v
  have here: "slot_record t i = Some r" unfolding assms(3) by simp
  have inj: "j = i" if "slot_record t j = Some q" "rc_id q = rc_id r" for j q
    using assms(2) here that unfolding core_ok_def by blast
  show "shapes t k = Some v \<longleftrightarrow> ((shapes s)(rc_id r \<mapsto> r)) k = Some v"
  proof (cases "k = rc_id r")
    case True
    then show ?thesis using shapes_iff [OF assms(2), of k v] here inj by auto
  next
    case False
    have "slot_record t j = Some v \<longleftrightarrow> slot_record s j = Some v" if "rc_id v = k" for j
      using that False assms(3,4) by auto
    then show ?thesis using shapes_iff [OF assms(1), of k v] shapes_iff [OF assms(2), of k v] False by auto
  qed
qed

lemma u32_index: "i < 2 ^ 32 \<Longrightarrow> unat (of_nat i :: u32) = i"
  by (simp add: unsigned_of_nat take_bit_nat_eq_self)

lemma kill_entry:
  fixes x :: u32
  assumes "core_ok s" and "slot_record s (unat x) = Some r" and "sc_entries t = (sc_entries s)[unat x := dead_entry]"
    and "sc_free_slots t = sc_free_slots s @ [x]" and "sc_epoch t = sc_epoch s" and "sc_next_shape_slot t = sc_next_shape_slot s"
  shows "core_ok t" and "slot_record t = (slot_record s)(unat x := None)" and "shapes t = (shapes s)(rc_id r := None)" and "ages s t"
proof -
  have bound: "unat x < length (sc_entries s)" using slot_record_bound [OF assms(2)] .
  show rec: "slot_record t = (slot_record s)(unat x := None)"
    using bound assms(3) by (auto simp: slot_record_def fun_eq_iff nth_list_update dead_entry_def)
  have free: "distinct (sc_free_slots s)" "unat ` set (sc_free_slots s) = {i. i < length (sc_entries s) \<and> slot_record s i = None}"
    using assms(1) by (simp_all add: core_ok_def)
  have "x \<notin> set (sc_free_slots s)" using free(2) assms(2) by (metis (mono_tags, lifting) image_eqI mem_Collect_eq option.distinct(1))
  then have "distinct (sc_free_slots t)" "unat ` set (sc_free_slots t) = {i. i < length (sc_entries t) \<and> slot_record t i = None}"
    using free bound assms(3,4) rec by auto
  then show ok: "core_ok t" using assms(1,3,5,6) unfolding core_ok_def rec by auto
  show shapes: "shapes t = (shapes s)(rc_id r := None)" by (rule shapes_kill [OF assms(1) ok assms(2) rec])
  show "ages s t" using assms(5,6) by (simp add: ages_def issued_def shapes)
qed

section \<open>Expiry\<close>

lemma queue_change_room:
  assumes "queue_change c t = (Inr (), u)"
  shows "sc_entries u = sc_entries t" "sc_free_slots u = sc_free_slots t" "sc_deadlines u = sc_deadlines t" "sc_epoch u = sc_epoch t"
    "sc_next_shape_slot u = sc_next_shape_slot t" "slot_record u = slot_record t"
  using assms by (auto simp: queue_change_def slot_record_def fun_eq_iff split: if_splits)

definition due_at :: "'k overlay_scene \<Rightarrow> scene_deadline \<Rightarrow> bool" where
  "due_at s d \<longleftrightarrow> (\<exists>r. slot_record s (unat (dl_entry_slot d)) = Some r \<and> rc_id r = dl_id d)"

lemma expired_entry_due: "due_at s d \<Longrightarrow> expired_entry (sc_entries s) d = Some True"
  by (auto simp: due_at_def slot_record_def expired_entry_def Let_def split: if_splits)

lemma count_due: "\<forall>d\<in>set ds. due_at s d \<Longrightarrow> count_expired (sc_entries s) ds n = Some (n + length ds)"
  by (induction ds arbitrary: n) (simp_all add: expired_entry_due)

lemma revision_room:
  assumes "Suc n \<le> unat (u64_max - sc_revision s)"
  shows "sc_revision s \<noteq> u64_max" and "n \<le> unat (u64_max - (sc_revision s + 1))"
proof -
  show ne: "sc_revision s \<noteq> u64_max" using assms by auto
  have "u64_max - sc_revision s \<noteq> 0" using assms by auto
  then have "unat (u64_max - sc_revision s - 1) = unat (u64_max - sc_revision s) - 1" by (rule unat_minus_one)
  then show "n \<le> unat (u64_max - (sc_revision s + 1))" using assms by (simp add: algebra_simps)
qed

lemma expire_all_goes:
  assumes "core_ok s" and "\<forall>d\<in>set ds. due_at s d" and "distinct (map dl_entry_slot ds)" and "length ds \<le> unat (u64_max - sc_revision s)"
  shows "\<exists>t. expire_all ds s = (Inr (), t) \<and> goes s t \<and> sc_deadlines t = sc_deadlines s \<and>
    (\<forall>i. slot_record t i = (if i \<in> (unat \<circ> dl_entry_slot) ` set ds then None else slot_record s i)) \<and>
    length ds + unat (u64_max - sc_revision t) \<ge> unat (u64_max - sc_revision s)"
  using assms
proof (induction ds arbitrary: s)
  case Nil
  then show ?case by (simp add: goes_def emits_refl ages_refl)
next
  case (Cons d ds)
  let ?x = "dl_entry_slot d"
  let ?t = "s\<lparr>sc_entries := (sc_entries s)[unat ?x := dead_entry], sc_free_slots := sc_free_slots s @ [?x]\<rparr>"
  obtain r where r: "slot_record s (unat ?x) = Some r" "rc_id r = dl_id d" using Cons.prems(2) by (auto simp: due_at_def)
  note k = kill_entry [OF Cons.prems(1) r(1), of ?t]
  have k': "core_ok ?t" "slot_record ?t = (slot_record s)(unat ?x := None)" "shapes ?t = (shapes s)(rc_id r := None)" "ages s ?t"
    using k by simp_all
  have room: "sc_revision s \<noteq> u64_max" "length ds \<le> unat (u64_max - (sc_revision s + 1))" using revision_room [of "length ds" s] Cons.prems(4) by simp_all
  obtain u where u: "queue_change (RemoveShape (dl_id d)) ?t = (Inr (), u)" "goes s u"
    "u = ?t\<lparr>sc_pending := sc_pending u, sc_revision := sc_revision s + 1\<rparr>"
    by (rule queue_change_goes [OF k'(1), of s "RemoveShape (dl_id d)"]) (use k' r(2) room in \<open>simp_all add: same_queue_def\<close>)
  note same = queue_change_room [OF u(1)]
  have rev: "sc_revision u = sc_revision s + 1" by (subst u(3)) simp
  have rec: "slot_record u = (slot_record s)(unat ?x := None)" using same(6) k'(2) by simp
  have other: "unat (dl_entry_slot e) \<noteq> unat ?x" if "e \<in> set ds" for e using Cons.prems(3) that by (metis distinct.simps(2) image_eqI list.simps(9) set_map word_unat_eq_iff)
  have "\<forall>e\<in>set ds. due_at u e" using Cons.prems(2) other by (simp add: due_at_def rec)
  then obtain t where t: "expire_all ds u = (Inr (), t)" "goes u t" "sc_deadlines t = sc_deadlines u"
    "\<forall>i. slot_record t i = (if i \<in> (unat \<circ> dl_entry_slot) ` set ds then None else slot_record u i)"
    "length ds + unat (u64_max - sc_revision t) \<ge> unat (u64_max - sc_revision u)"
    using Cons.IH [of u] u(2) Cons.prems(3) room(2) rev by (auto simp: goes_def)
  have "expire_all (d # ds) s = (Inr (), t)"
    using expired_entry_due [of s d] Cons.prems(2) u(1) t(1) by (simp add: and_then_def)
  moreover have "goes s t" by (rule goes_trans [OF u(2) t(2)])
  moreover have "\<forall>i. slot_record t i = (if i \<in> (unat \<circ> dl_entry_slot) ` set (d # ds) then None else slot_record s i)"
    using t(4) by (simp add: rec)
  moreover have "sc_deadlines t = sc_deadlines s" using t(3) same(3) by simp
  moreover have "length (d # ds) + unat (u64_max - sc_revision t) \<ge> unat (u64_max - sc_revision s)"
  proof -
    have "u64_max - sc_revision s \<noteq> 0" using room(1) by simp
    then have "unat (u64_max - sc_revision s - 1) = unat (u64_max - sc_revision s) - 1" by (rule unat_minus_one)
    then have "unat (u64_max - sc_revision s) \<le> Suc (unat (u64_max - sc_revision u))" by (simp add: rev algebra_simps)
    then show ?thesis using t(5) by simp
  qed
  ultimately show ?case by blast
qed

definition scene_ok :: "'k overlay_scene \<Rightarrow> bool" where
  "scene_ok s \<longleftrightarrow> core_ok s \<and> dated s"

lemma sorted_takeWhile_filter:
  assumes "sorted_wrt deadline_less ds"
  shows "takeWhile (\<lambda>d. dl_expires_at d \<le> now) ds = filter (\<lambda>d. dl_expires_at d \<le> now) ds"
    and "drop (length (takeWhile (\<lambda>d. dl_expires_at d \<le> now) ds)) ds = filter (\<lambda>d. now < dl_expires_at d) ds"
proof -
  have "takeWhile (\<lambda>d. dl_expires_at d \<le> now) ds = filter (\<lambda>d. dl_expires_at d \<le> now) ds \<and>
      dropWhile (\<lambda>d. dl_expires_at d \<le> now) ds = filter (\<lambda>d. now < dl_expires_at d) ds"
    using assms
  proof (induction ds)
    case (Cons d ds)
    show ?case
    proof (cases "dl_expires_at d \<le> now")
      case True
      then show ?thesis using Cons by simp
    next
      case False
      have later: "\<forall>e\<in>set ds. now < dl_expires_at e" using Cons.prems False by (force simp: deadline_less_def)
      then have "filter (\<lambda>d. dl_expires_at d \<le> now) ds = []" "filter (\<lambda>d. now < dl_expires_at d) ds = ds" by (auto simp: filter_empty_conv filter_id_conv)
      then show ?thesis using False by simp
    qed
  qed simp
  then show "takeWhile (\<lambda>d. dl_expires_at d \<le> now) ds = filter (\<lambda>d. dl_expires_at d \<le> now) ds"
    "drop (length (takeWhile (\<lambda>d. dl_expires_at d \<le> now) ds)) ds = filter (\<lambda>d. now < dl_expires_at d) ds"
    unfolding dropWhile_eq_drop [symmetric] by blast+
qed

lemma dated_due:
  assumes "core_ok s" and "dated s" and "d \<in> set (sc_deadlines s)"
  obtains i r where "slot_record s i = Some r" and "deadline_for r = Some (dl_expires_at d)" and "dl_id d = rc_id r"
    and "unat (dl_entry_slot d) = i"
proof -
  obtain i r t where d: "d = deadline_of i r t" "slot_record s i = Some r" "deadline_for r = Some t" using assms(2,3) unfolding dated_def by blast
  have "i < 2 ^ 32" using slot_record_bound [OF d(2)] assms(1) by (auto simp: core_ok_def)
  then show thesis using that [OF d(2)] d by (simp add: deadline_of_def u32_index)
qed

lemma distinct_deadline_slots:
  assumes "core_ok s" and "dated s"
  shows "distinct (map dl_entry_slot (sc_deadlines s))"
proof -
  have "sorted_wrt deadline_less ds \<Longrightarrow> distinct ds" for ds by (induction ds) (auto simp: deadline_less_def)
  then have "distinct (sc_deadlines s)" using assms(2) by (simp add: dated_def)
  moreover have "inj_on dl_entry_slot (set (sc_deadlines s))"
  proof (rule inj_onI)
    fix d e assume d: "d \<in> set (sc_deadlines s)" and e: "e \<in> set (sc_deadlines s)" and eq: "dl_entry_slot d = dl_entry_slot e"
    from dated_due [OF assms d] dated_due [OF assms e] eq
    have "dl_expires_at d = dl_expires_at e \<and> dl_id d = dl_id e" by (metis option.inject)
    then show "d = e" using eq by (cases d; cases e) simp
  qed
  ultimately show ?thesis by (simp add: distinct_map)
qed

lemma drain_expired_goes:
  assumes "scene_ok s"
  shows "drain_expired now s = (Inl (OverflowError ''overlay revision overflow''), s) \<or>
    (\<exists>t. drain_expired now s = (Inr (), t) \<and> goes s t \<and> scene_ok t \<and>
      (\<forall>i. slot_record t i = (case slot_record s i of None \<Rightarrow> None | Some r \<Rightarrow> if deadline_is_due r now then None else Some r)) \<and>
      length (filter (\<lambda>d. dl_expires_at d \<le> now) (sc_deadlines s)) + unat (u64_max - sc_revision t) \<ge> unat (u64_max - sc_revision s))"
    and "length (filter (\<lambda>d. dl_expires_at d \<le> now) (sc_deadlines s)) \<le> unat (u64_max - sc_revision s) \<Longrightarrow> fst (drain_expired now s) = Inr ()"
proof -
  have core: "core_ok s" and dated: "dated s" using assms by (simp_all add: scene_ok_def)
  have sorted: "sorted_wrt deadline_less (sc_deadlines s)" using dated by (simp add: dated_def)
  let ?f = "filter (\<lambda>d. dl_expires_at d \<le> now) (sc_deadlines s)"
  note split = sorted_takeWhile_filter [OF sorted, of now]
  have due: "\<forall>d\<in>set ?f. due_at s d"
  proof
    fix d assume "d \<in> set ?f"
    then have "d \<in> set (sc_deadlines s)" by simp
    from dated_due [OF core dated this] show "due_at s d" unfolding due_at_def by metis
  qed
  have slots: "distinct (map dl_entry_slot ?f)" using distinct_deadline_slots [OF core dated] by (rule distinct_map_filter)
  have count: "count_expired (sc_entries s) ?f 0 = Some (length ?f)" using count_due [OF due, of 0] by simp
  have drain: "drain_expired now s = (if \<not> revision_has_capacity (length ?f) s then (Inl (OverflowError ''overlay revision overflow''), s)
      else and_then (expire_all ?f s) (\<lambda>_ s. (Inr (), s\<lparr>sc_deadlines := drop (length ?f) (sc_deadlines s)\<rparr>)))"
    using count unfolding drain_expired_def Let_def split(1) by simp
  have "drain_expired now s = (Inl (OverflowError ''overlay revision overflow''), s) \<or>
    (\<exists>t. drain_expired now s = (Inr (), t) \<and> goes s t \<and> scene_ok t \<and>
      (\<forall>i. slot_record t i = (case slot_record s i of None \<Rightarrow> None | Some r \<Rightarrow> if deadline_is_due r now then None else Some r)) \<and>
      length ?f + unat (u64_max - sc_revision t) \<ge> unat (u64_max - sc_revision s))"
  proof (cases "revision_has_capacity (length ?f) s")
    case False
    then show ?thesis using drain by simp
  next
    case True
    then obtain t where t: "expire_all ?f s = (Inr (), t)" "goes s t" "sc_deadlines t = sc_deadlines s"
      "\<forall>i. slot_record t i = (if i \<in> (unat \<circ> dl_entry_slot) ` set ?f then None else slot_record s i)"
      "length ?f + unat (u64_max - sc_revision t) \<ge> unat (u64_max - sc_revision s)"
      using expire_all_goes [OF core due slots] by (auto simp: revision_has_capacity_def)
    let ?u = "t\<lparr>sc_deadlines := filter (\<lambda>d. now < dl_expires_at d) (sc_deadlines s)\<rparr>"
    have eq: "drain_expired now s = (Inr (), ?u)" using drain True t(1,3) split by (simp add: and_then_def)
    have same: "slot_record ?u = slot_record t" "shapes ?u = shapes t" "view ?u = view t"
      by (simp_all add: slot_record_def fun_eq_iff shapes_def live_records_def view_def)
    have goes: "goes s ?u" using t(2) unfolding goes_def core_ok_def emits_def ages_def issued_def same_queue_def same by simp
    have hit: "i \<in> (unat \<circ> dl_entry_slot) ` set ?f \<longleftrightarrow> deadline_is_due r now" if r: "slot_record s i = Some r" for i r
    proof
      assume "i \<in> (unat \<circ> dl_entry_slot) ` set ?f"
      then obtain d where d: "d \<in> set (sc_deadlines s)" "dl_expires_at d \<le> now" "unat (dl_entry_slot d) = i" by auto
      from dated_due [OF core dated d(1)] d(3) r have "deadline_for r = Some (dl_expires_at d)" by (metis option.inject)
      then show "deadline_is_due r now" using d(2) by (simp add: deadline_is_due_def)
    next
      assume "deadline_is_due r now"
      then obtain x where x: "deadline_for r = Some x" "x \<le> now" by (auto simp: deadline_is_due_def split: option.splits)
      then have "deadline_of i r x \<in> set (sc_deadlines s)" using dated r unfolding dated_def by blast
      moreover have "i < 2 ^ 32" using slot_record_bound [OF r] core by (auto simp: core_ok_def)
      ultimately show "i \<in> (unat \<circ> dl_entry_slot) ` set ?f"
        using x(2) by (intro image_eqI [of _ _ "deadline_of i r x"]) (simp_all add: deadline_of_def u32_index)
    qed
    have none: "slot_record t i = None" if "slot_record s i = None" for i using t(4) that by simp
    have rec: "slot_record t i = (case slot_record s i of None \<Rightarrow> None | Some r \<Rightarrow> if deadline_is_due r now then None else Some r)" for i
      using t(4) none hit by (cases "slot_record s i") auto
    have kept: "slot_record t i = Some r \<longleftrightarrow> slot_record s i = Some r \<and> \<not> deadline_is_due r now" for i r
      unfolding rec by (auto split: option.splits if_splits)
    have "dated ?u"
      unfolding dated_def
    proof
      show "sorted_wrt deadline_less (sc_deadlines ?u)" using sorted by (simp add: sorted_wrt_filter)
      have expires: "dl_expires_at (deadline_of i r x) = x" for i r x by (simp add: deadline_of_def)
      have late: "deadline_for r = Some x \<Longrightarrow> deadline_is_due r now \<longleftrightarrow> \<not> now < x" for r x by (auto simp: deadline_is_due_def)
      have old: "set (sc_deadlines s) = {deadline_of i r x |i r x. slot_record s i = Some r \<and> deadline_for r = Some x}"
        using dated by (simp add: dated_def)
      show "set (sc_deadlines ?u) = {deadline_of i r x |i r x. slot_record ?u i = Some r \<and> deadline_for r = Some x}"
      proof (intro equalityI subsetI)
        fix d assume "d \<in> set (sc_deadlines ?u)"
        then obtain i r x where "d = deadline_of i r x" "slot_record s i = Some r" "deadline_for r = Some x" "now < dl_expires_at d"
          using old by auto
        then show "d \<in> {deadline_of i r x |i r x. slot_record ?u i = Some r \<and> deadline_for r = Some x}"
          unfolding same using kept [of i r] late expires by auto
      next
        fix d assume "d \<in> {deadline_of i r x |i r x. slot_record ?u i = Some r \<and> deadline_for r = Some x}"
        then obtain i r x where "d = deadline_of i r x" "slot_record t i = Some r" "deadline_for r = Some x" unfolding same by blast
        then show "d \<in> set (sc_deadlines ?u)" using kept [of i r] late expires old by auto
      qed
    qed
    then have "scene_ok ?u" using goes by (simp add: scene_ok_def goes_def)
    then show ?thesis using eq goes rec t(5) same by auto
  qed
  then show "drain_expired now s = (Inl (OverflowError ''overlay revision overflow''), s) \<or>
    (\<exists>t. drain_expired now s = (Inr (), t) \<and> goes s t \<and> scene_ok t \<and>
      (\<forall>i. slot_record t i = (case slot_record s i of None \<Rightarrow> None | Some r \<Rightarrow> if deadline_is_due r now then None else Some r)) \<and>
      length ?f + unat (u64_max - sc_revision t) \<ge> unat (u64_max - sc_revision s))" .
  show "fst (drain_expired now s) = Inr ()" if "length ?f \<le> unat (u64_max - sc_revision s)"
    using drain that expire_all_goes [OF core due slots that] by (auto simp: revision_has_capacity_def and_then_def)
qed

end
