(* ===== verification/Overlay_Ops.thy ===== *)
theory Overlay_Ops
  imports Overlay_Runs
begin

text \<open>The operations of the overlay scene of \<open>src/kernel/presentation/overlay_scene.cpp\<close> keep its invariant.\<close>

section \<open>Deadlines\<close>

lemma insert_sorted_deadline:
  assumes "sorted_wrt deadline_less ds" and "\<forall>d\<in>set ds. si_slot (dl_id d) \<noteq> si_slot (dl_id x)"
  shows "sorted_wrt deadline_less (takeWhile (\<lambda>d. deadline_less d x) ds @ x # dropWhile (\<lambda>d. deadline_less d x) ds)"
  using assms
proof (induction ds)
  case (Cons d ds)
  show ?case
  proof (cases "deadline_less d x")
    case True
    have "set (takeWhile (\<lambda>d. deadline_less d x) ds) \<union> set (dropWhile (\<lambda>d. deadline_less d x) ds) = set ds"
      by (metis set_append takeWhile_dropWhile_id)
    then have "\<forall>y\<in>set (takeWhile (\<lambda>d. deadline_less d x) ds @ x # dropWhile (\<lambda>d. deadline_less d x) ds). deadline_less d y"
      using Cons.prems(1) True by auto
    then show ?thesis using Cons True by simp
  next
    case False
    then have "deadline_less x d" using Cons.prems(2) by (auto simp: deadline_less_def)
    moreover have "deadline_less x y" if "y \<in> set ds" for y
      using \<open>deadline_less x d\<close> Cons.prems(1) that by (auto simp: deadline_less_def)
    ultimately show ?thesis using Cons.prems(1) False by simp
  qed
qed simp

lemma insert_deadline_fields [simp]:
  "sc_entries (insert_deadline r x s) = sc_entries s" "sc_free_slots (insert_deadline r x s) = sc_free_slots s"
  "sc_epoch (insert_deadline r x s) = sc_epoch s" "sc_revision (insert_deadline r x s) = sc_revision s"
  "sc_next_shape_slot (insert_deadline r x s) = sc_next_shape_slot s" "sc_pending (insert_deadline r x s) = sc_pending s"
  "same_queue t (insert_deadline r x s) = same_queue t s" "slot_record (insert_deadline r x s) = slot_record s"
  "shapes (insert_deadline r x s) = shapes s" "core_ok (insert_deadline r x s) = core_ok s" "ages t (insert_deadline r x s) = ages t s"
proof -
  show fields: "sc_entries (insert_deadline r x s) = sc_entries s" "sc_free_slots (insert_deadline r x s) = sc_free_slots s"
    "sc_epoch (insert_deadline r x s) = sc_epoch s" "sc_revision (insert_deadline r x s) = sc_revision s"
    "sc_next_shape_slot (insert_deadline r x s) = sc_next_shape_slot s" "sc_pending (insert_deadline r x s) = sc_pending s"
    "same_queue t (insert_deadline r x s) = same_queue t s"
    by (simp_all add: insert_deadline_def Let_def same_queue_def split: option.split)
  then show rec: "slot_record (insert_deadline r x s) = slot_record s" by (simp add: slot_record_def fun_eq_iff)
  show shapes: "shapes (insert_deadline r x s) = shapes s" using fields by (simp add: shapes_def live_records_def)
  show "core_ok (insert_deadline r x s) = core_ok s" using fields rec by (simp add: core_ok_def)
  show "ages t (insert_deadline r x s) = ages t s" using fields shapes by (simp add: ages_def issued_def)
qed

lemma insert_deadline_dated:
  assumes "core_ok s" and "slot_record s i = Some r" and "sorted_wrt deadline_less (sc_deadlines s)"
    and "set (sc_deadlines s) = {deadline_of j q t | j q t. j \<noteq> i \<and> slot_record s j = Some q \<and> deadline_for q = Some t}"
  shows "dated (insert_deadline r (of_nat i) s)"
proof (cases "deadline_for r")
  case None
  then have "insert_deadline r (of_nat i) s = s" by (simp add: insert_deadline_def)
  moreover have "j \<noteq> i" if "slot_record s j = Some q" "deadline_for q = Some t" for j q t using assms(2) None that by auto
  then have "set (sc_deadlines s) = {deadline_of j q t | j q t. slot_record s j = Some q \<and> deadline_for q = Some t}" unfolding assms(4) by blast
  ultimately show ?thesis using assms(3) by (simp add: dated_def)
next
  case (Some t)
  let ?d = "deadline_of i r t" and ?ds = "sc_deadlines s"
  have ds: "sc_deadlines (insert_deadline r (of_nat i) s) = takeWhile (\<lambda>x. deadline_less x ?d) ?ds @ ?d # dropWhile (\<lambda>x. deadline_less x ?d) ?ds"
    using Some by (simp add: insert_deadline_def deadline_of_def Let_def)
  have "si_slot (dl_id d) \<noteq> si_slot (dl_id ?d)" if d: "d \<in> set ?ds" for d
  proof
    assume eq: "si_slot (dl_id d) = si_slot (dl_id ?d)"
    obtain j q where q: "j \<noteq> i" "slot_record s j = Some q" "dl_id d = rc_id q" using assms(4) d by (auto simp: deadline_of_def)
    have "si_epoch (rc_id q) = si_epoch (rc_id r)" using assms(1,2) q(2) unfolding core_ok_def by metis
    then have "rc_id q = rc_id r" using eq q(3) by (simp add: deadline_of_def)
    then show False using assms(1,2) q(1,2) unfolding core_ok_def by metis
  qed
  then have "sorted_wrt deadline_less (sc_deadlines (insert_deadline r (of_nat i) s))"
    unfolding ds using assms(3) by (intro insert_sorted_deadline) simp_all
  moreover have "set (takeWhile (\<lambda>x. deadline_less x ?d) ?ds) \<union> set (dropWhile (\<lambda>x. deadline_less x ?d) ?ds) = set ?ds"
    by (metis set_append takeWhile_dropWhile_id)
  then have "set (sc_deadlines (insert_deadline r (of_nat i) s)) = insert ?d (set ?ds)" unfolding ds by auto
  moreover have "insert ?d (set ?ds) = {deadline_of j q x | j q x. slot_record s j = Some q \<and> deadline_for q = Some x}"
  proof -
    have "deadline_of j q x = ?d" if "j = i" "slot_record s j = Some q" "deadline_for q = Some x" for j q x using that assms(2) Some by simp
    then show ?thesis unfolding assms(4) using assms(2) Some by blast
  qed
  ultimately show ?thesis unfolding dated_def insert_deadline_fields by simp
qed

lemma due_once:
  assumes "scene_ok s" and "\<And>i r. slot_record s i = Some r \<Longrightarrow> deadline_is_due r now \<Longrightarrow> i = i0"
  shows "length (filter (\<lambda>d. dl_expires_at d \<le> now) (sc_deadlines s)) \<le> 1"
proof -
  have core: "core_ok s" and dated: "dated s" using assms(1) by (simp_all add: scene_ok_def)
  let ?f = "filter (\<lambda>d. dl_expires_at d \<le> now) (sc_deadlines s)"
  have "dl_entry_slot d = of_nat i0" if "d \<in> set ?f" for d
  proof -
    have "d \<in> set (sc_deadlines s)" "dl_expires_at d \<le> now" using that by simp_all
    then obtain i r where "slot_record s i = Some r" "deadline_for r = Some (dl_expires_at d)" "unat (dl_entry_slot d) = i"
      using dated_due [OF core dated] by metis
    then have "unat (dl_entry_slot d) = i0" using assms(2) \<open>dl_expires_at d \<le> now\<close> by (simp add: deadline_is_due_def)
    then show ?thesis by (metis of_nat_unat ucast_id)
  qed
  then have "set (map dl_entry_slot ?f) \<subseteq> {of_nat i0}" by auto
  moreover have "distinct (map dl_entry_slot ?f)" using distinct_deadline_slots [OF core dated] by (rule distinct_map_filter)
  ultimately have "length (map dl_entry_slot ?f) \<le> card {of_nat i0 :: u32}" by (metis card_mono distinct_card finite.emptyI finite.insertI)
  then show ?thesis by simp
qed

text \<open>The end of a change: the record that it stored may be due at once.\<close>

lemma drain_if_goes:
  assumes "scene_ok u" and "\<And>i r. slot_record u i = Some r \<Longrightarrow> deadline_is_due r now \<Longrightarrow> due \<and> i = i0"
    and "due \<Longrightarrow> 1 \<le> unat (u64_max - sc_revision u)"
  obtains v where "drain_if due now u = (Inr (), v)" and "goes u v" and "scene_ok v"
    and "\<And>i. slot_record v i = (case slot_record u i of None \<Rightarrow> None | Some r \<Rightarrow> if deadline_is_due r now then None else Some r)"
proof (cases due)
  case False
  then have "\<not> deadline_is_due r now" if "slot_record u i = Some r" for i r using assms(2) that by blast
  then have "slot_record u i = (case slot_record u i of None \<Rightarrow> None | Some r \<Rightarrow> if deadline_is_due r now then None else Some r)" for i
    by (auto split: option.splits)
  then show thesis using that [of u] assms(1) False by (simp add: drain_if_def goes_def scene_ok_def emits_refl ages_refl)
next
  case True
  have "length (filter (\<lambda>d. dl_expires_at d \<le> now) (sc_deadlines u)) \<le> unat (u64_max - sc_revision u)"
    using due_once [OF assms(1), of now i0] assms(2) assms(3) [OF True] by force
  then have "fst (drain_expired now u) = Inr ()" by (rule drain_expired_goes(2) [OF assms(1)])
  then obtain v where "drain_expired now u = (Inr (), v)" "goes u v" "scene_ok v"
    "\<forall>i. slot_record v i = (case slot_record u i of None \<Rightarrow> None | Some r \<Rightarrow> if deadline_is_due r now then None else Some r)"
    using drain_expired_goes(1) [OF assms(1), of now] by auto
  then show thesis using that [of v] True by (simp add: drain_if_def)
qed

section \<open>Adding\<close>

lemma next_slot_commutes:
  "queue_change c (s\<lparr>sc_next_shape_slot := n\<rparr>) = (case queue_change c s of (e, u) \<Rightarrow> (e, u\<lparr>sc_next_shape_slot := n\<rparr>))"
  "insert_deadline r x (s\<lparr>sc_next_shape_slot := n\<rparr>) = (insert_deadline r x s)\<lparr>sc_next_shape_slot := n\<rparr>"
  by (simp_all add: queue_change_def insert_deadline_def Let_def split: option.split)

lemma chosen_slot:
  assumes "core_ok s" and "choose_slot s = Inr (x, reuses)"
  defines "s0 \<equiv> (if reuses then s\<lparr>sc_free_slots := butlast (sc_free_slots s)\<rparr> else s)"
  obtains t where "place_entry x r s0 = (Inr (), t)" and "slot_record t = (slot_record s)(unat x \<mapsto> r)" and "slot_record s (unat x) = None"
    and "t = s\<lparr>sc_entries := sc_entries t, sc_free_slots := sc_free_slots t\<rparr>" and "length (sc_entries t) \<le> 2 ^ 32"
    and "distinct (sc_free_slots t)" and "unat ` set (sc_free_slots t) = {i. i < length (sc_entries t) \<and> slot_record t i = None}"
    and "unat (sc_next_shape_slot s) < 2 ^ 32"
proof -
  have room: "sc_next_shape_slot s \<le> ucast maximum_slot" using assms(2) by (auto simp: choose_slot_def split: if_splits)
  then have n: "unat (sc_next_shape_slot s) < 2 ^ 32" by (simp add: word_le_nat_alt maximum_slot_def)
  have free: "distinct (sc_free_slots s)" "unat ` set (sc_free_slots s) = {i. i < length (sc_entries s) \<and> slot_record s i = None}"
    and len: "length (sc_entries s) \<le> 2 ^ 32" using assms(1) by (simp_all add: core_ok_def)
  let ?e = "\<lparr>en_record = r, en_live = True\<rparr>"
  show thesis
  proof (cases reuses)
    case True
    then have ne: "sc_free_slots s \<noteq> []" and x: "x = last (sc_free_slots s)" using assms(2) by (auto simp: choose_slot_def split: if_splits)
    have split: "sc_free_slots s = butlast (sc_free_slots s) @ [x]" using ne x by simp
    have "unat x \<in> unat ` set (sc_free_slots s)" using ne x by simp
    then have dead: "unat x < length (sc_entries s)" "slot_record s (unat x) = None" unfolding free(2) by simp_all
    let ?t = "s0\<lparr>sc_entries := (sc_entries s)[unat x := ?e]\<rparr>"
    have p: "place_entry x r s0 = (Inr (), ?t)" using dead(1) True by (simp add: place_entry_def s0_def)
    have rec: "slot_record ?t = (slot_record s)(unat x \<mapsto> r)" using dead(1) by (auto simp: slot_record_def fun_eq_iff nth_list_update)
    have bl: "sc_free_slots ?t = butlast (sc_free_slots s)" using True by (simp add: s0_def)
    have d: "x \<notin> set (butlast (sc_free_slots s))" "distinct (butlast (sc_free_slots s))" using free(1) split by (metis distinct_append not_distinct_conv_prefix distinct_butlast, metis distinct_butlast free(1))
    have "unat ` set (sc_free_slots s) = insert (unat x) (unat ` set (butlast (sc_free_slots s)))" by (subst split) auto
    moreover have "unat x \<notin> unat ` set (butlast (sc_free_slots s))" using d(1) by (metis imageE word_unat_eq_iff)
    ultimately have "unat ` set (butlast (sc_free_slots s)) = {i. i < length (sc_entries s) \<and> slot_record s i = None} - {unat x}" using free(2) by auto
    then have set: "unat ` set (sc_free_slots ?t) = {i. i < length (sc_entries ?t) \<and> slot_record ?t i = None}" unfolding bl rec by auto
    show thesis
      by (rule that [OF p rec dead(2)]) (use True len d(2) set n in \<open>auto simp: s0_def\<close>)
  next
    case False
    then have none: "sc_free_slots s = []" and small: "length (sc_entries s) < 2 ^ 32" and x: "x = of_nat (length (sc_entries s))"
      using assms(2) by (auto simp: choose_slot_def maximum_slot_def split: if_splits)
    have ux: "unat x = length (sc_entries s)" using small x by (simp add: u32_index)
    let ?t = "s\<lparr>sc_entries := sc_entries s @ [?e]\<rparr>"
    have p: "place_entry x r s0 = (Inr (), ?t)" using ux False by (simp add: place_entry_def s0_def)
    have rec: "slot_record ?t = (slot_record s)(unat x \<mapsto> r)" using ux by (auto simp: slot_record_def fun_eq_iff nth_append)
    have dead: "slot_record s (unat x) = None" using ux by (simp add: slot_record_def)
    have "{i. i < length (sc_entries s) \<and> slot_record s i = None} = {}" using free(2) none by simp
    then have set: "unat ` set (sc_free_slots ?t) = {i. i < length (sc_entries ?t) \<and> slot_record ?t i = None}"
      unfolding rec using none ux by auto
    show thesis
      by (rule that [OF p rec dead]) (use none small set n in \<open>auto\<close>)
  qed
qed

lemma store_new_goes:
  fixes shape :: shape and now :: int
  assumes "scene_ok s" and "choose_slot s = Inr (x, reuses)" and "\<And>i r. slot_record s i = Some r \<Longrightarrow> \<not> deadline_is_due r now"
  defines "k \<equiv> \<lparr>si_epoch = sc_epoch s, si_slot = ucast (sc_next_shape_slot s)\<rparr>"
  defines "r \<equiv> \<lparr>rc_id = k, rc_shape = shape, rc_started_at = now\<rparr>"
  obtains (full) "store_new x reuses shape now s = (Inr (Inl (fail Overflowed ''overlay revisions are exhausted'')), s)"
    | (stored) v where "store_new x reuses shape now s = (Inr (Inr k), v)" and "goes s v" and "scene_ok v" and "\<not> issued s k" and "issued v k"
      and "shapes v = (if deadline_is_due r now then shapes s else (shapes s)(k \<mapsto> r))"
proof -
  let ?due = "deadline_is_due r now"
  have core: "core_ok s" and dated: "dated s" using assms(1) by (simp_all add: scene_ok_def)
  show thesis
  proof (cases "revision_has_capacity (revision_count_for_mutation ?due) s")
    case False
    then show thesis using full by (simp add: store_new_def Let_def r_def k_def)
  next
    case True
    let ?s0 = "if reuses then s\<lparr>sc_free_slots := butlast (sc_free_slots s)\<rparr> else s"
    let ?n = "sc_next_shape_slot s + 1"
    obtain t where t: "place_entry x r ?s0 = (Inr (), t)" "slot_record t = (slot_record s)(unat x \<mapsto> r)" "slot_record s (unat x) = None"
      "t = s\<lparr>sc_entries := sc_entries t, sc_free_slots := sc_free_slots t\<rparr>" "length (sc_entries t) \<le> 2 ^ 32"
      "distinct (sc_free_slots t)" "unat ` set (sc_free_slots t) = {i. i < length (sc_entries t) \<and> slot_record t i = None}"
      "unat (sc_next_shape_slot s) < 2 ^ 32"
      by (rule chosen_slot [OF core assms(2), of r]) blast
    have fields: "sc_epoch t = sc_epoch s" "sc_revision t = sc_revision s" "sc_next_shape_slot t = sc_next_shape_slot s" "sc_pending t = sc_pending s"
      "sc_deadlines t = sc_deadlines s" "same_queue s t" by (subst t(4), simp add: same_queue_def)+
    have n: "unat ?n = unat (sc_next_shape_slot s) + 1"
    proof -
      have "unat (sc_next_shape_slot s) + 1 < 2 ^ 64" using t(8) by simp
      then show ?thesis by (simp add: unat_word_ariths)
    qed
    have slot: "unat (si_slot k) = unat (sc_next_shape_slot s)" using t(8) by (simp add: k_def unsigned_ucast_eq unsigned_take_bit_eq take_bit_nat_eq_self)
    let ?t = "t\<lparr>sc_next_shape_slot := ?n\<rparr>"
    have rec: "slot_record ?t = (slot_record s)(unat x \<mapsto> r)" using t(2) by simp
    have fresh: "rc_id q \<noteq> k" if "slot_record s i = Some q" for i q
      using core that slot unfolding core_ok_def by fastforce
    have ok: "core_ok ?t"
      unfolding core_ok_def rec
    proof (intro conjI allI impI)
      show "length (sc_entries ?t) \<le> 2 ^ 32" "unat (sc_next_shape_slot ?t) \<le> 2 ^ 32" "distinct (sc_free_slots ?t)" using t(5,6,8) n by simp_all
      show "unat ` set (sc_free_slots ?t) = {i. i < length (sc_entries ?t) \<and> ((slot_record s)(unat x \<mapsto> r)) i = None}" using t(2,7) by simp
      fix i q assume q: "((slot_record s)(unat x \<mapsto> r)) i = Some q"
      have "si_epoch (rc_id q) = sc_epoch s \<and> unat (si_slot (rc_id q)) \<le> unat (sc_next_shape_slot s)"
      proof (cases "i = unat x")
        case True
        then have "q = r" using q by simp
        then show ?thesis using slot by (simp add: r_def k_def)
      next
        case False
        then have "slot_record s i = Some q" using q by simp
        then have "si_epoch (rc_id q) = sc_epoch s \<and> unat (si_slot (rc_id q)) < unat (sc_next_shape_slot s)" using core unfolding core_ok_def by blast
        then show ?thesis by simp
      qed
      then show "si_epoch (rc_id q) = sc_epoch ?t" "unat (si_slot (rc_id q)) < unat (sc_next_shape_slot ?t)" using n fields(1) by simp_all
      fix j q' assume q': "((slot_record s)(unat x \<mapsto> r)) j = Some q'" and eq: "rc_id q = rc_id q'"
      show "i = j"
      proof (cases "i = unat x \<or> j = unat x")
        case True
        have id: "rc_id r = k" by (simp add: r_def)
        show ?thesis
        proof (rule ccontr)
          assume "i \<noteq> j"
          with True consider "q = r" "slot_record s j = Some q'" | "q' = r" "slot_record s i = Some q" using q q' by fastforce
          then show False using fresh id eq by cases metis+
        qed
      next
        case False
        then show ?thesis using q q' eq core unfolding core_ok_def by (metis fun_upd_other)
      qed
    qed
    have shapes: "shapes ?t = (shapes s)(k \<mapsto> r)" using shapes_put [OF core ok rec] t(3) by (simp add: r_def)
    have unissued: "\<not> issued s k" using slot by (simp add: issued_def k_def)
    have mono: "issued s i \<Longrightarrow> issued ?t i" for i using n fields(1) by (auto simp: issued_def)
    have ages: "ages s ?t" using mono unissued shapes unfolding ages_def by auto
    have room: "sc_revision s \<noteq> u64_max" "?due \<Longrightarrow> 1 \<le> unat (u64_max - (sc_revision s + 1))"
      using True revision_room [of 0 s] revision_room [of 1 s] by (auto simp: revision_has_capacity_def revision_count_for_mutation_def split: if_splits)
    let ?i = "insert_deadline r x ?t"
    have x: "x = of_nat (unat x)" by simp
    have after: "{deadline_of j q e | j q e. j \<noteq> unat x \<and> slot_record ?t j = Some q \<and> deadline_for q = Some e} =
        {deadline_of j q e | j q e. slot_record s j = Some q \<and> deadline_for q = Some e}"
    proof -
      have "(j \<noteq> unat x \<and> slot_record ?t j = Some q \<and> deadline_for q = Some e) \<longleftrightarrow> (slot_record s j = Some q \<and> deadline_for q = Some e)" for j q e
        using t(3) unfolding rec by auto
      then show ?thesis by simp
    qed
    have "dated ?i"
      using insert_deadline_dated [OF ok, of "unat x" r] rec after dated fields(5) unfolding dated_def by simp
    have dated_u: "dated u" if "queue_change c ?i = (Inr (), u)" for c u
      using \<open>dated ?i\<close> queue_change_room [OF that] by (simp add: dated_def)
    obtain u where u: "queue_change (Upsert r) ?i = (Inr (), u)" "goes s u" "u = ?i\<lparr>sc_pending := sc_pending u, sc_revision := sc_revision s + 1\<rparr>"
    proof (rule queue_change_goes [of ?i s "Upsert r"])
      have "same_queue s ?t" using fields(6) by (simp add: same_queue_def)
      then show "same_queue s ?i" by simp
      show "shapes ?i = apply_change (Upsert r) (shapes s)" using shapes by (simp add: r_def)
    qed (use ok ages fields room in simp_all)
    have u': "sc_revision u = sc_revision s + 1" "slot_record u = (slot_record s)(unat x \<mapsto> r)" "sc_next_shape_slot u = ?n" "sc_epoch u = sc_epoch s"
      by (subst u(3), simp) (use queue_change_room [OF u(1)] rec fields in simp_all)
    have "scene_ok u" using u(2) dated_u [OF u(1)] by (simp add: scene_ok_def goes_def)
    moreover have "?due \<and> i = unat x" if "slot_record u i = Some q" "deadline_is_due q now" for i q
      using that assms(3) unfolding u'(2) by (auto split: if_splits)
    ultimately obtain v where v: "drain_if ?due now u = (Inr (), v)" "goes u v" "scene_ok v"
      "\<And>i. slot_record v i = (case slot_record u i of None \<Rightarrow> None | Some r \<Rightarrow> if deadline_is_due r now then None else Some r)"
      using drain_if_goes [of u now ?due "unat x"] room(2) u'(1) by auto
    have "\<exists>w. queue_change (Upsert r) (insert_deadline r x t) = (Inr (), w) \<and> w\<lparr>sc_next_shape_slot := sc_next_shape_slot w + 1\<rparr> = u"
    proof -
      obtain e w where w: "queue_change (Upsert r) (insert_deadline r x t) = (e, w)" by force
      then have "e = Inr ()" "u = w\<lparr>sc_next_shape_slot := ?n\<rparr>" using u(1) by (simp_all add: next_slot_commutes)
      moreover have "sc_next_shape_slot w = sc_next_shape_slot s" using queue_change_room(5) [of "Upsert r" "insert_deadline r x t" w] w \<open>e = Inr ()\<close> fields(3) by simp
      ultimately show ?thesis using w by simp
    qed
    then have eq: "store_new x reuses shape now s = (Inr (Inr k), v)"
      using True t(1) v(1) by (auto simp: store_new_def Let_def and_then_def r_def k_def)
    have "issued u k" using slot u'(3,4) n by (simp add: issued_def k_def)
    then have "issued v k" using v(2) by (simp add: goes_def ages_def)
    moreover have "shapes v = (if ?due then shapes s else (shapes s)(k \<mapsto> r))"
    proof -
      have core_v: "core_ok v" using v(3) by (simp add: scene_ok_def)
      have "slot_record v i = (if ?due then slot_record s i else ((slot_record s)(unat x \<mapsto> r)) i)" for i
        unfolding v(4) u'(2) using assms(3) t(3) by (auto split: option.splits)
      then have "slot_record v = (if ?due then slot_record s else (slot_record s)(unat x \<mapsto> r))" by (auto simp: fun_eq_iff)
      then show ?thesis using shapes_cong [OF core core_v] shapes_cong [OF ok core_v] rec shapes by (auto split: if_splits)
    qed
    ultimately show thesis using stored [OF eq goes_trans [OF u(2) v(2)] v(3) unissued] by blast
  qed
qed

end
