(* ===== verification/Overlay_Edits.thy ===== *)
theory Overlay_Edits
  imports Overlay_Ops
begin

text \<open>
  Updates and removals in the overlay scene of \<open>src/kernel/presentation/overlay_scene.cpp\<close> keep its invariant.
\<close>

section \<open>Updating and removing\<close>

lemma core_id:
  "core_ok s \<Longrightarrow> slot_record s i = Some r \<Longrightarrow> si_epoch (rc_id r) = sc_epoch s"
  "core_ok s \<Longrightarrow> slot_record s i = Some r \<Longrightarrow> unat (si_slot (rc_id r)) < unat (sc_next_shape_slot s)"
  by (simp_all add: core_ok_def)

lemma core_inj:
  assumes "core_ok s" and "slot_record s i = Some r" and "slot_record s j = Some q" and "rc_id r = rc_id q"
  shows "i = j"
proof -
  have "\<forall>i j r q. slot_record s i = Some r \<longrightarrow> slot_record s j = Some q \<longrightarrow> rc_id r = rc_id q \<longrightarrow> i = j"
    using assms(1) unfolding core_ok_def by (elim conjE)
  then show ?thesis using assms(2-) by blast
qed

lemma live_entry_slot_from_iff:
  assumes "length es + n \<le> 2 ^ 32"
  shows "live_entry_slot_from n k es = Some x \<Longrightarrow>
      \<exists>i<length es. unat x = n + i \<and> en_live (es ! i) \<and> rc_id (en_record (es ! i)) = k"
    and "live_entry_slot_from n k es = None \<Longrightarrow> \<forall>i<length es. en_live (es ! i) \<longrightarrow> rc_id (en_record (es ! i)) \<noteq> k"
proof -
  have "(live_entry_slot_from n k es = Some x \<longrightarrow>
      (\<exists>i<length es. unat x = n + i \<and> en_live (es ! i) \<and> rc_id (en_record (es ! i)) = k)) \<and>
    (live_entry_slot_from n k es = None \<longrightarrow> (\<forall>i<length es. en_live (es ! i) \<longrightarrow> rc_id (en_record (es ! i)) \<noteq> k))"
    using assms
  proof (induction es arbitrary: n)
    case (Cons e es)
    show ?case
    proof (cases "en_live e \<and> rc_id (en_record e) = k")
      case True
      then show ?thesis using Cons.prems by (auto simp: u32_index intro!: exI [of _ 0])
    next
      case False
      have IH: "live_entry_slot_from (n + 1) k es = Some x \<longrightarrow>
          (\<exists>i<length es. unat x = n + 1 + i \<and> en_live (es ! i) \<and> rc_id (en_record (es ! i)) = k)"
        "live_entry_slot_from (n + 1) k es = None \<longrightarrow> (\<forall>i<length es. en_live (es ! i) \<longrightarrow> rc_id (en_record (es ! i)) \<noteq> k)"
        using Cons.IH [of "n + 1"] Cons.prems by auto
      have "\<exists>i<length (e # es). unat x = n + i \<and> en_live ((e # es) ! i) \<and> rc_id (en_record ((e # es) ! i)) = k"
        if some: "live_entry_slot_from (n + 1) k es = Some x"
      proof -
        obtain i where "i < length es" "unat x = n + 1 + i" "en_live (es ! i)" "rc_id (en_record (es ! i)) = k" using IH(1) some by blast
        then show ?thesis by (intro exI [of _ "Suc i"]) simp
      qed
      moreover have "\<forall>i<length (e # es). en_live ((e # es) ! i) \<longrightarrow> rc_id (en_record ((e # es) ! i)) \<noteq> k"
        if "live_entry_slot_from (n + 1) k es = None"
        using IH(2) that False by (auto simp: less_Suc_eq_0_disj)
      ultimately show ?thesis using False by auto
    qed
  qed simp
  then show "live_entry_slot_from n k es = Some x \<Longrightarrow> \<exists>i<length es. unat x = n + i \<and> en_live (es ! i) \<and> rc_id (en_record (es ! i)) = k"
    "live_entry_slot_from n k es = None \<Longrightarrow> \<forall>i<length es. en_live (es ! i) \<longrightarrow> rc_id (en_record (es ! i)) \<noteq> k" by blast+
qed

lemma found_slot_iff:
  assumes "core_ok s"
  shows "found_slot k s = Some x \<Longrightarrow> \<exists>r. slot_record s (unat x) = Some r \<and> rc_id r = k" and "found_slot k s = None \<longleftrightarrow> shapes s k = None"
proof -
  have len: "length (sc_entries s) + 0 \<le> 2 ^ 32" using assms by (simp add: core_ok_def)
  note found = live_entry_slot_from_iff [OF len]
  show some: "\<exists>r. slot_record s (unat x) = Some r \<and> rc_id r = k" if "found_slot k s = Some x" for x
    using found(1) [of k x] that by (auto simp: found_slot_def live_entry_slot_def slot_record_def split: if_splits)
  have "shapes s k = None" if "found_slot k s = None"
  proof (rule ccontr)
    assume "shapes s k \<noteq> None"
    then obtain r where "shapes s k = Some r" by blast
    then obtain i where r: "rc_id r = k" "slot_record s i = Some r" unfolding shapes_iff [OF assms] by blast
    then have "si_epoch k = sc_epoch s" using core_id(1) [OF assms r(2)] by simp
    then have "live_entry_slot_from 0 k (sc_entries s) = None" using that by (simp add: found_slot_def live_entry_slot_def)
    then show False using found(2) r by (auto simp: slot_record_def split: if_splits)
  qed
  moreover have "found_slot k s = None" if "shapes s k = None"
    using some that shapes_iff [OF assms, of k] by (metis not_None_eq)
  ultimately show "found_slot k s = None \<longleftrightarrow> shapes s k = None" by blast
qed

lemma remove_deadline_fields [simp]:
  "sc_entries (remove_deadline k s) = sc_entries s" "sc_free_slots (remove_deadline k s) = sc_free_slots s"
  "sc_epoch (remove_deadline k s) = sc_epoch s" "sc_revision (remove_deadline k s) = sc_revision s"
  "sc_next_shape_slot (remove_deadline k s) = sc_next_shape_slot s" "sc_pending (remove_deadline k s) = sc_pending s"
  "sc_deadlines (remove_deadline k s) = filter (\<lambda>d. dl_id d \<noteq> k) (sc_deadlines s)"
  by (simp_all add: remove_deadline_def)

text \<open>The deadlines of all the slots but one.\<close>

lemma other_deadlines:
  assumes "core_ok s" and "dated s" and "slot_record s i = Some r"
  shows "sorted_wrt deadline_less (filter (\<lambda>d. dl_id d \<noteq> rc_id r) (sc_deadlines s))"
    and "set (filter (\<lambda>d. dl_id d \<noteq> rc_id r) (sc_deadlines s)) =
      {deadline_of j q t | j q t. j \<noteq> i \<and> slot_record s j = Some q \<and> deadline_for q = Some t}"
proof -
  show "sorted_wrt deadline_less (filter (\<lambda>d. dl_id d \<noteq> rc_id r) (sc_deadlines s))" using assms(2) by (simp add: dated_def sorted_wrt_filter)
  have other: "rc_id q \<noteq> rc_id r \<longleftrightarrow> j \<noteq> i" if "slot_record s j = Some q" for j q
    using core_inj [OF assms(1) that assms(3)] assms(3) that by auto
  have id: "dl_id (deadline_of j q t) = rc_id q" for j q t by (simp add: deadline_of_def)
  show "set (filter (\<lambda>d. dl_id d \<noteq> rc_id r) (sc_deadlines s)) =
      {deadline_of j q t | j q t. j \<noteq> i \<and> slot_record s j = Some q \<and> deadline_for q = Some t}"
  proof (intro equalityI subsetI)
    fix d assume "d \<in> set (filter (\<lambda>d. dl_id d \<noteq> rc_id r) (sc_deadlines s))"
    then obtain j q t where "d = deadline_of j q t" "slot_record s j = Some q" "deadline_for q = Some t" "rc_id q \<noteq> rc_id r"
      using assms(2) id unfolding dated_def by auto
    then show "d \<in> {deadline_of j q t | j q t. j \<noteq> i \<and> slot_record s j = Some q \<and> deadline_for q = Some t}" using other by blast
  next
    fix d assume "d \<in> {deadline_of j q t | j q t. j \<noteq> i \<and> slot_record s j = Some q \<and> deadline_for q = Some t}"
    then obtain j q t where "d = deadline_of j q t" "slot_record s j = Some q" "deadline_for q = Some t" "rc_id q \<noteq> rc_id r"
      using other by blast
    then show "d \<in> set (filter (\<lambda>d. dl_id d \<noteq> rc_id r) (sc_deadlines s))" using assms(2) id unfolding dated_def by auto
  qed
qed

lemma store_update_goes:
  fixes shape :: shape and now :: int
  assumes "scene_ok s" and "slot_record s (unat x) = Some old" and "rc_id old = k"
    and "\<And>i r. slot_record s i = Some r \<Longrightarrow> \<not> deadline_is_due r now"
  defines "r \<equiv> \<lparr>rc_id = k, rc_shape = shape, rc_started_at =
      (if lifetime_index (sh_lifetime (rc_shape old)) = lifetime_index (sh_lifetime shape) then rc_started_at old else now)\<rparr>"
  obtains (full) "store_update k x shape now s = (Inr (Inl (fail Overflowed ''overlay revisions are exhausted'')), s)"
    | (stored) v where "store_update k x shape now s = (Inr (Inr ()), v)" and "goes s v" and "scene_ok v"
      and "shapes v = (if deadline_is_due r now then (shapes s)(k := None) else (shapes s)(k \<mapsto> r))"
proof -
  let ?due = "deadline_is_due r now"
  have core: "core_ok s" and dated: "dated s" using assms(1) by (simp_all add: scene_ok_def)
  have bound: "unat x < length (sc_entries s)" by (rule slot_record_bound [OF assms(2)])
  have live: "en_live (sc_entries s ! unat x)" "en_record (sc_entries s ! unat x) = old" using assms(2) by (auto simp: slot_record_def split: if_splits)
  show thesis
  proof (cases "revision_has_capacity (revision_count_for_mutation ?due) s")
    case False
    then show thesis using full bound live by (simp add: store_update_def Let_def r_def)
  next
    case True
    let ?t = "(remove_deadline k s)\<lparr>sc_entries := (sc_entries s)[unat x := (sc_entries s ! unat x)\<lparr>en_record := r\<rparr>]\<rparr>"
    have rec: "slot_record ?t = (slot_record s)(unat x \<mapsto> r)"
      using bound live by (auto simp: slot_record_def fun_eq_iff nth_list_update)
    have id: "rc_id r = k" by (simp add: r_def)
    have ok: "core_ok ?t"
      unfolding core_ok_def rec
    proof (intro conjI allI impI)
      have behind: "\<exists>q'. slot_record s i = Some q' \<and> rc_id q' = rc_id q" if "((slot_record s)(unat x \<mapsto> r)) i = Some q" for i q
        using that assms(2,3) id by (cases "i = unat x") simp_all
      show "length (sc_entries ?t) \<le> 2 ^ 32" "unat (sc_next_shape_slot ?t) \<le> 2 ^ 32" "distinct (sc_free_slots ?t)"
        using core by (simp_all add: core_ok_def)
      have "{i. i < length (sc_entries s) \<and> ((slot_record s)(unat x \<mapsto> r)) i = None} = {i. i < length (sc_entries s) \<and> slot_record s i = None}"
        using assms(2) by auto
      then show "unat ` set (sc_free_slots ?t) = {i. i < length (sc_entries ?t) \<and> ((slot_record s)(unat x \<mapsto> r)) i = None}"
        using core by (simp add: core_ok_def)
      fix i p assume p: "((slot_record s)(unat x \<mapsto> r)) i = Some p"
      obtain p' where p': "slot_record s i = Some p'" "rc_id p' = rc_id p" using behind [OF p] by blast
      show "si_epoch (rc_id p) = sc_epoch ?t" "unat (si_slot (rc_id p)) < unat (sc_next_shape_slot ?t)"
        using core_id [OF core p'(1)] p'(2) by simp_all
      fix j q assume q: "((slot_record s)(unat x \<mapsto> r)) j = Some q" and eq: "rc_id p = rc_id q"
      obtain q' where q': "slot_record s j = Some q'" "rc_id q' = rc_id q" using behind [OF q] by blast
      show "i = j" by (rule core_inj [OF core p'(1) q'(1)]) (use p'(2) q'(2) eq in simp)
    qed
    have shapes: "shapes ?t = (shapes s)(k \<mapsto> r)" using shapes_put [OF core ok rec] assms(2,3) id by simp
    have known: "shapes s k \<noteq> None" using shapes_iff [OF core, of k old] assms(2,3) by auto
    have ages: "ages s ?t" using known shapes by (simp add: ages_def issued_def)
    have room: "sc_revision s \<noteq> u64_max" "?due \<Longrightarrow> 1 \<le> unat (u64_max - (sc_revision s + 1))"
      using True revision_room [of 0 s] revision_room [of 1 s] by (auto simp: revision_has_capacity_def revision_count_for_mutation_def split: if_splits)
    let ?i = "insert_deadline r x ?t"
    have "dated (insert_deadline r (of_nat (unat x)) ?t)"
    proof (rule insert_deadline_dated [OF ok])
      show "slot_record ?t (unat x) = Some r" unfolding rec by simp
      note o = other_deadlines [OF core dated assms(2)]
      show "sorted_wrt deadline_less (sc_deadlines ?t)" using o(1) assms(3) by simp
      have "(j \<noteq> unat x \<and> slot_record ?t j = Some q \<and> deadline_for q = Some t) \<longleftrightarrow> (j \<noteq> unat x \<and> slot_record s j = Some q \<and> deadline_for q = Some t)" for j q t
        unfolding rec by auto
      then show "set (sc_deadlines ?t) = {deadline_of j q t | j q t. j \<noteq> unat x \<and> slot_record ?t j = Some q \<and> deadline_for q = Some t}"
        using o(2) assms(3) by simp
    qed
    then have dated_i: "dated ?i" by simp
    obtain u where u: "queue_change (Upsert r) ?i = (Inr (), u)" "goes s u" "u = ?i\<lparr>sc_pending := sc_pending u, sc_revision := sc_revision s + 1\<rparr>"
    proof (rule queue_change_goes [of ?i s "Upsert r"])
      have "same_queue s ?t" by (simp add: same_queue_def remove_deadline_def)
      then show "same_queue s ?i" by simp
      show "shapes ?i = apply_change (Upsert r) (shapes s)" using shapes id by simp
    qed (use ok ages room in simp_all)
    have u': "sc_revision u = sc_revision s + 1" "slot_record u = (slot_record s)(unat x \<mapsto> r)"
      by (subst u(3), simp) (use queue_change_room [OF u(1)] rec in simp_all)
    have "scene_ok u" using u(2) dated_i queue_change_room [OF u(1)] by (simp add: scene_ok_def goes_def dated_def)
    moreover have "?due \<and> i = unat x" if "slot_record u i = Some q" "deadline_is_due q now" for i q
      using that assms(4) unfolding u'(2) by (auto split: if_splits)
    ultimately obtain v where v: "drain_if ?due now u = (Inr (), v)" "goes u v" "scene_ok v"
      "\<And>i. slot_record v i = (case slot_record u i of None \<Rightarrow> None | Some r \<Rightarrow> if deadline_is_due r now then None else Some r)"
      using drain_if_goes [of u now ?due "unat x"] room(2) u'(1) by auto
    have eq: "store_update k x shape now s = (Inr (Inr ()), v)"
      using True bound live u(1) v(1) by (simp add: store_update_def Let_def and_then_def r_def)
    have "shapes v = (if ?due then (shapes s)(k := None) else (shapes s)(k \<mapsto> r))"
    proof -
      have core_v: "core_ok v" using v(3) by (simp add: scene_ok_def)
      have "slot_record v i = (if ?due then ((slot_record s)(unat x := None)) i else ((slot_record s)(unat x \<mapsto> r)) i)" for i
        unfolding v(4) u'(2) using assms(4) by (auto split: option.splits)
      then have "slot_record v = (if ?due then (slot_record s)(unat x := None) else (slot_record s)(unat x \<mapsto> r))" by (auto simp: fun_eq_iff)
      then show ?thesis
        using shapes_kill [OF core core_v assms(2)] shapes_cong [OF ok core_v] rec shapes assms(3) by (auto split: if_splits)
    qed
    then show thesis using stored [OF eq goes_trans [OF u(2) v(2)] v(3)] by blast
  qed
qed

lemma erase_entry_goes:
  assumes "scene_ok s" and "slot_record s (unat x) = Some r" and "rc_id r = k" and "revision_has_capacity 1 s"
  obtains u where "erase_entry k x s = (Inr (Inr ()), u)" and "goes s u" and "scene_ok u" and "shapes u = (shapes s)(k := None)"
proof -
  have core: "core_ok s" and dated: "dated s" using assms(1) by (simp_all add: scene_ok_def)
  have bound: "unat x < length (sc_entries s)" by (rule slot_record_bound [OF assms(2)])
  let ?t = "(remove_deadline k (s\<lparr>sc_entries := (sc_entries s)[unat x := dead_entry]\<rparr>))\<lparr>sc_free_slots := sc_free_slots s @ [x]\<rparr>"
  have t: "core_ok ?t" "slot_record ?t = (slot_record s)(unat x := None)" "shapes ?t = (shapes s)(rc_id r := None)" "ages s ?t"
    using kill_entry [OF core assms(2), of ?t] by simp_all
  have room: "sc_revision s \<noteq> u64_max" using assms(4) revision_room [of 0 s] by (simp add: revision_has_capacity_def)
  obtain u where u: "queue_change (RemoveShape k) ?t = (Inr (), u)" "goes s u"
    by (rule queue_change_goes [of ?t s "RemoveShape k"]) (use t assms(3) room in \<open>simp_all add: same_queue_def remove_deadline_def\<close>)
  note o = other_deadlines [OF core dated assms(2)]
  have "(slot_record ?t j = Some q \<and> deadline_for q = Some e) \<longleftrightarrow> (j \<noteq> unat x \<and> slot_record s j = Some q \<and> deadline_for q = Some e)" for j q e
    unfolding t(2) by auto
  then have "dated ?t" using o assms(3) by (simp add: dated_def)
  then have "scene_ok u" using u(2) queue_change_room [OF u(1)] by (simp add: scene_ok_def goes_def dated_def)
  moreover have "shapes u = (shapes s)(k := None)"
    using shapes_cong [of ?t u] t(1,3) u(2) queue_change_room(6) [OF u(1)] assms(3) by (simp add: goes_def)
  moreover have "erase_entry k x s = (Inr (Inr ()), u)" using bound u(1) by (simp add: erase_entry_def Let_def and_then_def)
  ultimately show thesis using that u(2) by blast
qed

end
