(* ===== verification/Overlay_Follow.thy ===== *)
theory Overlay_Follow
  imports Overlay_Edits
begin

text \<open>
  Every locked section of the overlay scene of \<open>src/kernel/presentation/overlay_scene.cpp\<close> keeps the invariant and queues the changes it
  makes, also when it throws.
\<close>

section \<open>Clearing\<close>

lemma queue_change_epoch: "queue_change c s = (e, t) \<Longrightarrow> sc_epoch t = sc_epoch s"
  by (auto simp: queue_change_def split: if_splits)

lemma expire_all_epoch: "expire_all ds s = (e, t) \<Longrightarrow> sc_epoch t = sc_epoch s"
proof (induction ds arbitrary: s)
  case (Cons d ds)
  then show ?case
    by (auto simp: and_then_def split: option.splits bool.splits prod.splits sum.splits dest!: queue_change_epoch)
qed simp

lemma drain_expired_epoch: "drain_expired now s = (e, t) \<Longrightarrow> sc_epoch t = sc_epoch s"
  by (auto simp: drain_expired_def Let_def and_then_def split: option.splits if_splits prod.splits sum.splits dest!: expire_all_epoch)

lemma reset_scene_ok:
  assumes "core_ok s" and "sc_epoch s \<noteq> u64_max"
  shows "scene_ok (reset_scene s)" and "shapes (reset_scene s) = Map.empty" and "ages s (reset_scene s)"
proof -
  let ?t = "reset_scene s"
  have none: "slot_record ?t i = None" for i by (simp add: slot_record_def reset_scene_def dead_entry_def)
  have len: "length (sc_entries s) \<le> 2 ^ 32" using assms(1) by (simp add: core_ok_def)
  have slots: "unat (of_nat i :: u32) = i" if "i < length (sc_entries s)" for i using that len by (simp add: u32_index)
  have fields: "length (sc_entries ?t) = length (sc_entries s)" "set (sc_free_slots ?t) = of_nat ` {0..<length (sc_entries s)}"
    by (simp_all add: reset_scene_def)
  have "unat ` set (sc_free_slots ?t) = {i. i < length (sc_entries ?t) \<and> slot_record ?t i = None}"
    unfolding fields none using slots by (auto simp: image_iff)
  moreover have "inj_on (of_nat :: nat \<Rightarrow> u32) {0..<length (sc_entries s)}" using slots by (intro inj_onI) (metis atLeastLessThan_iff)
  then have "distinct (sc_free_slots ?t)" by (simp add: reset_scene_def distinct_map)
  moreover have "length (sc_entries ?t) \<le> 2 ^ 32" "unat (sc_next_shape_slot ?t) \<le> 2 ^ 32" using len by (simp_all add: reset_scene_def)
  ultimately have core: "core_ok ?t" unfolding core_ok_def by (simp add: none)
  have "sc_deadlines ?t = []" by (simp add: reset_scene_def)
  then show "scene_ok ?t" using core by (simp add: scene_ok_def dated_def none)
  show empty: "shapes ?t = Map.empty" by (rule map_eqI) (simp add: shapes_iff [OF core] none)
  have "unat (sc_epoch s + 1) = unat (sc_epoch s) + 1"
    using assms(2) by (simp add: u64_max_minus_one eq_neg_iff_add_eq_0 unatSuc add.commute)
  then have "issued ?t k" if "issued s k" for k using that by (auto simp: issued_def reset_scene_def)
  then show "ages s ?t" by (simp add: ages_def empty)
qed

lemma clear_goes:
  assumes "core_ok s" and "sc_epoch s \<noteq> u64_max"
  obtains u where "queue_change (ClearScene (sc_epoch (reset_scene s))) (reset_scene s) = (Inr (), u)" and "goes s u" and "scene_ok u"
    and "shapes u = Map.empty" and "sc_epoch u = sc_epoch s + 1"
proof -
  let ?t = "reset_scene s"
  let ?d = "\<lparr>sd_epoch = sc_epoch s + 1, sd_revision = 1, sd_change = ClearScene (sc_epoch s + 1)\<rparr>"
  let ?u = "?t\<lparr>sc_pending := sc_pending s @ [?d], sc_revision := 1\<rparr>"
  note t = reset_scene_ok [OF assms]
  have q: "queue_change (ClearScene (sc_epoch ?t)) ?t = (Inr (), ?u)" by (simp add: queue_change_def reset_scene_def u64_max_def)
  note same = queue_change_room [OF q]
  have shapes: "shapes ?u = Map.empty" using t(2) by (simp add: shapes_def live_records_def)
  have ok: "scene_ok ?u" using t(1) unfolding scene_ok_def core_ok_def dated_def same by simp
  have "unat (sc_epoch s + 1) = unat (sc_epoch s) + 1"
    using assms(2) by (simp add: u64_max_minus_one eq_neg_iff_add_eq_0 unatSuc add.commute)
  then have "next_delta (view s) ?d" by (simp add: next_delta_def view_def)
  moreover have "apply_delta ?d (view s) = view ?u" using shapes by (simp add: apply_delta_def view_def reset_scene_def)
  moreover have "sc_pending ?u = sc_pending s @ [?d]" "same_queue s ?u" by (simp_all add: same_queue_def reset_scene_def)
  ultimately have "emits s ?u" unfolding emits_def by (intro conjI exI [of _ "[?d]"]) simp_all
  moreover have "ages s ?u" using t(3) shapes t(2) by (simp add: ages_def issued_def)
  ultimately have "goes s ?u" using ok by (simp add: goes_def scene_ok_def)
  then show thesis using that [OF q _ ok shapes] by (simp add: reset_scene_def)
qed

section \<open>Sections\<close>

definition no_due :: "int \<Rightarrow> 'k overlay_scene \<Rightarrow> bool" where
  "no_due now s \<longleftrightarrow> (\<forall>i r. slot_record s i = Some r \<longrightarrow> \<not> deadline_is_due r now)"

definition keeps :: "'k overlay_scene \<Rightarrow> (scene_exception + 'a) \<times> 'k overlay_scene \<Rightarrow> bool" where
  "keeps s m \<longleftrightarrow> (\<exists>msg. m = (Inl (OverflowError msg), s)) \<or> (\<exists>a u. m = (Inr a, u) \<and> goes s u \<and> scene_ok u)"

lemma goes_refl: "scene_ok s \<Longrightarrow> goes s s"
  by (simp add: goes_def scene_ok_def emits_refl ages_refl)

lemma keepsI: "m = (Inr a, u) \<Longrightarrow> goes s u \<Longrightarrow> scene_ok u \<Longrightarrow> keeps s m"
  by (simp add: keeps_def)

lemma keeps_refl: "scene_ok s \<Longrightarrow> keeps s (Inr a, s)"
  by (simp add: keepsI goes_refl)

lemma drained:
  assumes "scene_ok s"
  obtains (thrown) "drain_expired now s = (Inl (OverflowError ''overlay revision overflow''), s)"
    | (drained) t where "drain_expired now s = (Inr (), t)" and "goes s t" and "scene_ok t" and "no_due now t"
      and "\<And>i. slot_record t i = (case slot_record s i of None \<Rightarrow> None | Some r \<Rightarrow> if deadline_is_due r now then None else Some r)"
proof -
  consider "drain_expired now s = (Inl (OverflowError ''overlay revision overflow''), s)"
    | t where "drain_expired now s = (Inr (), t)" "goes s t" "scene_ok t"
      "\<forall>i. slot_record t i = (case slot_record s i of None \<Rightarrow> None | Some r \<Rightarrow> if deadline_is_due r now then None else Some r)"
    using drain_expired_goes(1) [OF assms, of now] by blast
  then show thesis
  proof cases
    case 1
    then show thesis by (rule thrown)
  next
    case (2 t)
    moreover have "no_due now t" unfolding no_due_def using 2(4) by (auto split: option.splits if_splits)
    ultimately show thesis using drained by blast
  qed
qed

lemma section_keeps:
  assumes "scene_ok s"
    and "\<And>t. drain_expired now s = (Inr (), t) \<Longrightarrow> goes s t \<Longrightarrow> scene_ok t \<Longrightarrow> no_due now t \<Longrightarrow> \<exists>a u. f () t = (Inr a, u) \<and> goes t u \<and> scene_ok u"
  shows "keeps s (and_then (drain_expired now s) f)"
  using assms(1)
proof (cases rule: drained [of s now])
  case thrown
  then show ?thesis by (simp add: keeps_def and_then_def)
next
  case (drained t)
  from assms(2) [OF this(1-4)] obtain a u where "f () t = (Inr a, u)" "goes t u" "scene_ok u" by blast
  then show ?thesis using drained(1) goes_trans [OF drained(2)] by (intro keepsI [of _ a u]) (simp_all add: and_then_def)
qed

lemma add_body:
  assumes "scene_ok t" and "no_due now t"
  shows "\<exists>a u. (if \<not> shape_is_valid shape then (Inr (Inl (fail InvalidArgument ''overlay shape geometry is invalid'')), t)
       else case choose_slot t of Inl e \<Rightarrow> (Inr (Inl e), t) | Inr (slot, reuses) \<Rightarrow> store_new slot reuses shape now t) = (Inr a, u) \<and>
     goes t u \<and> scene_ok u \<and> (\<forall>k. a = Inr k \<longrightarrow> \<not> issued t k \<and> issued u k)"
proof -
  have same: "goes t t" by (rule goes_refl [OF assms(1)])
  show ?thesis
  proof (cases "shape_is_valid shape")
    case False
    then show ?thesis using same assms(1) by simp
  next
    case valid: True
    show ?thesis
    proof (cases "choose_slot t")
      case (Inl e)
      then show ?thesis using valid same assms(1) by simp
    next
      case (Inr c)
      obtain x reuses where c: "c = (x, reuses)" by force
      have nd: "\<not> deadline_is_due r now" if "slot_record t i = Some r" for i r using assms(2) that by (simp add: no_due_def)
      show ?thesis
        by (rule store_new_goes [where shape = shape, OF assms(1) Inr [unfolded c] nd]) (use valid Inr c same assms(1) in auto)
    qed
  qed
qed

lemma add_keeps: "scene_ok (s :: 'k overlay_scene) \<Longrightarrow> \<exists>m. add_shape shape now s = finish_section m \<and> keeps s m"
  unfolding add_shape_def
proof (rule exI, rule conjI [OF refl], erule section_keeps)
  fix t :: "'k overlay_scene" assume "scene_ok t" "no_due now t"
  then show "\<exists>a u. (if \<not> shape_is_valid shape then (Inr (Inl (fail InvalidArgument ''overlay shape geometry is invalid'')), t)
       else case choose_slot t of Inl e \<Rightarrow> (Inr (Inl e), t) | Inr (slot, reuses) \<Rightarrow> store_new slot reuses shape now t) = (Inr a, u) \<and>
     goes t u \<and> scene_ok u"
    using add_body [of t now shape] by blast
qed

lemma update_keeps: "scene_ok (s :: 'k overlay_scene) \<Longrightarrow> \<exists>m. update_shape k shape now s = finish_section m \<and> keeps s m"
  unfolding update_shape_def
proof (rule exI, rule conjI [OF refl], erule section_keeps)
  fix t :: "'k overlay_scene" assume t: "scene_ok t" "no_due now t"
  have same: "goes t t" by (rule goes_refl [OF t(1)])
  have core: "core_ok t" using t(1) by (simp add: scene_ok_def)
  show "\<exists>a u. (case found_slot k t of None \<Rightarrow> (Inr (Inl (fail StaleShape ''overlay shape id is stale'')), t)
       | Some slot \<Rightarrow> if \<not> shape_is_valid shape then (Inr (Inl (fail InvalidArgument ''overlay shape geometry is invalid'')), t)
           else store_update k slot shape now t) = (Inr a, u) \<and> goes t u \<and> scene_ok u"
  proof (cases "found_slot k t")
    case (Some x)
    obtain q where q: "slot_record t (unat x) = Some q" "rc_id q = k" using found_slot_iff(1) [OF core Some] by blast
    have nd: "\<not> deadline_is_due r now" if "slot_record t i = Some r" for i r using t(2) that by (simp add: no_due_def)
    show ?thesis by (rule store_update_goes [where shape = shape, OF t(1) q nd]) (use Some same t(1) in auto)
  qed (use same t(1) in simp)
qed

lemma remove_keeps: "scene_ok (s :: 'k overlay_scene) \<Longrightarrow> \<exists>m. remove_shape k now s = finish_section m \<and> keeps s m"
  unfolding remove_shape_def
proof (rule exI, rule conjI [OF refl], erule section_keeps)
  fix t :: "'k overlay_scene" assume t: "scene_ok t"
  have same: "goes t t" by (rule goes_refl [OF t(1)])
  have core: "core_ok t" using t by (simp add: scene_ok_def)
  show "\<exists>a u. (case found_slot k t of None \<Rightarrow> (Inr (Inl (fail StaleShape ''overlay shape id is stale'')), t)
       | Some slot \<Rightarrow> if \<not> revision_has_capacity 1 t then (Inr (Inl (fail Overflowed ''overlay revisions are exhausted'')), t)
           else erase_entry k slot t) = (Inr a, u) \<and> goes t u \<and> scene_ok u"
  proof (cases "found_slot k t")
    case (Some x)
    obtain q where q: "slot_record t (unat x) = Some q" "rc_id q = k" using found_slot_iff(1) [OF core Some] by blast
    show ?thesis
    proof (cases "revision_has_capacity 1 t")
      case True
      obtain u where "erase_entry k x t = (Inr (Inr ()), u)" "goes t u" "scene_ok u" by (rule erase_entry_goes [OF t q True])
      then show ?thesis using Some True by simp
    qed (use Some same t in simp)
  qed (use same t in simp)
qed

lemma clear_keeps:
  assumes "scene_ok s"
  shows "clear_scene now s = (Inl (OverflowError ''overlay scene epoch overflow''), s) \<or> (\<exists>m. clear_scene now s = finish_section m \<and> keeps s m)"
proof (cases "sc_epoch s = u64_max")
  case False
  have "keeps s (and_then (drain_expired now s) (\<lambda>_ s. let s = reset_scene s in queue_change (ClearScene (sc_epoch s)) s))"
    using assms
  proof (rule section_keeps)
    fix t assume t: "drain_expired now s = (Inr (), t)" "scene_ok t"
    have "core_ok t" "sc_epoch t \<noteq> u64_max" using t(2) drain_expired_epoch [OF t(1)] False by (simp_all add: scene_ok_def)
    then obtain u where "queue_change (ClearScene (sc_epoch (reset_scene t))) (reset_scene t) = (Inr (), u)" "goes t u" "scene_ok u"
      by (rule clear_goes)
    then show "\<exists>a u. (let s = reset_scene t in queue_change (ClearScene (sc_epoch s)) s) = (Inr a, u) \<and> goes t u \<and> scene_ok u"
      by (simp add: Let_def)
  qed
  then show ?thesis using False unfolding clear_scene_def by (simp only: if_False) blast
qed (simp add: clear_scene_def)

lemma snapshot_keeps: "scene_ok s \<Longrightarrow> \<exists>m. snapshot_scene now s = finish_section m \<and> keeps s m"
  unfolding snapshot_scene_def by (rule exI, rule conjI [OF refl], erule section_keeps) (simp add: goes_refl)

end
