(* ===== verification/Overlay_Traces.thy ===== *)
theory Overlay_Traces
  imports Overlay_Follow
begin

text \<open>
  Whole runs of the overlay scene of \<open>src/kernel/presentation/overlay_scene.cpp\<close>: any interleaving of the locked sections of its operations
  with those of the threads that publish its changes, the calls of the sink being between them.
\<close>

section \<open>The system\<close>

text \<open>A thread in \<open>drain_publications\<close>: before its locked section, or about to call the sink it read there with the change it took.\<close>

datatype 'k publisher = Taking | Calling scene_delta 'k

record 'k overlay_system =
  sy_scene :: "'k overlay_scene"
  sy_publishers :: "'k publisher list"
  sy_taken :: "(scene_delta \<times> 'k option) list"
  sy_calls :: "(scene_delta \<times> 'k) list"

definition new_overlay_system :: "'k overlay_system" where
  "new_overlay_system = \<lparr>sy_scene = new_scene, sy_publishers = [], sy_taken = [], sy_calls = []\<rparr>"

datatype 'k scene_event =
    DoAdd shape int
  | DoUpdate shape_id shape int
  | DoRemove shape_id int
  | DoClear int
  | DoSnapshot int
  | SetSink "'k option"
  | Publish nat bool

text \<open>An operation whose section says so goes on to publish; one that throws does not.\<close>

definition enter :: "(scene_exception + 'a \<times> bool) \<times> 'k overlay_scene \<Rightarrow> 'k overlay_system \<Rightarrow> 'k overlay_system" where
  "enter m y =
     (case m of
        (Inl e, s) \<Rightarrow> y\<lparr>sy_scene := s\<rparr>
      | (Inr (a, publish), s) \<Rightarrow> y\<lparr>sy_scene := s, sy_publishers := sy_publishers y @ (if publish then [Taking] else [])\<rparr>)"

text \<open>A turn of a thread in \<open>drain_publications\<close>: a locked section, or the call, which may throw.\<close>

definition publish_turn :: "nat \<Rightarrow> bool \<Rightarrow> 'k overlay_system \<Rightarrow> 'k overlay_system" where
  "publish_turn i throws y =
     (if i \<ge> length (sy_publishers y) then y
      else case sy_publishers y ! i of
             Taking \<Rightarrow>
               (case take_delta (sy_scene y) of
                  (None, s) \<Rightarrow> y\<lparr>sy_scene := s, sy_publishers := take i (sy_publishers y) @ drop (Suc i) (sy_publishers y)\<rparr>
                | (Some (d, sink), s) \<Rightarrow>
                    y\<lparr>sy_scene := s, sy_taken := sy_taken y @ [(d, sink)],
                      sy_publishers := (sy_publishers y)[i := (case sink of None \<Rightarrow> Taking | Some k \<Rightarrow> Calling d k)]\<rparr>)
           | Calling d k \<Rightarrow>
               y\<lparr>sy_scene := (if throws then count_failure (sy_scene y) else sy_scene y), sy_calls := sy_calls y @ [(d, k)],
                 sy_publishers := (sy_publishers y)[i := Taking]\<rparr>)"

fun scene_step :: "'k scene_event \<Rightarrow> 'k overlay_system \<Rightarrow> 'k overlay_system" where
  "scene_step (DoAdd shape now) y = enter (add_shape shape now (sy_scene y)) y"
| "scene_step (DoUpdate i shape now) y = enter (update_shape i shape now (sy_scene y)) y"
| "scene_step (DoRemove i now) y = enter (remove_shape i now (sy_scene y)) y"
| "scene_step (DoClear now) y = enter (clear_scene now (sy_scene y)) y"
| "scene_step (DoSnapshot now) y = enter (snapshot_scene now (sy_scene y)) y"
| "scene_step (SetSink sink) y = y\<lparr>sy_scene := set_delta_sink sink (sy_scene y)\<rparr>"
| "scene_step (Publish i throws) y = publish_turn i throws y"

definition scene_run :: "'k scene_event list \<Rightarrow> 'k overlay_system" where
  "scene_run steps = fold scene_step steps new_overlay_system"

section \<open>The invariant of runs\<close>

definition start :: replica where
  "start = \<lparr>rp_epoch = 0, rp_revision = 0, rp_shapes = Map.empty\<rparr>"

definition untaken :: "'k overlay_scene \<Rightarrow> scene_delta list" where
  "untaken s = drop (sc_cursor s) (sc_pending s)"

fun in_call :: "'k publisher \<Rightarrow> (scene_delta \<times> 'k) list" where
  "in_call Taking = []"
| "in_call (Calling d k) = [(d, k)]"

fun sunk :: "(scene_delta \<times> 'k option) list \<Rightarrow> (scene_delta \<times> 'k) list" where
  "sunk [] = []"
| "sunk ((d, None) # xs) = sunk xs"
| "sunk ((d, Some k) # xs) = (d, k) # sunk xs"

lemma sunk_append [simp]: "sunk (xs @ ys) = sunk xs @ sunk ys"
  by (induction xs rule: sunk.induct) simp_all

definition queue_ok :: "'k overlay_system \<Rightarrow> bool" where
  "queue_ok y \<longleftrightarrow> sc_cursor (sy_scene y) \<le> length (sc_pending (sy_scene y)) \<and>
     (if sc_publishing (sy_scene y) then length (sy_publishers y) = 1 else sy_publishers y = [] \<and> sc_pending (sy_scene y) = [])"

definition system_ok :: "'k overlay_system \<Rightarrow> bool" where
  "system_ok y \<longleftrightarrow> scene_ok (sy_scene y) \<and> queue_ok y \<and>
     follows start (map fst (sy_taken y) @ untaken (sy_scene y)) \<and>
     fold apply_delta (map fst (sy_taken y) @ untaken (sy_scene y)) start = view (sy_scene y) \<and>
     sy_calls y @ concat (map in_call (sy_publishers y)) = sunk (sy_taken y)"

lemma queue_fields:
  "scene_ok (s\<lparr>sc_publishing := b\<rparr>) = scene_ok s" "scene_ok (s\<lparr>sc_cursor := c\<rparr>) = scene_ok s" "scene_ok (s\<lparr>sc_pending := p\<rparr>) = scene_ok s"
  "scene_ok (s\<lparr>sc_sink := k\<rparr>) = scene_ok s" "scene_ok (s\<lparr>sc_publication_failures := x\<rparr>) = scene_ok s"
  "shapes (s\<lparr>sc_publishing := b\<rparr>) = shapes s" "shapes (s\<lparr>sc_cursor := c\<rparr>) = shapes s" "shapes (s\<lparr>sc_pending := p\<rparr>) = shapes s"
  "shapes (s\<lparr>sc_sink := k\<rparr>) = shapes s" "shapes (s\<lparr>sc_publication_failures := x\<rparr>) = shapes s"
  "view (s\<lparr>sc_publishing := b\<rparr>) = view s" "view (s\<lparr>sc_cursor := c\<rparr>) = view s" "view (s\<lparr>sc_pending := p\<rparr>) = view s"
  "view (s\<lparr>sc_sink := k\<rparr>) = view s" "view (s\<lparr>sc_publication_failures := x\<rparr>) = view s"
  by (simp_all add: scene_ok_def core_ok_def dated_def shapes_def live_records_def view_def)

lemma issued_fields:
  "issued (s\<lparr>sc_publishing := b\<rparr>) = issued s" "issued (s\<lparr>sc_cursor := c\<rparr>) = issued s" "issued (s\<lparr>sc_pending := p\<rparr>) = issued s"
  "issued (s\<lparr>sc_sink := k\<rparr>) = issued s" "issued (s\<lparr>sc_publication_failures := x\<rparr>) = issued s"
  by (simp_all add: issued_def fun_eq_iff)

lemma enter_ok:
  assumes "system_ok y" and "keeps (sy_scene y) m"
  shows "system_ok (enter (finish_section m) y)" and "ages (sy_scene y) (sy_scene (enter (finish_section m) y))"
proof -
  let ?s = "sy_scene y"
  have "system_ok (enter (finish_section m) y) \<and> ages ?s (sy_scene (enter (finish_section m) y))"
    using assms(2) unfolding keeps_def
  proof (elim disjE exE conjE)
    fix msg assume "m = (Inl (OverflowError msg), ?s)"
    then show ?thesis using assms(1) by (simp add: finish_section_def and_then_def enter_def ages_refl)
  next
    fix a u assume m: "m = (Inr a, u)" and goes: "goes ?s u" and ok: "scene_ok u"
    from goes obtain ds where ds: "sc_pending u = sc_pending ?s @ ds" "follows (view ?s) ds" "fold apply_delta ds (view ?s) = view u"
      and q: "same_queue ?s u" unfolding goes_def emits_def by blast
    have cursor: "sc_cursor ?s \<le> length (sc_pending ?s)" using assms(1) by (simp add: system_ok_def queue_ok_def)
    have rest: "untaken u = untaken ?s @ ds" using q cursor by (simp add: untaken_def ds(1) same_queue_def)
    obtain b v where v: "begin_publication u = (b, v)" by force
    have same: "scene_ok v = scene_ok u" "view v = view u" "untaken v = untaken u" "issued v = issued u" "shapes v = shapes u"
      using v by (auto simp: begin_publication_def untaken_def queue_fields issued_fields split: if_splits)
    let ?y = "y\<lparr>sy_scene := v, sy_publishers := sy_publishers y @ (if b then [Taking] else [])\<rparr>"
    have y: "enter (finish_section m) y = ?y" by (simp add: m v finish_section_def and_then_def enter_def)
    have "queue_ok ?y"
      using v assms(1) q cursor ds(1)
      by (auto simp: begin_publication_def system_ok_def queue_ok_def same_queue_def split: if_splits)
    moreover have "follows start ((map fst (sy_taken y) @ untaken ?s) @ ds)"
      "fold apply_delta ((map fst (sy_taken y) @ untaken ?s) @ ds) start = view u"
      using assms(1) ds(2,3) unfolding system_ok_def follows_append fold_append comp_apply by simp_all
    ultimately have "system_ok ?y" using assms(1) ok same rest by (simp add: system_ok_def)
    moreover have "ages ?s v" using goes same by (simp add: goes_def ages_def)
    ultimately show ?thesis using y by simp
  qed
  then show "system_ok (enter (finish_section m) y)" "ages ?s (sy_scene (enter (finish_section m) y))" by blast+
qed

lemma publish_turn_ok:
  assumes "system_ok y"
  shows "system_ok (publish_turn i throws y)" and "ages (sy_scene y) (sy_scene (publish_turn i throws y))"
proof -
  let ?s = "sy_scene y"
  have "system_ok (publish_turn i throws y) \<and> ages ?s (sy_scene (publish_turn i throws y))"
  proof (cases "i < length (sy_publishers y)")
    case False
    then show ?thesis using assms by (simp add: publish_turn_def ages_refl)
  next
    case True
    then have pub: "sc_publishing ?s" "length (sy_publishers y) = 1" using assms by (auto simp: system_ok_def queue_ok_def split: if_splits)
    have i: "i = 0" using True pub(2) by simp
    obtain p where p: "sy_publishers y = [p]" using pub(2) by (auto simp: length_Suc_conv)
    have cursor: "sc_cursor ?s \<le> length (sc_pending ?s)" using assms by (simp add: system_ok_def queue_ok_def)
    show ?thesis
    proof (cases p)
      case (Calling d k)
      then show ?thesis using assms i p pub
        by (simp add: publish_turn_def system_ok_def queue_ok_def count_failure_def queue_fields issued_fields untaken_def ages_def)
    next
      case Taking
      show ?thesis
      proof (cases "sc_cursor ?s = length (sc_pending ?s)")
        case True
        then show ?thesis using assms i p Taking pub
          by (simp add: publish_turn_def take_delta_def system_ok_def queue_ok_def queue_fields issued_fields untaken_def ages_def)
      next
        case False
        let ?d = "sc_pending ?s ! sc_cursor ?s"
        have "untaken ?s = ?d # untaken (?s\<lparr>sc_cursor := sc_cursor ?s + 1\<rparr>)"
          using False cursor by (simp add: untaken_def Cons_nth_drop_Suc)
        then show ?thesis using assms i p Taking pub False cursor
          by (simp add: publish_turn_def take_delta_def system_ok_def queue_ok_def queue_fields issued_fields ages_def split: option.split)
      qed
    qed
  qed
  then show "system_ok (publish_turn i throws y)" "ages ?s (sy_scene (publish_turn i throws y))" by blast+
qed

lemma step_ok:
  assumes "system_ok y"
  shows "system_ok (scene_step c y)" and "ages (sy_scene y) (sy_scene (scene_step c y))"
proof -
  have ok: "scene_ok (sy_scene y)" using assms by (simp add: system_ok_def)
  note enters = enter_ok [OF assms]
  have "system_ok (scene_step c y) \<and> ages (sy_scene y) (sy_scene (scene_step c y))"
  proof (cases c)
    case (DoAdd shape now)
    then show ?thesis using add_keeps [OF ok, of shape now] enters by auto
  next
    case (DoUpdate k shape now)
    then show ?thesis using update_keeps [OF ok, of k shape now] enters by auto
  next
    case (DoRemove k now)
    then show ?thesis using remove_keeps [OF ok, of k now] enters by auto
  next
    case (DoClear now)
    then show ?thesis using clear_keeps [OF ok, of now] enters assms by (auto simp: enter_def ages_refl)
  next
    case (DoSnapshot now)
    then show ?thesis using snapshot_keeps [OF ok, of now] enters by auto
  next
    case (SetSink k)
    then show ?thesis using assms by (simp add: set_delta_sink_def system_ok_def queue_ok_def queue_fields issued_fields untaken_def ages_def)
  next
    case (Publish i throws)
    then show ?thesis using publish_turn_ok [OF assms] by simp
  qed
  then show "system_ok (scene_step c y)" "ages (sy_scene y) (sy_scene (scene_step c y))" by blast+
qed

lemma new_overlay_system_ok: "system_ok new_overlay_system"
  by (simp add: system_ok_def new_overlay_system_def new_scene_def queue_ok_def scene_ok_def core_ok_def dated_def slot_record_def untaken_def start_def
      view_def shapes_def live_records_def)

lemma steps_ok: "system_ok y \<Longrightarrow> system_ok (fold scene_step steps y) \<and> ages (sy_scene y) (sy_scene (fold scene_step steps y))"
proof (induction steps arbitrary: y)
  case (Cons c steps)
  show ?case using Cons.IH [OF step_ok(1) [OF Cons.prems, of c]] step_ok(2) [OF Cons.prems, of c] by (auto intro: ages_trans)
qed (simp add: ages_refl)

lemma run_ok: "system_ok (scene_run steps)"
  unfolding scene_run_def by (rule conjunct1 [OF steps_ok [OF new_overlay_system_ok]])

lemma run_append: "scene_run (steps @ later) = fold scene_step later (scene_run steps)"
  by (simp add: scene_run_def)

lemma run_ages: "ages (sy_scene (scene_run steps)) (sy_scene (scene_run (steps @ later)))"
  unfolding run_append by (rule conjunct2 [OF steps_ok [OF run_ok]])


section \<open>Publication\<close>

text \<open>
  C28. In every run, the changes a publisher has taken and the changes that wait in the queue, in this order, lead a replica that starts empty
  through every revision of every epoch without a gap to exactly the shapes, epoch and revision of the scene; no change waits without a
  publisher; there is at most one publisher, and the calls of sinks are those for the changes taken while a sink was set, in their order.
\<close>

theorem replica_follows_scene:
  "let y = scene_run steps; changes = map fst (sy_taken y) @ untaken (sy_scene y)
   in follows start changes \<and> fold apply_delta changes start = view (sy_scene y) \<and>
      (untaken (sy_scene y) = [] \<or> length (sy_publishers y) = 1) \<and> length (sy_publishers y) \<le> 1 \<and>
      sy_calls y @ concat (map in_call (sy_publishers y)) = sunk (sy_taken y)"
  using run_ok [of steps] by (auto simp: system_ok_def queue_ok_def untaken_def Let_def split: if_splits)

definition turns_left :: "'k overlay_system \<Rightarrow> nat" where
  "turns_left y = (case sy_publishers y of [] \<Rightarrow> 0
     | p # ps \<Rightarrow> 1 + 2 * length (untaken (sy_scene y)) + (case p of Taking \<Rightarrow> 0 | Calling d k \<Rightarrow> 1))"

lemma publish_turn_progress:
  assumes "system_ok y" and "sy_publishers y \<noteq> []"
  shows "turns_left (publish_turn 0 throws y) < turns_left y" and "view (sy_scene (publish_turn 0 throws y)) = view (sy_scene y)"
proof -
  let ?s = "sy_scene y"
  have "length (sy_publishers y) = 1" and cursor: "sc_cursor ?s \<le> length (sc_pending ?s)"
    using assms by (auto simp: system_ok_def queue_ok_def split: if_splits)
  then obtain p where p: "sy_publishers y = [p]" by (auto simp: length_Suc_conv)
  have "turns_left (publish_turn 0 throws y) < turns_left y \<and> view (sy_scene (publish_turn 0 throws y)) = view ?s"
    using cursor p by (cases p) (auto simp: publish_turn_def take_delta_def turns_left_def untaken_def count_failure_def queue_fields split: option.split)
  then show "turns_left (publish_turn 0 throws y) < turns_left y" "view (sy_scene (publish_turn 0 throws y)) = view ?s" by blast+
qed

lemma publisher_drains:
  assumes "system_ok y" and "turns_left y \<le> n"
  shows "sy_publishers (fold scene_step (replicate n (Publish 0 throws)) y) = [] \<and>
    view (sy_scene (fold scene_step (replicate n (Publish 0 throws)) y)) = view (sy_scene y)"
  using assms
proof (induction n arbitrary: y)
  case 0
  then show ?case by (simp add: turns_left_def split: list.splits)
next
  case (Suc n)
  show ?case
  proof (cases "sy_publishers y = []")
    case True
    then show ?thesis using Suc.IH [OF Suc.prems(1)] by (simp add: publish_turn_def turns_left_def)
  next
    case False
    note p = publish_turn_progress [OF Suc.prems(1) False, of throws]
    show ?thesis using Suc.IH [OF publish_turn_ok(1) [OF Suc.prems(1)], of 0 throws] p Suc.prems(2) by simp
  qed
qed

text \<open>
  C29. Publication ends: after any run, with no other operation in between, the publisher needs at most two turns for each waiting change and
  two more, whether sinks throw or not. Then no thread publishes, the replica that applied the changes taken equals the scene, and every
  change taken while a sink was set has been given to it.
\<close>

theorem publication_catches_up:
  "let y = scene_run steps; z = fold scene_step (replicate (2 * length (untaken (sy_scene y)) + 2) (Publish 0 throws)) y
   in sy_publishers z = [] \<and> fold apply_delta (map fst (sy_taken z)) start = view (sy_scene y) \<and> sy_calls z = sunk (sy_taken z)"
proof -
  define y where "y = scene_run steps"
  define z where "z = fold scene_step (replicate (2 * length (untaken (sy_scene y)) + 2) (Publish 0 throws)) y"
  have ok: "system_ok y" by (simp add: y_def run_ok)
  have "turns_left y \<le> 2 * length (untaken (sy_scene y)) + 2" by (simp add: turns_left_def split: list.split publisher.split)
  then have drained: "sy_publishers z = []" "view (sy_scene z) = view (sy_scene y)" unfolding z_def using publisher_drains [OF ok] by blast+
  have "system_ok z" unfolding z_def by (rule conjunct1 [OF steps_ok [OF ok]])
  then show ?thesis using drained by (auto simp: system_ok_def queue_ok_def untaken_def Let_def y_def z_def split: if_splits)
qed

section \<open>Identities\<close>

definition stale_answer :: "(scene_exception + 'a result \<times> bool) \<Rightarrow> bool" where
  "stale_answer a =
     (case a of
        Inl e \<Rightarrow> e = OverflowError ''overlay revision overflow''
      | Inr (r, publish) \<Rightarrow> r = Inl (fail StaleShape ''overlay shape id is stale''))"

lemma finish_section_fields:
  assumes "finish_section (Inr a, u) = (Inr (b, p), t)"
  shows "b = a" and "issued t = issued u" and "shapes t = shapes u" and "view t = view u"
  using assms by (auto simp: finish_section_def and_then_def begin_publication_def queue_fields issued_fields split: if_splits)

lemma add_issues:
  assumes "scene_ok s" and "add_shape shape now s = (Inr (Inr k, p), t)"
  shows "\<not> issued s k" and "issued t k"
  using assms(1)
proof (atomize (full), cases rule: drained [of s now])
  case thrown
  then show "\<not> issued s k \<and> issued t k" using assms(2) by (simp add: add_shape_def and_then_def finish_section_def)
next
  case (drained d)
  obtain a u where u: "(if \<not> shape_is_valid shape then (Inr (Inl (fail InvalidArgument ''overlay shape geometry is invalid'')), d)
       else case choose_slot d of Inl e \<Rightarrow> (Inr (Inl e), d) | Inr (slot, reuses) \<Rightarrow> store_new slot reuses shape now d) = (Inr a, u)"
    "\<forall>k. a = Inr k \<longrightarrow> \<not> issued d k \<and> issued u k"
    using add_body [OF drained(3,4), of shape] by blast
  have "finish_section (Inr a, u) = (Inr (Inr k, p), t)" using assms(2) u(1) unfolding add_shape_def drained(1) by (simp add: and_then_def)
  from finish_section_fields [OF this] u(2) have "\<not> issued d k \<and> issued t k" by simp
  then show "\<not> issued s k \<and> issued t k" using drained(2) by (auto simp: goes_def ages_def)
qed

lemma stale_answers:
  assumes "scene_ok s" and "issued s k" and "shapes s k = None"
  shows "stale_answer (fst (update_shape k shape now s))" and "stale_answer (fst (remove_shape k now s))"
  using assms(1)
proof (atomize (full), cases rule: drained [of s now])
  case thrown
  then show "stale_answer (fst (update_shape k shape now s)) \<and> stale_answer (fst (remove_shape k now s))"
    by (simp add: update_shape_def remove_shape_def and_then_def finish_section_def stale_answer_def)
next
  case (drained d)
  have "shapes d k = None" using drained(2) assms(2,3) by (simp add: goes_def ages_def)
  moreover have "core_ok d" using drained(3) by (simp add: scene_ok_def)
  ultimately have "found_slot k d = None" by (simp add: found_slot_iff(2))
  then show "stale_answer (fst (update_shape k shape now s)) \<and> stale_answer (fst (remove_shape k now s))"
    using drained(1) by (simp add: update_shape_def remove_shape_def and_then_def finish_section_def stale_answer_def split: prod.split)
qed

text \<open>
  C30. An identity names one shape for ever: after add has given it out, in any later state no add gives it out again, and once its shape is
  gone (removed, expired or cleared) it stays gone whatever happens next, and update and remove answer that it is stale, unless the
  revisions run out while they let other shapes expire.
\<close>

theorem identities_never_return:
  assumes "fst (add_shape shape now (sy_scene (scene_run steps))) = Inr (Inr k, p)"
  shows "let y = scene_run (steps @ DoAdd shape now # later); z = scene_run (steps @ DoAdd shape now # later @ further)
    in fst (add_shape shape' now' (sy_scene y)) \<noteq> Inr (Inr k, p') \<and>
       (shapes (sy_scene y) k = None \<longrightarrow>
          shapes (sy_scene z) k = None \<and> stale_answer (fst (update_shape k shape' now' (sy_scene z))) \<and>
          stale_answer (fst (remove_shape k now' (sy_scene z))))"
proof -
  define x where "x = scene_run (steps @ [DoAdd shape now])"
  define y where "y = scene_run ((steps @ [DoAdd shape now]) @ later)"
  define z where "z = scene_run (((steps @ [DoAdd shape now]) @ later) @ further)"
  have ok: "scene_ok (sy_scene (scene_run st))" for st :: "'a scene_event list" using run_ok [of st] by (simp add: system_ok_def)
  obtain t where t: "add_shape shape now (sy_scene (scene_run steps)) = (Inr (Inr k, p), t)" using assms by (metis prod.collapse)
  then have "sy_scene x = t" by (simp add: x_def run_append enter_def)
  then have "issued (sy_scene x) k" using add_issues(2) [OF ok t] by simp
  then have y: "issued (sy_scene y) k" using run_ages [of "steps @ [DoAdd shape now]" later] by (simp add: x_def y_def ages_def)
  then have z: "issued (sy_scene z) k" "shapes (sy_scene y) k = None \<Longrightarrow> shapes (sy_scene z) k = None"
    using run_ages [of "(steps @ [DoAdd shape now]) @ later" further] unfolding y_def z_def ages_def by blast+
  have "fst (add_shape shape' now' (sy_scene y)) \<noteq> Inr (Inr k, p')"
  proof
    assume "fst (add_shape shape' now' (sy_scene y)) = Inr (Inr k, p')"
    then obtain u where "add_shape shape' now' (sy_scene y) = (Inr (Inr k, p'), u)" by (metis prod.collapse)
    then have "\<not> issued (sy_scene y) k" unfolding y_def by (rule add_issues(1) [OF ok])
    then show False using y by simp
  qed
  moreover have "stale_answer (fst (update_shape k shape' now' (sy_scene z)))" "stale_answer (fst (remove_shape k now' (sy_scene z)))"
    if "shapes (sy_scene y) k = None"
    using stale_answers [of "sy_scene z" k] z that ok unfolding z_def by blast+
  ultimately show ?thesis using z(2) by (simp add: y_def z_def Let_def)
qed

text \<open>The comparisons with the largest word, over binary integers.\<close>

lemma revision_has_capacity_code [code]: "revision_has_capacity count s \<longleftrightarrow> int count \<le> uint (u64_max - sc_revision s)"
proof -
  have "uint (u64_max - sc_revision s) = int (unat (u64_max - sc_revision s))" by simp
  then show ?thesis by (simp only: revision_has_capacity_def of_nat_le_iff)
qed

lemma choose_slot_code [code]:
  "choose_slot s =
     (if sc_next_shape_slot s > ucast maximum_slot then Inl (fail Overflowed ''overlay shape ids are exhausted'')
      else if sc_free_slots s \<noteq> [] then Inr (last (sc_free_slots s), True)
      else if int (length (sc_entries s)) > uint maximum_slot then Inl (fail Overflowed ''overlay shape storage is exhausted'')
      else Inr (of_nat (length (sc_entries s)), False))"
proof -
  have "uint maximum_slot = int (unat maximum_slot)" by simp
  then show ?thesis by (simp only: choose_slot_def of_nat_less_iff)
qed

definition sample_shape :: shape where
  "sample_shape = default_shape\<lparr>sh_geometry := RectGeometry \<lparr>sr_x = 0, sr_y = 0, sr_w = 0, sr_h = 0, sr_space = 0\<rparr>,
     sh_fill := Some \<lparr>col_r = 255, col_g = 0, col_b = 0, col_a = 255\<rparr>, sh_lifetime := Ttl 10\<rparr>"

theorem identities_never_return_witness:
  "let k = \<lparr>si_epoch = 0, si_slot = 0\<rparr>; steps = [SetSink (Some (7 :: nat))]; later = [DoSnapshot 15];
       y = scene_run (steps @ DoAdd sample_shape 3 # later); z = scene_run (steps @ DoAdd sample_shape 3 # later @ [DoAdd sample_shape 20])
   in fst (add_shape sample_shape 3 (sy_scene (scene_run steps))) = Inr (Inr k, True) \<and> shapes (sy_scene y) k = None \<and>
      fst (add_shape sample_shape 20 (sy_scene y)) \<noteq> Inr (Inr k, False) \<and> shapes (sy_scene z) k = None \<and>
      stale_answer (fst (remove_shape k 20 (sy_scene z)))"
proof -
  define k :: shape_id where "k = \<lparr>si_epoch = 0, si_slot = 0\<rparr>"
  have added: "fst (add_shape sample_shape 3 (sy_scene (scene_run [SetSink (Some (7 :: nat))]))) = Inr (Inr k, True)"
    unfolding k_def by code_simp
  have gone: "shapes (sy_scene (scene_run ([SetSink (Some (7 :: nat))] @ DoAdd sample_shape 3 # [DoSnapshot 15]))) k = None"
    unfolding k_def by code_simp
  show ?thesis
    using identities_never_return [OF added, of "[DoSnapshot 15]" "[DoAdd sample_shape 20]" sample_shape 20 False] added gone
    by (simp only: Let_def k_def [symmetric] simp_thms)
qed

section \<open>Snapshots\<close>

lemma record_less_trans: "record_less x y \<Longrightarrow> record_less y z \<Longrightarrow> record_less x z"
  by (auto simp: record_less_def)

lemma record_less_total:
  assumes "si_slot (rc_id x) \<noteq> si_slot (rc_id y)"
  shows "record_less x y \<or> record_less y x"
proof -
  have "band_rank a = band_rank b \<Longrightarrow> a = b" for a b by (cases a; cases b) simp_all
  then show ?thesis using assms unfolding record_less_def by (metis linorder_neqE)
qed

lemma set_insert_record: "set (insert_record r xs) = insert r (set xs)"
  by (induction xs) auto

lemma sorted_insert_record:
  assumes "sorted_wrt record_less xs" and "\<forall>x\<in>set xs. si_slot (rc_id x) \<noteq> si_slot (rc_id r)"
  shows "sorted_wrt record_less (insert_record r xs)"
  using assms
proof (induction xs)
  case (Cons x xs)
  then show ?case using record_less_total [of x r] by (auto simp: set_insert_record intro: record_less_trans)
qed simp

lemma sort_records_set: "set (sort_records xs) = set xs"
  unfolding sort_records_def by (induction xs) (simp_all add: set_insert_record)

lemma sort_records_sorted: "distinct (map (si_slot \<circ> rc_id) xs) \<Longrightarrow> sorted_wrt record_less (sort_records xs)"
proof (induction xs)
  case (Cons x xs)
  have "set (foldr insert_record xs []) = set xs" using sort_records_set [of xs] by (simp add: sort_records_def)
  then have "\<forall>y\<in>set (foldr insert_record xs []). si_slot (rc_id y) \<noteq> si_slot (rc_id x)" using Cons.prems by (auto simp: image_iff)
  moreover have "sorted_wrt record_less (foldr insert_record xs [])" using Cons by (simp add: sort_records_def)
  ultimately show ?case by (simp add: sort_records_def sorted_insert_record)
qed (simp add: sort_records_def)

lemma distinct_live_slots:
  assumes "core_ok s"
  shows "distinct (map (si_slot \<circ> rc_id) (live_records s))"
proof -
  have "inj_on si_slot (set (map rc_id (live_records s)))"
  proof (rule inj_onI)
    fix a b assume "a \<in> set (map rc_id (live_records s))" "b \<in> set (map rc_id (live_records s))" "si_slot a = si_slot b"
    moreover from this have "si_epoch a = sc_epoch s" "si_epoch b = sc_epoch s" using core_id(1) [OF assms] by (auto simp: live_records_iff)
    ultimately show "a = b" by (simp add: shape_id.equality)
  qed
  then have "distinct (map si_slot (map rc_id (live_records s)))" using distinct_live_ids [OF assms] by (simp only: distinct_map)
  then show ?thesis by simp
qed

lemma map_of_records:
  assumes "distinct (map rc_id (xs :: shape_record list))" and "distinct (map rc_id ys)" and "set xs = set ys"
  shows "map_of (map (\<lambda>r. (rc_id r, r)) xs) = map_of (map (\<lambda>r. (rc_id r, r)) ys)"
proof (rule map_eqI)
  fix k and v :: shape_record
  have "map_of (map (\<lambda>r. (rc_id r, r)) zs) k = Some v \<longleftrightarrow> v \<in> set zs \<and> rc_id v = k" if "distinct (map rc_id zs)" for zs
    using that by (subst map_of_eq_Some_iff) (auto simp: comp_def)
  then show "map_of (map (\<lambda>r. (rc_id r, r)) xs) k = Some v \<longleftrightarrow> map_of (map (\<lambda>r. (rc_id r, r)) ys) k = Some v" using assms by simp
qed

lemma sorted_distinct_ids:
  assumes "sorted_wrt record_less xs" and "\<And>x y. x \<in> set xs \<Longrightarrow> y \<in> set xs \<Longrightarrow> rc_id x = rc_id y \<Longrightarrow> x = y"
  shows "distinct (map rc_id xs)"
proof -
  have "sorted_wrt record_less zs \<Longrightarrow> distinct zs" for zs by (induction zs) (auto simp: record_less_def)
  then show ?thesis using assms by (auto simp: distinct_map inj_on_def)
qed

lemma snapshot_records:
  assumes "core_ok s"
  shows "map_of (map (\<lambda>r. (rc_id r, r)) (sort_records (live_records s))) = shapes s"
  unfolding shapes_def
proof (rule map_of_records [OF _ distinct_live_ids [OF assms] sort_records_set])
  show "distinct (map rc_id (sort_records (live_records s)))"
  proof (rule sorted_distinct_ids [OF sort_records_sorted [OF distinct_live_slots [OF assms]]])
    fix x y assume "x \<in> set (sort_records (live_records s))" "y \<in> set (sort_records (live_records s))" "rc_id x = rc_id y"
    then show "x = y" unfolding sort_records_set live_records_iff using core_inj [OF assms] by (metis option.inject)
  qed
qed

lemma due_ids:
  assumes "scene_ok s" and "fst (drain_expired now s) \<noteq> Inr ()"
  shows "unat (u64_max - sc_revision s) < card {k. \<exists>r. shapes s k = Some r \<and> deadline_is_due r now}"
proof -
  have core: "core_ok s" and dated: "dated s" using assms(1) by (simp_all add: scene_ok_def)
  let ?f = "filter (\<lambda>d. dl_expires_at d \<le> now) (sc_deadlines s)"
  let ?ks = "{k. \<exists>r. shapes s k = Some r \<and> deadline_is_due r now}"
  have "finite (dom (shapes s))" unfolding shapes_def by (rule finite_dom_map_of)
  then have fin: "finite ?ks" by (rule rev_finite_subset) auto
  have distinct: "distinct (map dl_entry_slot ?f)" using distinct_deadline_slots [OF core dated] by (rule distinct_map_filter)
  have "inj_on dl_id (set ?f)"
  proof (rule inj_onI)
    fix d e assume d: "d \<in> set ?f" and e: "e \<in> set ?f" and eq: "dl_id d = dl_id e"
    obtain i r where r: "slot_record s i = Some r" "dl_id d = rc_id r" "unat (dl_entry_slot d) = i"
      by (rule dated_due [OF core dated, of d]) (use d in auto)
    obtain j q where q: "slot_record s j = Some q" "dl_id e = rc_id q" "unat (dl_entry_slot e) = j"
      by (rule dated_due [OF core dated, of e]) (use e in auto)
    have "dl_entry_slot d = dl_entry_slot e" using core_inj [OF core r(1) q(1)] r q eq by (simp add: word_unat_eq_iff)
    then show "d = e" using distinct d e unfolding distinct_map by (metis inj_onD)
  qed
  then have "length ?f = card (dl_id ` set ?f)" using distinct by (metis card_image distinct_card distinct_map)
  moreover have "dl_id ` set ?f \<subseteq> ?ks"
  proof
    fix k assume "k \<in> dl_id ` set ?f"
    then obtain d where d: "d \<in> set (sc_deadlines s)" "dl_expires_at d \<le> now" "k = dl_id d" by auto
    obtain i r where r: "slot_record s i = Some r" "deadline_for r = Some (dl_expires_at d)" "dl_id d = rc_id r" by (rule dated_due [OF core dated d(1)])
    then have "shapes s k = Some r" using d(3) by (simp add: shapes_iff [OF core]) blast
    then show "k \<in> ?ks" using r(2) d(2) by (auto simp: deadline_is_due_def)
  qed
  ultimately have "length ?f \<le> card ?ks" using fin by (simp add: card_mono)
  moreover have "\<not> length ?f \<le> unat (u64_max - sc_revision s)" using drain_expired_goes(2) [OF assms(1), of now] assms(2) by blast
  ultimately show ?thesis by simp
qed

text \<open>
  C31. A snapshot in any run lists exactly the live shapes that are not due, in drawing order: by band, height and age, all different. It is the
  scene at the revision it names, which the replica of that revision equals. It throws only when more shapes are due than revisions are left,
  and then the scene is as before.
\<close>

theorem snapshot_exact:
  "let s = sy_scene (scene_run steps)
   in case snapshot_scene now s of
        (Inl e, t) \<Rightarrow> e = OverflowError ''overlay revision overflow'' \<and> t = s \<and>
          unat (u64_max - sc_revision s) < card {k. \<exists>r. shapes s k = Some r \<and> deadline_is_due r now}
      | (Inr (n, publish), t) \<Rightarrow>
          set (sn_shapes n) = {r. \<exists>k. shapes s k = Some r \<and> \<not> deadline_is_due r now} \<and> sorted_wrt record_less (sn_shapes n) \<and>
          sn_epoch n = sc_epoch s \<and>
          view t = \<lparr>rp_epoch = sn_epoch n, rp_revision = sn_through_revision n,
            rp_shapes = map_of (map (\<lambda>r. (rc_id r, r)) (sn_shapes n))\<rparr>"
proof -
  define s where "s = sy_scene (scene_run steps)"
  have ok: "scene_ok s" using run_ok [of steps] by (simp add: s_def system_ok_def)
  then have core: "core_ok s" by (simp add: scene_ok_def)
  let ?snap = "\<lambda>d. \<lparr>sn_epoch = sc_epoch d, sn_through_revision = sc_revision d, sn_shapes = sort_records (live_records d)\<rparr>"
  from ok show ?thesis
  proof (cases rule: drained [of s now])
    case thrown
    then show ?thesis unfolding Let_def s_def [symmetric] using due_ids [OF ok, of now] by (simp add: snapshot_scene_def and_then_def finish_section_def)
  next
    case (drained d)
    have core_d: "core_ok d" using drained(3) by (simp add: scene_ok_def)
    obtain p t where "begin_publication d = (p, t)" by force
    then have t: "finish_section (Inr (?snap d), d) = (Inr (?snap d, p), t)" by (simp add: finish_section_def and_then_def)
    have snap: "snapshot_scene now s = (Inr (?snap d, p), t)" using drained(1) t by (simp add: snapshot_scene_def and_then_def)
    have "slot_record d i = Some r \<longleftrightarrow> slot_record s i = Some r \<and> \<not> deadline_is_due r now" for i r
      unfolding drained(5) by (auto split: option.splits)
    then have "set (sort_records (live_records d)) = {r. \<exists>k. shapes s k = Some r \<and> \<not> deadline_is_due r now}"
      by (auto simp: sort_records_set live_records_iff shapes_iff [OF core])
    moreover have "sorted_wrt record_less (sort_records (live_records d))" by (rule sort_records_sorted [OF distinct_live_slots [OF core_d]])
    ultimately show ?thesis unfolding Let_def s_def [symmetric]
      using snap finish_section_fields(4) [OF t] drain_expired_epoch [OF drained(1)] by (simp add: view_def snapshot_records [OF core_d])
  qed
qed

end
