(* ===== verification/Spec2Isabelle.thy ===== *)
theory Spec2Isabelle
  imports Topological_Order Graph_Delta Snapshot_Nav Target_Registry Rotation_Ledger Event_Bus Capability_Routing Watch_Schedule
    Gesture_Classifier Capture_Control State_Manager Player_Traces Overlay_Traces
begin

text \<open>
  A verification library for \<open>grab\<close>, a desktop-automation kernel in C++. The program observes a desktop
  (X11, AT-SPI, evdev and a browser extension deliver events and semantic trees), keeps graphs of what it
  sees, publishes events to subscribers, routes requests to the providers that can serve them, and writes
  captures to disk on a schedule. The library models the parts of it that decide: data structures,
  algorithms, state machines and policies. What talks to the operating system or to a third-party library
  is an argument of the model where a modelled part calls it, and is left out otherwise.

  \<^bold>\<open>Theories and sources\<close> (paths below the repository's root)

  \<^item> \<open>Prelude\<close>: machine integers as words, \<open>std::map\<close> as a key-sorted association list behind the locale
    \<open>ordered_map\<close>, and facts on sorted lists. Every component that keeps a \<open>std::map\<close> uses these.
  \<^item> \<open>Adjacency_Graph\<close> (\<open>src/kernel/graph/adjacency_graph.hpp\<close>): the graph with its two maps of sorted edge
    lists, every operation. Shown: the two maps stay mirror images of each other under any sequence of
    operations, and every operation implements its set-level specification.
  \<^item> \<open>Graph_Traversal\<close> (\<open>graph_traversal.hpp\<close>), \<open>Topological_Order\<close> (\<open>topological_order.hpp\<close>) and
    \<open>Graph_Delta\<close> (\<open>graph_delta.hpp\<close>): breadth- and depth-first search visit exactly the reachable nodes;
    Kahn's algorithm returns a topological order of an acyclic graph and nothing for a cyclic one; the merge
    of two snapshots equals the difference computed by lookups. The traversals take the successor
    function as an argument, as the templates do.
  \<^item> \<open>Errors\<close> (\<open>include/grab/result.hpp\<close>, \<open>trace.hpp\<close>, \<open>enum_table.hpp\<close>): the error codes, their
    descriptor table and lookups; \<open>error + 'a\<close> is \<open>Result\<close>.
  \<^item> \<open>Events\<close> (\<open>event.hpp\<close>, \<open>event_descriptor.hpp\<close>, \<open>ids.hpp\<close>, \<open>space.hpp\<close>): events and payloads, the
    table of kinds, wire names, UUID text. A \<open>double\<close> is its bit pattern.
  \<^item> \<open>Subscription_Queue\<close> and \<open>Event_Bus\<close> (\<open>src/kernel/events/event_bus.cpp\<close>): the ring buffer of a
    subscription with its overflow policies, and the bus: subscribe, publish, replay of current state,
    demand counts, closing and unsubscribing. The ring buffer refines a bounded sequence (locale
    \<open>bounded_queue\<close>); losses are announced, and without lag nothing is missing but coalesced mouse moves; deliveries are in sequence order in every run of the bus. The
    shared pointers of the source are addresses into a store; the mutex makes each operation one step,
    so a run is a sequence of operations.
  \<^item> \<open>Filename_Pattern\<close> (\<open>src/config/pattern.cpp\<close>), \<open>Paths\<close> (\<open>std::filesystem::path\<close>) and
    \<open>Rotation_Ledger\<close> (\<open>rotation.cpp\<close>): names are rendered from a pattern and recognised by
    backtracking; the ledger owns the files it recognises and prunes them by number, age and size. The file
    system is a record of functions on an arbitrary world, which may fail or change between calls; only
    the statement that the limit is kept assumes that nobody else changes it. The locale \<open>guarded_files\<close> carries what the
    ledger may remove, and \<open>metered_files\<close> that its runs return on a file system cut off after any number of calls, so that
    the statement covers adoptions that never return.
  \<^item> \<open>Watch_Schedule\<close> (\<open>src/config/schedule.cpp\<close>): captures at a fixed interval with overruns, interleaved
    with the steps of a script. Times are integers in nanoseconds.
  \<^item> \<open>Capability_Routing\<close> (\<open>src/kernel/routing\<close>, \<open>include/grab/capability.hpp\<close>): the registry, the prober
    and the resolver with its cache. Providers are arguments: a probe is a function on an arbitrary world.
  \<^item> \<open>Gesture_Classifier\<close> (\<open>src/kernel/input/gesture_classifier.cpp\<close>): the state machine from pointer events
    to moves, clicks, double clicks, holds and pauses. The two floating-point computations are arguments.
  \<^item> \<open>Target_Registry\<close> (\<open>src/kernel/graph/target_registry.cpp\<close>): durable identities of windows and
    applications, their aliases and surfaces. The three maps never disagree, aliases identify targets, surfaces have
    one owner.
  \<^item> \<open>Kahn\<close>: the counting walk that \<open>topological_order.hpp\<close> and the validation of the tree store share, as the locale
    \<open>successor_graph\<close>; it visits every node exactly when the graph is acyclic.
  \<^item> \<open>Ui_Snapshot\<close> (\<open>include/grab/ui.hpp\<close>, \<open>relation.hpp\<close>, \<open>src/spi/tree_source.hpp\<close>): nodes, properties,
    relations, immutable snapshots with their indexes, and the updates of a tree source.
  \<^item> \<open>Tree_Generation\<close>, \<open>Tree_Events\<close> and \<open>Tree_Store\<close> (\<open>src/kernel/graph/tree_store.cpp\<close>): an update is validated,
    built into a generation over an adjacency graph, compared with the generation before it by
    \<open>graph_difference\<close>, staged, and published by one thread at a time. Validation accepts exactly the well-formed trees, the events announce
    each difference of the snapshots once (differences of facets, which the code does not compare, excepted), every interleaving of updates with the publisher
    delivers them once and in order, and after a noted gap the first update accepted is a complete snapshot. \<open>publisher_step\<close> and \<open>system_step\<close> are the step relation: each locked section is one step.
  \<^item> \<open>Locator\<close> and \<open>Locator_Json\<close> (\<open>include/grab/locator.hpp\<close>, \<open>src/kernel/query/locator.cpp\<close>): the expression trees
    behind locators, their builders and their JSON form. The value type of the JSON library is a datatype; printing and
    parsing text, and the conversion of integers to \<open>double\<close>, are arguments. Builders and parser give well-formed plans, and reading
    back gives the locator again within the parser's node budget.
  \<^item> \<open>Query_Evaluator\<close>, \<open>Query_Semantics\<close> and \<open>Snapshot_Nav\<close> (\<open>src/kernel/query/evaluator.cpp\<close>, \<open>tree_nav.hpp\<close>,
    \<open>snapshot_tree_nav.cpp\<close>): a locator is evaluated at the nodes of a tree, which the evaluator walks with the searches of
    \<open>Graph_Traversal\<close>. The locale \<open>valid_navigation\<close> is what the evaluator's check establishes; it gives
    \<open>traversable_graph\<close> twice, for the two directions, and the snapshots that pass the tree store's validation interpret it. The evaluator
    decides the declarative meaning \<open>holds\<close>, queries return exactly the matching nodes of their scope, and every published tree can be queried.
  \<^item> \<open>Tile_Differ\<close> and \<open>Capture_Control\<close> (\<open>src/kernel/capture\<close>): which tiles of two images differ, whether announced damage
    can be trusted, and the gate that hands out one token per target. The dirty tiles are the tiles of the grid with a changed pixel and no read leaves the pixels; the
    gate's step relation never gives a target two tokens.
  \<^item> \<open>State_Manager\<close> (\<open>src/kernel/graph/state_manager.cpp\<close>, \<open>state_snapshot_provider.cpp\<close>): the open windows and the focus kept
    from events, and the provider that answers the bus's replays from its own subscription. The manager implements a map, replays
    rebuild it, and a drain ends at the first gap of the queue.
  \<^item> \<open>Commands\<close> (\<open>include/grab/sequence_types.hpp\<close>, \<open>command.hpp\<close>, \<open>command_descriptor.hpp\<close>): step identities, statuses, the
    table of commands and the steps of a document. \<open>Sequence\<close> (\<open>src/kernel/sequence/sequence.cpp\<close>): a document is stamped, its labels
    indexed, its dependencies entered into the adjacency graph and ordered with \<open>Topological_Order\<close>; it is accepted exactly when
    it is well-formed and acyclic.
  \<^item> \<open>Player\<close> (\<open>src/kernel/sequence/player.cpp\<close>): the run of a document, with the runner that carries out steps as an
    argument. \<open>Player_Index\<close> shows that the table of successors is the dependency relation. In \<open>Player_Runs\<close> the locale \<open>observed_runner\<close>
    says what the proofs know of a runner, namely which step its calls leave open; inside it \<open>Player_Runs\<close>, \<open>Player_Steps\<close>, \<open>Player_Pump\<close> and
    \<open>Player_Rounds\<close> show that every operation keeps the invariant of the player, and that a round of the pump that makes
    progress lowers a potential below the pump's limit. \<open>Player_Traces\<close> interprets the locale on every runner whose calls are recorded, and holds
    the properties of whole runs: any sequence of commands and pumps.
  \<^item> \<open>Overlay_Scene\<close> (\<open>src/kernel/presentation/overlay_scene.cpp\<close> and the scene types of \<open>include/grab/overlay.hpp\<close>): the shapes
    drawn over the desktop, with validity, lifetimes, every operation with its errors and exceptions, and the queue of changes. \<open>Overlay_Runs\<close> states
    the invariant and what a replica of the scene is; \<open>Overlay_Ops\<close>, \<open>Overlay_Edits\<close> and \<open>Overlay_Follow\<close> show that every locked section keeps
    the invariant and queues what it changes. \<open>Overlay_Traces\<close> interleaves the sections with the threads that publish, and holds the properties of
    whole runs: the replica follows the scene, publication ends, identities are never given out twice, snapshots are exact.

  \<^bold>\<open>Loops and bounds\<close>

  Loops are structural recursions over the sequence they walk, or \<open>function\<close>s with a measure; the two
  traversals and the loops of the ledger that wait for the file system are \<open>partial_function\<close>s into
  option, and that they return is part of what is proved (on finite graphs, and on a file system that nobody
  else changes). No fuel is used; the pump of the player counts its rounds down from a limit as the source does, and it is shown that
  the limit is never reached while there is progress. Sizes and counters keep their width where the source can reach it: sequence
  numbers and subscription counters are 64-bit words, the ledger's byte counts saturate as in the source.

  \<^bold>\<open>Not modelled\<close>

  Drivers (X11, AT-SPI, evdev, browser extension), the overlay rasteriser and the animations (floating
  point throughout), the reactor and timer threads, process and session supervision, front ends and RPC
  glue, image codecs and storage: they are calls into system and third-party libraries, or arithmetic on
  \<open>double\<close>. The configuration loader and the reader of sequence documents rest on third-party TOML and JSON parsers; the runners behind
  the player and the actions rest on the drivers. The library does not cover them.
\<close>

end
